(* ===== verification/Prelude.thy ===== *)
theory Prelude
  imports Main "HOL-Library.Word" "HOL-Library.Monad_Syntax"
begin

text \<open>
  Shared vocabulary of the development.

  \<^item> Machine types of the C sources (\<open>uint8_t\<close> \<dots> \<open>uint64_t\<close>) as words, byte buffers as
    lists of bytes, IPv4 and MAC addresses (\<open>uint8_t[4]\<close>, \<open>uint8_t[6]\<close>) as tuples.
  \<^item> A C function that can reach undefined behaviour (an index outside its buffer, a null
    pointer, a division by zero) returns an \<open>option\<close>: \<open>None\<close> is that fault and never an error
    code of the program. Error codes are ordinary results.
  \<^item> Big- and little-endian reads and writes, as the drivers spell them.
  \<^item> C strings as lists of non-zero bytes.
  \<^item> A locale for event-driven components: what a run of events keeps of an invariant.
\<close>

unbundle bit_operations_syntax

section \<open>Machine types\<close>

type_synonym u8 = "8 word"
type_synonym u16 = "16 word"
type_synonym u32 = "32 word"
type_synonym u64 = "64 word"
type_synonym bytes = "u8 list"
type_synonym ip4 = "u8 \<times> u8 \<times> u8 \<times> u8"
type_synonym mac6 = "u8 \<times> u8 \<times> u8 \<times> u8 \<times> u8 \<times> u8"

named_theorems buf_simps \<open>reads and writes of byte buffers\<close>
named_theorems fault_simps \<open>unfolding of computations that may fault\<close>

text \<open>Error numbers of kernel/errno.h that several parts return, and the SWI chunk of the Ethernet driver.\<close>

definition ENOEXEC :: int where "ENOEXEC = 8"
definition ENOMEM :: int where "ENOMEM = 12"
definition ETHERGE_SWI_BASE :: u32 where "ETHERGE_SWI_BASE = 0x59F00"

fun ip_bytes :: "ip4 \<Rightarrow> bytes" where
  "ip_bytes (a, b, c, d) = [a, b, c, d]"

fun mac_bytes :: "mac6 \<Rightarrow> bytes" where
  "mac_bytes (a, b, c, d, e, f) = [a, b, c, d, e, f]"

lemma length_ip_bytes [simp]: "length (ip_bytes p) = 4"
  by (cases p) simp

lemma length_mac_bytes [simp]: "length (mac_bytes m) = 6"
  by (cases m) simp

lemma ip_bytes_inject [simp]: "ip_bytes p = ip_bytes q \<longleftrightarrow> p = q"
  by (cases p; cases q) simp

lemma mac_bytes_inject [simp]: "mac_bytes p = mac_bytes q \<longleftrightarrow> p = q"
  by (cases p; cases q) simp

section \<open>Buffers\<close>

text \<open>\<open>buf[i]\<close> for a C \<open>int\<close> index: a fault outside the buffer.\<close>

definition rd :: "bytes \<Rightarrow> int \<Rightarrow> u8 option" where
  "rd b i = (if 0 \<le> i \<and> i < int (length b) then Some (b ! nat i) else None)"

text \<open>\<open>n\<close> consecutive reads from index \<open>i\<close> on.\<close>

definition rdn :: "bytes \<Rightarrow> int \<Rightarrow> nat \<Rightarrow> bytes option" where
  "rdn b i n = (if 0 \<le> i \<and> i + int n \<le> int (length b)
     then Some (take n (drop (nat i) b)) else None)"

text \<open>A store of the bytes \<open>xs\<close> at index \<open>i\<close>: a fault when they do not fit.\<close>

definition wrn :: "bytes \<Rightarrow> int \<Rightarrow> bytes \<Rightarrow> bytes option" where
  "wrn b i xs = (if 0 \<le> i \<and> i + int (length xs) \<le> int (length b)
     then Some (take (nat i) b @ xs @ drop (nat i + length xs) b) else None)"

definition rd_ip :: "bytes \<Rightarrow> int \<Rightarrow> ip4 option" where
  "rd_ip b i = do { a \<leftarrow> rd b i; c \<leftarrow> rd b (i + 1); d \<leftarrow> rd b (i + 2); e \<leftarrow> rd b (i + 3);
     Some (a, c, d, e) }"

definition rd_mac :: "bytes \<Rightarrow> int \<Rightarrow> mac6 option" where
  "rd_mac b i = do { a \<leftarrow> rd b i; c \<leftarrow> rd b (i + 1); d \<leftarrow> rd b (i + 2); e \<leftarrow> rd b (i + 3);
     f \<leftarrow> rd b (i + 4); g \<leftarrow> rd b (i + 5); Some (a, c, d, e, f, g) }"

lemma rd_Some [buf_simps]: "0 \<le> i \<Longrightarrow> i < int (length b) \<Longrightarrow> rd b i = Some (b ! nat i)"
  by (simp add: rd_def)

lemma rd_eq_Some_iff: "rd b i = Some x \<longleftrightarrow> 0 \<le> i \<and> i < int (length b) \<and> x = b ! nat i"
  by (auto simp: rd_def)

lemma rd_eq_None_iff: "rd b i = None \<longleftrightarrow> i < 0 \<or> int (length b) \<le> i"
  by (auto simp: rd_def)

lemma rdn_Some [buf_simps]:
  "0 \<le> i \<Longrightarrow> i + int n \<le> int (length b) \<Longrightarrow> rdn b i n = Some (take n (drop (nat i) b))"
  by (simp add: rdn_def)

lemma rdn_length: "rdn b i n = Some xs \<Longrightarrow> length xs = n"
  by (auto simp: rdn_def split: if_splits)

lemma wrn_Some [buf_simps]:
  "0 \<le> i \<Longrightarrow> i + int (length xs) \<le> int (length b) \<Longrightarrow>
   wrn b i xs = Some (take (nat i) b @ xs @ drop (nat i + length xs) b)"
  by (simp add: wrn_def)

lemma wrn_length: "wrn b i xs = Some b' \<Longrightarrow> length b' = length b"
  by (auto simp: wrn_def split: if_splits)

text \<open>A write is read back, and bytes outside it are untouched.\<close>

lemma wrn_rdn_same: "wrn b i xs = Some b' \<Longrightarrow> rdn b' i (length xs) = Some xs"
  by (auto simp: wrn_def rdn_def split: if_splits)

lemma wrn_nth_outside:
  assumes "wrn b i xs = Some b'" "j < length b" "int j < i \<or> i + int (length xs) \<le> int j"
  shows "b' ! j = b ! j"
proof -
  have b': "b' = take (nat i) b @ xs @ drop (nat i + length xs) b"
    and r: "0 \<le> i" "i + int (length xs) \<le> int (length b)"
    using assms(1) by (auto simp: wrn_def split: if_splits)
  show ?thesis
  proof (cases "int j < i")
    case True
    then have "j < nat i" by linarith
    then show ?thesis using r assms(2) by (simp add: b' nth_append)
  next
    case False
    then have "\<not> j < nat i" "\<not> j - nat i < length xs" using assms(3) r by linarith+
    then show ?thesis using r assms(2) by (simp add: b' nth_append)
  qed
qed

lemma wrn_nth:
  assumes "wrn b i xs = Some b'" "j < length b"
  shows "b' ! j = (if i \<le> int j \<and> int j < i + int (length xs) then xs ! nat (int j - i) else b ! j)"
proof (cases "i \<le> int j \<and> int j < i + int (length xs)")
  case True
  have b': "b' = take (nat i) b @ xs @ drop (nat i + length xs) b"
    and r: "0 \<le> i" "i + int (length xs) \<le> int (length b)"
    using assms(1) by (auto simp: wrn_def split: if_splits)
  have "\<not> j < nat i" "j - nat i < length xs" "nat (int j - i) = j - nat i"
    using True r by linarith+
  then show ?thesis using True r by (simp add: b' nth_append)
next
  case False
  then show ?thesis using wrn_nth_outside [OF assms] by auto
qed

lemma wrn_ex: "0 \<le> i \<Longrightarrow> i + int (length xs) \<le> int (length b) \<Longrightarrow> \<exists>b'. wrn b i xs = Some b' \<and> length b' = length b"
  by (simp add: wrn_def)

lemma rdn_eq_nthI:
  assumes "0 \<le> i" "i + int n \<le> int (length b)" "i + int n \<le> int (length c)"
    and "\<And>j. i \<le> int j \<Longrightarrow> int j < i + int n \<Longrightarrow> b ! j = c ! j"
  shows "rdn b i n = rdn c i n"
proof -
  have "take n (drop (nat i) b) = take n (drop (nat i) c)"
    by (rule nth_equalityI) (use assms in \<open>auto simp: nth_append\<close>)
  then show ?thesis using assms(1-3) by (simp add: rdn_def)
qed

lemma rd_ip_Some [buf_simps]:
  "0 \<le> i \<Longrightarrow> i + 3 < int (length b) \<Longrightarrow>
   rd_ip b i = Some (b ! nat i, b ! nat (i + 1), b ! nat (i + 2), b ! nat (i + 3))"
  by (simp add: rd_ip_def rd_def)

lemma rd_mac_Some [buf_simps]:
  "0 \<le> i \<Longrightarrow> i + 5 < int (length b) \<Longrightarrow>
   rd_mac b i = Some (b ! nat i, b ! nat (i + 1), b ! nat (i + 2), b ! nat (i + 3),
     b ! nat (i + 4), b ! nat (i + 5))"
  by (simp add: rd_mac_def rd_def)

text \<open>
  A computation that does not fault and whose result satisfies \<open>P\<close>. The rules walk through a
  sequence of reads and writes.
\<close>

definition safely :: "('a \<Rightarrow> bool) \<Rightarrow> 'a option \<Rightarrow> bool" where
  "safely P m \<longleftrightarrow> (\<exists>r. m = Some r \<and> P r)"

named_theorems safe_intros \<open>rules for sequences of reads and writes\<close>

lemma safely_Some [safe_intros]: "P r \<Longrightarrow> safely P (Some r)"
  by (simp add: safely_def)

lemma safely_wrn [safe_intros]:
  "0 \<le> i \<Longrightarrow> i + int (length xs) \<le> int (length b) \<Longrightarrow>
   (\<And>b'. length b' = length b \<Longrightarrow> safely P (f b')) \<Longrightarrow> safely P (Option.bind (wrn b i xs) f)"
  using wrn_ex [of i xs b] by (auto simp: safely_def)

lemma safely_rdn [safe_intros]:
  "0 \<le> i \<Longrightarrow> i + int n \<le> int (length b) \<Longrightarrow>
   (\<And>xs. length xs = n \<Longrightarrow> safely P (f xs)) \<Longrightarrow> safely P (Option.bind (rdn b i n) f)"
  by (simp add: rdn_def)

lemma safely_rd [safe_intros]:
  "0 \<le> i \<Longrightarrow> i < int (length b) \<Longrightarrow> (\<And>x. safely P (f x)) \<Longrightarrow> safely P (Option.bind (rd b i) f)"
  by (auto simp: safely_def rd_def)

lemma safely_bind: "safely Q m \<Longrightarrow> (\<And>x. Q x \<Longrightarrow> safely P (f x)) \<Longrightarrow> safely P (Option.bind m f)"
  by (auto simp: safely_def)

lemma safely_mono: "safely P m \<Longrightarrow> (\<And>x. P x \<Longrightarrow> Q x) \<Longrightarrow> safely Q m"
  by (auto simp: safely_def)

section \<open>Endianness\<close>

definition be16 :: "u8 \<Rightarrow> u8 \<Rightarrow> u16" where
  "be16 a b = (push_bit 8 (ucast a)) OR ucast b"

definition be32 :: "u8 \<Rightarrow> u8 \<Rightarrow> u8 \<Rightarrow> u8 \<Rightarrow> u32" where
  "be32 a b c d = (push_bit 24 (ucast a)) OR (push_bit 16 (ucast b)) OR
     (push_bit 8 (ucast c)) OR ucast d"

definition hi8 :: "u16 \<Rightarrow> u8" where
  "hi8 v = ucast (drop_bit 8 v)"

definition lo8 :: "u16 \<Rightarrow> u8" where
  "lo8 v = ucast v"

definition rd16be :: "bytes \<Rightarrow> int \<Rightarrow> u16 option" where
  "rd16be b i = do { x \<leftarrow> rd b i; y \<leftarrow> rd b (i + 1); Some (be16 x y) }"

definition rd32be :: "bytes \<Rightarrow> int \<Rightarrow> u32 option" where
  "rd32be b i = do { x \<leftarrow> rd b i; y \<leftarrow> rd b (i + 1); z \<leftarrow> rd b (i + 2); w \<leftarrow> rd b (i + 3);
     Some (be32 x y z w) }"

definition rd32le :: "bytes \<Rightarrow> int \<Rightarrow> u32 option" where
  "rd32le b i = do { x \<leftarrow> rd b i; y \<leftarrow> rd b (i + 1); z \<leftarrow> rd b (i + 2); w \<leftarrow> rd b (i + 3);
     Some (be32 w z y x) }"

text \<open>The bytes a 32-bit big-endian store writes.\<close>

definition be32_bytes :: "u32 \<Rightarrow> bytes" where
  "be32_bytes v = [ucast (drop_bit 24 v), ucast (drop_bit 16 v), ucast (drop_bit 8 v), ucast v]"

definition be16_bytes :: "u16 \<Rightarrow> bytes" where
  "be16_bytes v = [hi8 v, lo8 v]"

definition le32_bytes :: "u32 \<Rightarrow> bytes" where
  "le32_bytes v = rev (be32_bytes v)"

lemma length_be_bytes [simp]: "length (be32_bytes v) = 4" "length (be16_bytes w) = 2"
  by (simp_all add: be32_bytes_def be16_bytes_def)

lemma be32_be32_bytes [simp]:
  "be32 (ucast (drop_bit 24 v)) (ucast (drop_bit 16 v)) (ucast (drop_bit 8 v)) (ucast v) = v"
proof (rule bit_word_eqI)
  fix n
  assume "n < LENGTH(32)"
  then consider "n < 8" | "8 \<le> n" "n < 16" | "16 \<le> n" "n < 24" | "24 \<le> n" "n < 32" by fastforce
  then show "bit (be32 (ucast (drop_bit 24 v)) (ucast (drop_bit 16 v)) (ucast (drop_bit 8 v)) (ucast v)) n = bit v n"
    by cases (auto simp: be32_def bit_simps)
qed

text \<open>The remainder \<open>a % b\<close> of C for a positive \<open>b\<close>: it has the sign of \<open>a\<close>.\<close>

definition c_rem :: "int \<Rightarrow> int \<Rightarrow> int" where
  "c_rem a b = (if a < 0 then - ((- a) mod b) else a mod b)"

lemma c_rem_nonneg [simp]: "0 \<le> a \<Longrightarrow> c_rem a b = a mod b"
  by (simp add: c_rem_def)

lemma rd16be_Some [buf_simps]:
  "0 \<le> i \<Longrightarrow> i + 1 < int (length b) \<Longrightarrow> rd16be b i = Some (be16 (b ! nat i) (b ! nat (i + 1)))"
  by (simp add: rd16be_def rd_def)

lemma rd32be_Some [buf_simps]:
  "0 \<le> i \<Longrightarrow> i + 3 < int (length b) \<Longrightarrow>
   rd32be b i = Some (be32 (b ! nat i) (b ! nat (i + 1)) (b ! nat (i + 2)) (b ! nat (i + 3)))"
  by (simp add: rd32be_def rd_def)

lemma rd32le_Some [buf_simps]:
  "0 \<le> i \<Longrightarrow> i + 3 < int (length b) \<Longrightarrow>
   rd32le b i = Some (be32 (b ! nat (i + 3)) (b ! nat (i + 2)) (b ! nat (i + 1)) (b ! nat i))"
  by (simp add: rd32le_def rd_def)

lemma be16_hi_lo [simp]: "be16 (hi8 v) (lo8 v) = v"
  unfolding be16_def hi8_def lo8_def
  by (rule bit_word_eqI) (auto simp: bit_simps)

lemma hi8_be16 [simp]: "hi8 (be16 a b) = a"
  unfolding be16_def hi8_def
  by (rule bit_word_eqI) (auto simp: bit_simps dest: bit_imp_le_length)

lemma lo8_be16 [simp]: "lo8 (be16 a b) = b"
  unfolding be16_def lo8_def by (rule bit_word_eqI) (auto simp: bit_simps)

lemma unat_u8: "unat (a :: u8) < 256"
  using unsigned_less [of a, where 'a = nat] by simp

lemma unat_u16: "unat (a :: u16) < 65536"
  using unsigned_less [of a, where 'a = nat] by simp

lemma unat_u32: "unat (a :: u32) < 4294967296"
  using unsigned_less [of a, where 'a = nat] by simp

lemma unat_ucast_u8_u16 [simp]: "unat (ucast (a :: u8) :: u16) = unat a"
  using unat_u8 [of a] by (simp add: unsigned_ucast_eq take_bit_eq_mod)

lemma unat_ucast_u8_u32 [simp]: "unat (ucast (a :: u8) :: u32) = unat a"
  using unat_u8 [of a] by (simp add: unsigned_ucast_eq take_bit_eq_mod)

lemma unat_ucast_u16_u32 [simp]: "unat (ucast (a :: u16) :: u32) = unat a"
  using unat_u16 [of a] by (simp add: unsigned_ucast_eq take_bit_eq_mod)

lemma unat_be16: "unat (be16 a b) = 256 * unat a + unat b"
proof -
  have eq: "be16 a b = push_bit 8 (ucast a) + ucast b"
    unfolding be16_def
    by (subst disjunctive_add) (auto simp: bit_simps dest: bit_imp_le_length)
  have "unat (push_bit 8 (ucast a :: u16)) = 256 * unat a"
    using unat_u8 [of a] by (simp add: push_bit_eq_mult unat_word_ariths)
  moreover have "256 * unat a + unat b < 65536"
    using unat_u8 [of a] unat_u8 [of b] by linarith
  ultimately show ?thesis
    by (simp add: eq unat_word_ariths)
qed

section \<open>Event-driven components\<close>

text \<open>
  A component is a partial step function over events; \<open>None\<close> is a fault. An invariant that
  every step keeps holds after every fault-free run, and a step that cannot fault under the
  invariant gives runs that cannot fault.
\<close>

fun run_events :: "('s \<Rightarrow> 'e \<Rightarrow> 's option) \<Rightarrow> 's \<Rightarrow> 'e list \<Rightarrow> 's option" where
  "run_events step s [] = Some s"
| "run_events step s (e # es) = Option.bind (step s e) (\<lambda>s'. run_events step s' es)"

lemma run_events_append:
  "run_events step s (xs @ ys) = Option.bind (run_events step s xs) (\<lambda>t. run_events step t ys)"
  by (induction xs arbitrary: s) (simp_all split: bind_split)

locale event_system =
  fixes step :: "'s \<Rightarrow> 'e \<Rightarrow> 's option"
    and inv :: "'s \<Rightarrow> bool"
  assumes step_inv: "inv s \<Longrightarrow> step s e = Some s' \<Longrightarrow> inv s'"
begin

lemma run_inv: "inv s \<Longrightarrow> run_events step s es = Some s' \<Longrightarrow> inv s'"
  by (induction es arbitrary: s) (auto simp: bind_eq_Some_conv intro: step_inv)

end

text \<open>Where the steps enabled by \<open>ok\<close> never fault, neither does a run of them.\<close>

locale safe_event_system = event_system +
  fixes ok :: "'e \<Rightarrow> bool"
  assumes step_safe: "inv s \<Longrightarrow> ok e \<Longrightarrow> \<exists>s'. step s e = Some s'"
begin

lemma run_safe: "inv s \<Longrightarrow> list_all ok es \<Longrightarrow> \<exists>s'. run_events step s es = Some s' \<and> inv s'"
proof (induction es arbitrary: s)
  case (Cons e es)
  then obtain s1 where "step s e = Some s1" using step_safe by fastforce
  with Cons show ?case using step_inv by fastforce
qed simp

end

section \<open>Bounded queues\<close>

text \<open>Indices of a ring of \<open>n\<close> slots.\<close>

lemma mod_wrap:
  fixes a n :: int
  assumes "- n \<le> a" "a < 2 * n"
  shows "a mod n = (if a < 0 then a + n else if a < n then a else a - n)"
proof -
  consider "a < 0" | "0 \<le> a" "a < n" | "n \<le> a" by linarith
  then show ?thesis
  proof cases
    case 1
    then have "a mod n = (a + n) mod n" by simp
    also have "\<dots> = a + n" using 1 assms by (intro mod_pos_pos_trivial) linarith+
    finally show ?thesis using 1 by simp
  next
    case 3
    then have "a mod n = (a - n) mod n" by simp
    also have "\<dots> = a - n" using 3 assms by (intro mod_pos_pos_trivial) linarith+
    finally show ?thesis using 3 assms by simp
  qed simp
qed

text \<open>
  The contract of a bounded first-in first-out buffer: what does not fit is dropped at the
  end. Clients see it through the list of its items.
\<close>

datatype 'a fifo_op = Push "'a list" | Pop nat

text \<open>The abstract queue: its content, and what a run of operations has taken out of it.\<close>

fun fifo_spec :: "nat \<Rightarrow> 'a list \<Rightarrow> 'a fifo_op list \<Rightarrow> 'a list \<times> 'a list" where
  "fifo_spec cap q [] = (q, [])"
| "fifo_spec cap q (Push xs # ops) = fifo_spec cap (q @ take (cap - length q) xs) ops"
| "fifo_spec cap q (Pop n # ops) = (let (q', out) = fifo_spec cap (drop n q) ops in (q', take n q @ out))"

fun pushed :: "'a fifo_op list \<Rightarrow> 'a list" where
  "pushed [] = []"
| "pushed (Push xs # ops) = xs @ pushed ops"
| "pushed (Pop n # ops) = pushed ops"

text \<open>Every push of the run fits.\<close>

fun fits :: "nat \<Rightarrow> nat \<Rightarrow> 'a fifo_op list \<Rightarrow> bool" where
  "fits cap n [] = True"
| "fits cap n (Push xs # ops) = (n + length xs \<le> cap \<and> fits cap (n + length xs) ops)"
| "fits cap n (Pop k # ops) = fits cap (n - k) ops"

lemma fifo_spec_stream:
  "fits cap (length q) ops \<Longrightarrow> fifo_spec cap q ops = (q', out) \<Longrightarrow> out @ q' = q @ pushed ops"
proof (induction cap q ops arbitrary: out rule: fifo_spec.induct)
  case (2 cap q xs ops)
  then have "length xs \<le> cap - length q" by (simp add: le_diff_conv2)
  with 2 show ?case by (simp add: min_absorb1)
next
  case (3 cap q n ops)
  obtain r out' where r: "fifo_spec cap (drop n q) ops = (r, out')" by fastforce
  then have o: "q' = r" "out = take n q @ out'" using "3.prems"(2) by simp_all
  have "out' @ q' = drop n q @ pushed ops" using "3.IH" "3.prems"(1) r o by simp
  then show ?case using o by (metis append.assoc append_take_drop_id pushed.simps(3))
qed simp

locale bounded_fifo =
  fixes inv :: "'s \<Rightarrow> bool"
    and items :: "'s \<Rightarrow> 'a list"
    and push :: "'s \<Rightarrow> 'a list \<Rightarrow> 's option"
    and pop :: "'s \<Rightarrow> nat \<Rightarrow> ('s \<times> 'a list) option"
    and cap :: nat
  assumes push_spec: "inv s \<Longrightarrow> \<exists>s'. push s xs = Some s' \<and> inv s' \<and>
      items s' = items s @ take (cap - length (items s)) xs"
    and pop_spec: "inv s \<Longrightarrow> \<exists>s'. pop s n = Some (s', take n (items s)) \<and> inv s' \<and>
      items s' = drop n (items s)"
begin

fun run_ops :: "'s \<Rightarrow> 'a fifo_op list \<Rightarrow> ('s \<times> 'a list) option" where
  "run_ops s [] = Some (s, [])"
| "run_ops s (Push xs # ops) = do { s' \<leftarrow> push s xs; run_ops s' ops }"
| "run_ops s (Pop n # ops) = do { (s', ys) \<leftarrow> pop s n; (s'', zs) \<leftarrow> run_ops s' ops; Some (s'', ys @ zs) }"

text \<open>Every run of operations refines the run on the abstract queue.\<close>

lemma refines:
  "inv s \<Longrightarrow> \<exists>s' out. run_ops s ops = Some (s', out) \<and> inv s' \<and> fifo_spec cap (items s) ops = (items s', out)"
proof (induction s ops rule: run_ops.induct)
  case (2 s xs ops)
  then show ?case using push_spec [of s xs] by fastforce
next
  case (3 s n ops)
  then show ?case using pop_spec [of s n] by fastforce
qed simp

lemma stream:
  assumes "inv s" "fits cap (length (items s)) ops"
  shows "\<exists>s' out. run_ops s ops = Some (s', out) \<and> inv s' \<and> out @ items s' = items s @ pushed ops"
  using refines [OF assms(1)] fifo_spec_stream [OF assms(2)] by blast

end

end
