(* ===== verification/Inet.thy ===== *)
theory Inet
  imports Prelude
begin

text \<open>
  The Internet checksum. Three routines of the network stack compute it: \<open>ip_checksum\<close> of
  net/ipv4.c, \<open>_ip_cksum\<close> of net/dhcp.c and \<open>tcp_cksum\<close> of net/tcp.c. This theory holds the
  folding loop they share, the RFC 1071 reference value they are compared with, and a locale
  for what a client relies on: a header whose checksum field holds the computed value sums
  to zero at the receiver.
\<close>

section \<open>The folding loop\<close>

text \<open>\<open>while (ck >> 16) ck = (ck & 0xffff) + (ck >> 16);\<close>\<close>

lemma fold_step_unat:
  "unat ((ck AND 0xFFFF) + drop_bit 16 (ck :: u32)) = unat ck mod 65536 + unat ck div 65536"
proof -
  have "ck AND 0xFFFF = take_bit 16 ck"
    by (simp add: take_bit_eq_mask mask_eq_exp_minus_1)
  then have "unat (ck AND 0xFFFF) = unat ck mod 65536"
    by (simp add: unsigned_take_bit_eq) (simp add: take_bit_eq_mod)
  moreover have "unat (drop_bit 16 ck) = unat ck div 65536"
    by (simp add: drop_bit_eq_div unat_div)
  moreover have "unat ck mod 65536 + unat ck div 65536 < 2 ^ 32"
    using unat_u32 [of ck] mod_less_divisor [of 65536 "unat ck"]
    by (simp add: div_less_iff_less_mult)
  ultimately show ?thesis
    by (simp add: unat_word_ariths)
qed

lemma fold_guard_unat: "drop_bit 16 (ck :: u32) \<noteq> 0 \<longleftrightarrow> 65536 \<le> unat ck"
proof -
  have "unat (drop_bit 16 ck) = unat ck div 65536"
    by (simp add: drop_bit_eq_div unat_div)
  then show ?thesis
    by (metis div_eq_0_iff linorder_not_less unat_eq_zero zero_neq_numeral)
qed

function fold_ck :: "u32 \<Rightarrow> u32" where
  "fold_ck ck = (if drop_bit 16 ck \<noteq> 0 then fold_ck ((ck AND 0xFFFF) + drop_bit 16 ck) else ck)"
  by pat_completeness auto
termination
proof (relation "measure unat")
  fix ck :: u32
  assume "drop_bit 16 ck \<noteq> 0"
  then have "65536 \<le> unat ck" by (simp add: fold_guard_unat)
  moreover have "unat ck = 65536 * (unat ck div 65536) + unat ck mod 65536" by simp
  ultimately have "unat ck mod 65536 + unat ck div 65536 < unat ck" by linarith
  then show "((ck AND 0xFFFF) + drop_bit 16 ck, ck) \<in> measure unat"
    by (simp add: fold_step_unat)
qed simp

declare fold_ck.simps [simp del]

section \<open>The reference value\<close>

text \<open>The sum of the big-endian 16-bit words of a buffer, an odd last byte padded with zero.\<close>

fun words16 :: "bytes \<Rightarrow> nat" where
  "words16 [] = 0"
| "words16 [a] = 256 * unat a"
| "words16 (a # b # r) = 256 * unat a + unat b + words16 r"

text \<open>One's complement addition: a positive sum is reduced to \<open>1 \<dots> 65535\<close>.\<close>

definition ones_sum :: "nat \<Rightarrow> nat" where
  "ones_sum n = (if n = 0 then 0 else (n - 1) mod 65535 + 1)"

definition rfc1071 :: "bytes \<Rightarrow> u16" where
  "rfc1071 bs = of_nat (65535 - ones_sum (words16 bs))"

lemma ones_sum_less: "ones_sum n < 65536"
  using mod_less_divisor [of 65535 "n - 1"] by (simp add: ones_sum_def)

lemma unat_rfc1071: "unat (rfc1071 bs) = 65535 - ones_sum (words16 bs)"
  unfolding rfc1071_def by (simp only: unat_of_nat) simp

lemma ones_sum_fold: "65536 \<le> n \<Longrightarrow> ones_sum (n mod 65536 + n div 65536) = ones_sum n"
proof -
  assume n: "65536 \<le> n"
  define q r where "q = n div 65536" and "r = n mod 65536"
  have nq: "n = 65536 * q + r" by (simp add: q_def r_def)
  have q: "0 < q" using n by (simp add: q_def div_greater_zero_iff)
  have "n - 1 = 65535 * q + (q + r - 1)" using nq q by linarith
  then have "(n - 1) mod 65535 = (q + r - 1) mod 65535" by simp
  then show ?thesis
    using n q by (simp add: ones_sum_def flip: q_def r_def) (simp add: add.commute)
qed

lemma fold_ck_ones_sum: "unat (fold_ck ck) = ones_sum (unat ck)"
proof (induction ck rule: fold_ck.induct)
  case (1 ck)
  show ?case
  proof (cases "drop_bit 16 ck \<noteq> 0")
    case True
    then show ?thesis
      using "1.IH" ones_sum_fold [of "unat ck"]
      by (simp add: fold_ck.simps [of ck] fold_step_unat fold_guard_unat)
  next
    case False
    then have "unat ck < 65536" using fold_guard_unat [of ck] by linarith
    then show ?thesis
      using False by (cases "unat ck = 0") (auto simp: fold_ck.simps [of ck] ones_sum_def)
  qed
qed

text \<open>The last step of every routine: \<open>(uint16_t)(~ck & 0xffff)\<close>.\<close>

definition finish_ck :: "u32 \<Rightarrow> u16" where
  "finish_ck ck = ucast (NOT (fold_ck ck) AND 0xFFFF)"

lemma unat_finish_ck: "unat (finish_ck ck) = 65535 - ones_sum (unat ck)"
proof -
  have "NOT (fold_ck ck) AND 0xFFFF = take_bit 16 (NOT (fold_ck ck))"
    by (simp add: take_bit_eq_mask mask_eq_exp_minus_1)
  then have eq: "finish_ck ck = NOT (ucast (fold_ck ck))"
    unfolding finish_ck_def by (auto intro!: bit_word_eqI simp: bit_simps)
  have "unat (ucast (fold_ck ck) :: u16) = ones_sum (unat ck)"
    using ones_sum_less [of "unat ck"]
    by (simp add: unsigned_ucast_eq take_bit_eq_mod fold_ck_ones_sum)
  moreover have "NOT w = - 1 - w" for w :: u16
    by (simp add: not_eq_complement)
  then have "unat (NOT w) = 65535 - unat w" for w :: u16
    by (simp add: unat_sub word_n1_ge unsigned_minus_1_eq_mask mask_eq_exp_minus_1)
  ultimately show ?thesis
    by (simp add: eq)
qed


text \<open>The 32-bit term \<open>(p[i] << 8) | p[i + 1]\<close> the loops add.\<close>

lemma be16_u32: "push_bit 8 (ucast (a :: u8) :: u32) OR ucast (b :: u8) = of_nat (256 * unat a + unat b)"
proof -
  have "push_bit 8 (ucast a :: u32) OR ucast b = push_bit 8 (ucast a) + ucast b"
    by (rule sym, rule disjunctive_add) (auto simp: bit_simps dest: bit_imp_le_length)
  also have "\<dots> = of_nat (256 * unat a + unat b)"
    by (simp add: push_bit_eq_mult)
  finally show ?thesis .
qed

section \<open>Sums of concatenations\<close>

lemma words16_append: "even (length xs) \<Longrightarrow> words16 (xs @ ys) = words16 xs + words16 ys"
  by (induction xs rule: words16.induct) auto

lemma words16_le: "words16 xs \<le> 65535 * ((length xs + 1) div 2)"
proof (induction xs rule: words16.induct)
  case (2 a)
  then show ?case using unat_u8 [of a] by simp
next
  case (3 a b r)
  then show ?case using unat_u8 [of a] unat_u8 [of b] by simp
qed simp

lemma words16_u32: "length xs \<le> 65535 \<Longrightarrow> words16 xs < 2 ^ 32"
proof -
  assume "length xs \<le> 65535"
  then have "(length xs + 1) div 2 \<le> 32768" by linarith
  then show ?thesis using words16_le [of xs] by simp
qed

lemma finish_ck_words16: "length xs \<le> 65535 \<Longrightarrow> finish_ck (of_nat (words16 xs)) = rfc1071 xs"
proof -
  assume "length xs \<le> 65535"
  then have "unat (of_nat (words16 xs) :: u32) = words16 xs"
    using words16_u32 by (simp add: unat_of_nat)
  then have "unat (finish_ck (of_nat (words16 xs))) = 65535 - ones_sum (words16 xs)"
    by (simp add: unat_finish_ck)
  then show ?thesis
    by (simp add: unat_rfc1071 word_unat_eq_iff)
qed

text \<open>Adding the complement of a sum to it gives the all-ones word.\<close>

lemma ones_sum_complement: "ones_sum (n + (65535 - ones_sum n)) = 65535"
proof (cases "n = 0")
  case False
  then obtain m where m: "n = Suc m" by (cases n) auto
  define q r where "q = m div 65535" and "r = m mod 65535"
  have "m = 65535 * q + r" "r < 65535" by (simp_all add: q_def r_def)
  then have "n + (65535 - ones_sum n) - 1 = 65535 * q + 65534"
    by (simp add: ones_sum_def m flip: r_def)
  then have "(n + (65535 - ones_sum n) - 1) mod 65535 = 65534" by simp
  then show ?thesis using False by (simp add: ones_sum_def [of "n + _"])
qed (simp add: ones_sum_def)

section \<open>What a client relies on\<close>

text \<open>
  A checksum routine over whole buffers that agrees with the reference. The sender stores
  the value at an even offset over a zeroed field; the receiver's sum is then zero. Two
  buffers whose word sums differ modulo 65535 have different checksums.
\<close>

locale inet_cksum =
  fixes cks :: "bytes \<Rightarrow> u16"
  assumes cks_rfc1071: "length bs \<le> 65535 \<Longrightarrow> cks bs = rfc1071 bs"
begin

lemma verifies:
  assumes "even (length pre)" and "length (pre @ [0, 0] @ post) \<le> 65535"
    and "c = cks (pre @ [0, 0] @ post)"
  shows "cks (pre @ [hi8 c, lo8 c] @ post) = 0"
proof -
  let ?s = "words16 (pre @ [0, 0] @ post)"
  have c: "unat c = 65535 - ones_sum ?s"
    using assms(2,3) by (simp add: cks_rfc1071 unat_rfc1071)
  have "256 * unat (hi8 c) + unat (lo8 c) = unat c"
    using unat_be16 [of "hi8 c" "lo8 c"] by simp
  then have "words16 (pre @ [hi8 c, lo8 c] @ post) = ?s + (65535 - ones_sum ?s)"
    using assms(1) c by (simp add: words16_append)
  then show ?thesis
    using assms(2) by (simp add: cks_rfc1071 rfc1071_def ones_sum_complement)
qed

lemma detects:
  assumes "length xs \<le> 65535" "length ys \<le> 65535"
    and "words16 xs mod 65535 \<noteq> words16 ys mod 65535"
  shows "cks xs \<noteq> cks ys"
proof
  assume eq: "cks xs = cks ys"
  have "ones_sum (words16 xs) = ones_sum (words16 ys)"
    using arg_cong [OF eq, of unat] assms(1,2)
      ones_sum_less [of "words16 xs"] ones_sum_less [of "words16 ys"]
    by (simp add: cks_rfc1071 unat_rfc1071)
  moreover have "ones_sum n mod 65535 = n mod 65535" for n
    by (cases n) (auto simp: ones_sum_def mod_Suc_eq)
  ultimately show False using assms(3) by metis
qed

end

end
