(* ===== verification/Dhcp.thy ===== *)
theory Dhcp
  imports Inet
begin

text \<open>
  net/dhcp.c: the DHCP client. The static variables are the fields of \<open>dhcp_state\<close>
  (\<open>g_our_ip\<close> included), \<open>g_mac\<close> is \<open>None\<close> while the pointer is null, the milliseconds
  counter is an argument wherever the code reads it, and frames given to \<open>genet_send\<close> are
  returned. The blocking module entry \<open>dhcp_module_init\<close> takes the answers of the PHY, of the
  clock and of the receive ring as explicit lists, one element per iteration of its loops.
\<close>

section \<open>State\<close>

datatype dhcp_st = DHCP_ST_IDLE | DHCP_ST_DISCOVER | DHCP_ST_REQUEST | DHCP_ST_BOUND

record dhcp_state =
  g_dhcp_st :: dhcp_st
  g_dhcp_yiaddr :: ip4
  g_dhcp_srvid :: ip4
  g_dhcp_tries :: int
  g_dhcp_last_ms :: u32
  g_dhcp_netmask :: ip4
  g_dhcp_gateway :: ip4
  g_dhcp_dns :: ip4
  g_dhcp_lease_secs :: u32
  g_mac :: "mac6 option"
  g_our_ip :: ip4

definition DHCP_DISCOVER :: u8 where "DHCP_DISCOVER = 1"
definition DHCP_REQUEST :: u8 where "DHCP_REQUEST = 3"
definition DHCP_MSG_OFFER :: u8 where "DHCP_MSG_OFFER = 2"
definition DHCP_MSG_ACK :: u8 where "DHCP_MSG_ACK = 5"
definition DHCP_MSG_NAK :: u8 where "DHCP_MSG_NAK = 6"
definition DHCP_RETRANSMIT_MS :: u32 where "DHCP_RETRANSMIT_MS = 4000"
definition DHCP_MAX_TRIES :: int where "DHCP_MAX_TRIES = 5"
definition g_dhcp_xid :: ip4 where "g_dhcp_xid = (0x50, 0x48, 0x4F, 0x45)"
definition g_dhcp_static :: ip4 where "g_dhcp_static = (192, 168, 0, 200)"

lemmas dhcp_consts = DHCP_DISCOVER_def DHCP_REQUEST_def DHCP_MSG_OFFER_def DHCP_MSG_ACK_def
  DHCP_MSG_NAK_def DHCP_RETRANSMIT_MS_def DHCP_MAX_TRIES_def

text \<open>The initial values of the static variables.\<close>

definition dhcp_boot :: dhcp_state where
  "dhcp_boot = \<lparr>g_dhcp_st = DHCP_ST_IDLE, g_dhcp_yiaddr = (0, 0, 0, 0), g_dhcp_srvid = (0, 0, 0, 0),
     g_dhcp_tries = 0, g_dhcp_last_ms = 0, g_dhcp_netmask = (255, 255, 255, 0),
     g_dhcp_gateway = (0, 0, 0, 0), g_dhcp_dns = (0, 0, 0, 0), g_dhcp_lease_secs = 0,
     g_mac = None, g_our_ip = (0, 0, 0, 0)\<rparr>"

section \<open>Internal routines\<close>

text \<open>The loop \<open>for (i = 0; i < n; i += 2)\<close> of \<open>_ip_cksum\<close>, over \<open>p = buf + off\<close>.\<close>

function ip_cksum_sum :: "bytes \<Rightarrow> int \<Rightarrow> int \<Rightarrow> int \<Rightarrow> u32 \<Rightarrow> u32 option" where
  "ip_cksum_sum buf off n i s =
     (if i < n then do {
        a \<leftarrow> rd buf (off + i);
        b \<leftarrow> (if i + 1 < n then rd buf (off + i + 1) else Some 0);
        ip_cksum_sum buf off n (i + 2) (s + (push_bit 8 (ucast a) OR ucast b))
      } else Some s)"
  by pat_completeness auto
termination
  by (relation "measure (\<lambda>(buf, off, n, i, s). nat (n - i))") auto

declare ip_cksum_sum.simps [simp del]

definition ip_cksum :: "bytes \<Rightarrow> int \<Rightarrow> int \<Rightarrow> u16 option" where
  "ip_cksum buf off n = do { s \<leftarrow> ip_cksum_sum buf off n 0 0; Some (finish_ck s) }"

text \<open>\<open>_ms\<close>, from the system counter and its frequency; a frequency below 1 kHz divides by zero.\<close>

definition dhcp_ms :: "u64 \<Rightarrow> u64 \<Rightarrow> u32 option" where
  "dhcp_ms cnt freq = (if freq div 1000 = 0 then None else Some (ucast (cnt div (freq div 1000))))"

definition dhcp_options :: "u8 \<Rightarrow> ip4 \<Rightarrow> ip4 \<Rightarrow> bytes" where
  "dhcp_options ty yiaddr srvid =
     [53, 1, ty] @
     (if ty = DHCP_REQUEST then [50, 4] @ ip_bytes yiaddr @ [54, 4] @ ip_bytes srvid
      else [55, 4, 1, 3, 15, 6]) @ [0xFF]"

text \<open>The 342-byte frame of \<open>_dhcp_make\<close>, for a value \<open>ck\<close> of the IP header checksum.\<close>

definition dhcp_frame :: "mac6 \<Rightarrow> u8 \<Rightarrow> ip4 \<Rightarrow> ip4 \<Rightarrow> u16 \<Rightarrow> bytes" where
  "dhcp_frame mac ty yiaddr srvid ck =
     [0xFF, 0xFF, 0xFF, 0xFF, 0xFF, 0xFF] @ mac_bytes mac @ [0x08, 0x00] @
     [0x45, 0, 0x01, 0x48, 0, 0, 0x40, 0, 0x40, 0x11, hi8 ck, lo8 ck, 0, 0, 0, 0, 255, 255, 255, 255] @
     [0x00, 0x44, 0x00, 0x43, 0x01, 0x34, 0, 0] @
     [0x01, 0x01, 0x06, 0] @ ip_bytes g_dhcp_xid @ [0, 0, 0x80, 0] @ replicate 16 0 @
     mac_bytes mac @ replicate 202 0 @ [0x63, 0x82, 0x53, 0x63] @
     dhcp_options ty yiaddr srvid @ replicate (60 - length (dhcp_options ty yiaddr srvid)) 0"

definition dhcp_make :: "dhcp_state \<Rightarrow> u8 \<Rightarrow> bytes option" where
  "dhcp_make st ty = do {
     mac \<leftarrow> g_mac st;
     ck \<leftarrow> ip_cksum (dhcp_frame mac ty (g_dhcp_yiaddr st) (g_dhcp_srvid st) 0) 14 20;
     Some (dhcp_frame mac ty (g_dhcp_yiaddr st) (g_dhcp_srvid st) ck)
   }"

definition grat_arp_frame :: "mac6 \<Rightarrow> ip4 \<Rightarrow> bytes" where
  "grat_arp_frame mac ip =
     [0xFF, 0xFF, 0xFF, 0xFF, 0xFF, 0xFF] @ mac_bytes mac @ [0x08, 0x06] @
     [0x00, 0x01, 0x08, 0x00, 6, 4, 0x00, 0x02] @ mac_bytes mac @ ip_bytes ip @
     [0xFF, 0xFF, 0xFF, 0xFF, 0xFF, 0xFF] @ ip_bytes ip @ replicate 18 0"

definition send_grat_arp :: "dhcp_state \<Rightarrow> bytes option" where
  "send_grat_arp st = do { mac \<leftarrow> g_mac st; Some (grat_arp_frame mac (g_our_ip st)) }"

section \<open>Public API\<close>

definition dhcp_init :: "mac6 \<Rightarrow> dhcp_state \<Rightarrow> dhcp_state" where
  "dhcp_init mac st = st\<lparr>g_mac := Some mac, g_dhcp_st := DHCP_ST_IDLE, g_dhcp_tries := 0,
     g_dhcp_last_ms := 0, g_dhcp_yiaddr := (0, 0, 0, 0), g_dhcp_srvid := (0, 0, 0, 0),
     g_our_ip := (0, 0, 0, 0), g_dhcp_gateway := (0, 0, 0, 0), g_dhcp_dns := (0, 0, 0, 0),
     g_dhcp_netmask := (255, 255, 255, 0), g_dhcp_lease_secs := 0\<rparr>"

definition dhcp_start :: "u32 \<Rightarrow> dhcp_state \<Rightarrow> (dhcp_state \<times> bytes list) option" where
  "dhcp_start ms st =
     (if g_mac st = None then Some (st, [])
      else do {
        let st = st\<lparr>g_dhcp_st := DHCP_ST_DISCOVER, g_dhcp_tries := 1\<rparr>;
        disc \<leftarrow> dhcp_make st DHCP_DISCOVER;
        Some (st\<lparr>g_dhcp_last_ms := ms\<rparr>, [disc])
      })"

definition dhcp_tick :: "u32 \<Rightarrow> dhcp_state \<Rightarrow> (dhcp_state \<times> bytes list) option" where
  "dhcp_tick now_ms st =
     (if g_dhcp_st st \<noteq> DHCP_ST_DISCOVER \<and> g_dhcp_st st \<noteq> DHCP_ST_REQUEST then Some (st, [])
      else if now_ms - g_dhcp_last_ms st < DHCP_RETRANSMIT_MS then Some (st, [])
      else let st = st\<lparr>g_dhcp_last_ms := now_ms, g_dhcp_tries := g_dhcp_tries st + 1\<rparr> in
        if g_dhcp_tries st > DHCP_MAX_TRIES then do {
          let st = st\<lparr>g_our_ip := g_dhcp_static, g_dhcp_st := DHCP_ST_BOUND\<rparr>;
          garp \<leftarrow> send_grat_arp st;
          Some (st, [garp])
        } else do {
          let ty = (if g_dhcp_st st = DHCP_ST_DISCOVER then DHCP_DISCOVER else DHCP_REQUEST);
          retry \<leftarrow> dhcp_make st ty;
          Some (st, [retry])
        })"

text \<open>The local variables of the option parser.\<close>

record dhcp_opts =
  dmsg :: u8
  dsrv :: ip4
  dmask :: ip4
  dgw :: ip4
  ddns :: ip4
  dlease :: u32

definition dhcp_opts0 :: dhcp_opts where
  "dhcp_opts0 = \<lparr>dmsg = 0, dsrv = (0, 0, 0, 0), dmask = (255, 255, 255, 0), dgw = (0, 0, 0, 0),
     ddns = (0, 0, 0, 0), dlease = 0\<rparr>"

text \<open>The body of the option loop for one option, its value starting at \<open>p\<close>.\<close>

definition dhcp_opt :: "bytes \<Rightarrow> int \<Rightarrow> u8 \<Rightarrow> u8 \<Rightarrow> dhcp_opts \<Rightarrow> dhcp_opts option" where
  "dhcp_opt frame p tag tlen o0 = do {
     o1 \<leftarrow> (if tag = 53 \<and> 1 \<le> tlen then do { x \<leftarrow> rd frame p; Some (o0\<lparr>dmsg := x\<rparr>) } else Some o0);
     o2 \<leftarrow> (if tag = 1 \<and> 4 \<le> tlen then do { x \<leftarrow> rd_ip frame p; Some (o1\<lparr>dmask := x\<rparr>) } else Some o1);
     o3 \<leftarrow> (if tag = 3 \<and> 4 \<le> tlen then do { x \<leftarrow> rd_ip frame p; Some (o2\<lparr>dgw := x\<rparr>) } else Some o2);
     o4 \<leftarrow> (if tag = 6 \<and> 4 \<le> tlen then do { x \<leftarrow> rd_ip frame p; Some (o3\<lparr>ddns := x\<rparr>) } else Some o3);
     o5 \<leftarrow> (if tag = 51 \<and> 4 \<le> tlen then do { x \<leftarrow> rd32be frame p; Some (o4\<lparr>dlease := x\<rparr>) } else Some o4);
     (if tag = 54 \<and> 4 \<le> tlen then do { x \<leftarrow> rd_ip frame p; Some (o5\<lparr>dsrv := x\<rparr>) } else Some o5)
   }"

function dhcp_parse :: "bytes \<Rightarrow> int \<Rightarrow> int \<Rightarrow> dhcp_opts \<Rightarrow> dhcp_opts option" where
  "dhcp_parse frame len p o0 =
     (if p < len then do {
        tag \<leftarrow> rd frame p;
        if tag = 0xFF then Some o0
        else if tag = 0 then dhcp_parse frame len (p + 1) o0
        else if len \<le> p + 1 then Some o0
        else do {
          tlen \<leftarrow> rd frame (p + 1);
          o1 \<leftarrow> dhcp_opt frame (p + 2) tag tlen o0;
          dhcp_parse frame len (p + 2 + int (unat tlen)) o1
        }
      } else Some o0)"
  by pat_completeness auto
termination
  by (relation "measure (\<lambda>(frame, len, p, o0). nat (len - p))")
     (auto simp: unsigned_greater_eq intro: less_le_trans [of _ 0])

declare dhcp_parse.simps [simp del]

text \<open>The checks of \<open>dhcp_rx\<close> on a frame: the offset of the DHCP payload when all pass.\<close>

definition dhcp_accept :: "bytes \<Rightarrow> int \<Rightarrow> int option option" where
  "dhcp_accept frame len =
     (if len < 300 then Some None
      else do {
        proto \<leftarrow> rd frame 23;
        if proto \<noteq> 0x11 then Some None else do {
        vihl \<leftarrow> rd frame 14;
        let ihl = int (unat (vihl AND 0x0F)) * 4;
        let udp_off = 14 + ihl;
        let doff = udp_off + 8;
        udp_dp \<leftarrow> rd16be frame (udp_off + 2);
        if udp_dp \<noteq> 68 then Some None
        else if len < doff + 240 then Some None
        else do {
        op \<leftarrow> rd frame doff;
        if op \<noteq> 0x02 then Some None else do {
        xid \<leftarrow> rd_ip frame (doff + 4);
        if xid \<noteq> g_dhcp_xid then Some None else do {
        magic \<leftarrow> rd_ip frame (doff + 236);
        if magic \<noteq> (0x63, 0x82, 0x53, 0x63) then Some None else Some (Some doff)
        }}}}})"

definition dhcp_rx :: "u32 \<Rightarrow> dhcp_state \<Rightarrow> bytes \<Rightarrow> int \<Rightarrow> (dhcp_state \<times> bytes list) option" where
  "dhcp_rx ms st frame len =
     (if g_dhcp_st st = DHCP_ST_IDLE \<or> g_dhcp_st st = DHCP_ST_BOUND then Some (st, [])
      else do {
        acc \<leftarrow> dhcp_accept frame len;
        case acc of None \<Rightarrow> Some (st, []) | Some doff \<Rightarrow> do {
          o1 \<leftarrow> dhcp_parse frame len (doff + 240) dhcp_opts0;
          if dmsg o1 = DHCP_MSG_OFFER \<and> g_dhcp_st st = DHCP_ST_DISCOVER then do {
            yi \<leftarrow> rd_ip frame (doff + 16);
            let st = st\<lparr>g_dhcp_yiaddr := yi, g_dhcp_srvid := dsrv o1,
                        g_dhcp_st := DHCP_ST_REQUEST, g_dhcp_tries := 0\<rparr>;
            dreq \<leftarrow> dhcp_make st DHCP_REQUEST;
            Some (st\<lparr>g_dhcp_last_ms := ms\<rparr>, [dreq])
          } else if dmsg o1 = DHCP_MSG_ACK \<and> g_dhcp_st st = DHCP_ST_REQUEST then do {
            yi \<leftarrow> rd_ip frame (doff + 16);
            let st = st\<lparr>g_our_ip := yi, g_dhcp_netmask := dmask o1, g_dhcp_gateway := dgw o1,
                        g_dhcp_dns := ddns o1, g_dhcp_lease_secs := dlease o1,
                        g_dhcp_st := DHCP_ST_BOUND\<rparr>;
            garp \<leftarrow> send_grat_arp st;
            Some (st, [garp])
          } else if dmsg o1 = DHCP_MSG_NAK then
            Some (st\<lparr>g_dhcp_st := DHCP_ST_DISCOVER, g_dhcp_tries := 0,
                     g_dhcp_last_ms := ms - DHCP_RETRANSMIT_MS\<rparr>, [])
          else Some (st, [])
        }
      })"

definition dhcp_bound :: "dhcp_state \<Rightarrow> int" where
  "dhcp_bound st = (if g_dhcp_st st = DHCP_ST_BOUND then 1 else 0)"

definition dhcp_get_ip :: "dhcp_state \<Rightarrow> ip4" where
  "dhcp_get_ip st = g_our_ip st"

definition dhcp_get_gateway :: "dhcp_state \<Rightarrow> ip4" where
  "dhcp_get_gateway st = g_dhcp_gateway st"

definition dhcp_get_netmask :: "dhcp_state \<Rightarrow> ip4" where
  "dhcp_get_netmask st = g_dhcp_netmask st"

definition dhcp_get_dns :: "dhcp_state \<Rightarrow> ip4" where
  "dhcp_get_dns st = g_dhcp_dns st"

definition dhcp_get_lease_secs :: "dhcp_state \<Rightarrow> u32" where
  "dhcp_get_lease_secs st = g_dhcp_lease_secs st"

section \<open>Module entry points\<close>

text \<open>
  The wait for the carrier: each iteration asks the PHY and, while the link is down, reads
  the clock. \<open>Inl True\<close>: the link is up; \<open>Inl False\<close>: ten seconds have passed; \<open>Inr ()\<close>: still
  waiting when the list ends.
\<close>

fun dhcp_wait_link :: "u32 \<Rightarrow> (bool \<times> u32) list \<Rightarrow> bool + unit" where
  "dhcp_wait_link t0 [] = Inr ()"
| "dhcp_wait_link t0 ((up, ms) # r) =
     (if up then Inl True else if ms - t0 > 10000 then Inl False else dhcp_wait_link t0 r)"

text \<open>
  One iteration of the poll loop: the bytes \<open>genet_poll_rx\<close> delivered into \<open>s_frame\<close> (none for
  a result of 0 or -1) and the three readings of the clock.
\<close>

record dhcp_poll =
  dp_rx :: bytes
  dp_rx_ms :: u32
  dp_tick_ms :: u32
  dp_check_ms :: u32

text \<open>The poll loop; the flag says whether it has ended.\<close>

fun dhcp_poll_loop ::
  "u32 \<Rightarrow> bytes \<Rightarrow> dhcp_state \<Rightarrow> dhcp_poll list \<Rightarrow> (bool \<times> dhcp_state \<times> bytes list) option" where
  "dhcp_poll_loop t1 s_frame st [] = Some (dhcp_bound st \<noteq> 0, st, [])"
| "dhcp_poll_loop t1 s_frame st (i # is) =
     (if dhcp_bound st \<noteq> 0 then Some (True, st, [])
      else do {
        s_frame \<leftarrow> wrn s_frame 0 (dp_rx i);
        (st1, f1) \<leftarrow> (if dp_rx i \<noteq> [] then dhcp_rx (dp_rx_ms i) st s_frame (int (length (dp_rx i)))
                     else Some (st, []));
        (st2, f2) \<leftarrow> dhcp_tick (dp_tick_ms i) st1;
        if dp_check_ms i - t1 > 30000 then Some (True, st2, f1 @ f2)
        else do {
          (fin, st3, f3) \<leftarrow> dhcp_poll_loop t1 s_frame st2 is;
          Some (fin, st3, f1 @ f2 @ f3)
        }
      })"

definition GENET_MAX_FRAME :: nat where
  "GENET_MAX_FRAME = 1536"

definition dhcp_module_init ::
  "mac6 \<Rightarrow> u32 \<Rightarrow> (bool \<times> u32) list \<Rightarrow> u32 \<Rightarrow> u32 \<Rightarrow> bytes \<Rightarrow> dhcp_poll list \<Rightarrow> dhcp_state \<Rightarrow>
   (bool \<times> dhcp_state \<times> bytes list) option" where
  "dhcp_module_init g_genet_mac t0 links start_ms t1 s_frame polls st =
     (let st = dhcp_init g_genet_mac st in
      case dhcp_wait_link t0 links of
        Inr _ \<Rightarrow> Some (False, st, [])
      | Inl False \<Rightarrow> Some (True, st, [])
      | Inl True \<Rightarrow> do {
          (st, f1) \<leftarrow> dhcp_start start_ms st;
          (fin, st, f2) \<leftarrow> dhcp_poll_loop t1 s_frame st polls;
          Some (fin, st, f1 @ f2)
        })"

definition dhcp_module_final :: "dhcp_state \<Rightarrow> dhcp_state \<times> int" where
  "dhcp_module_final st = (st\<lparr>g_dhcp_st := DHCP_ST_IDLE\<rparr>, 0)"


section \<open>The checksum agrees with the reference\<close>

lemma ip_cksum_sum_words16:
  assumes "0 \<le> off" "0 \<le> i" "off + n \<le> int (length buf)"
  shows "ip_cksum_sum buf off n i s =
    Some (s + of_nat (words16 (take (nat (n - i)) (drop (nat (off + i)) buf))))"
  using assms
proof (induction buf off n i s rule: ip_cksum_sum.induct)
  case (1 buf off n i s)
  let ?k = "nat (off + i)"
  consider "i + 1 < n" | "i + 1 = n" | "n \<le> i" by linarith
  then show ?case
  proof cases
    case 1
    have k: "Suc ?k < length buf" using 1 "1.prems" by linarith
    have d: "drop ?k buf = buf ! ?k # buf ! Suc ?k # drop (Suc (Suc ?k)) buf"
      using k by (metis Cons_nth_drop_Suc Suc_lessD)
    have m: "nat (n - i) = Suc (Suc (nat (n - (i + 2))))" using 1 by linarith
    have r: "rd buf (off + i) = Some (buf ! ?k)" "rd buf (off + i + 1) = Some (buf ! Suc ?k)"
      using k "1.prems" by (simp_all add: rd_def nat_add_distrib)
    have n: "nat (off + (i + 2)) = Suc (Suc ?k)" using "1.prems" by linarith
    have "ip_cksum_sum buf off n i s
        = ip_cksum_sum buf off n (i + 2) (s + of_nat (256 * unat (buf ! ?k) + unat (buf ! Suc ?k)))"
      using 1 r by (simp add: ip_cksum_sum.simps [of buf off n i] be16_u32)
    then show ?thesis
      using "1.IH" [OF _ r(1), of "buf ! Suc ?k"] 1 "1.prems" r
      by (simp add: m n d be16_u32 add.assoc)
  next
    case 2
    have k: "?k < length buf" using 2 "1.prems" by linarith
    have d: "drop ?k buf = buf ! ?k # drop (Suc ?k) buf" using k by (metis Cons_nth_drop_Suc)
    have m: "nat (n - i) = Suc 0" using 2 by linarith
    have r: "rd buf (off + i) = Some (buf ! ?k)" using k "1.prems" by (simp add: rd_def)
    show ?thesis
      using 2 r be16_u32 [of "buf ! ?k" 0]
      by (simp add: ip_cksum_sum.simps [of buf off n i] ip_cksum_sum.simps [of buf off n "i + 2"] m d)
  next
    case 3
    then show ?thesis by (simp add: ip_cksum_sum.simps [of buf off n i])
  qed
qed

lemma ip_cksum_rfc1071:
  assumes "0 \<le> off" "0 \<le> n" "off + n \<le> int (length buf)" "n \<le> 65535"
  shows "ip_cksum buf off n = Some (rfc1071 (take (nat n) (drop (nat off) buf)))"
proof -
  have "length (take (nat n) (drop (nat off) buf)) \<le> 65535" using assms by simp
  then show ?thesis
    using ip_cksum_sum_words16 [of off 0 n buf 0] finish_ck_words16 assms by (simp add: ip_cksum_def)
qed

interpretation dhcpck: inet_cksum "\<lambda>bs. the (ip_cksum bs 0 (int (length bs)))"
  by unfold_locales (simp add: ip_cksum_rfc1071)

section \<open>The frames the client sends\<close>

lemma dhcp_frame_ip:
  "take 20 (drop 14 (dhcp_frame mac ty yi srv ck)) =
     [0x45, 0, 0x01, 0x48, 0, 0, 0x40, 0, 0x40, 0x11] @ [hi8 ck, lo8 ck] @ [0, 0, 0, 0, 255, 255, 255, 255]"
  by (cases mac) (simp add: dhcp_frame_def)

lemma length_dhcp_options: "length (dhcp_options ty yi srv) \<le> 60"
  by (simp add: dhcp_options_def)

lemma length_dhcp_frame [simp]: "length (dhcp_frame mac ty yi srv ck) = 342"
  using length_dhcp_options [of ty yi srv] by (simp add: dhcp_frame_def)

lemma dhcp_frame_options:
  "drop 282 (dhcp_frame mac ty yi srv ck) =
     dhcp_options ty yi srv @ replicate (60 - length (dhcp_options ty yi srv)) 0"
  by (cases mac; simp add: dhcp_frame_def)

lemma hi_lo_0 [simp]: "hi8 0 = 0" "lo8 0 = 0"
  by (simp_all add: hi8_def lo8_def)

text \<open>\<open>_dhcp_make\<close> never faults once the MAC address is set, and its header checksum verifies.\<close>

lemma dhcp_make_eq:
  assumes "g_mac st = Some mac"
  shows "\<exists>ck. dhcp_make st ty = Some (dhcp_frame mac ty (g_dhcp_yiaddr st) (g_dhcp_srvid st) ck) \<and>
    ip_cksum (dhcp_frame mac ty (g_dhcp_yiaddr st) (g_dhcp_srvid st) ck) 14 20 = Some 0"
proof -
  let ?pre = "[0x45, 0, 0x01, 0x48, 0, 0, 0x40, 0, 0x40, 0x11] :: bytes"
  let ?post = "[0, 0, 0, 0, 255, 255, 255, 255] :: bytes"
  define ck where "ck = rfc1071 (?pre @ [0, 0] @ ?post)"
  have "rfc1071 (?pre @ [hi8 ck, lo8 ck] @ ?post) = 0"
    using dhcpck.verifies [of ?pre ?post ck] by (simp add: ip_cksum_rfc1071 ck_def)
  then have "ip_cksum (dhcp_frame mac ty (g_dhcp_yiaddr st) (g_dhcp_srvid st) ck) 14 20 = Some 0"
    by (simp add: ip_cksum_rfc1071 dhcp_frame_ip)
  moreover have "ip_cksum (dhcp_frame mac ty (g_dhcp_yiaddr st) (g_dhcp_srvid st) 0) 14 20 = Some ck"
    by (simp add: ip_cksum_rfc1071 dhcp_frame_ip ck_def)
  ultimately show ?thesis using assms by (auto simp: dhcp_make_def)
qed

section \<open>The option parser\<close>

text \<open>The options field as a list of tag and value, and its encoding.\<close>

type_synonym tlv = "u8 \<times> bytes"

fun tlv_bytes :: "tlv list \<Rightarrow> bytes" where
  "tlv_bytes [] = []"
| "tlv_bytes ((t, v) # r) = [t, of_nat (length v)] @ v @ tlv_bytes r"

definition tlv_ok :: "tlv \<Rightarrow> bool" where
  "tlv_ok tv \<longleftrightarrow> fst tv \<noteq> 0 \<and> fst tv \<noteq> 0xFF \<and> length (snd tv) \<le> 255"

text \<open>What the client takes from one option.\<close>

definition ip_of :: "bytes \<Rightarrow> ip4" where
  "ip_of v = (v ! 0, v ! 1, v ! 2, v ! 3)"

fun take_option :: "tlv \<Rightarrow> dhcp_opts \<Rightarrow> dhcp_opts" where
  "take_option (t, v) o0 =
     (if t = 53 \<and> v \<noteq> [] then o0\<lparr>dmsg := v ! 0\<rparr>
      else if length v < 4 then o0
      else if t = 1 then o0\<lparr>dmask := ip_of v\<rparr>
      else if t = 3 then o0\<lparr>dgw := ip_of v\<rparr>
      else if t = 6 then o0\<lparr>ddns := ip_of v\<rparr>
      else if t = 51 then o0\<lparr>dlease := be32 (v ! 0) (v ! 1) (v ! 2) (v ! 3)\<rparr>
      else if t = 54 then o0\<lparr>dsrv := ip_of v\<rparr>
      else o0)"

definition read_options :: "tlv list \<Rightarrow> dhcp_opts" where
  "read_options os = fold take_option os dhcp_opts0"

lemma le_of_nat_u8: "n \<le> 255 \<Longrightarrow> k \<le> 255 \<Longrightarrow> (of_nat k :: u8) \<le> of_nat n \<longleftrightarrow> k \<le> n"
  by (simp add: word_le_nat_alt unat_of_nat)

lemma dhcp_opt_take:
  assumes "length v \<le> 255"
  shows "dhcp_opt (pre @ v @ post) (int (length pre)) t (of_nat (length v)) o0 = Some (take_option (t, v) o0)"
proof -
  have le: "(1 :: u8) \<le> of_nat (length v) \<longleftrightarrow> v \<noteq> []" "(4 :: u8) \<le> of_nat (length v) \<longleftrightarrow> \<not> length v < 4"
    using le_of_nat_u8 [OF assms, of 1] le_of_nat_u8 [OF assms, of 4] by (auto simp: Suc_le_eq)
  have "rd (pre @ v @ post) (int (length pre)) = Some (v ! 0)" if "v \<noteq> []"
    using that by (cases v) (simp_all add: rd_def nth_append)
  moreover have "rd_ip (pre @ v @ post) (int (length pre)) = Some (ip_of v)"
    "rd32be (pre @ v @ post) (int (length pre)) = Some (be32 (v ! 0) (v ! 1) (v ! 2) (v ! 3))"
    if "\<not> length v < 4"
    using that by (auto simp: buf_simps nth_append ip_of_def nat_add_distrib)
  ultimately show ?thesis
    by (auto simp: dhcp_opt_def le)
qed

lemma dhcp_parse_tlv:
  assumes "list_all tlv_ok os" "frame = pre @ tlv_bytes os @ 0xFF # post"
    and "int (length pre + length (tlv_bytes os)) < len"
  shows "dhcp_parse frame len (int (length pre)) o0 = Some (fold take_option os o0)"
  using assms
proof (induction os arbitrary: pre o0)
  case Nil
  then show ?case by (simp add: dhcp_parse.simps rd_def nth_append)
next
  case (Cons tv os)
  obtain t v where tv: "tv = (t, v)" by (cases tv)
  have ok: "t \<noteq> 0" "t \<noteq> 0xFF" "length v \<le> 255" using Cons.prems(1) by (auto simp: tv tlv_ok_def)
  have n: "uint (of_nat (length v) :: u8) = int (length v)"
    using ok(3) by (simp add: uint_nat unat_of_nat del: of_nat_unat)
  have f: "frame = (pre @ [t, of_nat (length v)]) @ v @ (tlv_bytes os @ 0xFF # post)"
    using Cons.prems(2) by (simp add: tv)
  have r: "rd frame (int (length pre)) = Some t" "rd frame (int (length pre) + 1) = Some (of_nat (length v))"
    by (simp_all add: f rd_def nth_append nat_add_distrib)
  have "dhcp_opt frame (int (length pre) + 2) t (of_nat (length v)) o0 = Some (take_option tv o0)"
    using dhcp_opt_take [OF ok(3), of "pre @ [t, of_nat (length v)]"] by (simp add: f tv add.commute)
  moreover have "dhcp_parse frame len (int (length pre) + 2 + int (length v)) (take_option tv o0)
      = Some (fold take_option os (take_option tv o0))"
    using Cons.IH [of "pre @ [t, of_nat (length v)] @ v"] Cons.prems f by (simp add: tv algebra_simps)
  ultimately show ?case
    using ok Cons.prems(3) n
    by (simp add: dhcp_parse.simps [of frame len "int (length pre)"] r tv del: of_nat_add take_option.simps)
qed

section \<open>Replies of a server\<close>

text \<open>
  A received frame that passes the client's checks, with its DHCP payload at \<open>doff\<close> and the
  options \<open>os\<close> ended by 255 inside the received length.
\<close>

definition dhcp_reply :: "bytes \<Rightarrow> int \<Rightarrow> int \<Rightarrow> tlv list \<Rightarrow> bool" where
  "dhcp_reply frame len doff os \<longleftrightarrow>
     dhcp_accept frame len = Some (Some doff) \<and> len \<le> int (length frame) \<and> list_all tlv_ok os \<and>
     doff + 240 + int (length (tlv_bytes os)) < len \<and>
     rdn frame (doff + 240) (length (tlv_bytes os) + 1) = Some (tlv_bytes os @ [0xFF])"

lemma dhcp_accept_doff: "dhcp_accept frame len = Some (Some doff) \<Longrightarrow> 22 \<le> doff \<and> doff + 240 \<le> len"
  by (auto simp: dhcp_accept_def Let_def bind_eq_Some_conv split: if_splits)

lemma dhcp_reply_parse:
  assumes "dhcp_reply frame len doff os"
  shows "dhcp_parse frame len (doff + 240) dhcp_opts0 = Some (read_options os)"
proof -
  let ?k = "nat (doff + 240)" and ?n = "length (tlv_bytes os)"
  have d: "0 \<le> doff" using assms dhcp_accept_doff by (fastforce simp: dhcp_reply_def)
  have n: "?k + ?n < length frame" using assms d by (auto simp: dhcp_reply_def)
  have "take (?n + 1) (drop ?k frame) = tlv_bytes os @ [0xFF]"
    using assms by (auto simp: dhcp_reply_def rdn_def split: if_splits)
  then have "frame = take ?k frame @ tlv_bytes os @ 0xFF # drop (?n + 1) (drop ?k frame)"
    by (metis append_take_drop_id append.assoc append_Cons append_Nil)
  moreover have "int (length (take ?k frame)) = doff + 240" using n d by simp
  ultimately show ?thesis
    using dhcp_parse_tlv [of os frame "take ?k frame" _ len dhcp_opts0] assms
    by (simp add: dhcp_reply_def read_options_def)
qed

lemma dhcp_reply_yiaddr: "dhcp_reply frame len doff os \<Longrightarrow> \<exists>yi. rd_ip frame (doff + 16) = Some yi"
  using dhcp_accept_doff [of frame len doff] by (simp add: dhcp_reply_def rd_ip_Some)

section \<open>Events and the invariant\<close>

datatype dhcp_event = DhcpRx u32 bytes int | DhcpTick u32

text \<open>One event; the frames sent so far are the second component.\<close>

fun dhcp_step :: "dhcp_state \<times> bytes list \<Rightarrow> dhcp_event \<Rightarrow> (dhcp_state \<times> bytes list) option" where
  "dhcp_step (st, out) (DhcpRx ms frame len) = do { (st', f) \<leftarrow> dhcp_rx ms st frame len; Some (st', out @ f) }"
| "dhcp_step (st, out) (DhcpTick ms) = do { (st', f) \<leftarrow> dhcp_tick ms st; Some (st', out @ f) }"

text \<open>
  No address before BOUND, a MAC address once started, and a retry counter that cannot pass
  the limit by more than one.
\<close>

definition dhcp_inv :: "dhcp_state \<Rightarrow> bool" where
  "dhcp_inv st \<longleftrightarrow> 0 \<le> g_dhcp_tries st \<and> g_dhcp_tries st \<le> DHCP_MAX_TRIES + 1 \<and>
     (g_dhcp_tries st = DHCP_MAX_TRIES + 1 \<longrightarrow> g_dhcp_st st = DHCP_ST_BOUND) \<and>
     (g_dhcp_st st \<noteq> DHCP_ST_IDLE \<longrightarrow> g_mac st \<noteq> None) \<and>
     (g_dhcp_st st \<noteq> DHCP_ST_BOUND \<longrightarrow> g_our_ip st = (0, 0, 0, 0))"

lemma dhcp_tick_inv: "dhcp_inv st \<Longrightarrow> dhcp_tick ms st = Some (st', f) \<Longrightarrow> dhcp_inv st'"
  by (auto simp: dhcp_tick_def dhcp_inv_def Let_def bind_eq_Some_conv dhcp_consts split: if_splits)

lemma dhcp_rx_inv: "dhcp_inv st \<Longrightarrow> dhcp_rx ms st frame len = Some (st', f) \<Longrightarrow> dhcp_inv st'"
  by (auto simp: dhcp_rx_def dhcp_inv_def Let_def bind_eq_Some_conv dhcp_consts
      split: if_splits option.splits)

lemma dhcp_step_inv: "dhcp_inv (fst s) \<Longrightarrow> dhcp_step s e = Some s' \<Longrightarrow> dhcp_inv (fst s')"
  by (cases s; cases e) (auto simp: bind_eq_Some_conv intro: dhcp_tick_inv dhcp_rx_inv)

interpretation dhcpe: event_system dhcp_step "\<lambda>s. dhcp_inv (fst s)"
  by unfold_locales (rule dhcp_step_inv)

lemma dhcp_init_inv: "dhcp_inv (dhcp_init mac st)"
  by (simp add: dhcp_inv_def dhcp_init_def dhcp_consts)

lemma dhcp_start_eq:
  "\<exists>ck. dhcp_start ms (dhcp_init mac st) = Some (dhcp_init mac st
      \<lparr>g_dhcp_st := DHCP_ST_DISCOVER, g_dhcp_tries := 1, g_dhcp_last_ms := ms\<rparr>,
      [dhcp_frame mac DHCP_DISCOVER (0, 0, 0, 0) (0, 0, 0, 0) ck]) \<and>
    ip_cksum (dhcp_frame mac DHCP_DISCOVER (0, 0, 0, 0) (0, 0, 0, 0) ck) 14 20 = Some 0"
  using dhcp_make_eq [of "dhcp_init mac st\<lparr>g_dhcp_st := DHCP_ST_DISCOVER, g_dhcp_tries := 1\<rparr>" mac DHCP_DISCOVER]
  by (auto simp: dhcp_start_def Let_def dhcp_init_def)

text \<open>Reads of an option value stay within three bytes after the received length.\<close>

lemma dhcp_parse_safe: "0 \<le> p \<Longrightarrow> len + 4 \<le> int (length frame) \<Longrightarrow> \<exists>o1. dhcp_parse frame len p o0 = Some o1"
proof (induction frame len p o0 rule: dhcp_parse.induct)
  case (1 frame len p o0)
  have opt: "\<exists>o1. dhcp_opt frame (p + 2) t n o0 = Some o1" if "p + 1 < len" for t n
    using that "1.prems" by (simp add: dhcp_opt_def buf_simps)
  show ?case
  proof (cases "p < len")
    case True
    then have r: "rd frame p = Some (frame ! nat p)" using "1.prems" by (simp add: rd_def)
    consider "frame ! nat p = 0xFF" | "frame ! nat p = 0" | "frame ! nat p \<noteq> 0xFF" "frame ! nat p \<noteq> 0" by blast
    then show ?thesis
    proof cases
      case 3
      show ?thesis
      proof (cases "p + 1 < len")
        case p: True
        then have r1: "rd frame (p + 1) = Some (frame ! nat (p + 1))" using "1.prems" by (simp add: rd_def)
        obtain o1 where o1: "dhcp_opt frame (p + 2) (frame ! nat p) (frame ! nat (p + 1)) o0 = Some o1"
          using opt [OF p] by blast
        then show ?thesis
          using "1.IH"(2) [OF True r 3 _ r1 o1] "1.prems" p True r r1 3
          by (simp add: dhcp_parse.simps [of frame len p])
      qed (use True r 3 in \<open>simp add: dhcp_parse.simps [of frame len p]\<close>)
    qed (use True r "1.IH"(1) "1.prems" in \<open>simp_all add: dhcp_parse.simps [of frame len p]\<close>)
  qed (simp add: dhcp_parse.simps [of frame len p])
qed

lemma dhcp_accept_safe: "len \<le> int (length frame) \<Longrightarrow> \<exists>a. dhcp_accept frame len = Some a"
proof (cases "len < 300")
  case False
  assume l: "len \<le> int (length frame)"
  have i: "0 \<le> uint ((x :: u8) AND 0x0F) \<and> uint (x AND 0x0F) \<le> 15" for x
    by (simp add: uint_and AND_upper2)
  show ?thesis
    using l False i [of "frame ! 14"] by (auto simp: dhcp_accept_def Let_def buf_simps)
qed (simp add: dhcp_accept_def)

lemma dhcp_rx_safe:
  assumes "dhcp_inv st" "len + 4 \<le> int (length frame)"
  shows "\<exists>r. dhcp_rx ms st frame len = Some r"
proof (cases "g_dhcp_st st = DHCP_ST_IDLE \<or> g_dhcp_st st = DHCP_ST_BOUND")
  case False
  obtain a where a: "dhcp_accept frame len = Some a" using dhcp_accept_safe assms(2) by fastforce
  obtain mac where m: "g_mac st = Some mac" using assms(1) False by (auto simp: dhcp_inv_def)
  show ?thesis
  proof (cases a)
    case (Some doff)
    have d: "22 \<le> doff" "doff + 240 \<le> len" using dhcp_accept_doff a Some by auto
    obtain o1 where o: "dhcp_parse frame len (doff + 240) dhcp_opts0 = Some o1"
      using dhcp_parse_safe [of "doff + 240" len frame dhcp_opts0] d assms(2) by auto
    obtain y where y: "rd_ip frame (doff + 16) = Some y"
      using d assms(2) by (simp add: rd_ip_Some)
    define st' where "st' = st\<lparr>g_dhcp_yiaddr := y, g_dhcp_srvid := dsrv o1,
        g_dhcp_st := DHCP_ST_REQUEST, g_dhcp_tries := 0\<rparr>"
    obtain b where "dhcp_make st' DHCP_REQUEST = Some b"
      using dhcp_make_eq [of st' mac DHCP_REQUEST] m by (auto simp: st'_def)
    then show ?thesis
      using False by (simp add: dhcp_rx_def a Some o y Let_def send_grat_arp_def m flip: st'_def)
  qed (use False a in \<open>simp add: dhcp_rx_def\<close>)
qed (simp add: dhcp_rx_def)

text \<open>What the three kinds of server message do to a waiting client.\<close>

lemma dhcp_rx_offer:
  assumes "dhcp_reply frame len doff os" "dmsg (read_options os) = DHCP_MSG_OFFER"
    and "g_dhcp_st st = DHCP_ST_DISCOVER" "g_mac st = Some mac" "rd_ip frame (doff + 16) = Some yi"
  shows "\<exists>ck. dhcp_rx ms st frame len =
    Some (st\<lparr>g_dhcp_yiaddr := yi, g_dhcp_srvid := dsrv (read_options os), g_dhcp_st := DHCP_ST_REQUEST,
             g_dhcp_tries := 0, g_dhcp_last_ms := ms\<rparr>,
          [dhcp_frame mac DHCP_REQUEST yi (dsrv (read_options os)) ck]) \<and>
    ip_cksum (dhcp_frame mac DHCP_REQUEST yi (dsrv (read_options os)) ck) 14 20 = Some 0"
proof -
  define st' where "st' = st\<lparr>g_dhcp_yiaddr := yi, g_dhcp_srvid := dsrv (read_options os),
      g_dhcp_st := DHCP_ST_REQUEST, g_dhcp_tries := 0\<rparr>"
  obtain ck where "dhcp_make st' DHCP_REQUEST = Some (dhcp_frame mac DHCP_REQUEST yi (dsrv (read_options os)) ck)"
    "ip_cksum (dhcp_frame mac DHCP_REQUEST yi (dsrv (read_options os)) ck) 14 20 = Some 0"
    using dhcp_make_eq [of st' mac DHCP_REQUEST] assms(4) by (auto simp: st'_def)
  then show ?thesis
    using assms dhcp_reply_parse [OF assms(1)]
    by (intro exI [of _ ck]) (simp add: dhcp_rx_def dhcp_reply_def Let_def st'_def)
qed

lemma dhcp_rx_ack:
  assumes "dhcp_reply frame len doff os" "dmsg (read_options os) = DHCP_MSG_ACK"
    and "g_dhcp_st st = DHCP_ST_REQUEST" "g_mac st = Some mac" "rd_ip frame (doff + 16) = Some yi"
  shows "dhcp_rx ms st frame len =
    Some (st\<lparr>g_our_ip := yi, g_dhcp_netmask := dmask (read_options os), g_dhcp_gateway := dgw (read_options os),
             g_dhcp_dns := ddns (read_options os), g_dhcp_lease_secs := dlease (read_options os),
             g_dhcp_st := DHCP_ST_BOUND\<rparr>,
          [grat_arp_frame mac yi])"
  using assms dhcp_reply_parse [OF assms(1)]
  by (simp add: dhcp_rx_def dhcp_reply_def Let_def send_grat_arp_def dhcp_consts)

section \<open>Properties\<close>

text \<open>
  C5. A complete DHCP exchange. A freshly initialised client sends one DISCOVER; given any
  server frame that passes its checks and whose options carry message type OFFER, it sends
  one REQUEST whose options field names the offered address and the server identifier of
  the offer; given an ACK it is bound to the address of that frame, reports the mask,
  gateway, DNS server and lease time its options carry, and announces the address once.
\<close>

theorem dhcp_lease_acquired:
  assumes "dhcp_reply fo lo d oso" "dmsg (read_options oso) = DHCP_MSG_OFFER"
    and "dhcp_reply fa la e osa" "dmsg (read_options osa) = DHCP_MSG_ACK"
  shows "\<exists>sd disc sr req sb ip offered.
    dhcp_start t (dhcp_init mac st) = Some (sd, [disc]) \<and> length disc = 342 \<and> ip_cksum disc 14 20 = Some 0 \<and>
    dhcp_rx u sd fo lo = Some (sr, [req]) \<and> length req = 342 \<and> ip_cksum req 14 20 = Some 0 \<and>
    rd_ip fo (d + 16) = Some offered \<and>
    take 16 (drop 282 req) = dhcp_options DHCP_REQUEST offered (dsrv (read_options oso)) \<and>
    dhcp_rx v sr fa la = Some (sb, [grat_arp_frame mac ip]) \<and> rd_ip fa (e + 16) = Some ip \<and>
    dhcp_bound sb = 1 \<and> dhcp_get_ip sb = ip \<and>
    dhcp_get_netmask sb = dmask (read_options osa) \<and> dhcp_get_gateway sb = dgw (read_options osa) \<and>
    dhcp_get_dns sb = ddns (read_options osa) \<and> dhcp_get_lease_secs sb = dlease (read_options osa)"
proof -
  let ?sd = "dhcp_init mac st\<lparr>g_dhcp_st := DHCP_ST_DISCOVER, g_dhcp_tries := 1, g_dhcp_last_ms := t\<rparr>"
  have m: "g_mac ?sd = Some mac" by (simp add: dhcp_init_def)
  obtain offered ip where y: "rd_ip fo (d + 16) = Some offered" "rd_ip fa (e + 16) = Some ip"
    using dhcp_reply_yiaddr assms(1,3) by metis
  obtain ck where disc: "dhcp_start t (dhcp_init mac st) = Some (?sd, [dhcp_frame mac DHCP_DISCOVER (0, 0, 0, 0) (0, 0, 0, 0) ck])"
    "ip_cksum (dhcp_frame mac DHCP_DISCOVER (0, 0, 0, 0) (0, 0, 0, 0) ck) 14 20 = Some 0"
    using dhcp_start_eq by blast
  let ?sr = "?sd\<lparr>g_dhcp_yiaddr := offered, g_dhcp_srvid := dsrv (read_options oso),
      g_dhcp_st := DHCP_ST_REQUEST, g_dhcp_tries := 0, g_dhcp_last_ms := u\<rparr>"
  let ?req = "dhcp_frame mac DHCP_REQUEST offered (dsrv (read_options oso))"
  obtain ck' where req: "dhcp_rx u ?sd fo lo = Some (?sr, [?req ck'])" "ip_cksum (?req ck') 14 20 = Some 0"
    using dhcp_rx_offer [OF assms(1,2) _ m y(1)] by auto
  have opts: "take 16 (drop 282 (?req ck')) = dhcp_options DHCP_REQUEST offered (dsrv (read_options oso))"
    by (simp add: dhcp_frame_options) (simp add: dhcp_options_def)
  define sb where "sb = ?sr\<lparr>g_our_ip := ip, g_dhcp_netmask := dmask (read_options osa),
      g_dhcp_gateway := dgw (read_options osa), g_dhcp_dns := ddns (read_options osa),
      g_dhcp_lease_secs := dlease (read_options osa), g_dhcp_st := DHCP_ST_BOUND\<rparr>"
  have ack: "dhcp_rx v ?sr fa la = Some (sb, [grat_arp_frame mac ip])"
    unfolding sb_def by (rule dhcp_rx_ack [OF assms(3,4) _ _ y(2)]) (simp_all add: dhcp_init_def)
  have lease: "dhcp_bound sb = 1" "dhcp_get_ip sb = ip" "dhcp_get_netmask sb = dmask (read_options osa)"
    "dhcp_get_gateway sb = dgw (read_options osa)" "dhcp_get_dns sb = ddns (read_options osa)"
    "dhcp_get_lease_secs sb = dlease (read_options osa)"
    by (simp_all add: sb_def dhcp_bound_def dhcp_get_ip_def dhcp_get_netmask_def dhcp_get_gateway_def
        dhcp_get_dns_def dhcp_get_lease_secs_def)
  show ?thesis
    using disc req y opts ack lease length_dhcp_frame by blast
qed

text \<open>A server message of this form: BOOTREPLY in UDP to port 68, the options of a lease.\<close>

definition server_frame :: "ip4 \<Rightarrow> tlv list \<Rightarrow> bytes" where
  "server_frame yi os = replicate 12 0 @ [0x08, 0x00, 0x45, 0, 0x01, 0x48, 0, 0, 0, 0, 64, 0x11] @ replicate 10 0 @
     [0, 67, 0, 68, 0x01, 0x34, 0, 0] @ [2, 1, 6, 0] @ ip_bytes g_dhcp_xid @ replicate 8 0 @ ip_bytes yi @
     replicate 216 0 @ [0x63, 0x82, 0x53, 0x63] @ tlv_bytes os @ [0xFF] @ replicate 40 0"

definition lease_options :: "u8 \<Rightarrow> tlv list" where
  "lease_options ty = [(53, [ty]), (1, [255, 255, 0, 0]), (3, [10, 0, 0, 1]), (6, [9, 9, 9, 9]),
     (51, [0, 0, 14, 16]), (54, [10, 0, 0, 1])]"

lemma server_frame_reply:
  "dhcp_reply (server_frame (10, 0, 7, 7) (lease_options 2)) 330 42 (lease_options 2)"
  "dhcp_reply (server_frame (10, 0, 7, 7) (lease_options 5)) 330 42 (lease_options 5)"
  by code_simp+

theorem dhcp_lease_acquired_witness:
  "\<exists>sd disc sr req sb ip offered.
    dhcp_start 0 (dhcp_init (2, 0, 0, 0, 0, 2) dhcp_boot) = Some (sd, [disc]) \<and> length disc = 342 \<and>
    ip_cksum disc 14 20 = Some 0 \<and>
    dhcp_rx 5 sd (server_frame (10, 0, 7, 7) (lease_options 2)) 330 = Some (sr, [req]) \<and> length req = 342 \<and>
    ip_cksum req 14 20 = Some 0 \<and> rd_ip (server_frame (10, 0, 7, 7) (lease_options 2)) (42 + 16) = Some offered \<and>
    take 16 (drop 282 req) = dhcp_options DHCP_REQUEST offered (dsrv (read_options (lease_options 2))) \<and>
    dhcp_rx 9 sr (server_frame (10, 0, 7, 7) (lease_options 5)) 330 = Some (sb, [grat_arp_frame (2, 0, 0, 0, 0, 2) ip]) \<and>
    rd_ip (server_frame (10, 0, 7, 7) (lease_options 5)) (42 + 16) = Some ip \<and>
    dhcp_bound sb = 1 \<and> dhcp_get_ip sb = ip \<and>
    dhcp_get_netmask sb = dmask (read_options (lease_options 5)) \<and>
    dhcp_get_gateway sb = dgw (read_options (lease_options 5)) \<and>
    dhcp_get_dns sb = ddns (read_options (lease_options 5)) \<and>
    dhcp_get_lease_secs sb = dlease (read_options (lease_options 5))"
  by (rule dhcp_lease_acquired [OF server_frame_reply(1) _ server_frame_reply(2)]) code_simp+

text \<open>Where the address of a bound client comes from, one event back.\<close>

definition ack_of :: "dhcp_event \<Rightarrow> dhcp_state \<Rightarrow> bool" where
  "ack_of e st \<longleftrightarrow> (\<exists>ms frame len doff o1. e = DhcpRx ms frame len \<and>
     dhcp_accept frame len = Some (Some doff) \<and>
     dhcp_parse frame len (doff + 240) dhcp_opts0 = Some o1 \<and> dmsg o1 = DHCP_MSG_ACK \<and>
     rd_ip frame (doff + 16) = Some (g_our_ip st) \<and> g_dhcp_netmask st = dmask o1 \<and>
     g_dhcp_gateway st = dgw o1 \<and> g_dhcp_dns st = ddns o1 \<and> g_dhcp_lease_secs st = dlease o1)"

lemma dhcp_tick_binds:
  assumes "dhcp_inv st" "dhcp_tick ms st = Some (st', f)" "g_dhcp_st st' = DHCP_ST_BOUND"
  shows "st' = st \<or> g_our_ip st' = g_dhcp_static \<and> g_dhcp_tries st' = DHCP_MAX_TRIES + 1"
proof (cases "g_dhcp_tries st + 1 > DHCP_MAX_TRIES")
  case True
  then have "g_dhcp_st st = DHCP_ST_BOUND \<or> g_dhcp_tries st = DHCP_MAX_TRIES"
    using assms(1) by (auto simp: dhcp_inv_def)
  then show ?thesis
    using assms(2,3) True by (simp add: dhcp_tick_def Let_def bind_eq_Some_conv split: if_splits) auto
next
  case False
  then show ?thesis
    using assms(2,3) by (simp add: dhcp_tick_def Let_def bind_eq_Some_conv split: if_splits) auto
qed

lemma dhcp_rx_binds:
  assumes "dhcp_rx ms st frame len = Some (st', f)" "g_dhcp_st st' = DHCP_ST_BOUND"
  shows "st' = st \<or> ack_of (DhcpRx ms frame len) st'"
proof (cases "g_dhcp_st st = DHCP_ST_IDLE \<or> g_dhcp_st st = DHCP_ST_BOUND")
  case False
  then obtain acc where acc: "dhcp_accept frame len = Some acc"
    using assms(1) by (auto simp: dhcp_rx_def bind_eq_Some_conv)
  show ?thesis
  proof (cases acc)
    case (Some doff)
    then obtain o1 where o: "dhcp_parse frame len (doff + 240) dhcp_opts0 = Some o1"
      using assms(1) False acc by (auto simp: dhcp_rx_def bind_eq_Some_conv)
    have a: "dmsg o1 = DHCP_MSG_ACK \<and> g_dhcp_st st = DHCP_ST_REQUEST"
      using assms False by (auto simp: dhcp_rx_def acc Some o Let_def bind_eq_Some_conv split: if_splits)
    then obtain yi where "rd_ip frame (doff + 16) = Some yi"
      using assms False by (auto simp: dhcp_rx_def acc Some o Let_def bind_eq_Some_conv dhcp_consts)
    then have "ack_of (DhcpRx ms frame len) st'"
      using assms False a acc Some o
      by (auto simp: dhcp_rx_def ack_of_def Let_def bind_eq_Some_conv dhcp_consts)
    then show ?thesis ..
  qed (use assms False acc in \<open>simp add: dhcp_rx_def\<close>)
qed (use assms in \<open>auto simp: dhcp_rx_def\<close>)

lemma dhcp_step_binds:
  assumes "dhcp_inv st" "dhcp_step (st, out) e = Some (st', out')" "g_dhcp_st st' = DHCP_ST_BOUND"
  shows "st' = st \<or> g_our_ip st' = g_dhcp_static \<and> g_dhcp_tries st' = DHCP_MAX_TRIES + 1 \<or> ack_of e st'"
proof (cases e)
  case (DhcpRx ms frame len)
  then show ?thesis using assms(2) dhcp_rx_binds [OF _ assms(3)] by (fastforce simp: bind_eq_Some_conv)
next
  case (DhcpTick ms)
  then show ?thesis using assms(2) dhcp_tick_binds [OF assms(1) _ assms(3)] by (fastforce simp: bind_eq_Some_conv)
qed

lemma dhcp_bound_source_aux:
  assumes "dhcp_inv st" "g_dhcp_st st \<noteq> DHCP_ST_BOUND"
    and "run_events dhcp_step (st, []) es = Some (st', out)" "g_dhcp_st st' = DHCP_ST_BOUND"
  shows "g_our_ip st' = g_dhcp_static \<and> g_dhcp_tries st' = DHCP_MAX_TRIES + 1 \<or> (\<exists>e \<in> set es. ack_of e st')"
  using assms(3,4)
proof (induction es arbitrary: st' out rule: rev_induct)
  case Nil
  then show ?case using assms(2) by simp
next
  case (snoc e es)
  obtain s1 o1 where s1: "run_events dhcp_step (st, []) es = Some (s1, o1)" "dhcp_step (s1, o1) e = Some (st', out)"
    using snoc.prems(1) by (auto simp: run_events_append bind_eq_Some_conv)
  have "dhcp_inv s1" using dhcpe.run_inv [of "(st, [])"] assms(1) s1(1) by fastforce
  then show ?case
    using dhcp_step_binds [OF _ s1(2) snoc.prems(2)] snoc.IH [OF s1(1)] snoc.prems(2) by auto
qed

text \<open>One expired retransmission timer.\<close>

lemma dhcp_tick_retry:
  assumes "g_dhcp_st st = DHCP_ST_DISCOVER \<and> ty = DHCP_DISCOVER \<or> g_dhcp_st st = DHCP_ST_REQUEST \<and> ty = DHCP_REQUEST"
    and "g_mac st = Some mac" "g_dhcp_tries st < DHCP_MAX_TRIES" "DHCP_RETRANSMIT_MS \<le> now - g_dhcp_last_ms st"
  shows "\<exists>ck. dhcp_tick now st = Some (st\<lparr>g_dhcp_last_ms := now, g_dhcp_tries := g_dhcp_tries st + 1\<rparr>,
    [dhcp_frame mac ty (g_dhcp_yiaddr st) (g_dhcp_srvid st) ck])"
  using dhcp_make_eq [of "st\<lparr>g_dhcp_last_ms := now, g_dhcp_tries := g_dhcp_tries st + 1\<rparr>" mac ty] assms
  by (auto simp: dhcp_tick_def Let_def)

lemma dhcp_tick_fallback:
  assumes "g_dhcp_st st = DHCP_ST_DISCOVER" "g_mac st = Some mac" "g_dhcp_tries st = DHCP_MAX_TRIES"
    and "DHCP_RETRANSMIT_MS \<le> now - g_dhcp_last_ms st"
  shows "dhcp_tick now st = Some (st\<lparr>g_dhcp_last_ms := now, g_dhcp_tries := DHCP_MAX_TRIES + 1,
      g_our_ip := g_dhcp_static, g_dhcp_st := DHCP_ST_BOUND\<rparr>, [grat_arp_frame mac g_dhcp_static])"
  using assms by (simp add: dhcp_tick_def Let_def send_grat_arp_def dhcp_consts)

text \<open>Five expired timers in a row.\<close>

lemma dhcp_silence:
  assumes "dhcp_start a (dhcp_init mac st0) = Some (st, f)"
    and "4000 \<le> b - a" "4000 \<le> c - b" "4000 \<le> d - c" "4000 \<le> e - d" "4000 \<le> g - e"
  shows "\<exists>st' r s t u.
    run_events dhcp_step (st, []) [DhcpTick b, DhcpTick c, DhcpTick d, DhcpTick e, DhcpTick g]
      = Some (st', [r, s, t, u, grat_arp_frame mac (192, 168, 0, 200)]) \<and>
    (\<forall>x \<in> {r, s, t, u}. take 10 (drop 282 x) = dhcp_options DHCP_DISCOVER (0, 0, 0, 0) (0, 0, 0, 0)) \<and>
    dhcp_bound st' = 1 \<and> dhcp_get_ip st' = (192, 168, 0, 200)"
proof -
  let ?s = "\<lambda>n t. dhcp_init mac st0\<lparr>g_dhcp_st := DHCP_ST_DISCOVER, g_dhcp_tries := n, g_dhcp_last_ms := t\<rparr>"
  let ?f = "\<lambda>ck. dhcp_frame mac DHCP_DISCOVER (0, 0, 0, 0) (0, 0, 0, 0) ck"
  have st: "st = ?s 1 a" using dhcp_start_eq [of a mac st0] assms(1) by auto
  have retry: "\<exists>ck. dhcp_tick y (?s n x) = Some (?s (n + 1) y, [?f ck])" if "n < 5" "4000 \<le> y - x" for n x y
    using dhcp_tick_retry [of "?s n x" DHCP_DISCOVER mac y] that by (cases st0) (simp add: dhcp_init_def dhcp_consts)
  obtain p q r t where k: "dhcp_tick b (?s 1 a) = Some (?s 2 b, [?f p])" "dhcp_tick c (?s 2 b) = Some (?s 3 c, [?f q])"
    "dhcp_tick d (?s 3 c) = Some (?s 4 d, [?f r])" "dhcp_tick e (?s 4 d) = Some (?s 5 e, [?f t])"
    using retry [of 1 b a] retry [of 2 c b] retry [of 3 d c] retry [of 4 e d] assms by auto
  have opts: "take 10 (drop 282 (?f ck)) = dhcp_options DHCP_DISCOVER (0, 0, 0, 0) (0, 0, 0, 0)" for ck
    by (simp add: dhcp_frame_options) (simp add: dhcp_options_def dhcp_consts)
  show ?thesis
    using k dhcp_tick_fallback [of "?s 5 e" mac g] assms opts
    by (simp add: st dhcp_init_def dhcp_consts dhcp_bound_def dhcp_get_ip_def g_dhcp_static_def)
qed

text \<open>
  A client bound after any run of received frames and timer ticks got its address in
  one of two ways: it is the static fallback and the retry limit was exceeded, or one of
  the received frames passed every check, carried message type ACK, and is where the
  address, mask, gateway, DNS server and lease time all come from.
\<close>

theorem dhcp_bound_source:
  assumes "dhcp_start ms (dhcp_init mac st0) = Some (st, f)"
    and "run_events dhcp_step (st, []) es = Some (st', out)" "dhcp_bound st' = 1"
  shows "g_our_ip st' = g_dhcp_static \<and> g_dhcp_tries st' = DHCP_MAX_TRIES + 1 \<or> (\<exists>e \<in> set es. ack_of e st')"
proof -
  have "dhcp_inv st" "g_dhcp_st st \<noteq> DHCP_ST_BOUND"
    using dhcp_start_eq [of ms mac st0] assms(1) by (auto simp: dhcp_inv_def dhcp_init_def dhcp_consts)
  then show ?thesis
    using dhcp_bound_source_aux assms(2,3) by (simp add: dhcp_bound_def split: if_splits)
qed

definition lease_run :: "dhcp_event list" where
  "lease_run = [DhcpRx 5 (server_frame (10, 0, 7, 7) (lease_options 2)) 330, DhcpTick 6,
     DhcpRx 9 (server_frame (10, 0, 7, 7) (lease_options 5)) 330]"

definition start_state :: "mac6 \<Rightarrow> u32 \<Rightarrow> dhcp_state" where
  "start_state mac ms = dhcp_init mac dhcp_boot
     \<lparr>g_dhcp_st := DHCP_ST_DISCOVER, g_dhcp_tries := 1, g_dhcp_last_ms := ms\<rparr>"

lemma start_state_start: "\<exists>f. dhcp_start ms (dhcp_init mac dhcp_boot) = Some (start_state mac ms, f)"
  using dhcp_start_eq [of ms mac dhcp_boot] by (auto simp: start_state_def)

theorem dhcp_bound_source_witness:
  "\<exists>st' out. run_events dhcp_step (start_state (2, 0, 0, 0, 0, 2) 0, [])
      [DhcpTick 4000, DhcpTick 8000, DhcpTick 12000, DhcpTick 16000, DhcpTick 20000] = Some (st', out) \<and>
    dhcp_bound st' = 1 \<and>
    (g_our_ip st' = g_dhcp_static \<and> g_dhcp_tries st' = DHCP_MAX_TRIES + 1 \<or>
     (\<exists>e \<in> set [DhcpTick 4000, DhcpTick 8000, DhcpTick 12000, DhcpTick 16000, DhcpTick 20000]. ack_of e st'))"
proof -
  obtain f where f: "dhcp_start 0 (dhcp_init (2, 0, 0, 0, 0, 2) dhcp_boot) = Some (start_state (2, 0, 0, 0, 0, 2) 0, f)"
    using start_state_start by blast
  show ?thesis
    using dhcp_silence [OF f, of 4000 8000 12000 16000 20000] dhcp_bound_source [OF f] by fastforce
qed

text \<open>
  C36. With no server on the network the client does not hang: after \<open>dhcp_start\<close>, four
  expired timers each retransmit one DISCOVER and the fifth binds the static address
  192.168.0.200 and announces it. The clock may wrap between the ticks.
\<close>

theorem dhcp_silence_fallback:
  assumes "dhcp_start a (dhcp_init mac st0) = Some (st, f)"
    and "4000 \<le> b - a" "4000 \<le> c - b" "4000 \<le> d - c" "4000 \<le> e - d" "4000 \<le> g - e"
  shows "\<exists>st' r s t u.
    run_events dhcp_step (st, []) [DhcpTick b, DhcpTick c, DhcpTick d, DhcpTick e, DhcpTick g]
      = Some (st', [r, s, t, u, grat_arp_frame mac (192, 168, 0, 200)]) \<and>
    (\<forall>x \<in> {r, s, t, u}. take 10 (drop 282 x) = dhcp_options DHCP_DISCOVER (0, 0, 0, 0) (0, 0, 0, 0)) \<and>
    dhcp_bound st' = 1 \<and> dhcp_get_ip st' = (192, 168, 0, 200)"
  using assms by (rule dhcp_silence)

theorem dhcp_silence_fallback_witness:
  "\<exists>st' r s t u.
    run_events dhcp_step (start_state (2, 0, 0, 0, 0, 2) 4294960000, [])
      [DhcpTick 4294964000, DhcpTick 704, DhcpTick 5000, DhcpTick 9000, DhcpTick 13000]
      = Some (st', [r, s, t, u, grat_arp_frame (2, 0, 0, 0, 0, 2) (192, 168, 0, 200)]) \<and>
    (\<forall>x \<in> {r, s, t, u}. take 10 (drop 282 x) = dhcp_options DHCP_DISCOVER (0, 0, 0, 0) (0, 0, 0, 0)) \<and>
    dhcp_bound st' = 1 \<and> dhcp_get_ip st' = (192, 168, 0, 200)"
proof -
  obtain f where "dhcp_start 4294960000 (dhcp_init (2, 0, 0, 0, 0, 2) dhcp_boot)
      = Some (start_state (2, 0, 0, 0, 0, 2) 4294960000, f)"
    using start_state_start by blast
  then show ?thesis by (rule dhcp_silence_fallback) simp_all
qed

text \<open>Every event whose frame buffer has four bytes to spare after the received length.\<close>

definition dhcp_event_ok :: "dhcp_event \<Rightarrow> bool" where
  "dhcp_event_ok e = (case e of DhcpRx ms frame len \<Rightarrow> len + 4 \<le> int (length frame) | DhcpTick ms \<Rightarrow> True)"

lemma dhcp_tick_safe: "dhcp_inv st \<Longrightarrow> \<exists>r. dhcp_tick ms st = Some r"
proof (cases "g_mac st")
  case (Some mac)
  obtain b where "dhcp_make (st\<lparr>g_dhcp_last_ms := ms, g_dhcp_tries := g_dhcp_tries st + 1\<rparr>)
      (if g_dhcp_st st = DHCP_ST_DISCOVER then DHCP_DISCOVER else DHCP_REQUEST) = Some b"
    using dhcp_make_eq [of "st\<lparr>g_dhcp_last_ms := ms, g_dhcp_tries := g_dhcp_tries st + 1\<rparr>" mac] Some by auto
  then show ?thesis using Some by (auto simp: dhcp_tick_def Let_def send_grat_arp_def)
qed (auto simp: dhcp_tick_def dhcp_inv_def)

lemma dhcp_step_safe: "dhcp_inv st \<Longrightarrow> dhcp_event_ok e \<Longrightarrow> \<exists>s'. dhcp_step (st, out) e = Some s'"
proof (cases e)
  case (DhcpRx ms frame len)
  assume "dhcp_inv st" "dhcp_event_ok e"
  then obtain st' f where "dhcp_rx ms st frame len = Some (st', f)"
    using dhcp_rx_safe [of st len frame ms] by (auto simp: DhcpRx dhcp_event_ok_def)
  then show ?thesis by (simp add: DhcpRx)
next
  case (DhcpTick ms)
  assume "dhcp_inv st" "dhcp_event_ok e"
  then obtain st' f where "dhcp_tick ms st = Some (st', f)" using dhcp_tick_safe [of st ms] by auto
  then show ?thesis by (simp add: DhcpTick)
qed

interpretation dhcps: safe_event_system dhcp_step "\<lambda>s. dhcp_inv (fst s)" dhcp_event_ok
  by unfold_locales (metis dhcp_step_safe prod.collapse)

text \<open>
  The client is memory safe against hostile frames: whatever bytes arrive, in any order
  with timer ticks, no handler reads outside a buffer that has four bytes to spare after
  the received length, no address is held before the client is bound, and the retry
  counter stays within its limit.
\<close>

theorem dhcp_run_safe:
  assumes "list_all dhcp_event_ok es"
  shows "\<exists>st out. run_events dhcp_step (dhcp_init mac st0, []) es = Some (st, out) \<and> dhcp_inv st"
  using dhcps.run_safe [of "(dhcp_init mac st0, [])" es] dhcp_init_inv assms by auto

theorem dhcp_run_safe_witness:
  "\<exists>st out. run_events dhcp_step (dhcp_init (2, 0, 0, 0, 0, 2) dhcp_boot, []) lease_run = Some (st, out) \<and> dhcp_inv st"
  by (rule dhcp_run_safe) code_simp

definition silent_poll :: "u32 \<Rightarrow> dhcp_poll" where
  "silent_poll ms = \<lparr>dp_rx = [], dp_rx_ms = ms, dp_tick_ms = ms, dp_check_ms = ms\<rparr>"

definition late_offer :: dhcp_poll where
  "late_offer = \<lparr>dp_rx = take 330 (server_frame (10, 0, 7, 7) (lease_options 2)), dp_rx_ms = 15000,
     dp_tick_ms = 15000, dp_check_ms = 15000\<rparr>"

definition late_offer_polls :: "dhcp_poll list" where
  "late_offer_polls = map silent_poll [4000, 8000, 12000] @
     [late_offer] @
     map silent_poll [19000, 23000, 27000, 30001]"

definition offer_buffer :: bytes where
  "offer_buffer = take 330 (server_frame (10, 0, 7, 7) (lease_options 2)) @ replicate 1206 0"

lemma offer_buffer_reply: "dhcp_reply offer_buffer 330 42 (lease_options 2)"
  by code_simp

lemma offer_buffer_fields:
  "dmsg (read_options (lease_options 2)) = DHCP_MSG_OFFER" "rd_ip offer_buffer (42 + 16) = Some (10, 0, 7, 7)"
  by code_simp+

text \<open>One iteration of the poll loop, with nothing received and an expired timer.\<close>

lemma silent_poll_retry:
  assumes "dhcp_poll_loop t1 buf (st\<lparr>g_dhcp_last_ms := ms, g_dhcp_tries := g_dhcp_tries st + 1\<rparr>) is = Some (fin, st', out)"
    and "g_dhcp_st st = DHCP_ST_DISCOVER \<or> g_dhcp_st st = DHCP_ST_REQUEST" "g_mac st = Some mac"
    and "g_dhcp_tries st < DHCP_MAX_TRIES" "DHCP_RETRANSMIT_MS \<le> ms - g_dhcp_last_ms st" "\<not> ms - t1 > 30000"
  shows "\<exists>out. dhcp_poll_loop t1 buf st (silent_poll ms # is) = Some (fin, st', out)"
proof -
  obtain f where f: "dhcp_tick ms st = Some (st\<lparr>g_dhcp_last_ms := ms, g_dhcp_tries := g_dhcp_tries st + 1\<rparr>, [f])"
    using dhcp_tick_retry [of st _ mac ms] assms(2-5) by blast
  have "dhcp_bound st = 0" using assms(2) by (auto simp: dhcp_bound_def)
  then show ?thesis using f assms(1,6) by (simp add: silent_poll_def wrn_def)
qed

lemma late_offer_tail:
  assumes "g_dhcp_st st = DHCP_ST_REQUEST" "g_mac st = Some mac" "g_dhcp_tries st = 0" "g_dhcp_last_ms st = 15000"
  shows "\<exists>st' out. dhcp_poll_loop 0 buf st (map silent_poll [19000, 23000, 27000, 30001]) = Some (True, st', out) \<and>
    dhcp_bound st' = 0 \<and> g_our_ip st' = g_our_ip st"
proof -
  let ?s = "\<lambda>n t. st\<lparr>g_dhcp_last_ms := t, g_dhcp_tries := n\<rparr>"
  have "dhcp_poll_loop 0 buf (?s 3 27000) [silent_poll 30001] = Some (True, ?s 3 27000, [])"
    using assms by (simp add: silent_poll_def wrn_def dhcp_bound_def dhcp_tick_def dhcp_consts)
  moreover have step: "\<exists>out. dhcp_poll_loop 0 buf (?s n x) (silent_poll y # is) = Some (True, z, out)"
    if "\<exists>out. dhcp_poll_loop 0 buf (?s (n + 1) y) is = Some (True, z, out)" "n < 5" "4000 \<le> y - x" "\<not> y > 30000"
    for n x y z "is"
    using that silent_poll_retry [of 0 buf "?s n x" y "is" True z _ mac] assms
    by (auto simp: dhcp_consts simp del: dhcp_poll_loop.simps)
  ultimately have "\<exists>out. dhcp_poll_loop 0 buf (?s 0 15000) (map silent_poll [19000, 23000, 27000, 30001])
      = Some (True, ?s 3 27000, out)"
    by (simp add: step del: dhcp_poll_loop.simps)
  moreover have "?s 0 15000 = st" using assms(3,4) by simp
  moreover have "dhcp_bound (?s 3 27000) = 0 \<and> g_our_ip (?s 3 27000) = g_our_ip st"
    using assms(1) by (simp add: dhcp_bound_def)
  ultimately show ?thesis by metis
qed

lemma late_offer_rx:
  assumes "g_dhcp_st st = DHCP_ST_DISCOVER" "g_mac st = Some mac" "g_our_ip st = (0, 0, 0, 0)"
  shows "\<exists>st' out. dhcp_poll_loop 0 (replicate GENET_MAX_FRAME 0) st (late_offer # map silent_poll [19000, 23000, 27000, 30001])
      = Some (True, st', out) \<and> dhcp_bound st' = 0 \<and> g_our_ip st' = (0, 0, 0, 0)"
proof -
  let ?st = "st\<lparr>g_dhcp_yiaddr := (10, 0, 7, 7), g_dhcp_srvid := dsrv (read_options (lease_options 2)),
      g_dhcp_st := DHCP_ST_REQUEST, g_dhcp_tries := 0, g_dhcp_last_ms := 15000\<rparr>"
  obtain f where rx: "dhcp_rx 15000 st offer_buffer 330 = Some (?st, [f])"
    using dhcp_rx_offer [OF offer_buffer_reply offer_buffer_fields(1) assms(1,2) offer_buffer_fields(2), of 15000] by auto
  have buf: "wrn (replicate GENET_MAX_FRAME 0) 0 (dp_rx late_offer) = Some offer_buffer" "length (dp_rx late_offer) = 330"
    by (simp_all add: wrn_def late_offer_def offer_buffer_def GENET_MAX_FRAME_def server_frame_def lease_options_def)
  have tick: "dhcp_tick 15000 ?st = Some (?st, [])" by (simp add: dhcp_tick_def dhcp_consts)
  obtain st' out where tail: "dhcp_poll_loop 0 offer_buffer ?st (map silent_poll [19000, 23000, 27000, 30001])
      = Some (True, st', out)" "dhcp_bound st' = 0" "g_our_ip st' = (0, 0, 0, 0)"
    using late_offer_tail [of ?st mac offer_buffer] assms by auto
  have "dp_rx late_offer \<noteq> []" using buf(2) by auto
  moreover have "dhcp_bound st = 0" using assms(1) by (simp add: dhcp_bound_def)
  moreover have "dp_rx_ms late_offer = 15000" "dp_tick_ms late_offer = 15000" "dp_check_ms late_offer = 15000"
    by (simp_all add: late_offer_def)
  ultimately show ?thesis
    using tail by (subst dhcp_poll_loop.simps(2)) (simp add: rx buf tick)
qed

text \<open>
  The 30-second limit of \<open>dhcp_module_init\<close> can expire before any address is set: an
  OFFER that arrives late resets the retry counter, so the fallback of \<open>dhcp_tick\<close> is still
  pending when the loop is left. The module then reports success with address 0.0.0.0.
\<close>

theorem dhcp_timeout_unbound:
  "\<exists>st out. dhcp_module_init mac 0 [(True, 0)] 0 0 (replicate GENET_MAX_FRAME 0)
      late_offer_polls dhcp_boot = Some (True, st, out) \<and>
    dhcp_bound st = 0 \<and> dhcp_get_ip st = (0, 0, 0, 0)"
proof -
  let ?b = "replicate GENET_MAX_FRAME 0"
  let ?s = "\<lambda>n t. dhcp_init mac dhcp_boot\<lparr>g_dhcp_st := DHCP_ST_DISCOVER, g_dhcp_last_ms := t, g_dhcp_tries := n\<rparr>"
  have m: "g_mac (?s n t) = Some mac" "g_our_ip (?s n t) = (0, 0, 0, 0)" for n t by (simp_all add: dhcp_init_def)
  obtain st out where fin: "dhcp_poll_loop 0 ?b (?s 4 12000)
      (late_offer # map silent_poll [19000, 23000, 27000, 30001]) = Some (True, st, out)"
    "dhcp_bound st = 0" "g_our_ip st = (0, 0, 0, 0)"
    using late_offer_rx [OF _ m, of 4 12000] by auto
  have step: "\<exists>out. dhcp_poll_loop 0 ?b (?s n x) (silent_poll y # is) = Some (True, z, out)"
    if "\<exists>out. dhcp_poll_loop 0 ?b (?s (n + 1) y) is = Some (True, z, out)" "n < 5" "4000 \<le> y - x" "\<not> y > 30000"
    for n x y z "is"
    using that silent_poll_retry [of 0 ?b "?s n x" y "is" True z _ mac] m
    by (auto simp: dhcp_consts simp del: dhcp_poll_loop.simps)
  have "\<exists>out. dhcp_poll_loop 0 ?b (?s 1 0) late_offer_polls = Some (True, st, out)"
    using fin(1) by (simp add: late_offer_polls_def step del: dhcp_poll_loop.simps)
  moreover have "\<exists>f. dhcp_start 0 (dhcp_init mac dhcp_boot) = Some (?s 1 0, f)"
    using dhcp_start_eq [of 0 mac dhcp_boot] by (auto simp: dhcp_init_def dhcp_boot_def)
  ultimately show ?thesis
    using fin(2,3) by (auto simp: dhcp_module_init_def dhcp_get_ip_def)
qed

end
