(* ===== verification/Arp.thy ===== *)
theory Arp
  imports Inet
begin

text \<open>
  net/arp.c: the 16-entry ARP table, the who-has request, the reply, and the handler of
  incoming ARP frames. \<open>g_genet_mac\<close> and \<open>g_our_ip\<close> are arguments; frames given to
  \<open>genet_send\<close> are returned. The blocking resolver \<open>arp_resolve_blocking\<close>, which needs the
  whole receive path, is in theory Tcpip.
\<close>

section \<open>State\<close>

record arp_entry =
  ae_ip :: ip4
  ae_mac :: mac6
  ae_valid :: bool

record arp_state =
  s_table :: "arp_entry list"
  s_next_slot :: int

definition ARP_TABLE_SIZE :: nat where
  "ARP_TABLE_SIZE = 16"

definition ARP_OP_REQUEST :: u16 where
  "ARP_OP_REQUEST = 1"

text \<open>The static storage at boot: all bytes zero.\<close>

definition arp_boot :: arp_state where
  "arp_boot = \<lparr>s_table = replicate ARP_TABLE_SIZE
      \<lparr>ae_ip = (0, 0, 0, 0), ae_mac = (0, 0, 0, 0, 0, 0), ae_valid = False\<rparr>, s_next_slot = 0\<rparr>"

section \<open>Operations\<close>

definition arp_init :: "arp_state \<Rightarrow> arp_state" where
  "arp_init st = st\<lparr>s_table := map (\<lambda>e. e\<lparr>ae_valid := False\<rparr>) (s_table st), s_next_slot := 0\<rparr>"

text \<open>The scan both \<open>table_update\<close> and \<open>arp_resolve\<close> make: the first valid slot holding \<open>ip\<close>.\<close>

fun arp_slot :: "ip4 \<Rightarrow> arp_entry list \<Rightarrow> nat option" where
  "arp_slot ip [] = None"
| "arp_slot ip (e # es) =
     (if ae_valid e \<and> ae_ip e = ip then Some 0 else map_option Suc (arp_slot ip es))"

definition table_update :: "ip4 \<Rightarrow> mac6 \<Rightarrow> arp_state \<Rightarrow> arp_state option" where
  "table_update ip mac st =
     (if ip = (0, 0, 0, 0) then Some st
      else case arp_slot ip (s_table st) of
        Some i \<Rightarrow> Some (st\<lparr>s_table := (s_table st)[i := (s_table st ! i)\<lparr>ae_mac := mac\<rparr>]\<rparr>)
      | None \<Rightarrow>
          (let slot = s_next_slot st mod int ARP_TABLE_SIZE
           in if s_next_slot st < 0 \<or> 2147483647 \<le> s_next_slot st
                 \<or> length (s_table st) \<le> nat slot then None
              else Some (st\<lparr>s_table := (s_table st)[nat slot :=
                              \<lparr>ae_ip = ip, ae_mac = mac, ae_valid = True\<rparr>],
                            s_next_slot := s_next_slot st + 1\<rparr>)))"

definition arp_resolve :: "arp_state \<Rightarrow> ip4 \<Rightarrow> mac6 option" where
  "arp_resolve st ip =
     (case arp_slot ip (s_table st) of Some i \<Rightarrow> Some (ae_mac (s_table st ! i)) | None \<Rightarrow> None)"

definition arp_send_request :: "mac6 \<Rightarrow> ip4 \<Rightarrow> ip4 \<Rightarrow> bytes" where
  "arp_send_request g_genet_mac g_our_ip target_ip =
     [0xFF, 0xFF, 0xFF, 0xFF, 0xFF, 0xFF] @ mac_bytes g_genet_mac @ [0x08, 0x06] @
     [0x00, 0x01, 0x08, 0x00, 6, 4, 0x00, 0x01] @
     mac_bytes g_genet_mac @ ip_bytes g_our_ip @ [0, 0, 0, 0, 0, 0] @ ip_bytes target_ip @
     replicate 18 0"

definition send_reply :: "mac6 \<Rightarrow> ip4 \<Rightarrow> mac6 \<Rightarrow> ip4 \<Rightarrow> bytes" where
  "send_reply g_genet_mac g_our_ip tha tpa =
     mac_bytes tha @ mac_bytes g_genet_mac @ [0x08, 0x06] @
     [0x00, 0x01, 0x08, 0x00, 6, 4, 0x00, 0x02] @
     mac_bytes g_genet_mac @ ip_bytes g_our_ip @ mac_bytes tha @ ip_bytes tpa @
     replicate 18 0"

definition arp_input ::
  "mac6 \<Rightarrow> ip4 \<Rightarrow> arp_state \<Rightarrow> bytes \<Rightarrow> int \<Rightarrow> (arp_state \<times> bytes list) option" where
  "arp_input g_genet_mac g_our_ip st frame len =
     (if len < 42 then Some (st, [])
      else do {
        op \<leftarrow> rd16be frame 20;
        sha \<leftarrow> rd_mac frame 22;
        spa \<leftarrow> rd_ip frame 28;
        st' \<leftarrow> table_update spa sha st;
        if op = ARP_OP_REQUEST then do {
          tpa \<leftarrow> rd_ip frame 38;
          Some (st', if tpa = g_our_ip then [send_reply g_genet_mac g_our_ip sha spa] else [])
        } else Some (st', [])
      })"

section \<open>The table as a lossy map\<close>

text \<open>
  Every valid slot holds a different address, never 0.0.0.0, and the eviction counter is
  the number of insertions made.
\<close>

definition arp_inv :: "arp_state \<Rightarrow> bool" where
  "arp_inv st \<longleftrightarrow> length (s_table st) = ARP_TABLE_SIZE \<and> 0 \<le> s_next_slot st \<and>
     (\<forall>i < length (s_table st). ae_valid (s_table st ! i) \<longrightarrow> ae_ip (s_table st ! i) \<noteq> (0, 0, 0, 0)) \<and>
     (\<forall>i < length (s_table st). \<forall>j < length (s_table st).
        ae_valid (s_table st ! i) \<longrightarrow> ae_valid (s_table st ! j) \<longrightarrow>
        ae_ip (s_table st ! i) = ae_ip (s_table st ! j) \<longrightarrow> i = j)"

lemma arp_slot_Some:
  "arp_slot ip es = Some i \<Longrightarrow> i < length es \<and> ae_valid (es ! i) \<and> ae_ip (es ! i) = ip"
  by (induction es arbitrary: i) (auto split: if_splits)

lemma arp_slot_None: "arp_slot ip es = None \<longleftrightarrow> (\<forall>e \<in> set es. ae_valid e \<longrightarrow> ae_ip e \<noteq> ip)"
  by (induction es) auto

lemma arp_slot_unique:
  assumes "i < length es" "ae_valid (es ! i)" "ae_ip (es ! i) = ip"
    and "\<And>j. j < length es \<Longrightarrow> ae_valid (es ! j) \<Longrightarrow> ae_ip (es ! j) = ip \<Longrightarrow> j = i"
  shows "arp_slot ip es = Some i"
proof (cases "arp_slot ip es")
  case None
  then show ?thesis using assms(1-3) by (auto simp: arp_slot_None)
next
  case (Some j)
  then show ?thesis using assms(4) arp_slot_Some [OF Some] by simp
qed

text \<open>
  The contract of a bounded cache, as the transport protocols use the ARP table: a stored
  binding is returned, other bindings are kept or evicted but never changed.
\<close>

locale lossy_cache =
  fixes inv :: "'s \<Rightarrow> bool"
    and lookup :: "'s \<Rightarrow> 'k \<Rightarrow> 'v option"
    and update :: "'k \<Rightarrow> 'v \<Rightarrow> 's \<Rightarrow> 's option"
    and storable :: "'k \<Rightarrow> bool"
  assumes update_inv: "inv s \<Longrightarrow> update k v s = Some s' \<Longrightarrow> inv s'"
    and lookup_same: "inv s \<Longrightarrow> storable k \<Longrightarrow> update k v s = Some s' \<Longrightarrow> lookup s' k = Some v"
    and lookup_other: "inv s \<Longrightarrow> update k v s = Some s' \<Longrightarrow> k' \<noteq> k \<Longrightarrow>
          lookup s' k' = lookup s k' \<or> lookup s' k' = None"
    and lookup_unstorable: "inv s \<Longrightarrow> \<not> storable k \<Longrightarrow> lookup s k = None"
begin

text \<open>After any run of updates, a hit is the last value stored for that key.\<close>

lemma hit_is_last_update:
  "inv s \<Longrightarrow> run_events (\<lambda>s (k, v). update k v s) s kvs = Some s' \<Longrightarrow> lookup s' k = Some v \<Longrightarrow>
   (case map_of (rev kvs) k of Some w \<Rightarrow> v = w | None \<Rightarrow> lookup s k = Some v)"
proof (induction kvs arbitrary: s' v rule: rev_induct)
  case Nil
  then show ?case by simp
next
  case (snoc kv kvs)
  obtain k1 v1 where kv: "kv = (k1, v1)" by (cases kv)
  obtain t where t: "run_events (\<lambda>s (k, v). update k v s) s kvs = Some t" "update k1 v1 t = Some s'"
    using snoc.prems(2) by (auto simp: run_events_append bind_eq_Some_conv kv)
  have run_inv: "inv s1 \<Longrightarrow> run_events (\<lambda>s (k, v). update k v s) s1 xs = Some s2 \<Longrightarrow> inv s2" for s1 xs s2
    by (induction xs arbitrary: s1) (auto simp: bind_eq_Some_conv intro: update_inv)
  then have "inv t" using snoc.prems(1) t(1) by blast
  show ?case
  proof (cases "k1 = k")
    case True
    have "storable k"
      using update_inv [OF \<open>inv t\<close> t(2)] lookup_unstorable [of s' k] snoc.prems(3) by auto
    then show ?thesis using lookup_same [OF \<open>inv t\<close>] t(2) snoc.prems(3) kv True by auto
  next
    case False
    then have "lookup t k = Some v"
      using lookup_other [OF \<open>inv t\<close> t(2), of k] snoc.prems(3) by auto
    then show ?thesis using snoc.IH [OF snoc.prems(1) t(1)] False kv by simp
  qed
qed

end

lemma arp_resolve_Some_iff:
  "arp_inv st \<Longrightarrow> arp_resolve st ip = Some m \<longleftrightarrow>
   (\<exists>i < length (s_table st). ae_valid (s_table st ! i) \<and> ae_ip (s_table st ! i) = ip \<and>
      ae_mac (s_table st ! i) = m)"
proof
  assume "arp_inv st" "arp_resolve st ip = Some m"
  then show "\<exists>i < length (s_table st). ae_valid (s_table st ! i) \<and> ae_ip (s_table st ! i) = ip \<and>
      ae_mac (s_table st ! i) = m"
    by (auto simp: arp_resolve_def dest!: arp_slot_Some split: option.splits)
next
  assume inv: "arp_inv st" and
    "\<exists>i < length (s_table st). ae_valid (s_table st ! i) \<and> ae_ip (s_table st ! i) = ip \<and>
      ae_mac (s_table st ! i) = m"
  then obtain i where i: "i < length (s_table st)" "ae_valid (s_table st ! i)"
    "ae_ip (s_table st ! i) = ip" "ae_mac (s_table st ! i) = m" by auto
  then have "arp_slot ip (s_table st) = Some i"
    using inv by (intro arp_slot_unique) (auto simp: arp_inv_def)
  then show "arp_resolve st ip = Some m" by (simp add: arp_resolve_def i)
qed

text \<open>The three ways \<open>table_update\<close> succeeds.\<close>

lemma table_update_cases [consumes 1, case_names probe refresh insert]:
  assumes "table_update ip mac st = Some st'"
  obtains "ip = (0, 0, 0, 0)" "st' = st"
  | i where "ip \<noteq> (0, 0, 0, 0)" "arp_slot ip (s_table st) = Some i"
      "st' = st\<lparr>s_table := (s_table st)[i := (s_table st ! i)\<lparr>ae_mac := mac\<rparr>]\<rparr>"
  | i where "ip \<noteq> (0, 0, 0, 0)" "arp_slot ip (s_table st) = None" "0 \<le> s_next_slot st"
      "i = nat (s_next_slot st mod int ARP_TABLE_SIZE)" "i < length (s_table st)"
      "st' = st\<lparr>s_table := (s_table st)[i := \<lparr>ae_ip = ip, ae_mac = mac, ae_valid = True\<rparr>],
                s_next_slot := s_next_slot st + 1\<rparr>"
  using assms unfolding table_update_def
  by (auto simp: Let_def not_le split: if_splits option.splits)

lemma table_update_inv:
  assumes "arp_inv st" "table_update ip mac st = Some st'"
  shows "arp_inv st'"
  using assms(2)
proof (cases rule: table_update_cases)
  case probe
  then show ?thesis using assms(1) by simp
next
  case (refresh i)
  then have "i < length (s_table st)" "ae_ip (s_table st ! i) = ip" "ae_valid (s_table st ! i)"
    using arp_slot_Some by auto
  then show ?thesis using assms(1) refresh by (auto simp: arp_inv_def nth_list_update)
next
  case (insert i)
  have "\<forall>j < length (s_table st). ae_valid (s_table st ! j) \<longrightarrow> ae_ip (s_table st ! j) \<noteq> ip"
    using insert(2) by (auto simp: arp_slot_None)
  then show ?thesis using assms(1) insert by (auto simp: arp_inv_def nth_list_update)
qed

lemma table_update_same:
  assumes "arp_inv st" "ip \<noteq> (0, 0, 0, 0)" "table_update ip mac st = Some st'"
  shows "arp_resolve st' ip = Some mac"
  using assms(3)
proof (cases rule: table_update_cases)
  case (refresh i)
  then have "i < length (s_table st)" "ae_ip (s_table st ! i) = ip" "ae_valid (s_table st ! i)"
    using arp_slot_Some by auto
  then show ?thesis
    using table_update_inv [OF assms(1,3)] refresh by (auto simp: arp_resolve_Some_iff intro!: exI [of _ i])
next
  case (insert i)
  then show ?thesis
    using table_update_inv [OF assms(1,3)] by (auto simp: arp_resolve_Some_iff intro!: exI [of _ i])
qed (use assms(2) in simp)

lemma table_update_other:
  assumes "arp_inv st" "table_update ip mac st = Some st'" "ip' \<noteq> ip"
  shows "arp_resolve st' ip' = arp_resolve st ip' \<or> arp_resolve st' ip' = None"
proof (cases "arp_resolve st' ip'")
  case (Some m)
  then obtain i where i: "i < length (s_table st')" "ae_valid (s_table st' ! i)"
    "ae_ip (s_table st' ! i) = ip'" "ae_mac (s_table st' ! i) = m"
    using arp_resolve_Some_iff [OF table_update_inv [OF assms(1,2)]] by auto
  have "i < length (s_table st) \<and> s_table st ! i = s_table st' ! i"
    using assms(2)
  proof (cases rule: table_update_cases)
    case (refresh j)
    then have "ae_ip (s_table st ! j) = ip" using arp_slot_Some by auto
    then show ?thesis using refresh i assms(3) by (cases "i = j") auto
  qed (use i assms(3) in \<open>auto simp: nth_list_update split: if_splits\<close>)
  then have "arp_resolve st ip' = Some m"
    using i arp_resolve_Some_iff [OF assms(1)] by auto
  then show ?thesis using Some by simp
qed simp

lemma arp_resolve_zero: "arp_inv st \<Longrightarrow> arp_resolve st (0, 0, 0, 0) = None"
proof (rule ccontr)
  assume inv: "arp_inv st" and "arp_resolve st (0, 0, 0, 0) \<noteq> None"
  then obtain m where "arp_resolve st (0, 0, 0, 0) = Some m" by blast
  then show False
    unfolding arp_resolve_Some_iff [OF inv] using inv by (auto simp: arp_inv_def)
qed

interpretation arpc: lossy_cache arp_inv arp_resolve table_update "\<lambda>ip. ip \<noteq> (0, 0, 0, 0)"
proof
  show "\<And>s k v s'. arp_inv s \<Longrightarrow> table_update k v s = Some s' \<Longrightarrow> arp_inv s'"
    by (rule table_update_inv)
  show "\<And>s k v s'. arp_inv s \<Longrightarrow> k \<noteq> (0, 0, 0, 0) \<Longrightarrow> table_update k v s = Some s' \<Longrightarrow>
      arp_resolve s' k = Some v"
    by (rule table_update_same)
  show "\<And>s k v s' k'. arp_inv s \<Longrightarrow> table_update k v s = Some s' \<Longrightarrow> k' \<noteq> k \<Longrightarrow>
      arp_resolve s' k' = arp_resolve s k' \<or> arp_resolve s' k' = None"
    by (rule table_update_other)
  show "\<And>s k. arp_inv s \<Longrightarrow> \<not> k \<noteq> (0, 0, 0, 0) \<Longrightarrow> arp_resolve s k = None"
    using arp_resolve_zero by simp
qed

section \<open>The handler\<close>

text \<open>What is read back from the two frames the module builds.\<close>

lemma request_fields [buf_simps]:
  "length (arp_send_request m p t) = 60"
  "rd16be (arp_send_request m p t) 12 = Some 0x0806"
  "rd16be (arp_send_request m p t) 20 = Some 1"
  "rd_mac (arp_send_request m p t) 22 = Some m"
  "rd_ip (arp_send_request m p t) 28 = Some p"
  "rd_ip (arp_send_request m p t) 38 = Some t"
  by (cases m; cases p; cases t;
      simp add: arp_send_request_def rd16be_def rd_mac_def rd_ip_def rd_def be16_def)+

lemma reply_fields [buf_simps]:
  "length (send_reply m p m' t) = 60"
  "rd_mac (send_reply m p m' t) 0 = Some m'"
  "rd16be (send_reply m p m' t) 12 = Some 0x0806"
  "rd16be (send_reply m p m' t) 20 = Some 2"
  "rd_mac (send_reply m p m' t) 22 = Some m"
  "rd_ip (send_reply m p m' t) 28 = Some p"
  by (cases m; cases m'; cases p; cases t;
      simp add: send_reply_def rd16be_def rd_mac_def rd_ip_def rd_def be16_def)+

lemma table_update_safe:
  "arp_inv st \<Longrightarrow> s_next_slot st < 2147483647 \<Longrightarrow> \<exists>st'. table_update ip mac st = Some st'"
  by (auto simp: table_update_def arp_inv_def ARP_TABLE_SIZE_def Let_def split: option.splits)

lemma arp_input_safe:
  assumes "arp_inv st" "s_next_slot st < 2147483647" "len \<le> int (length frame)"
  shows "\<exists>r. arp_input mac ip st frame len = Some r"
proof (cases "len < 42")
  case False
  then have n: "42 \<le> int (length frame)" using assms(3) by linarith
  obtain op sha spa tpa where f: "rd16be frame 20 = Some op" "rd_mac frame 22 = Some sha"
    "rd_ip frame 28 = Some spa" "rd_ip frame 38 = Some tpa"
    using n by (simp add: rd16be_Some rd_mac_Some rd_ip_Some)
  obtain st' where "table_update spa sha st = Some st'"
    using table_update_safe [OF assms(1,2)] by blast
  then show ?thesis using False by (simp add: arp_input_def f)
qed (simp add: arp_input_def)

lemma arp_input_inv: "arp_inv st \<Longrightarrow> arp_input mac ip st frame len = Some (st', out) \<Longrightarrow> arp_inv st'"
  by (auto simp: arp_input_def bind_eq_Some_conv split: if_splits intro: table_update_inv)

lemma table_update_slot: "table_update ip mac st = Some st' \<Longrightarrow> s_next_slot st' \<le> s_next_slot st + 1"
  by (cases rule: table_update_cases) auto

lemma arp_input_slot: "arp_input mac ip st frame len = Some (st', out) \<Longrightarrow> s_next_slot st' \<le> s_next_slot st + 1"
  by (auto simp: arp_input_def bind_eq_Some_conv split: if_splits dest: table_update_slot)

lemma arp_boot_inv: "arp_inv arp_boot"
  by (simp add: arp_inv_def arp_boot_def)

lemma arp_resolve_boot [simp]: "arp_resolve arp_boot ip = None"
proof -
  have "arp_slot ip (s_table arp_boot) = None"
    by (simp add: arp_slot_None arp_boot_def)
  then show ?thesis by (simp add: arp_resolve_def)
qed

lemma arp_init_inv: "length (s_table st) = ARP_TABLE_SIZE \<Longrightarrow> arp_inv (arp_init st)"
  by (simp add: arp_inv_def arp_init_def)

text \<open>A run of received frames, the sent replies dropped.\<close>

definition arp_step :: "mac6 \<Rightarrow> ip4 \<Rightarrow> arp_state \<Rightarrow> bytes \<times> int \<Rightarrow> arp_state option" where
  "arp_step mac ip st f = map_option fst (arp_input mac ip st (fst f) (snd f))"

interpretation arpe: event_system "arp_step mac ip" arp_inv
  by unfold_locales (auto simp: arp_step_def intro: arp_input_inv)

section \<open>Properties\<close>

text \<open>
  A complete ARP exchange between two hosts running this code. Host A broadcasts the
  request \<open>arp_send_request\<close> for B's address; B's handler answers with exactly one frame and
  has learnt A's MAC address; A's handler, given that frame, sends nothing and now resolves
  B's address to B's MAC address. Neither handler reads outside the frame.
\<close>

theorem arp_exchange:
  assumes "arp_inv sa" "arp_inv sb" "s_next_slot sa < 2147483647" "s_next_slot sb < 2147483647"
    and "ipa \<noteq> (0, 0, 0, 0)" "ipb \<noteq> (0, 0, 0, 0)"
  shows "\<exists>sb' reply sa'.
    arp_input macb ipb sb (arp_send_request maca ipa ipb) 60 = Some (sb', [reply]) \<and>
    arp_resolve sb' ipa = Some maca \<and>
    arp_input maca ipa sa reply 60 = Some (sa', []) \<and>
    arp_resolve sa' ipb = Some macb"
proof -
  obtain sb' where b: "table_update ipa maca sb = Some sb'"
    using table_update_safe [OF assms(2,4)] by blast
  obtain sa' where a: "table_update ipb macb sa = Some sa'"
    using table_update_safe [OF assms(1,3)] by blast
  have "arp_input macb ipb sb (arp_send_request maca ipa ipb) 60
      = Some (sb', [send_reply macb ipb maca ipa])"
    by (simp add: arp_input_def ARP_OP_REQUEST_def buf_simps b)
  moreover have "arp_input maca ipa sa (send_reply macb ipb maca ipa) 60 = Some (sa', [])"
    by (simp add: arp_input_def ARP_OP_REQUEST_def buf_simps a)
  ultimately show ?thesis
    using table_update_same [OF assms(2,5) b] table_update_same [OF assms(1,6) a] by blast
qed

theorem arp_exchange_witness:
  "\<exists>sb' reply sa'.
    arp_input (2, 0, 0, 0, 0, 2) (10, 0, 0, 2) arp_boot
      (arp_send_request (2, 0, 0, 0, 0, 1) (10, 0, 0, 1) (10, 0, 0, 2)) 60 = Some (sb', [reply]) \<and>
    arp_resolve sb' (10, 0, 0, 1) = Some (2, 0, 0, 0, 0, 1) \<and>
    arp_input (2, 0, 0, 0, 0, 1) (10, 0, 0, 1) arp_boot reply 60 = Some (sa', []) \<and>
    arp_resolve sa' (10, 0, 0, 2) = Some (2, 0, 0, 0, 0, 2)"
  by (rule arp_exchange) (simp_all add: arp_boot_inv, simp_all add: arp_boot_def)

text \<open>
  The cache never invents or misremembers a binding: after any fault-free run of table
  updates from the boot state, the MAC address \<open>arp_resolve\<close> returns for an address is the
  one of the latest update made for that address.
\<close>

theorem arp_hit_is_last_update:
  assumes "run_events (\<lambda>s (k, v). table_update k v s) arp_boot kvs = Some st"
    and "arp_resolve st ip = Some mac"
  shows "map_of (rev kvs) ip = Some mac"
  using arpc.hit_is_last_update [OF arp_boot_inv assms]
  by (simp split: option.splits)

theorem arp_hit_is_last_update_witness:
  "map_of (rev [((10, 0, 0, 1), (2, 0, 0, 0, 0, 1)), ((10, 0, 0, 1), (2, 0, 0, 0, 0, 9))])
     ((10, 0, 0, 1) :: ip4) = Some ((2, 0, 0, 0, 0, 9) :: mac6)"
  by (rule arp_hit_is_last_update [where st = "the (run_events (\<lambda>s (k, v). table_update k v s) arp_boot
        [((10, 0, 0, 1), (2, 0, 0, 0, 0, 1)), ((10, 0, 0, 1), (2, 0, 0, 0, 0, 9))])"])
    (code_simp, code_simp)

text \<open>
  Handling any run of received frames keeps the table well formed: sixteen slots, no
  valid slot for 0.0.0.0, and no address held by two valid slots.
\<close>

theorem arp_run_inv:
  assumes "run_events (arp_step mac ip) arp_boot fs = Some st"
  shows "arp_inv st"
  using assms by (rule arpe.run_inv [OF arp_boot_inv])

theorem arp_run_inv_witness:
  "arp_inv (the (run_events (arp_step (2, 0, 0, 0, 0, 2) (10, 0, 0, 2)) arp_boot
     [(arp_send_request (2, 0, 0, 0, 0, 1) (10, 0, 0, 1) (10, 0, 0, 2), 60)]))"
  by (rule arp_run_inv [where fs = "[(arp_send_request (2, 0, 0, 0, 0, 1) (10, 0, 0, 1) (10, 0, 0, 2), 60)]"])
    code_simp

text \<open>
  Replacement is first-in first-out, not least-recently-used: an entry that sits in the
  next slot to be overwritten is lost at the next insertion even when it was refreshed
  immediately before.
\<close>

theorem arp_eviction_ignores_refresh:
  assumes "arp_inv st" "arp_slot old (s_table st) = Some (nat (s_next_slot st mod 16))"
    and "arp_slot new (s_table st) = None" "new \<noteq> (0, 0, 0, 0)"
    and "table_update old mo st = Some st1" "table_update new mn st1 = Some st2"
  shows "arp_resolve st1 old = Some mo \<and> arp_resolve st2 old = None"
proof -
  let ?i = "nat (s_next_slot st mod 16)"
  have i: "?i < length (s_table st)" "ae_valid (s_table st ! ?i)" "ae_ip (s_table st ! ?i) = old"
    using arp_slot_Some [OF assms(2)] by auto
  have old: "old \<noteq> (0, 0, 0, 0)" using i assms(1) by (auto simp: arp_inv_def)
  have st1: "st1 = st\<lparr>s_table := (s_table st)[?i := (s_table st ! ?i)\<lparr>ae_mac := mo\<rparr>]\<rparr>"
    using assms(2,5) old by (auto simp: table_update_def)
  have "arp_slot new (s_table st1) = None"
    using assms(3) i by (auto simp: st1 arp_slot_None all_set_conv_all_nth nth_list_update)
  then have st2: "s_table st2 = (s_table st1)[?i := \<lparr>ae_ip = new, ae_mac = mn, ae_valid = True\<rparr>]"
    using assms(4,6) st1 by (auto simp: table_update_def ARP_TABLE_SIZE_def Let_def split: if_splits)
  have "new \<noteq> old" using assms(2,3) by auto
  have "arp_resolve st2 old = None"
  proof (rule ccontr)
    assume "arp_resolve st2 old \<noteq> None"
    then obtain m where "arp_resolve st2 old = Some m" by blast
    then obtain j where j: "j < length (s_table st2)" "ae_valid (s_table st2 ! j)" "ae_ip (s_table st2 ! j) = old"
      using arp_resolve_Some_iff table_update_inv assms(1,5,6) by metis
    then have "j \<noteq> ?i" using i \<open>new \<noteq> old\<close> by (auto simp: st2 st1)
    then have "ae_valid (s_table st ! j)" "ae_ip (s_table st ! j) = old" "j < length (s_table st)"
      using j by (auto simp: st2 st1)
    then show False using \<open>j \<noteq> ?i\<close> i assms(1) unfolding arp_inv_def by metis
  qed
  then show ?thesis using table_update_same [OF assms(1) old assms(5)] by simp
qed

definition arp_full :: arp_state where
  "arp_full = \<lparr>s_table = map (\<lambda>i. \<lparr>ae_ip = (10, 0, 0, of_nat (i + 1)),
      ae_mac = (2, 0, 0, 0, 0, of_nat (i + 1)), ae_valid = True\<rparr>) [0..<16], s_next_slot = 16\<rparr>"

lemma arp_full_inv: "arp_inv arp_full"
  by (simp add: arp_inv_def arp_full_def ARP_TABLE_SIZE_def word_unat_eq_iff unat_of_nat flip: of_nat_Suc)

theorem arp_eviction_ignores_refresh_witness:
  "arp_resolve (the (table_update (10, 0, 0, 1) (2, 0, 0, 0, 0, 77) arp_full)) (10, 0, 0, 1)
      = Some (2, 0, 0, 0, 0, 77) \<and>
   arp_resolve (the (table_update (10, 0, 0, 99) (2, 0, 0, 0, 0, 99)
      (the (table_update (10, 0, 0, 1) (2, 0, 0, 0, 0, 77) arp_full)))) (10, 0, 0, 1) = None"
  by (rule arp_eviction_ignores_refresh [where st = arp_full and new = "(10, 0, 0, 99)"
        and mn = "(2, 0, 0, 0, 0, 99)"]) (rule arp_full_inv | code_simp)+

end
