(* ===== verification/Ipv4.thy ===== *)
theory Ipv4
  imports Inet
begin

text \<open>
  net/ipv4.c: the checksum, the ICMP echo responder and the IPv4 output routine. The
  dispatcher \<open>ipv4_input\<close> calls the TCP and UDP handlers and is in theory Tcpip. The static
  buffer \<open>pkt[1514]\<close> of \<open>icmp_input\<close> keeps its contents between calls and is a state
  argument; the static frame of \<open>ipv4_output\<close> is rewritten up to the length sent.
\<close>

section \<open>ip\_checksum\<close>

text \<open>The loop \<open>for (i = 0; i + 1 < len; i += 2)\<close> over \<open>data = buf + off\<close>.\<close>

function ip_sum :: "bytes \<Rightarrow> int \<Rightarrow> int \<Rightarrow> int \<Rightarrow> u32 \<Rightarrow> u32 option" where
  "ip_sum buf off len i ck =
     (if i + 1 < len then do {
        a \<leftarrow> rd buf (off + i);
        b \<leftarrow> rd buf (off + i + 1);
        ip_sum buf off len (i + 2) (ck + (push_bit 8 (ucast a) OR ucast b))
      } else Some ck)"
  by pat_completeness auto
termination
  by (relation "measure (\<lambda>(buf, off, len, i, ck). nat (len - i))") auto

declare ip_sum.simps [simp del]

definition ip_checksum :: "bytes \<Rightarrow> int \<Rightarrow> int \<Rightarrow> u16 option" where
  "ip_checksum buf off len = do {
     ck \<leftarrow> ip_sum buf off len 0 0;
     ck \<leftarrow> (if odd len then do {
              x \<leftarrow> rd buf (off + len - 1);
              Some (ck + push_bit 8 (ucast x))
            } else Some ck);
     Some (finish_ck ck)
   }"

section \<open>icmp\_input\<close>

definition icmp_input ::
  "mac6 \<Rightarrow> ip4 \<Rightarrow> bytes \<Rightarrow> bytes \<Rightarrow> int \<Rightarrow> int \<Rightarrow> (bytes \<times> bytes list) option" where
  "icmp_input g_genet_mac g_our_ip pkt frame flen ihl =
     (let icmp_off = 14 + ihl in
      if flen < icmp_off + 8 then Some (pkt, [])
      else do {
        ty \<leftarrow> rd frame icmp_off;
        if ty \<noteq> 0x08 then Some (pkt, []) else do {
        code \<leftarrow> rd frame (icmp_off + 1);
        if code \<noteq> 0x00 then Some (pkt, []) else do {
        dst \<leftarrow> rd_ip frame 30;
        if dst \<noteq> g_our_ip then Some (pkt, []) else do {
        tl \<leftarrow> rd16be frame 16;
        let ip_total = int (unat tl);
        let pkt_len = (if 14 + ip_total > flen then flen else 14 + ip_total);
        if pkt_len > 1514 then Some (pkt, []) else do {
          copy \<leftarrow> rdn frame 0 (nat pkt_len);
          pkt \<leftarrow> wrn pkt 0 copy;
          sender \<leftarrow> rdn frame 6 6;
          pkt \<leftarrow> wrn pkt 0 sender;
          pkt \<leftarrow> wrn pkt 6 (mac_bytes g_genet_mac);
          pkt \<leftarrow> wrn pkt 26 (ip_bytes g_our_ip);
          src \<leftarrow> rdn frame 26 4;
          pkt \<leftarrow> wrn pkt 30 src;
          pkt \<leftarrow> wrn pkt 22 [64];
          pkt \<leftarrow> wrn pkt 24 [0, 0];
          ip_ck \<leftarrow> ip_checksum pkt 14 ihl;
          pkt \<leftarrow> wrn pkt 24 [hi8 ip_ck, lo8 ip_ck];
          pkt \<leftarrow> wrn pkt icmp_off [0x00];
          pkt \<leftarrow> wrn pkt (icmp_off + 2) [0, 0];
          let icmp_len = ip_total - ihl;
          icmp_ck \<leftarrow> ip_checksum pkt icmp_off icmp_len;
          pkt \<leftarrow> wrn pkt (icmp_off + 2) [hi8 icmp_ck, lo8 icmp_ck];
          out \<leftarrow> rdn pkt 0 (nat pkt_len);
          Some (pkt, [out])
        }}}}})"

section \<open>ipv4\_output\<close>

definition ipv4_header :: "mac6 \<Rightarrow> ip4 \<Rightarrow> mac6 \<Rightarrow> ip4 \<Rightarrow> u8 \<Rightarrow> int \<Rightarrow> u16 \<Rightarrow> bytes" where
  "ipv4_header g_genet_mac g_our_ip dst_mac dst_ip proto ip_total ck =
     mac_bytes dst_mac @ mac_bytes g_genet_mac @ [0x08, 0x00] @
     [0x45, 0x00, hi8 (of_int ip_total), lo8 (of_int ip_total), 0x00, 0x00, 0x40, 0x00, 64, proto,
      hi8 ck, lo8 ck] @ ip_bytes g_our_ip @ ip_bytes dst_ip"

definition ipv4_output ::
  "mac6 \<Rightarrow> ip4 \<Rightarrow> mac6 \<Rightarrow> ip4 \<Rightarrow> u8 \<Rightarrow> bytes \<Rightarrow> int \<Rightarrow> bytes list option" where
  "ipv4_output g_genet_mac g_our_ip dst_mac dst_ip proto payload payload_len =
     (let ip_total = 20 + payload_len;
          frame_len = 14 + ip_total in
      if frame_len > 1514 then Some []
      else do {
        ck \<leftarrow> ip_checksum (ipv4_header g_genet_mac g_our_ip dst_mac dst_ip proto ip_total 0) 14 20;
        data \<leftarrow> rdn payload 0 (nat payload_len);
        Some [take (nat frame_len)
                (ipv4_header g_genet_mac g_our_ip dst_mac dst_ip proto ip_total ck @ data)]
      })"

section \<open>The checksum is the RFC 1071 value\<close>

text \<open>The loop leaves out an odd last byte.\<close>

fun pairs16 :: "bytes \<Rightarrow> nat" where
  "pairs16 (a # b # r) = 256 * unat a + unat b + pairs16 r"
| "pairs16 _ = 0"

lemma words16_pairs16:
  "words16 xs = pairs16 xs + (if odd (length xs) then 256 * unat (last xs) else 0)"
  by (induction xs rule: words16.induct) (auto simp: neq_Nil_conv)

lemma ip_sum_pairs16:
  assumes "0 \<le> off" "0 \<le> i" "off + len \<le> int (length buf)"
  shows "ip_sum buf off len i ck =
    Some (ck + of_nat (pairs16 (take (nat (len - i)) (drop (nat (off + i)) buf))))"
  using assms
proof (induction buf off len i ck rule: ip_sum.induct)
  case (1 buf off len i ck)
  show ?case
  proof (cases "i + 1 < len")
    case True
    let ?k = "nat (off + i)"
    have k: "Suc ?k < length buf" using True "1.prems" by linarith
    have d: "drop ?k buf = buf ! ?k # buf ! Suc ?k # drop (Suc (Suc ?k)) buf"
      using k by (metis Cons_nth_drop_Suc Suc_lessD)
    have m: "nat (len - i) = Suc (Suc (nat (len - (i + 2))))" using True by linarith
    have r: "rd buf (off + i) = Some (buf ! ?k)" "rd buf (off + i + 1) = Some (buf ! Suc ?k)"
      using k "1.prems" by (simp_all add: rd_def nat_add_distrib)
    have n: "nat (off + (i + 2)) = Suc (Suc ?k)" using "1.prems" by linarith
    have "ip_sum buf off len i ck
        = ip_sum buf off len (i + 2) (ck + of_nat (256 * unat (buf ! ?k) + unat (buf ! Suc ?k)))"
      using True by (simp add: ip_sum.simps [of buf off len i] r be16_u32)
    also have "\<dots> = Some (ck + of_nat (256 * unat (buf ! ?k) + unat (buf ! Suc ?k)) +
        of_nat (pairs16 (take (nat (len - (i + 2))) (drop (Suc (Suc ?k)) buf))))"
      using "1.IH" [OF True r] "1.prems" n by (simp add: be16_u32)
    also have "\<dots> = Some (ck + of_nat (pairs16 (take (nat (len - i)) (drop ?k buf))))"
      by (simp add: d m)
    finally show ?thesis .
  next
    case False
    then have "nat (len - i) \<le> 1" by linarith
    then have "pairs16 (take (nat (len - i)) (drop (nat (off + i)) buf)) = 0"
      by (cases "drop (nat (off + i)) buf"; cases "nat (len - i)") auto
    then show ?thesis using False by (simp add: ip_sum.simps [of buf off len i])
  qed
qed

text \<open>The loop and the odd byte together, from any start value.\<close>

lemma ip_sum_words16:
  assumes "0 \<le> off" "0 \<le> len" "off + len \<le> int (length buf)"
  shows "do { ck \<leftarrow> ip_sum buf off len 0 ck0;
      (if odd len then do { x \<leftarrow> rd buf (off + len - 1); Some (ck + push_bit 8 (ucast x)) } else Some ck) }
    = Some (ck0 + of_nat (words16 (take (nat len) (drop (nat off) buf))))"
proof -
  let ?xs = "take (nat len) (drop (nat off) buf)"
  have l: "length ?xs = nat len" using assms by simp
  show ?thesis
  proof (cases "odd len")
    case True
    then have "0 < len" using assms(2) by (cases "len = 0") auto
    then have "rd buf (off + len - 1) = Some (last ?xs)"
      using assms l by (simp add: rd_def last_conv_nth nat_diff_distrib nat_add_distrib)
    moreover have "push_bit 8 (ucast x :: u32) = of_nat (256 * unat x)" for x :: u8
      using be16_u32 [of x 0] by simp
    ultimately show ?thesis
      using True assms l by (simp add: ip_sum_pairs16 words16_pairs16 [of ?xs] even_nat_iff)
  next
    case False
    then show ?thesis
      using assms l by (simp add: ip_sum_pairs16 words16_pairs16 [of ?xs] even_nat_iff)
  qed
qed

lemma ip_checksum_rfc1071:
  assumes "0 \<le> off" "0 \<le> len" "off + len \<le> int (length buf)" "len \<le> 65535"
  shows "ip_checksum buf off len = Some (rfc1071 (take (nat len) (drop (nat off) buf)))"
proof -
  have "ip_checksum buf off len = Some (finish_ck (of_nat (words16 (take (nat len) (drop (nat off) buf)))))"
    unfolding ip_checksum_def
    by (subst bind_assoc [symmetric], subst ip_sum_words16 [OF assms(1-3)]) simp
  then show ?thesis using assms by (simp add: finish_ck_words16)
qed

interpretation ipck: inet_cksum "\<lambda>bs. the (ip_checksum bs 0 (int (length bs)))"
  by unfold_locales (simp add: ip_checksum_rfc1071)

lemma rfc1071_verifies:
  assumes "even (length pre)" "length (pre @ [0, 0] @ post) \<le> 65535" "c = rfc1071 (pre @ [0, 0] @ post)"
  shows "rfc1071 (pre @ [hi8 c, lo8 c] @ post) = 0"
  using ipck.verifies [of pre post c] assms by (simp add: ip_checksum_rfc1071)

text \<open>Only the summed region matters.\<close>

lemma ip_checksum_region:
  assumes "rdn b off n = Some xs" "n \<le> 65535"
  shows "ip_checksum b off (int n) = Some (rfc1071 xs)"
proof -
  have r: "0 \<le> off" "off + int n \<le> int (length b)" and xs: "xs = take n (drop (nat off) b)"
    using assms(1) by (auto simp: rdn_def split: if_splits)
  then show ?thesis using ip_checksum_rfc1071 [of off "int n" b] assms(2) by simp
qed

text \<open>Storing a region's checksum over its zeroed field makes the region sum to zero.\<close>

lemma store_checksum_verifies:
  assumes "0 \<le> off" "off + int n \<le> int (length b)" "n \<le> 65535" "k + 2 \<le> n" "even k"
    and "wrn z (off + int k) [0, 0] = Some b"
    and "ip_checksum b off (int n) = Some c"
    and "wrn b (off + int k) [hi8 c, lo8 c] = Some b'"
  shows "ip_checksum b' off (int n) = Some 0"
proof -
  obtain r where n: "n = k + (2 + r)" using assms(4) by (metis add.assoc le_Suc_ex)
  let ?o = "nat off"
  let ?pre = "take k (drop ?o b)" and ?post = "take r (drop (?o + k + 2) b)"
  have i: "nat (off + int k) = ?o + k" "?o + n \<le> length b" "?o + k + 2 \<le> length b" "?o + k \<le> length b"
    using assms(1,2,4) by linarith+
  have z: "b ! (?o + k) = 0" "b ! Suc (?o + k) = 0"
    using wrn_nth [OF assms(6), of "?o + k"] wrn_nth [OF assms(6), of "Suc (?o + k)"]
      wrn_length [OF assms(6)] i assms(1) by simp_all
  have "drop (?o + k) b = b ! (?o + k) # b ! Suc (?o + k) # drop (?o + k + 2) b"
    using i(3) by (simp add: Cons_nth_drop_Suc)
  then have field: "take 2 (drop (k + ?o) b) = [0, 0]"
    using z by (simp add: add.commute)
  have region: "take n (drop ?o b) = ?pre @ [0, 0] @ ?post"
    unfolding n take_add by (simp add: field ac_simps)
  have b': "b' = take (?o + k) b @ [hi8 c, lo8 c] @ drop (?o + k + 2) b"
    using assms(8) i by (auto simp: wrn_def split: if_splits)
  have pre: "length ?pre = k" using i by simp
  have "drop ?o b' = ?pre @ [hi8 c, lo8 c] @ drop (?o + k + 2) b"
    using i by (simp add: b' drop_take)
  then have region': "take n (drop ?o b') = ?pre @ [hi8 c, lo8 c] @ ?post"
    unfolding n using pre by simp
  have c: "c = rfc1071 (?pre @ [0, 0] @ ?post)"
    using ip_checksum_rfc1071 [of off "int n" b] assms(1-3,7) region by simp
  have "length b' = length b" using assms(8) by (rule wrn_length)
  then have "ip_checksum b' off (int n) = Some (rfc1071 (?pre @ [hi8 c, lo8 c] @ ?post))"
    using ip_checksum_rfc1071 [of off "int n" b'] assms(1-3) region' by simp
  moreover have "length (take n (drop ?o b)) \<le> 65535" using assms(3) by simp
  then have "length (?pre @ [0, 0] @ ?post) \<le> 65535" unfolding region .
  ultimately show ?thesis
    using rfc1071_verifies [OF _ _ c] assms(5) pre by simp
qed

section \<open>Properties\<close>

text \<open>
  \<open>ip_checksum\<close> reads exactly the bytes \<open>data[0..len-1]\<close> and returns the RFC 1071
  checksum of them: the complement of the one's complement sum of their 16-bit words, an
  odd last byte padded with zero. Its folding loop ends.
\<close>

theorem ip_checksum_correct:
  assumes "rdn buf off n = Some data" "n \<le> 65535"
  shows "ip_checksum buf off (int n) = Some (rfc1071 data)"
  using assms by (rule ip_checksum_region)

theorem ip_checksum_correct_witness:
  "ip_checksum [9, 0x12, 0x34, 0xF0] 1 (int 3) = Some (rfc1071 [0x12, 0x34, 0xF0])"
  by (rule ip_checksum_correct) (simp_all add: rdn_def)

lemma ipv4_header_length [simp]: "length (ipv4_header m p dm dp pr t c) = 34"
  by (cases m; cases p; cases dm; cases dp) (simp add: ipv4_header_def)

lemma be16_0800: "be16 8 0 = 0x800"
  by (simp add: be16_def)

lemma ipv4_header_fields [buf_simps]:
  "rd_mac (ipv4_header m p dm dp pr t c @ xs) 0 = Some dm"
  "rd_mac (ipv4_header m p dm dp pr t c @ xs) 6 = Some m"
  "rd16be (ipv4_header m p dm dp pr t c @ xs) 12 = Some 0x0800"
  "rd (ipv4_header m p dm dp pr t c @ xs) 14 = Some 0x45"
  "rd16be (ipv4_header m p dm dp pr t c @ xs) 16 = Some (of_int t)"
  "rd (ipv4_header m p dm dp pr t c @ xs) 23 = Some pr"
  "rd_ip (ipv4_header m p dm dp pr t c @ xs) 26 = Some p"
  "rd_ip (ipv4_header m p dm dp pr t c @ xs) 30 = Some dp"
  by (cases m; cases p; cases dm; cases dp;
      simp add: ipv4_header_def rd_mac_def rd_ip_def rd16be_def rd_def be16_0800)+

lemma ipv4_header_split:
  "drop 14 (ipv4_header m p dm dp pr t c) =
     [0x45, 0x00, hi8 (of_int t), lo8 (of_int t), 0x00, 0x00, 0x40, 0x00, 64, pr] @
     [hi8 c, lo8 c] @ ip_bytes p @ ip_bytes dp"
  by (cases m; cases dm) (simp add: ipv4_header_def)

text \<open>The frame \<open>ipv4_output\<close> builds, with its checksum.\<close>

lemma ipv4_output_eq:
  fixes m p dm dp pr
  assumes "0 \<le> n" "n \<le> 1480" "n \<le> int (length payload)"
  defines "h \<equiv> ipv4_header m p dm dp pr (20 + n)"
  shows "\<exists>ck. ipv4_output m p dm dp pr payload n = Some [h ck @ take (nat n) payload] \<and>
    ip_checksum (h ck @ take (nat n) payload) 14 20 = Some 0"
proof -
  let ?pre = "[0x45, 0x00, hi8 (of_int (20 + n)), lo8 (of_int (20 + n)), 0x00, 0x00, 0x40, 0x00, 64, pr] :: bytes"
  let ?post = "ip_bytes p @ ip_bytes dp"
  have z: "hi8 0 = 0" "lo8 0 = 0" by (simp_all add: hi8_def lo8_def)
  define ck where "ck = rfc1071 (?pre @ [0, 0] @ ?post)"
  have "ip_checksum (h 0) 14 20 = Some ck"
    by (simp add: ip_checksum_rfc1071 ipv4_header_split h_def ck_def z)
  moreover have "nat (34 + n) - 34 = nat n" by linarith
  ultimately have "ipv4_output m p dm dp pr payload n = Some [h ck @ take (nat n) payload]"
    using assms by (simp add: ipv4_output_def rdn_def)
  moreover have "ip_checksum (h ck @ take (nat n) payload) 14 20 = Some 0"
  proof -
    have "take 20 (drop 14 (h ck @ take (nat n) payload)) = ?pre @ [hi8 ck, lo8 ck] @ ?post"
      by (simp add: ipv4_header_split h_def)
    then show ?thesis
      using rfc1071_verifies [of ?pre ?post ck] by (simp add: ip_checksum_rfc1071 ck_def h_def)
  qed
  ultimately show ?thesis by blast
qed

text \<open>
  \<open>ipv4_output\<close> hands exactly one frame to the driver for a payload of at most 1480
  bytes, and the frame is a valid IPv4 packet: its Ethernet addresses and type, version and
  header length, total length, protocol, source and destination address read back as
  given, the header checksum verifies at the receiver, and the payload follows the 34
  header bytes unchanged.
\<close>

theorem ipv4_output_wellformed:
  assumes "0 \<le> n" "n \<le> 1480" "n \<le> int (length payload)"
  shows "\<exists>f. ipv4_output mac ip dmac dip proto payload n = Some [f] \<and>
    int (length f) = 34 + n \<and>
    rd_mac f 0 = Some dmac \<and> rd_mac f 6 = Some mac \<and> rd16be f 12 = Some 0x0800 \<and>
    rd f 14 = Some 0x45 \<and> rd16be f 16 = Some (of_int (20 + n)) \<and> rd f 23 = Some proto \<and>
    rd_ip f 26 = Some ip \<and> rd_ip f 30 = Some dip \<and>
    ip_checksum f 14 20 = Some 0 \<and> rdn f 34 (nat n) = rdn payload 0 (nat n)"
proof -
  obtain ck where ck: "ipv4_output mac ip dmac dip proto payload n =
      Some [ipv4_header mac ip dmac dip proto (20 + n) ck @ take (nat n) payload]"
    "ip_checksum (ipv4_header mac ip dmac dip proto (20 + n) ck @ take (nat n) payload) 14 20 = Some 0"
    using ipv4_output_eq [OF assms] by blast
  have "nat n \<le> length payload" using assms by linarith
  then show ?thesis
    using ck assms
    by (intro exI [of _ "ipv4_header mac ip dmac dip proto (20 + n) ck @ take (nat n) payload"])
      (simp add: ipv4_header_fields rdn_def)
qed

theorem ipv4_output_wellformed_witness:
  "\<exists>f. ipv4_output (2, 0, 0, 0, 0, 1) (10, 0, 0, 1) (2, 0, 0, 0, 0, 2) (10, 0, 0, 2) 0x11 [1, 2, 3] 3 = Some [f] \<and>
    int (length f) = 34 + 3 \<and>
    rd_mac f 0 = Some (2, 0, 0, 0, 0, 2) \<and> rd_mac f 6 = Some (2, 0, 0, 0, 0, 1) \<and> rd16be f 12 = Some 0x0800 \<and>
    rd f 14 = Some 0x45 \<and> rd16be f 16 = Some (of_int (20 + 3)) \<and> rd f 23 = Some 0x11 \<and>
    rd_ip f 26 = Some (10, 0, 0, 1) \<and> rd_ip f 30 = Some (10, 0, 0, 2) \<and>
    ip_checksum f 14 20 = Some 0 \<and> rdn f 34 (nat 3) = rdn [1, 2, 3] 0 (nat 3)"
  by (rule ipv4_output_wellformed) simp_all

section \<open>The echo responder\<close>

text \<open>What \<open>icmp_input\<close> accepts as a complete echo request addressed to this host.\<close>

definition echo_request :: "ip4 \<Rightarrow> bytes \<Rightarrow> int \<Rightarrow> nat \<Rightarrow> nat \<Rightarrow> bool" where
  "echo_request our frame flen ihl ip_total \<longleftrightarrow>
     20 \<le> ihl \<and> even ihl \<and> ihl + 8 \<le> ip_total \<and> ip_total \<le> 1500 \<and>
     14 + int ip_total \<le> flen \<and> flen \<le> int (length frame) \<and>
     rd frame (14 + int ihl) = Some 8 \<and> rd frame (15 + int ihl) = Some 0 \<and>
     rd_ip frame 30 = Some our \<and> rd16be frame 16 = Some (of_nat ip_total)"

text \<open>The stores \<open>icmp_input\<close> makes, in order, as a relation between buffers.\<close>

lemma icmp_input_run:
  assumes req: "echo_request ip frame flen ihl ip_total" and pkt: "length pkt = 1514"
  shows "\<exists>z1 h1 b1 z2 h2 b2 c1 c2.
    length z1 = 1514 \<and> length h1 = 1514 \<and> length b1 = 1514 \<and> length z2 = 1514 \<and>
    length h2 = 1514 \<and> length b2 = 1514 \<and>
    wrn z1 24 [0, 0] = Some h1 \<and> ip_checksum h1 14 (int ihl) = Some c1 \<and>
    wrn h1 24 [hi8 c1, lo8 c1] = Some b1 \<and>
    wrn b1 (14 + int ihl) [0] = Some z2 \<and> wrn z2 (16 + int ihl) [0, 0] = Some h2 \<and>
    ip_checksum h2 (14 + int ihl) (int (ip_total - ihl)) = Some c2 \<and>
    wrn h2 (16 + int ihl) [hi8 c2, lo8 c2] = Some b2 \<and>
    (\<forall>j < 14 + ip_total. z1 ! j =
       (if j < 6 then frame ! (6 + j) else if j < 12 then mac_bytes mac ! (j - 6)
        else if j = 22 then 64 else if 26 \<le> j \<and> j < 30 then ip_bytes ip ! (j - 26)
        else if 30 \<le> j \<and> j < 34 then frame ! (j - 4) else frame ! j)) \<and>
    icmp_input mac ip pkt frame flen (int ihl) = Some (b2, [take (14 + ip_total) b2])"
proof -
  have r: "20 \<le> ihl" "ihl + 8 \<le> ip_total" "ip_total \<le> 1500"
    "14 + int ip_total \<le> flen" "flen \<le> int (length frame)"
    using req by (auto simp: echo_request_def)
  then have n: "14 + ip_total \<le> length frame" by linarith
  have "unat (of_nat ip_total :: u16) = ip_total"
    using r(3) by (simp add: unat_of_nat)
  then have u: "uint (of_nat ip_total :: u16) = int ip_total"
    by (simp add: uint_nat)
  let ?copy = "take (14 + ip_total) frame"
  obtain p1 where p1: "wrn pkt 0 ?copy = Some p1" "length p1 = 1514"
    using wrn_ex [of 0 ?copy pkt] pkt r by auto
  obtain p2 where p2: "wrn p1 0 (take 6 (drop 6 frame)) = Some p2" "length p2 = 1514"
    using wrn_ex [of 0 "take 6 (drop 6 frame)" p1] p1 by (auto simp: min_le_iff_disj)
  obtain p3 where p3: "wrn p2 6 (mac_bytes mac) = Some p3" "length p3 = 1514"
    using wrn_ex [of 6 "mac_bytes mac" p2] p2 by auto
  obtain p4 where p4: "wrn p3 26 (ip_bytes ip) = Some p4" "length p4 = 1514"
    using wrn_ex [of 26 "ip_bytes ip" p3] p3 by auto
  obtain p5 where p5: "wrn p4 30 (take 4 (drop 26 frame)) = Some p5" "length p5 = 1514"
    using wrn_ex [of 30 "take 4 (drop 26 frame)" p4] p4 by (auto simp: min_le_iff_disj)
  obtain p6 where p6: "wrn p5 22 [64] = Some p6" "length p6 = 1514"
    using wrn_ex [of 22 "[64]" p5] p5 by auto
  obtain h1 where h1: "wrn p6 24 [0, 0] = Some h1" "length h1 = 1514"
    using wrn_ex [of 24 "[0, 0]" p6] p6 by auto
  obtain c1 where c1: "ip_checksum h1 14 (int ihl) = Some c1"
    using ip_checksum_rfc1071 [of 14 "int ihl" h1] h1 r by auto
  obtain b1 where b1: "wrn h1 24 [hi8 c1, lo8 c1] = Some b1" "length b1 = 1514"
    using wrn_ex [of 24 "[hi8 c1, lo8 c1]" h1] h1 by auto
  obtain z2 where z2: "wrn b1 (14 + int ihl) [0] = Some z2" "length z2 = 1514"
    using wrn_ex [of "14 + int ihl" "[0]" b1] b1 r by auto
  obtain h2 where h2: "wrn z2 (16 + int ihl) [0, 0] = Some h2" "length h2 = 1514"
    using wrn_ex [of "16 + int ihl" "[0, 0]" z2] z2 r by auto
  obtain c2 where c2: "ip_checksum h2 (14 + int ihl) (int (ip_total - ihl)) = Some c2"
    using ip_checksum_rfc1071 [of "14 + int ihl" "int (ip_total - ihl)" h2] h2 r by auto
  obtain b2 where b2: "wrn h2 (16 + int ihl) [hi8 c2, lo8 c2] = Some b2" "length b2 = 1514"
    using wrn_ex [of "16 + int ihl" "[hi8 c2, lo8 c2]" h2] h2 r by auto
  have "icmp_input mac ip pkt frame flen (int ihl) = Some (b2, [take (14 + ip_total) b2])"
    using req r n u p1 p2 p3 p4 p5 p6 h1 c1 b1 z2 h2 c2 b2
    by (simp add: icmp_input_def echo_request_def Let_def rdn_def nat_add_distrib of_nat_diff add.commute)
  moreover have "\<forall>j < 14 + ip_total. p6 ! j =
       (if j < 6 then frame ! (6 + j) else if j < 12 then mac_bytes mac ! (j - 6)
        else if j = 22 then 64 else if 26 \<le> j \<and> j < 30 then ip_bytes ip ! (j - 26)
        else if 30 \<le> j \<and> j < 34 then frame ! (j - 4) else frame ! j)"
  proof (intro allI impI)
    fix j assume j: "j < 14 + ip_total"
    then have "j < 1514" using r(3) by simp
    have t: "30 \<le> j \<Longrightarrow> j < 34 \<Longrightarrow> take 4 (drop 26 frame) ! (j - 30) = frame ! (j - 4)"
      using n r by simp
    show "p6 ! j =
       (if j < 6 then frame ! (6 + j) else if j < 12 then mac_bytes mac ! (j - 6)
        else if j = 22 then 64 else if 26 \<le> j \<and> j < 30 then ip_bytes ip ! (j - 26)
        else if 30 \<le> j \<and> j < 34 then frame ! (j - 4) else frame ! j)"
      using \<open>j < 1514\<close> j n r wrn_nth [OF p6(1), of j] wrn_nth [OF p5(1), of j] wrn_nth [OF p4(1), of j]
        wrn_nth [OF p3(1), of j] wrn_nth [OF p2(1), of j] wrn_nth [OF p1(1), of j]
        p1(2) p2(2) p3(2) p4(2) p5(2) pkt
      by (simp add: nat_diff_distrib t)
  qed
  ultimately show ?thesis
    using p6(2) h1 c1 b1 z2 h2 c2 b2 by blast
qed

text \<open>
  C35. The echo responder answers a complete echo request for this host with exactly one
  frame of the same length: Ethernet and IP addresses are those of a reply, the ICMP type
  is 0, both the IP header checksum and the ICMP checksum verify at the sender, and the
  identifier, sequence number and data are returned unchanged. No access leaves a buffer.
\<close>

theorem icmp_echo_reply:
  assumes req: "echo_request ip frame flen ihl ip_total" and pkt: "length pkt = 1514"
  shows "\<exists>pkt' out. icmp_input mac ip pkt frame flen (int ihl) = Some (pkt', [out]) \<and>
    length pkt' = 1514 \<and> length out = 14 + ip_total \<and>
    rdn out 0 6 = rdn frame 6 6 \<and> rdn out 6 6 = Some (mac_bytes mac) \<and>
    rdn out 26 4 = Some (ip_bytes ip) \<and> rdn out 30 4 = rdn frame 26 4 \<and>
    ip_checksum out 14 (int ihl) = Some 0 \<and>
    rd out (14 + int ihl) = Some 0 \<and>
    ip_checksum out (14 + int ihl) (int (ip_total - ihl)) = Some 0 \<and>
    rdn out (18 + int ihl) (ip_total - ihl - 4) = rdn frame (18 + int ihl) (ip_total - ihl - 4)"
proof -
  have r: "20 \<le> ihl" "even ihl" "ihl + 8 \<le> ip_total" "ip_total \<le> 1500" "14 + ip_total \<le> length frame"
    using req by (auto simp: echo_request_def)
  obtain z1 h1 b1 z2 h2 b2 c1 c2 where
    len: "length z1 = 1514" "length h1 = 1514" "length b1 = 1514" "length z2 = 1514"
      "length h2 = 1514" "length b2 = 1514"
    and w: "wrn z1 24 [0, 0] = Some h1" "ip_checksum h1 14 (int ihl) = Some c1"
      "wrn h1 24 [hi8 c1, lo8 c1] = Some b1"
      "wrn b1 (14 + int ihl) [0] = Some z2" "wrn z2 (16 + int ihl) [0, 0] = Some h2"
      "ip_checksum h2 (14 + int ihl) (int (ip_total - ihl)) = Some c2"
      "wrn h2 (16 + int ihl) [hi8 c2, lo8 c2] = Some b2"
    and z1: "\<forall>j < 14 + ip_total. z1 ! j =
       (if j < 6 then frame ! (6 + j) else if j < 12 then mac_bytes mac ! (j - 6)
        else if j = 22 then 64 else if 26 \<le> j \<and> j < 30 then ip_bytes ip ! (j - 26)
        else if 30 \<le> j \<and> j < 34 then frame ! (j - 4) else frame ! j)"
    and eq: "icmp_input mac ip pkt frame flen (int ihl) = Some (b2, [take (14 + ip_total) b2])"
    using icmp_input_run [OF req pkt, of mac] by blast
  let ?out = "take (14 + ip_total) b2"
  have b2_b1: "b2 ! j = b1 ! j" if "j < 14 + ihl" for j
    using that r len wrn_nth [OF w(7), of j] wrn_nth [OF w(5), of j] wrn_nth [OF w(4), of j] by simp
  have b1_z1: "b1 ! j = z1 ! j" if "j < 24 \<or> 26 \<le> j" "j < 1514" for j
    using that len wrn_nth [OF w(3), of j] wrn_nth [OF w(1), of j] by auto
  have b2_tail: "b2 ! j = z1 ! j" if "18 + ihl \<le> j" "j < 1514" for j
    using that r len wrn_nth [OF w(7), of j] wrn_nth [OF w(5), of j] wrn_nth [OF w(4), of j] b1_z1 [of j]
    by auto
  have sub: "rdn ?out i n = rdn b2 i n" if "0 \<le> i" "i + int n \<le> int (14 + ip_total)" for i n
    using that r len by (intro rdn_eq_nthI) auto
  have ck1: "ip_checksum b1 14 (int ihl) = Some 0"
    using store_checksum_verifies [of 14 ihl h1 10 z1 c1 b1] w r len by simp
  have "ip_checksum ?out 14 (int ihl) = Some 0"
  proof -
    have "rdn b2 14 ihl = rdn b1 14 ihl"
      using r len by (intro rdn_eq_nthI) (auto intro: b2_b1)
    then have "rdn ?out 14 ihl = rdn b1 14 ihl" using sub [of 14 ihl] r by simp
    then show ?thesis
      using ck1 ip_checksum_region [of b1 14 ihl] ip_checksum_region [of ?out 14 ihl] r len
      by (auto simp: rdn_def split: if_splits)
  qed
  moreover have "ip_checksum ?out (14 + int ihl) (int (ip_total - ihl)) = Some 0"
  proof -
    have ck2: "ip_checksum b2 (14 + int ihl) (int (ip_total - ihl)) = Some 0"
      using store_checksum_verifies [of "14 + int ihl" "ip_total - ihl" h2 2 z2 c2 b2] w r len
      by (simp add: add.commute)
    have "rdn ?out (14 + int ihl) (ip_total - ihl) = rdn b2 (14 + int ihl) (ip_total - ihl)"
      using sub [of "14 + int ihl" "ip_total - ihl"] r by simp
    then show ?thesis
      using ck2 ip_checksum_region [of b2 "14 + int ihl" "ip_total - ihl"]
        ip_checksum_region [of ?out "14 + int ihl" "ip_total - ihl"] r len
      by (auto simp: rdn_def split: if_splits)
  qed
  moreover have "rd ?out (14 + int ihl) = Some 0"
  proof -
    have "b2 ! (14 + ihl) = 0"
      using r len wrn_nth [OF w(7), of "14 + ihl"] wrn_nth [OF w(5), of "14 + ihl"]
        wrn_nth [OF w(4), of "14 + ihl"] by simp
    then show ?thesis using r len by (simp add: rd_def nat_add_distrib)
  qed
  moreover have "rdn ?out (18 + int ihl) (ip_total - ihl - 4) = rdn frame (18 + int ihl) (ip_total - ihl - 4)"
    using r len z1 by (intro rdn_eq_nthI) (auto simp: b2_tail)
  moreover have hdr: "?out ! j = z1 ! j" if "j < 24 \<or> 26 \<le> j" "j < 34" for j
    using that r b2_b1 [of j] b1_z1 [of j] by auto
  have fld: "rdn ?out (int i) (length xs) = Some xs"
    if "i + length xs \<le> 34" "i + length xs \<le> 24 \<or> 26 \<le> i" "\<And>k. k < length xs \<Longrightarrow> z1 ! (i + k) = xs ! k" for i xs
  proof -
    have "take (length xs) (drop i ?out) = xs"
    proof (rule nth_equalityI)
      fix k assume "k < length (take (length xs) (drop i ?out))"
      then have k: "k < length xs" by simp
      have "take (length xs) (drop i ?out) ! k = ?out ! (i + k)" using k that(1) r len by simp
      also have "\<dots> = z1 ! (i + k)" by (rule hdr) (use k that(1,2) in auto)
      finally show "take (length xs) (drop i ?out) ! k = xs ! k" using that(3) k by simp
    qed (use that r len in simp)
    then show ?thesis using that r len by (simp add: rdn_def)
  qed
  moreover have "rdn ?out 0 6 = rdn frame 6 6"
    using fld [of 0 "take 6 (drop 6 frame)"] r z1 by (simp add: rdn_def)
  moreover have "rdn ?out 6 6 = Some (mac_bytes mac)"
    using fld [of 6 "mac_bytes mac"] r z1 by simp
  moreover have "rdn ?out 26 4 = Some (ip_bytes ip)"
    using fld [of 26 "ip_bytes ip"] r z1 by simp
  moreover have "rdn ?out 30 4 = rdn frame 26 4"
    using fld [of 30 "take 4 (drop 26 frame)"] r z1 by (simp add: rdn_def)
  ultimately show ?thesis using eq len r by auto
qed

definition ping_frame :: bytes where
  "ping_frame = [2, 0, 0, 0, 0, 2, 2, 0, 0, 0, 0, 1, 0x08, 0x00,
     0x45, 0, 0, 30, 0, 0, 0x40, 0, 64, 1, 0, 0, 10, 0, 0, 1, 10, 0, 0, 2,
     8, 0, 0, 0, 0x12, 0x34, 0, 1, 0xAA, 0xBB]"

theorem icmp_echo_reply_witness:
  "\<exists>pkt' out. icmp_input (2, 0, 0, 0, 0, 2) (10, 0, 0, 2) (replicate 1514 0) ping_frame 44 (int 20) = Some (pkt', [out]) \<and>
    length pkt' = 1514 \<and> length out = 14 + 30 \<and>
    rdn out 0 6 = rdn ping_frame 6 6 \<and> rdn out 6 6 = Some (mac_bytes (2, 0, 0, 0, 0, 2)) \<and>
    rdn out 26 4 = Some (ip_bytes (10, 0, 0, 2)) \<and> rdn out 30 4 = rdn ping_frame 26 4 \<and>
    ip_checksum out 14 (int 20) = Some 0 \<and>
    rd out (14 + int 20) = Some 0 \<and>
    ip_checksum out (14 + int 20) (int (30 - 20)) = Some 0 \<and>
    rdn out (18 + int 20) (30 - 20 - 4) = rdn ping_frame (18 + int 20) (30 - 20 - 4)"
  by (rule icmp_echo_reply) (code_simp, simp)

section \<open>A request that lies about its length\<close>

lemma ip_sum_last_read:
  "ip_sum buf off len i ck = Some r \<Longrightarrow> i + 1 < len \<Longrightarrow> 0 \<le> i \<Longrightarrow>
   off + i + 2 * ((len - i) div 2) - 1 < int (length buf)"
proof (induction buf off len i ck rule: ip_sum.induct)
  case (1 buf off len i ck)
  obtain a b where ab: "rd buf (off + i) = Some a" "rd buf (off + i + 1) = Some b"
    and rec: "ip_sum buf off len (i + 2) (ck + (push_bit 8 (ucast a) OR ucast b)) = Some r"
    using "1.prems"(1,2) by (auto simp: ip_sum.simps [of buf off len i] bind_eq_Some_conv)
  show ?case
  proof (cases "i + 2 + 1 < len")
    case True
    have "(len - i) div 2 = (len - (i + 2)) div 2 + 1" by linarith
    then show ?thesis using "1.IH" [OF "1.prems"(2) ab rec True] "1.prems"(3) by linarith
  next
    case False
    then have "(len - i) div 2 = 1" using "1.prems"(2) by linarith
    then show ?thesis using ab(2) by (simp add: rd_eq_Some_iff)
  qed
qed

lemma ip_checksum_overrun:
  assumes "int (length buf) < off + len" "2 \<le> len"
  shows "ip_checksum buf off len = None"
proof (rule ccontr)
  assume "ip_checksum buf off len \<noteq> None"
  then obtain ck where s: "ip_sum buf off len 0 0 = Some ck"
    and o: "odd len \<Longrightarrow> rd buf (off + len - 1) \<noteq> None"
    by (auto simp: ip_checksum_def bind_eq_Some_conv split: if_splits)
  show False
  proof (cases "odd len")
    case True
    then show ?thesis using o assms(1) by (auto simp: rd_eq_Some_iff)
  next
    case False
    then have "2 * (len div 2) = len" by simp
    then show ?thesis using ip_sum_last_read [OF s] assms by simp
  qed
qed

text \<open>
  The echo responder trusts the IP total-length field. An echo request for this host
  whose header claims more than 1500 bytes, in a frame that fits the buffer, makes the ICMP
  checksum loop read past the end of the 1514-byte packet buffer.
\<close>

theorem icmp_total_length_overrun:
  assumes "length pkt = 1514" "14 + ihl + 8 \<le> flen" "flen \<le> 1514" "0 \<le> ihl" "ihl \<le> 60"
    and "rd frame (14 + ihl) = Some 8" "rd frame (14 + ihl + 1) = Some 0" "rd_ip frame 30 = Some ip"
    and "rd16be frame 16 = Some tlen" "1500 < uint tlen"
  shows "icmp_input mac ip pkt frame flen ihl = None"
proof -
  have "ip_checksum b (14 + ihl) (uint tlen - ihl) = None" if "length b = 1514" for b
    using assms that by (intro ip_checksum_overrun) auto
  moreover have "rd frame (15 + ihl) = Some 0"
    using assms(7) by (simp add: add.commute)
  ultimately show ?thesis
    using assms(1-5,10)
    by (cases "icmp_input mac ip pkt frame flen ihl")
       (auto simp: icmp_input_def Let_def assms(6,8,9) bind_eq_Some_conv dest!: wrn_length
         split: if_splits)
qed

definition lying_ping :: bytes where
  "lying_ping = [2, 0, 0, 0, 0, 2, 2, 0, 0, 0, 0, 1, 0x08, 0x00,
     0x45, 0, 0xFF, 0xFF, 0, 0, 0x40, 0, 64, 1, 0, 0, 10, 0, 0, 1, 10, 0, 0, 2,
     8, 0, 0, 0, 0x12, 0x34, 0, 1, 0xAA, 0xBB]"

theorem icmp_total_length_overrun_witness:
  "icmp_input (2, 0, 0, 0, 0, 2) (10, 0, 0, 2) (replicate 1514 0) lying_ping 44 20 = None"
  by (rule icmp_total_length_overrun [where tlen = "0xFFFF"]) (simp, simp, simp, simp, simp, code_simp+)

end
