(* ===== verification/Tcp.thy ===== *)
theory Tcp
  imports Arp Ipv4
begin

text \<open>
  net/tcp.c: the TCP client. A connection is the record \<open>tcp_conn\<close> with its 4096-byte
  receive ring; the module's static variables are \<open>tcp_stack\<close>. What a segment needs of the
  other modules (our addresses, the lease's mask and gateway, the ARP table) is the record
  \<open>net_env\<close>. Frames given to \<open>genet_send\<close> through \<open>ipv4_output\<close> are returned.
\<close>

section \<open>State\<close>

datatype tcp_state_t = TCPS_CLOSED | TCPS_LISTEN | TCPS_SYN_SENT | TCPS_SYN_RECEIVED
  | TCPS_ESTABLISHED | TCPS_CLOSE_WAIT | TCPS_FIN_WAIT_1 | TCPS_CLOSING | TCPS_LAST_ACK
  | TCPS_FIN_WAIT_2 | TCPS_TIME_WAIT

record tcp_conn =
  state :: tcp_state_t
  remote_ip :: ip4
  local_port :: u16
  remote_port :: u16
  snd_iss :: u32
  snd_una :: u32
  snd_nxt :: u32
  rcv_nxt :: u32
  snd_wnd :: u16
  rcvbuf :: bytes
  rcv_head :: int
  rcv_tail :: int
  used :: bool

record tcp_stack =
  s_conns :: "tcp_conn list"
  s_next_port :: u16
  s_isn :: u32

record net_env =
  ne_mac :: mac6
  ne_ip :: ip4
  ne_netmask :: ip4
  ne_gateway :: ip4
  ne_arp :: arp_state

definition TF_FIN :: u8 where "TF_FIN = 0x01"
definition TF_SYN :: u8 where "TF_SYN = 0x02"
definition TF_RST :: u8 where "TF_RST = 0x04"
definition TF_PSH :: u8 where "TF_PSH = 0x08"
definition TF_ACK :: u8 where "TF_ACK = 0x10"
definition TCP_MAX_CONNS :: nat where "TCP_MAX_CONNS = 4"
definition TCP_RCVBUF_SIZE :: int where "TCP_RCVBUF_SIZE = 4096"
definition TCP_MSS :: int where "TCP_MSS = 1460"
definition TCP_WINDOW :: u16 where "TCP_WINDOW = 8192"

lemmas tcp_flags = TF_FIN_def TF_SYN_def TF_RST_def TF_PSH_def TF_ACK_def
lemmas tcp_consts = TCP_MAX_CONNS_def TCP_RCVBUF_SIZE_def TCP_MSS_def TCP_WINDOW_def

definition tcp_conn0 :: tcp_conn where
  "tcp_conn0 = \<lparr>state = TCPS_CLOSED, remote_ip = (0, 0, 0, 0), local_port = 0, remote_port = 0,
     snd_iss = 0, snd_una = 0, snd_nxt = 0, rcv_nxt = 0, snd_wnd = 0,
     rcvbuf = replicate (nat TCP_RCVBUF_SIZE) 0, rcv_head = 0, rcv_tail = 0, used = False\<rparr>"

definition tcp_boot :: tcp_stack where
  "tcp_boot = \<lparr>s_conns = replicate TCP_MAX_CONNS tcp_conn0, s_next_port = 49152, s_isn = 0x78563412\<rparr>"

section \<open>Segments\<close>

text \<open>The sum loop is the one of \<open>ip_checksum\<close>, started at the sum of the pseudo-header.\<close>

definition tcp_cksum :: "ip4 \<Rightarrow> ip4 \<Rightarrow> bytes \<Rightarrow> int \<Rightarrow> u16 option" where
  "tcp_cksum src_ip dst_ip seg seg_len =
     (case (src_ip, dst_ip) of ((a, b, c, d), (e, f, g, h)) \<Rightarrow>
        let ck = 0 + (push_bit 8 (ucast a) OR ucast b) + (push_bit 8 (ucast c) OR ucast d)
               + (push_bit 8 (ucast e) OR ucast f) + (push_bit 8 (ucast g) OR ucast h)
               + 0x0006 + of_int seg_len
        in do {
          ck \<leftarrow> ip_sum seg 0 seg_len 0 ck;
          ck \<leftarrow> (if odd seg_len then do { x \<leftarrow> rd seg (seg_len - 1); Some (ck + push_bit 8 (ucast x)) }
                else Some ck);
          Some (finish_ck ck)
        })"

fun ip_and :: "ip4 \<Rightarrow> ip4 \<Rightarrow> ip4" where
  "ip_and (a, b, c, d) (e, f, g, h) = (a AND e, b AND f, c AND g, d AND h)"

definition resolve_dst_mac :: "net_env \<Rightarrow> ip4 \<Rightarrow> mac6 option" where
  "resolve_dst_mac e dst_ip =
     (let same = (ip_and (ne_ip e) (ne_netmask e) = ip_and dst_ip (ne_netmask e))
      in arp_resolve (ne_arp e) (if same then dst_ip else ne_gateway e))"

definition tcp_segment :: "tcp_conn \<Rightarrow> u8 \<Rightarrow> bytes \<Rightarrow> u16 \<Rightarrow> bytes" where
  "tcp_segment c flags data ck =
     be16_bytes (local_port c) @ be16_bytes (remote_port c) @ be32_bytes (snd_nxt c) @
     be32_bytes (rcv_nxt c) @ [0x50, flags] @ be16_bytes TCP_WINDOW @ be16_bytes ck @ be16_bytes 0 @ data"

text \<open>
  \<open>data\<close> holds the \<open>data_len\<close> bytes of the payload. The copy loop runs over all of them, also
  when the cap on \<open>seg_len\<close> applied: more than 1460 bytes are written outside \<open>seg[1480]\<close>.
\<close>

definition send_segment :: "net_env \<Rightarrow> tcp_conn \<Rightarrow> u8 \<Rightarrow> bytes \<Rightarrow> bytes list option" where
  "send_segment e c flags data =
     (case resolve_dst_mac e (remote_ip c) of None \<Rightarrow> Some []
      | Some dst_mac \<Rightarrow>
        let data_len = int (length data);
            seg_len = (if 20 + data_len > 1480 then 1480 else 20 + data_len)
        in if 20 + data_len > 1480 then None
           else do {
             ck \<leftarrow> tcp_cksum (ne_ip e) (remote_ip c) (tcp_segment c flags data 0) seg_len;
             ipv4_output (ne_mac e) (ne_ip e) dst_mac (remote_ip c) 0x06
               (tcp_segment c flags data ck) seg_len
           })"

section \<open>The receive ring\<close>

fun rcvbuf_push :: "tcp_conn \<Rightarrow> bytes \<Rightarrow> tcp_conn option" where
  "rcvbuf_push c [] = Some c"
| "rcvbuf_push c (x # xs) =
     (let next = c_rem (rcv_tail c + 1) TCP_RCVBUF_SIZE
      in if next = rcv_head c then Some c
         else if rcv_tail c < 0 \<or> int (length (rcvbuf c)) \<le> rcv_tail c then None
         else rcvbuf_push (c\<lparr>rcvbuf := (rcvbuf c)[nat (rcv_tail c) := x], rcv_tail := next\<rparr>) xs)"

text \<open>The body of \<open>tcp_read\<close> for one connection: the copied bytes and the result.\<close>

definition conn_read :: "tcp_conn \<Rightarrow> int \<Rightarrow> (tcp_conn \<times> bytes \<times> int) option" where
  "conn_read c bufsz =
     (let avail = c_rem (rcv_tail c - rcv_head c + TCP_RCVBUF_SIZE) TCP_RCVBUF_SIZE;
          avail = (if avail > bufsz then bufsz else avail)
      in if avail = 0 then Some (c, [], 0)
         else do {
           data \<leftarrow> those (map (\<lambda>i. rd (rcvbuf c) (c_rem (rcv_head c + int i) TCP_RCVBUF_SIZE)) [0..<nat avail]);
           Some (c\<lparr>rcv_head := c_rem (rcv_head c + avail) TCP_RCVBUF_SIZE\<rparr>, data, avail)
         })"

section \<open>Public API\<close>

definition handle_ok :: "int \<Rightarrow> bool" where
  "handle_ok handle \<longleftrightarrow> 0 \<le> handle \<and> handle < int TCP_MAX_CONNS"

definition put_conn :: "tcp_stack \<Rightarrow> nat \<Rightarrow> tcp_conn \<Rightarrow> tcp_stack" where
  "put_conn s h c = s\<lparr>s_conns := (s_conns s)[h := c]\<rparr>"

definition tcp_tick :: "net_env \<Rightarrow> tcp_stack \<Rightarrow> int \<Rightarrow> (tcp_stack \<times> bytes list) option" where
  "tcp_tick e s handle =
     (if \<not> handle_ok handle then Some (s, [])
      else let c = s_conns s ! nat handle
        in if used c \<and> state c = TCPS_SYN_SENT then do {
             out \<leftarrow> send_segment e (c\<lparr>snd_nxt := snd_iss c\<rparr>) TF_SYN [];
             Some (s, out)
           } else Some (s, []))"

definition tcp_init :: "tcp_stack \<Rightarrow> tcp_stack" where
  "tcp_init s = s\<lparr>s_conns := map (\<lambda>c. c\<lparr>used := False\<rparr>) (s_conns s)\<rparr>"

fun free_slot :: "tcp_conn list \<Rightarrow> nat option" where
  "free_slot [] = None"
| "free_slot (c # cs) = (if \<not> used c then Some 0 else map_option Suc (free_slot cs))"

definition tcp_connect ::
  "net_env \<Rightarrow> tcp_stack \<Rightarrow> ip4 \<Rightarrow> u16 \<Rightarrow> (tcp_stack \<times> bytes list \<times> int) option" where
  "tcp_connect e s dst_ip dst_port =
     (case free_slot (s_conns s) of None \<Rightarrow> Some (s, [], - 1)
      | Some h \<Rightarrow>
        let port = s_next_port s + 1;
            c = (s_conns s ! h)\<lparr>used := True, state := TCPS_SYN_SENT, remote_ip := dst_ip,
                  local_port := s_next_port s, remote_port := dst_port, snd_iss := s_isn s,
                  snd_una := s_isn s, snd_nxt := s_isn s, rcv_nxt := 0, snd_wnd := 0,
                  rcv_head := 0, rcv_tail := 0\<rparr>;
            s = s\<lparr>s_next_port := (if port < 49152 then 49152 else port), s_isn := s_isn s + 64000\<rparr>
        in do {
          out \<leftarrow> send_segment e c TF_SYN [];
          Some (put_conn s h (c\<lparr>snd_nxt := snd_iss c + 1\<rparr>), out, int h)
        })"

definition tcp_state :: "tcp_stack \<Rightarrow> int \<Rightarrow> tcp_state_t" where
  "tcp_state s handle =
     (if \<not> handle_ok handle \<or> \<not> used (s_conns s ! nat handle) then TCPS_CLOSED
      else state (s_conns s ! nat handle))"

definition tcp_write ::
  "net_env \<Rightarrow> tcp_stack \<Rightarrow> int \<Rightarrow> bytes \<Rightarrow> int \<Rightarrow> (tcp_stack \<times> bytes list \<times> int) option" where
  "tcp_write e s handle data len =
     (if \<not> handle_ok handle then Some (s, [], 0)
      else let c = s_conns s ! nat handle
        in if \<not> used c \<or> state c \<noteq> TCPS_ESTABLISHED then Some (s, [], 0)
           else if len \<le> 0 then Some (s, [], 0)
           else let len = (if len > TCP_MSS then TCP_MSS else len)
             in do {
               payload \<leftarrow> rdn data 0 (nat len);
               out \<leftarrow> send_segment e c (TF_ACK OR TF_PSH) payload;
               Some (put_conn s (nat handle) (c\<lparr>snd_nxt := snd_nxt c + of_int len\<rparr>), out, len)
             })"

definition tcp_read :: "tcp_stack \<Rightarrow> int \<Rightarrow> int \<Rightarrow> (tcp_stack \<times> bytes \<times> int) option" where
  "tcp_read s handle bufsz =
     (if \<not> handle_ok handle \<or> \<not> used (s_conns s ! nat handle) then Some (s, [], 0)
      else do {
        (c, data, n) \<leftarrow> conn_read (s_conns s ! nat handle) bufsz;
        Some (put_conn s (nat handle) c, data, n)
      })"

definition tcp_close :: "net_env \<Rightarrow> tcp_stack \<Rightarrow> int \<Rightarrow> (tcp_stack \<times> bytes list) option" where
  "tcp_close e s handle =
     (if \<not> handle_ok handle then Some (s, [])
      else let c = s_conns s ! nat handle
        in if \<not> used c then Some (s, [])
           else if state c = TCPS_ESTABLISHED \<or> state c = TCPS_CLOSE_WAIT then do {
             let c = c\<lparr>state := TCPS_FIN_WAIT_1\<rparr>;
             out \<leftarrow> send_segment e c (TF_FIN OR TF_ACK) [];
             Some (put_conn s (nat handle) (c\<lparr>snd_nxt := snd_nxt c + 1\<rparr>), out)
           } else Some (put_conn s (nat handle) (c\<lparr>used := False, state := TCPS_CLOSED\<rparr>), []))"

section \<open>Incoming segments\<close>

fun find_conn :: "u16 \<Rightarrow> tcp_conn list \<Rightarrow> nat option" where
  "find_conn port [] = None"
| "find_conn port (c # cs) =
     (if used c \<and> local_port c = port then Some 0 else map_option Suc (find_conn port cs))"

text \<open>The header fields and the payload \<open>tcp_rx\<close> takes from a frame.\<close>

record tcp_hdr =
  h_dport :: u16
  h_seq :: u32
  h_ack :: u32
  h_flags :: u8
  h_wnd :: u16
  h_data :: bytes

definition has :: "u8 \<Rightarrow> u8 \<Rightarrow> bool" where
  "has flags f \<longleftrightarrow> flags AND f \<noteq> 0"

text \<open>In-sequence data: pushed, acknowledged in full.\<close>

definition take_data :: "tcp_conn \<Rightarrow> tcp_hdr \<Rightarrow> tcp_conn option" where
  "take_data c h = do {
     c \<leftarrow> rcvbuf_push c (h_data h);
     Some (c\<lparr>rcv_nxt := rcv_nxt c + of_nat (length (h_data h))\<rparr>)
   }"

definition in_seq :: "tcp_conn \<Rightarrow> tcp_hdr \<Rightarrow> bool" where
  "in_seq c h \<longleftrightarrow> h_data h \<noteq> [] \<and> h_seq h = rcv_nxt c"

text \<open>One arm of the \<open>switch (c->state)\<close> each.\<close>

definition rx_syn_sent :: "net_env \<Rightarrow> tcp_conn \<Rightarrow> tcp_hdr \<Rightarrow> (tcp_conn \<times> bytes list) option" where
  "rx_syn_sent e c h =
     (if h_flags h AND (TF_SYN OR TF_ACK) = TF_SYN OR TF_ACK then do {
        let c = c\<lparr>rcv_nxt := h_seq h + 1, snd_una := h_ack h, state := TCPS_ESTABLISHED\<rparr>;
        out \<leftarrow> send_segment e c TF_ACK [];
        Some (c, out)
      } else Some (c, []))"

definition rx_established :: "net_env \<Rightarrow> tcp_conn \<Rightarrow> tcp_hdr \<Rightarrow> (tcp_conn \<times> bytes list) option" where
  "rx_established e c h = do {
     let c = (if has (h_flags h) TF_ACK then c\<lparr>snd_una := h_ack h\<rparr> else c);
     (c, f1) \<leftarrow> (if in_seq c h then do {
                   c \<leftarrow> take_data c h;
                   out \<leftarrow> send_segment e c TF_ACK [];
                   Some (c, out)
                 } else Some (c, []));
     if has (h_flags h) TF_FIN then do {
       let c = c\<lparr>rcv_nxt := rcv_nxt c + 1, state := TCPS_CLOSE_WAIT\<rparr>;
       f2 \<leftarrow> send_segment e c TF_ACK [];
       let c = c\<lparr>state := TCPS_FIN_WAIT_1\<rparr>;
       f3 \<leftarrow> send_segment e c (TF_FIN OR TF_ACK) [];
       Some (c\<lparr>snd_nxt := snd_nxt c + 1\<rparr>, f1 @ f2 @ f3)
     } else Some (c, f1)
   }"

definition rx_fin_wait_1 :: "net_env \<Rightarrow> tcp_conn \<Rightarrow> tcp_hdr \<Rightarrow> (tcp_conn \<times> bytes list) option" where
  "rx_fin_wait_1 e c h = do {
     let c = (if has (h_flags h) TF_ACK
              then c\<lparr>snd_una := h_ack h,
                     state := (if h_ack h = snd_nxt c then TCPS_FIN_WAIT_2 else state c)\<rparr>
              else c);
     c \<leftarrow> (if in_seq c h then take_data c h else Some c);
     if has (h_flags h) TF_FIN then do {
       let c = c\<lparr>rcv_nxt := rcv_nxt c + 1, state := TCPS_TIME_WAIT\<rparr>;
       out \<leftarrow> send_segment e c TF_ACK [];
       Some (c, out)
     } else Some (c, [])
   }"

definition rx_fin_wait_2 :: "net_env \<Rightarrow> tcp_conn \<Rightarrow> tcp_hdr \<Rightarrow> (tcp_conn \<times> bytes list) option" where
  "rx_fin_wait_2 e c h = do {
     (c, f1) \<leftarrow> (if in_seq c h then do {
                   c \<leftarrow> take_data c h;
                   out \<leftarrow> send_segment e c TF_ACK [];
                   Some (c, out)
                 } else Some (c, []));
     if has (h_flags h) TF_FIN then do {
       let c = c\<lparr>rcv_nxt := rcv_nxt c + 1, state := TCPS_TIME_WAIT\<rparr>;
       f2 \<leftarrow> send_segment e c TF_ACK [];
       Some (c, f1 @ f2)
     } else Some (c, f1)
   }"

definition conn_rx :: "net_env \<Rightarrow> tcp_conn \<Rightarrow> tcp_hdr \<Rightarrow> (tcp_conn \<times> bytes list) option" where
  "conn_rx e c h =
     (let c = c\<lparr>snd_wnd := h_wnd h\<rparr>
      in if has (h_flags h) TF_RST then Some (c\<lparr>state := TCPS_CLOSED, used := False\<rparr>, [])
         else case state c of
           TCPS_SYN_SENT \<Rightarrow> rx_syn_sent e c h
         | TCPS_ESTABLISHED \<Rightarrow> rx_established e c h
         | TCPS_FIN_WAIT_1 \<Rightarrow> rx_fin_wait_1 e c h
         | TCPS_FIN_WAIT_2 \<Rightarrow> rx_fin_wait_2 e c h
         | TCPS_TIME_WAIT \<Rightarrow> Some (c\<lparr>state := TCPS_CLOSED, used := False\<rparr>, [])
         | _ \<Rightarrow> Some (c, []))"

text \<open>The parsing at the start of \<open>tcp_rx\<close>; \<open>Some None\<close> is one of its early returns.\<close>

definition tcp_parse :: "bytes \<Rightarrow> int \<Rightarrow> tcp_hdr option option" where
  "tcp_parse frame flen =
     (if flen < 54 then Some None
      else do {
        vihl \<leftarrow> rd frame 14;
        let ihl = int (unat (vihl AND 0x0F)) * 4;
        let tcp_off = 14 + ihl;
        if flen < tcp_off + 20 then Some None
        else do {
          dport \<leftarrow> rd16be frame (tcp_off + 2);
          seq \<leftarrow> rd32be frame (tcp_off + 4);
          ack \<leftarrow> rd32be frame (tcp_off + 8);
          off \<leftarrow> rd frame (tcp_off + 12);
          let doff = int (unat (drop_bit 4 off)) * 4;
          flags \<leftarrow> rd frame (tcp_off + 13);
          wnd \<leftarrow> rd16be frame (tcp_off + 14);
          let data_off = tcp_off + doff;
          let data_len = (if flen - data_off < 0 then 0 else flen - data_off);
          data \<leftarrow> (if data_len = 0 then Some [] else rdn frame data_off (nat data_len));
          Some (Some \<lparr>h_dport = dport, h_seq = seq, h_ack = ack, h_flags = flags, h_wnd = wnd, h_data = data\<rparr>)
        }
      })"

definition tcp_rx :: "net_env \<Rightarrow> tcp_stack \<Rightarrow> bytes \<Rightarrow> int \<Rightarrow> (tcp_stack \<times> bytes list) option" where
  "tcp_rx e s frame flen = do {
     p \<leftarrow> tcp_parse frame flen;
     case p of None \<Rightarrow> Some (s, [])
     | Some h \<Rightarrow> (case find_conn (h_dport h) (s_conns s) of None \<Rightarrow> Some (s, [])
       | Some i \<Rightarrow> do {
           (c, out) \<leftarrow> conn_rx e (s_conns s ! i) h;
           Some (put_conn s i c, out)
         })
   }"

section \<open>The ring is a bounded queue\<close>

definition ring_ok :: "tcp_conn \<Rightarrow> bool" where
  "ring_ok c \<longleftrightarrow> int (length (rcvbuf c)) = TCP_RCVBUF_SIZE \<and> 0 \<le> rcv_head c \<and> rcv_head c < TCP_RCVBUF_SIZE \<and>
     0 \<le> rcv_tail c \<and> rcv_tail c < TCP_RCVBUF_SIZE"

definition ring_count :: "tcp_conn \<Rightarrow> nat" where
  "ring_count c = nat ((rcv_tail c - rcv_head c) mod TCP_RCVBUF_SIZE)"

text \<open>The unread bytes, oldest first.\<close>

definition ring_items :: "tcp_conn \<Rightarrow> bytes" where
  "ring_items c = map (\<lambda>i. rcvbuf c ! nat ((rcv_head c + int i) mod TCP_RCVBUF_SIZE)) [0..<ring_count c]"

lemma length_ring_items [simp]: "length (ring_items c) = ring_count c"
  by (simp add: ring_items_def)

lemma ring_count_le: "ring_count c \<le> 4095"
proof -
  have "(rcv_tail c - rcv_head c) mod 4096 < 4096" by simp
  then show ?thesis unfolding ring_count_def TCP_RCVBUF_SIZE_def by linarith
qed

lemma ring_count_eq:
  "ring_ok c \<Longrightarrow> int (ring_count c) =
     (if rcv_tail c < rcv_head c then rcv_tail c - rcv_head c + 4096 else rcv_tail c - rcv_head c)"
  using mod_wrap [of 4096 "rcv_tail c - rcv_head c"]
  by (auto simp: ring_ok_def ring_count_def TCP_RCVBUF_SIZE_def)

lemma ring_index:
  "ring_ok c \<Longrightarrow> i \<le> ring_count c \<Longrightarrow> (rcv_head c + int i) mod TCP_RCVBUF_SIZE =
     (if rcv_head c + int i < 4096 then rcv_head c + int i else rcv_head c + int i - 4096)"
  using mod_wrap [of 4096 "rcv_head c + int i"] ring_count_le [of c]
  by (auto simp: ring_ok_def TCP_RCVBUF_SIZE_def)

lemma ring_next:
  "ring_ok c \<Longrightarrow> (rcv_tail c + 1) mod TCP_RCVBUF_SIZE = (if rcv_tail c = 4095 then 0 else rcv_tail c + 1)"
  using mod_wrap [of 4096 "rcv_tail c + 1"] by (auto simp: ring_ok_def TCP_RCVBUF_SIZE_def)

lemma ring_tail: "ring_ok c \<Longrightarrow> (rcv_head c + int (ring_count c)) mod TCP_RCVBUF_SIZE = rcv_tail c"
  using ring_index [of c "ring_count c"] ring_count_eq [of c]
  by (auto simp: ring_ok_def TCP_RCVBUF_SIZE_def split: if_splits)

lemma ring_full: "ring_ok c \<Longrightarrow> (rcv_tail c + 1) mod TCP_RCVBUF_SIZE = rcv_head c \<longleftrightarrow> ring_count c = 4095"
  using ring_count_eq [of c] ring_next [of c] by (auto simp: ring_ok_def TCP_RCVBUF_SIZE_def split: if_splits)

lemma ring_push1:
  fixes x
  assumes "ring_ok c" "ring_count c < 4095"
  defines "c' \<equiv> c\<lparr>rcvbuf := (rcvbuf c)[nat (rcv_tail c) := x], rcv_tail := (rcv_tail c + 1) mod TCP_RCVBUF_SIZE\<rparr>"
  shows "ring_ok c'" "ring_items c' = ring_items c @ [x]"
proof -
  show "ring_ok c'" using assms by (simp add: ring_ok_def TCP_RCVBUF_SIZE_def)
  have "int (ring_count c') = int (ring_count c) + 1"
    using ring_count_eq [OF \<open>ring_ok c'\<close>] ring_count_eq [OF assms(1)] ring_next [OF assms(1)] assms
    by (auto simp: ring_ok_def TCP_RCVBUF_SIZE_def split: if_splits)
  then have n: "ring_count c' = Suc (ring_count c)" by linarith
  have old: "(rcv_head c + int i) mod 4096 \<noteq> rcv_tail c" if "i < ring_count c" for i
    using that ring_index [OF assms(1), of i] ring_count_eq [OF assms(1)] assms(1)
    by (auto simp: ring_ok_def TCP_RCVBUF_SIZE_def split: if_splits)
  have "map (\<lambda>i. rcvbuf c' ! nat ((rcv_head c + int i) mod TCP_RCVBUF_SIZE)) [0..<ring_count c] = ring_items c"
    unfolding ring_items_def
  proof (rule map_cong [OF refl])
    fix i
    assume "i \<in> set [0..<ring_count c]"
    then have "nat ((rcv_head c + int i) mod 4096) \<noteq> nat (rcv_tail c)"
      using old [of i] assms(1) by (simp add: ring_ok_def eq_nat_nat_iff)
    then show "rcvbuf c' ! nat ((rcv_head c + int i) mod TCP_RCVBUF_SIZE) =
        rcvbuf c ! nat ((rcv_head c + int i) mod TCP_RCVBUF_SIZE)"
      by (simp add: c'_def TCP_RCVBUF_SIZE_def)
  qed
  moreover have "nat (rcv_tail c) < length (rcvbuf c)"
    using assms(1) by (simp add: ring_ok_def nat_less_iff)
  then have "rcvbuf c' ! nat (rcv_tail c) = x" by (simp add: c'_def)
  moreover have "rcv_head c' = rcv_head c" by (simp add: c'_def)
  ultimately show "ring_items c' = ring_items c @ [x]"
    using n ring_tail [OF assms(1)] by (simp add: ring_items_def [of c'])
qed

lemma rcvbuf_push_spec:
  "ring_ok c \<Longrightarrow> \<exists>c'. rcvbuf_push c xs = Some c' \<and> ring_ok c' \<and>
     ring_items c' = ring_items c @ take (4095 - length (ring_items c)) xs"
proof (induction c xs rule: rcvbuf_push.induct)
  case (2 c x xs)
  show ?case
  proof (cases "ring_count c = 4095")
    case True
    then show ?thesis using 2 ring_full [of c] by (simp add: ring_ok_def)
  next
    case False
    then have lt: "ring_count c < 4095" using ring_count_le [of c] by linarith
    let ?c = "c\<lparr>rcvbuf := (rcvbuf c)[nat (rcv_tail c) := x], rcv_tail := (rcv_tail c + 1) mod TCP_RCVBUF_SIZE\<rparr>"
    note p = ring_push1 [OF "2.prems" lt, of x]
    have "rcvbuf_push c (x # xs) = rcvbuf_push ?c xs"
      using "2.prems" False ring_full [of c] by (simp add: ring_ok_def Let_def)
    moreover have "\<exists>c'. rcvbuf_push ?c xs = Some c' \<and> ring_ok c' \<and>
        ring_items c' = ring_items ?c @ take (4095 - length (ring_items ?c)) xs"
      using "2.IH" [OF refl] "2.prems" False ring_full [of c] p(1) by (simp add: ring_ok_def)
    moreover have "length (ring_items ?c) = Suc (ring_count c)" using p(2) by simp
    ultimately show ?thesis
      using p(2) lt by (simp add: take_Cons' del: length_ring_items)
  qed
qed simp

lemma those_map_Some: "(\<And>x. x \<in> set xs \<Longrightarrow> f x = Some (g x)) \<Longrightarrow> those (map f xs) = Some (map g xs)"
  by (induction xs) auto

lemma conn_read_spec:
  assumes "ring_ok c" "0 \<le> n"
  shows "\<exists>c'. conn_read c n = Some (c', take (nat n) (ring_items c), int (length (take (nat n) (ring_items c)))) \<and>
    ring_ok c' \<and> ring_items c' = drop (nat n) (ring_items c) \<and>
    c' = c\<lparr>rcv_head := (rcv_head c + int (min (nat n) (ring_count c))) mod TCP_RCVBUF_SIZE\<rparr>"
proof -
  define k where "k = min (nat n) (ring_count c)"
  define c' where "c' = c\<lparr>rcv_head := (rcv_head c + int k) mod TCP_RCVBUF_SIZE\<rparr>"
  have nn: "0 \<le> rcv_head c + int i" for i using assms(1) by (simp add: ring_ok_def)
  have avail: "c_rem (rcv_tail c - rcv_head c + TCP_RCVBUF_SIZE) TCP_RCVBUF_SIZE = int (ring_count c)"
    using assms(1) by (simp add: ring_ok_def ring_count_def TCP_RCVBUF_SIZE_def)
  have len: "(if int (ring_count c) > n then n else int (ring_count c)) = int k"
    using assms(2) by (simp add: k_def)
  have rd: "rd (rcvbuf c) ((rcv_head c + int i) mod TCP_RCVBUF_SIZE)
      = Some (rcvbuf c ! nat ((rcv_head c + int i) mod TCP_RCVBUF_SIZE))" for i
    using assms(1) by (simp add: rd_def ring_ok_def TCP_RCVBUF_SIZE_def)
  have take: "map (\<lambda>i. rcvbuf c ! nat ((rcv_head c + int i) mod TCP_RCVBUF_SIZE)) [0..<k] = take (nat n) (ring_items c)"
    by (simp add: ring_items_def k_def take_map min_def)
  have read: "conn_read c n = Some (c', take (nat n) (ring_items c), int k)"
  proof (cases "k = 0")
    case True
    then have "take (nat n) (ring_items c) = []" using take by simp
    then show ?thesis
      using True assms(1) avail len by (simp add: conn_read_def Let_def c'_def ring_ok_def)
  next
    case False
    have "those (map (\<lambda>i. rd (rcvbuf c) (c_rem (rcv_head c + int i) TCP_RCVBUF_SIZE)) [0..<k])
        = Some (take (nat n) (ring_items c))"
      unfolding take [symmetric] by (rule those_map_Some) (simp add: nn rd)
    then show ?thesis using False avail len by (simp add: conn_read_def Let_def c'_def nn)
  qed
  have ok: "ring_ok c'" using assms(1) by (simp add: c'_def ring_ok_def TCP_RCVBUF_SIZE_def)
  have "(rcv_tail c - (rcv_head c + int k) mod 4096) mod 4096 = (int (ring_count c) - int k) mod 4096"
    by (simp add: ring_count_def TCP_RCVBUF_SIZE_def mod_diff_right_eq mod_diff_left_eq algebra_simps)
  moreover have "(int (ring_count c) - int k) mod 4096 = int (ring_count c) - int k"
    using ring_count_le [of c] by (simp add: k_def)
  moreover have "ring_count c' = nat ((rcv_tail c - (rcv_head c + int k) mod 4096) mod 4096)"
    by (simp add: ring_count_def c'_def TCP_RCVBUF_SIZE_def)
  ultimately have cnt: "ring_count c' = ring_count c - k" by (simp add: nat_diff_distrib)
  have "ring_items c' = drop k (ring_items c)"
  proof (rule nth_equalityI)
    fix i
    assume "i < length (ring_items c')"
    then have "i < ring_count c - k" by (simp add: cnt)
    then show "ring_items c' ! i = drop k (ring_items c) ! i"
      by (simp add: ring_items_def cnt) (simp add: c'_def mod_add_left_eq add.assoc)
  qed (simp add: cnt)
  then have "ring_items c' = drop (nat n) (ring_items c)" by (simp add: k_def min_def split: if_splits)
  then show ?thesis using read ok by (simp add: c'_def k_def min.commute)
qed

text \<open>The queue of one connection, as the locale sees it.\<close>

definition ring_pop :: "tcp_conn \<Rightarrow> nat \<Rightarrow> (tcp_conn \<times> bytes) option" where
  "ring_pop c n = do { (c', data, _) \<leftarrow> conn_read c (int n); Some (c', data) }"

interpretation ring: bounded_fifo ring_ok ring_items rcvbuf_push ring_pop 4095
proof
  show "\<And>s xs. ring_ok s \<Longrightarrow> \<exists>s'. rcvbuf_push s xs = Some s' \<and> ring_ok s' \<and>
      ring_items s' = ring_items s @ take (4095 - length (ring_items s)) xs"
    by (rule rcvbuf_push_spec)
  show "\<And>s n. ring_ok s \<Longrightarrow> \<exists>s'. ring_pop s n = Some (s', take n (ring_items s)) \<and> ring_ok s' \<and>
      ring_items s' = drop n (ring_items s)"
  proof -
    fix s n
    assume "ring_ok s"
    then show "\<exists>s'. ring_pop s n = Some (s', take n (ring_items s)) \<and> ring_ok s' \<and> ring_items s' = drop n (ring_items s)"
      using conn_read_spec [of s "int n"] by (auto simp: ring_pop_def)
  qed
qed

section \<open>Segments on the wire\<close>

text \<open>The checksum is that of the pseudo-header followed by the segment.\<close>

definition pseudo_header :: "ip4 \<Rightarrow> ip4 \<Rightarrow> nat \<Rightarrow> bytes" where
  "pseudo_header src dst n = ip_bytes src @ ip_bytes dst @ [0, 6] @ be16_bytes (of_nat n)"

lemma words16_be16: "256 * unat (hi8 v) + unat (lo8 v) = unat v"
  using unat_be16 [of "hi8 v" "lo8 v"] by simp

lemma length_pseudo_header [simp]: "length (pseudo_header src dst n) = 12"
  by (simp add: pseudo_header_def)

lemma words16_pseudo:
  assumes "n \<le> 65535"
  shows "words16 (pseudo_header (a, b, c, d) (e, f, g, h) n) =
    256 * unat a + unat b + (256 * unat c + unat d) + (256 * unat e + unat f) + (256 * unat g + unat h) + 6 + n"
  using words16_be16 [of "of_nat n"] assms
  by (simp add: pseudo_header_def be16_bytes_def unat_of_nat)

lemma tcp_cksum_rfc1071:
  assumes "n = length seg" "n \<le> 1480"
  shows "tcp_cksum src dst seg (int n) = Some (rfc1071 (pseudo_header src dst n @ seg))"
proof -
  obtain a b c d where src: "src = (a, b, c, d)" by (cases src)
  obtain e f g h where dst: "dst = (e, f, g, h)" by (cases dst)
  define ck where "ck = 0 + (push_bit 8 (ucast a) OR ucast b) + (push_bit 8 (ucast c) OR ucast d)
      + (push_bit 8 (ucast e) OR ucast f) + (push_bit 8 (ucast g) OR ucast h) + 0x0006 + (of_int (int n) :: u32)"
  have "ck = of_nat (words16 (pseudo_header src dst n))"
    using assms(2) by (simp add: ck_def be16_u32 src dst words16_pseudo)
  then have "ck + of_nat (words16 seg) = of_nat (words16 (pseudo_header src dst n @ seg))"
    by (simp add: words16_append)
  moreover have "tcp_cksum src dst seg (int n) = Some (finish_ck (ck + of_nat (words16 seg)))"
  proof -
    have "do { ck \<leftarrow> ip_sum seg 0 (int n) 0 ck;
        (if odd (int n) then do { x \<leftarrow> rd seg (int n - 1); Some (ck + push_bit 8 (ucast x)) } else Some ck) }
      = Some (ck + of_nat (words16 seg))"
      using ip_sum_words16 [of 0 "int n" seg ck] assms(1) by (simp cong: if_cong)
    then show ?thesis
      unfolding tcp_cksum_def src dst prod.case Let_def ck_def [symmetric] bind_assoc [symmetric] by simp
  qed
  ultimately show ?thesis
    using assms by (simp add: finish_ck_words16)
qed

lemma length_tcp_segment [simp]: "length (tcp_segment c flags data ck) = 20 + length data"
  by (simp add: tcp_segment_def)

lemma tcp_segment_cksum:
  assumes "length data \<le> 1460"
  shows "\<exists>ck. tcp_cksum src dst (tcp_segment c flags data 0) (20 + int (length data)) = Some ck \<and>
    tcp_cksum src dst (tcp_segment c flags data ck) (20 + int (length data)) = Some 0"
proof -
  let ?n = "20 + length data"
  let ?pre = "pseudo_header src dst ?n @ be16_bytes (local_port c) @ be16_bytes (remote_port c) @
     be32_bytes (snd_nxt c) @ be32_bytes (rcv_nxt c) @ [0x50, flags] @ be16_bytes TCP_WINDOW"
  have seg: "pseudo_header src dst ?n @ tcp_segment c flags data ck = ?pre @ [hi8 ck, lo8 ck] @ ([0, 0] @ data)" for ck
    by (simp add: tcp_segment_def be16_bytes_def [of ck] be16_bytes_def [of 0] hi8_def lo8_def)
  define ck where "ck = rfc1071 (?pre @ [0, 0] @ ([0, 0] @ data))"
  have "rfc1071 (?pre @ [hi8 ck, lo8 ck] @ ([0, 0] @ data)) = 0"
    using assms by (intro rfc1071_verifies) (simp_all add: ck_def)
  moreover have "tcp_cksum src dst (tcp_segment c flags data w) (20 + int (length data))
      = Some (rfc1071 (?pre @ [hi8 w, lo8 w] @ ([0, 0] @ data)))" for w
    using tcp_cksum_rfc1071 [of ?n "tcp_segment c flags data w" src dst] assms seg [of w] by simp
  moreover have "hi8 0 = 0" "lo8 0 = 0" by (simp_all add: hi8_def lo8_def)
  ultimately show ?thesis by (simp add: ck_def)
qed

text \<open>What \<open>send_segment\<close> puts on the wire once the next hop is known.\<close>

lemma send_segment_eq:
  assumes "resolve_dst_mac e (remote_ip c) = Some m" "length data \<le> 1460"
  shows "\<exists>tck ick. send_segment e c flags data = Some [ipv4_header (ne_mac e) (ne_ip e) m (remote_ip c) 6
      (40 + int (length data)) ick @ tcp_segment c flags data tck] \<and>
    tcp_cksum (ne_ip e) (remote_ip c) (tcp_segment c flags data tck) (20 + int (length data)) = Some 0"
proof -
  obtain tck where t: "tcp_cksum (ne_ip e) (remote_ip c) (tcp_segment c flags data 0) (20 + int (length data)) = Some tck"
    "tcp_cksum (ne_ip e) (remote_ip c) (tcp_segment c flags data tck) (20 + int (length data)) = Some 0"
    using tcp_segment_cksum [OF assms(2)] by blast
  have "\<exists>ick. ipv4_output (ne_mac e) (ne_ip e) m (remote_ip c) 6 (tcp_segment c flags data tck) (20 + int (length data))
      = Some [ipv4_header (ne_mac e) (ne_ip e) m (remote_ip c) 6 (40 + int (length data)) ick @ tcp_segment c flags data tck]"
    using ipv4_output_eq [of "20 + int (length data)" "tcp_segment c flags data tck" "ne_mac e" "ne_ip e" m "remote_ip c" 6]
      assms(2) by (auto simp: nat_add_distrib)
  then show ?thesis using assms t by (auto simp: send_segment_def)
qed

lemma send_segment_safe: "length data \<le> 1460 \<Longrightarrow> \<exists>out. send_segment e c flags data = Some out"
  using send_segment_eq [of e c _ data flags]
  by (cases "resolve_dst_mac e (remote_ip c)") (auto simp: send_segment_def)

lemma send_control: "\<exists>out. send_segment e c flags [] = Some out"
  by (rule send_segment_safe) simp

text \<open>The receiver's parser reads back what the sender wrote.\<close>

lemma tcp_parse_segment:
  "tcp_parse (ipv4_header m ip dm dip 6 tot ick @ tcp_segment c flags data tck) (54 + int (length data)) =
     Some (Some \<lparr>h_dport = remote_port c, h_seq = snd_nxt c, h_ack = rcv_nxt c, h_flags = flags,
       h_wnd = 8192, h_data = data\<rparr>)"
proof -
  have w: "be16 (hi8 8192) (lo8 8192) = 8192" by simp
  show ?thesis
    by (cases m; cases ip; cases dm; cases dip)
       (simp add: tcp_parse_def ipv4_header_def tcp_segment_def rd_def rd16be_def rd32be_def rdn_def
         be16_bytes_def be32_bytes_def w TCP_WINDOW_def Let_def)
qed

section \<open>The state machine\<close>

text \<open>The transitions of a connection that segments, reads, ticks and calls can cause.\<close>

inductive tcp_trans :: "tcp_state_t \<Rightarrow> tcp_state_t \<Rightarrow> bool" where
  stay: "tcp_trans q q"
| active_open: "tcp_trans q TCPS_SYN_SENT"
| handshake: "tcp_trans TCPS_SYN_SENT TCPS_ESTABLISHED"
| close: "tcp_trans TCPS_ESTABLISHED TCPS_FIN_WAIT_1"
| fin_acked: "tcp_trans TCPS_FIN_WAIT_1 TCPS_FIN_WAIT_2"
| fin_received_1: "tcp_trans TCPS_FIN_WAIT_1 TCPS_TIME_WAIT"
| fin_received_2: "tcp_trans TCPS_FIN_WAIT_2 TCPS_TIME_WAIT"
| closed: "tcp_trans q TCPS_CLOSED"

inductive_simps tcp_trans_simps: "tcp_trans a b"

text \<open>
  The invariant of a connection: its ring is sound; in use, it is in one of the five states
  a client connection can be left in and has an ephemeral port.
\<close>

definition conn_inv :: "tcp_conn \<Rightarrow> bool" where
  "conn_inv c \<longleftrightarrow> ring_ok c \<and>
     (used c \<longrightarrow> state c \<in> {TCPS_SYN_SENT, TCPS_ESTABLISHED, TCPS_FIN_WAIT_1, TCPS_FIN_WAIT_2, TCPS_TIME_WAIT} \<and>
       49152 \<le> local_port c)"

definition tcp_inv :: "tcp_stack \<Rightarrow> bool" where
  "tcp_inv s \<longleftrightarrow> length (s_conns s) = TCP_MAX_CONNS \<and> list_all conn_inv (s_conns s) \<and> 49152 \<le> s_next_port s"

lemma rcvbuf_push_frame:
  "rcvbuf_push c xs = Some c' \<Longrightarrow> state c' = state c \<and> used c' = used c \<and> local_port c' = local_port c \<and>
     rcv_nxt c' = rcv_nxt c \<and> snd_nxt c' = snd_nxt c \<and> remote_ip c' = remote_ip c \<and> remote_port c' = remote_port c"
  by (induction c xs rule: rcvbuf_push.induct) (auto simp: Let_def split: if_splits)

lemma take_data_spec:
  assumes "ring_ok c"
  shows "\<exists>c'. take_data c h = Some c' \<and> ring_ok c' \<and> state c' = state c \<and> used c' = used c \<and>
    local_port c' = local_port c \<and> remote_ip c' = remote_ip c \<and> remote_port c' = remote_port c \<and>
    snd_nxt c' = snd_nxt c \<and>
    rcv_nxt c' = rcv_nxt c + of_nat (length (h_data h)) \<and>
    ring_items c' = ring_items c @ take (4095 - ring_count c) (h_data h)"
proof -
  obtain c' where p: "rcvbuf_push c (h_data h) = Some c'" "ring_ok c'"
    "ring_items c' = ring_items c @ take (4095 - ring_count c) (h_data h)"
    using rcvbuf_push_spec [OF assms, of "h_data h"] by auto
  let ?c = "c'\<lparr>rcv_nxt := rcv_nxt c' + of_nat (length (h_data h))\<rparr>"
  have "ring_ok ?c" "ring_items ?c = ring_items c'"
    using p(2) by (simp_all add: ring_ok_def ring_items_def ring_count_def)
  then show ?thesis using p rcvbuf_push_frame [OF p(1)] by (simp add: take_data_def)
qed

lemma ring_ok_upd [simp]:
  "ring_ok (c\<lparr>snd_wnd := w\<rparr>) = ring_ok c" "ring_ok (c\<lparr>state := q\<rparr>) = ring_ok c"
  "ring_ok (c\<lparr>used := u\<rparr>) = ring_ok c" "ring_ok (c\<lparr>rcv_nxt := a\<rparr>) = ring_ok c"
  "ring_ok (c\<lparr>snd_nxt := a\<rparr>) = ring_ok c" "ring_ok (c\<lparr>snd_una := a\<rparr>) = ring_ok c"
  by (simp_all add: ring_ok_def)

lemma ring_items_upd [simp]:
  "ring_items (c\<lparr>snd_wnd := w\<rparr>) = ring_items c" "ring_items (c\<lparr>state := q\<rparr>) = ring_items c"
  "ring_items (c\<lparr>used := u\<rparr>) = ring_items c" "ring_items (c\<lparr>rcv_nxt := a\<rparr>) = ring_items c"
  "ring_items (c\<lparr>snd_nxt := a\<rparr>) = ring_items c" "ring_items (c\<lparr>snd_una := a\<rparr>) = ring_items c"
  by (simp_all add: ring_items_def ring_count_def)

text \<open>Each arm of the switch: it does not fault, keeps the ring sound and moves along the machine.\<close>

definition arm_ok :: "tcp_conn \<Rightarrow> (tcp_conn \<times> bytes list) option \<Rightarrow> bool" where
  "arm_ok c r \<longleftrightarrow> (\<exists>c' out. r = Some (c', out) \<and> ring_ok c' \<and> local_port c' = local_port c \<and>
     used c' = used c \<and> state c' \<in> {TCPS_SYN_SENT, TCPS_ESTABLISHED, TCPS_FIN_WAIT_1, TCPS_FIN_WAIT_2, TCPS_TIME_WAIT} \<and>
     tcp_trans (state c) (state c'))"

lemma arm_okI:
  "r = Some (c', out) \<Longrightarrow> ring_ok c' \<Longrightarrow> local_port c' = local_port c \<Longrightarrow> used c' = used c \<Longrightarrow>
   state c' \<in> {TCPS_SYN_SENT, TCPS_ESTABLISHED, TCPS_FIN_WAIT_1, TCPS_FIN_WAIT_2, TCPS_TIME_WAIT} \<Longrightarrow>
   tcp_trans (state c) (state c') \<Longrightarrow> arm_ok c r"
  by (auto simp: arm_ok_def)

lemma rx_syn_sent_ok: "ring_ok c \<Longrightarrow> state c = TCPS_SYN_SENT \<Longrightarrow> arm_ok c (rx_syn_sent e c h)"
proof -
  assume c: "ring_ok c" "state c = TCPS_SYN_SENT"
  obtain out where "send_segment e (c\<lparr>rcv_nxt := h_seq h + 1, snd_una := h_ack h, state := TCPS_ESTABLISHED\<rparr>) TF_ACK [] = Some out"
    using send_control by blast
  then show ?thesis
    using c by (auto simp: arm_ok_def rx_syn_sent_def tcp_trans_simps)
qed

text \<open>The common step of two arms: take in-sequence data and acknowledge it.\<close>

lemma take_data_ack:
  assumes "ring_ok c"
  shows "\<exists>c' out. (if in_seq c h then do { c \<leftarrow> take_data c h; out \<leftarrow> send_segment e c TF_ACK []; Some (c, out) }
      else Some (c, [])) = Some (c', out) \<and>
    ring_ok c' \<and> state c' = state c \<and> used c' = used c \<and> local_port c' = local_port c"
proof (cases "in_seq c h")
  case True
  obtain c' where "take_data c h = Some c'" "ring_ok c'" "state c' = state c" "used c' = used c" "local_port c' = local_port c"
    using take_data_spec [OF assms] by blast
  moreover obtain out where "send_segment e c' TF_ACK [] = Some out"
    using send_control by blast
  ultimately show ?thesis using True by simp
qed (use assms in simp)

lemma rx_established_ok: "ring_ok c \<Longrightarrow> state c = TCPS_ESTABLISHED \<Longrightarrow> arm_ok c (rx_established e c h)"
proof -
  assume c: "ring_ok c" "state c = TCPS_ESTABLISHED"
  define c0 where "c0 = (if has (h_flags h) TF_ACK then c\<lparr>snd_una := h_ack h\<rparr> else c)"
  have c0: "ring_ok c0" "state c0 = TCPS_ESTABLISHED" "used c0 = used c" "local_port c0 = local_port c"
    using c by (simp_all add: c0_def)
  obtain c1 f1 where c1: "(if in_seq c0 h then do { c \<leftarrow> take_data c0 h; out \<leftarrow> send_segment e c TF_ACK []; Some (c, out) }
      else Some (c0, [])) = Some (c1, f1)"
    "ring_ok c1" "state c1 = state c0" "used c1 = used c0" "local_port c1 = local_port c0"
    using take_data_ack [OF c0(1), of h e] by blast
  obtain f2 f3 where "send_segment e (c1\<lparr>rcv_nxt := rcv_nxt c1 + 1, state := TCPS_CLOSE_WAIT\<rparr>) TF_ACK [] = Some f2"
    "send_segment e (c1\<lparr>rcv_nxt := rcv_nxt c1 + 1, state := TCPS_FIN_WAIT_1\<rparr>) (TF_FIN OR TF_ACK) [] = Some f3"
    using send_control by metis
  then show ?thesis
    using c1(2-5) c(2) c0(2-4) unfolding rx_established_def Let_def c0_def [symmetric] c1(1)
    by (auto simp: arm_ok_def tcp_trans_simps)
qed

lemma rx_fin_wait_1_ok: "ring_ok c \<Longrightarrow> state c = TCPS_FIN_WAIT_1 \<Longrightarrow> arm_ok c (rx_fin_wait_1 e c h)"
proof -
  assume c: "ring_ok c" "state c = TCPS_FIN_WAIT_1"
  define c0 where "c0 = (if has (h_flags h) TF_ACK then c\<lparr>snd_una := h_ack h,
      state := (if h_ack h = snd_nxt c then TCPS_FIN_WAIT_2 else state c)\<rparr> else c)"
  have c0: "ring_ok c0" "state c0 \<in> {TCPS_FIN_WAIT_1, TCPS_FIN_WAIT_2}" "used c0 = used c" "local_port c0 = local_port c"
    using c by (simp_all add: c0_def)
  have "\<exists>c1. (if in_seq c0 h then take_data c0 h else Some c0) = Some c1 \<and> ring_ok c1 \<and> state c1 = state c0 \<and>
      used c1 = used c \<and> local_port c1 = local_port c"
    using take_data_spec [OF c0(1), of h] c0 by auto
  then obtain c1 where c1: "(if in_seq c0 h then take_data c0 h else Some c0) = Some c1" "ring_ok c1"
    "state c1 = state c0" "used c1 = used c" "local_port c1 = local_port c" by blast
  obtain f where "send_segment e (c1\<lparr>rcv_nxt := rcv_nxt c1 + 1, state := TCPS_TIME_WAIT\<rparr>) TF_ACK [] = Some f"
    using send_control by blast
  then show ?thesis
    using c1(2-5) c(2) c0(2) unfolding rx_fin_wait_1_def Let_def c0_def [symmetric] c1(1)
    by (auto simp: arm_ok_def tcp_trans_simps)
qed

lemma rx_fin_wait_2_ok: "ring_ok c \<Longrightarrow> state c = TCPS_FIN_WAIT_2 \<Longrightarrow> arm_ok c (rx_fin_wait_2 e c h)"
proof -
  assume c: "ring_ok c" "state c = TCPS_FIN_WAIT_2"
  obtain c1 f1 where c1: "(if in_seq c h then do { c \<leftarrow> take_data c h; out \<leftarrow> send_segment e c TF_ACK []; Some (c, out) }
      else Some (c, [])) = Some (c1, f1)"
    "ring_ok c1" "state c1 = state c" "used c1 = used c" "local_port c1 = local_port c"
    using take_data_ack [OF c(1), of h e] by blast
  obtain f where "send_segment e (c1\<lparr>rcv_nxt := rcv_nxt c1 + 1, state := TCPS_TIME_WAIT\<rparr>) TF_ACK [] = Some f"
    using send_control by blast
  then show ?thesis
    using c1(2-5) c(2) unfolding rx_fin_wait_2_def Let_def c1(1)
    by (auto simp: arm_ok_def tcp_trans_simps)
qed

lemma conn_rx_ok:
  assumes "conn_inv c" "used c"
  shows "\<exists>c' out. conn_rx e c h = Some (c', out) \<and> conn_inv c' \<and> tcp_trans (state c) (state c')"
proof -
  let ?c = "c\<lparr>snd_wnd := h_wnd h\<rparr>"
  have c: "ring_ok ?c" "49152 \<le> local_port ?c" using assms by (simp_all add: conn_inv_def)
  have arm: "\<exists>c' out. r = Some (c', out) \<and> conn_inv c' \<and> tcp_trans (state c) (state c')" if "arm_ok ?c r" for r
    using that assms by (auto simp: arm_ok_def conn_inv_def)
  consider "has (h_flags h) TF_RST" | "state c = TCPS_TIME_WAIT" | "\<not> has (h_flags h) TF_RST"
    "state c \<in> {TCPS_SYN_SENT, TCPS_ESTABLISHED, TCPS_FIN_WAIT_1, TCPS_FIN_WAIT_2}"
    using assms by (auto simp: conn_inv_def)
  then show ?thesis
  proof cases
    case 1
    then show ?thesis using c(1) by (simp add: conn_rx_def conn_inv_def tcp_trans.closed)
  next
    case 2
    then show ?thesis using c(1) by (auto simp: conn_rx_def conn_inv_def Let_def tcp_trans.closed)
  next
    case 3
    have "arm_ok ?c (conn_rx e c h)"
      using 3 c(1) rx_syn_sent_ok [of ?c] rx_established_ok [of ?c] rx_fin_wait_1_ok [of ?c] rx_fin_wait_2_ok [of ?c]
      by (auto simp: conn_rx_def Let_def)
    then show ?thesis by (rule arm)
  qed
qed

section \<open>Runs of the module\<close>

definition tcp_moves :: "tcp_stack \<Rightarrow> tcp_stack \<Rightarrow> bool" where
  "tcp_moves s s' \<longleftrightarrow> (\<forall>i < TCP_MAX_CONNS. tcp_trans (state (s_conns s ! i)) (state (s_conns s' ! i)))"

lemma find_conn_Some: "find_conn port cs = Some i \<Longrightarrow> i < length cs \<and> used (cs ! i) \<and> local_port (cs ! i) = port"
  by (induction cs arbitrary: i) (auto split: if_splits)

lemma free_slot_Some: "free_slot cs = Some i \<Longrightarrow> i < length cs \<and> \<not> used (cs ! i)"
  by (induction cs arbitrary: i) (auto split: if_splits)

lemma tcp_inv_conn: "tcp_inv s \<Longrightarrow> i < TCP_MAX_CONNS \<Longrightarrow> conn_inv (s_conns s ! i)"
  by (simp add: tcp_inv_def list_all_length)

lemma put_conn_ok:
  assumes "tcp_inv s" "conn_inv c" "tcp_trans (state (s_conns s ! i)) (state c)" "i < TCP_MAX_CONNS"
  shows "tcp_inv (put_conn s i c)" "tcp_moves s (put_conn s i c)"
  using assms by (auto simp: tcp_inv_def tcp_moves_def put_conn_def list_all_length nth_list_update intro: tcp_trans.stay)

lemma tcp_moves_refl: "tcp_moves s s"
  by (simp add: tcp_moves_def tcp_trans.stay)

lemma tcp_parse_safe: "flen \<le> int (length frame) \<Longrightarrow> \<exists>p. tcp_parse frame flen = Some p"
proof (cases "flen < 54")
  case False
  assume l: "flen \<le> int (length frame)"
  have i: "0 \<le> uint ((x :: u8) AND 0x0F)" "0 \<le> uint (drop_bit 4 (x :: u8))" for x by simp_all
  show ?thesis
    using l False i(1) [of "frame ! 14"] i(2) [of "frame ! nat (26 + uint (frame ! 14 AND 15) * 4)"]
    by (auto simp: tcp_parse_def Let_def buf_simps)
qed (simp add: tcp_parse_def)

lemma tcp_rx_ok:
  assumes "tcp_inv s" "flen \<le> int (length frame)"
  shows "\<exists>s' out. tcp_rx e s frame flen = Some (s', out) \<and> tcp_inv s' \<and> tcp_moves s s'"
proof -
  obtain p where p: "tcp_parse frame flen = Some p" using tcp_parse_safe assms(2) by blast
  show ?thesis
  proof (cases p)
    case (Some h)
    show ?thesis
    proof (cases "find_conn (h_dport h) (s_conns s)")
      case i: (Some i)
      then have u: "i < TCP_MAX_CONNS" "used (s_conns s ! i)"
        using find_conn_Some assms(1) by (fastforce simp: tcp_inv_def)+
      obtain c out where c: "conn_rx e (s_conns s ! i) h = Some (c, out)" "conn_inv c" "tcp_trans (state (s_conns s ! i)) (state c)"
        using conn_rx_ok [OF tcp_inv_conn [OF assms(1) u(1)] u(2)] by blast
      then show ?thesis using put_conn_ok [OF assms(1) c(2,3) u(1)] by (simp add: tcp_rx_def p Some i)
    qed (use assms p Some tcp_moves_refl in \<open>simp add: tcp_rx_def\<close>)
  qed (use assms p tcp_moves_refl in \<open>simp add: tcp_rx_def\<close>)
qed

lemma tcp_connect_ok:
  assumes "tcp_inv s"
  shows "\<exists>s' out r. tcp_connect e s ip port = Some (s', out, r) \<and> tcp_inv s' \<and> tcp_moves s s'"
proof (cases "free_slot (s_conns s)")
  case (Some i)
  then have u: "i < TCP_MAX_CONNS" using free_slot_Some assms by (fastforce simp: tcp_inv_def)
  let ?c = "(s_conns s ! i)\<lparr>used := True, state := TCPS_SYN_SENT, remote_ip := ip, local_port := s_next_port s,
      remote_port := port, snd_iss := s_isn s, snd_una := s_isn s, snd_nxt := s_isn s, rcv_nxt := 0, snd_wnd := 0,
      rcv_head := 0, rcv_tail := 0\<rparr>"
  let ?s = "s\<lparr>s_next_port := (if s_next_port s + 1 < 49152 then 49152 else s_next_port s + 1), s_isn := s_isn s + 64000\<rparr>"
  obtain out where out: "send_segment e ?c TF_SYN [] = Some out" using send_control by blast
  have "conn_inv (?c\<lparr>snd_nxt := snd_iss ?c + 1\<rparr>)"
    using tcp_inv_conn [OF assms u] assms by (simp add: conn_inv_def ring_ok_def tcp_inv_def TCP_RCVBUF_SIZE_def)
  moreover have "tcp_inv ?s" using assms by (auto simp: tcp_inv_def not_less)
  ultimately have "tcp_inv (put_conn ?s i (?c\<lparr>snd_nxt := snd_iss ?c + 1\<rparr>))"
    "tcp_moves ?s (put_conn ?s i (?c\<lparr>snd_nxt := snd_iss ?c + 1\<rparr>))"
    using u by (auto intro!: put_conn_ok tcp_trans.active_open)
  then show ?thesis using Some out by (simp add: tcp_connect_def Let_def tcp_moves_def)
qed (use assms tcp_moves_refl in \<open>simp add: tcp_connect_def\<close>)

lemma handle_index: "handle_ok h \<Longrightarrow> nat h < TCP_MAX_CONNS"
  by (simp add: handle_ok_def nat_less_iff)

lemma tcp_write_ok:
  assumes "tcp_inv s" "len \<le> int (length data)"
  shows "\<exists>s' out r. tcp_write e s h data len = Some (s', out, r) \<and> tcp_inv s' \<and> tcp_moves s s'"
proof (cases "handle_ok h \<and> used (s_conns s ! nat h) \<and> state (s_conns s ! nat h) = TCPS_ESTABLISHED \<and> 0 < len")
  case True
  let ?c = "s_conns s ! nat h" and ?n = "if len > TCP_MSS then TCP_MSS else len"
  have i: "nat h < TCP_MAX_CONNS" using True handle_index by blast
  have n: "0 \<le> ?n" "?n \<le> 1460" "?n \<le> int (length data)" using True assms(2) by (simp_all add: TCP_MSS_def)
  obtain p where p: "rdn data 0 (nat ?n) = Some p" "length p \<le> 1460"
    using n by (simp add: rdn_def)
  obtain out where out: "send_segment e ?c (TF_ACK OR TF_PSH) p = Some out" using send_segment_safe [OF p(2)] by blast
  have "conn_inv (?c\<lparr>snd_nxt := snd_nxt ?c + of_int ?n\<rparr>)"
    using tcp_inv_conn [OF assms(1) i] by (simp add: conn_inv_def)
  then show ?thesis
    using True p(1) out put_conn_ok [OF assms(1) _ _ i, of "?c\<lparr>snd_nxt := snd_nxt ?c + of_int ?n\<rparr>"]
    by (auto simp: tcp_write_def Let_def tcp_trans.stay)
qed (use assms tcp_moves_refl in \<open>auto simp: tcp_write_def Let_def\<close>)

lemma tcp_read_ok:
  assumes "tcp_inv s" "0 \<le> n"
  shows "\<exists>s' out r. tcp_read s h n = Some (s', out, r) \<and> tcp_inv s' \<and> tcp_moves s s'"
proof (cases "handle_ok h \<and> used (s_conns s ! nat h)")
  case True
  then have i: "nat h < TCP_MAX_CONNS" using handle_index by blast
  have inv: "conn_inv (s_conns s ! nat h)" using tcp_inv_conn [OF assms(1) i] .
  then obtain c d k where c: "conn_read (s_conns s ! nat h) n = Some (c, d, k)" "ring_ok c"
    "c = (s_conns s ! nat h)\<lparr>rcv_head := (rcv_head (s_conns s ! nat h) + int (min (nat n) (ring_count (s_conns s ! nat h)))) mod TCP_RCVBUF_SIZE\<rparr>"
    using conn_read_spec [of "s_conns s ! nat h" n] assms(2) by (auto simp: conn_inv_def)
  have "conn_inv c" "state c = state (s_conns s ! nat h)" using c inv by (simp_all add: conn_inv_def)
  then show ?thesis
    using True c(1) put_conn_ok [OF assms(1) _ _ i, of c] by (simp add: tcp_read_def tcp_trans.stay)
qed (use assms tcp_moves_refl in \<open>auto simp: tcp_read_def\<close>)

lemma tcp_close_ok:
  assumes "tcp_inv s"
  shows "\<exists>s' out. tcp_close e s h = Some (s', out) \<and> tcp_inv s' \<and> tcp_moves s s'"
proof (cases "handle_ok h \<and> used (s_conns s ! nat h)")
  case True
  let ?c = "s_conns s ! nat h"
  have i: "nat h < TCP_MAX_CONNS" using True handle_index by blast
  have inv: "conn_inv ?c" using tcp_inv_conn [OF assms(1) i] .
  obtain out where out: "send_segment e (?c\<lparr>state := TCPS_FIN_WAIT_1\<rparr>) (TF_FIN OR TF_ACK) [] = Some out"
    using send_control by blast
  have c1: "conn_inv (?c\<lparr>state := TCPS_FIN_WAIT_1, snd_nxt := snd_nxt ?c + 1\<rparr>)"
    and c2: "conn_inv (?c\<lparr>used := False, state := TCPS_CLOSED\<rparr>)" using inv by (simp_all add: conn_inv_def)
  show ?thesis
  proof (cases "state ?c = TCPS_ESTABLISHED")
    case e: True
    then show ?thesis
      using True out put_conn_ok [OF assms c1 _ i] by (simp add: tcp_close_def Let_def tcp_trans.close)
  next
    case False
    then show ?thesis
      using True inv put_conn_ok [OF assms c2 _ i] by (simp add: tcp_close_def Let_def tcp_trans.closed conn_inv_def) auto
  qed
qed (use assms tcp_moves_refl in \<open>auto simp: tcp_close_def Let_def\<close>)

datatype tcp_event = TcpRx bytes int | TcpTick int | TcpConnect ip4 u16 | TcpWrite int bytes int
  | TcpRead int int | TcpClose int

text \<open>One event in the environment of the moment (the ARP table changes between events).\<close>

fun tcp_step :: "tcp_stack \<Rightarrow> net_env \<times> tcp_event \<Rightarrow> tcp_stack option" where
  "tcp_step s (e, TcpRx frame flen) = map_option fst (tcp_rx e s frame flen)"
| "tcp_step s (e, TcpTick h) = map_option fst (tcp_tick e s h)"
| "tcp_step s (e, TcpConnect ip port) = map_option fst (tcp_connect e s ip port)"
| "tcp_step s (e, TcpWrite h data len) = map_option fst (tcp_write e s h data len)"
| "tcp_step s (e, TcpRead h n) = map_option fst (tcp_read s h n)"
| "tcp_step s (e, TcpClose h) = map_option fst (tcp_close e s h)"

text \<open>The lengths a caller passes are those of its buffers.\<close>

fun tcp_event_ok :: "net_env \<times> tcp_event \<Rightarrow> bool" where
  "tcp_event_ok (e, TcpRx frame flen) = (flen \<le> int (length frame))"
| "tcp_event_ok (e, TcpWrite h data len) = (len \<le> int (length data))"
| "tcp_event_ok (e, TcpRead h n) = (0 \<le> n)"
| "tcp_event_ok _ = True"

lemma tcp_step_ok:
  assumes "tcp_inv s" "tcp_event_ok ev"
  shows "\<exists>s'. tcp_step s ev = Some s' \<and> tcp_inv s' \<and> tcp_moves s s'"
proof -
  obtain e v where ev: "ev = (e, v)" by (cases ev)
  show ?thesis
  proof (cases v)
    case (TcpRx f l)
    then show ?thesis using tcp_rx_ok [of s l f e] assms ev by auto
  next
    case (TcpTick h)
    obtain out where "send_segment e ((s_conns s ! nat h)\<lparr>snd_nxt := snd_iss (s_conns s ! nat h)\<rparr>) TF_SYN [] = Some out"
      using send_control by blast
    then show ?thesis
      using TcpTick assms(1) tcp_moves_refl by (auto simp: ev tcp_tick_def Let_def)
  next
    case (TcpConnect ip port)
    then show ?thesis using tcp_connect_ok [of s e ip port] assms ev by auto
  next
    case (TcpWrite h d l)
    then show ?thesis using tcp_write_ok [of s l d e h] assms ev by auto
  next
    case (TcpRead h n)
    then show ?thesis using tcp_read_ok [of s n h] assms ev by auto
  next
    case (TcpClose h)
    then show ?thesis using tcp_close_ok [of s e h] assms ev by auto
  qed
qed

text \<open>
  The event system is cut down to the admissible events, so that its steps keep the
  invariant whatever event comes.
\<close>

definition tcp_step_checked :: "tcp_stack \<Rightarrow> net_env \<times> tcp_event \<Rightarrow> tcp_stack option" where
  "tcp_step_checked s ev = (if tcp_event_ok ev then tcp_step s ev else None)"

interpretation tcps: safe_event_system tcp_step_checked tcp_inv tcp_event_ok
proof
  fix s ev s'
  assume "tcp_inv s" "tcp_step_checked s ev = Some s'"
  then show "tcp_inv s'" using tcp_step_ok [of s ev] by (auto simp: tcp_step_checked_def split: if_splits)
next
  fix s ev
  assume "tcp_inv s" "tcp_event_ok ev"
  then show "\<exists>s'. tcp_step_checked s ev = Some s'"
    using tcp_step_ok [of s ev] by (auto simp: tcp_step_checked_def)
qed

lemma tcp_run_checked:
  "list_all tcp_event_ok evs \<Longrightarrow> run_events tcp_step_checked s evs = run_events tcp_step s evs"
  by (induction evs arbitrary: s) (simp_all add: tcp_step_checked_def split: bind_split)

lemma tcp_boot_inv: "tcp_inv tcp_boot"
  by (simp add: tcp_inv_def tcp_boot_def list_all_iff conn_inv_def ring_ok_def tcp_conn0_def tcp_consts)

lemma tcp_init_inv: "length (s_conns s) = TCP_MAX_CONNS \<Longrightarrow> list_all ring_ok (s_conns s) \<Longrightarrow> 49152 \<le> s_next_port s \<Longrightarrow>
    tcp_inv (tcp_init s)"
  by (auto simp: tcp_inv_def tcp_init_def conn_inv_def list_all_length)

section \<open>Properties\<close>

text \<open>
  Every segment this module sends is well formed and is understood by its own receiver:
  once the next hop is known, \<open>send_segment\<close> emits one frame whose TCP checksum verifies over
  the pseudo-header and the segment, and \<open>tcp_parse\<close> of that frame gives back the port,
  sequence and acknowledgement numbers, flags, window and payload.
\<close>

theorem tcp_segment_roundtrip:
  assumes "resolve_dst_mac e (remote_ip c) = Some m" "length data \<le> 1460"
  shows "\<exists>f. send_segment e c flags data = Some [f] \<and> length f = 54 + length data \<and> rd_mac f 0 = Some m \<and>
    tcp_cksum (ne_ip e) (remote_ip c) (drop 34 f) (20 + int (length data)) = Some 0 \<and>
    tcp_parse f (int (length f)) = Some (Some \<lparr>h_dport = remote_port c, h_seq = snd_nxt c, h_ack = rcv_nxt c,
      h_flags = flags, h_wnd = 8192, h_data = data\<rparr>)"
proof -
  obtain t i where s: "send_segment e c flags data = Some [ipv4_header (ne_mac e) (ne_ip e) m (remote_ip c) 6
      (40 + int (length data)) i @ tcp_segment c flags data t]"
    "tcp_cksum (ne_ip e) (remote_ip c) (tcp_segment c flags data t) (20 + int (length data)) = Some 0"
    using send_segment_eq [OF assms] by blast
  then show ?thesis by (simp add: ipv4_header_fields tcp_parse_segment)
qed

text \<open>An environment whose ARP table knows one neighbour.\<close>

definition lan_env :: net_env where
  "lan_env = \<lparr>ne_mac = (2, 0, 0, 0, 0, 1), ne_ip = (10, 0, 0, 1), ne_netmask = (255, 255, 255, 0),
     ne_gateway = (10, 0, 0, 254),
     ne_arp = \<lparr>s_table = [\<lparr>ae_ip = (10, 0, 0, 2), ae_mac = (2, 0, 0, 0, 0, 2), ae_valid = True\<rparr>], s_next_slot = 1\<rparr>\<rparr>"

definition lan_conn :: "tcp_state_t \<Rightarrow> tcp_conn" where
  "lan_conn q = tcp_conn0\<lparr>state := q, remote_ip := (10, 0, 0, 2), local_port := 49152, remote_port := 80,
     snd_iss := 1000, snd_nxt := 1001, rcv_nxt := 5001, used := True\<rparr>"

lemma lan_route: "resolve_dst_mac lan_env (10, 0, 0, 2) = Some (2, 0, 0, 0, 0, 2)"
  by code_simp

theorem tcp_segment_roundtrip_witness:
  "\<exists>f. send_segment lan_env (lan_conn TCPS_ESTABLISHED) 0x18 [1, 2, 3] = Some [f] \<and>
    length f = 54 + length [1, 2, 3 :: u8] \<and> rd_mac f 0 = Some (2, 0, 0, 0, 0, 2) \<and>
    tcp_cksum (ne_ip lan_env) (remote_ip (lan_conn TCPS_ESTABLISHED)) (drop 34 f) (20 + int (length [1, 2, 3 :: u8])) = Some 0 \<and>
    tcp_parse f (int (length f)) = Some (Some \<lparr>h_dport = remote_port (lan_conn TCPS_ESTABLISHED),
      h_seq = snd_nxt (lan_conn TCPS_ESTABLISHED), h_ack = rcv_nxt (lan_conn TCPS_ESTABLISHED),
      h_flags = 0x18, h_wnd = 8192, h_data = [1, 2, 3]\<rparr>)"
  by (rule tcp_segment_roundtrip) (simp_all add: lan_conn_def lan_route)

text \<open>
  Whatever segments arrive and whatever the application calls, in any order and with any
  state of the ARP table: no handler reads or writes outside a buffer, and every connection
  stays in a state of the client machine with its ring indices in range. In particular
  LISTEN, SYN\_RECEIVED, CLOSE\_WAIT, CLOSING and LAST\_ACK are never observable.
\<close>

theorem tcp_run_safe:
  assumes "list_all tcp_event_ok evs"
  shows "\<exists>s. run_events tcp_step tcp_boot evs = Some s \<and> tcp_inv s"
  using tcps.run_safe [OF tcp_boot_inv assms] by (simp add: tcp_run_checked [OF assms])

theorem tcp_run_safe_witness:
  "\<exists>s. run_events tcp_step tcp_boot [(lan_env, TcpConnect (10, 0, 0, 2) 80), (lan_env, TcpRx [1, 2, 3] 3),
      (lan_env, TcpWrite 0 [7] 1), (lan_env, TcpClose 0)] = Some s \<and> tcp_inv s"
  by (rule tcp_run_safe) simp



text \<open>
  The receive ring delivers a byte stream: for every interleaving of arriving data with
  reads in which each arrival fits, the bytes read so far followed by the unread ones are
  exactly the bytes that arrived, in order, none lost or repeated. No index leaves the ring.
\<close>

theorem tcp_ring_fifo:
  assumes "ring_ok c" "fits 4095 (ring_count c) ops"
  shows "\<exists>c' out. ring.run_ops c ops = Some (c', out) \<and> ring_ok c' \<and>
    out @ ring_items c' = ring_items c @ pushed ops"
  using ring.stream [OF assms(1)] assms(2) by simp

lemma lan_conn_ok: "ring_ok (lan_conn q)"
  by (simp add: ring_ok_def lan_conn_def tcp_conn0_def TCP_RCVBUF_SIZE_def)

lemma lan_conn_empty: "ring_items (lan_conn q) = []" "ring_count (lan_conn q) = 0"
  by (simp_all add: ring_items_def ring_count_def lan_conn_def tcp_conn0_def)

theorem tcp_ring_fifo_witness:
  "\<exists>c' out. ring.run_ops (lan_conn TCPS_ESTABLISHED) [Push [1, 2, 3], Pop 2, Push [4], Pop 9] = Some (c', out) \<and>
    ring_ok c' \<and> out @ ring_items c' = ring_items (lan_conn TCPS_ESTABLISHED) @ pushed [Push [1, 2, 3], Pop 2, Push [4], Pop 9]"
  by (rule tcp_ring_fifo) (simp_all add: lan_conn_ok lan_conn_empty)

text \<open>An in-sequence segment of an established connection.\<close>

definition plain :: "tcp_hdr \<Rightarrow> bool" where
  "plain h \<longleftrightarrow> \<not> has (h_flags h) TF_RST \<and> \<not> has (h_flags h) TF_FIN"

lemma established_rx:
  assumes "ring_ok c" "state c = TCPS_ESTABLISHED" "plain h" "in_seq c h"
  shows "\<exists>c' out. conn_rx e c h = Some (c', out) \<and> ring_ok c' \<and> state c' = TCPS_ESTABLISHED \<and>
    rcv_nxt c' = rcv_nxt c + of_nat (length (h_data h)) \<and>
    ring_items c' = ring_items c @ take (4095 - ring_count c) (h_data h)"
proof -
  define c0 where "c0 = (if has (h_flags h) TF_ACK then c\<lparr>snd_wnd := h_wnd h, snd_una := h_ack h\<rparr> else c\<lparr>snd_wnd := h_wnd h\<rparr>)"
  have c0: "ring_ok c0" "state c0 = TCPS_ESTABLISHED" "rcv_nxt c0 = rcv_nxt c" "ring_items c0 = ring_items c"
    using assms(1,2) by (simp_all add: c0_def)
  then have n: "ring_count c0 = ring_count c" by (metis length_ring_items)
  have q: "in_seq c0 h" using assms(4) c0(3) by (simp add: in_seq_def)
  obtain c' where c': "take_data c0 h = Some c'" "ring_ok c'" "state c' = state c0"
    "rcv_nxt c' = rcv_nxt c0 + of_nat (length (h_data h))"
    "ring_items c' = ring_items c0 @ take (4095 - ring_count c0) (h_data h)"
    using take_data_spec [OF c0(1), of h] by blast
  obtain out where "send_segment e c' TF_ACK [] = Some out" using send_control by blast
  then have "rx_established e (c\<lparr>snd_wnd := h_wnd h\<rparr>) h = Some (c', out)"
    using q assms(3) c'(1) unfolding rx_established_def Let_def by (simp add: plain_def flip: c0_def)
  then show ?thesis
    using assms(2,3) c' c0 n by (simp add: conn_rx_def plain_def)
qed

fun stream_hdrs :: "u32 \<Rightarrow> tcp_hdr list \<Rightarrow> bool" where
  "stream_hdrs n [] = True"
| "stream_hdrs n (h # hs) =
     (plain h \<and> h_data h \<noteq> [] \<and> h_seq h = n \<and> stream_hdrs (n + of_nat (length (h_data h))) hs)"

definition conn_step :: "net_env \<Rightarrow> tcp_conn \<Rightarrow> tcp_hdr \<Rightarrow> tcp_conn option" where
  "conn_step e c h = map_option fst (conn_rx e c h)"

lemma established_run:
  assumes "ring_ok c" "state c = TCPS_ESTABLISHED" "stream_hdrs (rcv_nxt c) hs"
    and "ring_count c + length (concat (map h_data hs)) \<le> 4095"
  shows "\<exists>c'. run_events (conn_step e) c hs = Some c' \<and> ring_ok c' \<and> state c' = TCPS_ESTABLISHED \<and>
    rcv_nxt c' = rcv_nxt c + of_nat (length (concat (map h_data hs))) \<and>
    ring_items c' = ring_items c @ concat (map h_data hs)"
  using assms
proof (induction hs arbitrary: c)
  case (Cons h hs)
  obtain c1 out where c1: "conn_rx e c h = Some (c1, out)" "ring_ok c1" "state c1 = TCPS_ESTABLISHED"
    "rcv_nxt c1 = rcv_nxt c + of_nat (length (h_data h))"
    "ring_items c1 = ring_items c @ take (4095 - ring_count c) (h_data h)"
    using established_rx [OF Cons.prems(1,2), of h e] Cons.prems(3) by (auto simp: in_seq_def)
  have i: "ring_items c1 = ring_items c @ h_data h" using c1(5) Cons.prems(4) by simp
  then have "ring_count c1 = ring_count c + length (h_data h)" by (metis length_append length_ring_items)
  then show ?case
    using Cons.IH [OF c1(2,3)] Cons.prems(3,4) c1(1,4) i by (auto simp: conn_step_def add.assoc)
qed simp

text \<open>
  C2. In-order data transfer: when the peer's segments arrive in sequence and the unread data
  fits the ring, an established connection stays established, \<open>tcp_read\<close> then returns the
  unread bytes followed by the payloads of all segments in order, and the next
  acknowledgement number has advanced by exactly their total length.
\<close>

theorem tcp_stream_delivery:
  assumes "ring_ok c" "state c = TCPS_ESTABLISHED" "stream_hdrs (rcv_nxt c) hs"
    and "ring_count c + length (concat (map h_data hs)) \<le> 4095"
  shows "\<exists>c' d. run_events (conn_step e) c hs = Some c' \<and> state c' = TCPS_ESTABLISHED \<and>
    rcv_nxt c' = rcv_nxt c + of_nat (length (concat (map h_data hs))) \<and>
    conn_read c' 4096 = Some (d, ring_items c @ concat (map h_data hs),
      int (ring_count c + length (concat (map h_data hs)))) \<and> ring_items d = []"
proof -
  obtain c' where c': "run_events (conn_step e) c hs = Some c'" "ring_ok c'" "state c' = TCPS_ESTABLISHED"
    "rcv_nxt c' = rcv_nxt c + of_nat (length (concat (map h_data hs)))"
    "ring_items c' = ring_items c @ concat (map h_data hs)"
    using established_run [OF assms] by blast
  have n: "ring_count c' = ring_count c + length (concat (map h_data hs))"
    using c'(5) by (metis length_append length_ring_items)
  have "\<exists>d. conn_read c' 4096 = Some (d, take (nat 4096) (ring_items c'), int (length (take (nat 4096) (ring_items c')))) \<and>
      ring_items d = drop (nat 4096) (ring_items c')"
    using conn_read_spec [OF c'(2), of 4096] by auto
  then have "\<exists>d. conn_read c' 4096 = Some (d, ring_items c', int (ring_count c')) \<and> ring_items d = []"
    using n assms(4) by simp
  then show ?thesis using c' n by auto
qed

definition data_hdr :: "u32 \<Rightarrow> bytes \<Rightarrow> tcp_hdr" where
  "data_hdr n d = \<lparr>h_dport = 49152, h_seq = n, h_ack = 1001, h_flags = 0x18, h_wnd = 1000, h_data = d\<rparr>"

theorem tcp_stream_delivery_witness:
  "\<exists>c' d. run_events (conn_step lan_env) (lan_conn TCPS_ESTABLISHED) [data_hdr 5001 [72, 105], data_hdr 5003 [33]] = Some c' \<and>
    state c' = TCPS_ESTABLISHED \<and>
    rcv_nxt c' = rcv_nxt (lan_conn TCPS_ESTABLISHED) +
      of_nat (length (concat (map h_data [data_hdr 5001 [72, 105], data_hdr 5003 [33]]))) \<and>
    conn_read c' 4096 = Some (d, ring_items (lan_conn TCPS_ESTABLISHED) @
        concat (map h_data [data_hdr 5001 [72, 105], data_hdr 5003 [33]]),
      int (ring_count (lan_conn TCPS_ESTABLISHED) + length (concat (map h_data [data_hdr 5001 [72, 105], data_hdr 5003 [33]])))) \<and>
    ring_items d = []"
  by (rule tcp_stream_delivery) (simp_all add: lan_conn_ok lan_conn_empty, simp_all add: lan_conn_def data_hdr_def plain_def has_def tcp_flags)

text \<open>
  Data that does not fit the ring is acknowledged and lost: when an in-sequence segment is
  longer than the free space, only the part that fits is stored, but the acknowledgement
  number the connection sends from then on covers the whole segment, so the peer will not
  send the missing bytes again. The advertised window of 8192 exceeds the ring of 4095.
\<close>

theorem tcp_overflow_acknowledged:
  assumes "ring_ok c" "state c = TCPS_ESTABLISHED" "plain h" "in_seq c h"
    and "4095 - ring_count c < length (h_data h)"
  shows "\<exists>c' out. conn_rx e c h = Some (c', out) \<and> ring_count c' = 4095 \<and>
    ring_items c' \<noteq> ring_items c @ h_data h \<and> rcv_nxt c' = rcv_nxt c + of_nat (length (h_data h))"
proof -
  obtain c' out where c': "conn_rx e c h = Some (c', out)" "rcv_nxt c' = rcv_nxt c + of_nat (length (h_data h))"
    "ring_items c' = ring_items c @ take (4095 - ring_count c) (h_data h)"
    using established_rx [OF assms(1-4)] by blast
  have n: "ring_count c' = 4095"
    using arg_cong [OF c'(3), of length] assms(5) ring_count_le [of c] by simp
  then have "length (ring_items c') \<noteq> length (ring_items c @ h_data h)" using assms(5) by simp
  then show ?thesis using c' n by metis
qed

definition nearly_full :: tcp_conn where
  "nearly_full = (lan_conn TCPS_ESTABLISHED)\<lparr>rcv_tail := 4090\<rparr>"

theorem tcp_overflow_acknowledged_witness:
  "\<exists>c' out. conn_rx lan_env nearly_full (data_hdr 5001 (replicate 10 7)) = Some (c', out) \<and>
    ring_count c' = 4095 \<and> ring_items c' \<noteq> ring_items nearly_full @ h_data (data_hdr 5001 (replicate 10 7)) \<and>
    rcv_nxt c' = rcv_nxt nearly_full + of_nat (length (h_data (data_hdr 5001 (replicate 10 7))))"
  by (rule tcp_overflow_acknowledged)
    (simp_all add: nearly_full_def ring_ok_def ring_count_def lan_conn_def tcp_conn0_def TCP_RCVBUF_SIZE_def
      data_hdr_def plain_def has_def tcp_flags in_seq_def)

text \<open>A segment whose port leads to connection \<open>h\<close>.\<close>

lemma tcp_rx_conn:
  assumes "tcp_parse f n = Some (Some g)" "find_conn (h_dport g) (s_conns s) = Some i"
    and "conn_rx e (s_conns s ! i) g = Some (c, out)"
  shows "tcp_rx e s f n = Some (put_conn s i c, out)"
  using assms by (simp add: tcp_rx_def)

lemma find_conn_put:
  assumes "i < length cs" "used c" "local_port c = port" "\<And>j. j < i \<Longrightarrow> \<not> (used (cs ! j) \<and> local_port (cs ! j) = port)"
  shows "find_conn port (cs[i := c]) = Some i"
  using assms
proof (induction cs arbitrary: i)
  case (Cons d ds)
  show ?case
  proof (cases i)
    case 0
    then show ?thesis using Cons.prems by simp
  next
    case (Suc j)
    have "find_conn port (ds[j := c]) = Some j"
      using Cons.prems Suc by (intro Cons.IH) fastforce+
    moreover have "\<not> (used d \<and> local_port d = port)" using Cons.prems(4) [of 0] Suc by simp
    ultimately show ?thesis using Suc by simp
  qed
qed simp

lemma tcp_state_put:
  "i < TCP_MAX_CONNS \<Longrightarrow> length (s_conns s) = TCP_MAX_CONNS \<Longrightarrow> used c \<Longrightarrow> tcp_state (put_conn s i c) (int i) = state c"
  by (simp add: tcp_state_def handle_ok_def put_conn_def)

text \<open>
  C20. The three-way handshake. With a free slot and a known next hop, \<open>tcp_connect\<close> returns
  that slot's handle and sends one SYN carrying the initial sequence number; when a
  SYN+ACK for its port then arrives, the connection is ESTABLISHED and has sent exactly one
  frame, an ACK that carries the next sequence number and acknowledges the peer's SYN.
\<close>

theorem tcp_handshake:
  assumes "tcp_inv s" "free_slot (s_conns s) = Some i" "resolve_dst_mac e ip = Some m"
    and "\<And>j. j < i \<Longrightarrow> local_port (s_conns s ! j) \<noteq> s_next_port s"
    and "tcp_parse f n = Some (Some g)" "h_dport g = s_next_port s"
    and "h_flags g AND 0x12 = 0x12" "\<not> has (h_flags g) TF_RST"
  shows "\<exists>t syn u ackf.
    tcp_connect e s ip port = Some (t, [syn], int i) \<and> tcp_state t (int i) = TCPS_SYN_SENT \<and>
    tcp_parse syn (int (length syn)) = Some (Some \<lparr>h_dport = port, h_seq = s_isn s, h_ack = 0, h_flags = TF_SYN,
      h_wnd = 8192, h_data = []\<rparr>) \<and>
    tcp_rx e t f n = Some (u, [ackf]) \<and> tcp_state u (int i) = TCPS_ESTABLISHED \<and>
    tcp_parse ackf (int (length ackf)) = Some (Some \<lparr>h_dport = port, h_seq = s_isn s + 1, h_ack = h_seq g + 1,
      h_flags = TF_ACK, h_wnd = 8192, h_data = []\<rparr>)"
proof -
  have i: "i < TCP_MAX_CONNS" and len: "length (s_conns s) = TCP_MAX_CONNS"
    using free_slot_Some [OF assms(2)] assms(1) by (auto simp: tcp_inv_def)
  define c where "c = (s_conns s ! i)\<lparr>used := True, state := TCPS_SYN_SENT, remote_ip := ip, local_port := s_next_port s,
      remote_port := port, snd_iss := s_isn s, snd_una := s_isn s, snd_nxt := s_isn s, rcv_nxt := 0, snd_wnd := 0,
      rcv_head := 0, rcv_tail := 0\<rparr>"
  define t where "t = put_conn (s\<lparr>s_next_port := (if s_next_port s + 1 < 49152 then 49152 else s_next_port s + 1),
      s_isn := s_isn s + 64000\<rparr>) i (c\<lparr>snd_nxt := snd_iss c + 1\<rparr>)"
  define d where "d = c\<lparr>snd_nxt := snd_iss c + 1, snd_wnd := h_wnd g, rcv_nxt := h_seq g + 1, snd_una := h_ack g, state := TCPS_ESTABLISHED\<rparr>"
  have r: "remote_ip c = ip" "remote_ip d = ip" by (simp_all add: c_def d_def)
  obtain a b where syn: "send_segment e c TF_SYN [] = Some [ipv4_header (ne_mac e) (ne_ip e) m ip 6 40 b @ tcp_segment c TF_SYN [] a]"
    using send_segment_eq [of e c m "[]" TF_SYN] assms(3) r by auto
  obtain a' b' where ackf: "send_segment e d TF_ACK [] = Some [ipv4_header (ne_mac e) (ne_ip e) m ip 6 40 b' @ tcp_segment d TF_ACK [] a']"
    using send_segment_eq [of e d m "[]" TF_ACK] assms(3) r by auto
  have conn: "tcp_connect e s ip port = Some (t, [ipv4_header (ne_mac e) (ne_ip e) m ip 6 40 b @ tcp_segment c TF_SYN [] a], int i)"
    using assms(2) syn unfolding tcp_connect_def Let_def t_def c_def by simp
  have ti: "s_conns t ! i = c\<lparr>snd_nxt := snd_iss c + 1\<rparr>" using i len by (simp add: t_def put_conn_def)
  have "find_conn (h_dport g) (s_conns t) = Some i"
    unfolding t_def put_conn_def using i len assms(4,6) by (simp add: find_conn_put c_def)
  moreover have "conn_rx e (s_conns t ! i) g = Some (d, [ipv4_header (ne_mac e) (ne_ip e) m ip 6 40 b' @ tcp_segment d TF_ACK [] a'])"
    using ackf assms(7,8) unfolding ti conn_rx_def rx_syn_sent_def Let_def d_def by (simp add: c_def tcp_flags)
  ultimately have rx: "tcp_rx e t f n = Some (put_conn t i d, [ipv4_header (ne_mac e) (ne_ip e) m ip 6 40 b' @ tcp_segment d TF_ACK [] a'])"
    by (rule tcp_rx_conn [OF assms(5)])
  have st: "tcp_state t (int i) = TCPS_SYN_SENT" "tcp_state (put_conn t i d) (int i) = TCPS_ESTABLISHED"
    using i len by (simp_all add: tcp_state_put t_def) (simp_all add: tcp_state_def handle_ok_def put_conn_def c_def d_def)
  have p: "tcp_parse (ipv4_header (ne_mac e) (ne_ip e) m ip 6 40 b @ tcp_segment c TF_SYN [] a) 54
      = Some (Some \<lparr>h_dport = port, h_seq = s_isn s, h_ack = 0, h_flags = TF_SYN, h_wnd = 8192, h_data = []\<rparr>)"
    using tcp_parse_segment [where data = "[]" and c = c] by (simp add: c_def)
  have q: "tcp_parse (ipv4_header (ne_mac e) (ne_ip e) m ip 6 40 b' @ tcp_segment d TF_ACK [] a') 54
      = Some (Some \<lparr>h_dport = port, h_seq = s_isn s + 1, h_ack = h_seq g + 1, h_flags = TF_ACK, h_wnd = 8192, h_data = []\<rparr>)"
    using tcp_parse_segment [where data = "[]" and c = d] by (simp add: d_def c_def)
  show ?thesis
    using conn st rx p q by (intro exI [of _ t] exI [of _ "put_conn t i d"] exI conjI) auto
qed

definition syn_ack_frame :: bytes where
  "syn_ack_frame = ipv4_header (2, 0, 0, 0, 0, 2) (10, 0, 0, 2) (2, 0, 0, 0, 0, 1) (10, 0, 0, 1) 6 40 0 @
     tcp_segment (tcp_conn0\<lparr>local_port := 80, remote_port := 49152, snd_nxt := 7000, rcv_nxt := 0x78563413\<rparr>) 0x12 [] 0"

lemma syn_ack_parse: "tcp_parse syn_ack_frame 54 = Some (Some \<lparr>h_dport = 49152, h_seq = 7000, h_ack = 0x78563413,
    h_flags = 0x12, h_wnd = 8192, h_data = []\<rparr>)"
  using tcp_parse_segment [where data = "[]"] by (simp add: syn_ack_frame_def)

theorem tcp_handshake_witness:
  "\<exists>t syn u ackf.
    tcp_connect lan_env tcp_boot (10, 0, 0, 2) 80 = Some (t, [syn], int 0) \<and> tcp_state t (int 0) = TCPS_SYN_SENT \<and>
    tcp_parse syn (int (length syn)) = Some (Some \<lparr>h_dport = 80, h_seq = s_isn tcp_boot, h_ack = 0, h_flags = TF_SYN,
      h_wnd = 8192, h_data = []\<rparr>) \<and>
    tcp_rx lan_env t syn_ack_frame 54 = Some (u, [ackf]) \<and> tcp_state u (int 0) = TCPS_ESTABLISHED \<and>
    tcp_parse ackf (int (length ackf)) = Some (Some \<lparr>h_dport = 80, h_seq = s_isn tcp_boot + 1, h_ack = h_seq
        \<lparr>h_dport = 49152, h_seq = 7000, h_ack = 0x78563413, h_flags = 0x12, h_wnd = 8192, h_data = []\<rparr> + 1,
      h_flags = TF_ACK, h_wnd = 8192, h_data = []\<rparr>)"
  by (rule tcp_handshake [OF tcp_boot_inv _ lan_route _ syn_ack_parse])
     (simp_all add: tcp_boot_def TCP_MAX_CONNS_def tcp_conn0_def has_def tcp_flags numeral_eq_Suc)

text \<open>
  Ethernet padding is taken for data. A bare ACK has an IP total length of 40 and reaches
  the driver as a 60-byte frame, padded with six bytes. If its sequence number is the
  expected one, an established connection appends the padding to the byte stream the
  application reads and acknowledges six bytes the peer never sent.
\<close>

theorem tcp_padding_as_data:
  assumes "ring_ok c" "state c = TCPS_ESTABLISHED" "ring_count c \<le> 4089"
    and "f = ipv4_header m ip dm dip 6 40 ick @ tcp_segment peer TF_ACK [] tck @ pad" "length pad = 6"
    and "find_conn (remote_port peer) (s_conns s) = Some i" "s_conns s ! i = c" "snd_nxt peer = rcv_nxt c"
  shows "\<exists>c' out. rd16be f 16 = Some 40 \<and> tcp_rx e s f 60 = Some (put_conn s i c', out) \<and>
    ring_items c' = ring_items c @ pad \<and> rcv_nxt c' = rcv_nxt c + 6"
proof -
  let ?h = "\<lparr>h_dport = remote_port peer, h_seq = snd_nxt peer, h_ack = rcv_nxt peer, h_flags = TF_ACK,
      h_wnd = 8192, h_data = pad\<rparr>"
  have "tcp_segment peer TF_ACK [] tck @ pad = tcp_segment peer TF_ACK pad tck" by (simp add: tcp_segment_def)
  then have p: "tcp_parse f 60 = Some (Some ?h)"
    using tcp_parse_segment [of m ip dm dip 40 ick peer TF_ACK pad tck] assms(4,5) by simp
  have pl: "plain ?h" "in_seq c ?h" using assms(5,8) by (auto simp: plain_def has_def tcp_flags in_seq_def)
  obtain c' out where "conn_rx e c ?h = Some (c', out)" "rcv_nxt c' = rcv_nxt c + of_nat (length pad)"
    "ring_items c' = ring_items c @ take (4095 - ring_count c) pad"
    using established_rx [OF assms(1,2) pl, of e] by auto
  moreover have "rd16be f 16 = Some 40" using assms(4) by (simp add: ipv4_header_fields)
  ultimately show ?thesis
    using tcp_rx_conn [OF p, of s i e] assms(3,5-7) by (auto simp: take_all)
qed

theorem tcp_padding_as_data_witness:
  "\<exists>c' out. rd16be (ipv4_header (2, 0, 0, 0, 0, 2) (10, 0, 0, 2) (2, 0, 0, 0, 0, 1) (10, 0, 0, 1) 6 40 0 @
        tcp_segment (tcp_conn0\<lparr>local_port := 80, remote_port := 49152, snd_nxt := 5001\<rparr>) TF_ACK [] 0 @ [0, 0, 0, 0, 0, 0]) 16 = Some 40 \<and>
    tcp_rx lan_env (tcp_boot\<lparr>s_conns := [lan_conn TCPS_ESTABLISHED, tcp_conn0, tcp_conn0, tcp_conn0]\<rparr>)
      (ipv4_header (2, 0, 0, 0, 0, 2) (10, 0, 0, 2) (2, 0, 0, 0, 0, 1) (10, 0, 0, 1) 6 40 0 @
        tcp_segment (tcp_conn0\<lparr>local_port := 80, remote_port := 49152, snd_nxt := 5001\<rparr>) TF_ACK [] 0 @ [0, 0, 0, 0, 0, 0]) 60
      = Some (put_conn (tcp_boot\<lparr>s_conns := [lan_conn TCPS_ESTABLISHED, tcp_conn0, tcp_conn0, tcp_conn0]\<rparr>) 0 c', out) \<and>
    ring_items c' = ring_items (lan_conn TCPS_ESTABLISHED) @ [0, 0, 0, 0, 0, 0] \<and>
    rcv_nxt c' = rcv_nxt (lan_conn TCPS_ESTABLISHED) + 6"
  by (rule tcp_padding_as_data [OF lan_conn_ok]) (simp_all add: lan_conn_empty, simp_all add: lan_conn_def)

lemma fin_wait_2_stuck:
  "ring_ok c \<Longrightarrow> state c = TCPS_FIN_WAIT_2 \<Longrightarrow> used c \<Longrightarrow> list_all plain hs \<Longrightarrow>
   \<exists>c'. run_events (conn_step e) c hs = Some c' \<and> state c' = TCPS_FIN_WAIT_2 \<and> used c'"
proof (induction hs arbitrary: c)
  case (Cons h hs)
  let ?c = "c\<lparr>snd_wnd := h_wnd h\<rparr>"
  obtain c1 out where c1: "(if in_seq ?c h then do { c \<leftarrow> take_data ?c h; out \<leftarrow> send_segment e c TF_ACK []; Some (c, out) }
      else Some (?c, [])) = Some (c1, out)" "ring_ok c1" "state c1 = state ?c" "used c1 = used ?c"
    using take_data_ack [of ?c h e] Cons.prems(1) by auto
  have "rx_fin_wait_2 e ?c h = Some (c1, out)"
    using Cons.prems(4) unfolding rx_fin_wait_2_def c1(1) by (simp add: plain_def)
  then have "conn_step e c h = Some c1"
    using Cons.prems(2,4) by (simp add: conn_step_def conn_rx_def plain_def)
  then show ?case using Cons.IH [of c1] Cons.prems c1 by simp
qed simp

text \<open>
  A connection the peer closes is never released by the module. After the peer's FIN and
  the acknowledgement of our own FIN, the exchange is over for both sides, but the
  connection is left in FIN\_WAIT\_2, waiting for a FIN that has already come; it keeps its
  slot through every later segment without FIN or RST.
\<close>

theorem tcp_peer_close_leaks_slot:
  assumes "ring_ok c" "state c = TCPS_ESTABLISHED" "used c"
    and "h_flags fin = TF_FIN OR TF_ACK" "h_data fin = []" "plain a" "has (h_flags a) TF_ACK" "h_data a = []"
    and "h_ack a = snd_nxt c + 1" "list_all plain rest"
  shows "\<exists>c'. run_events (conn_step e) c (fin # a # rest) = Some c' \<and> state c' = TCPS_FIN_WAIT_2 \<and> used c'"
proof -
  let ?c = "c\<lparr>snd_wnd := h_wnd fin, snd_una := h_ack fin, rcv_nxt := rcv_nxt c + 1, state := TCPS_FIN_WAIT_1, snd_nxt := snd_nxt c + 1\<rparr>"
  let ?d = "?c\<lparr>snd_wnd := h_wnd a, snd_una := h_ack a, state := TCPS_FIN_WAIT_2\<rparr>"
  obtain f g where "send_segment e (c\<lparr>snd_wnd := h_wnd fin, snd_una := h_ack fin, rcv_nxt := rcv_nxt c + 1, state := TCPS_CLOSE_WAIT\<rparr>) TF_ACK [] = Some f"
    "send_segment e (c\<lparr>snd_wnd := h_wnd fin, snd_una := h_ack fin, rcv_nxt := rcv_nxt c + 1, state := TCPS_FIN_WAIT_1\<rparr>) (TF_FIN OR TF_ACK) [] = Some g"
    using send_control by metis
  then have one: "conn_step e c fin = Some ?c"
    using assms(2,4,5) by (simp add: conn_step_def conn_rx_def rx_established_def has_def tcp_flags in_seq_def)
  have two: "conn_step e ?c a = Some ?d"
    using assms(6-9) by (simp add: conn_step_def conn_rx_def rx_fin_wait_1_def plain_def in_seq_def)
  have "ring_ok ?d" "state ?d = TCPS_FIN_WAIT_2" "used ?d" using assms(1,3) by simp_all
  then show ?thesis using fin_wait_2_stuck [of ?d rest e] assms(10) one two by simp
qed

theorem tcp_peer_close_leaks_slot_witness:
  "\<exists>c'. run_events (conn_step lan_env) (lan_conn TCPS_ESTABLISHED)
      ((data_hdr 5001 [])\<lparr>h_flags := 0x11\<rparr> # (data_hdr 5002 [])\<lparr>h_flags := 0x10, h_ack := 1002\<rparr> # [data_hdr 5002 [1]])
      = Some c' \<and> state c' = TCPS_FIN_WAIT_2 \<and> used c'"
  by (rule tcp_peer_close_leaks_slot [OF lan_conn_ok])
     (simp_all add: lan_conn_def data_hdr_def tcp_flags plain_def has_def)

end
