(* ===== verification/Udp.thy ===== *)
theory Udp
  imports Ipv4 "HOL-Library.Multiset"
begin

text \<open>
  net/udp.c: the queue of eight received datagrams, \<open>udp_rx\<close>, which fills it, and
  \<open>udp_recvfrom\<close>, which empties it. \<open>udp_send\<close> resolves addresses through the receive path of
  the whole stack and is in theory Tcpip; the segment it builds is \<open>udp_segment\<close> here.
\<close>

section \<open>State\<close>

record udp_rx_entry =
  u_used :: bool
  u_dst_port :: u16
  u_src_port :: u16
  u_src_ip :: ip4
  u_data :: bytes
  u_len :: u16

type_synonym udp_queue = "udp_rx_entry list"

definition UDP_RXQUEUE_SIZE :: nat where "UDP_RXQUEUE_SIZE = 8"
definition UDP_PKT_MAX :: int where "UDP_PKT_MAX = 512"

definition udp_boot :: udp_queue where
  "udp_boot = replicate UDP_RXQUEUE_SIZE \<lparr>u_used = False, u_dst_port = 0, u_src_port = 0,
     u_src_ip = (0, 0, 0, 0), u_data = replicate (nat UDP_PKT_MAX) 0, u_len = 0\<rparr>"

section \<open>Operations\<close>

definition udp_init :: "udp_queue \<Rightarrow> udp_queue" where
  "udp_init q = map (\<lambda>e. e\<lparr>u_used := False\<rparr>) q"

text \<open>The scan takes the first free slot; the datagram is \<open>len\<close> bytes of \<open>frame\<close> from \<open>off\<close> on.\<close>

fun udp_rx_enqueue :: "u16 \<Rightarrow> ip4 \<Rightarrow> u16 \<Rightarrow> bytes \<Rightarrow> int \<Rightarrow> int \<Rightarrow> udp_queue \<Rightarrow> udp_queue option" where
  "udp_rx_enqueue dst_port src_ip src_port frame off len [] = Some []"
| "udp_rx_enqueue dst_port src_ip src_port frame off len (e # q) =
     (if \<not> u_used e then do {
        let copy = (if len > UDP_PKT_MAX then UDP_PKT_MAX else len);
        d \<leftarrow> rdn frame off (nat copy);
        data \<leftarrow> wrn (u_data e) 0 d;
        Some (\<lparr>u_used = True, u_dst_port = dst_port, u_src_port = src_port, u_src_ip = src_ip,
               u_data = data, u_len = of_int copy\<rparr> # q)
      } else map_option ((#) e) (udp_rx_enqueue dst_port src_ip src_port frame off len q))"

definition udp_rx :: "udp_queue \<Rightarrow> bytes \<Rightarrow> int \<Rightarrow> udp_queue option" where
  "udp_rx q frame len =
     (if len < 42 then Some q
      else do {
        vihl \<leftarrow> rd frame 14;
        let ihl = int (unat (vihl AND 0x0F)) * 4;
        let udp_off = 14 + ihl;
        if len < udp_off + 8 then Some q
        else do {
          src_port \<leftarrow> rd16be frame udp_off;
          dst_port \<leftarrow> rd16be frame (udp_off + 2);
          udp_len \<leftarrow> rd16be frame (udp_off + 4);
          src_ip \<leftarrow> rd_ip frame 26;
          let data_len = int (unat udp_len) - 8;
          let data_len = (if data_len < 0 then 0 else data_len);
          let data_len = (if udp_off + 8 + data_len > len then len - udp_off - 8 else data_len);
          udp_rx_enqueue dst_port src_ip src_port frame (udp_off + 8) data_len q
        }
      })"

text \<open>The slot \<open>udp_recvfrom\<close> takes: the first used one for the port.\<close>

fun udp_slot :: "u16 \<Rightarrow> udp_queue \<Rightarrow> nat option" where
  "udp_slot port [] = None"
| "udp_slot port (e # q) = (if u_used e \<and> u_dst_port e = port then Some 0 else map_option Suc (udp_slot port q))"

text \<open>The queue afterwards, the returned count, the bytes stored in \<open>buf\<close>, and the sender.\<close>

definition udp_recvfrom ::
  "u16 \<Rightarrow> int \<Rightarrow> udp_queue \<Rightarrow> (udp_queue \<times> int \<times> bytes \<times> (ip4 \<times> u16) option) option" where
  "udp_recvfrom local_port maxlen q =
     (case udp_slot local_port q of None \<Rightarrow> Some (q, 0, [], None)
      | Some i \<Rightarrow>
        let e = q ! i;
            n = int (unat (u_len e));
            n = (if n > maxlen then maxlen else n)
        in do {
          data \<leftarrow> rdn (u_data e) 0 (nat n);
          Some (q[i := e\<lparr>u_used := False\<rparr>], n, data, Some (u_src_ip e, u_src_port e))
        })"

definition udp_segment :: "u16 \<Rightarrow> u16 \<Rightarrow> bytes \<Rightarrow> bytes" where
  "udp_segment src_port dst_port data =
     be16_bytes src_port @ be16_bytes dst_port @ be16_bytes (of_nat (8 + length data)) @ [0, 0] @ data"

section \<open>The queue as a bag of datagrams\<close>

text \<open>What a slot in use holds, and the datagrams waiting.\<close>

type_synonym datagram = "u16 \<times> ip4 \<times> u16 \<times> bytes"

definition dgram :: "udp_rx_entry \<Rightarrow> datagram" where
  "dgram e = (u_dst_port e, u_src_ip e, u_src_port e, take (unat (u_len e)) (u_data e))"

definition waiting :: "udp_queue \<Rightarrow> datagram multiset" where
  "waiting q = mset (map dgram (filter u_used q))"

definition udp_entry_ok :: "udp_rx_entry \<Rightarrow> bool" where
  "udp_entry_ok e \<longleftrightarrow> length (u_data e) = 512 \<and> (u_used e \<longrightarrow> unat (u_len e) \<le> 512)"

definition udp_inv :: "udp_queue \<Rightarrow> bool" where
  "udp_inv q \<longleftrightarrow> length q = UDP_RXQUEUE_SIZE \<and>
     list_all udp_entry_ok q"

text \<open>An arriving datagram is added, cut to 512 bytes, unless every slot is in use.\<close>

lemma udp_rx_enqueue_spec:
  assumes "list_all udp_entry_ok q" "rdn frame off (nat (min len 512)) = Some d" "0 \<le> len"
  shows "\<exists>q'. udp_rx_enqueue dp ip sp frame off len q = Some q' \<and> length q' = length q \<and> list_all udp_entry_ok q' \<and>
    waiting q' = (if list_all u_used q then waiting q else add_mset (dp, ip, sp, d) (waiting q))"
  using assms(1)
proof (induction q)
  case (Cons e q)
  show ?case
  proof (cases "u_used e")
    case True
    then show ?thesis using Cons by (auto simp: waiting_def)
  next
    case False
    let ?k = "min len 512"
    have k: "(if len > UDP_PKT_MAX then UDP_PKT_MAX else len) = ?k" by (simp add: UDP_PKT_MAX_def)
    have n: "length d = nat ?k" using assms(2) by (rule rdn_length)
    obtain m where m: "?k = int m" "m \<le> 512" using assms(3) zero_le_imp_eq_int [of ?k] by auto
    have "0 + int (length d) \<le> int (length (u_data e))"
      using Cons.prems n m by (simp add: udp_entry_ok_def)
    then obtain data where w: "wrn (u_data e) 0 d = Some data" "length data = length (u_data e)"
      using wrn_ex [of 0 d "u_data e"] by auto
    have "take (length d) data = d" using w(1) by (auto simp: wrn_def split: if_splits)
    moreover have "unat (of_int ?k :: u16) = m" using m by (simp add: unat_of_nat)
    ultimately have "dgram \<lparr>u_used = True, u_dst_port = dp, u_src_port = sp, u_src_ip = ip, u_data = data,
        u_len = of_int ?k\<rparr> = (dp, ip, sp, d)" "unat (of_int ?k :: u16) \<le> 512"
      using n m by (simp_all add: dgram_def)
    then show ?thesis
      using False Cons.prems w assms(2) unfolding udp_rx_enqueue.simps k Let_def
      by (simp add: waiting_def udp_entry_ok_def)
  qed
qed (simp add: waiting_def)

lemma udp_slot_Some: "udp_slot port q = Some i \<Longrightarrow> i < length q \<and> u_used (q ! i) \<and> u_dst_port (q ! i) = port"
  by (induction q arbitrary: i) (auto split: if_splits)

lemma udp_slot_None: "udp_slot port q = None \<longleftrightarrow> (\<forall>e \<in> set q. u_used e \<longrightarrow> u_dst_port e \<noteq> port)"
  by (induction q) auto

lemma waiting_free:
  "i < length q \<Longrightarrow> u_used (q ! i) \<Longrightarrow> waiting q = add_mset (dgram (q ! i)) (waiting (q[i := (q ! i)\<lparr>u_used := False\<rparr>]))"
proof (induction q arbitrary: i)
  case (Cons e q)
  then show ?case by (cases i) (auto simp: waiting_def add_mset_commute)
qed simp

lemma waiting_Nil_slot: "udp_slot port q = None \<Longrightarrow> \<forall>g \<in># waiting q. fst g \<noteq> port"
  by (auto simp: udp_slot_None waiting_def dgram_def)

lemma udp_recvfrom_spec:
  assumes "udp_inv q" "0 \<le> maxlen"
  shows "(\<exists>q' n d ip sp. udp_recvfrom port maxlen q = Some (q', n, take (nat maxlen) d, Some (ip, sp)) \<and> udp_inv q' \<and>
      n = min maxlen (int (length d)) \<and> waiting q = add_mset (port, ip, sp, d) (waiting q'))
    \<or> udp_recvfrom port maxlen q = Some (q, 0, [], None) \<and> (\<forall>g \<in># waiting q. fst g \<noteq> port)"
proof (cases "udp_slot port q")
  case None
  then show ?thesis using waiting_Nil_slot by (auto simp: udp_recvfrom_def)
next
  case (Some i)
  then have i: "i < length q" "u_used (q ! i)" "u_dst_port (q ! i) = port" using udp_slot_Some by auto
  let ?e = "q ! i"
  define m where "m = unat (u_len ?e)"
  have e: "length (u_data ?e) = 512" "m \<le> 512"
    using assms(1) i by (auto simp: udp_inv_def list_all_length udp_entry_ok_def m_def)
  define d where "d = take m (u_data ?e)"
  define n where "n = (if int m > maxlen then maxlen else int m)"
  have n: "n = min maxlen (int (length d))" "0 \<le> n" "n \<le> 512" using e assms(2) by (auto simp: n_def d_def)
  have "rdn (u_data ?e) 0 (nat n) = Some (take (nat maxlen) d)"
    using n e assms(2) by (auto simp: rdn_def d_def n_def min_def)
  then have "udp_recvfrom port maxlen q = Some (q[i := ?e\<lparr>u_used := False\<rparr>], n, take (nat maxlen) d, Some (u_src_ip ?e, u_src_port ?e))"
    unfolding udp_recvfrom_def Some option.case Let_def m_def [symmetric] n_def [symmetric] by simp
  moreover have "udp_inv (q[i := ?e\<lparr>u_used := False\<rparr>])"
    using assms(1) i by (auto simp: udp_inv_def list_all_length nth_list_update udp_entry_ok_def)
  moreover have "waiting q = add_mset (port, u_src_ip ?e, u_src_port ?e, d) (waiting (q[i := ?e\<lparr>u_used := False\<rparr>]))"
    using waiting_free [OF i(1,2)] i(3) by (simp add: dgram_def d_def m_def)
  ultimately show ?thesis using n(1) by blast
qed

section \<open>Incoming frames\<close>

text \<open>The payload of a frame, as \<open>udp_rx\<close> delimits it.\<close>

definition udp_offset :: "bytes \<Rightarrow> int" where
  "udp_offset frame = 14 + int (unat (frame ! 14 AND 0x0F)) * 4"

definition udp_payload_len :: "bytes \<Rightarrow> int \<Rightarrow> int" where
  "udp_payload_len frame len =
     min (max 0 (int (unat (be16 (frame ! nat (udp_offset frame + 4)) (frame ! nat (udp_offset frame + 5)))) - 8))
       (len - udp_offset frame - 8)"

lemma udp_offset_nonneg: "14 \<le> udp_offset frame"
  by (simp add: udp_offset_def)

lemma udp_rx_eq:
  assumes "42 \<le> len" "udp_offset frame + 8 \<le> len" "len \<le> int (length frame)"
  shows "\<exists>sp dp ip. rd16be frame (udp_offset frame) = Some sp \<and> rd16be frame (udp_offset frame + 2) = Some dp \<and>
    rd_ip frame 26 = Some ip \<and> 0 \<le> udp_payload_len frame len \<and>
    udp_offset frame + 8 + udp_payload_len frame len \<le> len \<and>
    udp_rx q frame len = udp_rx_enqueue dp ip sp frame (udp_offset frame + 8) (udp_payload_len frame len) q"
proof -
  let ?o = "udp_offset frame"
  have o: "14 \<le> ?o" by (rule udp_offset_nonneg)
  obtain sp dp ul ip where r: "rd16be frame ?o = Some sp" "rd16be frame (?o + 2) = Some dp"
    "rd16be frame (?o + 4) = Some ul" "rd_ip frame 26 = Some ip"
    using o assms by (simp add: buf_simps)
  have ul: "ul = be16 (frame ! nat (?o + 4)) (frame ! nat (?o + 5))" using r(3) o assms by (simp add: buf_simps add.commute)
  define k where "k = udp_payload_len frame len"
  have k: "(if ?o + 8 + (if int (unat ul) - 8 < 0 then 0 else int (unat ul) - 8) > len then len - ?o - 8
      else (if int (unat ul) - 8 < 0 then 0 else int (unat ul) - 8)) = k" "0 \<le> k" "?o + 8 + k \<le> len"
    using assms(2) by (auto simp: udp_payload_len_def ul k_def)
  have v: "rd frame 14 = Some (frame ! 14)" using assms by (simp add: rd_def)
  have "udp_rx q frame len = udp_rx_enqueue dp ip sp frame (?o + 8) k q"
    unfolding udp_rx_def v using assms(1,2) r
    by (simp only: Let_def bind.bind_lunit udp_offset_def [symmetric] k(1)) simp
  then show ?thesis using r k unfolding k_def by blast
qed

lemma udp_rx_spec:
  assumes "udp_inv q" "len \<le> int (length frame)"
  shows "\<exists>q'. udp_rx q frame len = Some q' \<and> udp_inv q'"
proof (cases "42 \<le> len \<and> udp_offset frame + 8 \<le> len")
  case True
  obtain sp dp ip where r: "0 \<le> udp_payload_len frame len" "udp_offset frame + 8 + udp_payload_len frame len \<le> len"
    "udp_rx q frame len = udp_rx_enqueue dp ip sp frame (udp_offset frame + 8) (udp_payload_len frame len) q"
    using udp_rx_eq [of len frame q] True assms(2) by blast
  let ?k = "nat (min (udp_payload_len frame len) 512)"
  have "rdn frame (udp_offset frame + 8) ?k = Some (take ?k (drop (nat (udp_offset frame + 8)) frame))"
    using r assms(2) udp_offset_nonneg [of frame] by (intro rdn_Some) auto
  then show ?thesis
    using udp_rx_enqueue_spec [of q frame "udp_offset frame + 8" "udp_payload_len frame len" _ dp ip sp] r assms(1)
    by (fastforce simp: udp_inv_def)
next
  case False
  show ?thesis
  proof (cases "len < 42")
    case False
    then have "len < udp_offset frame + 8" "rd frame 14 = Some (frame ! 14)"
      using \<open>\<not> (42 \<le> len \<and> udp_offset frame + 8 \<le> len)\<close> assms(2) by (auto simp: rd_def)
    then show ?thesis using assms(1) False by (simp add: udp_rx_def udp_offset_def)
  qed (use assms(1) in \<open>simp add: udp_rx_def\<close>)
qed

lemma udp_boot_inv: "udp_inv udp_boot"
  by (simp add: udp_inv_def udp_boot_def list_all_iff udp_entry_ok_def UDP_PKT_MAX_def)

lemma waiting_boot [simp]: "waiting udp_boot = {#}"
  by (simp add: waiting_def udp_boot_def)

lemma udp_init_spec: "udp_inv q \<Longrightarrow> udp_inv (udp_init q) \<and> waiting (udp_init q) = {#}"
  by (auto simp: udp_inv_def udp_init_def waiting_def list_all_length udp_entry_ok_def)

section \<open>Properties\<close>

text \<open>
  The receive queue is a bag of datagrams keyed by port: \<open>udp_recvfrom\<close> either removes
  exactly one waiting datagram for its port and returns that datagram's sender, its bytes
  cut to the caller's buffer and their count, or leaves the queue as it is because no
  datagram for the port is waiting.
\<close>

theorem udp_recvfrom_correct:
  assumes "udp_inv q" "0 \<le> maxlen"
  shows "(\<exists>q' n d ip sp. udp_recvfrom port maxlen q = Some (q', n, take (nat maxlen) d, Some (ip, sp)) \<and> udp_inv q' \<and>
      n = min maxlen (int (length d)) \<and> waiting q = add_mset (port, ip, sp, d) (waiting q'))
    \<or> udp_recvfrom port maxlen q = Some (q, 0, [], None) \<and> (\<forall>g \<in># waiting q. fst g \<noteq> port)"
  using assms by (rule udp_recvfrom_spec)

theorem udp_recvfrom_correct_witness:
  "(\<exists>q' n d ip sp. udp_recvfrom 53 512 udp_boot = Some (q', n, take (nat 512) d, Some (ip, sp)) \<and> udp_inv q' \<and>
      n = min 512 (int (length d)) \<and> waiting udp_boot = add_mset (53, ip, sp, d) (waiting q'))
    \<or> udp_recvfrom 53 512 udp_boot = Some (udp_boot, 0, [], None) \<and> (\<forall>g \<in># waiting udp_boot. fst g \<noteq> 53)"
  by (rule udp_recvfrom_correct [OF udp_boot_inv]) simp

text \<open>
  Datagrams of one port can be delivered out of the order they arrived in. When the first
  slot is free while an older datagram waits in a later one, the next arrival is stored in
  the first slot and \<open>udp_recvfrom\<close> returns it before the older datagram.
\<close>

theorem udp_reorders:
  assumes "udp_inv q" "\<not> u_used (q ! 0)" "u_used (q ! Suc i)" "u_dst_port (q ! Suc i) = port" "Suc i < length q"
    and "rdn frame off (nat len) = Some d" "0 \<le> len" "len \<le> 512"
  shows "\<exists>q' q''. udp_rx_enqueue port ip sp frame off len q = Some q' \<and> q' ! Suc i = q ! Suc i \<and>
    udp_recvfrom port 512 q' = Some (q'', len, d, Some (ip, sp)) \<and> q'' ! Suc i = q ! Suc i"
proof -
  obtain e r where q: "q = e # r" using assms(5) by (cases q) auto
  have n: "length d = nat len" using assms(6) by (rule rdn_length)
  have "length (u_data e) = 512" using assms(1) by (simp add: q udp_inv_def udp_entry_ok_def)
  then have "0 + int (length d) \<le> int (length (u_data e))" using n assms(8) by simp
  then obtain data where w: "wrn (u_data e) 0 d = Some data" "length data = 512" and t: "take (length d) data = d"
    using wrn_ex [of 0 d "u_data e"] \<open>length (u_data e) = 512\<close> by (auto simp: wrn_def)
  let ?e = "\<lparr>u_used = True, u_dst_port = port, u_src_port = sp, u_src_ip = ip, u_data = data, u_len = of_int len\<rparr>"
  have "udp_rx_enqueue port ip sp frame off len q = Some (?e # r)"
    using assms(2,6,8) w by (simp add: q UDP_PKT_MAX_def)
  moreover have u: "uint (of_int len :: u16) = len"
    using assms(7,8) by (simp add: take_bit_int_eq_self uint_word_of_int_eq)
  have "udp_recvfrom port 512 (?e # r) = Some (?e\<lparr>u_used := False\<rparr> # r, len, d, Some (ip, sp))"
    using assms(7,8) n t w(2) by (simp add: udp_recvfrom_def u rdn_def Let_def)
  ultimately show ?thesis by (auto simp: q)
qed

definition one_waiting :: udp_queue where
  "one_waiting = udp_boot[1 := (udp_boot ! 1)\<lparr>u_used := True, u_dst_port := 53\<rparr>]"

theorem udp_reorders_witness:
  "\<exists>q' q''. udp_rx_enqueue 53 (10, 0, 0, 9) 1234 [65, 66] 0 2 one_waiting = Some q' \<and> q' ! Suc 0 = one_waiting ! Suc 0 \<and>
    udp_recvfrom 53 512 q' = Some (q'', 2, [65, 66], Some ((10, 0, 0, 9), 1234)) \<and> q'' ! Suc 0 = one_waiting ! Suc 0"
  by (rule udp_reorders)
     (simp_all add: udp_inv_def udp_entry_ok_def one_waiting_def udp_boot_def UDP_RXQUEUE_SIZE_def UDP_PKT_MAX_def rdn_def numeral_eq_Suc)

end
