(* ===== verification/Tcpip.thy ===== *)
theory Tcpip
  imports Dhcp Tcp Udp
begin

text \<open>
  The stack put together: the EtherType dispatcher of net/tcpip.c, \<open>ipv4_input\<close> of
  net/ipv4.c, the IPv6 stub of net/ipv6.c, and the two operations that drive the whole
  receive path while they wait, \<open>arp_resolve_blocking\<close> of net/arp.c and \<open>udp_send\<close> of
  net/udp.c. The static variables of all modules are the record \<open>net\<close>. A blocking wait takes
  the answers of the clock and of the receive ring as an explicit list.
\<close>

section \<open>State\<close>

record net =
  g_genet_mac :: mac6
  n_dhcp :: dhcp_state
  n_arp :: arp_state
  n_pkt :: bytes
  n_tcp :: tcp_stack
  n_udp :: udp_queue

definition net_env_of :: "net \<Rightarrow> net_env" where
  "net_env_of n = \<lparr>ne_mac = g_genet_mac n, ne_ip = g_our_ip (n_dhcp n), ne_netmask = dhcp_get_netmask (n_dhcp n),
     ne_gateway = dhcp_get_gateway (n_dhcp n), ne_arp = n_arp n\<rparr>"

definition net_boot :: "mac6 \<Rightarrow> net" where
  "net_boot mac = \<lparr>g_genet_mac = mac, n_dhcp = dhcp_boot, n_arp = arp_boot, n_pkt = replicate 1514 0,
     n_tcp = tcp_boot, n_udp = udp_boot\<rparr>"

definition tcpip_init :: "net \<Rightarrow> net" where
  "tcpip_init n = n\<lparr>n_arp := arp_init (n_arp n), n_tcp := tcp_init (n_tcp n), n_udp := udp_init (n_udp n)\<rparr>"

section \<open>The receive path\<close>

definition ipv4_input :: "net \<Rightarrow> bytes \<Rightarrow> int \<Rightarrow> (net \<times> bytes list) option" where
  "ipv4_input n frame len =
     (if len < 34 then Some (n, [])
      else do {
        vihl \<leftarrow> rd frame 14;
        if drop_bit 4 vihl \<noteq> 4 then Some (n, []) else do {
        let ihl = int (unat (vihl AND 0x0F)) * 4;
        if ihl < 20 \<or> len < 14 + ihl then Some (n, []) else do {
        proto \<leftarrow> rd frame 23;
        if proto = 0x01 then do {
          (pkt, out) \<leftarrow> icmp_input (g_genet_mac n) (g_our_ip (n_dhcp n)) (n_pkt n) frame len ihl;
          Some (n\<lparr>n_pkt := pkt\<rparr>, out)
        } else if proto = 0x06 then do {
          (tcp, out) \<leftarrow> tcp_rx (net_env_of n) (n_tcp n) frame len;
          Some (n\<lparr>n_tcp := tcp\<rparr>, out)
        } else if proto = 0x11 then do {
          udp \<leftarrow> udp_rx (n_udp n) frame len;
          Some (n\<lparr>n_udp := udp\<rparr>, [])
        } else Some (n, [])
        }}})"

definition ipv6_input :: "net \<Rightarrow> bytes \<Rightarrow> int \<Rightarrow> (net \<times> bytes list) option" where
  "ipv6_input n frame len = Some (n, [])"

definition net_rx_frame :: "net \<Rightarrow> bytes \<Rightarrow> int \<Rightarrow> (net \<times> bytes list) option" where
  "net_rx_frame n frame len =
     (if len < 14 then Some (n, [])
      else do {
        etype \<leftarrow> rd16be frame 12;
        if etype = 0x0806 then
          (if 42 \<le> len then do {
             (arp, out) \<leftarrow> arp_input (g_genet_mac n) (g_our_ip (n_dhcp n)) (n_arp n) frame len;
             Some (n\<lparr>n_arp := arp\<rparr>, out)
           } else Some (n, []))
        else if etype = 0x0800 then (if 34 \<le> len then ipv4_input n frame len else Some (n, []))
        else if etype = 0x86DD then (if 54 \<le> len then ipv6_input n frame len else Some (n, []))
        else Some (n, [])
      })"

section \<open>Blocking resolution and UDP output\<close>

text \<open>One iteration of the wait: the reading of the counter and the frame the ring delivered.\<close>

record arp_poll =
  ap_now :: u64
  ap_rx :: bytes

text \<open>
  The loop. The result is \<open>Some (Some mac)\<close> for a return of 1, \<open>Some None\<close> for a return of 0,
  and \<open>None\<close> while it is still waiting when the list ends.
\<close>

fun arp_poll_loop ::
  "ip4 \<Rightarrow> u32 \<Rightarrow> u64 \<Rightarrow> u64 \<Rightarrow> bytes \<Rightarrow> net \<Rightarrow> arp_poll list \<Rightarrow> (net \<times> bytes list \<times> mac6 option option) option" where
  "arp_poll_loop ip timeout_ms freq t0 s_rx_buf n [] = Some (n, [], None)"
| "arp_poll_loop ip timeout_ms freq t0 s_rx_buf n (i # is) =
     (if (ap_now i - t0) * 1000 \<ge> ucast timeout_ms * freq then Some (n, [], Some None)
      else do {
        s_rx_buf \<leftarrow> wrn s_rx_buf 0 (ap_rx i);
        (n, out) \<leftarrow> (if ap_rx i \<noteq> [] then net_rx_frame n s_rx_buf (int (length (ap_rx i))) else Some (n, []));
        case arp_resolve (n_arp n) ip of Some mac \<Rightarrow> Some (n, out, Some (Some mac))
        | None \<Rightarrow> do {
            (n, out', r) \<leftarrow> arp_poll_loop ip timeout_ms freq t0 s_rx_buf n is;
            Some (n, out @ out', r)
          }
      })"

definition arp_resolve_blocking ::
  "ip4 \<Rightarrow> u32 \<Rightarrow> u64 \<Rightarrow> u64 \<Rightarrow> bytes \<Rightarrow> net \<Rightarrow> arp_poll list \<Rightarrow> (net \<times> bytes list \<times> mac6 option option) option" where
  "arp_resolve_blocking ip timeout_ms freq t0 s_rx_buf n polls =
     (case arp_resolve (n_arp n) ip of Some mac \<Rightarrow> Some (n, [], Some (Some mac))
      | None \<Rightarrow> do {
          let req = arp_send_request (g_genet_mac n) (g_our_ip (n_dhcp n)) ip;
          (n, out, r) \<leftarrow> arp_poll_loop ip timeout_ms freq t0 s_rx_buf n polls;
          Some (n, req # out, r)
        })"

definition udp_output :: "net \<Rightarrow> mac6 \<Rightarrow> ip4 \<Rightarrow> u16 \<Rightarrow> u16 \<Rightarrow> bytes \<Rightarrow> int \<Rightarrow> bytes list option" where
  "udp_output n mac dst_ip dst_port src_port data len = do {
     d \<leftarrow> rdn data 0 (nat len);
     ipv4_output (g_genet_mac n) (g_our_ip (n_dhcp n)) mac dst_ip 0x11 (udp_segment src_port dst_port d) (8 + len)
   }"

text \<open>
  The waits for the destination and, after a timeout, for the gateway have a counter start
  and a list of polls each. The flag says whether the call has returned.
\<close>

definition udp_send ::
  "u64 \<Rightarrow> u64 \<times> arp_poll list \<Rightarrow> u64 \<times> arp_poll list \<Rightarrow> bytes \<Rightarrow> net \<Rightarrow> ip4 \<Rightarrow> u16 \<Rightarrow> u16 \<Rightarrow> bytes \<Rightarrow> int \<Rightarrow>
   (net \<times> bytes list \<times> bool) option" where
  "udp_send freq wait1 wait2 s_rx_buf n dst_ip dst_port src_port data len =
     (if len < 0 \<or> len > 1464 then Some (n, [], True)
      else do {
        (n, f1, r1) \<leftarrow> arp_resolve_blocking dst_ip 1000 freq (fst wait1) s_rx_buf n (snd wait1);
        case r1 of None \<Rightarrow> Some (n, f1, False)
        | Some (Some mac) \<Rightarrow> do {
            out \<leftarrow> udp_output n mac dst_ip dst_port src_port data len;
            Some (n, f1 @ out, True)
          }
        | Some None \<Rightarrow> do {
            (n, f2, r2) \<leftarrow> arp_resolve_blocking (dhcp_get_gateway (n_dhcp n)) 1000 freq (fst wait2) s_rx_buf n (snd wait2);
            case r2 of None \<Rightarrow> Some (n, f1 @ f2, False)
            | Some None \<Rightarrow> Some (n, f1 @ f2, True)
            | Some (Some mac) \<Rightarrow> do {
                out \<leftarrow> udp_output n mac dst_ip dst_port src_port data len;
                Some (n, f1 @ f2 @ out, True)
              }
          }
      })"

section \<open>Memory safety of the receive path\<close>

definition net_inv :: "net \<Rightarrow> bool" where
  "net_inv n \<longleftrightarrow> arp_inv (n_arp n) \<and> length (n_pkt n) = 1514 \<and> tcp_inv (n_tcp n) \<and> udp_inv (n_udp n)"

text \<open>The ICMP handler is safe when the total length of the IP header fits the packet buffer.\<close>

lemma ip_checksum_len_safe:
  assumes "0 \<le> off" "1 \<le> off + len" "off + len \<le> int (length buf)"
  shows "\<exists>ck. ip_checksum buf off len = Some ck"
proof (cases "0 \<le> len")
  case True
  have "do { ck \<leftarrow> ip_sum buf off len 0 0;
      (if odd len then do { x \<leftarrow> rd buf (off + len - 1); Some (ck + push_bit 8 (ucast x)) } else Some ck) }
    = Some (0 + of_nat (words16 (take (nat len) (drop (nat off) buf))))"
    by (rule ip_sum_words16 [OF assms(1) True assms(3)])
  then show ?thesis unfolding ip_checksum_def bind_assoc [symmetric] by simp
next
  case False
  then have "ip_sum buf off len 0 0 = Some 0" by (simp add: ip_sum.simps)
  moreover have "\<exists>x. rd buf (off + len - 1) = Some x" using assms False by (simp add: rd_def)
  ultimately show ?thesis by (auto simp: ip_checksum_def)
qed

lemma icmp_input_safe:
  assumes "length pkt = 1514" "34 \<le> flen" "flen \<le> int (length frame)" "20 \<le> ihl" "ihl \<le> 60"
    and "rd16be frame 16 = Some tlen" "unat tlen \<le> 1500"
  shows "safely (\<lambda>r. length (fst r) = 1514) (icmp_input mac ip pkt frame flen ihl)"
proof (cases "flen < 14 + ihl + 8")
  case True
  then show ?thesis using assms(1) by (simp add: icmp_input_def safely_def)
next
  case False
  define total where "total = int (unat tlen)"
  define n where "n = (if 14 + total > flen then flen else 14 + total)"
  have "0 \<le> total" "total \<le> 1500" using assms(7) by (simp_all add: total_def del: of_nat_unat)
  then have n: "0 \<le> n" "n \<le> flen" "n \<le> 1514" "0 \<le> total" "total \<le> 1500"
    using assms(2) by (auto simp: n_def)
  have ck: "\<exists>c. ip_checksum b 14 ihl = Some c" "\<exists>c. ip_checksum b (14 + ihl) (total - ihl) = Some c"
    if "length b = 1514" for b
    using that assms(4,5) n by (auto intro!: ip_checksum_len_safe)
  have cks: "safely P (Option.bind (ip_checksum b 14 ihl) f)"
    "safely P (Option.bind (ip_checksum b (14 + ihl) (total - ihl)) f)"
    if "length b = 1514" "\<And>c. safely P (f c)" for b f and P :: "bytes \<times> bytes list \<Rightarrow> bool"
    using ck [OF that(1)] that(2) by auto
  have dst: "\<exists>d. rd_ip frame 30 = Some d" using assms(2,3) by (simp add: rd_ip_Some)
  then obtain d where d: "rd_ip frame 30 = Some d" ..
  show ?thesis
    unfolding icmp_input_def Let_def d bind.bind_lunit assms(6) total_def [symmetric] n_def [symmetric]
    using False assms(1-5) n
    by (auto intro!: safe_intros cks)
qed

text \<open>What one frame may change: the protocols' own state, and at most one new ARP slot.\<close>

definition net_ok :: "net \<Rightarrow> net \<times> bytes list \<Rightarrow> bool" where
  "net_ok n r \<longleftrightarrow> net_inv (fst r) \<and> s_next_slot (n_arp (fst r)) \<le> s_next_slot (n_arp n) + 1"

lemma net_ok_same: "net_inv n \<Longrightarrow> net_ok n (n, out)"
  by (simp add: net_ok_def)

lemma ihl_le: "int (unat ((v :: u8) AND 0x0F)) * 4 \<le> 60"
proof -
  have "v AND 0x0F \<le> 0x0F" by (rule word_and_le1)
  then have "unat (v AND 0x0F) \<le> 15" by (simp add: word_le_nat_alt)
  then show ?thesis by (simp del: of_nat_unat)
qed

lemma ipv4_input_safe:
  assumes "net_inv n" "len \<le> int (length frame)" "rd16be frame 16 = Some tlen" "unat tlen \<le> 1500"
  shows "safely (net_ok n) (ipv4_input n frame len)"
proof (cases "len < 34")
  case True
  then show ?thesis using assms(1) by (simp add: ipv4_input_def safely_def net_ok_same)
next
  case False
  define v where "v = frame ! 14"
  define ihl where "ihl = int (unat (v AND 0x0F)) * 4"
  have v: "rd frame 14 = Some v" "rd frame 23 = Some (frame ! 23)" using False assms(2) by (simp_all add: rd_def v_def)
  have icmp: "safely (net_ok n) (do { (pkt, out) \<leftarrow> icmp_input (g_genet_mac n) (g_our_ip (n_dhcp n)) (n_pkt n) frame len ihl;
      Some (n\<lparr>n_pkt := pkt\<rparr>, out) })" if "\<not> ihl < 20"
    using icmp_input_safe [of "n_pkt n" len frame ihl tlen "g_genet_mac n" "g_our_ip (n_dhcp n)"] that False assms ihl_le [of v]
    by (auto simp: safely_def net_ok_def net_inv_def ihl_def)
  have tcp: "safely (net_ok n) (do { (tcp, out) \<leftarrow> tcp_rx (net_env_of n) (n_tcp n) frame len; Some (n\<lparr>n_tcp := tcp\<rparr>, out) })"
    using tcp_rx_ok [of "n_tcp n" len frame "net_env_of n"] assms(1,2) by (auto simp: safely_def net_ok_def net_inv_def)
  have udp: "safely (net_ok n) (do { udp \<leftarrow> udp_rx (n_udp n) frame len; Some (n\<lparr>n_udp := udp\<rparr>, []) })"
    using udp_rx_spec [of "n_udp n" len frame] assms(1,2) by (auto simp: safely_def net_ok_def net_inv_def)
  show ?thesis
    unfolding ipv4_input_def v bind.bind_lunit Let_def ihl_def [symmetric]
    using icmp tcp udp False assms(1) by (simp add: safely_Some net_ok_same)
qed

text \<open>A frame in a buffer of at least its length, whose IP header (if any) does not lie about its length.\<close>

definition frame_ok :: "bytes \<times> int \<Rightarrow> bool" where
  "frame_ok f \<longleftrightarrow> snd f \<le> int (length (fst f)) \<and>
     (rd16be (fst f) 12 = Some 0x0800 \<longrightarrow>
        (case rd16be (fst f) 16 of Some tlen \<Rightarrow> unat tlen \<le> 1500 | None \<Rightarrow> True))"

lemma net_rx_frame_safe:
  assumes "net_inv n" "s_next_slot (n_arp n) < 2147483647" "frame_ok (frame, len)"
  shows "safely (net_ok n) (net_rx_frame n frame len)"
proof (cases "len < 14")
  case True
  then show ?thesis using assms(1) by (simp add: net_rx_frame_def safely_def net_ok_same)
next
  case False
  have l: "len \<le> int (length frame)" using assms(3) by (simp add: frame_ok_def)
  obtain et where et: "rd16be frame 12 = Some et" using False l by (simp add: rd16be_Some)
  have arp: "safely (net_ok n) (do { (arp, out) \<leftarrow> arp_input (g_genet_mac n) (g_our_ip (n_dhcp n)) (n_arp n) frame len;
      Some (n\<lparr>n_arp := arp\<rparr>, out) })"
  proof -
    have i: "arp_inv (n_arp n)" using assms(1) by (simp add: net_inv_def)
    obtain arp out where a: "arp_input (g_genet_mac n) (g_our_ip (n_dhcp n)) (n_arp n) frame len = Some (arp, out)"
      using arp_input_safe [OF i assms(2) l] by (metis surj_pair)
    then show ?thesis
      using arp_input_inv [OF i a] arp_input_slot [OF a] assms(1) by (simp add: safely_def net_ok_def net_inv_def)
  qed
  have ip: "safely (net_ok n) (ipv4_input n frame len)" if len34: "34 \<le> len" and "et = 0x0800"
  proof -
    obtain t where t: "rd16be frame 16 = Some t" using len34 l by (simp add: rd16be_Some)
    then show ?thesis using ipv4_input_safe [OF assms(1) l t] assms(3) et that(2) by (simp add: frame_ok_def)
  qed
  show ?thesis
    unfolding net_rx_frame_def et bind.bind_lunit
    using arp ip False assms(1) by (simp add: ipv6_input_def safely_Some net_ok_same)
qed

definition net_step :: "net \<Rightarrow> bytes \<times> int \<Rightarrow> net option" where
  "net_step n f = map_option fst (net_rx_frame n (fst f) (snd f))"

lemma net_run_safe_aux:
  assumes "net_inv n" "list_all frame_ok fs" "s_next_slot (n_arp n) + int (length fs) \<le> 2147483647"
  shows "\<exists>n'. run_events net_step n fs = Some n' \<and> net_inv n'"
  using assms
proof (induction fs arbitrary: n)
  case (Cons f fs)
  have "safely (net_ok n) (net_rx_frame n (fst f) (snd f))"
    using Cons.prems by (intro net_rx_frame_safe) auto
  then obtain m out where m: "net_rx_frame n (fst f) (snd f) = Some (m, out)" "net_ok n (m, out)"
    by (auto simp: safely_def)
  have "\<exists>n'. run_events net_step m fs = Some n' \<and> net_inv n'"
    using Cons.prems m(2) by (intro Cons.IH) (auto simp: net_ok_def)
  moreover have "net_step n f = Some m" using m(1) by (simp add: net_step_def)
  ultimately show ?case by simp
qed simp

lemma net_boot_inv: "net_inv (tcpip_init (net_boot mac))"
proof -
  have "tcp_inv (tcp_init tcp_boot)"
    using tcp_boot_inv by (intro tcp_init_inv) (auto simp: tcp_inv_def conn_inv_def list_all_length)
  then show ?thesis
    using udp_init_spec [OF udp_boot_inv]
    by (simp add: net_inv_def tcpip_init_def net_boot_def arp_init_inv arp_boot_def)
qed

lemma net_boot_slot: "s_next_slot (n_arp (tcpip_init (net_boot mac))) = 0"
  by (simp add: tcpip_init_def net_boot_def arp_init_def)

section \<open>Datagrams from host to host\<close>

lemma udp_frame_fields:
  fixes m ip dm dip ick sp dp d rest
  defines "f \<equiv> ipv4_header m ip dm dip 0x11 (28 + int (length d)) ick @ udp_segment sp dp d @ rest"
  shows "rd16be f 12 = Some 0x0800" "rd f 14 = Some 0x45" "rd f 23 = Some 0x11" "rd_ip f 26 = Some ip"
    "rd16be f 34 = Some sp" "rd16be f 36 = Some dp" "udp_offset f = 34" "length f = 42 + length d + length rest"
    "length d \<le> 1464 \<Longrightarrow> udp_payload_len f (42 + int (length d)) = int (length d)"
    "rdn f 42 (length d) = Some d"
proof -
  have s: "udp_segment sp dp d @ rest = hi8 sp # lo8 sp # hi8 dp # lo8 dp # hi8 (of_nat (8 + length d)) #
      lo8 (of_nat (8 + length d)) # 0 # 0 # d @ rest" by (simp add: udp_segment_def be16_bytes_def)
  show "rd16be f 12 = Some 0x0800" "rd f 14 = Some 0x45" "rd f 23 = Some 0x11" "rd_ip f 26 = Some ip"
    by (simp_all add: f_def ipv4_header_fields)
  show o: "udp_offset f = 34" by (simp add: f_def udp_offset_def nth_append) (cases m; cases dm; simp add: ipv4_header_def)
  show l: "length f = 42 + length d + length rest" by (simp add: f_def s)
  show "rd16be f 34 = Some sp" "rd16be f 36 = Some dp"
    using l by (simp_all add: rd16be_Some) (simp_all add: f_def s nth_append)
  show "rdn f 42 (length d) = Some d" using l by (simp add: rdn_def) (simp add: f_def s)
  show "udp_payload_len f (42 + int (length d)) = int (length d)" if "length d \<le> 1464"
  proof -
    have "be16 (f ! 38) (f ! 39) = of_nat (8 + length d)"
      by (simp add: f_def s nth_append del: of_nat_add)
    moreover have "unat (of_nat (8 + length d) :: u16) = 8 + length d"
      using that by (simp only: unat_of_nat) simp
    ultimately have "int (unat (be16 (f ! 38) (f ! 39))) = 8 + int (length d)" by simp
    then show ?thesis unfolding udp_payload_len_def o by simp
  qed
qed

text \<open>A UDP frame reaches the queue of the receiving host.\<close>

lemma udp_frame_received:
  fixes m ip dm dip ick sp dp d rest
  assumes "udp_inv (n_udp b)" "\<not> list_all u_used (n_udp b)" "length d \<le> 512"
  defines "f \<equiv> ipv4_header m ip dm dip 0x11 (28 + int (length d)) ick @ udp_segment sp dp d @ rest"
  shows "\<exists>q. net_rx_frame b f (42 + int (length d)) = Some (b\<lparr>n_udp := q\<rparr>, []) \<and> udp_inv q \<and>
    waiting q = add_mset (dp, ip, sp, d) (waiting (n_udp b))"
proof -
  note fields = udp_frame_fields [where m = m and ip = ip and dm = dm and dip = dip and d = d and ick = ick and sp = sp
      and dp = dp and rest = rest, folded f_def]
  let ?n = "42 + int (length d)"
  have len: "length d \<le> 1464" using assms(3) by simp
  obtain sp' dp' ip' where r: "rd16be f (udp_offset f) = Some sp'" "rd16be f (udp_offset f + 2) = Some dp'"
    "rd_ip f 26 = Some ip'" "udp_rx (n_udp b) f ?n =
      udp_rx_enqueue dp' ip' sp' f (udp_offset f + 8) (udp_payload_len f ?n) (n_udp b)"
    using udp_rx_eq [of ?n f "n_udp b"] fields(7,8) by auto
  have same: "sp' = sp" "dp' = dp" "ip' = ip" using r(1-3) fields(4-7) by auto
  have "min (int (length d)) 512 = int (length d)" using assms(3) by simp
  then have "rdn f 42 (nat (min (int (length d)) 512)) = Some d" using fields(10) by (simp only: nat_int)
  then obtain q where q: "udp_rx_enqueue dp ip sp f 42 (int (length d)) (n_udp b) = Some q" "length q = length (n_udp b)"
    "list_all udp_entry_ok q" "waiting q = add_mset (dp, ip, sp, d) (waiting (n_udp b))"
    using udp_rx_enqueue_spec [of "n_udp b" f 42 "int (length d)" d dp ip sp] assms(1,2)
    by (auto simp: udp_inv_def)
  have "udp_rx (n_udp b) f ?n = Some q" using r(4) q(1) same fields(7) fields(9) [OF len] by simp
  moreover have "udp_inv q" using q(2,3) assms(1) by (simp add: udp_inv_def)
  moreover have "net_rx_frame b f ?n = (do { udp \<leftarrow> udp_rx (n_udp b) f ?n; Some (b\<lparr>n_udp := udp\<rparr>, []) })"
    using fields(1,2,3,8) by (simp add: net_rx_frame_def ipv4_input_def)
  ultimately show ?thesis using q(4) by auto
qed

text \<open>The only datagram waiting on a port is the one received.\<close>

lemma udp_recv_only:
  assumes "udp_inv q" "waiting q = add_mset (dp, ip, sp, d) w" "\<forall>g \<in># w. fst g \<noteq> dp" "length d \<le> 512"
  shows "\<exists>q'. udp_recvfrom dp 512 q = Some (q', int (length d), d, Some (ip, sp))"
proof -
  obtain q' n d' ip' sp' where r: "udp_recvfrom dp 512 q = Some (q', n, take (nat 512) d', Some (ip', sp'))"
    "n = min 512 (int (length d'))" "waiting q = add_mset (dp, ip', sp', d') (waiting q')"
    using udp_recvfrom_spec [OF assms(1), of 512 dp] assms(2) by force
  have "(dp, ip', sp', d') = (dp, ip, sp, d)"
    using r(3) assms(2,3) by (auto simp: add_eq_conv_ex)
  then show ?thesis using r(1,2) assms(4) by simp
qed

lemma udp_output_eq:
  assumes "0 \<le> len" "len \<le> 1464" "len \<le> int (length data)"
  shows "\<exists>ick. udp_output n mac dip dp sp data len = Some [ipv4_header (g_genet_mac n) (g_our_ip (n_dhcp n)) mac dip 0x11
      (28 + int (length (take (nat len) data))) ick @ udp_segment sp dp (take (nat len) data)]"
proof -
  have r: "rdn data 0 (nat len) = Some (take (nat len) data)" using assms by (simp add: rdn_def)
  have l: "int (length (udp_segment sp dp (take (nat len) data))) = 8 + len" "int (length (take (nat len) data)) = len"
    using assms by (simp_all add: udp_segment_def)
  have "nat (8 + len) = length (udp_segment sp dp (take (nat len) data))" using l by linarith
  then show ?thesis
    using ipv4_output_eq [where n = "8 + len" and payload = "udp_segment sp dp (take (nat len) data)" and m = "g_genet_mac n"
        and p = "g_our_ip (n_dhcp n)" and dm = mac and dp = dip and pr = "0x11"]
      assms l r by (auto simp: udp_output_def)
qed

section \<open>Properties\<close>



text \<open>
  C6. A datagram sent by one host is received by another. With the destination's MAC address
  in the sender's ARP table, \<open>udp_send\<close> returns after emitting one frame; the receiving
  host's dispatcher accepts that frame and sends nothing; and \<open>udp_recvfrom\<close> on the
  destination port then returns exactly the bytes sent, their number, and the sender's
  address and port, provided a slot was free and nothing else waited on that port.
\<close>

theorem udp_delivery:
  assumes "arp_resolve (n_arp a) dip = Some mac" "0 \<le> len" "len \<le> 512" "len \<le> int (length data)"
    and "udp_inv (n_udp b)" "\<not> list_all u_used (n_udp b)" "udp_slot dp (n_udp b) = None"
  shows "\<exists>f b' q. udp_send freq w v buf a dip dp sp data len = Some (a, [f], True) \<and>
    net_rx_frame b f (int (length f)) = Some (b', []) \<and>
    udp_recvfrom dp 512 (n_udp b') = Some (q, len, take (nat len) data, Some (g_our_ip (n_dhcp a), sp))"
proof -
  define d where "d = take (nat len) data"
  have d: "int (length d) = len" "length d \<le> 512" using assms(2-4) by (auto simp: d_def)
  define ip where "ip = g_our_ip (n_dhcp a)"
  obtain ick where out: "udp_output a mac dip dp sp data len =
      Some [ipv4_header (g_genet_mac a) ip mac dip 0x11 (28 + int (length d)) ick @ udp_segment sp dp d]"
    using udp_output_eq [of len data a mac dip dp sp] assms(2-4) by (auto simp: d_def ip_def)
  let ?f = "ipv4_header (g_genet_mac a) ip mac dip 0x11 (28 + int (length d)) ick @ udp_segment sp dp d"
  have send: "udp_send freq w v buf a dip dp sp data len = Some (a, [?f], True)"
    using assms(1-3) out by (simp add: udp_send_def arp_resolve_blocking_def)
  have len: "int (length ?f) = 42 + int (length d)" by (simp add: udp_segment_def)
  obtain q where q: "net_rx_frame b ?f (int (length ?f)) = Some (b\<lparr>n_udp := q\<rparr>, [])" "udp_inv q"
    "waiting q = add_mset (dp, ip, sp, d) (waiting (n_udp b))"
    using udp_frame_received [OF assms(5,6) d(2), where rest = "[]"] unfolding append_Nil2 len by blast
  obtain q' where "udp_recvfrom dp 512 q = Some (q', int (length d), d, Some (ip, sp))"
    using udp_recv_only [OF q(2,3) waiting_Nil_slot [OF assms(7)] d(2)] by blast
  then show ?thesis using send q(1) d(1) unfolding ip_def d_def by fastforce
qed

definition host_a :: net where
  "host_a = (tcpip_init (net_boot (2, 0, 0, 0, 0, 1)))\<lparr>n_arp := ne_arp lan_env\<rparr>"

theorem udp_delivery_witness:
  "\<exists>f b' q. udp_send 54000000 (0, []) (0, []) [] host_a (10, 0, 0, 2) 53 49200 [104, 105] 2 = Some (host_a, [f], True) \<and>
    net_rx_frame (tcpip_init (net_boot (2, 0, 0, 0, 0, 2))) f (int (length f)) = Some (b', []) \<and>
    udp_recvfrom 53 512 (n_udp b') = Some (q, 2, take (nat 2) [104, 105], Some (g_our_ip (n_dhcp host_a), 49200))"
proof (rule udp_delivery)
  show "arp_resolve (n_arp host_a) (10, 0, 0, 2) = Some (2, 0, 0, 0, 0, 2)" by code_simp
  show "udp_inv (n_udp (tcpip_init (net_boot (2, 0, 0, 0, 0, 2))))"
    using net_boot_inv by (simp add: net_inv_def)
  show "\<not> list_all u_used (n_udp (tcpip_init (net_boot (2, 0, 0, 0, 0, 2))))"
    "udp_slot 53 (n_udp (tcpip_init (net_boot (2, 0, 0, 0, 0, 2)))) = None"
    by (simp_all add: tcpip_init_def net_boot_def udp_init_def udp_boot_def UDP_RXQUEUE_SIZE_def udp_slot_None list_all_iff)
qed simp_all

text \<open>
  The checksum routine of the DHCP client and the one of the IPv4 module are the same
  function of the bytes they sum.
\<close>

theorem checksums_agree:
  assumes "0 \<le> off" "0 \<le> n" "off + n \<le> int (length buf)" "n \<le> 65535"
  shows "ip_cksum buf off n = ip_checksum buf off n"
  using assms by (simp add: ip_cksum_rfc1071 ip_checksum_rfc1071)

theorem checksums_agree_witness: "ip_cksum [1, 2, 3] 0 3 = ip_checksum [1, 2, 3] 0 3"
  by (rule checksums_agree) simp_all

text \<open>Polls that deliver nothing before the deadline.\<close>

definition in_time :: "u32 \<Rightarrow> u64 \<Rightarrow> u64 \<Rightarrow> arp_poll \<Rightarrow> bool" where
  "in_time timeout_ms freq t0 i \<longleftrightarrow> (ap_now i - t0) * 1000 < ucast timeout_ms * freq"

lemma arp_poll_silent:
  assumes "list_all (\<lambda>i. in_time tmo freq t0 i \<and> ap_rx i = []) idle" "arp_resolve (n_arp n) ip = None"
  shows "arp_poll_loop ip tmo freq t0 buf n (idle @ rest) = arp_poll_loop ip tmo freq t0 buf n rest"
  using assms
proof (induction idle)
  case (Cons i idle)
  then show ?case
    by (simp add: in_time_def not_le wrn_def) (cases "arp_poll_loop ip tmo freq t0 buf n rest"; auto)
qed simp

text \<open>
  The blocking resolver. On a miss it broadcasts one request; if the owner of the address
  answers before the deadline, after any number of empty polls, it returns with the
  owner's MAC address, which is then in the table. If the deadline passes first it returns
  without one.
\<close>

theorem arp_resolve_blocking_correct:
  assumes "arp_inv (n_arp n)" "s_next_slot (n_arp n) < 2147483647" "arp_resolve (n_arp n) ip = None" "ip \<noteq> (0, 0, 0, 0)"
    and "list_all (\<lambda>i. in_time tmo freq t0 i \<and> ap_rx i = []) idle"
    and "in_time tmo freq t0 r" "ap_rx r = send_reply mac ip (g_genet_mac n) (g_our_ip (n_dhcp n))"
    and "length buf = GENET_MAX_FRAME" "\<not> in_time tmo freq t0 late"
  shows "(\<exists>n' req. arp_resolve_blocking ip tmo freq t0 buf n (idle @ r # rest) = Some (n', [req], Some (Some mac)) \<and>
      arp_resolve (n_arp n') ip = Some mac \<and> rd_ip req 38 = Some ip) \<and>
    (\<exists>req. arp_resolve_blocking ip tmo freq t0 buf n (idle @ late # rest) = Some (n, [req], Some None))"
proof -
  let ?f = "send_reply mac ip (g_genet_mac n) (g_our_ip (n_dhcp n))"
  obtain st where st: "table_update ip mac (n_arp n) = Some st" using table_update_safe [OF assms(1,2)] by blast
  have hit: "arp_resolve st ip = Some mac" using table_update_same [OF assms(1,4) st] .
  obtain buf' where b: "wrn buf 0 ?f = Some buf'" "length buf' = GENET_MAX_FRAME"
    using wrn_ex [of 0 ?f buf] assms(8) by (auto simp: buf_simps GENET_MAX_FRAME_def)
  have pre: "buf' = ?f @ drop 60 buf" using b(1) by (auto simp: wrn_def buf_simps split: if_splits)
  have "arp_input (g_genet_mac n) (g_our_ip (n_dhcp n)) (n_arp n) buf' 60 = Some (st, [])"
    unfolding pre using st by (cases mac; cases ip; cases "g_genet_mac n"; cases "g_our_ip (n_dhcp n)")
      (simp add: arp_input_def send_reply_def rd16be_def rd_mac_def rd_ip_def rd_def be16_def ARP_OP_REQUEST_def)
  moreover have "rd16be buf' 12 = Some 0x0806"
    unfolding pre by (cases mac; cases ip; cases "g_genet_mac n"; cases "g_our_ip (n_dhcp n)")
      (simp add: send_reply_def rd16be_def rd_def be16_def)
  ultimately have rx: "net_rx_frame n buf' 60 = Some (n\<lparr>n_arp := st\<rparr>, [])" by (simp add: net_rx_frame_def)
  have "arp_poll_loop ip tmo freq t0 buf n (r # rest) = Some (n\<lparr>n_arp := st\<rparr>, [], Some (Some mac))"
    using assms(6,7) b(1) rx hit reply_fields(1) [of mac ip "g_genet_mac n" "g_our_ip (n_dhcp n)"]
    by (auto simp: in_time_def not_le)
  then have "\<exists>n' req. arp_resolve_blocking ip tmo freq t0 buf n (idle @ r # rest) = Some (n', [req], Some (Some mac)) \<and>
      arp_resolve (n_arp n') ip = Some mac \<and> rd_ip req 38 = Some ip"
    using assms(3) hit arp_poll_silent [OF assms(5,3)]
    by (simp add: arp_resolve_blocking_def request_fields del: arp_poll_loop.simps)
  moreover have "\<exists>req. arp_resolve_blocking ip tmo freq t0 buf n (idle @ late # rest) = Some (n, [req], Some None)"
    using assms(3,9) arp_poll_silent [OF assms(5,3)] by (simp add: arp_resolve_blocking_def in_time_def not_less)
  ultimately show ?thesis ..
qed

theorem arp_resolve_blocking_correct_witness:
  "(\<exists>n' req. arp_resolve_blocking (10, 0, 0, 2) 1000 54000000 0 (replicate GENET_MAX_FRAME 0) (net_boot (2, 0, 0, 0, 0, 1))
        ([\<lparr>ap_now = 5, ap_rx = []\<rparr>] @ \<lparr>ap_now = 9, ap_rx = send_reply (2, 0, 0, 0, 0, 2) (10, 0, 0, 2) (2, 0, 0, 0, 0, 1) (0, 0, 0, 0)\<rparr> # [])
        = Some (n', [req], Some (Some (2, 0, 0, 0, 0, 2))) \<and>
      arp_resolve (n_arp n') (10, 0, 0, 2) = Some (2, 0, 0, 0, 0, 2) \<and> rd_ip req 38 = Some (10, 0, 0, 2)) \<and>
    (\<exists>req. arp_resolve_blocking (10, 0, 0, 2) 1000 54000000 0 (replicate GENET_MAX_FRAME 0) (net_boot (2, 0, 0, 0, 0, 1))
        ([\<lparr>ap_now = 5, ap_rx = []\<rparr>] @ \<lparr>ap_now = 60000000, ap_rx = []\<rparr> # [])
        = Some (net_boot (2, 0, 0, 0, 0, 1), [req], Some None))"
  by (rule arp_resolve_blocking_correct)
     (simp_all add: net_boot_def arp_boot_inv in_time_def dhcp_boot_def, simp_all add: arp_boot_def)

end
