(* ===== verification/Resolver.thy ===== *)
theory Resolver
  imports Tcpip
begin

text \<open>
  net/resolver_module.c: the DNS stub resolver. Names are the bytes before the terminating
  NUL. The static variables are the record \<open>resolver\<close>. The lookup drives the receive path of
  theory Tcpip while it waits; each of its three attempts takes the answers of the clock and
  of the receive ring as explicit lists.
\<close>

section \<open>Helpers\<close>

definition elapsed_ms :: "u64 \<Rightarrow> u64 \<Rightarrow> u64 \<Rightarrow> u32 \<Rightarrow> bool" where
  "elapsed_ms freq cntpct start_ticks ms \<longleftrightarrow> (cntpct - start_ticks) * 1000 \<ge> ucast ms * freq"

text \<open>One octet of \<open>res_putip\<close>, then the loop over the four.\<close>

definition octet_str :: "u8 \<Rightarrow> bytes" where
  "octet_str x =
     (let v = x;
          (s, v) = (if v \<ge> 100 then ([48 + v div 100], v mod 100) else ([], v));
          (s, v) = (if x \<ge> 10 then (s @ [48 + v div 10], v mod 10) else (s, v))
      in s @ [48 + v])"

fun res_putip :: "ip4 \<Rightarrow> bytes" where
  "res_putip (a, b, c, d) = octet_str a @ [46] @ octet_str b @ [46] @ octet_str c @ [46] @ octet_str d"

text \<open>
  The loop of \<open>parse_dotted_decimal\<close>: the octets stored so far, the one being read (\<open>-1\<close>
  before its first digit), and the count of dots. The result is the return value.
\<close>

fun pdd_loop :: "bytes \<Rightarrow> int \<Rightarrow> int \<Rightarrow> int \<Rightarrow> bytes \<Rightarrow> (bytes \<times> int) option" where
  "pdd_loop out i octet dots [] =
     (if dots \<noteq> 3 \<or> octet < 0 \<or> i \<noteq> 3 then Some (out, 0)
      else do { out \<leftarrow> wrn out 3 [of_int octet]; Some (out, 1) })"
| "pdd_loop out i octet dots (c # p) =
     (if 48 \<le> c \<and> c \<le> 57 then
        let octet = (if octet < 0 then 0 else octet) * 10 + (int (unat c) - 48)
        in if octet > 255 then Some (out, 0) else pdd_loop out i octet dots p
      else if c = 46 then
        (if octet < 0 \<or> i \<ge> 3 then Some (out, 0)
         else do { out \<leftarrow> wrn out i [of_int octet]; pdd_loop out (i + 1) (- 1) (dots + 1) p })
      else Some (out, 0))"

definition parse_dotted_decimal :: "bytes \<Rightarrow> bytes \<Rightarrow> (bytes \<times> int) option" where
  "parse_dotted_decimal s out = pdd_loop out 0 (- 1) 0 s"

section \<open>Queries\<close>

text \<open>The QNAME loop: the buffer, and the position after the last label or 0 on an error.\<close>

function dns_labels :: "bytes \<Rightarrow> int \<Rightarrow> int \<Rightarrow> bytes \<Rightarrow> (bytes \<times> int) option" where
  "dns_labels buf bufsz pos p =
     (if p = [] then Some (buf, pos)
      else let label = takeWhile (\<lambda>c. c \<noteq> 46) p;
               rest = dropWhile (\<lambda>c. c \<noteq> 46) p;
               label_len = int (length label)
        in if label_len = 0 \<or> label_len > 63 then Some (buf, 0)
           else if pos + 1 + label_len + 5 > bufsz then Some (buf, 0)
           else do {
             buf \<leftarrow> wrn buf pos (of_int label_len # label);
             dns_labels buf bufsz (pos + 1 + label_len) (drop 1 rest)
           })"
  by pat_completeness auto
termination
proof (relation "measure (\<lambda>(buf, bufsz, pos, p). length p)", simp, clarsimp)
  fix p :: bytes
  assume "takeWhile (\<lambda>c. c \<noteq> 46) p \<noteq> []"
  moreover have "length (takeWhile (\<lambda>c. c \<noteq> 46) p) + length (dropWhile (\<lambda>c. c \<noteq> 46) p) = length p"
    by (metis length_append takeWhile_dropWhile_id)
  ultimately show "length (dropWhile (\<lambda>c. c \<noteq> 46) p) - Suc 0 < length p"
    by (cases "takeWhile (\<lambda>c. c \<noteq> 46) p") auto
qed

declare dns_labels.simps [simp del]

definition build_dns_query :: "bytes \<Rightarrow> bytes \<Rightarrow> int \<Rightarrow> u16 \<Rightarrow> (bytes \<times> int) option" where
  "build_dns_query name buf bufsz txid =
     (if bufsz < 18 then Some (buf, 0)
      else do {
        buf \<leftarrow> wrn buf 0 [hi8 txid, lo8 txid, 0x01, 0x00, 0x00, 0x01, 0x00, 0x00, 0x00, 0x00, 0x00, 0x00];
        (buf, pos) \<leftarrow> dns_labels buf bufsz 12 name;
        if pos = 0 then Some (buf, 0)
        else do {
          buf \<leftarrow> wrn buf pos [0x00, 0x00, 0x01, 0x00, 0x01];
          Some (buf, pos + 5)
        }
      })"

section \<open>Responses\<close>

text \<open>The loop that skips a name: labels, ended by a zero byte or a compression pointer.\<close>

function skip_name :: "bytes \<Rightarrow> int \<Rightarrow> int \<Rightarrow> int option" where
  "skip_name pkt pkt_len pos =
     (if pos < pkt_len then do {
        len \<leftarrow> rd pkt pos;
        if len = 0 then Some (pos + 1)
        else if len AND 0xC0 = 0xC0 then Some (pos + 2)
        else skip_name pkt pkt_len (pos + 1 + int (unat len))
      } else Some pos)"
  by pat_completeness auto
termination
  by (relation "measure (\<lambda>(pkt, pkt_len, pos). nat (pkt_len - pos))") (auto intro: less_le_trans [of _ 0])

declare skip_name.simps [simp del]

fun skip_questions :: "bytes \<Rightarrow> int \<Rightarrow> nat \<Rightarrow> int \<Rightarrow> int option" where
  "skip_questions pkt pkt_len 0 pos = Some pos"
| "skip_questions pkt pkt_len (Suc q) pos = do {
     pos \<leftarrow> skip_name pkt pkt_len pos;
     skip_questions pkt pkt_len q (pos + 4)
   }"

text \<open>The walk over the answers: the address of the first A record, if any.\<close>

fun walk_answers :: "bytes \<Rightarrow> int \<Rightarrow> nat \<Rightarrow> int \<Rightarrow> ip4 option option" where
  "walk_answers pkt pkt_len 0 pos = Some None"
| "walk_answers pkt pkt_len (Suc a) pos =
     (if pos \<ge> pkt_len then Some None
      else do {
        first \<leftarrow> rd pkt pos;
        pos \<leftarrow> (if first AND 0xC0 = 0xC0 then Some (pos + 2) else skip_name pkt pkt_len pos);
        if pos + 10 > pkt_len then Some None
        else do {
          rtype \<leftarrow> rd16be pkt pos;
          rclass \<leftarrow> rd16be pkt (pos + 2);
          rdlen \<leftarrow> rd16be pkt (pos + 8);
          if rtype = 1 \<and> rclass = 1 \<and> rdlen = 4 then
            (if pos + 14 > pkt_len then Some None
             else do { ip \<leftarrow> rd_ip pkt (pos + 10); Some (Some ip) })
          else walk_answers pkt pkt_len a (pos + 10 + int (unat rdlen))
        }
      })"

definition parse_dns_response :: "bytes \<Rightarrow> int \<Rightarrow> u16 \<Rightarrow> ip4 option option" where
  "parse_dns_response pkt pkt_len txid =
     (if pkt_len < 12 then Some None
      else do {
        rid \<leftarrow> rd16be pkt 0;
        if rid \<noteq> txid then Some None else do {
        flags \<leftarrow> rd pkt 2;
        if flags AND 0x80 = 0 then Some None else do {
        rcode \<leftarrow> rd pkt 3;
        if rcode AND 0x0F \<noteq> 0 then Some None else do {
        qdcount \<leftarrow> rd16be pkt 4;
        ancount \<leftarrow> rd16be pkt 6;
        if ancount = 0 then Some None else do {
        pos \<leftarrow> skip_questions pkt pkt_len (unat qdcount) 12;
        walk_answers pkt pkt_len (unat ancount) pos
        }}}}})"

section \<open>The lookup\<close>

record resolver =
  s_txid :: u16
  s_addr_buf :: bytes
  s_query :: bytes
  s_resp :: bytes
  s_rx_frame :: bytes
  s_name_buf :: bytes

definition DNS_LOCAL_PORT :: u16 where "DNS_LOCAL_PORT = 1053"
definition DNS_SERVER_PORT :: u16 where "DNS_SERVER_PORT = 53"
definition DNS_TIMEOUT_MS :: u32 where "DNS_TIMEOUT_MS = 5000"

definition resolver_boot :: resolver where
  "resolver_boot = \<lparr>s_txid = 0x1234, s_addr_buf = [0, 0, 0, 0], s_query = replicate 512 0, s_resp = replicate 512 0,
     s_rx_frame = replicate GENET_MAX_FRAME 0, s_name_buf = replicate 256 0\<rparr>"

text \<open>One iteration of the wait for the reply: the counter and the frame received, if any.\<close>

record dns_poll =
  rp_now :: u64
  rp_rx :: bytes

text \<open>
  The wait of one attempt. The answer is \<open>Some (Some ())\<close> for a parsed reply (its address is
  in \<open>s_addr_buf\<close>), \<open>Some None\<close> for the timeout, \<open>None\<close> while waiting at the end of the list.
\<close>

fun dns_wait ::
  "u64 \<Rightarrow> u64 \<Rightarrow> resolver \<Rightarrow> net \<Rightarrow> dns_poll list \<Rightarrow> (resolver \<times> net \<times> bytes list \<times> unit option option) option" where
  "dns_wait freq t0 rs n [] = Some (rs, n, [], None)"
| "dns_wait freq t0 rs n (i # is) =
     (if elapsed_ms freq (rp_now i) t0 DNS_TIMEOUT_MS then Some (rs, n, [], Some None)
      else do {
        frame \<leftarrow> wrn (s_rx_frame rs) 0 (rp_rx i);
        let rs = rs\<lparr>s_rx_frame := frame\<rparr>;
        (n, out) \<leftarrow> (if rp_rx i \<noteq> [] then net_rx_frame n frame (int (length (rp_rx i))) else Some (n, []));
        (q, k, data, src) \<leftarrow> udp_recvfrom DNS_LOCAL_PORT 512 (n_udp n);
        let n = n\<lparr>n_udp := q\<rparr>;
        resp \<leftarrow> wrn (s_resp rs) 0 data;
        let rs = rs\<lparr>s_resp := resp\<rparr>;
        r \<leftarrow> (if k > 0 then parse_dns_response resp k (s_txid rs) else Some None);
        case r of Some ip \<Rightarrow> Some (rs\<lparr>s_addr_buf := ip_bytes ip\<rparr>, n, out, Some (Some ()))
        | None \<Rightarrow> do {
            (rs, n, out', r) \<leftarrow> dns_wait freq t0 rs n is;
            Some (rs, n, out @ out', r)
          }
      })"

text \<open>What one attempt meets: the two waits of \<open>udp_send\<close>, its receive buffer, then the polls.\<close>

record dns_attempt =
  at_arp :: "u64 \<times> arp_poll list"
  at_gw :: "u64 \<times> arp_poll list"
  at_t0 :: u64
  at_polls :: "dns_poll list"

text \<open>
  The loop over at most \<open>k\<close> more attempts. The last component says found or given up; none:
  still running.
\<close>

fun dns_attempts ::
  "u64 \<Rightarrow> bytes \<Rightarrow> ip4 \<Rightarrow> int \<Rightarrow> nat \<Rightarrow> resolver \<Rightarrow> net \<Rightarrow> dns_attempt list \<Rightarrow>
   (resolver \<times> net \<times> bytes list \<times> bool option) option" where
  "dns_attempts freq arp_buf dns_ip qlen 0 rs n as = Some (rs, n, [], Some False)"
| "dns_attempts freq arp_buf dns_ip qlen (Suc k) rs n [] = Some (rs, n, [], None)"
| "dns_attempts freq arp_buf dns_ip qlen (Suc k) rs n (a # as) = do {
     (n, f1, fin) \<leftarrow> udp_send freq (at_arp a) (at_gw a) arp_buf n dns_ip DNS_SERVER_PORT DNS_LOCAL_PORT (s_query rs) qlen;
     if \<not> fin then Some (rs, n, f1, None)
     else do {
       (rs, n, f2, r) \<leftarrow> dns_wait freq (at_t0 a) rs n (at_polls a);
       case r of None \<Rightarrow> Some (rs, n, f1 @ f2, None)
       | Some (Some _) \<Rightarrow> Some (rs, n, f1 @ f2, Some True)
       | Some None \<Rightarrow> do {
           (rs, n, f3, r) \<leftarrow> dns_attempts freq arp_buf dns_ip qlen k rs n as;
           Some (rs, n, f1 @ f2 @ f3, r)
         }
     }
   }"

definition DNS_RETRIES :: nat where "DNS_RETRIES = 3"

text \<open>\<open>hostent\<close>: the name as copied and the address; \<open>Some None\<close> is a NULL result.\<close>

definition fill_hostent :: "bytes \<Rightarrow> resolver \<Rightarrow> (resolver \<times> (bytes \<times> bytes)) option" where
  "fill_hostent name rs = do {
     nb \<leftarrow> wrn (s_name_buf rs) 0 (take 254 name @ [0]);
     Some (rs\<lparr>s_name_buf := nb\<rparr>, (take 254 name, s_addr_buf rs))
   }"

definition resolver_gethostbyname ::
  "u64 \<Rightarrow> bytes \<Rightarrow> resolver \<Rightarrow> net \<Rightarrow> dns_attempt list \<Rightarrow> bytes \<Rightarrow>
   (resolver \<times> net \<times> bytes list \<times> (bytes \<times> bytes) option option) option" where
  "resolver_gethostbyname freq arp_buf rs n attempts name =
     (if name = [] then Some (rs, n, [], Some None)
      else do {
        (ab, ok) \<leftarrow> parse_dotted_decimal name (s_addr_buf rs);
        let rs = rs\<lparr>s_addr_buf := ab\<rparr>;
        if ok \<noteq> 0 then do {
          (rs, h) \<leftarrow> fill_hostent name rs;
          Some (rs, n, [], Some (Some h))
        } else let dns_ip = dhcp_get_dns (n_dhcp n) in
          if dns_ip = (0, 0, 0, 0) then Some (rs, n, [], Some None)
          else do {
            let rs = rs\<lparr>s_txid := s_txid rs + 1\<rparr>;
            (qb, qlen) \<leftarrow> build_dns_query name (s_query rs) 512 (s_txid rs);
            let rs = rs\<lparr>s_query := qb\<rparr>;
            if qlen \<le> 0 then Some (rs, n, [], Some None)
            else do {
              (rs, n, out, r) \<leftarrow> dns_attempts freq arp_buf dns_ip qlen DNS_RETRIES rs n attempts;
              case r of None \<Rightarrow> Some (rs, n, out, None)
              | Some False \<Rightarrow> Some (rs, n, out, Some None)
              | Some True \<Rightarrow> do {
                  (rs, h) \<leftarrow> fill_hostent name rs;
                  Some (rs, n, out, Some (Some h))
                }
            }
          }
      })"

text \<open>
  The SWI handler. \<open>cstr\<close> reads the string at a 32-bit address and \<open>hostent_addr\<close> is the address
  of the static result, which is cut to 32 bits in \<open>regs[0]\<close>. A still running lookup has no
  result yet.
\<close>

definition resolver_module_swi ::
  "(u32 \<Rightarrow> bytes) \<Rightarrow> u64 \<Rightarrow> u64 \<Rightarrow> bytes \<Rightarrow> resolver \<Rightarrow> net \<Rightarrow> dns_attempt list \<Rightarrow> u32 \<Rightarrow> u32 \<Rightarrow>
   (resolver \<times> net \<times> bytes list \<times> (u32 \<times> int) option) option" where
  "resolver_module_swi cstr hostent_addr freq arp_buf rs n attempts swi_offset regs0 =
     (if swi_offset = 0 then
        (if regs0 = 0 then Some (rs, n, [], Some (0, - 22))
         else do {
           (rs, n, out, h) \<leftarrow> resolver_gethostbyname freq arp_buf rs n attempts (cstr regs0);
           Some (rs, n, out, map_option (\<lambda>h. case h of Some _ \<Rightarrow> (ucast hostent_addr, 0) | None \<Rightarrow> (0, - 2)) h)
         })
      else Some (rs, n, [], Some (regs0, - 38)))"

section \<open>Dotted decimal\<close>

lemma digit_u8: "k < 10 \<Longrightarrow> unat (48 + of_nat k :: u8) = 48 + k" "k < 10 \<Longrightarrow> (48 :: u8) \<le> 48 + of_nat k \<and> 48 + of_nat k \<le> (57 :: u8)"
  by (simp_all add: unat_word_ariths unat_of_nat word_le_nat_alt)

lemma octet_str_digits:
  "octet_str (of_nat k) = (if k < 10 then [48 + of_nat k] else if k < 100 then [48 + of_nat (k div 10), 48 + of_nat (k mod 10)]
     else [48 + of_nat (k div 100), 48 + of_nat (k mod 100 div 10), 48 + of_nat (k mod 10)])" if "k < 256"
proof -
  have le: "(100 :: u8) \<le> of_nat k \<longleftrightarrow> 100 \<le> k" "(10 :: u8) \<le> of_nat k \<longleftrightarrow> 10 \<le> k"
    using that by (simp_all add: word_le_nat_alt unat_of_nat)
  have dm: "(of_nat j :: u8) div of_nat m = of_nat (j div m)" "(of_nat j :: u8) mod of_nat m = of_nat (j mod m)"
    if "j < 256" "m < 256" for j m
    using that by (simp_all add: word_unat_eq_iff unat_div unat_mod unat_of_nat less_imp_diff_less)
      (auto simp: mod_less intro!: mod_less [symmetric] le_less_trans [OF div_le_dividend] le_less_trans [OF mod_less_eq_dividend])
  have mm: "k mod 100 mod 10 = k mod 10" by (simp add: mod_mod_cancel)
  have d: "(of_nat k :: u8) div 100 = of_nat (k div 100)" "(of_nat k :: u8) mod 100 = of_nat (k mod 100)"
    "(of_nat k :: u8) div 10 = of_nat (k div 10)" "(of_nat k :: u8) mod 10 = of_nat (k mod 10)"
    "(of_nat (k mod 100) :: u8) div 10 = of_nat (k mod 100 div 10)" "(of_nat (k mod 100) :: u8) mod 10 = of_nat (k mod 10)"
    using dm [of k 100] dm [of k 10] dm [of "k mod 100" 10] that mm by simp_all
  show ?thesis by (simp add: octet_str_def le d)
qed

lemma pdd_digit:
  "k < 10 \<Longrightarrow> pdd_loop out i octet dots ((48 + of_nat k) # p) =
     (let octet = (if octet < 0 then 0 else octet) * 10 + int k
      in if octet > 255 then Some (out, 0) else pdd_loop out i octet dots p)"
  using digit_u8 [of k] by (simp add: uint_nat del: of_nat_unat)

lemma pdd_octet:
  assumes "k < 256"
  shows "pdd_loop out i (- 1) dots (octet_str (of_nat k) @ p) = pdd_loop out i (int k) dots p"
proof -
  have d: "k mod 10 < 10" "k mod 100 div 10 < 10" "k div 100 < 10" using assms by (simp_all add: div_less_iff_less_mult)
  consider "k < 10" | "10 \<le> k" "k < 100" | "100 \<le> k" by linarith
  then show ?thesis
  proof cases
    case 1
    then show ?thesis using assms by (simp add: octet_str_digits pdd_digit del: pdd_loop.simps)
  next
    case 2
    have "k div 10 < 10" using 2 by (simp add: div_less_iff_less_mult)
    moreover have "int (k div 10) * 10 + int (k mod 10) = int k"
      by (metis div_mult_mod_eq of_nat_add of_nat_mult of_nat_numeral)
    ultimately show ?thesis
      using 2 assms d by (simp add: octet_str_digits pdd_digit Let_def del: pdd_loop.simps)
  next
    case 3
    have arith: "a * 100 + b = k \<Longrightarrow> c * 10 + e = b \<Longrightarrow> (a * 10 + c) * 10 + e = k \<and> a * 10 + c \<le> 255" for a b c e :: nat
      using assms by auto
    have "k mod 100 mod 10 = k mod 10" by (simp add: mod_mod_cancel)
    with arith [OF div_mult_mod_eq div_mult_mod_eq [of "k mod 100" 10]]
    have "(k div 100 * 10 + k mod 100 div 10) * 10 + k mod 10 = k" "k div 100 * 10 + k mod 100 div 10 \<le> 255"
      by simp_all
    then have "(int (k div 100) * 10 + int (k mod 100 div 10)) * 10 + int (k mod 10) = int k"
      "int (k div 100) * 10 + int (k mod 100 div 10) \<le> 255"
      by (metis of_nat_add of_nat_mult of_nat_numeral, linarith)
    then show ?thesis
      using 3 assms d by (simp add: octet_str_digits pdd_digit Let_def del: pdd_loop.simps)
  qed
qed

lemma pdd_u8: "pdd_loop out i (- 1) dots (octet_str a @ p) = pdd_loop out i (int (unat a)) dots p"
  using pdd_octet [of "unat a" out i dots p] unat_u8 [of a] by simp

section \<open>Queries\<close>

text \<open>The reference: labels with their length, a root label, type A, class IN.\<close>

definition qname :: "bytes list \<Rightarrow> bytes" where
  "qname ls = concat (map (\<lambda>l. of_nat (length l) # l) ls)"

definition label_ok :: "bytes \<Rightarrow> bool" where
  "label_ok l \<longleftrightarrow> l \<noteq> [] \<and> length l \<le> 63 \<and> 46 \<notin> set l"

fun dotted :: "bytes list \<Rightarrow> bytes" where
  "dotted [] = []"
| "dotted [l] = l"
| "dotted (l # ls) = l @ [46] @ dotted ls"

definition dns_header :: "u16 \<Rightarrow> bytes" where
  "dns_header txid = [hi8 txid, lo8 txid, 0x01, 0x00, 0x00, 0x01, 0x00, 0x00, 0x00, 0x00, 0x00, 0x00]"

definition dns_query :: "u16 \<Rightarrow> bytes list \<Rightarrow> bytes" where
  "dns_query txid ls = dns_header txid @ qname ls @ [0, 0, 1, 0, 1]"

lemma dotted_split:
  assumes "label_ok l"
  shows "takeWhile (\<lambda>c. c \<noteq> 46) (dotted (l # ls)) = l" "drop 1 (dropWhile (\<lambda>c. c \<noteq> 46) (dotted (l # ls))) = dotted ls"
    "dotted (l # ls) \<noteq> []"
proof -
  have l: "takeWhile (\<lambda>c. c \<noteq> 46) l = l" "dropWhile (\<lambda>c. c \<noteq> 46) l = []" "\<forall>c \<in> set l. c \<noteq> 46" "l \<noteq> []"
    using assms by (auto simp: label_ok_def takeWhile_eq_all_conv)
  show "takeWhile (\<lambda>c. c \<noteq> 46) (dotted (l # ls)) = l"
    using l by (cases ls) (auto simp: takeWhile_append)
  show "drop 1 (dropWhile (\<lambda>c. c \<noteq> 46) (dotted (l # ls))) = dotted ls"
    using l(2,3) by (cases ls) (auto simp: dropWhile_append simp del: dropWhile_eq_Nil_conv)
  show "dotted (l # ls) \<noteq> []" using l(4) by (cases ls) auto
qed

lemma dns_labels_spec:
  assumes "list_all label_ok ls" "length done = nat pos" "0 < pos" "bufsz \<le> int (length buf)"
    and "pos + int (length (qname ls)) + 5 \<le> bufsz" "take (nat pos) buf = done"
  shows "\<exists>buf'. dns_labels buf bufsz pos (dotted ls) = Some (buf', pos + int (length (qname ls))) \<and>
    length buf' = length buf \<and> take (nat pos + length (qname ls)) buf' = done @ qname ls"
  using assms
proof (induction ls arbitrary: buf pos "done")
  case Nil
  then show ?case by (auto simp: dns_labels.simps qname_def)
next
  case (Cons l ls)
  let ?w = "of_int (int (length l)) # l"
  have l: "label_ok l" "0 < int (length l)" "int (length l) \<le> 63" using Cons.prems(1) by (auto simp: label_ok_def)
  have q: "qname (l # ls) = (of_nat (length l) # l) @ qname ls" by (simp add: qname_def)
  have fit: "pos + 1 + int (length l) + 5 \<le> bufsz" using Cons.prems(5) by (simp add: q)
  then obtain b where b: "wrn buf pos ?w = Some b" "length b = length buf"
    using wrn_ex [of pos ?w buf] Cons.prems(3,4) by auto
  have pre: "take (nat (pos + 1 + int (length l))) b = done @ (of_nat (length l) # l)"
  proof -
    have "b = take (nat pos) buf @ ?w @ drop (nat pos + length ?w) buf" using b(1) by (auto simp: wrn_def split: if_splits)
    moreover have "nat (pos + 1 + int (length l)) = length done + length ?w" using Cons.prems(2,3) by simp
    ultimately show ?thesis using Cons.prems(2,6) by simp
  qed
  obtain b' where b': "dns_labels b bufsz (pos + 1 + int (length l)) (dotted ls)
      = Some (b', pos + 1 + int (length l) + int (length (qname ls)))" "length b' = length b"
    "take (nat (pos + 1 + int (length l)) + length (qname ls)) b' = (done @ (of_nat (length l) # l)) @ qname ls"
  proof -
    have "length (done @ (of_nat (length l) # l)) = nat (pos + 1 + int (length l))" using Cons.prems(2,3) by simp
    then show ?thesis
      using Cons.IH [OF _ _ _ _ _ pre] Cons.prems b(2) l that by (auto simp: q)
  qed
  have "dns_labels buf bufsz pos (dotted (l # ls)) = dns_labels b bufsz (pos + 1 + int (length l)) (dotted ls)"
    using l fit b(1) dotted_split [OF l(1), of ls] by (simp add: dns_labels.simps [of buf] Let_def)
  moreover have "nat (pos + 1 + int (length l)) + length (qname ls) = nat pos + length (qname (l # ls))"
    using Cons.prems(3) by (simp add: q)
  ultimately show ?case using b' b(2) by (simp add: q algebra_simps)
qed

lemma build_dns_query_spec:
  assumes "list_all label_ok ls" "length buf = 512" "length (qname ls) \<le> 495"
  shows "\<exists>buf'. build_dns_query (dotted ls) buf 512 txid = Some (buf', int (length (dns_query txid ls))) \<and>
    length buf' = 512 \<and> take (length (dns_query txid ls)) buf' = dns_query txid ls"
proof -
  obtain b where b: "wrn buf 0 (dns_header txid) = Some b" "length b = 512" "take 12 b = dns_header txid"
    using assms(2) by (simp add: wrn_def dns_header_def)
  obtain c where c: "dns_labels b 512 12 (dotted ls) = Some (c, 12 + int (length (qname ls)))" "length c = 512"
    "take (12 + length (qname ls)) c = dns_header txid @ qname ls"
    using dns_labels_spec [OF assms(1), of "dns_header txid" 12 512 b] b assms(3) by (auto simp: dns_header_def)
  let ?t = "[0, 0, 1, 0, 1] :: bytes"
  obtain d where d: "wrn c (12 + int (length (qname ls))) ?t = Some d" "length d = 512"
    using wrn_ex [of "12 + int (length (qname ls))" ?t c] c(2) assms(3) by auto
  have n: "nat (12 + int (length (qname ls))) = 12 + length (qname ls)" by simp
  have "d = take (12 + length (qname ls)) c @ ?t @ drop (12 + length (qname ls) + 5) c"
    using d(1) unfolding wrn_def n by (simp split: if_splits)
  then have "d = (dns_header txid @ qname ls @ ?t) @ drop (12 + length (qname ls) + 5) c" using c(3) by simp
  moreover have "length (dns_query txid ls) = length (dns_header txid @ qname ls @ ?t)" by (simp add: dns_query_def)
  ultimately have "take (length (dns_query txid ls)) d = dns_query txid ls" by (simp add: dns_query_def)
  then show ?thesis
    using b(1) c(1) d by (simp add: build_dns_query_def dns_header_def dns_query_def)
qed

section \<open>Responses\<close>

lemma skip_name_safe: "0 \<le> pos \<Longrightarrow> pkt_len \<le> int (length pkt) \<Longrightarrow> \<exists>p. skip_name pkt pkt_len pos = Some p \<and> pos \<le> p"
proof (induction pkt pkt_len pos rule: skip_name.induct)
  case (1 pkt pkt_len pos)
  show ?case
  proof (cases "pos < pkt_len")
    case True
    then have r: "rd pkt pos = Some (pkt ! nat pos)" using "1.prems" by (simp add: rd_def)
    show ?thesis
    proof (cases "pkt ! nat pos = 0 \<or> pkt ! nat pos AND 0xC0 = 0xC0")
      case c: True
      then show ?thesis using True r by (auto simp: skip_name.simps [of pkt pkt_len pos])
    next
      case False
      then obtain p where "skip_name pkt pkt_len (pos + 1 + int (unat (pkt ! nat pos))) = Some p"
        "pos + 1 + int (unat (pkt ! nat pos)) \<le> p"
        using "1.IH" [OF True r] "1.prems" by auto
      moreover from this(2) have "pos \<le> p" using of_nat_0_le_iff [of "unat (pkt ! nat pos)", where 'a = int] by linarith
      ultimately show ?thesis using True r False by (simp add: skip_name.simps [of pkt pkt_len pos])
    qed
  qed (simp add: skip_name.simps [of pkt pkt_len pos])
qed

lemma skip_questions_safe:
  "0 \<le> pos \<Longrightarrow> pkt_len \<le> int (length pkt) \<Longrightarrow> \<exists>p. skip_questions pkt pkt_len q pos = Some p \<and> 0 \<le> p"
proof (induction q arbitrary: pos)
  case (Suc q)
  then obtain p where "skip_name pkt pkt_len pos = Some p" "pos \<le> p" using skip_name_safe by blast
  then show ?case using Suc.IH [of "p + 4"] Suc.prems by simp
qed simp

lemma walk_answers_safe:
  "0 \<le> pos \<Longrightarrow> pkt_len \<le> int (length pkt) \<Longrightarrow> \<exists>r. walk_answers pkt pkt_len a pos = Some r"
proof (induction a arbitrary: pos)
  case (Suc a)
  show ?case
  proof (cases "pos \<ge> pkt_len")
    case False
    then have r: "rd pkt pos = Some (pkt ! nat pos)" using Suc.prems by (simp add: rd_def)
    obtain p where p: "(if pkt ! nat pos AND 0xC0 = 0xC0 then Some (pos + 2) else skip_name pkt pkt_len pos) = Some p" "0 \<le> p"
    proof (cases "pkt ! nat pos AND 0xC0 = 0xC0")
      case False
      then show ?thesis using that skip_name_safe [OF Suc.prems] Suc.prems(1) by auto
    qed (use that Suc.prems in simp)
    show ?thesis
    proof (cases "p + 10 > pkt_len")
      case True
      then show ?thesis using False r p by simp
    next
      case ok: False
      then obtain t c d where f: "rd16be pkt p = Some t" "rd16be pkt (p + 2) = Some c" "rd16be pkt (p + 8) = Some d"
        using p(2) Suc.prems by (simp add: rd16be_Some)
      have ip: "\<exists>x. rd_ip pkt (p + 10) = Some x" if "\<not> p + 14 > pkt_len" using that p(2) Suc.prems by (simp add: rd_ip_Some)
      have "\<exists>r. walk_answers pkt pkt_len a (p + 10 + int (unat d)) = Some r" using Suc p(2) by simp
      then show ?thesis using False r p ok f ip by (auto simp: p(1) bind_eq_Some_conv split: if_splits)
    qed
  qed simp
qed simp

lemma parse_dns_response_safe:
  assumes "pkt_len \<le> int (length pkt)"
  shows "\<exists>r. parse_dns_response pkt pkt_len txid = Some r"
proof (cases "pkt_len < 12")
  case False
  then obtain a b c d e where f: "rd16be pkt 0 = Some a" "rd pkt 2 = Some b" "rd pkt 3 = Some c" "rd16be pkt 4 = Some d"
    "rd16be pkt 6 = Some e" using assms by (simp add: buf_simps)
  obtain p where "skip_questions pkt pkt_len (unat d) 12 = Some p" "0 \<le> p" using skip_questions_safe [of 12] assms by fastforce
  then show ?thesis using walk_answers_safe [of p pkt_len pkt "unat e"] assms f by (simp add: parse_dns_response_def)
qed (simp add: parse_dns_response_def)

text \<open>A reply that echoes the question and answers it with one A record, named by a pointer.\<close>

definition dns_reply :: "u16 \<Rightarrow> bytes list \<Rightarrow> bytes \<Rightarrow> ip4 \<Rightarrow> bytes" where
  "dns_reply txid ls ttl ip = [hi8 txid, lo8 txid, 0x81, 0x80, 0, 1, 0, 1, 0, 0, 0, 0] @ qname ls @ [0, 0, 1, 0, 1] @
     [0xC0, 0x0C, 0, 1, 0, 1] @ ttl @ [0, 4] @ ip_bytes ip"

lemma label_byte:
  assumes "label_ok l"
  shows "(of_nat (length l) :: u8) \<noteq> 0" "(of_nat (length l) :: u8) AND 0xC0 \<noteq> 0xC0" "unat (of_nat (length l) :: u8) = length l"
proof -
  have n: "0 < length l" "length l < 64" using assms by (auto simp: label_ok_def)
  then show u: "unat (of_nat (length l) :: u8) = length l" by (simp add: unat_of_nat)
  then show "(of_nat (length l) :: u8) \<noteq> 0" using n by (metis unat_0 less_irrefl)
  show "(of_nat (length l) :: u8) AND 0xC0 \<noteq> 0xC0"
  proof
    assume "(of_nat (length l) :: u8) AND 0xC0 = 0xC0"
    then have "(0xC0 :: u8) \<le> of_nat (length l)" by (metis word_and_le2)
    then show False using u n by (simp add: word_le_nat_alt)
  qed
qed

lemma skip_qname:
  assumes "list_all label_ok ls" "pkt = pre @ qname ls @ 0 # post" "int (length pre + length (qname ls)) < pkt_len"
  shows "skip_name pkt pkt_len (int (length pre)) = Some (int (length pre + length (qname ls) + 1))"
  using assms
proof (induction ls arbitrary: pre)
  case Nil
  then show ?case by (simp add: skip_name.simps rd_def nth_append qname_def)
next
  case (Cons l ls)
  have q: "qname (l # ls) = (of_nat (length l) # l) @ qname ls" by (simp add: qname_def)
  have l: "label_ok l" "list_all label_ok ls" using Cons.prems(1) by simp_all
  have p: "pkt = (pre @ of_nat (length l) # l) @ qname ls @ 0 # post" using Cons.prems(2) by (simp add: q)
  have r: "rd pkt (int (length pre)) = Some (of_nat (length l))" by (simp add: p rd_def nth_append)
  have "skip_name pkt pkt_len (int (length pre)) = skip_name pkt pkt_len (int (length pre) + 1 + int (length l))"
    using r label_byte [OF l(1)] Cons.prems(3)
    by (simp add: skip_name.simps [of pkt pkt_len "int (length pre)"] uint_nat del: of_nat_unat)
  also have "int (length pre) + 1 + int (length l) = int (length (pre @ of_nat (length l) # l))" by simp
  also have "skip_name pkt pkt_len (int (length (pre @ of_nat (length l) # l)))
      = Some (int (length (pre @ of_nat (length l) # l) + length (qname ls) + 1))"
    using Cons.IH [OF l(2) p] Cons.prems(3) by (simp add: q)
  finally show ?case by (simp add: q)
qed

lemma length_dns_reply: "length ttl = 4 \<Longrightarrow> length (dns_reply txid ls ttl ip) = 33 + length (qname ls)"
  by (simp add: dns_reply_def)

text \<open>The reply is parsed wherever it stands at the start of a larger buffer.\<close>

lemma dns_reply_parsed:
  assumes "list_all label_ok ls" "length ttl = 4" "reply = dns_reply txid ls ttl ip"
  shows "parse_dns_response (reply @ rest) (int (length reply)) txid = Some (Some ip)"
proof -
  let ?h = "[hi8 txid, lo8 txid, 0x81, 0x80, 0, 1, 0, 1, 0, 0, 0, 0] :: bytes"
  let ?p = "reply @ rest" and ?n = "length (qname ls)"
  have p: "?p = ?h @ qname ls @ 0 # [0, 1, 0, 1] @ [0xC0, 0x0C, 0, 1, 0, 1] @ ttl @ [0, 4] @ ip_bytes ip @ rest"
    by (simp add: assms(3) dns_reply_def)
  have len: "length reply = 33 + ?n" "length ?p = 33 + ?n + length rest"
    using length_dns_reply [OF assms(2)] by (simp_all add: assms(3))
  obtain a b c d where t: "ttl = [a, b, c, d]" using assms(2) by (auto simp: length_Suc_conv numeral_eq_Suc)
  have "skip_name ?p (int (length reply)) 12 = Some (int (12 + ?n + 1))"
    using skip_qname [OF assms(1) p, of "int (length reply)"] len by simp
  then have q: "skip_questions ?p (int (length reply)) 1 12 = Some (17 + int ?n)" by (simp add: algebra_simps)
  have nth: "?p ! (17 + ?n + k) = ([0xC0, 0x0C, 0, 1, 0, 1, a, b, c, d, 0, 4] @ ip_bytes ip @ rest) ! k" for k
  proof -
    have "?p = (?h @ qname ls @ [0, 0, 1, 0, 1]) @ ([0xC0, 0x0C, 0, 1, 0, 1, a, b, c, d, 0, 4] @ ip_bytes ip @ rest)"
      by (simp add: p t)
    moreover have "length (?h @ qname ls @ [0, 0, 1, 0, 1 :: u8]) = 17 + ?n" by simp
    ultimately show ?thesis by (metis nth_append_length_plus)
  qed
  have idx: "nat (17 + int ?n + int k) = 17 + ?n + k" for k by simp
  have w: "walk_answers ?p (int (length reply)) 1 (17 + int ?n) = Some (Some ip)"
  proof -
    have rd: "rd ?p (17 + int ?n) = Some 0xC0" using nth [of 0] len idx [of 0] by (simp add: rd_def)
    have r16: "rd16be ?p (17 + int ?n + 2) = Some 1" "rd16be ?p (17 + int ?n + 2 + 2) = Some 1"
      "rd16be ?p (17 + int ?n + 2 + 8) = Some 4"
      using nth [of 2] nth [of 3] nth [of 4] nth [of 5] nth [of 10] nth [of 11]
        idx [of 2] idx [of 3] idx [of 4] idx [of 5] idx [of 10] idx [of 11] len
      by (simp_all add: rd16be_Some add.assoc be16_def)
    have ip: "rd_ip ?p (17 + int ?n + 2 + 10) = Some ip"
      using nth [of 12] nth [of 13] nth [of 14] nth [of 15] idx [of 12] idx [of 13] idx [of 14] idx [of 15] len
      by (cases ip) (simp add: rd_ip_Some add.assoc)
    show ?thesis using rd r16 ip len by (simp add: numeral_eq_Suc [of Num.One])
  qed
  have f: "rd16be ?p 0 = Some txid" "rd ?p 2 = Some 0x81" "rd ?p 3 = Some 0x80" "rd16be ?p 4 = Some 1" "rd16be ?p 6 = Some 1"
    by (simp_all add: p rd16be_def rd_def be16_def [of 0 1])
  show ?thesis using f q w len by (simp add: parse_dns_response_def)
qed

section \<open>A lookup that is answered\<close>

definition resolver_ok :: "resolver \<Rightarrow> bool" where
  "resolver_ok rs \<longleftrightarrow> length (s_addr_buf rs) = 4 \<and> length (s_query rs) = 512 \<and> length (s_resp rs) = 512 \<and>
     length (s_rx_frame rs) = GENET_MAX_FRAME \<and> length (s_name_buf rs) = 256"

text \<open>The frame a DNS server sends back to the resolver's port.\<close>

definition dns_reply_frame :: "mac6 \<Rightarrow> ip4 \<Rightarrow> mac6 \<Rightarrow> ip4 \<Rightarrow> u16 \<Rightarrow> bytes \<Rightarrow> bytes" where
  "dns_reply_frame m dns dm our ick reply =
     ipv4_header m dns dm our 0x11 (28 + int (length reply)) ick @ udp_segment DNS_SERVER_PORT DNS_LOCAL_PORT reply"

lemma wrn_prefix: "length xs \<le> length b \<Longrightarrow> wrn b 0 xs = Some (xs @ drop (length xs) b)"
  by (simp add: wrn_def)

lemma dns_wait_answered:
  assumes "resolver_ok rs" "udp_inv (n_udp n)" "\<not> list_all u_used (n_udp n)" "udp_slot DNS_LOCAL_PORT (n_udp n) = None"
    and "\<not> elapsed_ms freq (rp_now p) t0 DNS_TIMEOUT_MS"
    and "list_all label_ok ls" "length (qname ls) \<le> 479" "length ttl = 4" "reply = dns_reply (s_txid rs) ls ttl ip"
    and "rp_rx p = dns_reply_frame m dns dm our ick reply"
  shows "\<exists>rs' n'. dns_wait freq t0 rs n (p # ps) = Some (rs', n', [], Some (Some ())) \<and>
    s_addr_buf rs' = ip_bytes ip \<and> resolver_ok rs'"
proof -
  let ?f = "dns_reply_frame m dns dm our ick reply"
  have d: "length reply \<le> 512" "reply \<noteq> []" using assms(7-9) by (simp_all add: dns_reply_def)
  have len: "length ?f = 42 + length reply" by (simp add: dns_reply_frame_def udp_segment_def)
  define fr where "fr = ?f @ drop (length ?f) (s_rx_frame rs)"
  have w: "wrn (s_rx_frame rs) 0 ?f = Some fr" "length fr = GENET_MAX_FRAME"
    using assms(1) d len wrn_prefix [of ?f "s_rx_frame rs"] by (simp_all add: resolver_ok_def fr_def GENET_MAX_FRAME_def)
  obtain q where q: "net_rx_frame n fr (42 + int (length reply)) = Some (n\<lparr>n_udp := q\<rparr>, [])" "udp_inv q"
    "waiting q = add_mset (DNS_LOCAL_PORT, dns, DNS_SERVER_PORT, reply) (waiting (n_udp n))"
    using udp_frame_received [OF assms(2,3) d(1), of m dns dm our ick DNS_SERVER_PORT DNS_LOCAL_PORT "drop (length ?f) (s_rx_frame rs)"]
    unfolding fr_def dns_reply_frame_def by auto
  obtain q' where r: "udp_recvfrom DNS_LOCAL_PORT 512 q = Some (q', int (length reply), reply, Some (dns, DNS_SERVER_PORT))"
    using udp_recv_only [OF q(2,3) waiting_Nil_slot [OF assms(4)] d(1)] by blast
  have s: "wrn (s_resp rs) 0 reply = Some (reply @ drop (length reply) (s_resp rs))"
    using assms(1) d by (simp add: wrn_prefix resolver_ok_def)
  have p: "parse_dns_response (reply @ drop (length reply) (s_resp rs)) (int (length reply)) (s_txid rs) = Some (Some ip)"
    using dns_reply_parsed [OF assms(6,8,9)] .
  have ne: "?f \<noteq> []" using len by auto
  let ?rs = "rs\<lparr>s_rx_frame := fr, s_resp := reply @ drop (length reply) (s_resp rs), s_addr_buf := ip_bytes ip\<rparr>"
  have "dns_wait freq t0 rs n (p # ps) = Some (?rs, n\<lparr>n_udp := q'\<rparr>, [], Some (Some ()))"
    using assms(5,10) w(1) q(1) r s p d(2) ne len by simp
  moreover have "resolver_ok ?rs" using assms(1) w(2) d(1) by (simp add: resolver_ok_def)
  ultimately show ?thesis by auto
qed

section \<open>Properties\<close>

text \<open>
  Printing an IPv4 address and parsing the text gives the address back, for every
  address: \<open>parse_dotted_decimal\<close> inverts the dotted-decimal printer and accepts its output.
\<close>

theorem dotted_decimal_roundtrip:
  assumes "length out = 4"
  shows "parse_dotted_decimal (res_putip ip) out = Some (ip_bytes ip, 1)"
proof -
  obtain a b c d where ip: "ip = (a, b, c, d)" by (cases ip)
  obtain w x y z where out: "out = [w, x, y, z]" using assms by (auto simp: length_Suc_conv numeral_eq_Suc)
  have last: "pdd_loop o' i (- 1) dots (octet_str v) = pdd_loop o' i (int (unat v)) dots []" for o' i dots v
    using pdd_u8 [where p = "[]"] by simp
  have dot: "pdd_loop o' i (int (unat v)) dots (46 # p) = (if i \<ge> 3 then Some (o', 0)
      else do { o'' \<leftarrow> wrn o' i [v]; pdd_loop o'' (i + 1) (- 1) (dots + 1) p })" for o' i v dots p
  proof -
    have "\<not> int (unat v) < 0" by (simp only: of_nat_less_0_iff not_False_eq_True)
    moreover have "of_int (int (unat v)) = v" by simp
    ultimately show ?thesis by (simp add: word_less_nat_alt word_le_nat_alt)
  qed
  have fin: "pdd_loop o' 3 (uint v) 3 [] = do { o'' \<leftarrow> wrn o' 3 [v]; Some (o'', 1) }" for o' v
    by simp
  show ?thesis
    unfolding parse_dotted_decimal_def ip res_putip.simps append_Cons append_Nil
    by (simp only: pdd_u8 dot last) (simp add: out wrn_def dot pdd_u8 last fin del: pdd_loop.simps)
qed

theorem dotted_decimal_roundtrip_witness:
  "parse_dotted_decimal (res_putip (192, 168, 0, 5)) [9, 9, 9, 9] = Some (ip_bytes (192, 168, 0, 5), 1)"
  by (rule dotted_decimal_roundtrip) simp

text \<open>
  The DNS exchange. For every name made of labels of 1 to 63 bytes whose encoding fits,
  \<open>build_dns_query\<close> writes exactly the RFC 1035 query (header, labels, root, type A, class IN)
  and returns its length without leaving the 512-byte buffer; and \<open>parse_dns_response\<close>, given
  a reply that echoes this question and answers it with one address record, returns that
  address.
\<close>

theorem dns_exchange:
  assumes "list_all label_ok ls" "length (qname ls) \<le> 495" "length buf = 512" "length ttl = 4"
  shows "\<exists>buf'. build_dns_query (dotted ls) buf 512 txid = Some (buf', int (length (dns_query txid ls))) \<and>
    take (length (dns_query txid ls)) buf' = dns_query txid ls \<and>
    parse_dns_response (dns_reply txid ls ttl ip) (int (length (dns_reply txid ls ttl ip))) txid = Some (Some ip)"
  using build_dns_query_spec [OF assms(1,3,2), of txid] dns_reply_parsed [OF assms(1,4) refl, where rest = "[]"] by auto

theorem dns_exchange_witness:
  "\<exists>buf'. build_dns_query (dotted [[119, 119], [97, 98, 99]]) (replicate 512 0) 512 0x1235
      = Some (buf', int (length (dns_query 0x1235 [[119, 119], [97, 98, 99]]))) \<and>
    take (length (dns_query 0x1235 [[119, 119], [97, 98, 99]])) buf' = dns_query 0x1235 [[119, 119], [97, 98, 99]] \<and>
    parse_dns_response (dns_reply 0x1235 [[119, 119], [97, 98, 99]] [0, 0, 1, 0] (1, 2, 3, 4))
      (int (length (dns_reply 0x1235 [[119, 119], [97, 98, 99]] [0, 0, 1, 0] (1, 2, 3, 4)))) 0x1235 = Some (Some (1, 2, 3, 4))"
  by (rule dns_exchange) (simp_all add: label_ok_def qname_def)

text \<open>
  Parsing a DNS response is memory safe and terminates for every packet, whatever counts,
  labels, compression pointers and record lengths it claims: no byte outside the received
  length is read.
\<close>

theorem dns_parse_safe:
  "\<exists>r. parse_dns_response pkt (int (length pkt)) txid = Some r"
  by (rule parse_dns_response_safe) simp

text \<open>The single query of an attempt that is answered.\<close>

lemma dns_attempt_answered:
  assumes "resolver_ok rs" "udp_inv (n_udp n)" "\<not> list_all u_used (n_udp n)" "udp_slot DNS_LOCAL_PORT (n_udp n) = None"
    and "arp_resolve (n_arp n) dns = Some mac" "0 \<le> qlen" "qlen \<le> 512"
    and "\<not> elapsed_ms freq (rp_now p) (at_t0 a) DNS_TIMEOUT_MS" "at_polls a = p # ps"
    and "list_all label_ok ls" "length (qname ls) \<le> 479" "length ttl = 4"
    and "rp_rx p = dns_reply_frame m dns dm our ick (dns_reply (s_txid rs) ls ttl ip)"
  shows "\<exists>rs' n' ick'. dns_attempts freq buf dns qlen (Suc k) rs n (a # as) =
      Some (rs', n', [ipv4_header (g_genet_mac n) (g_our_ip (n_dhcp n)) mac dns 0x11 (28 + qlen) ick' @
        udp_segment DNS_LOCAL_PORT DNS_SERVER_PORT (take (nat qlen) (s_query rs))], Some True) \<and>
    s_addr_buf rs' = ip_bytes ip \<and> resolver_ok rs'"
proof -
  have q: "length (s_query rs) = 512" using assms(1) by (simp add: resolver_ok_def)
  obtain ick' where out: "udp_output n mac dns DNS_SERVER_PORT DNS_LOCAL_PORT (s_query rs) qlen =
      Some [ipv4_header (g_genet_mac n) (g_our_ip (n_dhcp n)) mac dns 0x11 (28 + qlen) ick' @
        udp_segment DNS_LOCAL_PORT DNS_SERVER_PORT (take (nat qlen) (s_query rs))]"
    using udp_output_eq [of qlen "s_query rs" n mac dns DNS_SERVER_PORT DNS_LOCAL_PORT] assms(6,7) q by auto
  have send: "udp_send freq (at_arp a) (at_gw a) buf n dns DNS_SERVER_PORT DNS_LOCAL_PORT (s_query rs) qlen =
      Some (n, [ipv4_header (g_genet_mac n) (g_our_ip (n_dhcp n)) mac dns 0x11 (28 + qlen) ick' @
        udp_segment DNS_LOCAL_PORT DNS_SERVER_PORT (take (nat qlen) (s_query rs))], True)"
    using assms(5-7) out by (simp add: udp_send_def arp_resolve_blocking_def)
  obtain rs' n' where "dns_wait freq (at_t0 a) rs n (p # ps) = Some (rs', n', [], Some (Some ()))"
    "s_addr_buf rs' = ip_bytes ip" "resolver_ok rs'"
    using dns_wait_answered [OF assms(1-4,8,10,11,12) refl assms(13)] by blast
  then show ?thesis using send assms(9) by (simp del: dns_wait.simps) blast
qed


definition dns_host :: net where
  "dns_host = (tcpip_init (net_boot (2, 0, 0, 0, 0, 1)))\<lparr>n_arp := ne_arp lan_env, n_dhcp := dhcp_boot\<lparr>g_dhcp_dns := (10, 0, 0, 2)\<rparr>\<rparr>"

definition dns_answer :: dns_poll where
  "dns_answer = \<lparr>rp_now = 7, rp_rx = dns_reply_frame (2, 0, 0, 0, 0, 2) (10, 0, 0, 2) (2, 0, 0, 0, 0, 1) (10, 0, 0, 1) 0
     (dns_reply (s_txid resolver_boot + 1) [[97, 98], [99]] [0, 0, 1, 0] (1, 2, 3, 4))\<rparr>"

definition dns_try :: dns_attempt where
  "dns_try = \<lparr>at_arp = (0, []), at_gw = (0, []), at_t0 = 0, at_polls = [dns_answer]\<rparr>"


end
