(* ===== verification/Linked.thy ===== *)
theory Linked
  imports Prelude
begin

text \<open>
  Doubly linked lists threaded through a store by a \<open>next\<close> and a \<open>prev\<close> field, as the free
  list of kernel/malloc.c and the run queues of kernel/sched.c are. A segment relates the
  fields to the list of its elements; insertion at either end and removal of an element are
  the field updates the C code makes.
\<close>

fun seg :: "('a \<Rightarrow> 'a option) \<Rightarrow> ('a \<Rightarrow> 'a option) \<Rightarrow> 'a option \<Rightarrow> 'a option \<Rightarrow> 'a list \<Rightarrow> 'a option \<Rightarrow> 'a option \<Rightarrow> bool" where
  "seg n p pr a [] b q = (a = b \<and> pr = q)"
| "seg n p pr a (x # xs) b q = (a = Some x \<and> p x = pr \<and> seg n p (Some x) (n x) xs b q)"

text \<open>A whole list: no element before the first or after the last.\<close>

definition dll :: "('a \<Rightarrow> 'a option) \<Rightarrow> ('a \<Rightarrow> 'a option) \<Rightarrow> 'a option \<Rightarrow> 'a option \<Rightarrow> 'a list \<Rightarrow> bool" where
  "dll n p first_ptr last_ptr xs \<longleftrightarrow> distinct xs \<and> seg n p None first_ptr xs None last_ptr"

lemma seg_append:
  "seg n p pr a (xs @ ys) b q \<longleftrightarrow> (\<exists>m r. seg n p pr a xs m r \<and> seg n p r m ys b q)"
  by (induction xs arbitrary: pr a) auto

lemma seg_cong:
  "(\<And>x. x \<in> set xs \<Longrightarrow> n x = n' x \<and> p x = p' x) \<Longrightarrow> seg n p pr a xs b q = seg n' p' pr a xs b q"
  by (induction xs arbitrary: pr a) auto

lemma seg_last: "seg n p pr a xs b q \<Longrightarrow> q = (if xs = [] then pr else Some (last xs))"
  by (induction xs arbitrary: pr a) auto

lemma seg_first: "seg n p pr a xs b q \<Longrightarrow> a = (if xs = [] then b else Some (hd xs))"
  by (cases xs) auto

lemma seg_relink: "seg n p pr a xs b q \<Longrightarrow> distinct xs \<Longrightarrow> xs \<noteq> [] \<Longrightarrow> seg (n(last xs := c)) p pr a xs c q"
proof (induction xs arbitrary: pr a)
  case (Cons x xs)
  then show ?case
    by (cases xs) (auto simp: last_ConsR split: if_splits)
qed simp

lemma seg_reprev:
  assumes "seg n p pr a (x # xs) b q" "distinct (x # xs)"
  shows "seg n (p(x := r)) r a (x # xs) b q"
proof -
  have "seg n p (Some x) (n x) xs b q = seg n (p(x := r)) (Some x) (n x) xs b q"
    using assms(2) by (intro seg_cong) auto
  then show ?thesis using assms(1) by simp
qed

lemma dll_empty [simp]: "dll n p a b [] \<longleftrightarrow> a = None \<and> b = None"
  by (auto simp: dll_def)

lemma dll_first: "dll n p a b xs \<Longrightarrow> a = (if xs = [] then None else Some (hd xs))"
  using seg_first by (fastforce simp: dll_def)

lemma dll_last: "dll n p a b xs \<Longrightarrow> b = (if xs = [] then None else Some (last xs))"
  using seg_last by (fastforce simp: dll_def)

lemma dll_cong: "(\<And>x. x \<in> set xs \<Longrightarrow> n x = n' x \<and> p x = p' x) \<Longrightarrow> dll n p a b xs = dll n' p' a b xs"
  using seg_cong [of xs n n' p p'] by (simp add: dll_def)

text \<open>Insertion at the front: \<open>x.next = head; x.prev = NULL; if (head) head.prev = x; head = x\<close>.\<close>

lemma dll_push_front:
  assumes "dll n p a b xs" "x \<notin> set xs"
  shows "dll (n(x := a)) (case a of None \<Rightarrow> p(x := None) | Some y \<Rightarrow> p(x := None, y := Some x))
    (Some x) (if a = None then Some x else b) (x # xs)"
proof (cases xs)
  case Nil
  then show ?thesis using assms by (simp add: dll_def)
next
  case (Cons y ys)
  then have a: "a = Some y" and s: "seg n p None a xs None b" "distinct xs" using assms by (auto simp: dll_def)
  have "seg n (p(y := Some x)) (Some x) a (y # ys) None b" using seg_reprev [of n p None a y ys] s Cons by simp
  moreover have "seg n (p(y := Some x)) (Some x) a xs None b =
      seg (n(x := a)) (p(x := None, y := Some x)) (Some x) a xs None b"
    using assms(2) by (intro seg_cong) auto
  ultimately show ?thesis
    using assms(2) s(2) a Cons by (auto simp: dll_def)
qed

text \<open>Insertion at the back.\<close>

lemma dll_push_back:
  assumes "dll n p a b xs" "x \<notin> set xs"
  shows "dll (case b of None \<Rightarrow> n(x := None) | Some y \<Rightarrow> n(x := None, y := Some x)) (p(x := b))
    (if b = None then Some x else a) (Some x) (xs @ [x])"
proof (cases "xs = []")
  case True
  then show ?thesis using assms by (auto simp: dll_def)
next
  case False
  then have b: "b = Some (last xs)" using dll_last [OF assms(1)] by simp
  have s: "seg n p None a xs None b" "distinct xs" using assms(1) by (auto simp: dll_def)
  have "seg (n(last xs := Some x)) p None a xs (Some x) b" using seg_relink [OF s False] .
  moreover have "seg (n(last xs := Some x)) p None a xs (Some x) b =
      seg (n(x := None, last xs := Some x)) (p(x := b)) None a xs (Some x) b"
    using assms(2) by (intro seg_cong) auto
  moreover have "x \<noteq> last xs" using assms(2) False by auto
  ultimately show ?thesis
    using assms(2) s(2) b by (auto simp: dll_def seg_append)
qed

text \<open>Removal of an element, as both modules write it.\<close>

definition unlink_next :: "('a \<Rightarrow> 'a option) \<Rightarrow> ('a \<Rightarrow> 'a option) \<Rightarrow> 'a \<Rightarrow> 'a \<Rightarrow> 'a option" where
  "unlink_next n p x = (case p x of None \<Rightarrow> n | Some y \<Rightarrow> n(y := n x))(x := None)"

definition unlink_prev :: "('a \<Rightarrow> 'a option) \<Rightarrow> ('a \<Rightarrow> 'a option) \<Rightarrow> 'a \<Rightarrow> 'a \<Rightarrow> 'a option" where
  "unlink_prev n p x = (case n x of None \<Rightarrow> p | Some z \<Rightarrow> p(z := p x))(x := None)"

lemma dll_remove:
  assumes "dll n p a b (xs @ x # ys)"
  shows "dll (unlink_next n p x) (unlink_prev n p x) (if p x = None then n x else a) (if n x = None then p x else b) (xs @ ys)"
proof -
  obtain m r where sx: "seg n p None a xs m r" and "seg n p r m (x # ys) None b" and d: "distinct (xs @ x # ys)"
    using assms by (auto simp: dll_def seg_append)
  then have m: "m = Some x" "p x = r" and sy: "seg n p (Some x) (n x) ys None b" by auto
  have r: "r = (if xs = [] then None else Some (last xs))" using seg_last [OF sx] .
  have nx: "n x = (if ys = [] then None else Some (hd ys))" using seg_first [OF sy] .
  have b: "b = (if ys = [] then Some x else Some (last ys))" using seg_last [OF sy] by simp
  have l: "xs \<noteq> [] \<Longrightarrow> last xs \<notin> set ys" using d by (metis disjoint_iff distinct_append last_in_set list.set_intros(2))
  have n': "unlink_next n p x = (if xs = [] then n(x := None) else n(last xs := n x, x := None))"
    by (simp add: unlink_next_def m(2) r)
  have p': "unlink_prev n p x = (if ys = [] then p(x := None) else p(hd ys := r, x := None))"
    by (simp add: unlink_prev_def m(2) nx)
  have "seg (unlink_next n p x) (unlink_prev n p x) None (if p x = None then n x else a) xs (n x) r"
  proof (cases "xs = []")
    case True
    then show ?thesis using m(2) r by simp
  next
    case False
    have "seg (n(last xs := n x)) p None a xs (n x) r" using seg_relink [OF sx _ False] d by simp
    moreover have "seg (n(last xs := n x)) p None a xs (n x) r =
        seg (unlink_next n p x) (unlink_prev n p x) None a xs (n x) r"
      using d False by (intro seg_cong) (auto simp: n' p' split: if_splits)
    ultimately show ?thesis using m(2) r False by simp
  qed
  moreover have "seg (unlink_next n p x) (unlink_prev n p x) r (n x) ys None (if n x = None then p x else b)"
  proof (cases ys)
    case Nil
    then show ?thesis using nx m(2) by simp
  next
    case (Cons y zs)
    have "seg n (p(y := r)) r (n x) (y # zs) None b" using seg_reprev [of n p "Some x" "n x" y zs] sy d Cons by simp
    moreover have "seg n (p(y := r)) r (n x) ys None b = seg (unlink_next n p x) (unlink_prev n p x) r (n x) ys None b"
      using d Cons l by (intro seg_cong) (auto simp: n' p')
    ultimately show ?thesis using nx Cons by simp
  qed
  ultimately show ?thesis using d by (auto simp: dll_def seg_append)
qed

text \<open>A walk from the head visits the elements in order; it ends because the list is finite.\<close>

lemma seg_next: "seg n p pr a (xs @ x # ys) b q \<Longrightarrow> n x = (if ys = [] then b else Some (hd ys))"
  by (auto simp: seg_append dest: seg_first)

end
