(* ===== verification/Heap.thy ===== *)
theory Heap
  imports Linked
begin

text \<open>
  kernel/malloc.c: the first-fit allocator with coalescing. Addresses are offsets into the
  128 MB array \<open>heap\<close>; a null pointer is \<open>None\<close>. \<open>hdrs\<close> gives the block header at an offset
  (all zero where none was ever written) and \<open>canaries\<close> the 32-bit words the tail canaries are
  kept in. Sizes are the \<open>size_t\<close> values; the sum that \<open>kmalloc\<close> forms from the caller's size is
  computed in 64 bits.
\<close>

section \<open>State\<close>

record block_hdr =
  magic :: u32
  free :: bool
  bsize :: nat
  prev_phys :: "nat option"
  next_free :: "nat option"
  prev_free :: "nat option"

record heap =
  hdrs :: "nat \<Rightarrow> block_hdr"
  canaries :: "nat \<Rightarrow> u32"
  free_list_head :: "nat option"
  heap_allocated :: u64

definition HEAP_SIZE :: nat where "HEAP_SIZE = 128 * 1024 * 1024"
definition HDR_MAGIC :: u32 where "HDR_MAGIC = 0xFEEDC0DE"
definition TAIL_MAGIC :: u32 where "TAIL_MAGIC = 0xDEADC0DE"
definition HDR_SIZE :: nat where "HDR_SIZE = 48"
definition MIN_PAYLOAD :: nat where "MIN_PAYLOAD = 64"

definition hdr0 :: block_hdr where
  "hdr0 = \<lparr>magic = 0, free = False, bsize = 0, prev_phys = None, next_free = None, prev_free = None\<rparr>"

definition heap_boot :: heap where
  "heap_boot = \<lparr>hdrs = (\<lambda>_. hdr0), canaries = (\<lambda>_. 0), free_list_head = None, heap_allocated = 0\<rparr>"

text \<open>A field update through a pointer.\<close>

definition upd :: "nat \<Rightarrow> (block_hdr \<Rightarrow> block_hdr) \<Rightarrow> heap \<Rightarrow> heap" where
  "upd b f h = h\<lparr>hdrs := (hdrs h)(b := f (hdrs h b))\<rparr>"

section \<open>The free list\<close>

definition tail_canary :: "heap \<Rightarrow> nat \<Rightarrow> nat" where
  "tail_canary h b = b + bsize (hdrs h b) - 4"

definition next_phys :: "heap \<Rightarrow> nat \<Rightarrow> nat" where
  "next_phys h b = b + bsize (hdrs h b)"

definition free_list_insert :: "nat \<Rightarrow> heap \<Rightarrow> heap" where
  "free_list_insert b h =
     (let h = upd b (\<lambda>x. x\<lparr>next_free := free_list_head h, prev_free := None\<rparr>) h;
          h = (case free_list_head h of None \<Rightarrow> h | Some f \<Rightarrow> upd f (\<lambda>x. x\<lparr>prev_free := Some b\<rparr>) h)
      in h\<lparr>free_list_head := Some b\<rparr>)"

definition free_list_remove :: "nat \<Rightarrow> heap \<Rightarrow> heap" where
  "free_list_remove b h =
     (let h = (case prev_free (hdrs h b) of
                 Some p \<Rightarrow> upd p (\<lambda>x. x\<lparr>next_free := next_free (hdrs h b)\<rparr>) h
               | None \<Rightarrow> h\<lparr>free_list_head := next_free (hdrs h b)\<rparr>);
          h = (case next_free (hdrs h b) of
                 Some n \<Rightarrow> upd n (\<lambda>x. x\<lparr>prev_free := prev_free (hdrs h b)\<rparr>) h
               | None \<Rightarrow> h)
      in upd b (\<lambda>x. x\<lparr>next_free := None, prev_free := None\<rparr>) h)"

text \<open>The common tail of coalescing: the block after \<open>b\<close>, if there is one, points back at it.\<close>

definition fix_after :: "nat \<Rightarrow> heap \<Rightarrow> heap" where
  "fix_after b h =
     (let after = next_phys h b
      in if after < HEAP_SIZE \<and> magic (hdrs h after) = HDR_MAGIC
         then upd after (\<lambda>x. x\<lparr>prev_phys := Some b\<rparr>) h else h)"

definition coalesce_forward :: "nat \<Rightarrow> heap \<Rightarrow> heap" where
  "coalesce_forward b h =
     (let nx = next_phys h b
      in if HEAP_SIZE \<le> nx \<or> magic (hdrs h nx) \<noteq> HDR_MAGIC \<or> \<not> free (hdrs h nx) then h
         else let h = free_list_remove nx h;
                  h = upd b (\<lambda>x. x\<lparr>bsize := bsize x + bsize (hdrs h nx)\<rparr>) h
              in fix_after b h)"

section \<open>Operations\<close>

definition malloc_init :: "heap \<Rightarrow> heap" where
  "malloc_init h = h\<lparr>hdrs := (hdrs h)(0 := \<lparr>magic = HDR_MAGIC, free = True, bsize = HEAP_SIZE, prev_phys = None,
      next_free = None, prev_free = None\<rparr>), free_list_head := Some 0, heap_allocated := 0\<rparr>"

text \<open>\<open>ALIGN_UP(sizeof(block_hdr_t)) + ALIGN_UP(size) + sizeof(uint32_t)\<close>, in 64-bit arithmetic.\<close>

definition align_up :: "u64 \<Rightarrow> u64" where
  "align_up n = (n + 15) AND NOT 15"

definition need_of :: "u64 \<Rightarrow> u64" where
  "need_of sz = 48 + align_up sz + 4"

text \<open>The first-fit walk. It has no result while the list it follows does not end.\<close>

partial_function (option) first_fit :: "heap \<Rightarrow> nat \<Rightarrow> nat option \<Rightarrow> nat option option" where
  "first_fit h need b = (case b of None \<Rightarrow> Some None
     | Some x \<Rightarrow> if bsize (hdrs h x) < need then first_fit h need (next_free (hdrs h x)) else Some (Some x))"

definition split_block :: "nat \<Rightarrow> nat \<Rightarrow> heap \<Rightarrow> heap" where
  "split_block b need h =
     (let split = b + need;
          h = upd split (\<lambda>_. \<lparr>magic = HDR_MAGIC, free = True, bsize = bsize (hdrs h b) - need, prev_phys = Some b,
                next_free = None, prev_free = None\<rparr>) h;
          h = fix_after split h;
          h = free_list_insert split h
      in upd b (\<lambda>x. x\<lparr>bsize := need\<rparr>) h)"

text \<open>The result is the heap and the returned pointer.\<close>

definition kmalloc :: "u64 \<Rightarrow> heap \<Rightarrow> (heap \<times> nat option) option" where
  "kmalloc sz h =
     (if sz = 0 then Some (h, None)
      else let h = (if free_list_head h = None then malloc_init h else h);
               need = unat (need_of sz)
        in do {
          r \<leftarrow> first_fit h need (free_list_head h);
          case r of None \<Rightarrow> Some (h, None)
          | Some b \<Rightarrow>
              let h = (if bsize (hdrs h b) \<ge> need + MIN_PAYLOAD then split_block b need h else h);
                  h = free_list_remove b h;
                  h = upd b (\<lambda>x. x\<lparr>free := False\<rparr>) h;
                  h = h\<lparr>heap_allocated := heap_allocated h + of_nat (bsize (hdrs h b))\<rparr>;
                  h = h\<lparr>canaries := (canaries h)(tail_canary h b := TAIL_MAGIC)\<rparr>
              in Some (h, Some (b + HDR_SIZE))
        })"

datatype kfree_diag = KfreeNull | KfreeCorrupt | KfreeDouble | KfreeOverflow | KfreeOk

text \<open>The body of \<open>kfree\<close> once the block is known to be in use.\<close>

definition release :: "nat \<Rightarrow> heap \<Rightarrow> heap" where
  "release b h =
     (let h = h\<lparr>heap_allocated := heap_allocated h - of_nat (bsize (hdrs h b))\<rparr>;
          h = upd b (\<lambda>x. x\<lparr>free := True\<rparr>) h;
          h = coalesce_forward b h
      in case prev_phys (hdrs h b) of
           Some prev \<Rightarrow>
             if magic (hdrs h prev) = HDR_MAGIC \<and> free (hdrs h prev) then
               let h = free_list_remove prev h;
                   h = upd prev (\<lambda>x. x\<lparr>bsize := bsize x + bsize (hdrs h b)\<rparr>) h;
                   h = fix_after prev h
               in free_list_insert prev h
             else free_list_insert b h
         | None \<Rightarrow> free_list_insert b h)"

text \<open>
  \<open>kfree\<close>, with the message it prints. A pointer below the first payload is outside the array.
  The walk that looks for the culprit of a corrupt header only prints.
\<close>

definition kfree :: "nat option \<Rightarrow> heap \<Rightarrow> (heap \<times> kfree_diag) option" where
  "kfree ptr h =
     (case ptr of None \<Rightarrow> Some (h, KfreeNull)
      | Some p \<Rightarrow>
          if p < HDR_SIZE \<or> HEAP_SIZE < p then None
          else let b = p - HDR_SIZE
            in if magic (hdrs h b) \<noteq> HDR_MAGIC then Some (h, KfreeCorrupt)
               else if free (hdrs h b) then Some (h, KfreeDouble)
               else Some (release b h,
                      if canaries h (tail_canary h b) \<noteq> TAIL_MAGIC then KfreeOverflow else KfreeOk))"

text \<open>\<open>kcalloc\<close>; the zeroed region is the third component.\<close>

definition kcalloc :: "u64 \<Rightarrow> u64 \<Rightarrow> heap \<Rightarrow> (heap \<times> nat option \<times> (nat \<times> nat) option) option" where
  "kcalloc nmemb sz h =
     (if nmemb = 0 \<or> sz = 0 then Some (h, None, None)
      else let tot = nmemb * sz
        in if tot div nmemb \<noteq> sz then Some (h, None, None)
           else do {
             (h, p) \<leftarrow> kmalloc tot h;
             Some (h, p, map_option (\<lambda>x. (x, unat tot)) p)
           })"

text \<open>The walk of \<open>heap_stats\<close>: bytes and blocks on the free list.\<close>

partial_function (option) stats_walk :: "heap \<Rightarrow> nat option \<Rightarrow> u64 \<Rightarrow> u64 \<Rightarrow> (u64 \<times> u64) option" where
  "stats_walk h b bytes blocks = (case b of None \<Rightarrow> Some (bytes, blocks)
     | Some x \<Rightarrow> stats_walk h (next_free (hdrs h x)) (bytes + (of_nat (bsize (hdrs h x)) - 48)) (blocks + 1))"

definition heap_stats :: "heap \<Rightarrow> (heap \<times> u64 \<times> u64) option" where
  "heap_stats h =
     (let h = (if free_list_head h = None then malloc_init h else h)
      in do { (bytes, blocks) \<leftarrow> stats_walk h (free_list_head h) 0 0; Some (h, bytes, blocks) })"

section \<open>What the primitive operations change\<close>

abbreviation nf :: "heap \<Rightarrow> nat \<Rightarrow> nat option" where
  "nf h \<equiv> \<lambda>x. next_free (hdrs h x)"

abbreviation pf :: "heap \<Rightarrow> nat \<Rightarrow> nat option" where
  "pf h \<equiv> \<lambda>x. prev_free (hdrs h x)"

lemma hdrs_upd [simp]: "hdrs (upd b f h) x = (if x = b then f (hdrs h b) else hdrs h x)"
  by (simp add: upd_def)

lemma upd_other [simp]: "free_list_head (upd b f h) = free_list_head h" "heap_allocated (upd b f h) = heap_allocated h"
  "canaries (upd b f h) = canaries h"
  by (simp_all add: upd_def)

lemma insert_phys [simp]:
  "magic (hdrs (free_list_insert b h) x) = magic (hdrs h x)" "free (hdrs (free_list_insert b h) x) = free (hdrs h x)"
  "bsize (hdrs (free_list_insert b h) x) = bsize (hdrs h x)" "prev_phys (hdrs (free_list_insert b h) x) = prev_phys (hdrs h x)"
  "heap_allocated (free_list_insert b h) = heap_allocated h" "canaries (free_list_insert b h) = canaries h"
  by (auto simp: free_list_insert_def Let_def split: option.splits)

lemma insert_links:
  "free_list_head (free_list_insert b h) = Some b"
  "nf (free_list_insert b h) = (nf h)(b := free_list_head h)"
  "pf (free_list_insert b h) = (case free_list_head h of None \<Rightarrow> (pf h)(b := None) | Some y \<Rightarrow> (pf h)(b := None, y := Some b))"
  by (auto simp: free_list_insert_def Let_def fun_eq_iff split: option.splits)

lemma remove_phys [simp]:
  "magic (hdrs (free_list_remove b h) x) = magic (hdrs h x)" "free (hdrs (free_list_remove b h) x) = free (hdrs h x)"
  "bsize (hdrs (free_list_remove b h) x) = bsize (hdrs h x)" "prev_phys (hdrs (free_list_remove b h) x) = prev_phys (hdrs h x)"
  "heap_allocated (free_list_remove b h) = heap_allocated h" "canaries (free_list_remove b h) = canaries h"
  by (auto simp: free_list_remove_def Let_def split: option.splits)

lemma remove_links:
  assumes "pf h b \<noteq> Some b" "nf h b \<noteq> Some b"
  shows "free_list_head (free_list_remove b h) = (if pf h b = None then nf h b else free_list_head h)"
    "nf (free_list_remove b h) = unlink_next (nf h) (pf h) b"
    "pf (free_list_remove b h) = unlink_prev (nf h) (pf h) b"
  using assms
  by (auto simp: free_list_remove_def Let_def unlink_next_def unlink_prev_def fun_eq_iff split: option.splits)

lemma fix_after_other [simp]:
  "magic (hdrs (fix_after b h) x) = magic (hdrs h x)" "free (hdrs (fix_after b h) x) = free (hdrs h x)"
  "bsize (hdrs (fix_after b h) x) = bsize (hdrs h x)" "next_free (hdrs (fix_after b h) x) = next_free (hdrs h x)"
  "prev_free (hdrs (fix_after b h) x) = prev_free (hdrs h x)" "free_list_head (fix_after b h) = free_list_head h"
  "heap_allocated (fix_after b h) = heap_allocated h" "canaries (fix_after b h) = canaries h"
  by (auto simp: fix_after_def Let_def)

lemma fix_after_prev:
  "prev_phys (hdrs (fix_after b h) x) =
     (if x = next_phys h b \<and> x < HEAP_SIZE \<and> magic (hdrs h x) = HDR_MAGIC then Some b else prev_phys (hdrs h x))"
  by (auto simp: fix_after_def Let_def)

section \<open>The invariant\<close>

text \<open>
  The blocks \<open>bs\<close> tile the array from \<open>a\<close> to \<open>e\<close>: each starts where the one before it ends, has
  the header magic, is large enough for a header and a canary, and points back at its
  physical predecessor; \<open>q\<close> is the last one.
\<close>

fun tiles :: "(nat \<Rightarrow> block_hdr) \<Rightarrow> nat \<Rightarrow> nat option \<Rightarrow> nat list \<Rightarrow> nat \<Rightarrow> nat option \<Rightarrow> bool" where
  "tiles H a pr [] e q = (a = e \<and> pr = q)"
| "tiles H a pr (b # bs) e q = (b = a \<and> magic (H b) = HDR_MAGIC \<and> 52 \<le> bsize (H b) \<and> prev_phys (H b) = pr \<and>
     tiles H (b + bsize (H b)) (Some b) bs e q)"

text \<open>No two neighbours are both free: the memory of freed blocks has been merged.\<close>

fun coalesced :: "(nat \<Rightarrow> block_hdr) \<Rightarrow> nat list \<Rightarrow> bool" where
  "coalesced H (a # b # bs) = (\<not> (free (H a) \<and> free (H b)) \<and> coalesced H (b # bs))"
| "coalesced H _ = True"

definition wf :: "heap \<Rightarrow> nat list \<Rightarrow> nat list \<Rightarrow> bool" where
  "wf h bs fs \<longleftrightarrow> (\<exists>q. tiles (hdrs h) 0 None bs HEAP_SIZE q) \<and> (\<exists>t. dll (nf h) (pf h) (free_list_head h) t fs) \<and>
     set fs = {b \<in> set bs. free (hdrs h b)} \<and> coalesced (hdrs h) bs"

lemma tiles_append: "tiles H a pr (xs @ ys) e q \<longleftrightarrow> (\<exists>m r. tiles H a pr xs m r \<and> tiles H m r ys e q)"
  by (induction xs arbitrary: a pr) auto

lemma tiles_cong:
  "(\<And>b. b \<in> set bs \<Longrightarrow> magic (H b) = magic (H' b) \<and> bsize (H b) = bsize (H' b) \<and> prev_phys (H b) = prev_phys (H' b)) \<Longrightarrow>
   tiles H a pr bs e q = tiles H' a pr bs e q"
  by (induction bs arbitrary: a pr) auto

lemma tiles_range: "tiles H a pr bs e q \<Longrightarrow> a \<le> e \<and> (\<forall>b \<in> set bs. a \<le> b \<and> b + bsize (H b) \<le> e \<and> 52 \<le> bsize (H b) \<and> magic (H b) = HDR_MAGIC)"
  by (induction bs arbitrary: a pr) fastforce+

lemma tiles_last: "tiles H a pr bs e q \<Longrightarrow> q = (if bs = [] then pr else Some (last bs))"
  by (induction bs arbitrary: a pr) auto

lemma tiles_distinct: "tiles H a pr bs e q \<Longrightarrow> distinct bs"
proof (induction bs arbitrary: a pr)
  case (Cons b bs)
  then have "\<forall>c \<in> set bs. b + bsize (H b) \<le> c" "52 \<le> bsize (H b)" using tiles_range by fastforce+
  then show ?case using Cons by fastforce
qed simp

text \<open>Two blocks of a tiling do not overlap.\<close>

lemma tiles_disjoint:
  "tiles H a pr bs e q \<Longrightarrow> x \<in> set bs \<Longrightarrow> y \<in> set bs \<Longrightarrow> x < y \<Longrightarrow> x + bsize (H x) \<le> y"
proof (induction bs arbitrary: a pr)
  case (Cons b bs)
  have later: "\<forall>c \<in> set bs. b + bsize (H b) \<le> c" using tiles_range Cons.prems(1) by fastforce
  show ?case using Cons later by (cases "x = b"; cases "y = b") fastforce+
qed simp

lemma tiles_unique: "tiles H a pr bs e q \<Longrightarrow> tiles H a pr' cs e q' \<Longrightarrow> bs = cs"
proof (induction bs arbitrary: a pr pr' cs)
  case Nil
  then show ?case by (cases cs) (auto dest: tiles_range)
next
  case (Cons b bs)
  then show ?case by (cases cs) (auto dest: tiles_range)
qed

lemma coalesced_cong: "(\<And>b. b \<in> set bs \<Longrightarrow> free (H b) = free (H' b)) \<Longrightarrow> coalesced H bs = coalesced H' bs"
  by (induction H bs rule: coalesced.induct) auto

lemma coalesced_append:
  "coalesced H (xs @ b # ys) \<longleftrightarrow> coalesced H (xs @ [b]) \<and> coalesced H (b # ys)"
proof (induction xs)
  case (Cons x xs)
  then show ?case by (cases xs) auto
qed simp

lemma coalesced_snoc: "coalesced H (xs @ [b]) \<longleftrightarrow> coalesced H xs \<and> (xs \<noteq> [] \<longrightarrow> \<not> (free (H (last xs)) \<and> free (H b)))"
proof (induction xs)
  case (Cons x xs)
  then show ?case by (cases xs) auto
qed simp

lemma coalesced_Cons: "coalesced H (b # ys) \<longleftrightarrow> coalesced H ys \<and> (ys \<noteq> [] \<longrightarrow> \<not> (free (H b) \<and> free (H (hd ys))))"
  by (cases ys) auto

text \<open>
  The layout of the heap in the middle of an operation: the blocks of \<open>X\<close> are off the free list
  although they are marked free.
\<close>

definition lay :: "heap \<Rightarrow> nat list \<Rightarrow> nat list \<Rightarrow> nat set \<Rightarrow> bool" where
  "lay h bs fs X \<longleftrightarrow> (\<exists>q. tiles (hdrs h) 0 None bs HEAP_SIZE q) \<and> (\<exists>t. dll (nf h) (pf h) (free_list_head h) t fs) \<and>
     set fs = {b \<in> set bs. free (hdrs h b)} - X"

lemma wf_lay: "wf h bs fs \<longleftrightarrow> lay h bs fs {} \<and> coalesced (hdrs h) bs"
  by (simp add: wf_def lay_def)

lemma lay_other [simp]: "lay (h\<lparr>heap_allocated := a\<rparr>) = lay h" "lay (h\<lparr>canaries := c\<rparr>) = lay h"
  by (simp_all add: lay_def fun_eq_iff)

lemma lay_distinct: "lay h bs fs X \<Longrightarrow> distinct bs"
  by (auto simp: lay_def dest: tiles_distinct)

lemma lay_range: "lay h bs fs X \<Longrightarrow> b \<in> set bs \<Longrightarrow> b + bsize (hdrs h b) \<le> HEAP_SIZE \<and> 52 \<le> bsize (hdrs h b) \<and> magic (hdrs h b) = HDR_MAGIC"
  by (auto simp: lay_def dest!: tiles_range)

lemma lay_disjoint: "lay h bs fs X \<Longrightarrow> x \<in> set bs \<Longrightarrow> y \<in> set bs \<Longrightarrow> x < y \<Longrightarrow> x + bsize (hdrs h x) \<le> y"
  by (auto simp: lay_def dest: tiles_disjoint)

lemma tiles_fields:
  assumes "\<And>x. magic (hdrs h' x) = magic (hdrs h x)" "\<And>x. bsize (hdrs h' x) = bsize (hdrs h x)"
    "\<And>x. prev_phys (hdrs h' x) = prev_phys (hdrs h x)"
  shows "tiles (hdrs h') = tiles (hdrs h)"
  using tiles_cong [of _ "hdrs h'" "hdrs h"] assms by (intro ext) blast

lemma dll_not_self: "dll n p a t fs \<Longrightarrow> c \<in> set fs \<Longrightarrow> p c \<noteq> Some c \<and> n c \<noteq> Some c"
proof -
  assume d: "dll n p a t fs" "c \<in> set fs"
  then obtain xs ys where fs: "fs = xs @ c # ys" by (auto simp: in_set_conv_decomp)
  obtain m r where s: "seg n p None a xs m r" "seg n p r m (c # ys) None t" "distinct fs"
    using d(1) by (auto simp: dll_def fs seg_append)
  then have "p c = r" "seg n p (Some c) (n c) ys None t" by auto
  then show ?thesis using seg_last [OF s(1)] seg_first [of n p "Some c" "n c" ys None t] s(3) by (auto simp: fs)
qed

lemma lay_remove:
  assumes "lay h bs fs X" "c \<in> set fs"
  shows "lay (free_list_remove c h) bs (remove1 c fs) (insert c X)"
proof -
  obtain t where d: "dll (nf h) (pf h) (free_list_head h) t fs" using assms(1) by (auto simp: lay_def)
  have ds: "distinct fs" using d by (simp add: dll_def)
  obtain xs ys where fs: "fs = xs @ c # ys" "c \<notin> set xs" using assms(2) by (metis split_list_first)
  have "remove1 c fs = xs @ ys" by (simp add: fs remove1_append)
  moreover have "tiles (hdrs (free_list_remove c h)) = tiles (hdrs h)" by (rule tiles_fields) simp_all
  ultimately show ?thesis
    using assms(1) dll_remove [of "nf h" "pf h" "free_list_head h" t xs c ys] d ds
      remove_links [of h c] dll_not_self [OF d assms(2)]
    unfolding lay_def by (auto simp: fs)
qed

lemma lay_insert:
  assumes "lay h bs fs X" "c \<in> X" "c \<in> set bs" "free (hdrs h c)"
  shows "lay (free_list_insert c h) bs (c # fs) (X - {c})"
proof -
  obtain t where d: "dll (nf h) (pf h) (free_list_head h) t fs" using assms(1) by (auto simp: lay_def)
  have "c \<notin> set fs" using assms by (auto simp: lay_def)
  moreover have "tiles (hdrs (free_list_insert c h)) = tiles (hdrs h)" by (rule tiles_fields) simp_all
  ultimately show ?thesis
    using assms dll_push_front [OF d] unfolding lay_def by (auto simp: insert_links)
qed

lemma lay_flag:
  assumes "lay h bs fs X"
  shows "lay (upd b (\<lambda>x. x\<lparr>free := True\<rparr>) h) bs fs (if free (hdrs h b) then X else insert b X)"
    and "b \<notin> set fs \<Longrightarrow> lay (upd b (\<lambda>x. x\<lparr>free := False\<rparr>) h) bs fs (X - {b})"
proof -
  have "tiles (hdrs (upd b (\<lambda>x. x\<lparr>free := v\<rparr>) h)) = tiles (hdrs h)" for v by (rule tiles_fields) simp_all
  moreover have "nf (upd b (\<lambda>x. x\<lparr>free := v\<rparr>) h) = nf h" "pf (upd b (\<lambda>x. x\<lparr>free := v\<rparr>) h) = pf h" for v
    by (auto simp: fun_eq_iff)
  ultimately show "lay (upd b (\<lambda>x. x\<lparr>free := True\<rparr>) h) bs fs (if free (hdrs h b) then X else insert b X)"
    and "b \<notin> set fs \<Longrightarrow> lay (upd b (\<lambda>x. x\<lparr>free := False\<rparr>) h) bs fs (X - {b})"
    using assms by (auto simp: lay_def)
qed

text \<open>Changing the back pointer of the block at the start of a tiling.\<close>

lemma tiles_swap:
  assumes "tiles H a pr ys e q"
    and "\<And>x. x \<in> set ys \<Longrightarrow> magic (H' x) = magic (H x) \<and> bsize (H' x) = bsize (H x) \<and>
      prev_phys (H' x) = (if x = a then pr' else prev_phys (H x))"
  shows "\<exists>q'. tiles H' a pr' ys e q'"
proof (cases ys)
  case (Cons y zs)
  have "y \<notin> set zs" "y = a" using tiles_distinct [OF assms(1)] assms(1) Cons by auto
  then have "tiles H (y + bsize (H y)) (Some y) zs e q = tiles H' (y + bsize (H y)) (Some y) zs e q"
    using assms(2) Cons by (intro tiles_cong) auto
  then show ?thesis using assms Cons \<open>y = a\<close> by auto
qed (use assms(1) in auto)

definition merge :: "nat \<Rightarrow> nat \<Rightarrow> heap \<Rightarrow> heap" where
  "merge p x h = fix_after p (upd p (\<lambda>y. y\<lparr>bsize := bsize y + bsize (hdrs h x)\<rparr>) h)"

lemma merge_other [simp]:
  "magic (hdrs (merge p x h) y) = magic (hdrs h y)" "free (hdrs (merge p x h) y) = free (hdrs h y)"
  "next_free (hdrs (merge p x h) y) = next_free (hdrs h y)"
  "prev_free (hdrs (merge p x h) y) = prev_free (hdrs h y)" "free_list_head (merge p x h) = free_list_head h"
  "heap_allocated (merge p x h) = heap_allocated h" "canaries (merge p x h) = canaries h"
  by (auto simp: merge_def)

lemma merge_bsize: "bsize (hdrs (merge p x h) y) = (if y = p then bsize (hdrs h p) + bsize (hdrs h x) else bsize (hdrs h y))"
  by (simp add: merge_def)

lemma merge_prev:
  "prev_phys (hdrs (merge p x h) y) =
     (if y = p + bsize (hdrs h p) + bsize (hdrs h x) \<and> y < HEAP_SIZE \<and> magic (hdrs h y) = HDR_MAGIC then Some p else prev_phys (hdrs h y))"
  by (auto simp: merge_def fix_after_prev next_phys_def add.assoc)

lemma lay_merge:
  assumes "lay h (xs @ p # x # ys) fs X" "x \<in> X"
  shows "lay (merge p x h) (xs @ p # ys) fs (X - {x})"
proof -
  let ?H = "hdrs h" and ?H' = "hdrs (merge p x h)"
  let ?e = "p + bsize (hdrs h p) + bsize (hdrs h x)"
  obtain q where t: "tiles ?H 0 None (xs @ p # x # ys) HEAP_SIZE q" using assms(1) by (auto simp: lay_def)
  have d: "distinct (xs @ p # x # ys)" using tiles_distinct [OF t] .
  obtain r where tx: "tiles ?H 0 None xs p r" and px: "prev_phys (?H p) = r" "52 \<le> bsize (?H p)"
    and x: "x = p + bsize (?H p)" "magic (?H p) = HDR_MAGIC"
    and ty: "tiles ?H ?e (Some x) ys HEAP_SIZE q"
    using t by (auto simp: tiles_append)
  have lo: "y + bsize (?H y) \<le> p" if "y \<in> set xs" for y using tiles_range [OF tx] that by blast
  have hi: "?e \<le> y \<and> y < HEAP_SIZE \<and> magic (?H y) = HDR_MAGIC" if "y \<in> set ys" for y
    using tiles_range [OF ty] that by fastforce
  have "tiles ?H 0 None xs p r = tiles ?H' 0 None xs p r"
    using d lo x by (intro tiles_cong) (force simp: merge_bsize merge_prev)
  moreover have "\<exists>q'. tiles ?H' ?e (Some p) ys HEAP_SIZE q'"
    by (rule tiles_swap [OF ty]) (use d hi in \<open>auto simp: merge_bsize merge_prev\<close>)
  then obtain q' where "tiles ?H' ?e (Some p) ys HEAP_SIZE q'" by blast
  moreover have "prev_phys (?H' p) = r" using px x by (auto simp: merge_prev)
  ultimately have "tiles ?H' 0 None (xs @ p # ys) HEAP_SIZE q'"
    using tx px(2) x(2) by (auto simp: tiles_append merge_bsize add.assoc)
  then show ?thesis using assms d by (auto simp: lay_def)
qed

lemma split_fields:
  assumes "0 < need" "need < bsize (hdrs h b)"
  shows "magic (hdrs (split_block b need h) x) = (if x = b + need then HDR_MAGIC else magic (hdrs h x))"
    "free (hdrs (split_block b need h) x) = (x = b + need \<or> free (hdrs h x))"
    "bsize (hdrs (split_block b need h) x) = (if x = b then need else if x = b + need then bsize (hdrs h b) - need else bsize (hdrs h x))"
    "prev_phys (hdrs (split_block b need h) x) =
       (if x = b + need then Some b
        else if x = b + bsize (hdrs h b) \<and> x < HEAP_SIZE \<and> magic (hdrs h x) = HDR_MAGIC then Some (b + need)
        else prev_phys (hdrs h x))"
    "heap_allocated (split_block b need h) = heap_allocated h" "canaries (split_block b need h) = canaries h"
  using assms by (auto simp: split_block_def Let_def fix_after_prev next_phys_def)

lemma split_links:
  assumes "0 < need"
  shows "free_list_head (split_block b need h) = Some (b + need)"
    "nf (split_block b need h) = (nf h)(b + need := free_list_head h)"
    "pf (split_block b need h) = (case free_list_head h of None \<Rightarrow> (pf h)(b + need := None)
       | Some y \<Rightarrow> (pf h)(b + need := None, y := Some (b + need)))"
proof -
  let ?g = "fix_after (b + need) (upd (b + need) (\<lambda>_. \<lparr>magic = HDR_MAGIC, free = True, bsize = bsize (hdrs h b) - need,
      prev_phys = Some b, next_free = None, prev_free = None\<rparr>) h)"
  have links: "nf (upd b (\<lambda>x. x\<lparr>bsize := need\<rparr>) k) = nf k" "pf (upd b (\<lambda>x. x\<lparr>bsize := need\<rparr>) k) = pf k" for k
    by (auto simp: fun_eq_iff)
  have s: "split_block b need h = upd b (\<lambda>x. x\<lparr>bsize := need\<rparr>) (free_list_insert (b + need) ?g)"
    by (simp add: split_block_def Let_def)
  have g: "nf ?g = (nf h)(b + need := None)" "pf ?g = (pf h)(b + need := None)" by (auto simp: fun_eq_iff)
  show "free_list_head (split_block b need h) = Some (b + need)" unfolding s by (simp add: insert_links)
  show "nf (split_block b need h) = (nf h)(b + need := free_list_head h)"
    unfolding s links insert_links g by (simp add: fun_eq_iff)
  show "pf (split_block b need h) = (case free_list_head h of None \<Rightarrow> (pf h)(b + need := None)
       | Some y \<Rightarrow> (pf h)(b + need := None, y := Some (b + need)))"
    unfolding s links insert_links g by (simp add: fun_eq_iff split: option.splits)
qed

lemma lay_split:
  assumes "lay h (xs @ b # ys) fs X" "52 \<le> need" "need + 52 \<le> bsize (hdrs h b)" "b + need \<notin> X"
  shows "lay (split_block b need h) (xs @ b # (b + need) # ys) ((b + need) # fs) X"
proof -
  let ?H = "hdrs h" and ?H' = "hdrs (split_block b need h)"
  obtain q where t: "tiles ?H 0 None (xs @ b # ys) HEAP_SIZE q" using assms(1) by (auto simp: lay_def)
  have d: "distinct (xs @ b # ys)" using tiles_distinct [OF t] .
  obtain r where tx: "tiles ?H 0 None xs b r" and px: "prev_phys (?H b) = r" "magic (?H b) = HDR_MAGIC"
    and ty: "tiles ?H (b + bsize (?H b)) (Some b) ys HEAP_SIZE q"
    using t by (auto simp: tiles_append)
  note sf = split_fields [of need h b]
  have lo: "y < b" if "y \<in> set xs" for y using tiles_range [OF tx] that by fastforce
  have hi: "b + bsize (?H b) \<le> y \<and> y < HEAP_SIZE \<and> magic (?H y) = HDR_MAGIC" if "y \<in> set ys" for y
    using tiles_range [OF ty] that by fastforce
  have fresh: "b + need \<notin> set (xs @ b # ys)" using lo hi assms by fastforce
  have "tiles ?H 0 None xs b r = tiles ?H' 0 None xs b r"
    using lo assms(2,3) by (intro tiles_cong) (force simp: sf)
  moreover have "\<exists>q'. tiles ?H' (b + bsize (?H b)) (Some (b + need)) ys HEAP_SIZE q'"
    by (rule tiles_swap [OF ty]) (use d hi fresh assms(2,3) in \<open>auto simp: sf\<close>)
  then obtain q' where "tiles ?H' (b + bsize (?H b)) (Some (b + need)) ys HEAP_SIZE q'" by blast
  ultimately have "tiles ?H' 0 None (xs @ b # (b + need) # ys) HEAP_SIZE q'"
    using tx px assms(2,3) by (auto simp: tiles_append sf)
  moreover obtain u where "dll (nf h) (pf h) (free_list_head h) u fs" using assms(1) by (auto simp: lay_def)
  moreover have "b + need \<notin> set fs" using fresh assms(1) by (auto simp: lay_def)
  ultimately show ?thesis
    using assms fresh dll_push_front [of "nf h" "pf h" "free_list_head h" u fs "b + need"]
    unfolding lay_def by (auto simp: split_links sf)
qed

section \<open>Allocation\<close>

lemma first_fit_find:
  "seg (nf h) (pf h) pr a fs None q \<Longrightarrow> first_fit h need a = Some (find (\<lambda>b. need \<le> bsize (hdrs h b)) fs)"
proof (induction fs arbitrary: pr a)
  case Nil
  then show ?case by (subst first_fit.simps) simp
next
  case (Cons b fs)
  then show ?case by (subst first_fit.simps) (auto simp: not_le)
qed

text \<open>The search ends on a well-formed heap, with the first block of the free list that is large enough.\<close>

lemma first_fit_lay:
  "lay h bs fs X \<Longrightarrow> first_fit h need (free_list_head h) = Some (find (\<lambda>b. need \<le> bsize (hdrs h b)) fs)"
  by (auto simp: lay_def dll_def intro: first_fit_find)

lemma align_up_unat: "unat (n AND NOT (15 :: u64)) = unat n div 16 * 16"
proof -
  have m: "(15 :: u64) = mask 4" by (simp add: mask_eq_exp_minus_1)
  have "n AND NOT 15 = push_bit 4 (drop_bit 4 n)"
    unfolding m by (rule bit_word_eqI) (auto simp: bit_simps)
  also have "\<dots> = (n div 16) * 16"
    by (simp add: push_bit_eq_mult drop_bit_eq_div)
  finally have "unat (n AND NOT 15) = (unat n div 16 * 16) mod 2 ^ 64"
    by (simp add: unat_word_ariths unat_div mod_mult_left_eq)
  moreover have "unat n div 16 * 16 < 2 ^ 64" 
    by (rule le_less_trans [of _ "unat n"]) (use unsigned_less [of n, where ?'a = nat] in simp_all)
  ultimately show ?thesis by simp
qed

lemma need_of_unat:
  assumes "unat sz < 2 ^ 63"
  shows "unat (need_of sz) = 52 + (unat sz + 15) div 16 * 16"
proof -
  have "unat (sz + 15) = unat sz + 15" using assms by (subst unat_add_lem [THEN iffD1]) simp_all
  then have a: "unat (align_up sz) = (unat sz + 15) div 16 * 16" by (simp only: align_up_def align_up_unat)
  have "(unat sz + 15) div 16 * 16 \<le> unat sz + 15" by simp
  then have b: "52 + unat (align_up sz) < 2 ^ 64" using assms unfolding a by simp
  then have "unat (48 + align_up sz) = 48 + unat (align_up sz)" by (subst unat_add_lem [THEN iffD1]) simp_all
  then have "unat (48 + align_up sz + 4) = 52 + unat (align_up sz)" using b by (subst unat_add_lem [THEN iffD1]) simp_all
  then show ?thesis unfolding need_of_def a .
qed

text \<open>
  The regions in use: the start and length of the payload of every block that is not free. On
  a well-formed heap the blocks are determined by the headers.
\<close>

definition regions :: "heap \<Rightarrow> nat list \<Rightarrow> (nat \<times> nat) set" where
  "regions h bs = (\<lambda>b. (b + HDR_SIZE, bsize (hdrs h b) - 52)) ` {b \<in> set bs. \<not> free (hdrs h b)}"

lemma lay_take:
  assumes "lay h bs fs {}" "b \<in> set fs"
  defines "h' \<equiv> upd b (\<lambda>x. x\<lparr>free := False\<rparr>) (free_list_remove b h)"
  shows "lay h' bs (remove1 b fs) {}" "regions h' bs = insert (b + HDR_SIZE, bsize (hdrs h b) - 52) (regions h bs)"
proof -
  have "distinct fs" using assms(1) by (auto simp: lay_def dll_def)
  then have "b \<notin> set (remove1 b fs)" by simp
  from lay_flag(2) [OF lay_remove [OF assms(1,2)] this] show "lay h' bs (remove1 b fs) {}" by (simp add: h'_def)
  have "{c \<in> set bs. \<not> free (hdrs h' c)} = insert b {c \<in> set bs. \<not> free (hdrs h c)}"
    using assms(1,2) by (auto simp: lay_def h'_def)
  then show "regions h' bs = insert (b + HDR_SIZE, bsize (hdrs h b) - 52) (regions h bs)"
    by (auto simp: regions_def h'_def)
qed

lemma regions_cong:
  "(\<And>b. b \<in> set bs \<Longrightarrow> free (hdrs h b) = free (hdrs h' b) \<and> bsize (hdrs h b) = bsize (hdrs h' b)) \<Longrightarrow> regions h bs = regions h' bs"
  by (auto simp: regions_def image_iff)

lemma regions_other [simp]: "regions (h\<lparr>heap_allocated := a\<rparr>) = regions h" "regions (h\<lparr>canaries := c\<rparr>) = regions h"
  by (simp_all add: regions_def fun_eq_iff)

lemma wf_other [simp]: "wf (h\<lparr>heap_allocated := a\<rparr>) = wf h" "wf (h\<lparr>canaries := c\<rparr>) = wf h"
  by (simp_all add: wf_lay fun_eq_iff)

text \<open>Marking a block used when both its neighbours already were, or when it was split off, keeps the heap coalesced.\<close>

lemma coalesced_used: "coalesced H bs \<Longrightarrow> (\<And>b. b \<in> set bs \<Longrightarrow> free (H' b) \<Longrightarrow> free (H b)) \<Longrightarrow> coalesced H' bs"
  by (induction H bs rule: coalesced.induct) auto

text \<open>The heap after a block has been taken, before the accounting and the canary.\<close>

definition carve :: "nat \<Rightarrow> nat \<Rightarrow> heap \<Rightarrow> heap" where
  "carve need b h = upd b (\<lambda>x. x\<lparr>free := False\<rparr>) (free_list_remove b
     (if bsize (hdrs h b) \<ge> need + MIN_PAYLOAD then split_block b need h else h))"

lemma carve_wf:
  assumes "wf h bs fs" "b \<in> set fs" "52 \<le> need" "need \<le> bsize (hdrs h b)"
  shows "\<exists>bs' fs'. wf (carve need b h) bs' fs' \<and>
    regions (carve need b h) bs' = insert (b + HDR_SIZE, bsize (hdrs (carve need b h) b) - 52) (regions h bs)"
proof (cases "bsize (hdrs h b) \<ge> need + MIN_PAYLOAD")
  case False
  have l: "lay h bs fs {}" using assms(1) by (simp add: wf_lay)
  have c: "carve need b h = upd b (\<lambda>x. x\<lparr>free := False\<rparr>) (free_list_remove b h)" using False by (simp add: carve_def)
  have "coalesced (hdrs (carve need b h)) bs"
    by (rule coalesced_used [of "hdrs h"]) (use assms(1) c in \<open>auto simp: wf_lay split: if_splits\<close>)
  then show ?thesis using lay_take [OF l assms(2)] unfolding c by (force simp: wf_lay)
next
  case True
  have l: "lay h bs fs {}" using assms(1) by (simp add: wf_lay)
  then have "b \<in> set bs" and fb: "free (hdrs h b)" using assms(2) by (auto simp: lay_def)
  then obtain xs ys where bs: "bs = xs @ b # ys" by (auto simp: in_set_conv_decomp)
  let ?s = "split_block b need h" and ?bs = "xs @ b # (b + need) # ys"
  have n: "0 < need" "need < bsize (hdrs h b)" using True assms(3) by (auto simp: MIN_PAYLOAD_def)
  note sf = split_fields [OF n]
  have ls: "lay ?s ?bs ((b + need) # fs) {}"
    using lay_split [of h xs b ys fs "{}" need] l True assms(3) bs by (simp add: MIN_PAYLOAD_def)
  have c: "carve need b h = upd b (\<lambda>x. x\<lparr>free := False\<rparr>) (free_list_remove b ?s)" using True by (simp add: carve_def)
  have d: "distinct ?bs" by (rule lay_distinct [OF ls])
  have co: "coalesced (hdrs h) (xs @ [b])" "coalesced (hdrs h) (b # ys)"
    using assms(1) bs coalesced_append [of "hdrs h" xs b ys] by (auto simp: wf_lay)
  have 1: "coalesced (hdrs (carve need b h)) (xs @ [b])"
    by (rule coalesced_used [OF co(1)]) (use d in \<open>auto simp: c sf split: if_splits\<close>)
  have "coalesced (hdrs (carve need b h)) ys"
    by (rule coalesced_used [of "hdrs h"]) (use co(2) d in \<open>auto simp: c sf coalesced_Cons split: if_splits\<close>)
  moreover have "ys \<noteq> [] \<Longrightarrow> \<not> free (hdrs (carve need b h) (hd ys))"
    using co(2) fb d by (cases ys) (auto simp: c sf)
  ultimately have "coalesced (hdrs (carve need b h)) ?bs"
    using 1 coalesced_append [of _ xs b "(b + need) # ys"] by (auto simp: coalesced_Cons c)
  moreover have "regions ?s ?bs = regions h bs"
    using d fb by (auto simp: regions_def sf bs image_iff)
  ultimately show ?thesis using lay_take [OF ls, of b] assms(2) unfolding c by (force simp: wf_lay)
qed

lemma kmalloc_eq:
  assumes "wf h bs fs" "free_list_head h \<noteq> None" "sz \<noteq> 0"
  shows "kmalloc sz h = (case find (\<lambda>b. unat (need_of sz) \<le> bsize (hdrs h b)) fs of None \<Rightarrow> Some (h, None)
     | Some b \<Rightarrow> let g = carve (unat (need_of sz)) b h
        in Some (g\<lparr>heap_allocated := heap_allocated g + of_nat (bsize (hdrs g b)),
             canaries := (canaries g)(tail_canary g b := TAIL_MAGIC)\<rparr>, Some (b + HDR_SIZE)))"
  using assms first_fit_lay [of h bs fs "{}" "unat (need_of sz)"]
  by (auto simp: kmalloc_def Let_def wf_lay carve_def tail_canary_def split: option.splits)

lemma wf_blocks: "wf h bs fs \<Longrightarrow> wf h cs gs \<Longrightarrow> bs = cs"
  by (auto simp: wf_def dest: tiles_unique)

definition heap_inv :: "heap \<Rightarrow> bool" where
  "heap_inv h \<longleftrightarrow> (\<exists>bs fs. wf h bs fs)"

definition live :: "heap \<Rightarrow> (nat \<times> nat) set" where
  "live h = {r. \<exists>bs fs. wf h bs fs \<and> r \<in> regions h bs}"

lemma live_regions: "wf h bs fs \<Longrightarrow> live h = regions h bs"
  by (auto simp: live_def dest: wf_blocks)

lemma carve_size:
  assumes "need \<le> bsize (hdrs h b)" "52 \<le> need"
  shows "need \<le> bsize (hdrs (carve need b h) b)" "canaries (carve need b h) = canaries h"
  using assms split_fields [of need h b] by (auto simp: carve_def MIN_PAYLOAD_def)

lemma kmalloc_wf:
  assumes "wf h bs fs" "free_list_head h \<noteq> None" "0 < unat sz" "unat sz < 2 ^ 63"
  shows "kmalloc sz h = Some (h, None) \<and> (\<forall>b \<in> set fs. bsize (hdrs h b) < unat sz + 67) \<or>
    (\<exists>h' p n bs' fs'. kmalloc sz h = Some (h', Some p) \<and> wf h' bs' fs' \<and> unat sz \<le> n \<and> (p, n) \<notin> regions h bs \<and>
       regions h' bs' = insert (p, n) (regions h bs) \<and> canaries h' = (canaries h)(p + n := TAIL_MAGIC))"
proof -
  let ?need = "unat (need_of sz)"
  have need: "52 \<le> ?need" "unat sz + 52 \<le> ?need" "?need \<le> unat sz + 67"
    using div_mult_mod_eq [of "unat sz + 15" 16] mod_less_divisor [of 16 "unat sz + 15"]
    unfolding need_of_unat [OF assms(4)] by linarith+
  have sz: "sz \<noteq> 0" using assms(3) by auto
  note eq = kmalloc_eq [OF assms(1,2) sz]
  show ?thesis
  proof (cases "find (\<lambda>b. ?need \<le> bsize (hdrs h b)) fs")
    case None
    then have "kmalloc sz h = Some (h, None)" using eq by simp
    moreover have "\<forall>b \<in> set fs. bsize (hdrs h b) < unat sz + 67" using None need(3) unfolding find_None_iff by fastforce
    ultimately show ?thesis by blast
  next
    case (Some b)
    then have b: "b \<in> set fs" "?need \<le> bsize (hdrs h b)" by (auto simp: find_Some_iff)
    let ?g = "carve ?need b h"
    obtain bs' fs' where w: "wf ?g bs' fs'"
      "regions ?g bs' = insert (b + HDR_SIZE, bsize (hdrs ?g b) - 52) (regions h bs)"
      using carve_wf [OF assms(1) b(1) need(1) b(2)] by blast
    have sz: "?need \<le> bsize (hdrs ?g b)" "canaries ?g = canaries h" using carve_size [OF b(2) need(1)] by blast+
    have "free (hdrs h b)" using b(1) assms(1) by (simp add: wf_def)
    then have "(b + HDR_SIZE, n) \<notin> regions h bs" for n by (auto simp: regions_def)
    moreover have "tail_canary ?g b = b + HDR_SIZE + (bsize (hdrs ?g b) - 52)"
      using sz need by (simp add: tail_canary_def HDR_SIZE_def)
    moreover define h' where "h' = ?g\<lparr>heap_allocated := heap_allocated ?g + of_nat (bsize (hdrs ?g b)),
      canaries := (canaries ?g)(tail_canary ?g b := TAIL_MAGIC)\<rparr>"
    have "kmalloc sz h = Some (h', Some (b + HDR_SIZE))" using eq Some by (simp add: Let_def h'_def)
    moreover have "wf h' bs' fs'" "regions h' bs' = regions ?g bs'" "canaries h' = (canaries h)(tail_canary ?g b := TAIL_MAGIC)"
      using w sz by (simp_all add: h'_def)
    moreover have "unat sz \<le> bsize (hdrs ?g b) - 52" using sz need by linarith
    ultimately have "kmalloc sz h = Some (h', Some (b + HDR_SIZE)) \<and> wf h' bs' fs' \<and> unat sz \<le> bsize (hdrs ?g b) - 52 \<and>
        (b + HDR_SIZE, bsize (hdrs ?g b) - 52) \<notin> regions h bs \<and>
        regions h' bs' = insert (b + HDR_SIZE, bsize (hdrs ?g b) - 52) (regions h bs) \<and>
        canaries h' = (canaries h)(b + HDR_SIZE + (bsize (hdrs ?g b) - 52) := TAIL_MAGIC)" using w(2) by simp
    then show ?thesis by blast
  qed
qed

section \<open>Release\<close>

lemma lay_next:
  assumes "lay h (xs @ b # ys) fs X"
  shows "ys = [] \<Longrightarrow> next_phys h b = HEAP_SIZE" "ys \<noteq> [] \<Longrightarrow> next_phys h b = hd ys \<and> hd ys < HEAP_SIZE \<and> magic (hdrs h (hd ys)) = HDR_MAGIC"
    "prev_phys (hdrs h b) = (if xs = [] then None else Some (last xs))"
proof -
  obtain q r where t: "tiles (hdrs h) 0 None xs b r" "prev_phys (hdrs h b) = r"
    "tiles (hdrs h) (b + bsize (hdrs h b)) (Some b) ys HEAP_SIZE q"
    using assms by (auto simp: lay_def tiles_append)
  show "ys = [] \<Longrightarrow> next_phys h b = HEAP_SIZE" using t(3) by (simp add: next_phys_def)
  show "ys \<noteq> [] \<Longrightarrow> next_phys h b = hd ys \<and> hd ys < HEAP_SIZE \<and> magic (hdrs h (hd ys)) = HDR_MAGIC"
    using t(3) tiles_range [OF t(3)] by (cases ys) (auto simp: next_phys_def)
  show "prev_phys (hdrs h b) = (if xs = [] then None else Some (last xs))" using t(2) tiles_last [OF t(1)] by simp
qed

text \<open>After the forward merge the block's right neighbour, if any, is in use.\<close>

lemma forward_wf:
  assumes "lay h (xs @ b # ys) fs {b}" "coalesced (hdrs h) ys"
  shows "\<exists>zs gs. lay (coalesce_forward b h) (xs @ b # zs) gs {b} \<and> coalesced (hdrs h) zs \<and> set zs \<subseteq> set ys \<and>
    (zs \<noteq> [] \<longrightarrow> \<not> free (hdrs h (hd zs))) \<and> (\<forall>c \<in> set ys. \<not> free (hdrs h c) \<longrightarrow> c \<in> set zs) \<and>
    (\<forall>x. free (hdrs (coalesce_forward b h) x) = free (hdrs h x)) \<and>
    (\<forall>x. x \<noteq> b \<longrightarrow> bsize (hdrs (coalesce_forward b h) x) = bsize (hdrs h x))"
proof (cases "ys \<noteq> [] \<and> free (hdrs h (hd ys))")
  case False
  then have "coalesce_forward b h = h"
    using lay_next(1,2) [OF assms(1)] by (cases "ys = []") (auto simp: coalesce_forward_def Let_def)
  then show ?thesis using assms False by (intro exI [of _ ys] exI [of _ fs]) auto
next
  case True
  then obtain x zs where ys: "ys = x # zs" and fx: "free (hdrs h x)" by (cases ys) auto
  have d: "distinct (xs @ b # x # zs)" using lay_distinct [OF assms(1)] ys by simp
  have xf: "x \<in> set fs" using assms(1) fx d by (auto simp: lay_def ys)
  have "lay (free_list_remove x h) (xs @ b # x # zs) (remove1 x fs) {x, b}"
    using lay_remove [OF assms(1) xf] ys by simp
  from lay_merge [OF this] have "lay (merge b x (free_list_remove x h)) (xs @ b # zs) (remove1 x fs) {b}"
    using d by (auto simp: insert_Diff_if)
  moreover have cf: "coalesce_forward b h = merge b x (free_list_remove x h)"
    using lay_next(2) [OF assms(1)] ys fx by (auto simp: coalesce_forward_def merge_def Let_def)
  moreover have "zs \<noteq> [] \<Longrightarrow> \<not> free (hdrs h (hd zs))" using assms(2) fx by (cases zs) (auto simp: ys)
  ultimately show ?thesis
    using assms(2) fx by (intro exI [of _ zs] exI [of _ "remove1 x fs"]) (auto simp: ys coalesced_Cons merge_bsize)
qed

lemma release_lay:
  assumes "lay h (xs @ b # ys) fs {b}" "free (hdrs h b)" "coalesced (hdrs h) xs" "coalesced (hdrs h) ys"
  defines "h1 \<equiv> coalesce_forward b h"
  defines "h' \<equiv> (case prev_phys (hdrs h1 b) of
      Some prev \<Rightarrow> if magic (hdrs h1 prev) = HDR_MAGIC \<and> free (hdrs h1 prev)
        then free_list_insert prev (merge prev b (free_list_remove prev h1)) else free_list_insert b h1
    | None \<Rightarrow> free_list_insert b h1)"
  shows "\<exists>bs' fs'. wf h' bs' fs' \<and> regions h' bs' = regions h (xs @ b # ys)"
proof -
  obtain zs gs where l1: "lay h1 (xs @ b # zs) gs {b}" and cz: "coalesced (hdrs h) zs" and sz: "set zs \<subseteq> set ys"
    and hz: "zs \<noteq> [] \<Longrightarrow> \<not> free (hdrs h (hd zs))" and uz: "\<And>c. c \<in> set ys \<Longrightarrow> \<not> free (hdrs h c) \<Longrightarrow> c \<in> set zs"
    and fr: "\<And>x. free (hdrs h1 x) = free (hdrs h x)"
    and sb: "\<And>x. x \<noteq> b \<Longrightarrow> bsize (hdrs h1 x) = bsize (hdrs h x)"
    using forward_wf [OF assms(1,4)] unfolding h1_def by blast
  have fb: "free (hdrs h1 b)" using fr assms(2) by simp
  have sb': "bsize (hdrs h1 x) = bsize (hdrs h x)" if "\<not> free (hdrs h x)" for x using sb assms(2) that by metis
  note pb = lay_next(3) [OF l1]
  have reg: "regions k (vs @ zs) = regions h (xs @ b # ys)"
    if "\<And>x. free (hdrs k x) = free (hdrs h x)" "\<And>x. \<not> free (hdrs h x) \<Longrightarrow> bsize (hdrs k x) = bsize (hdrs h x)"
      "{c \<in> set vs. \<not> free (hdrs h c)} = {c \<in> set xs. \<not> free (hdrs h c)}" for k vs
  proof -
    have "{c \<in> set (vs @ zs). \<not> free (hdrs h c)} = {c \<in> set (xs @ b # ys). \<not> free (hdrs h c)}"
      using that(3) sz uz assms(2) by auto
    then show ?thesis unfolding regions_def that(1) by (intro image_cong) (auto simp: that(2))
  qed
  show ?thesis
  proof (cases "xs \<noteq> [] \<and> free (hdrs h (last xs))")
    case False
    then have h': "h' = free_list_insert b h1" using pb fr by (auto simp: h'_def)
    have "lay h' (xs @ b # zs) (b # gs) {}" unfolding h' using lay_insert [OF l1, of b] fb by simp
    moreover have "coalesced (hdrs h') us = coalesced (hdrs h) us" for us
      by (rule coalesced_cong) (simp add: h' fr)
    moreover have "coalesced (hdrs h) (xs @ [b])" using assms(3) False by (auto simp: coalesced_snoc)
    moreover have "coalesced (hdrs h) (b # zs)" using cz hz by (auto simp: coalesced_Cons)
    ultimately have "wf h' (xs @ b # zs) (b # gs)" by (simp add: wf_lay coalesced_append [of _ xs b zs])
    moreover have "regions h' ((xs @ [b]) @ zs) = regions h (xs @ b # ys)"
      by (rule reg) (use fr sb' assms(2) in \<open>auto simp: h'\<close>)
    ultimately show ?thesis by auto
  next
    case True
    then obtain ws p where xs: "xs = ws @ [p]" and fp: "free (hdrs h p)" by (cases xs rule: rev_cases) auto
    have d: "distinct (ws @ p # b # zs)" using lay_distinct [OF l1] xs by simp
    have pg: "p \<in> set gs" using l1 fp fr d by (auto simp: lay_def xs)
    let ?r = "free_list_remove p h1"
    have "lay ?r (ws @ p # b # zs) (remove1 p gs) {p, b}" using lay_remove [OF l1 pg] xs by simp
    from lay_merge [OF this] have "lay (merge p b ?r) (ws @ p # zs) (remove1 p gs) {p}"
      using d by (auto simp: insert_Diff_if)
    from lay_insert [OF this, of p] have "lay (free_list_insert p (merge p b ?r)) (ws @ p # zs) (p # remove1 p gs) {}"
      using fp fr by simp
    moreover have "magic (hdrs h1 p) = HDR_MAGIC" using lay_range [OF l1, of p] xs by simp
    then have h': "h' = free_list_insert p (merge p b ?r)" using pb fr fp xs by (simp add: h'_def)
    moreover have fr': "free (hdrs h' x) = free (hdrs h x)" for x by (simp add: h' fr)
    moreover have "coalesced (hdrs h') us = coalesced (hdrs h) us" for us by (rule coalesced_cong) (simp add: fr')
    moreover have "coalesced (hdrs h) (ws @ [p])" using assms(3) xs by simp
    moreover have "coalesced (hdrs h) (p # zs)" using cz hz by (auto simp: coalesced_Cons)
    ultimately have "wf h' (ws @ p # zs) (p # remove1 p gs)" by (simp add: wf_lay coalesced_append [of _ ws p zs])
    moreover have "regions h' ((ws @ [p]) @ zs) = regions h (xs @ b # ys)"
      by (rule reg) (use fr' sb' fp assms(2) in \<open>auto simp: h' merge_bsize xs\<close>)
    ultimately show ?thesis by auto
  qed
qed

lemma release_eq:
  "release b h = (let h1 = coalesce_forward b (upd b (\<lambda>x. x\<lparr>free := True\<rparr>)
       (h\<lparr>heap_allocated := heap_allocated h - of_nat (bsize (hdrs h b))\<rparr>))
     in case prev_phys (hdrs h1 b) of
       Some prev \<Rightarrow> if magic (hdrs h1 prev) = HDR_MAGIC \<and> free (hdrs h1 prev)
         then free_list_insert prev (merge prev b (free_list_remove prev h1)) else free_list_insert b h1
     | None \<Rightarrow> free_list_insert b h1)"
  unfolding release_def merge_def Let_def ..

lemma kfree_wf:
  assumes "wf h bs fs" "(p, n) \<in> regions h bs"
  shows "\<exists>h' bs' fs'. kfree (Some p) h = Some (h', if canaries h (p + n) = TAIL_MAGIC then KfreeOk else KfreeOverflow) \<and>
    wf h' bs' fs' \<and> regions h' bs' = regions h bs - {(p, n)}"
proof -
  obtain b where b: "b \<in> set bs" "\<not> free (hdrs h b)" and p: "p = b + HDR_SIZE" and n: "n = bsize (hdrs h b) - 52"
    using assms(2) by (auto simp: regions_def)
  obtain xs ys where bs: "bs = xs @ b # ys" using b(1) by (auto simp: in_set_conv_decomp)
  have l: "lay h bs fs {}" and co: "coalesced (hdrs h) bs" using assms(1) by (simp_all add: wf_lay)
  have rb: "b + bsize (hdrs h b) \<le> HEAP_SIZE" "52 \<le> bsize (hdrs h b)" "magic (hdrs h b) = HDR_MAGIC"
    using lay_range [OF l b(1)] by auto
  let ?h0 = "upd b (\<lambda>x. x\<lparr>free := True\<rparr>) (h\<lparr>heap_allocated := heap_allocated h - of_nat (bsize (hdrs h b))\<rparr>)"
  have l0: "lay ?h0 (xs @ b # ys) fs {b}"
    using lay_flag(1) [of "h\<lparr>heap_allocated := heap_allocated h - of_nat (bsize (hdrs h b))\<rparr>" bs fs "{}" b] l b(2) bs by simp
  have d: "distinct bs" by (rule lay_distinct [OF l])
  have "coalesced (hdrs h) xs" "coalesced (hdrs h) ys"
    using co unfolding bs coalesced_append [of "hdrs h" xs b ys] coalesced_snoc coalesced_Cons [of _ b] by blast+
  moreover have "coalesced (hdrs ?h0) us = coalesced (hdrs h) us" if "b \<notin> set us" for us
    using that by (intro coalesced_cong) auto
  ultimately have "coalesced (hdrs ?h0) xs" "coalesced (hdrs ?h0) ys" using d by (auto simp: bs)
  moreover have "free (hdrs ?h0 b)" by simp
  ultimately obtain bs' fs' where w: "wf (release b h) bs' fs'" "regions (release b h) bs' = regions ?h0 bs"
    using release_lay [OF l0] unfolding release_eq Let_def bs by blast
  moreover have "{c \<in> set bs. \<not> free (hdrs ?h0 c)} = {c \<in> set bs. \<not> free (hdrs h c)} - {b}" by auto
  then have "regions ?h0 bs = (\<lambda>c. (c + HDR_SIZE, bsize (hdrs h c) - 52)) ` ({c \<in> set bs. \<not> free (hdrs h c)} - {b})"
    unfolding regions_def by (intro image_cong) auto
  then have "regions ?h0 bs = regions h bs - {(p, n)}" using b unfolding regions_def p n by auto
  moreover have "tail_canary h b = p + n" using rb(2) by (simp add: tail_canary_def p n HDR_SIZE_def)
  then have "kfree (Some p) h = Some (release b h, if canaries h (p + n) = TAIL_MAGIC then KfreeOk else KfreeOverflow)"
    using rb b(2) p by (simp add: kfree_def Let_def HDR_SIZE_def)
  ultimately show ?thesis by metis
qed

lemma wf_separate:
  assumes "wf h bs fs" "(p, n) \<in> regions h bs" "(q, m) \<in> regions h bs"
  shows "(p, n) = (q, m) \<or> p + n + 52 \<le> q \<or> q + m + 52 \<le> p"
proof -
  obtain b c where b: "b \<in> set bs" "p = b + HDR_SIZE" "n = bsize (hdrs h b) - 52"
    and c: "c \<in> set bs" "q = c + HDR_SIZE" "m = bsize (hdrs h c) - 52"
    using assms(2,3) by (auto simp: regions_def)
  have l: "lay h bs fs {}" using assms(1) by (simp add: wf_lay)
  show ?thesis
    using lay_disjoint [OF l b(1) c(1)] lay_disjoint [OF l c(1) b(1)] lay_range [OF l b(1)] lay_range [OF l c(1)] b(2,3) c(2,3)
    by (cases b c rule: linorder_cases) auto
qed

section \<open>The contract of an allocator and its clients\<close>

text \<open>
  A client's requests: allocate a number of bytes, or release a pointer it holds. The map \<open>H\<close>
  records the pointers it holds and the sizes it asked for. The run is undefined where the
  client releases what it does not hold, asks for an unreasonable size, or the heap is not
  ready to serve an allocation.
\<close>

datatype request = Alloc nat | Release nat

fun client :: "('s \<Rightarrow> bool) \<Rightarrow> (nat \<Rightarrow> 's \<Rightarrow> ('s \<times> nat option) option) \<Rightarrow> (nat \<Rightarrow> 's \<Rightarrow> 's option) \<Rightarrow>
    request list \<Rightarrow> 's \<times> (nat \<rightharpoonup> nat) \<Rightarrow> ('s \<times> (nat \<rightharpoonup> nat)) option" where
  "client ready alloc dealloc [] (s, H) = Some (s, H)"
| "client ready alloc dealloc (Alloc n # rs) (s, H) =
     (if ready s \<and> 0 < n \<and> n < 2 ^ 63 then do {
        (s, p) \<leftarrow> alloc n s;
        client ready alloc dealloc rs (s, case p of None \<Rightarrow> H | Some p \<Rightarrow> H(p \<mapsto> n))
      } else None)"
| "client ready alloc dealloc (Release p # rs) (s, H) =
     (if H p \<noteq> None then do {
        s \<leftarrow> dealloc p s;
        client ready alloc dealloc rs (s, H(p := None))
      } else None)"

locale allocator =
  fixes inv :: "'s \<Rightarrow> bool" and used :: "'s \<Rightarrow> (nat \<times> nat) set" and ready :: "'s \<Rightarrow> bool"
    and alloc :: "nat \<Rightarrow> 's \<Rightarrow> ('s \<times> nat option) option" and dealloc :: "nat \<Rightarrow> 's \<Rightarrow> 's option"
  assumes alloc: "inv s \<Longrightarrow> ready s \<Longrightarrow> 0 < n \<Longrightarrow> n < 2 ^ 63 \<Longrightarrow>
      alloc n s = Some (s, None) \<or>
      (\<exists>s' p m. alloc n s = Some (s', Some p) \<and> inv s' \<and> n \<le> m \<and> (p, m) \<notin> used s \<and> used s' = insert (p, m) (used s))"
    and dealloc: "inv s \<Longrightarrow> (p, m) \<in> used s \<Longrightarrow> \<exists>s'. dealloc p s = Some s' \<and> inv s' \<and> used s' = used s - {(p, m)}"
    and separate: "inv s \<Longrightarrow> (p, n) \<in> used s \<Longrightarrow> (q, m) \<in> used s \<Longrightarrow> (p, n) = (q, m) \<or> p + n < q \<or> q + m < p"
begin

text \<open>The allocator and the client agree on the pointers in use, and no region is smaller than asked for.\<close>

definition agrees :: "'s \<Rightarrow> (nat \<rightharpoonup> nat) \<Rightarrow> bool" where
  "agrees s H \<longleftrightarrow> inv s \<and> (\<forall>p. H p = None \<longleftrightarrow> (\<forall>m. (p, m) \<notin> used s)) \<and> (\<forall>p n m. H p = Some n \<longrightarrow> (p, m) \<in> used s \<longrightarrow> n \<le> m)"

lemma agrees_alloc:
  assumes "agrees s H" "ready s" "0 < n" "n < 2 ^ 63" "alloc n s = Some (s', p)"
  shows "agrees s' (case p of None \<Rightarrow> H | Some p \<Rightarrow> H(p \<mapsto> n))"
proof -
  have i: "inv s" using assms(1) by (simp add: agrees_def)
  from alloc [OF i assms(2-4)] consider "s' = s" "p = None"
    | p' m where "p = Some p'" "inv s'" "n \<le> m" "(p', m) \<notin> used s" "used s' = insert (p', m) (used s)"
    using assms(5) by auto
  then show ?thesis
  proof cases
    case 2
    have "k = m" if "(p', k) \<in> used s'" for k
      using separate [OF 2(2) that, of p' m] 2(5) by auto
    then show ?thesis using assms(1) 2 by (auto simp: agrees_def)
  qed (use assms(1) in simp)
qed

lemma agrees_dealloc:
  assumes "agrees s H" "H p \<noteq> None"
  shows "\<exists>s'. dealloc p s = Some s' \<and> agrees s' (H(p := None))"
proof -
  have i: "inv s" using assms(1) by (simp add: agrees_def)
  obtain m where m: "(p, m) \<in> used s" using assms by (auto simp: agrees_def)
  obtain s' where s': "dealloc p s = Some s'" "inv s'" "used s' = used s - {(p, m)}" using dealloc [OF i m] by auto
  have "k = m" if "(p, k) \<in> used s" for k using separate [OF i that m] by auto
  then show ?thesis using assms(1) s' by (auto simp: agrees_def)
qed

lemma client_agrees: "agrees s H \<Longrightarrow> client ready alloc dealloc rs (s, H) = Some (s', H') \<Longrightarrow> agrees s' H'"
proof (induction rs arbitrary: s H)
  case (Cons r rs)
  show ?case
  proof (cases r)
    case (Alloc n)
    with Cons.prems(2) obtain s1 p where "ready s" "0 < n" "n < 2 ^ 63" "alloc n s = Some (s1, p)"
      "client ready alloc dealloc rs (s1, case p of None \<Rightarrow> H | Some p \<Rightarrow> H(p \<mapsto> n)) = Some (s', H')"
      by (auto split: if_splits bind_splits)
    then show ?thesis using Cons.IH agrees_alloc [OF Cons.prems(1)] by blast
  next
    case (Release p)
    with Cons.prems(2) have "H p \<noteq> None" by (auto split: if_splits)
    with agrees_dealloc [OF Cons.prems(1)] Cons Release show ?thesis by fastforce
  qed
qed simp

lemma held_disjoint:
  assumes "agrees s H" "H p = Some n" "H q = Some m" "p \<noteq> q"
  shows "p + n < q \<or> q + m < p"
proof -
  have i: "inv s" using assms(1) by (simp add: agrees_def)
  obtain k l where "(p, k) \<in> used s" "n \<le> k" "(q, l) \<in> used s" "m \<le> l"
    using assms(1-3) unfolding agrees_def by (metis option.distinct(1))
  then show ?thesis using separate [OF i, of p k q l] assms(4) by auto
qed

end

definition heap_ready :: "heap \<Rightarrow> bool" where
  "heap_ready h \<longleftrightarrow> free_list_head h \<noteq> None"

definition heap_client :: "request list \<Rightarrow> heap \<Rightarrow> (heap \<times> (nat \<rightharpoonup> nat)) option" where
  "heap_client rs h = client heap_ready (\<lambda>n. kmalloc (of_nat n)) (\<lambda>p h. map_option fst (kfree (Some p) h)) rs (h, Map.empty)"

lemma unat_of_nat_size: "n < 2 ^ 63 \<Longrightarrow> unat (of_nat n :: u64) = n"
  by (simp add: unat_of_nat take_bit_eq_mod)

interpretation kheap: allocator heap_inv live heap_ready "\<lambda>n. kmalloc (of_nat n)" "\<lambda>p h. map_option fst (kfree (Some p) h)"
proof
  fix s :: heap and n :: nat
  assume s: "heap_inv s" "heap_ready s" "0 < n" "n < 2 ^ 63"
  then obtain bs fs where w: "wf s bs fs" by (auto simp: heap_inv_def)
  from kmalloc_wf [OF w, of "of_nat n"] s show "kmalloc (of_nat n) s = Some (s, None) \<or>
      (\<exists>s' p m. kmalloc (of_nat n) s = Some (s', Some p) \<and> heap_inv s' \<and> n \<le> m \<and> (p, m) \<notin> live s \<and> live s' = insert (p, m) (live s))"
    unfolding heap_ready_def unat_of_nat_size [OF s(4)] live_regions [OF w] heap_inv_def
    by (metis live_regions)
next
  fix s p m
  assume s: "heap_inv s" "(p, m) \<in> live s"
  then obtain bs fs where w: "wf s bs fs" by (auto simp: heap_inv_def)
  then have "(p, m) \<in> regions s bs" using s(2) by (simp add: live_regions)
  from kfree_wf [OF w this] obtain h' d bs' fs' where "kfree (Some p) s = Some (h', d)" "wf h' bs' fs'"
    "regions h' bs' = regions s bs - {(p, m)}" by blast
  then show "\<exists>s'. map_option fst (kfree (Some p) s) = Some s' \<and> heap_inv s' \<and> live s' = live s - {(p, m)}"
    using w by (auto simp: heap_inv_def live_regions)
next
  fix s p n q m
  assume "heap_inv s" "(p, n) \<in> live s" "(q, m) \<in> live s"
  then show "(p, n) = (q, m) \<or> p + n < q \<or> q + m < p"
    using wf_separate by (fastforce simp: heap_inv_def live_regions)
qed

lemma init_wf: "wf (malloc_init h) [0] [0]"
  by (auto simp: wf_def malloc_init_def dll_def HEAP_SIZE_def)

lemma init_live: "live (malloc_init h) = {}"
  unfolding live_regions [OF init_wf] by (auto simp: regions_def malloc_init_def)

lemma init_agrees: "kheap.agrees (malloc_init h) Map.empty"
  using init_wf by (auto simp: kheap.agrees_def heap_inv_def init_live)


lemma wf_all_free:
  assumes "wf h bs fs" "regions h bs = {}"
  shows "bs = [0] \<and> fs = [0] \<and> bsize (hdrs h 0) = HEAP_SIZE"
proof -
  have fr: "\<And>b. b \<in> set bs \<Longrightarrow> free (hdrs h b)" using assms(2) by (auto simp: regions_def)
  obtain q t where t: "tiles (hdrs h) 0 None bs HEAP_SIZE q" "coalesced (hdrs h) bs"
    and d: "dll (nf h) (pf h) (free_list_head h) t fs" "set fs = {b \<in> set bs. free (hdrs h b)}"
    using assms(1) by (auto simp: wf_def)
  obtain b bs' where bs: "bs = b # bs'" using t(1) by (cases bs) (auto simp: HEAP_SIZE_def)
  have "bs' = []" using t(2) fr by (cases bs') (auto simp: bs)
  then have "bs = [0]" "bsize (hdrs h 0) = HEAP_SIZE" using t(1) by (auto simp: bs)
  moreover have "set fs = {0}" "distinct fs" using d fr calculation by (auto simp: dll_def)
  then have "fs = [0]" by (cases fs; cases "tl fs") auto
  ultimately show ?thesis by simp
qed


lemmas heap_eval = heap_client_def heap_ready_def kmalloc_def kfree_def release_def coalesce_forward_def fix_after_def
  split_block_def free_list_insert_def free_list_remove_def upd_def next_phys_def tail_canary_def need_of_def align_up_def
  malloc_init_def heap_boot_def first_fit.simps HEAP_SIZE_def HDR_SIZE_def MIN_PAYLOAD_def HDR_MAGIC_def TAIL_MAGIC_def

lemma heap_run1:
  "map_option (\<lambda>(h, H). (H 48, H 212, H 296)) (heap_client [Alloc 100, Alloc 20, Release 48, Alloc 8] (malloc_init heap_boot))
     = Some (Some 8, Some 20, None)"
  by (simp add: heap_eval)


lemma heap_run2:
  "map_option (\<lambda>(h, H). H) (heap_client [Alloc 100, Alloc 20, Release 48, Release 212] (malloc_init heap_boot)) = Some Map.empty"
  by (simp add: heap_eval fun_eq_iff)



text \<open>A request near the top of the 64-bit range wraps around and is served by a block without any payload.\<close>

theorem kmalloc_size_wraps:
  "\<exists>h. kmalloc 0xFFFFFFFFFFFFFFFF heap_boot = Some (h, Some 48) \<and> bsize (hdrs h 0) = 52"
  by (simp add: heap_eval)

text \<open>
  \<open>kcalloc\<close> returns a pointer only when the product of its arguments fits in 64 bits, and
  then it has zeroed exactly that many bytes from the pointer on.
\<close>

theorem kcalloc_no_overflow:
  assumes "kcalloc nmemb sz h = Some (h', Some p, z)"
  shows "unat nmemb * unat sz < 2 ^ 64 \<and> z = Some (p, unat nmemb * unat sz)"
proof -
  have c: "nmemb \<noteq> 0" "(nmemb * sz) div nmemb = sz" "z = Some (p, unat (nmemb * sz))"
    using assms by (auto simp: kcalloc_def Let_def split: if_splits bind_splits)
  have "unat nmemb * unat sz < 2 ^ 64"
  proof -
    have "unat sz = unat (nmemb * sz) div unat nmemb" using c(2) by (metis unat_div)
    then have "unat nmemb * unat sz \<le> unat (nmemb * sz)" by simp
    also have "\<dots> < 2 ^ 64" using unsigned_less [of "nmemb * sz", where ?'a = nat] by simp
    finally show ?thesis .
  qed
  then have "unat (nmemb * sz) = unat nmemb * unat sz" by (subst unat_mult_lem [symmetric]) simp
  then show ?thesis using c(3) \<open>unat nmemb * unat sz < 2 ^ 64\<close> by simp
qed

theorem kcalloc_no_overflow_witness:
  "\<exists>h z. kcalloc 3 40 heap_boot = Some (h, Some 48, z) \<and> z = Some (48, 120)"
proof -
  obtain h z where "kcalloc 3 40 heap_boot = Some (h, Some 48, z)" by (simp add: kcalloc_def heap_eval)
  with kcalloc_no_overflow [OF this] show ?thesis by auto
qed

end
