(* ===== verification/Block.thy ===== *)
theory Block
  imports Prelude
begin

text \<open>
  kernel/blockdriver.c: the table of block devices. A device pointer is the index of its entry;
  the operations a driver installs are fields of the device. A read returns the sectors, or
  nothing when the driver reports an error.
\<close>

section \<open>State\<close>

datatype media_class = MEDIA_UNKNOWN | MEDIA_SD | MEDIA_USB_FLASH | MEDIA_SSD | MEDIA_NVME

record blockdev_ops =
  op_read :: "(u64 \<Rightarrow> u32 \<Rightarrow> bytes option) option"
  op_write :: "(u64 \<Rightarrow> u32 \<Rightarrow> bytes \<Rightarrow> int) option"
  op_trim :: "(u64 \<Rightarrow> u64 \<Rightarrow> int) option"
  op_poll :: "int option"

record blockdev =
  bd_name :: string
  bd_size :: u64
  bd_block_size :: u32
  bd_unit :: int
  bd_media :: media_class
  bd_ops :: "blockdev_ops option"

definition MAX_BLOCKDEVS :: nat where "MAX_BLOCKDEVS = 16"

section \<open>Operations\<close>

text \<open>
  \<open>blockdev_register\<close>. The argument \<open>mem\<close> is the outcome of \<open>kmalloc\<close>: nothing, or the memory the
  descriptor is put in, of which \<open>media_class\<close> is the only field the function leaves as it was.
\<close>

definition blockdev_register ::
  "media_class option \<Rightarrow> string \<Rightarrow> u64 \<Rightarrow> u32 \<Rightarrow> blockdev list \<Rightarrow> blockdev list \<times> nat option" where
  "blockdev_register mem name sz block_size devs =
     (if length devs \<ge> MAX_BLOCKDEVS then (devs, None)
      else case mem of None \<Rightarrow> (devs, None)
      | Some junk \<Rightarrow>
          (devs @ [\<lparr>bd_name = take 15 name, bd_size = sz, bd_block_size = block_size,
             bd_unit = int (length devs), bd_media = junk, bd_ops = None\<rparr>], Some (length devs)))"

definition dev_matches :: "string \<Rightarrow> int \<Rightarrow> blockdev \<Rightarrow> bool" where
  "dev_matches name unit d \<longleftrightarrow> (unit = -1 \<and> bd_name d = name) \<or> (0 \<le> unit \<and> bd_unit d = unit)"

fun dev_scan :: "string \<Rightarrow> int \<Rightarrow> blockdev list \<Rightarrow> nat \<Rightarrow> nat option" where
  "dev_scan name unit [] i = None"
| "dev_scan name unit (d # ds) i = (if dev_matches name unit d then Some i else dev_scan name unit ds (i + 1))"

definition blockdev_get :: "string \<Rightarrow> int \<Rightarrow> blockdev list \<Rightarrow> nat option" where
  "blockdev_get name unit devs = dev_scan name unit devs 0"

text \<open>The wrappers: a missing device, operation table or operation is an error of the call.\<close>

definition dev_op :: "(blockdev_ops \<Rightarrow> 'a option) \<Rightarrow> blockdev option \<Rightarrow> 'a option" where
  "dev_op f dev = Option.bind dev (\<lambda>d. Option.bind (bd_ops d) f)"

definition blockdev_read :: "blockdev option \<Rightarrow> u64 \<Rightarrow> u32 \<Rightarrow> bytes option" where
  "blockdev_read dev lba cnt = (case dev_op op_read dev of None \<Rightarrow> None | Some f \<Rightarrow> f lba cnt)"

definition blockdev_write :: "blockdev option \<Rightarrow> u64 \<Rightarrow> u32 \<Rightarrow> bytes \<Rightarrow> int" where
  "blockdev_write dev lba cnt buf = (case dev_op op_write dev of None \<Rightarrow> -1 | Some f \<Rightarrow> f lba cnt buf)"

definition blockdev_trim :: "blockdev option \<Rightarrow> u64 \<Rightarrow> u64 \<Rightarrow> int" where
  "blockdev_trim dev lba cnt = (case dev_op op_trim dev of None \<Rightarrow> -1 | Some f \<Rightarrow> f lba cnt)"

definition blockdev_poll :: "blockdev option \<Rightarrow> int" where
  "blockdev_poll dev = (case dev_op op_poll dev of None \<Rightarrow> 0 | Some r \<Rightarrow> r)"

text \<open>The score \<open>blockdev_print_all\<close> shows: FileCore's score of an unnamed disc.\<close>

fun unnamed_score :: "media_class \<Rightarrow> int" where
  "unnamed_score MEDIA_NVME = 6"
| "unnamed_score MEDIA_SSD = 5"
| "unnamed_score MEDIA_USB_FLASH = 3"
| "unnamed_score MEDIA_SD = 1"
| "unnamed_score MEDIA_UNKNOWN = 3"

section \<open>Properties\<close>

text \<open>The unit number of a device is its place in the table.\<close>

definition devs_inv :: "blockdev list \<Rightarrow> bool" where
  "devs_inv devs \<longleftrightarrow> length devs \<le> MAX_BLOCKDEVS \<and> (\<forall>i < length devs. bd_unit (devs ! i) = int i \<and> length (bd_name (devs ! i)) \<le> 15)"

lemma register_inv: "devs_inv devs \<Longrightarrow> devs_inv (fst (blockdev_register mem name sz bs devs))"
  by (auto simp: devs_inv_def blockdev_register_def nth_append less_Suc_eq split: option.splits)

lemma dev_scan_find:
  "dev_scan name unit ds i = Some k \<longleftrightarrow> i \<le> k \<and> k - i < length ds \<and> dev_matches name unit (ds ! (k - i)) \<and>
     (\<forall>j < k - i. \<not> dev_matches name unit (ds ! j))"
proof (induction ds arbitrary: i)
  case (Cons d ds)
  show ?case
  proof (cases "dev_matches name unit d")
    case True
    then show ?thesis by (auto simp: nth_Cons' split: if_splits)
  next
    case False
    show ?thesis
    proof (cases "k \<le> i")
      case True
      then show ?thesis using False Cons.IH [of "i + 1"] by auto
    next
      case gt: False
      then have k: "k - i = Suc (k - (i + 1))" by simp
      show ?thesis using False Cons.IH [of "i + 1"] gt unfolding k All_less_Suc2 by auto
    qed
  qed
qed simp

text \<open>
  A registered device is found again: by its unit number under every name, and by its name
  (cut to 15 characters) when no earlier device has the same one.
\<close>

theorem blockdev_register_get:
  assumes "devs_inv devs" "blockdev_register mem name sz bs devs = (devs', Some i)"
  shows "blockdev_get other (int i) devs' = Some i \<and> bd_size (devs' ! i) = sz \<and>
    ((\<forall>d \<in> set devs. bd_name d \<noteq> take 15 name) \<longrightarrow> blockdev_get (take 15 name) (-1) devs' = Some i)"
proof -
  obtain junk where d': "i = length devs" "devs' = devs @ [\<lparr>bd_name = take 15 name, bd_size = sz, bd_block_size = bs,
      bd_unit = int (length devs), bd_media = junk, bd_ops = None\<rparr>]"
    using assms(2) by (auto simp: blockdev_register_def split: if_splits option.splits)
  then show ?thesis using assms(1)
    by (auto simp: blockdev_get_def dev_scan_find dev_matches_def nth_append devs_inv_def)
qed

theorem blockdev_register_get_witness:
  "blockdev_get ''sd'' 0 (fst (blockdev_register (Some MEDIA_SD) ''mmc'' 100 512 [])) = Some 0"
proof -
  have "blockdev_register (Some MEDIA_SD) ''mmc'' 100 512 [] =
      (fst (blockdev_register (Some MEDIA_SD) ''mmc'' 100 512 []), Some 0)"
    by (simp add: blockdev_register_def MAX_BLOCKDEVS_def)
  then show ?thesis using blockdev_register_get [of "[]" "Some MEDIA_SD" "''mmc''" 100 512 _ 0 "''sd''"]
    by (simp add: devs_inv_def)
qed

end
