(* ===== verification/Disc.thy ===== *)
theory Disc
  imports Block
begin

text \<open>
  kernel/filecore.c, first part: finding a FileCore disc. The disc record, the MBR and GPT
  parsers, the probes for a disc record and the scan of the block devices that chooses the boot
  disc. What the code only prints is left out. A kernel buffer is a list of bytes; the argument
  \<open>km\<close> is \<open>kmalloc\<close>: the memory it returns for a size, or nothing.
\<close>

section \<open>Disc records\<close>

definition rd16le :: "bytes \<Rightarrow> int \<Rightarrow> u16 option" where
  "rd16le b i = do { x \<leftarrow> rd b i; y \<leftarrow> rd b (i + 1); Some (be16 y x) }"

record disc_rec =
  log2_sector_size :: u8
  spt :: u8
  heads :: u8
  density :: u8
  id_len :: u8
  log2_bpmb :: u8
  skew :: u8
  boot_opt :: u8
  low_sector :: u8
  nzones :: u8
  zone_spare :: u16
  root_dir :: u32
  disc_size_lo :: u32
  cycle_id :: u16
  disc_name :: bytes
  disc_type :: u32
  disc_size_hi :: u32
  log2_share_size :: u8
  big_flag :: u8
  nzones_hi :: u8
  format_version :: u8
  filecore_ver :: u32
  root_dir_size :: u32
  reserved_52 :: u32
  reserved_56 :: u32

text \<open>The packed structure of 60 bytes at an offset of a buffer.\<close>

definition discrec_at :: "bytes \<Rightarrow> int \<Rightarrow> disc_rec option" where
  "discrec_at buf p = do {
     a0 \<leftarrow> rd buf p; a1 \<leftarrow> rd buf (p + 1); a2 \<leftarrow> rd buf (p + 2); a3 \<leftarrow> rd buf (p + 3);
     a4 \<leftarrow> rd buf (p + 4); a5 \<leftarrow> rd buf (p + 5); a6 \<leftarrow> rd buf (p + 6); a7 \<leftarrow> rd buf (p + 7);
     a8 \<leftarrow> rd buf (p + 8); a9 \<leftarrow> rd buf (p + 9); a10 \<leftarrow> rd16le buf (p + 10); a12 \<leftarrow> rd32le buf (p + 12);
     a16 \<leftarrow> rd32le buf (p + 16); a20 \<leftarrow> rd16le buf (p + 20); a22 \<leftarrow> rdn buf (p + 22) 10;
     a32 \<leftarrow> rd32le buf (p + 32); a36 \<leftarrow> rd32le buf (p + 36); a40 \<leftarrow> rd buf (p + 40); a41 \<leftarrow> rd buf (p + 41);
     a42 \<leftarrow> rd buf (p + 42); a43 \<leftarrow> rd buf (p + 43); a44 \<leftarrow> rd32le buf (p + 44); a48 \<leftarrow> rd32le buf (p + 48);
     a52 \<leftarrow> rd32le buf (p + 52); a56 \<leftarrow> rd32le buf (p + 56);
     Some \<lparr>log2_sector_size = a0, spt = a1, heads = a2, density = a3, id_len = a4, log2_bpmb = a5, skew = a6,
       boot_opt = a7, low_sector = a8, nzones = a9, zone_spare = a10, root_dir = a12, disc_size_lo = a16,
       cycle_id = a20, disc_name = a22, disc_type = a32, disc_size_hi = a36, log2_share_size = a40, big_flag = a41,
       nzones_hi = a42, format_version = a43, filecore_ver = a44, root_dir_size = a48, reserved_52 = a52,
       reserved_56 = a56\<rparr>
   }"

definition fc_discrec_plausible :: "disc_rec \<Rightarrow> bool" where
  "fc_discrec_plausible dr \<longleftrightarrow> \<not> (log2_sector_size dr < 8 \<or> log2_sector_size dr > 12) \<and> nzones dr \<noteq> 0 \<and>
     \<not> (id_len dr < 8 \<or> id_len dr > 24)"

definition fc_checksum :: "bytes \<Rightarrow> u8 option" where
  "fc_checksum buf = do { xs \<leftarrow> rdn buf 0 511; Some (ucast (sum_list (map ucast xs) :: u32)) }"

definition total_zones :: "u8 \<Rightarrow> u8 \<Rightarrow> u8 \<Rightarrow> u32" where
  "total_zones lo hi big = ucast lo + (if big \<noteq> 0 then push_bit 8 (ucast hi) else 0)"

definition name_set :: "bytes \<Rightarrow> bool" where
  "name_set nm \<longleftrightarrow> nm ! 0 \<noteq> 0 \<and> nm ! 0 \<noteq> 0x20"

section \<open>Probing for a disc record\<close>

text \<open>\<open>bd->ops->read(bd, lba, 1, buf + p)\<close>: whether it succeeded, and the buffer after it.\<close>

definition bd_read1 :: "blockdev \<Rightarrow> u64 \<Rightarrow> bytes \<Rightarrow> int \<Rightarrow> (bool \<times> bytes) option" where
  "bd_read1 bd lba buf p = do {
     f \<leftarrow> dev_op op_read (Some bd);
     case f lba 1 of None \<Rightarrow> Some (False, buf)
     | Some d \<Rightarrow> do { buf \<leftarrow> wrn buf p d; Some (True, buf) }
   }"

text \<open>The result code, the buffer and the record that was found.\<close>

definition boot_dr_valid :: "bytes \<Rightarrow> disc_rec \<Rightarrow> (int \<times> bytes \<times> disc_rec option) option" where
  "boot_dr_valid buf dr = do {
     calc \<leftarrow> fc_checksum buf;
     c \<leftarrow> rd buf 511;
     Some (if calc = c then 0 else 1, buf, Some dr)
   }"

definition fc_try_boot_discrec :: "blockdev \<Rightarrow> u32 \<Rightarrow> bytes \<Rightarrow> (int \<times> bytes \<times> disc_rec option) option" where
  "fc_try_boot_discrec bd lba_base buf = do {
     let lba_size = bd_block_size bd;
     if lba_size = 0 then None
     else do {
       let boot_lba = (ucast lba_base + 0xC00 div ucast lba_size :: u64);
       let boot_off = (ucast (0xC00 mod ucast lba_size :: u64) + 0x1C0 :: u32);
       (ok, buf) \<leftarrow> bd_read1 bd boot_lba buf 0;
       if \<not> ok then Some (-1, buf, None)
       else do {
         dr \<leftarrow> discrec_at buf (uint boot_off);
         if \<not> fc_discrec_plausible dr then
           if boot_off = 0x1C0 \<and> boot_lba = ucast lba_base + 6 then do {
             (ok, buf) \<leftarrow> bd_read1 bd (ucast lba_base) buf 0;
             if ok then do {
               dr \<leftarrow> discrec_at buf 0xDC0;
               if fc_discrec_plausible dr then boot_dr_valid buf dr else Some (-1, buf, None)
             } else Some (-1, buf, None)
           } else Some (-1, buf, None)
         else boot_dr_valid buf dr
       }
     }
   }"

definition fc_try_zone0_discrec :: "blockdev \<Rightarrow> u32 \<Rightarrow> bytes \<Rightarrow> (int \<times> bytes \<times> disc_rec option) option" where
  "fc_try_zone0_discrec bd lba_base buf = do {
     (ok, buf) \<leftarrow> bd_read1 bd (ucast lba_base) buf 0;
     if \<not> ok then Some (-1, buf, None)
     else do {
       dr \<leftarrow> discrec_at buf 4;
       Some (if fc_discrec_plausible dr then (0, buf, Some dr) else (-1, buf, None))
     }
   }"

section \<open>Partition tables\<close>

record mbr_part =
  p_type :: u8
  lba_start :: u32
  num_sectors :: u32

definition PART_TYPE_RISCOS :: u8 where "PART_TYPE_RISCOS = 0xAD"
definition PART_TYPE_FAT32 :: u8 where "PART_TYPE_FAT32 = 0x0B"
definition PART_TYPE_FAT32_LBA :: u8 where "PART_TYPE_FAT32_LBA = 0x0C"
definition PART_TYPE_GPT_PROT :: u8 where "PART_TYPE_GPT_PROT = 0xEE"

definition mbr_part_at :: "bytes \<Rightarrow> nat \<Rightarrow> mbr_part option" where
  "mbr_part_at sec i = do {
     t \<leftarrow> rd sec (446 + 16 * int i + 4);
     l \<leftarrow> rd32le sec (446 + 16 * int i + 8);
     n \<leftarrow> rd32le sec (446 + 16 * int i + 12);
     Some \<lparr>p_type = t, lba_start = l, num_sectors = n\<rparr>
   }"

text \<open>The result code and, with code 0, the type, start and size of the partition.\<close>

definition filecore_parse_mbr :: "bytes \<Rightarrow> (int \<times> mbr_part option) option" where
  "filecore_parse_mbr sec = do {
     s0 \<leftarrow> rd sec 510;
     s1 \<leftarrow> rd sec 511;
     if s0 \<noteq> 0x55 \<or> s1 \<noteq> 0xAA then Some (-1, None)
     else do {
       parts \<leftarrow> those (map (mbr_part_at sec) [0..<4]);
       if \<exists>p \<in> set parts. p_type p = PART_TYPE_GPT_PROT then Some (-2, None)
       else case find (\<lambda>p. p_type p = PART_TYPE_RISCOS) parts of
         Some w \<Rightarrow> Some (0, Some w)
       | None \<Rightarrow>
         (case find (\<lambda>p. p_type p = PART_TYPE_FAT32 \<or> p_type p = PART_TYPE_FAT32_LBA) parts of
            Some w \<Rightarrow> Some (0, Some w)
          | None \<Rightarrow> Some (-2, None))
     }
   }"

definition fc_zone_lba :: "u32 \<Rightarrow> u32 \<Rightarrow> u32 \<Rightarrow> u32 \<Rightarrow> u32 \<Rightarrow> u32" where
  "fc_zone_lba zone lba_base used_bits dr_size secperlfau =
     (if zone = 0 then lba_base else lba_base + (zone * used_bits - dr_size) * secperlfau)"

definition fc_read_zone_discrec ::
  "blockdev \<Rightarrow> u32 \<Rightarrow> u32 \<Rightarrow> u32 \<Rightarrow> u32 \<Rightarrow> u32 \<Rightarrow> bytes \<Rightarrow> (int \<times> bytes \<times> disc_rec option) option" where
  "fc_read_zone_discrec bd zone lba_base used_bits dr_size secperlfau buf = do {
     (ok, buf) \<leftarrow> bd_read1 bd (ucast (fc_zone_lba zone lba_base used_bits dr_size secperlfau)) buf 0;
     if \<not> ok then Some (-1, buf, None)
     else do {
       dr \<leftarrow> discrec_at buf 4;
       Some (if fc_discrec_plausible dr then (0, buf, Some dr) else (-1, buf, None))
     }
   }"

definition rd64le :: "bytes \<Rightarrow> int \<Rightarrow> u64 option" where
  "rd64le b i = do { x \<leftarrow> rd32le b i; y \<leftarrow> rd32le b (i + 4); Some (ucast x OR push_bit 32 (ucast y)) }"

text \<open>
  The entries of one sector of the GPT partition array. The probe of a partition reads into
  the buffer that holds the entries.
\<close>

fun gpt_entries :: "blockdev \<Rightarrow> u32 \<Rightarrow> u32 list \<Rightarrow> bytes \<Rightarrow> (bytes \<times> (u32 \<times> u32) option) option" where
  "gpt_entries bd entry_size [] gpt_buf = Some (gpt_buf, None)"
| "gpt_entries bd entry_size (e # es) gpt_buf = do {
     let p = uint (e * entry_size);
     guid \<leftarrow> rdn gpt_buf p 16;
     if list_all (\<lambda>x. x = 0) guid then gpt_entries bd entry_size es gpt_buf
     else do {
       start_lba \<leftarrow> rd64le gpt_buf (p + 32);
       end_lba \<leftarrow> rd64le gpt_buf (p + 40);
       let plba = (ucast start_lba :: u32);
       let psec = (ucast (end_lba - start_lba + 1) :: u32);
       (ok, gpt_buf) \<leftarrow> bd_read1 bd (ucast (plba + 6)) gpt_buf 0;
       if ok then do {
         dr \<leftarrow> discrec_at gpt_buf 0x1C0;
         if fc_discrec_plausible dr then Some (gpt_buf, Some (plba, psec))
         else gpt_entries bd entry_size es gpt_buf
       } else gpt_entries bd entry_size es gpt_buf
     }
   }"

fun gpt_sectors :: "blockdev \<Rightarrow> u32 \<Rightarrow> u32 \<Rightarrow> u32 list \<Rightarrow> u32 \<Rightarrow> bytes \<Rightarrow> (u32 \<times> u32) option option" where
  "gpt_sectors bd entry_lba entry_size [] per gpt_buf = Some None"
| "gpt_sectors bd entry_lba entry_size (s # ss) per gpt_buf = do {
     (ok, gpt_buf) \<leftarrow> bd_read1 bd (ucast (entry_lba + s)) gpt_buf 0;
     if \<not> ok then Some None
     else do {
       (gpt_buf, r) \<leftarrow> gpt_entries bd entry_size (map of_nat [0..<unat per]) gpt_buf;
       case r of Some x \<Rightarrow> Some (Some x) | None \<Rightarrow> gpt_sectors bd entry_lba entry_size ss per gpt_buf
     }
   }"

text \<open>The buffer of the caller, and the start and size of the partition when one was found.\<close>

definition fc_scan_gpt :: "(nat \<Rightarrow> bytes option) \<Rightarrow> blockdev \<Rightarrow> bytes \<Rightarrow> (bytes \<times> (u32 \<times> u32) option) option" where
  "fc_scan_gpt km bd buf = do {
     (ok, buf) \<leftarrow> bd_read1 bd 1 buf 0;
     if \<not> ok then Some (buf, None)
     else do {
       sig \<leftarrow> rdn buf 0 8;
       if sig \<noteq> [0x45, 0x46, 0x49, 0x20, 0x50, 0x41, 0x52, 0x54] then Some (buf, None)
       else do {
         part_entry_lba \<leftarrow> rd32le buf 72;
         num_parts \<leftarrow> rd32le buf 80;
         part_entry_size \<leftarrow> rd32le buf 84;
         if part_entry_size < 128 \<or> num_parts > 128 then Some (buf, None)
         else case km 512 of None \<Rightarrow> Some (buf, None)
         | Some gpt_buf \<Rightarrow>
             let per = 512 div part_entry_size
             in if per = 0 then None
                else do {
                  let needed = (num_parts + per - 1) div per;
                  let needed = (if needed > 32 then 32 else needed);
                  r \<leftarrow> gpt_sectors bd part_entry_lba part_entry_size (map of_nat [0..<unat needed]) per gpt_buf;
                  Some (buf, r)
                }
       }
     }
   }"

section \<open>Choosing the boot disc\<close>

record vfs_dirent =
  d_type :: nat
  d_size :: u64
  riscos_type :: u16
  load_addr :: u32
  exec_addr :: u32
  sin :: u32
  d_name :: bytes

definition VFS_DIRENT_FILE :: nat where "VFS_DIRENT_FILE = 0"
definition VFS_DIRENT_DIR :: nat where "VFS_DIRENT_DIR = 1"
definition VFS_DIRENT_SPECIAL :: nat where "VFS_DIRENT_SPECIAL = 2"

text \<open>The module state: the chosen device (its index), its parameters and the root directory cache.\<close>

record fc_state =
  g_fc_bdev :: "nat option"
  g_fc_lba_base :: u32
  g_fc_sectors :: u32
  g_fc_type :: u8
  g_dr_log2ss :: u8
  g_dr_log2bpmb :: u8
  g_dr_zone_spare :: u16
  g_dr_id_len :: u8
  g_dr_nzones :: u8
  g_dr_nzones_hi :: u8
  g_dr_big_flag :: u8
  g_dr_root_dir :: u32
  g_dr_root_dir_size :: u32
  g_dr_disc_name :: bytes
  g_root_cache :: "vfs_dirent list"
  g_root_cache_valid :: bool

definition fc_boot :: fc_state where
  "fc_boot = \<lparr>g_fc_bdev = None, g_fc_lba_base = 0, g_fc_sectors = 0, g_fc_type = 0, g_dr_log2ss = 9,
     g_dr_log2bpmb = 10, g_dr_zone_spare = 32, g_dr_id_len = 19, g_dr_nzones = 0, g_dr_nzones_hi = 0,
     g_dr_big_flag = 0, g_dr_root_dir = 0, g_dr_root_dir_size = 0, g_dr_disc_name = replicate 11 0,
     g_root_cache = [], g_root_cache_valid = False\<rparr>"

text \<open>Steps 2 and 3: the probes relative to an 0xAD partition.\<close>

definition probe_partition :: "blockdev \<Rightarrow> u32 \<Rightarrow> bytes \<Rightarrow> (bytes \<times> disc_rec option) option" where
  "probe_partition bd part_lba buf = do {
     (rc, buf, dr) \<leftarrow> fc_try_zone0_discrec bd part_lba buf;
     if rc = 0 then Some (buf, dr)
     else do {
       (rc, buf, dr) \<leftarrow> fc_try_boot_discrec bd part_lba buf;
       Some (buf, if 0 \<le> rc then dr else None)
     }
   }"

text \<open>Step 4: a GPT partition, then the whole disc.\<close>

definition probe_overlay :: "(nat \<Rightarrow> bytes option) \<Rightarrow> blockdev \<Rightarrow> bytes \<Rightarrow> (bytes \<times> (disc_rec \<times> u32) option) option" where
  "probe_overlay km bd buf = do {
     (buf, g) \<leftarrow> fc_scan_gpt km bd buf;
     (buf, r) \<leftarrow> (case g of None \<Rightarrow> Some (buf, None)
        | Some (gpt_lba, _) \<Rightarrow> do {
            (rc, buf, dr) \<leftarrow> fc_try_boot_discrec bd gpt_lba buf;
            Some (buf, if 0 \<le> rc then map_option (\<lambda>d. (d, gpt_lba)) dr else None)
          });
     case r of Some x \<Rightarrow> Some (buf, Some x)
     | None \<Rightarrow> do {
         (rc, buf, dr) \<leftarrow> fc_try_boot_discrec bd 0 buf;
         Some (buf, if 0 \<le> rc then map_option (\<lambda>d. (d, 0)) dr else None)
       }
   }"

text \<open>The probe of the record in the middle zone for a disc whose boot record has no name.\<close>

definition probe_name :: "blockdev \<Rightarrow> u32 \<Rightarrow> disc_rec \<Rightarrow> bytes \<Rightarrow> (bytes \<times> disc_rec) option" where
  "probe_name bd lba_base dr buf =
     (if name_set (disc_name dr) then Some (buf, dr)
      else
        let ss = push_bit (unat (log2_sector_size dr)) 1 :: u32;
            splfau = (if ss > 0 then push_bit (unat (log2_bpmb dr)) 1 div ss else 0);
            ubits = ss * 8 - ucast (zone_spare dr);
            mid = total_zones (nzones dr) (nzones_hi dr) (big_flag dr) div 2
        in if 32 \<le> log2_bpmb dr then None
           else if mid > 0 \<and> splfau > 0 then do {
             (rc, buf, m) \<leftarrow> fc_read_zone_discrec bd mid lba_base ubits 480 splfau buf;
             Some (buf, case m of Some d \<Rightarrow> if rc = 0 \<and> name_set (disc_name d) then dr\<lparr>disc_name := disc_name d\<rparr> else dr
                        | None \<Rightarrow> dr)
           } else Some (buf, dr))"

text \<open>Everything \<open>filecore_init\<close> does with one device before it scores it: the record, its base and the partition size.\<close>

definition probe_device ::
  "(nat \<Rightarrow> bytes option) \<Rightarrow> blockdev \<Rightarrow> bytes \<Rightarrow> (bytes \<times> (disc_rec \<times> u32 \<times> u32) option) option" where
  "probe_device km bd buf = do {
     (ok, buf) \<leftarrow> bd_read1 bd 0 buf 0;
     if \<not> ok then Some (buf, None)
     else do {
       (mbr_rc, part) \<leftarrow> filecore_parse_mbr buf;
       if mbr_rc = -1 then Some (buf, None)
       else do {
         let part_sec = (case part of Some p \<Rightarrow> num_sectors p | None \<Rightarrow> 0);
         (buf, r) \<leftarrow> (case part of
              Some p \<Rightarrow> if mbr_rc = 0 \<and> p_type p = PART_TYPE_RISCOS then do {
                          (buf, dr) \<leftarrow> probe_partition bd (lba_start p) buf;
                          Some (buf, map_option (\<lambda>d. (d, lba_start p)) dr)
                        } else Some (buf, None)
            | None \<Rightarrow> Some (buf, None));
         (buf, r) \<leftarrow> (if r = None then probe_overlay km bd buf else Some (buf, r));
         case r of None \<Rightarrow> Some (buf, None)
         | Some (dr, lba_base) \<Rightarrow> do {
             (buf, dr) \<leftarrow> probe_name bd lba_base dr buf;
             Some (buf, Some (dr, lba_base, part_sec))
           }
       }
     }
   }"

fun disc_score :: "media_class \<Rightarrow> bool \<Rightarrow> int" where
  "disc_score MEDIA_NVME named = (if named then 14 else 6)"
| "disc_score MEDIA_SSD named = (if named then 12 else 5)"
| "disc_score MEDIA_USB_FLASH named = (if named then 10 else 3)"
| "disc_score MEDIA_SD named = (if named then 7 else 1)"
| "disc_score MEDIA_UNKNOWN named = (if named then 10 else 3)"

definition store_disc :: "nat \<Rightarrow> disc_rec \<Rightarrow> u32 \<Rightarrow> u32 \<Rightarrow> fc_state \<Rightarrow> fc_state" where
  "store_disc i dr lba_base part_sec st = st\<lparr>g_fc_bdev := Some i, g_fc_lba_base := lba_base, g_fc_sectors := part_sec,
     g_fc_type := PART_TYPE_RISCOS, g_dr_log2ss := log2_sector_size dr, g_dr_log2bpmb := log2_bpmb dr,
     g_dr_zone_spare := zone_spare dr, g_dr_id_len := id_len dr, g_dr_nzones := nzones dr,
     g_dr_nzones_hi := nzones_hi dr, g_dr_big_flag := big_flag dr, g_dr_root_dir := root_dir dr,
     g_dr_root_dir_size := root_dir_size dr, g_dr_disc_name := disc_name dr @ [0]\<rparr>"

text \<open>The loop over the devices; \<open>i\<close> is the index of the first one and \<open>best\<close> the best score so far.\<close>

fun scan_devices ::
  "(nat \<Rightarrow> bytes option) \<Rightarrow> nat \<Rightarrow> blockdev list \<Rightarrow> bytes \<Rightarrow> int \<Rightarrow> fc_state \<Rightarrow> fc_state option" where
  "scan_devices km i [] buf best st = Some st"
| "scan_devices km i (bd # bds) buf best st =
     (if bd_size bd = 0 \<or> dev_op op_read (Some bd) = None then scan_devices km (i + 1) bds buf best st
      else do {
        (buf, r) \<leftarrow> probe_device km bd buf;
        case r of None \<Rightarrow> scan_devices km (i + 1) bds buf best st
        | Some (dr, lba_base, part_sec) \<Rightarrow>
            let sc = disc_score (bd_media bd) (name_set (disc_name dr))
            in if g_fc_bdev st = None \<or> sc > best
               then scan_devices km (i + 1) bds buf sc (store_disc i dr lba_base part_sec st)
               else scan_devices km (i + 1) bds buf best st
      })"

definition filecore_init :: "(nat \<Rightarrow> bytes option) \<Rightarrow> blockdev list \<Rightarrow> fc_state \<Rightarrow> fc_state option" where
  "filecore_init km devs st = (case km 512 of None \<Rightarrow> Some st | Some buf \<Rightarrow> scan_devices km 0 devs buf 0 st)"

section \<open>The choice\<close>

text \<open>A disc that was found: its device, record, base, partition size and score.\<close>

type_synonym candidate = "nat \<times> disc_rec \<times> u32 \<times> u32 \<times> int"

fun cand_score :: "candidate \<Rightarrow> int" where
  "cand_score (i, dr, b, s, sc) = sc"

fun cand_store :: "candidate \<Rightarrow> fc_state \<Rightarrow> fc_state" where
  "cand_store (i, dr, b, s, sc) st = store_disc i dr b s st"

text \<open>The discs the scan finds, in the order of the devices, without any choice made.\<close>

fun candidates :: "(nat \<Rightarrow> bytes option) \<Rightarrow> nat \<Rightarrow> blockdev list \<Rightarrow> bytes \<Rightarrow> candidate list option" where
  "candidates km i [] buf = Some []"
| "candidates km i (bd # bds) buf =
     (if bd_size bd = 0 \<or> dev_op op_read (Some bd) = None then candidates km (i + 1) bds buf
      else do {
        (buf, r) \<leftarrow> probe_device km bd buf;
        cs \<leftarrow> candidates km (i + 1) bds buf;
        Some (case r of None \<Rightarrow> cs
          | Some (dr, lba_base, part_sec) \<Rightarrow>
              (i, dr, lba_base, part_sec, disc_score (bd_media bd) (name_set (disc_name dr))) # cs)
      })"

text \<open>The first of the best.\<close>

fun better :: "candidate list \<Rightarrow> candidate \<Rightarrow> candidate" where
  "better [] c = c"
| "better (d # ds) c = better ds (if cand_score d > cand_score c then d else c)"

lemma store_store [simp]: "cand_store c (cand_store d st) = cand_store c st"
  by (cases c; cases d) (simp add: store_disc_def)

lemma cand_store_bdev [simp]: "g_fc_bdev (cand_store c st) \<noteq> None"
  by (cases c) (simp add: store_disc_def)

lemma scan_from:
  "candidates km i bds buf = Some cs \<Longrightarrow> scan_devices km i bds buf (cand_score c) (cand_store c st) = Some (cand_store (better cs c) st)"
proof (induction bds arbitrary: i buf c cs)
  case (Cons bd bds)
  show ?case
  proof (cases "bd_size bd = 0 \<or> dev_op op_read (Some bd) = None")
    case True
    then show ?thesis using Cons by simp
  next
    case False
    then obtain f buf' r cs' where F: "bd_size bd \<noteq> 0" "dev_op op_read (Some bd) = Some f" and
      p: "probe_device km bd buf = Some (buf', r)" "candidates km (i + 1) bds buf' = Some cs'"
      using Cons.prems by (auto simp: bind_eq_Some_conv)
    show ?thesis
    proof (cases r)
      case None
      then show ?thesis using F p Cons.prems Cons.IH [OF p(2)] by simp
    next
      case (Some x)
      obtain dr b s where x: "x = (dr, b, s)" by (cases x)
      let ?d = "(i, dr, b, s, disc_score (bd_media bd) (name_set (disc_name dr)))"
      have cs: "cs = ?d # cs'" using F p Some x Cons.prems by simp
      have "store_disc i dr b s (cand_store c st) = store_disc i dr b s st"
        using store_store [of ?d c st] by (simp del: store_store)
      then show ?thesis
        using F p Some x cs Cons.IH [OF p(2), of c] Cons.IH [OF p(2), of ?d]
        by (simp add: Let_def)
    qed
  qed
qed simp

lemma scan_first:
  assumes "g_fc_bdev st = None" "candidates km i bds buf = Some cs"
  shows "scan_devices km i bds buf best st = Some (case cs of [] \<Rightarrow> st | c # cs \<Rightarrow> cand_store (better cs c) st)"
  using assms(2)
proof (induction bds arbitrary: i buf cs)
  case (Cons bd bds)
  show ?case
  proof (cases "bd_size bd = 0 \<or> dev_op op_read (Some bd) = None")
    case True
    then show ?thesis using Cons by simp
  next
    case False
    then obtain f buf' r cs' where F: "bd_size bd \<noteq> 0" "dev_op op_read (Some bd) = Some f" and
      p: "probe_device km bd buf = Some (buf', r)" "candidates km (i + 1) bds buf' = Some cs'"
      using Cons.prems by (auto simp: bind_eq_Some_conv)
    show ?thesis
    proof (cases r)
      case None
      then show ?thesis using F p Cons.prems Cons.IH [OF p(2)] by simp
    next
      case (Some x)
      obtain dr b s where x: "x = (dr, b, s)" by (cases x)
      let ?d = "(i, dr, b, s, disc_score (bd_media bd) (name_set (disc_name dr)))"
      have "cs = ?d # cs'" using F p Some x Cons.prems by simp
      then show ?thesis using F p Some x assms(1) scan_from [OF p(2), of ?d st] by (simp add: Let_def)
    qed
  qed
qed simp

lemma better_max:
  "better cs c = w \<Longrightarrow> \<exists>xs ys. c # cs = xs @ w # ys \<and> (\<forall>d \<in> set xs. cand_score d < cand_score w) \<and>
     (\<forall>d \<in> set ys. cand_score d \<le> cand_score w)"
proof (induction cs arbitrary: c)
  case (Cons d ds)
  show ?case
  proof (cases "cand_score d > cand_score c")
    case True
    then obtain xs ys where r: "d # ds = xs @ w # ys" "\<forall>e \<in> set xs. cand_score e < cand_score w"
      "\<forall>e \<in> set ys. cand_score e \<le> cand_score w" using Cons.IH [of d] Cons.prems by auto
    have "cand_score c < cand_score w" using r True by (cases xs) auto
    then have "c # d # ds = (c # xs) @ w # ys \<and> (\<forall>e \<in> set (c # xs). cand_score e < cand_score w) \<and>
      (\<forall>e \<in> set ys. cand_score e \<le> cand_score w)" using r by simp
    then show ?thesis by blast
  next
    case False
    then obtain xs ys where r: "c # ds = xs @ w # ys" "\<forall>e \<in> set xs. cand_score e < cand_score w"
      "\<forall>e \<in> set ys. cand_score e \<le> cand_score w" using Cons.IH [of c] Cons.prems by auto
    show ?thesis
    proof (cases xs)
      case Nil
      then have "c # d # ds = [] @ w # (d # ys) \<and> (\<forall>e \<in> set (d # ys). cand_score e \<le> cand_score w)" using r False by auto
      then show ?thesis by (metis empty_iff list.set(1))
    next
      case (Cons e zs)
      then have "c # d # ds = (c # d # zs) @ w # ys" "\<forall>e \<in> set (c # d # zs). cand_score e < cand_score w" using r False by auto
      then show ?thesis using r(3) by blast
    qed
  qed
qed (auto intro: exI [of _ "[]"])

text \<open>
  C26. The disc scan mounts, of all discs it finds, the first of those with the highest score,
  whatever the order of the devices; every device is looked at.
\<close>

theorem filecore_init_best:
  assumes "g_fc_bdev st = None" "km 512 = Some buf" "candidates km 0 devs buf = Some cs" "cs \<noteq> []"
  shows "\<exists>xs c ys. cs = xs @ c # ys \<and> filecore_init km devs st = Some (cand_store c st) \<and>
    (\<forall>d \<in> set xs. cand_score d < cand_score c) \<and> (\<forall>d \<in> set ys. cand_score d \<le> cand_score c)"
proof -
  obtain c ds where cs: "cs = c # ds" using assms(4) by (cases cs) auto
  have "filecore_init km devs st = Some (cand_store (better ds c) st)"
    using scan_first [OF assms(1,3)] assms(2) cs by (simp add: filecore_init_def)
  then show ?thesis using better_max [of ds c, OF refl] cs by blast
qed

text \<open>A named disc is preferred to every unnamed one, and an unnamed disc has the score the device table shows.\<close>

lemma disc_score_named: "disc_score m False < disc_score m' True" "disc_score m False = unnamed_score m"
  by (cases m; cases m'; simp)+

section \<open>Where the probes go wrong\<close>

text \<open>A device that returns whole sectors of 512 bytes.\<close>

definition sector_dev :: "blockdev \<Rightarrow> (u64 \<Rightarrow> bytes option) \<Rightarrow> bool" where
  "sector_dev bd f \<longleftrightarrow> bd_block_size bd = 512 \<and> (\<exists>g. dev_op op_read (Some bd) = Some g \<and> (\<forall>lba. g lba 1 = f lba)) \<and>
     (\<forall>lba d. f lba = Some d \<longrightarrow> length d = 512)"

lemma sector_read:
  assumes "sector_dev bd f" "length buf = 512"
  shows "bd_read1 bd lba buf 0 = Some (case f lba of None \<Rightarrow> (False, buf) | Some d \<Rightarrow> (True, d))"
proof -
  obtain g where "dev_op op_read (Some bd) = Some g" "g lba 1 = f lba" using assms(1) by (auto simp: sector_dev_def)
  moreover have "f lba = Some d \<Longrightarrow> length d = 512" for d using assms(1) by (auto simp: sector_dev_def)
  ultimately show ?thesis using assms(2) by (auto simp: bd_read1_def wrn_def split: option.splits)
qed

lemma discrec_at_ex: "0 \<le> p \<Longrightarrow> p + 60 \<le> int (length buf) \<Longrightarrow> \<exists>dr. discrec_at buf p = Some dr \<and>
    log2_sector_size dr = buf ! nat p \<and> nzones dr = buf ! nat (p + 9) \<and> id_len dr = buf ! nat (p + 4) \<and>
    disc_name dr = take 10 (drop (nat (p + 22)) buf) \<and> length (disc_name dr) = 10"
  by (simp add: discrec_at_def rd_def rd16le_def rd32le_def rdn_def)

lemma discrec_outside: "int (length buf) \<le> p \<Longrightarrow> discrec_at buf p = None"
  by (simp add: discrec_at_def rd_def)

text \<open>
  On a disc with 512-byte sectors whose boot sector holds no plausible disc record, the
  fallback probe looks for one at byte 0xDC0 of a buffer of 512 bytes: it reads outside it.
\<close>

theorem boot_probe_overrun:
  assumes "sector_dev bd f" "length buf = 512" "f (ucast base + 6) = Some s6" "f (ucast base) = Some s0"
    and "discrec_at s6 0x1C0 = Some dr" "\<not> fc_discrec_plausible dr"
  shows "fc_try_boot_discrec bd base buf = None"
proof -
  have "bd_block_size bd = 512" "length s6 = 512" "length s0 = 512" using assms by (auto simp: sector_dev_def)
  then show ?thesis using assms sector_read [OF assms(1)] discrec_outside [of s0 "0xDC0"]
    by (simp add: fc_try_boot_discrec_def Let_def)
qed

definition ram_disc :: "(u64 \<Rightarrow> bytes option) \<Rightarrow> blockdev" where
  "ram_disc f = \<lparr>bd_name = ''ram'', bd_size = 1000, bd_block_size = 512, bd_unit = 0, bd_media = MEDIA_SD,
     bd_ops = Some \<lparr>op_read = Some (\<lambda>lba n. if n = 1 then f lba else None), op_write = None, op_trim = None, op_poll = None\<rparr>\<rparr>"

lemma ram_disc_sector: "(\<And>lba d. f lba = Some d \<Longrightarrow> length d = 512) \<Longrightarrow> sector_dev (ram_disc f) f"
  by (auto simp: sector_dev_def ram_disc_def dev_op_def)

theorem boot_probe_overrun_witness:
  "fc_try_boot_discrec (ram_disc (\<lambda>_. Some (replicate 512 0))) 0 (replicate 512 7) = None"
proof -
  obtain dr where "discrec_at (replicate 512 (0 :: u8)) 0x1C0 = Some dr" "log2_sector_size dr = 0"
    using discrec_at_ex [of "0x1C0" "replicate 512 (0 :: u8)"] by auto
  then show ?thesis
    by (intro boot_probe_overrun [OF ram_disc_sector, where base = 0 and dr = dr])
      (auto simp: fc_discrec_plausible_def)
qed

text \<open>
  The partition entries of a GPT sector are probed one after another, but the probe of the
  first used entry reads the partition's boot sector into the buffer that holds the entries.
  When that partition is blank, no entry after it is looked at.
\<close>

theorem gpt_probe_clobbers:
  assumes "sector_dev bd f" "length gpt_buf = 512" "uint (e * sz) + 128 \<le> 512"
    and "\<not> list_all (\<lambda>x. x = 0) (take 16 (drop (unat (e * sz)) gpt_buf))"
    and "rd64le gpt_buf (uint (e * sz) + 32) = Some start" "f (ucast (ucast start + 6 :: u32)) = Some (replicate 512 0)"
    and "list_all (\<lambda>e'. uint (e' * sz) + 16 \<le> 512) es"
  shows "gpt_entries bd sz (e # es) gpt_buf = Some (replicate 512 0, None)"
proof -
  have blank: "gpt_entries bd sz es (replicate 512 0) = Some (replicate 512 0, None)"
    using assms(7) by (induction es) (auto simp: Let_def rdn_def list_all_iff in_set_conv_nth)
  obtain en where "rd64le gpt_buf (uint (e * sz) + 40) = Some en"
    using assms(2,3) by (simp add: rd64le_def rd32le_def rd_def)
  moreover have "rdn gpt_buf (uint (e * sz)) 16 = Some (take 16 (drop (unat (e * sz)) gpt_buf))"
    using assms(2,3) by (simp add: rdn_def)
  moreover obtain dr where "discrec_at (replicate 512 (0 :: u8)) 0x1C0 = Some dr" "log2_sector_size dr = 0"
    using discrec_at_ex [of "0x1C0" "replicate 512 (0 :: u8)"] by auto
  ultimately show ?thesis
    using assms(4-6) blank sector_read [OF assms(1,2)]
    by (simp add: Let_def fc_discrec_plausible_def)
qed

theorem gpt_probe_clobbers_witness:
  "gpt_entries (ram_disc (\<lambda>_. Some (replicate 512 0))) 128 [0, 1, 2, 3] (replicate 512 1) = Some (replicate 512 0, None)"
proof -
  obtain start where s: "rd64le (replicate 512 (1 :: u8)) (uint (0 * 128 :: u32) + 32) = Some start"
    by (simp add: rd64le_def rd32le_def rd_def)
  show ?thesis
    by (rule gpt_probe_clobbers [OF ram_disc_sector _ _ _ s]) (auto simp: list_all_iff)
qed

definition mbr_sector :: bytes where
  "mbr_sector = replicate 510 0 @ [0x55, 0xAA]"

definition boot_sector :: bytes where
  "boot_sector = replicate 448 0 @ [9, 0, 0, 0, 19, 10, 0, 0, 0, 4, 32, 0] @ replicate 10 0 @ [0x48, 0x44] @ replicate 40 0"

definition full_disc :: "u64 \<Rightarrow> bytes option" where
  "full_disc lba = Some (if lba = 0 then mbr_sector else if lba = 6 then boot_sector else replicate 512 0)"

lemma full_disc_sector: "sector_dev (ram_disc full_disc) full_disc"
  by (rule ram_disc_sector) (auto simp: full_disc_def mbr_sector_def boot_sector_def split: if_splits)

lemma full_disc_boot:
  "\<exists>dr. fc_try_boot_discrec (ram_disc full_disc) 0 (replicate 512 0) = Some (1, boot_sector, Some dr) \<and> name_set (disc_name dr)"
proof -
  let ?bd = "ram_disc full_disc"
  have len: "length boot_sector = 512" by (simp add: boot_sector_def)
  obtain dr where dr: "discrec_at boot_sector 0x1C0 = Some dr" "log2_sector_size dr = 9" "nzones dr = 4" "id_len dr = 19"
    "disc_name dr = take 10 (drop 470 boot_sector)"
    using discrec_at_ex [of "0x1C0" boot_sector] len by (auto simp: boot_sector_def nth_append)
  have pl: "fc_discrec_plausible dr" using dr by (simp add: fc_discrec_plausible_def)
  have nm: "name_set (disc_name dr)" using dr(5) by (simp add: name_set_def boot_sector_def nth_append)
  have "fc_checksum boot_sector = Some 214"
    by (simp add: fc_checksum_def rdn_def boot_sector_def sum_list_replicate)
  then have "boot_dr_valid boot_sector dr = Some (1, boot_sector, Some dr)"
    by (simp add: boot_dr_valid_def rd_def boot_sector_def nth_append)
  moreover have "bd_read1 ?bd 6 (replicate 512 0) 0 = Some (True, boot_sector)"
    using sector_read [OF full_disc_sector, of "replicate 512 0" 6] by (simp add: full_disc_def)
  ultimately have "fc_try_boot_discrec ?bd 0 (replicate 512 0) = Some (1, boot_sector, Some dr)"
    using dr(1) pl by (simp add: fc_try_boot_discrec_def Let_def) (simp add: ram_disc_def)
  then show ?thesis using nm by blast
qed

lemma full_disc_candidates:
  "\<exists>c. candidates (\<lambda>n. Some (replicate n 0)) 0 [ram_disc full_disc] (replicate 512 0) = Some [c] \<and> cand_score c = 7"
proof -
  let ?bd = "ram_disc full_disc"
  let ?km = "\<lambda>n. Some (replicate n (0 :: u8))"
  note rdl = sector_read [OF full_disc_sector]
  obtain dr where b: "fc_try_boot_discrec ?bd 0 (replicate 512 0) = Some (1, boot_sector, Some dr)"
    and nm: "name_set (disc_name dr)" using full_disc_boot by blast
  have len: "length mbr_sector = 512" by (simp add: mbr_sector_def)
  have z: "mbr_part_at mbr_sector i = Some \<lparr>p_type = 0, lba_start = 0, num_sectors = 0\<rparr>" if "i < 4" for i
  proof -
    have "rd mbr_sector j = Some 0" if "0 \<le> j" "j < 510" for j using that by (simp add: rd_def mbr_sector_def nth_append)
    then show ?thesis using \<open>i < 4\<close> by (simp add: mbr_part_at_def rd32le_def be32_def)
  qed
  let ?p = "\<lparr>p_type = 0, lba_start = 0, num_sectors = 0\<rparr> :: mbr_part"
  have "map (mbr_part_at mbr_sector) [0..<4] = replicate 4 (Some ?p)"
    by (rule nth_equalityI) (simp_all add: z)
  moreover have "those (replicate n (Some ?p)) = Some (replicate n ?p)" for n by (induction n) simp_all
  ultimately have th: "those (map (mbr_part_at mbr_sector) [0..<4]) = Some (replicate 4 ?p)" by simp
  have "find P (replicate 4 ?p) = None" if "\<not> P ?p" for P using that by (auto simp: find_None_iff)
  then have mbr: "filecore_parse_mbr mbr_sector = Some (-2, None)"
    unfolding filecore_parse_mbr_def th
    by (simp add: rd_def mbr_sector_def nth_append PART_TYPE_GPT_PROT_def PART_TYPE_RISCOS_def
        PART_TYPE_FAT32_def PART_TYPE_FAT32_LBA_def)
  have sig: "take 8 (replicate 512 (0 :: u8)) \<noteq> 0x45 # xs" for xs using Cons_replicate_eq [of "69 :: u8" xs 8 0] by auto
  have gpt: "fc_scan_gpt ?km ?bd mbr_sector = Some (replicate 512 0, None)"
    using rdl [OF len, of 1] sig by (simp add: fc_scan_gpt_def full_disc_def rdn_def)
  have ov: "probe_overlay ?km ?bd mbr_sector = Some (boot_sector, Some (dr, 0))"
    using gpt b by (simp add: probe_overlay_def)
  have "probe_device ?km ?bd (replicate 512 0) = Some (boot_sector, Some (dr, 0, 0))"
    using rdl [of "replicate 512 0" 0] mbr ov nm by (simp add: probe_device_def full_disc_def probe_name_def)
  moreover have "bd_size ?bd \<noteq> 0" "dev_op op_read (Some ?bd) \<noteq> None" "bd_media ?bd = MEDIA_SD"
    by (simp_all add: ram_disc_def dev_op_def)
  ultimately show ?thesis using nm by (auto split: option.splits)
qed

theorem filecore_init_best_witness:
  "\<exists>c. filecore_init (\<lambda>n. Some (replicate n 0)) [ram_disc full_disc] fc_boot = Some (cand_store c fc_boot) \<and> cand_score c = 7"
proof -
  obtain c where c: "candidates (\<lambda>n. Some (replicate n 0)) 0 [ram_disc full_disc] (replicate 512 0) = Some [c]" "cand_score c = 7"
    using full_disc_candidates by blast
  have "g_fc_bdev fc_boot = None" by (simp add: fc_boot_def)
  then obtain xs d ys where "[c] = xs @ d # ys"
    "filecore_init (\<lambda>n. Some (replicate n 0)) [ram_disc full_disc] fc_boot = Some (cand_store d fc_boot)"
    using filecore_init_best [of fc_boot "\<lambda>n. Some (replicate n 0)", OF _ _ c(1)] by blast
  moreover from this(1) have "d = c" by (simp add: Cons_eq_append_conv)
  ultimately show ?thesis using c(2) by blast
qed

end
