(* ===== verification/Adfs.thy ===== *)
theory Adfs
  imports Disc
begin

text \<open>
  kernel/filecore.c, second part: the allocation map, directories and files of a mounted disc.
  Bit positions of a map sector are natural numbers: every bit from the first one on is read,
  so the walk leaves the sector's buffer, which is a fault, long before a 32-bit position could
  wrap. Offsets into a directory are 32-bit and wrap as in C.
\<close>

section \<open>The map\<close>

text \<open>\<open>adfs_read_bits\<close>: the loop from bit \<open>i\<close> on, with \<open>n\<close> bits left.\<close>

fun read_bits_loop :: "bytes \<Rightarrow> u32 \<Rightarrow> nat \<Rightarrow> nat \<Rightarrow> u32 \<Rightarrow> u32 option" where
  "read_bits_loop buf bitpos i 0 val = Some val"
| "read_bits_loop buf bitpos i (Suc n) val = do {
     let bp = bitpos + of_nat i;
     b \<leftarrow> rd buf (uint (drop_bit 3 bp));
     if bit b (unat (bp AND 7))
     then (if 32 \<le> i then None else read_bits_loop buf bitpos (i + 1) n (val OR push_bit i 1))
     else read_bits_loop buf bitpos (i + 1) n val
   }"

definition adfs_read_bits :: "bytes \<Rightarrow> u32 \<Rightarrow> nat \<Rightarrow> u32 option" where
  "adfs_read_bits buf bitpos nbits = read_bits_loop buf bitpos 0 nbits 0"

definition fc_bit_addr_to_data_lba :: "u32 \<Rightarrow> u32 \<Rightarrow> u32 \<Rightarrow> u32 \<Rightarrow> u32 \<Rightarrow> u32 \<Rightarrow> u32 option" where
  "fc_bit_addr_to_data_lba B lba_base spare ubits dr_size spl =
     (let zone_bits = spare + ubits
      in if zone_bits = 0 then None
         else
           let zone = B div zone_bits;
               bit_in_zone = B mod zone_bits;
               header_bits = spare + (if zone = 0 then dr_size else 0);
               lfau_in_zone = (if bit_in_zone \<ge> header_bits then bit_in_zone - header_bits else 0);
               zone_lfau_start = (if zone = 0 then 0 else zone * ubits - dr_size);
               physical_lfau = zone_lfau_start + lfau_in_zone
           in Some (lba_base + physical_lfau * spl))"

definition zbit :: "bytes \<Rightarrow> nat \<Rightarrow> bool option" where
  "zbit zbuf raw = do { b \<leftarrow> rd zbuf (int (raw div 8)); Some (bit b (raw mod 8)) }"

text \<open>The inner loop: over the 0-bits of a fragment's body to just after its terminating 1-bit.\<close>

function skip_body :: "bytes \<Rightarrow> nat \<Rightarrow> nat \<Rightarrow> nat \<Rightarrow> nat option" where
  "skip_body zbuf spare allocend allocbit =
     (if allocbit < allocend then do {
        b \<leftarrow> zbit zbuf (spare + allocbit);
        if b then Some (allocbit + 1) else skip_body zbuf spare allocend (allocbit + 1)
      } else Some allocbit)"
  by pat_completeness auto
termination by (relation "measure (\<lambda>(z, s, e, a). e - a)") auto

declare skip_body.simps [simp del]

lemma skip_body_grows: "skip_body zbuf spare e a = Some r \<Longrightarrow> a \<le> r \<and> (a < e \<longrightarrow> a < r \<and> r \<le> e)"
proof (induction zbuf spare e a rule: skip_body.induct)
  case (1 zbuf spare e a)
  show ?case
  proof (cases "a < e")
    case True
    then obtain b where b: "zbit zbuf (spare + a) = Some b" using "1.prems" by (auto simp: skip_body.simps [of _ _ _ a] split: bind_splits)
    show ?thesis
    proof (cases b)
      case True
      then show ?thesis using "1.prems" b \<open>a < e\<close> by (simp add: skip_body.simps [of _ _ _ a])
    next
      case False
      then have "skip_body zbuf spare e (a + 1) = Some r" using "1.prems" b \<open>a < e\<close> by (simp add: skip_body.simps [of _ _ _ a])
      then show ?thesis using "1.IH" [OF True b] False True
        by (cases "a + 1 < e") (auto simp: skip_body.simps [of _ _ _ "Suc a"])
    qed
  qed (use "1.prems" in \<open>simp add: skip_body.simps\<close>)
qed

text \<open>The scan of a zone for the fragment with the given identifier: the bit it starts at, if there is one.\<close>

function ida_scan :: "bytes \<Rightarrow> nat \<Rightarrow> nat \<Rightarrow> u32 \<Rightarrow> nat \<Rightarrow> nat \<Rightarrow> nat option option" where
  "ida_scan zbuf spare idlen ident allocend allocbit =
     (if allocbit + idlen < allocend then do {
        entry_id \<leftarrow> adfs_read_bits zbuf (of_nat (spare + allocbit)) idlen;
        if entry_id = ident then Some (Some allocbit)
        else do {
          a \<leftarrow> skip_body zbuf spare allocend (allocbit + idlen);
          if allocend - a < idlen + 1 then Some None else ida_scan zbuf spare idlen ident allocend a
        }
      } else Some None)"
  by pat_completeness auto
termination
  by (relation "measure (\<lambda>(z, s, l, i, e, a). e - a)") (auto dest: skip_body_grows)

declare ida_scan.simps [simp del]

text \<open>The result is \<open>None\<close> inside the outer option where the code returns \<open>-1\<close>.\<close>

definition fc_ida_to_data_lba ::
  "(nat \<Rightarrow> bytes option) \<Rightarrow> blockdev \<Rightarrow> u32 \<Rightarrow> u32 \<Rightarrow> u32 \<Rightarrow> u32 \<Rightarrow> u32 \<Rightarrow> u32 \<Rightarrow> u32 \<Rightarrow> u32 \<Rightarrow> u32 \<Rightarrow> u32 option option" where
  "fc_ida_to_data_lba km bd ida lba_base map_lba spare ubits dr_size idlen spl nz =
     (let ident = drop_bit 8 ida;
          chain_lfau = drop_bit 1 (ida AND 0xFF);
          zone_bits = spare + ubits
      in if idlen + 1 = 0 then None
         else
           let ids_pz = (zone_bits - spare) div (idlen + 1);
               home_zone = (if ids_pz > 0 then ident div ids_pz else 0)
           in if home_zone \<ge> nz then Some None
              else case km 512 of None \<Rightarrow> Some None
              | Some zbuf \<Rightarrow> do {
                  (ok, zbuf) \<leftarrow> bd_read1 bd (ucast (map_lba + home_zone)) zbuf 0;
                  if \<not> ok then Some None
                  else do {
                    r \<leftarrow> ida_scan zbuf (unat spare) (unat idlen) ident (unat ubits)
                           (if home_zone = 0 then unat dr_size else 0);
                    case r of None \<Rightarrow> Some None
                    | Some found_start \<Rightarrow>
                        Some (Some (lba_base + (home_zone * ubits + of_nat found_start - dr_size + chain_lfau) * spl))
                  }
                })"

section \<open>Geometry\<close>

record geometry =
  sector_size :: u32
  secperlfau :: u32
  used_bits :: u32
  total_nzones :: u32
  disc_map_lba :: u32

text \<open>The parameters every operation derives from the stored disc record; a shift by 32 or more is undefined.\<close>

definition disc_geometry :: "fc_state \<Rightarrow> geometry option" where
  "disc_geometry st =
     (if 32 \<le> g_dr_log2ss st \<or> 32 \<le> g_dr_log2bpmb st then None
      else
        let ss = push_bit (unat (g_dr_log2ss st)) 1;
            spl = push_bit (unat (g_dr_log2bpmb st)) 1 div ss;
            ub = ss * 8 - ucast (g_dr_zone_spare st);
            nz = total_zones (g_dr_nzones st) (g_dr_nzones_hi st) (g_dr_big_flag st);
            mid = nz div 2
        in Some \<lparr>sector_size = ss, secperlfau = spl, used_bits = ub, total_nzones = nz,
             disc_map_lba = g_fc_lba_base st + (mid * ub - 480) * spl\<rparr>)"

text \<open>\<open>fc_ida_to_data_lba\<close> as its callers call it.\<close>

definition resolve_sin :: "(nat \<Rightarrow> bytes option) \<Rightarrow> blockdev \<Rightarrow> fc_state \<Rightarrow> geometry \<Rightarrow> u32 \<Rightarrow> u32 option option" where
  "resolve_sin km bd st g s = fc_ida_to_data_lba km bd s (g_fc_lba_base st) (disc_map_lba g) (ucast (g_dr_zone_spare st))
     (used_bits g) 480 (ucast (g_dr_id_len st)) (secperlfau g) (total_nzones g)"

section \<open>Directories\<close>

text \<open>A little-endian word at a 32-bit offset.\<close>

definition rdw :: "bytes \<Rightarrow> u32 \<Rightarrow> u32 option" where
  "rdw b p = do { x \<leftarrow> rd b (uint p); y \<leftarrow> rd b (uint (p + 1)); z \<leftarrow> rd b (uint (p + 2)); w \<leftarrow> rd b (uint (p + 3));
     Some (be32 w z y x) }"

text \<open>The name of an entry: up to \<open>nlen\<close> characters, ended by a carriage return, the limit or the array.\<close>

fun copy_name :: "bytes \<Rightarrow> u32 \<Rightarrow> u32 \<Rightarrow> u32 \<Rightarrow> u32 list \<Rightarrow> bytes option" where
  "copy_name dir limit nabs nlen [] = Some []"
| "copy_name dir limit nabs nlen (k # ks) =
     (if \<not> k < nlen then Some []
      else if nabs + k \<ge> limit then Some []
      else do {
        c \<leftarrow> rd dir (uint (nabs + k));
        if c = 0x0D then Some []
        else do { r \<leftarrow> copy_name dir limit nabs nlen ks; Some ((c AND 0x7F) # r) }
      })"

text \<open>The C string an array holds.\<close>

definition cstr :: "bytes \<Rightarrow> bytes" where
  "cstr xs = takeWhile (\<lambda>c. c \<noteq> 0) xs"

definition name_indices :: "u32 list" where
  "name_indices = map of_nat [0..<255]"

text \<open>The directory entry at an offset, as both readers decode it.\<close>

definition dirent_at :: "bytes \<Rightarrow> u32 \<Rightarrow> u32 \<Rightarrow> u32 \<Rightarrow> vfs_dirent option" where
  "dirent_at dir eoff name_tab limit = do {
     load \<leftarrow> rdw dir eoff;
     exec \<leftarrow> rdw dir (eoff + 4);
     len \<leftarrow> rdw dir (eoff + 8);
     ida \<leftarrow> rdw dir (eoff + 12);
     attr \<leftarrow> rdw dir (eoff + 16);
     nlen \<leftarrow> rdw dir (eoff + 20);
     noff \<leftarrow> rdw dir (eoff + 24);
     nm \<leftarrow> copy_name dir limit (name_tab + noff) nlen name_indices;
     Some \<lparr>d_type = (if ida = 0x300 then VFS_DIRENT_SPECIAL else if attr AND 8 \<noteq> 0 then VFS_DIRENT_DIR else VFS_DIRENT_FILE),
       d_size = ucast len, riscos_type = ucast (drop_bit 8 load AND 0xFFF), load_addr = load, exec_addr = exec, sin = ida,
       d_name = cstr nm\<rparr>
   }"

definition entry_start_of :: "u32 \<Rightarrow> u32" where
  "entry_start_of namelen = 28 + ((namelen + 1 + 3) AND NOT 3)"

definition is_sbpr :: "bytes \<Rightarrow> bool option" where
  "is_sbpr dir = do { m \<leftarrow> rdn dir 4 4; Some (m = [0x53, 0x42, 0x50, 0x72]) }"

text \<open>The root directory cache: at most 32 entries.\<close>

fun cache_entries :: "bytes \<Rightarrow> u32 \<Rightarrow> u32 \<Rightarrow> u32 list \<Rightarrow> vfs_dirent list option" where
  "cache_entries dir entry_start name_tab [] = Some []"
| "cache_entries dir entry_start name_tab (i # is) = do {
     d \<leftarrow> dirent_at dir (entry_start + i * 28) name_tab 2048;
     ds \<leftarrow> cache_entries dir entry_start name_tab is;
     Some (d # ds)
   }"

definition filecore_populate_root_cache :: "bytes \<Rightarrow> u32 \<Rightarrow> u32 \<Rightarrow> u32 \<Rightarrow> fc_state \<Rightarrow> fc_state option" where
  "filecore_populate_root_cache dir cnt entry_start name_tab st = do {
     ds \<leftarrow> cache_entries dir entry_start name_tab (map of_nat [0..<min (unat cnt) 32]);
     Some (st\<lparr>g_root_cache := ds, g_root_cache_valid := True\<rparr>)
   }"

definition filecore_get_root_entry :: "fc_state \<Rightarrow> u32 \<Rightarrow> vfs_dirent option" where
  "filecore_get_root_entry st idx =
     (if \<not> g_root_cache_valid st \<or> unat idx \<ge> length (g_root_cache st) then None else Some (g_root_cache st ! unat idx))"

text \<open>Consecutive sectors into a buffer, from sector \<open>lba\<close> and offset \<open>p\<close> on: whether all reads succeeded.\<close>

fun read_sectors :: "blockdev \<Rightarrow> u32 \<Rightarrow> u32 \<Rightarrow> u32 list \<Rightarrow> bytes \<Rightarrow> (bool \<times> bytes) option" where
  "read_sectors bd lba ss [] buf = Some (True, buf)"
| "read_sectors bd lba ss (s # rest) buf = do {
     (ok, buf) \<leftarrow> bd_read1 bd (ucast (lba + s)) buf (uint (s * ss));
     if ok then read_sectors bd lba ss rest buf else Some (False, buf)
   }"

definition FC_MAX_DIR_SIZE :: u32 where "FC_MAX_DIR_SIZE = 16384"

definition dir_size_ok :: "u32 \<Rightarrow> bool" where
  "dir_size_ok n \<longleftrightarrow> \<not> (n < 2048 \<or> n > FC_MAX_DIR_SIZE \<or> n AND 511 \<noteq> 0)"

text \<open>
  \<open>filecore_get_child_entry\<close>. \<open>devs\<close> is the device table the stored device is an index of. The
  result is \<open>None\<close> inside the outer option where the code returns \<open>-1\<close>.
\<close>

definition read_dir :: "(nat \<Rightarrow> bytes option) \<Rightarrow> blockdev \<Rightarrow> geometry \<Rightarrow> u32 \<Rightarrow> (bytes \<times> u32) option option" where
  "read_dir km bd g dir_lba =
     (case km 16384 of None \<Rightarrow> Some None
      | Some dbuf \<Rightarrow> do {
          (ok, dbuf) \<leftarrow> bd_read1 bd (ucast dir_lba) dbuf 0;
          if \<not> ok then Some None
          else do {
            m \<leftarrow> is_sbpr dbuf;
            if \<not> m then Some None
            else do {
              ds \<leftarrow> rdw dbuf 12;
              let dir_size = (if dir_size_ok ds then ds else 2048);
              let nsecs = dir_size div sector_size g;
              (ok, dbuf) \<leftarrow> read_sectors bd dir_lba (sector_size g) (map of_nat [1..<unat nsecs]) dbuf;
              Some (if ok then Some (dbuf, dir_size) else None)
            }
          }
        })"

definition dir_entry :: "bytes \<Rightarrow> u32 \<Rightarrow> u32 \<Rightarrow> vfs_dirent option option" where
  "dir_entry dbuf dir_size idx = do {
     namelen \<leftarrow> rdw dbuf 8;
     cnt \<leftarrow> rdw dbuf 16;
     if idx \<ge> cnt then Some None
     else do {
       let entry_start = entry_start_of namelen;
       d \<leftarrow> dirent_at dbuf (entry_start + idx * 28) (entry_start + cnt * 28) (dir_size - 8);
       Some (Some d)
     }
   }"

definition filecore_get_child_entry ::
  "(nat \<Rightarrow> bytes option) \<Rightarrow> blockdev list \<Rightarrow> fc_state \<Rightarrow> u32 \<Rightarrow> u32 \<Rightarrow> vfs_dirent option option" where
  "filecore_get_child_entry km devs st dir_sin idx =
     (case g_fc_bdev st of None \<Rightarrow> Some None
      | Some i \<Rightarrow> do {
          let bd = devs ! i;
          g \<leftarrow> disc_geometry st;
          r \<leftarrow> resolve_sin km bd st g dir_sin;
          case r of None \<Rightarrow> Some None
          | Some dir_lba \<Rightarrow> do {
              d \<leftarrow> read_dir km bd g dir_lba;
              case d of None \<Rightarrow> Some None | Some (dbuf, dir_size) \<Rightarrow> dir_entry dbuf dir_size idx
            }
        })"

section \<open>Names and paths\<close>

text \<open>Strings are lists of non-zero bytes; the end of the list is the terminator.\<close>

fun fc_name_eq :: "bytes \<Rightarrow> bytes \<Rightarrow> bool" where
  "fc_name_eq (a # as) (b # bs) = (if a \<noteq> b then False else fc_name_eq as bs)"
| "fc_name_eq as bs = (as = [] \<and> bs = [])"

definition upper :: "u8 \<Rightarrow> u8" where
  "upper c = (if 0x61 \<le> c \<and> c \<le> 0x7A then c - 32 else c)"

fun fc_name_ieq :: "bytes \<Rightarrow> bytes \<Rightarrow> bool" where
  "fc_name_ieq (a # as) (b # bs) = (if upper a \<noteq> upper b then False else fc_name_ieq as bs)"
| "fc_name_ieq as bs = (as = [] \<and> bs = [])"

text \<open>The search through the entries of a directory, of which \<open>get\<close> returns one by its number.\<close>

fun find_entry :: "(u32 \<Rightarrow> vfs_dirent option option) \<Rightarrow> bytes \<Rightarrow> u32 list \<Rightarrow> vfs_dirent option option" where
  "find_entry get name [] = Some None"
| "find_entry get name (i # is) = do {
     r \<leftarrow> get i;
     case r of None \<Rightarrow> Some None
     | Some e \<Rightarrow> if fc_name_ieq (d_name e) name then Some (Some e) else find_entry get name is
   }"

definition fc_find_in_dir :: "(u32 \<Rightarrow> u32 \<Rightarrow> vfs_dirent option option) \<Rightarrow> u32 \<Rightarrow> bytes \<Rightarrow> vfs_dirent option option" where
  "fc_find_in_dir get dir_sin name = find_entry (get dir_sin) name (map of_nat [0..<256])"

text \<open>What follows the first \<open>$.\<close> of a path.\<close>

fun after_dollar :: "bytes \<Rightarrow> bytes option" where
  "after_dollar [] = None"
| "after_dollar (a # as) = (if a = 0x24 \<and> as \<noteq> [] \<and> hd as = 0x2E then Some (tl as) else after_dollar as)"

definition strip_prefix :: "bytes \<Rightarrow> bytes" where
  "strip_prefix p =
     (let p = (if take 6 p = [0x41, 0x44, 0x46, 0x53, 0x3A, 0x3A] \<or> take 6 p = [0x61, 0x44, 0x46, 0x53, 0x3A, 0x3A] then drop 6 p else p)
      in case after_dollar p of None \<Rightarrow> p | Some q \<Rightarrow> q)"

text \<open>The next component, of at most 255 characters, and the rest of the path.\<close>

definition next_component :: "bytes \<Rightarrow> bytes \<times> bytes" where
  "next_component p =
     (let n = min 255 (length (takeWhile (\<lambda>c. c \<noteq> 0x2E) p));
          r = drop n p
      in (take n p, if r \<noteq> [] \<and> hd r = 0x2E then tl r else r))"

lemma next_component_shorter: "p \<noteq> [] \<Longrightarrow> length (snd (next_component p)) < length p"
proof -
  assume "p \<noteq> []"
  then obtain c q where p: "p = c # q" by (cases p) auto
  show ?thesis
  proof (cases "c = 0x2E")
    case True
    then show ?thesis by (simp add: next_component_def p Let_def)
  next
    case False
    then have "0 < min 255 (length (takeWhile (\<lambda>c. c \<noteq> 0x2E) p))" by (simp add: p)
    then show ?thesis by (auto simp: next_component_def p Let_def)
  qed
qed

function walk_path :: "(u32 \<Rightarrow> u32 \<Rightarrow> vfs_dirent option option) \<Rightarrow> vfs_dirent \<Rightarrow> bytes \<Rightarrow> vfs_dirent option option" where
  "walk_path get cur p =
     (if p = [] then Some (Some cur)
      else if d_type cur \<noteq> VFS_DIRENT_DIR then Some None
      else do {
        r \<leftarrow> fc_find_in_dir get (sin cur) (fst (next_component p));
        case r of None \<Rightarrow> Some None | Some e \<Rightarrow> walk_path get e (snd (next_component p))
      })"
  by pat_completeness auto
termination by (relation "measure (\<lambda>(g, c, p). length p)") (auto simp: next_component_shorter)

declare walk_path.simps [simp del]

definition root_dirent :: "fc_state \<Rightarrow> vfs_dirent" where
  "root_dirent st = \<lparr>d_type = VFS_DIRENT_DIR, d_size = 0, riscos_type = 0, load_addr = 0, exec_addr = 0,
     sin = g_dr_root_dir st, d_name = [0x24]\<rparr>"

definition filecore_find_path :: "(u32 \<Rightarrow> u32 \<Rightarrow> vfs_dirent option option) \<Rightarrow> fc_state \<Rightarrow> bytes \<Rightarrow> vfs_dirent option option" where
  "filecore_find_path get st path =
     (if \<not> g_root_cache_valid st then Some None
      else
        let p = strip_prefix path
        in if p = [] then Some (Some (root_dirent st))
           else case find (\<lambda>e. fc_name_eq (d_name e) (fst (next_component p))) (g_root_cache st) of
             None \<Rightarrow> Some None
           | Some cur \<Rightarrow> walk_path get cur (snd (next_component p)))"

section \<open>Files\<close>

definition filecore_read_file_buf ::
  "(nat \<Rightarrow> bytes option) \<Rightarrow> blockdev \<Rightarrow> fc_state \<Rightarrow> geometry \<Rightarrow> u32 \<Rightarrow> u32 \<Rightarrow> bytes option option" where
  "filecore_read_file_buf km bd st g s sz =
     (if sz = 0 \<or> sz > 4 * 1024 * 1024 then Some None
      else do {
        let ss = sector_size g;
        r \<leftarrow> resolve_sin km bd st g s;
        case r of None \<Rightarrow> Some None
        | Some file_lba \<Rightarrow>
            if ss = 0 then None
            else
              let nsecs = (sz + ss - 1) div ss
              in case km (unat (nsecs * ss)) of None \<Rightarrow> Some None
                 | Some buf \<Rightarrow> do {
                     (ok, buf) \<leftarrow> read_sectors bd file_lba ss (map of_nat [0..<unat nsecs]) buf;
                     Some (if ok then Some buf else None)
                   }
      })"

definition filecore_read_file ::
  "(nat \<Rightarrow> bytes option) \<Rightarrow> blockdev list \<Rightarrow> fc_state \<Rightarrow> u32 \<Rightarrow> u32 \<Rightarrow> bytes option option" where
  "filecore_read_file km devs st s sz =
     (case g_fc_bdev st of None \<Rightarrow> Some None
      | Some i \<Rightarrow>
          if sz = 0 then Some None
          else do { g \<leftarrow> disc_geometry st; filecore_read_file_buf km (devs ! i) st g s sz })"

section \<open>Mounting: the root directory\<close>

text \<open>
  The parts of \<open>filecore_list_root\<close> that change the state before the boot scripts run: the disc
  name and root size taken over from the record of the middle zone, and the root directory that
  is read from just behind the two copies of the map and cached. The diagnostics printed on the
  way change nothing and are left out.
\<close>

definition adopt_zone_rec :: "disc_rec \<Rightarrow> fc_state \<Rightarrow> fc_state" where
  "adopt_zone_rec d st =
     (let st = (if name_set (disc_name d) \<and> \<not> name_set (g_dr_disc_name st) then st\<lparr>g_dr_disc_name := disc_name d @ [0]\<rparr> else st)
      in if dir_size_ok (root_dir_size d) then st\<lparr>g_dr_root_dir_size := root_dir_size d\<rparr> else st)"

definition root_alloc :: "(nat \<Rightarrow> bytes option) \<Rightarrow> blockdev \<Rightarrow> fc_state \<Rightarrow> u32 \<Rightarrow> u32 option" where
  "root_alloc km bd st root_probe =
     (if dir_size_ok (g_dr_root_dir_size st) then Some (g_dr_root_dir_size st)
      else case km 512 of None \<Rightarrow> Some 2048
      | Some peek \<Rightarrow> do {
          (ok, peek) \<leftarrow> bd_read1 bd (ucast root_probe) peek 0;
          if \<not> ok then Some 2048
          else do { ds \<leftarrow> rdw peek 12; Some (if dir_size_ok ds then ds else 2048) }
        })"

definition read_root_dir :: "(nat \<Rightarrow> bytes option) \<Rightarrow> blockdev \<Rightarrow> geometry \<Rightarrow> fc_state \<Rightarrow> fc_state option" where
  "read_root_dir km bd g st = do {
     let root_probe = disc_map_lba g + 2 * total_nzones g;
     dir_alloc \<leftarrow> root_alloc km bd st root_probe;
     case km (unat dir_alloc) of None \<Rightarrow> Some st
     | Some dir \<Rightarrow> do {
         (ok, dir) \<leftarrow> read_sectors bd root_probe 512 (map of_nat [0..<unat (dir_alloc div 512)]) dir;
         if \<not> ok then Some st
         else do {
           m \<leftarrow> is_sbpr dir;
           if \<not> m then Some st
           else do {
             namelen \<leftarrow> rdw dir 8;
             cnt \<leftarrow> rdw dir 16;
             let entry_start = entry_start_of namelen;
             filecore_populate_root_cache dir cnt entry_start (entry_start + cnt * 28) st
           }
         }
       }
   }"

definition mount_root :: "(nat \<Rightarrow> bytes option) \<Rightarrow> blockdev list \<Rightarrow> fc_state \<Rightarrow> fc_state option" where
  "mount_root km devs st =
     (case g_fc_bdev st of None \<Rightarrow> Some st
      | Some i \<Rightarrow> do {
          let bd = devs ! i;
          g \<leftarrow> disc_geometry st;
          case km 512 of None \<Rightarrow> Some st
          | Some buf \<Rightarrow> do {
              (rc, buf, _) \<leftarrow> fc_read_zone_discrec bd 0 (g_fc_lba_base st) (used_bits g) 480 (secperlfau g) buf;
              (rc, buf, d) \<leftarrow> fc_read_zone_discrec bd (total_nzones g div 2) (g_fc_lba_base st) (used_bits g) 480 (secperlfau g) buf;
              let st = (case d of Some d \<Rightarrow> adopt_zone_rec d st | None \<Rightarrow> st);
              read_root_dir km bd g st
            }
        })"

section \<open>The map: correctness\<close>

text \<open>A buffer as one little-endian number.\<close>

fun le_nat :: "bytes \<Rightarrow> nat" where
  "le_nat [] = 0"
| "le_nat (b # bs) = unat b + 256 * le_nat bs"

lemma bit_unat_u8: "bit (unat (b :: u8)) j = bit b j"
  by (simp add: bit_unsigned_iff)

lemma bit_le_nat: "bit (le_nat buf) k \<longleftrightarrow> k div 8 < length buf \<and> bit (buf ! (k div 8)) (k mod 8)"
proof (induction buf arbitrary: k)
  case (Cons b bs)
  have s: "le_nat (b # bs) = push_bit 8 (le_nat bs) OR unat b"
  proof -
    have "push_bit 8 (le_nat bs) + unat b = push_bit 8 (le_nat bs) OR unat b"
      by (subst disjunctive_add) (auto simp: bit_simps bit_unat_u8 dest: bit_imp_le_length)
    then show ?thesis by (simp add: push_bit_eq_mult)
  qed
  show ?case
  proof (cases "k < 8")
    case True
    then show ?thesis unfolding s by (simp add: bit_or_iff bit_push_bit_iff bit_unat_u8)
  next
    case False
    then have "\<not> bit b k" using bit_imp_le_length [of b k] by auto
    moreover have "k div 8 = Suc ((k - 8) div 8)" "k mod 8 = (k - 8) mod 8" using False by (simp_all add: le_div_geq le_mod_geq)
    ultimately show ?thesis unfolding s using False Cons.IH [of "k - 8"]
      by (simp add: bit_or_iff bit_push_bit_iff bit_unat_u8)
  qed
qed simp

lemma read_bits_loop_bit:
  assumes "i + n \<le> 32" "unat bitpos + i + n \<le> 8 * length buf" "8 * length buf < 2 ^ 32"
  shows "\<exists>v. read_bits_loop buf bitpos i n val = Some v \<and>
    (\<forall>j. bit v j = (bit val j \<or> (i \<le> j \<and> j < i + n \<and> bit (le_nat buf) (unat bitpos + j))))"
  using assms
proof (induction n arbitrary: i val)
  case (Suc n)
  define bp where "bp = bitpos + of_nat i"
  have u: "unat bp = unat bitpos + i"
    using Suc.prems by (simp add: bp_def unat_word_ariths unat_of_nat take_bit_eq_mod)
  have d: "uint (drop_bit 3 bp) = int ((unat bitpos + i) div 8)"
    by (simp add: u[symmetric] drop_bit_eq_div uint_div_distrib zdiv_int)
  have m: "unat (bp AND 7) = (unat bitpos + i) mod 8"
  proof -
    have "bp AND 7 = take_bit 3 bp" by (simp add: take_bit_eq_mask mask_eq_exp_minus_1 and.commute)
    then show ?thesis by (simp add: take_bit_eq_mod unat_mod_distrib u)
  qed
  have "(unat bitpos + i) div 8 < length buf" using Suc.prems(2) by (simp add: less_mult_imp_div_less)
  then have r: "rd buf (uint (drop_bit 3 bp)) = Some (buf ! ((unat bitpos + i) div 8))"
    unfolding d by (simp add: rd_def nat_int)
  have b: "bit (buf ! ((unat bitpos + i) div 8)) (unat (bp AND 7)) = bit (le_nat buf) (unat bitpos + i)"
    unfolding m bit_le_nat using \<open>(unat bitpos + i) div 8 < length buf\<close> by simp
  let ?val = "if bit (le_nat buf) (unat bitpos + i) then val OR push_bit i 1 else val"
  have "read_bits_loop buf bitpos i (Suc n) val = read_bits_loop buf bitpos (i + 1) n ?val"
    using Suc.prems(1) r b by (simp add: Let_def flip: bp_def)
  moreover obtain v where v: "read_bits_loop buf bitpos (i + 1) n ?val = Some v"
    "\<forall>j. bit v j = (bit ?val j \<or> (i + 1 \<le> j \<and> j < i + 1 + n \<and> bit (le_nat buf) (unat bitpos + j)))"
    using Suc.IH [of "i + 1" ?val] Suc.prems by auto
  moreover have "bit v j = (bit val j \<or> (i \<le> j \<and> j < i + Suc n \<and> bit (le_nat buf) (unat bitpos + j)))" for j
  proof -
    have "bit ?val j = (bit val j \<or> (j = i \<and> bit (le_nat buf) (unat bitpos + j)))"
      using Suc.prems(1) by (auto simp: bit_or_iff bit_exp_iff possible_bit_word)
    moreover have "(i \<le> j \<and> j < i + Suc n) = (j = i \<or> (i + 1 \<le> j \<and> j < i + 1 + n))" by linarith
    ultimately show ?thesis using v(2) [rule_format, of j] by argo
  qed
  ultimately show ?case by metis
qed auto

text \<open>
  Reading up to 32 bits at any bit position of a buffer gives the bits of the buffer taken
  as one little-endian number.
\<close>

theorem adfs_read_bits_correct:
  assumes "n \<le> 32" "unat bitpos + n \<le> 8 * length buf" "8 * length buf < 2 ^ 32"
  shows "\<exists>v. adfs_read_bits buf bitpos n = Some v \<and> unat v = le_nat buf div 2 ^ unat bitpos mod 2 ^ n"
proof -
  obtain v where v: "adfs_read_bits buf bitpos n = Some v" "\<And>j. bit v j = (j < n \<and> bit (le_nat buf) (unat bitpos + j))"
    using read_bits_loop_bit [of 0 n bitpos buf 0] assms by (auto simp: adfs_read_bits_def)
  have "unat v = take_bit n (drop_bit (unat bitpos) (le_nat buf))"
  proof (rule bit_eqI)
    fix j
    show "bit (unat v) j = bit (take_bit n (drop_bit (unat bitpos) (le_nat buf))) j"
      using v(2) [of j] assms(1) by (auto simp: bit_unsigned_iff bit_take_bit_iff bit_drop_bit_eq)
  qed
  then show ?thesis using v(1) by (simp add: take_bit_eq_mod drop_bit_eq_div)
qed

theorem adfs_read_bits_correct_witness:
  "\<exists>v. adfs_read_bits [0x34, 0x12, 0xFF] 4 8 = Some v \<and> unat v = 0x23"
  using adfs_read_bits_correct [of 8 4 "[0x34, 0x12, 0xFF]"] by simp

text \<open>
  A zone's allocation area as a sequence of fragments, each given by its identifier and its
  length in bits: the identifier, then 0-bits, then a terminating 1-bit.
\<close>

fun fragments :: "nat \<Rightarrow> nat \<Rightarrow> nat \<Rightarrow> (nat \<times> nat) list \<Rightarrow> bool" where
  "fragments Z idlen p [] = True"
| "fragments Z idlen p ((ident, len) # fs) =
     (idlen + 1 \<le> len \<and> Z div 2 ^ p mod 2 ^ idlen = ident \<and> (\<forall>k. p + idlen \<le> k \<and> k < p + len - 1 \<longrightarrow> \<not> bit Z k) \<and>
      bit Z (p + len - 1) \<and> fragments Z idlen (p + len) fs)"

definition span :: "(nat \<times> nat) list \<Rightarrow> nat" where
  "span fs = sum_list (map snd fs)"

lemma zbit_le_nat: "raw < 8 * length zbuf \<Longrightarrow> zbit zbuf raw = Some (bit (le_nat zbuf) raw)"
  by (simp add: zbit_def rd_def bit_le_nat less_mult_imp_div_less nat_int)

lemma skip_body_to_end:
  assumes "\<And>k. spare + a \<le> k \<Longrightarrow> k < spare + q \<Longrightarrow> \<not> bit (le_nat zbuf) k" "bit (le_nat zbuf) (spare + q)"
    and "a \<le> q" "q < e" "spare + e \<le> 8 * length zbuf"
  shows "skip_body zbuf spare e a = Some (q + 1)"
  using assms(1,3)
proof (induction "q - a" arbitrary: a)
  case 0
  then have "a = q" by simp
  then show ?case using assms(2,4,5) by (subst skip_body.simps) (simp add: zbit_le_nat)
next
  case (Suc n)
  then have "\<not> bit (le_nat zbuf) (spare + a)" "a < q" by auto
  moreover have "skip_body zbuf spare e (a + 1) = Some (q + 1)" using Suc by (intro Suc(1)) auto
  ultimately show ?case using assms(4,5) by (subst skip_body.simps) (simp add: zbit_le_nat)
qed

lemma ida_scan_step:
  assumes "fragments (le_nat zbuf) idlen (spare + a) ((fid, len) # fs)" "idlen \<le> 32"
    and "a + len \<le> e" "spare + e \<le> 8 * length zbuf" "8 * length zbuf < 2 ^ 32"
  shows "ida_scan zbuf spare idlen ident e a =
    (if unat ident = fid then Some (Some a)
     else if e - (a + len) < idlen + 1 then Some None else ida_scan zbuf spare idlen ident e (a + len))"
proof -
  have len: "idlen + 1 \<le> len" using assms(1) by simp
  have "spare + a < 2 ^ 32" using assms(3-5) len by linarith
  then have un: "unat (of_nat (spare + a) :: u32) = spare + a" by (simp add: unat_of_nat take_bit_eq_mod del: of_nat_add)
  have "spare + a + idlen \<le> 8 * length zbuf" using len assms(3,4) by linarith
  with adfs_read_bits_correct [OF assms(2), of "of_nat (spare + a)" zbuf] obtain v where
    v: "adfs_read_bits zbuf (of_nat (spare + a)) idlen = Some v" "unat v = fid"
    using assms(1,5) un by auto
  have "skip_body zbuf spare e (a + idlen) = Some (a + len - 1 + 1)"
  proof (rule skip_body_to_end)
    show "\<not> bit (le_nat zbuf) k" if "spare + (a + idlen) \<le> k" "k < spare + (a + len - 1)" for k
      using assms(1) that len by auto
    show "bit (le_nat zbuf) (spare + (a + len - 1))" using assms(1) len by (simp add: add.assoc)
  qed (use len assms in auto)
  then have sk: "skip_body zbuf spare e (a + idlen) = Some (a + len)" using len by simp
  have "a + idlen < e" using len assms(3) by linarith
  moreover have "v = ident \<longleftrightarrow> unat ident = fid" using v(2) word_unat_eq_iff [of v ident] by auto
  ultimately show ?thesis using v(1) sk by (subst ida_scan.simps) simp
qed

lemma fragments_mid: "fragments Z idlen p (xs @ (i, len) # ys) \<Longrightarrow> idlen + 1 \<le> len"
  by (induction xs arbitrary: p) auto

lemma ida_scan_finds:
  assumes "fragments (le_nat zbuf) idlen (spare + a) (xs @ (unat ident, len) # ys)" "unat ident \<notin> fst ` set xs"
    and "idlen \<le> 32" "a + span xs + len \<le> e" "spare + e \<le> 8 * length zbuf" "8 * length zbuf < 2 ^ 32"
  shows "ida_scan zbuf spare idlen ident e a = Some (Some (a + span xs))"
  using assms(1,2,4)
proof (induction xs arbitrary: a)
  case Nil
  then show ?case using ida_scan_step [of zbuf idlen spare a "unat ident" len ys e ident] assms(3,5,6) by (simp add: span_def)
next
  case (Cons x xs)
  obtain fid l where x: "x = (fid, l)" by (cases x)
  have f: "fragments (le_nat zbuf) idlen (spare + (a + l)) (xs @ (unat ident, len) # ys)" "idlen + 1 \<le> l"
    using Cons.prems(1) x by (auto simp: add.assoc)
  have "idlen + 1 \<le> len" using fragments_mid [OF f(1)] .
  then have "\<not> e - (a + l) < idlen + 1" "a + l \<le> e" using Cons.prems(3) x by (auto simp: span_def)
  moreover have "ida_scan zbuf spare idlen ident e (a + l) = Some (Some (a + l + span xs))"
    using Cons.IH [OF f(1)] Cons.prems(2,3) x by (auto simp: span_def)
  ultimately show ?case
    using ida_scan_step [of zbuf idlen spare a fid l "xs @ (unat ident, len) # ys" e ident] Cons.prems(1,2) assms(3,5,6) x
    by (auto simp: span_def)
qed

lemma ida_scan_absent:
  assumes "fragments (le_nat zbuf) idlen (spare + a) fs" "unat ident \<notin> fst ` set fs"
    and "idlen \<le> 32" "a + span fs = e" "spare + e \<le> 8 * length zbuf" "8 * length zbuf < 2 ^ 32"
  shows "ida_scan zbuf spare idlen ident e a = Some None"
  using assms(1,2,4)
proof (induction fs arbitrary: a)
  case Nil
  then show ?case by (subst ida_scan.simps) (simp add: span_def)
next
  case (Cons x xs)
  obtain fid l where x: "x = (fid, l)" by (cases x)
  have "ida_scan zbuf spare idlen ident e (a + l) = Some None"
    using Cons.IH [of "a + l"] Cons.prems x by (auto simp: span_def add.assoc)
  then show ?case
    using ida_scan_step [of zbuf idlen spare a fid l xs e ident] Cons.prems assms(3,5,6) x by (auto simp: span_def)
qed

text \<open>
  C24. An indirect disc address is resolved to the sector of its object: when the map sector of
  the object's home zone lists a fragment with the object's identifier, the result is the
  sector of the fragment's first unit plus the offset in the address; when it lists no such
  fragment, the lookup fails.
\<close>

theorem ida_lookup:
  fixes spare ubits idlen nz base maplba spl ida :: u32
  assumes "sector_dev bd f" "km 512 = Some z0" "length z0 = 512"
    and "ids_pz = ubits div (idlen + 1)" "0 < ids_pz" "home = drop_bit 8 ida div ids_pz" "home < nz"
    and "f (ucast (maplba + home)) = Some zbuf" "unat idlen \<le> 24" "unat spare + unat ubits \<le> 4096"
    and "start = (if home = 0 then 480 else 0)"
    and "fragments (le_nat zbuf) (unat idlen) (unat spare + start) fs" "start + span fs = unat ubits"
  shows "fc_ida_to_data_lba km bd ida base maplba spare ubits 480 idlen spl nz = Some
    (case find (\<lambda>(i, l). i = unat (drop_bit 8 ida)) fs of
       None \<Rightarrow> None
     | Some x \<Rightarrow> Some (base + (home * ubits + of_nat (start + span (takeWhile (\<lambda>(i, l). i \<noteq> unat (drop_bit 8 ida)) fs)) - 480
                     + drop_bit 1 (ida AND 0xFF)) * spl))"
proof -
  let ?id = "drop_bit 8 ida"
  have zl: "length zbuf = 512" using assms(1,8) by (auto simp: sector_dev_def)
  have rd1: "bd_read1 bd (ucast (maplba + home)) z0 0 = Some (True, zbuf)"
    using sector_read [OF assms(1,3)] assms(8) by simp
  have id1: "idlen + 1 \<noteq> 0"
  proof
    assume "idlen + 1 = 0"
    then have "idlen = -1" by (simp add: eq_neg_iff_add_eq_0)
    then show False using assms(9) by (simp add: unsigned_minus_1_eq_mask mask_eq_exp_minus_1)
  qed
  let ?ls = "ida_scan zbuf (unat spare) (unat idlen) ?id (unat ubits) start"
  have st: "(if home = 0 then unat (480 :: u32) else 0) = start" using assms(11) by simp
  have eq: "fc_ida_to_data_lba km bd ida base maplba spare ubits 480 idlen spl nz =
    Option.bind ?ls (\<lambda>r. case r of None \<Rightarrow> Some None
      | Some s \<Rightarrow> Some (Some (base + (home * ubits + of_nat s - 480 + drop_bit 1 (ida AND 0xFF)) * spl)))"
  proof -
    have hz: "(if (spare + ubits - spare) div (idlen + 1) > 0 then ?id div ((spare + ubits - spare) div (idlen + 1)) else 0) = home"
      using assms(4-6) by simp
    have "\<not> home \<ge> nz" using assms(7) by simp
    moreover define chain where "chain = drop_bit 1 (ida AND 0xFF)"
    ultimately show ?thesis
      unfolding fc_ida_to_data_lba_def Let_def hz st chain_def [symmetric] using id1 assms(2) rd1 by simp
  qed
  show ?thesis
  proof (cases "find (\<lambda>(i, l). i = unat ?id) fs")
    case None
    then have "unat ?id \<notin> fst ` set fs" by (auto simp: find_None_iff)
    then have "?ls = Some None" using ida_scan_absent [OF assms(12)] assms(9,10,13) zl by simp
    then show ?thesis unfolding eq using None by simp
  next
    case (Some x)
    let ?tw = "takeWhile (\<lambda>(i, l). i \<noteq> unat ?id) fs"
    obtain y ys where fs: "fs = ?tw @ y # ys" "fst y = unat ?id"
    proof -
      have "dropWhile (\<lambda>(i, l). i \<noteq> unat ?id) fs \<noteq> []"
        using Some nth_mem by (fastforce simp: dropWhile_eq_Nil_conv find_Some_iff)
      then obtain y ys where d: "dropWhile (\<lambda>(i, l). i \<noteq> unat ?id) fs = y # ys" by (meson neq_Nil_conv)
      then have "fst y = unat ?id" by (simp add: dropWhile_eq_Cons_conv split: prod.splits)
      then show ?thesis using that d by (metis takeWhile_dropWhile_id)
    qed
    have y: "y = (unat ?id, snd y)" using fs(2) by (metis prod.collapse)
    have ni: "unat ?id \<notin> fst ` set ?tw" by (auto dest: set_takeWhileD)
    have "span fs = span ?tw + snd y + span ys" by (subst fs(1)) (simp add: span_def)
    then have "start + span ?tw + snd y \<le> unat ubits" using assms(13) by simp
    moreover have "fragments (le_nat zbuf) (unat idlen) (unat spare + start) (?tw @ (unat ?id, snd y) # ys)"
      using assms(12) fs(1) y by metis
    ultimately have "?ls = Some (Some (start + span ?tw))"
      using ida_scan_finds [of zbuf "unat idlen" "unat spare" start ?tw ?id "snd y" ys "unat ubits"] ni assms(9,10) zl by simp
    then show ?thesis unfolding eq using Some by simp
  qed
qed

lemma le_nat_append: "le_nat (xs @ ys) = le_nat xs + 256 ^ length xs * le_nat ys"
  by (induction xs) (auto simp: algebra_simps)

lemma le_nat_zeros [simp]: "le_nat (replicate n 0) = 0"
  by (induction n) auto

theorem ida_lookup_witness:
  "\<exists>zbuf. fc_ida_to_data_lba (\<lambda>n. Some (replicate 512 0)) (ram_disc (\<lambda>l. Some zbuf)) 0x203 1000 50 32 512 480 15 4 2
     = Some (Some (1000 + (16 + 1) * 4))"
proof -
  let ?zb = "replicate 64 0 @ [3, 0x80, 2, 0x80] @ replicate 444 0 :: bytes"
  have z: "le_nat ?zb = 2 ^ 512 * 0x80028003" by (simp add: le_nat_append)
  have "fragments (le_nat ?zb) 15 512 [(3, 16), (2, 16)]"
    unfolding z by (auto simp: bit_iff_odd)
  moreover have "sector_dev (ram_disc (\<lambda>l. Some ?zb)) (\<lambda>l. Some ?zb)" by (rule ram_disc_sector) auto
  ultimately show ?thesis
    using ida_lookup [where bd = "ram_disc (\<lambda>l. Some ?zb)" and f = "\<lambda>l. Some ?zb" and km = "\<lambda>n. Some (replicate 512 0)"
        and ?z0.0 = "replicate 512 0" and spare = 32 and ubits = 512 and idlen = 15 and ids_pz = 32 and home = 0 and ida = "0x203"
        and nz = 2 and maplba = 50 and zbuf = ?zb and start = 480 and fs = "[(3, 16), (2, 16)]" and base = 1000 and spl = 4]
    by (intro exI [of _ ?zb]) (simp add: span_def)
qed

section \<open>Paths\<close>

lemma fc_name_eq_iff [simp]: "fc_name_eq a b \<longleftrightarrow> a = b"
  by (induction a b rule: fc_name_eq.induct) auto

lemma fc_name_ieq_iff [simp]: "fc_name_ieq a b \<longleftrightarrow> map upper a = map upper b"
  by (induction a b rule: fc_name_ieq.induct) auto

text \<open>
  The specification: the contents of the directories as a function of their address, and the
  walk along the components of a path in it.
\<close>

type_synonym tree = "u32 \<Rightarrow> vfs_dirent list"

definition in_tree :: "tree \<Rightarrow> vfs_dirent \<Rightarrow> bytes \<Rightarrow> vfs_dirent option" where
  "in_tree tree d name =
     (if d_type d = VFS_DIRENT_DIR then find (\<lambda>e. map upper (d_name e) = map upper name) (tree (sin d)) else None)"

fun tree_lookup :: "tree \<Rightarrow> vfs_dirent \<Rightarrow> bytes list \<Rightarrow> vfs_dirent option" where
  "tree_lookup tree d [] = Some d"
| "tree_lookup tree d (c # cs) = Option.bind (in_tree tree d c) (\<lambda>e. tree_lookup tree e cs)"

text \<open>A reader that returns the entries of a tree of directories of at most 256 entries.\<close>

definition reads_tree :: "(u32 \<Rightarrow> u32 \<Rightarrow> vfs_dirent option option) \<Rightarrow> tree \<Rightarrow> bool" where
  "reads_tree get tree \<longleftrightarrow> (\<forall>s. length (tree s) \<le> 256 \<and>
     (\<forall>i. get s i = Some (if unat i < length (tree s) then Some (tree s ! unat i) else None)))"

definition component :: "bytes \<Rightarrow> bool" where
  "component c \<longleftrightarrow> c \<noteq> [] \<and> length c \<le> 255 \<and> 0x2E \<notin> set c"

fun join_path :: "bytes list \<Rightarrow> bytes" where
  "join_path [] = []"
| "join_path [c] = c"
| "join_path (c # cs) = c @ 0x2E # join_path cs"

lemma next_component_join:
  assumes "component c"
  shows "next_component (join_path (c # cs)) = (c, join_path cs)"
proof (cases cs)
  case Nil
  have "takeWhile (\<lambda>x. x \<noteq> 0x2E) c = c" using assms by (auto simp: component_def takeWhile_eq_all_conv)
  then show ?thesis using assms Nil by (simp add: next_component_def component_def del: takeWhile_eq_all_conv)
next
  case (Cons d ds)
  have "takeWhile (\<lambda>x. x \<noteq> 0x2E) (c @ 0x2E # join_path cs) = c"
    using assms by (subst takeWhile_append2) (auto simp: component_def)
  then show ?thesis using assms Cons by (simp add: next_component_def component_def)
qed

lemma join_path_Nil: "list_all component cs \<Longrightarrow> join_path cs = [] \<longleftrightarrow> cs = []"
  by (cases cs rule: join_path.cases) (auto simp: component_def)

lemma find_entry_tree:
  assumes "\<And>j. j < 256 \<Longrightarrow> get (of_nat j) = Some (if j < length es then Some (es ! j) else None)"
    and "k \<le> length es" "length es \<le> 256"
  shows "find_entry get name (map of_nat [k..<256]) = Some (find (\<lambda>e. map upper (d_name e) = map upper name) (drop k es))"
  using assms(2)
proof (induction "256 - k" arbitrary: k)
  case 0
  then show ?case using assms(3) by simp
next
  case (Suc n)
  then have "k < 256" by simp
  then have u: "[k..<256] = k # [Suc k..<256]" by (simp add: upt_rec)
  show ?case
  proof (cases "k < length es")
    case True
    then have "drop k es = es ! k # drop (Suc k) es" by (simp add: Cons_nth_drop_Suc)
    moreover have "find_entry get name (map of_nat [Suc k..<256]) =
        Some (find (\<lambda>e. map upper (d_name e) = map upper name) (drop (Suc k) es))"
      using Suc(2) True by (intro Suc(1)) auto
    ultimately show ?thesis using True assms(1) [OF \<open>k < 256\<close>] by (simp add: u)
  next
    case False
    then show ?thesis using assms(1) [OF \<open>k < 256\<close>] by (simp add: u)
  qed
qed

lemma find_in_dir_tree:
  assumes "reads_tree get tree"
  shows "fc_find_in_dir get s name = Some (find (\<lambda>e. map upper (d_name e) = map upper name) (tree s))"
proof -
  have "get s (of_nat j) = Some (if j < length (tree s) then Some (tree s ! j) else None)" if "j < 256" for j
  proof -
    have "unat (of_nat j :: u32) = j" using that by (simp add: unat_of_nat take_bit_eq_mod)
    then show ?thesis using assms by (simp add: reads_tree_def)
  qed
  then show ?thesis
    using find_entry_tree [of "get s" "tree s" 0 name] assms by (simp add: fc_find_in_dir_def reads_tree_def)
qed

lemma walk_path_tree:
  assumes "reads_tree get tree" "list_all component cs"
  shows "walk_path get cur (join_path cs) = Some (tree_lookup tree cur cs)"
  using assms(2)
proof (induction cs arbitrary: cur)
  case Nil
  then show ?case by (simp add: walk_path.simps)
next
  case (Cons c cs)
  then have "join_path (c # cs) \<noteq> []" "component c" using join_path_Nil by fastforce+
  then show ?case using Cons next_component_join [of c cs]
    by (subst walk_path.simps) (auto simp: find_in_dir_tree [OF assms(1)] in_tree_def split: option.splits)
qed

lemma find_path_first:
  assumes "g_root_cache_valid st" "list_all component (c # cs)"
  shows "filecore_find_path get st (0x24 # 0x2E # join_path (c # cs)) =
    (case find (\<lambda>e. d_name e = c) (g_root_cache st) of None \<Rightarrow> Some None | Some e \<Rightarrow> walk_path get e (join_path cs))"
proof -
  have "join_path (c # cs) \<noteq> []" using join_path_Nil [of "c # cs"] assms(2) by simp
  moreover have "strip_prefix (0x24 # 0x2E # join_path (c # cs)) = join_path (c # cs)"
    by (simp add: strip_prefix_def del: join_path.simps)
  ultimately show ?thesis
    using assms next_component_join [of c cs]
    by (auto simp: filecore_find_path_def Let_def simp del: join_path.simps split: option.split)
qed

text \<open>
  C18. \<open>filecore_find_path\<close> refines the walk through the directory tree: a path \<open>$.c1.c2...\<close> is
  looked up component by component, the first one in the cached root directory by its exact
  spelling, every other one in the directory found so far without regard to case.
\<close>

theorem find_path_tree:
  assumes "reads_tree get tree" "g_root_cache_valid st" "list_all component (c # cs)"
  shows "filecore_find_path get st (0x24 # 0x2E # join_path (c # cs)) =
    Some (Option.bind (find (\<lambda>e. d_name e = c) (g_root_cache st)) (\<lambda>e. tree_lookup tree e cs))"
  using assms(3) walk_path_tree [OF assms(1), of cs] by (auto simp: find_path_first [OF assms(2,3)] split: option.split)

definition leaf :: "nat \<Rightarrow> u32 \<Rightarrow> bytes \<Rightarrow> vfs_dirent" where
  "leaf t s nm = \<lparr>d_type = t, d_size = 0, riscos_type = 0, load_addr = 0, exec_addr = 0, sin = s, d_name = nm\<rparr>"

theorem find_path_tree_witness:
  "let tree = (\<lambda>s. if s = 0x500 then [leaf VFS_DIRENT_FILE 0x600 [0x42, 0x6F]] else []);
       get = (\<lambda>s i. Some (if unat i < length (tree s) then Some (tree s ! unat i) else None));
       st = fc_boot\<lparr>g_root_cache := [leaf VFS_DIRENT_DIR 0x500 [0x41]], g_root_cache_valid := True\<rparr>
   in filecore_find_path get st [0x24, 0x2E, 0x41, 0x2E, 0x62, 0x4F] = Some (Some (leaf VFS_DIRENT_FILE 0x600 [0x42, 0x6F]))
    \<and> filecore_find_path get st [0x24, 0x2E, 0x61, 0x2E, 0x62, 0x4F] = Some None"
proof -
  let ?tree = "\<lambda>s :: u32. if s = 0x500 then [leaf VFS_DIRENT_FILE 0x600 [0x42, 0x6F]] else []"
  let ?get = "\<lambda>s i :: u32. Some (if unat i < length (?tree s) then Some (?tree s ! unat i) else None)"
  let ?st = "fc_boot\<lparr>g_root_cache := [leaf VFS_DIRENT_DIR 0x500 [0x41]], g_root_cache_valid := True\<rparr>"
  have r: "reads_tree ?get ?tree" by (simp add: reads_tree_def)
  have c: "list_all component [[0x41], [0x62, 0x4F]]" "list_all component [[0x61], [0x62, 0x4F]]" by (simp_all add: component_def)
  have v: "g_root_cache_valid ?st" by simp
  have "filecore_find_path ?get ?st [0x24, 0x2E, 0x41, 0x2E, 0x62, 0x4F] = Some (Some (leaf VFS_DIRENT_FILE 0x600 [0x42, 0x6F]))"
    using find_path_tree [OF r v c(1)] by (simp add: leaf_def in_tree_def upper_def)
  moreover have "filecore_find_path ?get ?st [0x24, 0x2E, 0x61, 0x2E, 0x62, 0x4F] = Some None"
    using find_path_tree [OF r v c(2)] by (simp add: leaf_def)
  ultimately show ?thesis unfolding Let_def by blast
qed

section \<open>Reading\<close>

lemma sector_read_at:
  assumes "sector_dev bd f" "f lba = Some d" "0 \<le> p" "p + 512 \<le> int (length buf)"
  shows "bd_read1 bd lba buf p = Some (True, take (nat p) buf @ d @ drop (nat p + 512) buf)"
proof -
  obtain g where "dev_op op_read (Some bd) = Some g" "g lba 1 = f lba" "length d = 512"
    using assms(1,2) by (auto simp: sector_dev_def)
  then show ?thesis using assms(2-4) by (simp add: bd_read1_def wrn_def nat_add_distrib)
qed

lemma sector_read_fails:
  assumes "sector_dev bd f" "f lba = None"
  shows "bd_read1 bd lba buf p = Some (False, buf)"
  using assms by (auto simp: sector_dev_def bd_read1_def)

text \<open>The sectors \<open>k\<close> to \<open>n\<close> of a region that starts at sector \<open>lba\<close>.\<close>

definition sectors :: "(u64 \<Rightarrow> bytes option) \<Rightarrow> u32 \<Rightarrow> nat \<Rightarrow> nat \<Rightarrow> bytes list" where
  "sectors f lba k n = map (\<lambda>i. the (f (ucast (lba + of_nat i)))) [k..<n]"

lemma read_sectors_at:
  assumes "sector_dev bd f" "\<And>i. k \<le> i \<Longrightarrow> i < n \<Longrightarrow> f (ucast (lba + of_nat i)) \<noteq> None"
    and "k \<le> n" "512 * n \<le> length buf" "512 * n < 2 ^ 32"
  shows "read_sectors bd lba 512 (map of_nat [k..<n]) buf = Some (True, take (512 * k) buf @ concat (sectors f lba k n) @ drop (512 * n) buf)"
  using assms(2-4)
proof (induction "n - k" arbitrary: k buf)
  case 0
  then show ?case by (simp add: sectors_def)
next
  case (Suc m)
  then have "k < n" by simp
  then have u: "[k..<n] = k # [Suc k..<n]" by (simp add: upt_rec)
  obtain d where d: "f (ucast (lba + of_nat k)) = Some d" using Suc.prems(1) \<open>k < n\<close> by blast
  then have ld: "length d = 512" using assms(1) by (auto simp: sector_dev_def)
  let ?buf = "take (512 * k) buf @ d @ drop (512 * k + 512) buf"
  have "unat (of_nat k * 512 :: u32) = 512 * k"
    using \<open>k < n\<close> assms(5) by (simp add: unat_word_ariths unat_of_nat take_bit_eq_mod)
  then have p: "uint (of_nat k * 512 :: u32) = int (512 * k)" by (metis uint_nat)
  have "bd_read1 bd (ucast (lba + of_nat k)) buf (uint (of_nat k * 512 :: u32)) = Some (True, ?buf)"
    unfolding p using sector_read_at [OF assms(1) d, of "int (512 * k)" buf] Suc.prems(3) \<open>k < n\<close> by (simp add: nat_mult_distrib)
  moreover have "read_sectors bd lba 512 (map of_nat [Suc k..<n]) ?buf =
      Some (True, take (512 * Suc k) ?buf @ concat (sectors f lba (Suc k) n) @ drop (512 * n) ?buf)"
    using Suc ld \<open>k < n\<close> by (intro Suc(1)) auto
  moreover have "take (512 * Suc k) ?buf = take (512 * k) buf @ d" using ld Suc.prems(3) \<open>k < n\<close> by simp
  moreover have "drop (512 * n) ?buf = drop (512 * n) buf"
  proof -
    obtain m' where "n = Suc k + m'" using \<open>k < n\<close> by (metis less_imp_Suc_add add_Suc)
    then show ?thesis using ld Suc.prems(3) by (simp add: algebra_simps)
  qed
  moreover have "sectors f lba k n = d # sectors f lba (Suc k) n" using u d by (simp add: sectors_def)
  ultimately show ?case by (simp add: u)
qed

lemma read_file_buf_sectors:
  assumes "sector_dev bd f" "sector_size g = 512" "resolve_sin km bd st g s = Some (Some lba)"
    and "0 < sz" "sz \<le> 4 * 1024 * 1024" "n = (unat sz + 511) div 512" "km (512 * n) = Some buf" "length buf = 512 * n"
    and "\<forall>i < n. f (ucast (lba + of_nat i)) \<noteq> None"
  shows "filecore_read_file_buf km bd st g s sz = Some (Some (concat (sectors f lba 0 n)))"
proof -
  have u: "unat sz \<le> 4194304" using assms(5) by (simp add: word_le_nat_alt)
  then have s1: "unat (sz + 512 - 1) = unat sz + 511" by (simp add: unat_word_ariths)
  have ns: "unat ((sz + 512 - 1) div 512) = n" using s1 assms(6) by (simp add: unat_div_distrib)
  have "n \<le> 8192" using u assms(6) by linarith
  then have b: "unat ((sz + 512 - 1) div 512 * 512) = 512 * n" using ns by (simp add: unat_word_ariths)
  have "read_sectors bd lba 512 (map of_nat [0..<n]) buf = Some (True, concat (sectors f lba 0 n))"
    using read_sectors_at [OF assms(1), of 0 n lba buf] assms(8,9) \<open>n \<le> 8192\<close> by auto
  moreover have "\<not> (sz = 0 \<or> sz > 4 * 1024 * 1024)" using assms(4,5) by auto
  ultimately show ?thesis
    unfolding filecore_read_file_buf_def assms(2) Let_def ns b assms(3) using assms(7) by simp
qed

text \<open>
  \<open>filecore_read_file_buf\<close> returns the sectors of the file in order, as many as its size needs,
  when its address resolves and every sector can be read.
\<close>

theorem read_file_sectors:
  assumes "sector_dev bd f" "sector_size g = 512" "resolve_sin km bd st g s = Some (Some lba)"
    and "0 < sz" "sz \<le> 4 * 1024 * 1024" "n = (unat sz + 511) div 512" "km (512 * n) = Some buf" "length buf = 512 * n"
    and "\<forall>i < n. f (ucast (lba + of_nat i)) \<noteq> None"
  shows "filecore_read_file_buf km bd st g s sz = Some (Some (concat (sectors f lba 0 n)))"
  by (rule read_file_buf_sectors) (fact assms)+

theorem read_file_sectors_witness:
  "let bd = ram_disc (\<lambda>l. Some (replicate 512 (ucast l)));
       km = (\<lambda>n. Some (replicate n 0));
       g = \<lparr>sector_size = 512, secperlfau = 2, used_bits = 4064, total_nzones = 1, disc_map_lba = 50\<rparr>
   in filecore_read_file_buf km bd (fc_boot\<lparr>g_fc_lba_base := 100, g_dr_id_len := 0, g_dr_zone_spare := 32\<rparr>) g 2 600
        = Some (Some (replicate 512 102 @ replicate 512 103))"
proof -
  let ?f = "\<lambda>l. Some (replicate 512 (ucast l)) :: bytes option"
  let ?km = "\<lambda>n. Some (replicate n (0 :: u8))"
  let ?g = "\<lparr>sector_size = 512, secperlfau = 2, used_bits = 4064, total_nzones = 1, disc_map_lba = 50\<rparr>"
  let ?st = "fc_boot\<lparr>g_fc_lba_base := 100, g_dr_id_len := 0, g_dr_zone_spare := 32\<rparr>"
  have sd: "sector_dev (ram_disc ?f) ?f" by (rule ram_disc_sector) auto
  have "ida_scan (replicate 512 50) 32 0 0 4064 480 = Some (Some 480)"
    by (subst ida_scan.simps) (simp add: adfs_read_bits_def)
  then have "resolve_sin ?km (ram_disc ?f) ?st ?g 2 = Some (Some 102)"
    using sector_read [OF sd, of "replicate 512 0" 50] by (simp add: resolve_sin_def fc_ida_to_data_lba_def)
  then have "filecore_read_file_buf ?km (ram_disc ?f) ?st ?g 2 600 = Some (Some (concat (sectors ?f 102 0 2)))"
    by (intro read_file_sectors [OF sd, where lba = 102 and buf = "replicate 1024 0"]) simp_all
  moreover have "sectors ?f 102 0 2 = [replicate 512 102, replicate 512 103]"
    by (simp add: sectors_def upt_conv_Cons)
  ultimately show ?thesis unfolding Let_def by simp
qed

end
