(* ===== verification/Bigdir.thy ===== *)
theory Bigdir
  imports Adfs
begin

text \<open>
  The directories of a disc in the big-directory format, from the image on the disc to the entries
  that kernel/filecore.c reports: what an encoder writes, the reader returns.
\<close>

section \<open>Directories on disc\<close>

text \<open>An object as a directory records it, and the image of a directory of such objects.\<close>

record dir_obj =
  o_load :: u32
  o_exec :: u32
  o_len :: u32
  o_ida :: u32
  o_attr :: u32
  o_name :: bytes

definition enc_obj :: "nat \<Rightarrow> dir_obj \<Rightarrow> bytes" where
  "enc_obj noff obj = concat (map le32_bytes [o_load obj, o_exec obj, o_len obj, o_ida obj, o_attr obj, of_nat (length (o_name obj)), of_nat noff])"

fun enc_objs :: "nat \<Rightarrow> dir_obj list \<Rightarrow> bytes" where
  "enc_objs noff [] = []"
| "enc_objs noff (obj # objs) = enc_obj noff obj @ enc_objs (noff + length (o_name obj) + 1) objs"

definition enc_names :: "dir_obj list \<Rightarrow> bytes" where
  "enc_names objs = concat (map (\<lambda>obj. o_name obj @ [0x0D]) objs)"

definition enc_dir :: "bytes \<Rightarrow> u32 \<Rightarrow> u32 \<Rightarrow> dir_obj list \<Rightarrow> bytes \<Rightarrow> bytes" where
  "enc_dir dname dsize parent objs tail =
     [0, 0, 0, 0, 0x53, 0x42, 0x50, 0x72] @ concat (map le32_bytes [of_nat (length dname), dsize, of_nat (length objs), of_nat (length (enc_names objs)), parent])
     @ dname @ replicate ((length dname + 4) div 4 * 4 - length dname) 0x0D @ enc_objs 0 objs @ enc_names objs @ tail"

definition obj_ok :: "dir_obj \<Rightarrow> bool" where
  "obj_ok obj \<longleftrightarrow> length (o_name obj) \<le> 255 \<and> list_all (\<lambda>c. c < 0x80 \<and> c \<noteq> 0x0D \<and> c \<noteq> 0) (o_name obj)"

text \<open>The entry the file system reports for an object.\<close>

definition dirent_of :: "dir_obj \<Rightarrow> vfs_dirent" where
  "dirent_of obj = \<lparr>d_type = (if o_ida obj = 0x300 then VFS_DIRENT_SPECIAL else if o_attr obj AND 8 \<noteq> 0 then VFS_DIRENT_DIR else VFS_DIRENT_FILE),
     d_size = ucast (o_len obj), riscos_type = ucast (drop_bit 8 (o_load obj) AND 0xFFF), load_addr = o_load obj,
     exec_addr = o_exec obj, sin = o_ida obj, d_name = o_name obj\<rparr>"

lemma length_le32_bytes [simp]: "length (le32_bytes v) = 4"
  by (simp add: le32_bytes_def)

lemma length_enc_obj [simp]: "length (enc_obj n obj) = 28"
  by (simp add: enc_obj_def)

lemma length_enc_objs [simp]: "length (enc_objs n objs) = 28 * length objs"
  by (induction n objs rule: enc_objs.induct) auto

lemma rdw_le32:
  assumes "take 4 (drop p b) = le32_bytes v" "p + 4 < 2 ^ 32"
  shows "rdw b (of_nat p) = Some v"
proof -
  obtain a3 a2 a1 a0 where e: "be32_bytes v = [a3, a2, a1, a0]"
    using length_be_bytes(1) [of v] by (auto simp: numeral_eq_Suc length_Suc_conv simp del: length_be_bytes)
  have v: "be32 a3 a2 a1 a0 = v" using be32_be32_bytes [of v] e by (auto simp: be32_bytes_def)
  have t: "take 4 (drop p b) = [a0, a1, a2, a3]" using assms(1) e by (simp add: le32_bytes_def)
  then have "length (take 4 (drop p b)) = 4" by simp
  then have l: "p + 4 \<le> length b" by simp
  have n: "b ! (p + k) = [a0, a1, a2, a3] ! k" if "k < 4" for k
    using that l by (subst t [symmetric]) (simp add: nth_append)
  have o: "rd b (uint (of_nat p + of_nat k :: u32)) = Some ([a0, a1, a2, a3] ! k)" if "k < 4" for k
  proof -
    have "unat (of_nat (p + k) :: u32) = p + k" using that assms(2) by (simp add: unat_of_nat take_bit_eq_mod del: of_nat_add)
    then have "uint (of_nat p + of_nat k :: u32) = int (p + k)" by (metis of_nat_add uint_nat)
    then show ?thesis using n [OF that] l that by (simp add: rd_def nat_add_distrib flip: of_nat_add)
  qed
  show ?thesis using o [of 0] o [of 1] o [of 2] o [of 3] v by (simp add: rdw_def)
qed

lemma take_drop_mid: "length pre = p \<Longrightarrow> length m = k \<Longrightarrow> take k (drop p (pre @ m @ post)) = m"
  by simp

lemma take_drop_le: "take k (drop p b) = m \<Longrightarrow> i + j \<le> k \<Longrightarrow> take j (drop (p + i) b) = take j (drop i m)"
  by (auto simp: drop_take min_def add.commute)

text \<open>The seven words of an entry.\<close>

lemma rdw_enc_obj:
  assumes "take 28 (drop p b) = enc_obj noff obj" "p + 28 < 2 ^ 32"
  shows "map (\<lambda>k. rdw b (of_nat (p + k))) [0, 4, 8, 12, 16, 20, 24] =
    map Some [o_load obj, o_exec obj, o_len obj, o_ida obj, o_attr obj, of_nat (length (o_name obj)), of_nat noff]"
proof -
  have r: "rdw b (of_nat (p + k)) = Some v" if "k + 4 \<le> 28" "take 4 (drop k (enc_obj noff obj)) = le32_bytes v" for k v
    using that take_drop_le [OF assms(1), of k 4] assms(2) by (intro rdw_le32) auto
  have d: "take 4 (drop 0 (enc_obj noff obj)) = le32_bytes (o_load obj)" "take 4 (drop 4 (enc_obj noff obj)) = le32_bytes (o_exec obj)"
    "take 4 (drop 8 (enc_obj noff obj)) = le32_bytes (o_len obj)" "take 4 (drop 12 (enc_obj noff obj)) = le32_bytes (o_ida obj)"
    "take 4 (drop 16 (enc_obj noff obj)) = le32_bytes (o_attr obj)"
    "take 4 (drop 20 (enc_obj noff obj)) = le32_bytes (of_nat (length (o_name obj)))"
    "take 4 (drop 24 (enc_obj noff obj)) = le32_bytes (of_nat noff)"
    by (simp_all add: enc_obj_def)
  show ?thesis using r [OF _ d(1)] r [OF _ d(2)] r [OF _ d(3)] r [OF _ d(4)] r [OF _ d(5)] r [OF _ d(6)] r [OF _ d(7)]
    by (simp del: of_nat_add)
qed

lemma copy_name_enc:
  assumes "take (length nm) (drop p b) = nm" "list_all (\<lambda>c. c < 0x80 \<and> c \<noteq> 0x0D \<and> c \<noteq> 0) nm" "length nm \<le> 255"
    and "p + length nm \<le> unat limit" "p + length nm \<le> length b" "k \<le> length nm"
  shows "copy_name b limit (of_nat p) (of_nat (length nm)) (map of_nat [k..<255]) = Some (drop k nm)"
  using assms(6)
proof (induction "255 - k" arbitrary: k)
  case 0
  then show ?case using assms(3) by simp
next
  case (Suc n)
  then have u: "[k..<255] = k # [Suc k..<255]" by (simp add: upt_rec)
  have lt: "of_nat k < (of_nat (length nm) :: u32) \<longleftrightarrow> k < length nm"
    using assms(3) Suc.prems by (simp add: word_less_nat_alt unat_of_nat take_bit_eq_mod)
  show ?case
  proof (cases "k < length nm")
    case False
    then show ?thesis using u lt by simp
  next
    case True
    have "unat limit < 2 ^ 32" using unsigned_less [of limit, where ?'a = nat] by simp
    then have un: "unat (of_nat (p + k) :: u32) = p + k"
      using True assms(4) by (simp add: unat_of_nat take_bit_eq_mod del: of_nat_add)
    then have "uint (of_nat p + of_nat k :: u32) = int (p + k)" by (metis of_nat_add uint_nat)
    moreover have "\<not> limit \<le> of_nat p + (of_nat k :: u32)"
      using un True assms(4) by (simp add: word_le_nat_alt flip: of_nat_add)
    moreover have ch: "b ! (p + k) = nm ! k"
      using True assms(5) by (subst assms(1) [symmetric]) simp
    moreover have ok: "nm ! k < 0x80" "nm ! k \<noteq> 0x0D" using assms(2) True by (auto simp: list_all_length)
    moreover have "nm ! k AND 0x7F = nm ! k"
    proof -
      have "0x7F = (mask 7 :: u8)" by (simp add: mask_eq_exp_minus_1)
      moreover have "take_bit 7 (nm ! k) = nm ! k" using ok(1) by (simp add: word_unat_eq_iff unsigned_take_bit_eq take_bit_nat_eq_self word_less_nat_alt)
      ultimately show ?thesis by (simp add: take_bit_eq_mask)
    qed
    moreover have "copy_name b limit (of_nat p) (of_nat (length nm)) (map of_nat [Suc k..<255]) = Some (drop (Suc k) nm)"
      using Suc(2) True by (intro Suc(1)) auto
    ultimately show ?thesis using True lt assms(5) u
      by (simp add: rd_def nat_add_distrib Cons_nth_drop_Suc flip: of_nat_add)
  qed
qed

lemma dirent_at_enc:
  assumes "take 28 (drop p b) = enc_obj noff obj" "p + 28 < 2 ^ 32" "obj_ok obj"
    and "take (length (o_name obj)) (drop (nt + noff) b) = o_name obj" "nt + noff + length (o_name obj) \<le> unat limit"
    and "unat limit \<le> length b"
  shows "dirent_at b (of_nat p) (of_nat nt) limit = Some (dirent_of obj)"
proof -
  note w = rdw_enc_obj [OF assms(1,2), simplified]
  have "copy_name b limit (of_nat (nt + noff)) (of_nat (length (o_name obj))) name_indices = Some (o_name obj)"
    using copy_name_enc [of "o_name obj" "nt + noff" b limit 0] assms(3-6) by (simp add: name_indices_def obj_ok_def)
  moreover have "cstr (o_name obj) = o_name obj"
    using assms(3) by (auto simp: cstr_def obj_ok_def list_all_iff takeWhile_eq_all_conv)
  ultimately show ?thesis using w by (simp add: dirent_at_def dirent_of_def add.commute)
qed

definition name_off :: "dir_obj list \<Rightarrow> nat \<Rightarrow> nat" where
  "name_off objs i = sum_list (map (\<lambda>obj. length (o_name obj) + 1) (take i objs))"

lemma enc_objs_nth:
  "i < length objs \<Longrightarrow> take 28 (drop (28 * i) (enc_objs n objs)) = enc_obj (n + name_off objs i) (objs ! i)"
proof (induction n objs arbitrary: i rule: enc_objs.induct)
  case (2 noff obj objs)
  show ?case
  proof (cases i)
    case (Suc j)
    then have "take 28 (drop (28 * j) (enc_objs (noff + length (o_name obj) + 1) objs)) =
        enc_obj (noff + length (o_name obj) + 1 + name_off objs j) (objs ! j)" using 2 by simp
    then show ?thesis using Suc by (simp add: name_off_def add.assoc)
  qed (simp add: name_off_def)
qed simp

lemma enc_names_nth:
  "i < length objs \<Longrightarrow> take (length (o_name (objs ! i))) (drop (name_off objs i) (enc_names objs)) = o_name (objs ! i) \<and>
     name_off objs i + length (o_name (objs ! i)) + 1 \<le> length (enc_names objs)"
proof (induction objs arbitrary: i)
  case (Cons obj objs)
  then show ?case by (cases i) (auto simp: name_off_def enc_names_def)
qed simp

definition entries_at :: "bytes \<Rightarrow> nat" where
  "entries_at dname = 28 + (length dname + 4) div 4 * 4"

lemma and_not_3: "(x :: u32) AND NOT 3 = x div 4 * 4"
proof -
  have m: "(3 :: u32) = mask 2" by (simp add: mask_eq_exp_minus_1)
  have "x AND NOT 3 = push_bit 2 (drop_bit 2 x)"
    unfolding m by (rule bit_word_eqI) (auto simp: bit_simps not_less dest!: le_Suc_ex)
  then show ?thesis by (simp add: push_bit_eq_mult drop_bit_eq_div)
qed

lemma entry_start_enc:
  assumes "length dname < 2 ^ 31"
  shows "entry_start_of (of_nat (length dname)) = of_nat (entries_at dname)"
proof -
  let ?x = "of_nat (length dname) + 4 :: u32"
  have x: "unat ?x = length dname + 4" using assms by (simp add: unat_word_ariths unat_of_nat take_bit_eq_mod)
  have "?x AND NOT 3 = ?x div 4 * 4" by (rule and_not_3)
  also have "\<dots> = of_nat ((length dname + 4) div 4 * 4)"
    using x by (simp add: word_unat_eq_iff unat_word_ariths unat_of_nat take_bit_eq_mod unat_div_distrib)
  finally show ?thesis by (simp add: entry_start_of_def entries_at_def add.assoc)
qed

lemma enc_dir_layout:
  assumes b_def: "b = enc_dir dname dsize parent objs rest"
  shows "take 4 (drop 4 b) = [0x53, 0x42, 0x50, 0x72]" "take 4 (drop 8 b) = le32_bytes (of_nat (length dname))"
    "take 4 (drop 12 b) = le32_bytes dsize" "take 4 (drop 16 b) = le32_bytes (of_nat (length objs))"
    "length b = entries_at dname + 28 * length objs + length (enc_names objs) + length rest"
    "drop (entries_at dname) b = enc_objs 0 objs @ enc_names objs @ rest"
proof -
  have pad: "length dname \<le> (length dname + 4) div 4 * 4" by presburger
  show "take 4 (drop 4 b) = [0x53, 0x42, 0x50, 0x72]" "take 4 (drop 8 b) = le32_bytes (of_nat (length dname))"
    "take 4 (drop 12 b) = le32_bytes dsize" "take 4 (drop 16 b) = le32_bytes (of_nat (length objs))"
    by (simp_all add: b_def enc_dir_def)
  show "length b = entries_at dname + 28 * length objs + length (enc_names objs) + length rest"
    using pad by (simp add: b_def enc_dir_def entries_at_def)
  show "drop (entries_at dname) b = enc_objs 0 objs @ enc_names objs @ rest"
  proof -
    let ?pre = "[0, 0, 0, 0, 0x53, 0x42, 0x50, 0x72] @ concat (map le32_bytes [of_nat (length dname), dsize, of_nat (length objs), of_nat (length (enc_names objs)), parent])
      @ dname @ replicate ((length dname + 4) div 4 * 4 - length dname) 0x0D"
    have "length ?pre = entries_at dname" using pad by (simp add: entries_at_def)
    moreover have "b = ?pre @ enc_objs 0 objs @ enc_names objs @ rest" by (simp add: b_def enc_dir_def)
    ultimately show ?thesis by (metis append_eq_conv_conj)
  qed
qed

lemma dir_entry_enc:
  assumes b: "b = enc_dir dname dsize parent objs rest" "unat dsize \<le> length b" "dir_size_ok dsize"
    and "entries_at dname + 28 * length objs + length (enc_names objs) + 8 \<le> unat dsize" "list_all obj_ok objs"
  shows "dir_entry b dsize i = Some (if unat i < length objs then Some (dirent_of (objs ! unat i)) else None)"
proof -
  note lay = enc_dir_layout [OF b(1)]
  have sz: "unat dsize \<le> 16384" using b(3) by (simp add: dir_size_ok_def FC_MAX_DIR_SIZE_def word_less_nat_alt)
  have len: "length dname < 16384" "28 * length objs < 16384" "entries_at dname < 16384"
  proof -
    have "length dname \<le> entries_at dname" unfolding entries_at_def by presburger
    moreover have "entries_at dname + 28 * length objs + 8 \<le> 16384" using sz assms(4) by linarith
    ultimately show "length dname < 16384" "28 * length objs < 16384" "entries_at dname < 16384" by linarith+
  qed
  have w: "rdw b 8 = Some (of_nat (length dname))" "rdw b 16 = Some (of_nat (length objs))"
    using rdw_le32 [OF lay(2)] rdw_le32 [OF lay(4)] by simp_all
  have cnt: "of_nat (length objs) \<le> i \<longleftrightarrow> \<not> unat i < length objs"
    using len by (auto simp: word_le_nat_alt unat_of_nat take_bit_eq_mod)
  show ?thesis
  proof (cases "unat i < length objs")
    case False
    then show ?thesis using w cnt by (simp add: dir_entry_def)
  next
    case True
    let ?E = "entries_at dname" and ?obj = "objs ! unat i"
    let ?nt = "?E + 28 * length objs"
    have es: "entry_start_of (of_nat (length dname)) = of_nat ?E" using entry_start_enc len(1) by simp
    have "take 28 (drop (28 * unat i) (enc_objs 0 objs)) = enc_obj (name_off objs (unat i)) ?obj"
      using enc_objs_nth [OF True, of 0] by simp
    moreover have "28 * unat i + 28 \<le> length (enc_objs 0 objs)" using True by simp
    ultimately have "take 28 (drop (28 * unat i) (drop ?E b)) = enc_obj (name_off objs (unat i)) ?obj"
      unfolding lay(6) by (simp del: length_enc_objs)
    then have e: "take 28 (drop (?E + 28 * unat i) b) = enc_obj (name_off objs (unat i)) ?obj"
      by (simp add: add.commute)
    note nm = enc_names_nth [OF True]
    have "drop ?nt b = enc_names objs @ rest" using lay(6) by (metis append_eq_conv_conj drop_drop add.commute length_enc_objs)
    then have n: "take (length (o_name ?obj)) (drop (?nt + name_off objs (unat i)) b) = o_name ?obj"
      using nm by (simp add: add.commute flip: drop_drop)
    have "8 \<le> dsize" using assms(4) by (simp add: word_le_nat_alt)
    then have "unat (dsize - 8) = unat dsize - 8" by (simp add: unat_sub)
    then have "dirent_at b (of_nat (?E + 28 * unat i)) (of_nat ?nt) (dsize - 8) = Some (dirent_of ?obj)"
      using dirent_at_enc [OF e _ _ n, of "dsize - 8"] nm lay(5) b(2) assms(4,5) len True by (auto simp: list_all_length)
    moreover have "of_nat (?E + 28 * unat i) = of_nat ?E + i * 28" "of_nat ?nt = of_nat ?E + of_nat (length objs) * (28 :: u32)"
      by (simp_all add: mult.commute)
    ultimately show ?thesis using w cnt True es by (simp add: dir_entry_def Let_def mult.commute)
  qed
qed

text \<open>The directory's first sector is read for its size, then the others behind it.\<close>

lemma concat_blocks:
  "length b = 512 * n \<Longrightarrow> k \<le> n \<Longrightarrow> concat (map (\<lambda>i. take 512 (drop (512 * i) b)) [k..<n]) = drop (512 * k) b"
proof (induction "n - k" arbitrary: k)
  case (Suc m)
  then have u: "[k..<n] = k # [Suc k..<n]" by (simp add: upt_rec)
  have "concat (map (\<lambda>i. take 512 (drop (512 * i) b)) [Suc k..<n]) = drop (512 * Suc k) b" using Suc by (intro Suc(1)) auto
  moreover have "take 512 (drop (512 * k) b) @ drop (512 * Suc k) b = drop (512 * k) b"
    using append_take_drop_id [of 512 "drop (512 * k) b"] by simp
  ultimately show ?case by (simp only: u list.map concat.simps)
qed simp

lemma read_dir_enc:
  assumes b: "b = enc_dir dname dsize parent objs rest" "length b = unat dsize" "dir_size_ok dsize"
    and sd: "sector_dev bd f" "sector_size g = 512" "km 16384 = Some buf" "length buf = 16384"
    and "\<forall>i < unat dsize div 512. f (ucast (lba + of_nat i)) = Some (take 512 (drop (512 * i) b))"
  shows "\<exists>junk. read_dir km bd g lba = Some (Some (b @ junk, dsize))"
proof -
  note lay = enc_dir_layout [OF b(1)]
  define n where "n = unat dsize div 512"
  have sz: "2048 \<le> unat dsize" "unat dsize \<le> 16384"
    using b(3) by (auto simp: dir_size_ok_def FC_MAX_DIR_SIZE_def word_less_nat_alt)
  have "dsize AND 511 = 0" using b(3) by (simp add: dir_size_ok_def)
  then have "dsize mod 512 = 0"
    using take_bit_eq_mask [of 9 dsize] take_bit_eq_mod [of 9 dsize] by (simp add: mask_eq_exp_minus_1)
  then have "unat dsize mod 512 = 0" using unat_mod_distrib [of dsize 512] by simp
  then have n: "unat dsize = 512 * n" "1 \<le> n" "n \<le> 32" using sz by (auto simp: n_def)
  have f0: "f (ucast lba) = Some (take 512 b)" using assms(8) [rule_format, of 0] n(2) by (simp add: n_def)
  let ?b0 = "take 512 b @ drop 512 buf"
  have r0: "bd_read1 bd (ucast lba) buf 0 = Some (True, ?b0)"
    using sector_read_at [OF sd(1) f0, of 0 buf] sd(4) by simp
  have l512: "512 \<le> length b" using b(2) sz by simp
  have h: "take 4 (drop k ?b0) = take 4 (drop k b)" if "k + 4 \<le> 512" for k
    using that l512 by (simp add: drop_take min_absorb1)
  have m: "is_sbpr ?b0 = Some True"
    using h [of 4] lay(1) l512 sd(4) by (simp add: is_sbpr_def rdn_def)
  have ds: "rdw ?b0 12 = Some dsize" using rdw_le32 [of 12 ?b0 dsize] h [of 12] lay(3) by simp
  have ns: "unat (dsize div 512) = n" by (simp add: n_def unat_div_distrib)
  have "sectors f lba 1 n = map (\<lambda>i. take 512 (drop (512 * i) b)) [1..<n]"
    using assms(8) by (auto simp: sectors_def n_def)
  then have "concat (sectors f lba 1 n) = drop (512 * 1) b" using concat_blocks [of b n 1] b(2) n by simp
  moreover have "read_sectors bd lba 512 (map of_nat [1..<n]) ?b0 =
      Some (True, take (512 * 1) ?b0 @ concat (sectors f lba 1 n) @ drop (512 * n) ?b0)"
  proof (rule read_sectors_at [OF sd(1)])
    show "f (ucast (lba + of_nat i)) \<noteq> None" if "i < n" for i using assms(8) that unfolding n_def by blast
    show "512 * n \<le> length ?b0" "1 \<le> n" "512 * n < 2 ^ 32" using n l512 sd(4) by simp_all
  qed
  ultimately have "read_sectors bd lba 512 (map of_nat [1..<n]) ?b0 = Some (True, b @ drop (512 * n) ?b0)"
    using l512 by simp
  then show ?thesis using sd(2,3) r0 m ds b(3) ns by (simp add: read_dir_def)
qed

lemma child_entry_image:
  assumes b: "b = enc_dir dname dsize parent objs rest" "length b = unat dsize" "dir_size_ok dsize"
    and "8 \<le> length rest" "list_all obj_ok objs"
    and sd: "g_fc_bdev st = Some d" "sector_dev (devs ! d) f" "disc_geometry st = Some g" "sector_size g = 512"
    and km: "km 16384 = Some buf" "length buf = 16384"
    and "resolve_sin km (devs ! d) st g dir_sin = Some (Some lba)"
    and "\<forall>i < unat dsize div 512. f (ucast (lba + of_nat i)) = Some (take 512 (drop (512 * i) b))"
  shows "filecore_get_child_entry km devs st dir_sin i =
    Some (if unat i < length objs then Some (dirent_of (objs ! unat i)) else None)"
proof -
  obtain junk where j: "read_dir km (devs ! d) g lba = Some (Some (b @ junk, dsize))"
    using read_dir_enc [where km = km and f = f and lba = lba, OF b sd(2,4) km assms(13)] by blast
  have "dir_entry (b @ junk) dsize i = Some (if unat i < length objs then Some (dirent_of (objs ! unat i)) else None)"
  proof (rule dir_entry_enc)
    show "b @ junk = enc_dir dname dsize parent objs (rest @ junk)" by (simp add: b(1) enc_dir_def)
    show "entries_at dname + 28 * length objs + length (enc_names objs) + 8 \<le> unat dsize"
      using enc_dir_layout(5) [OF b(1)] b(2) assms(4) by linarith
  qed (use b assms(5) in simp_all)
  then show ?thesis using sd assms(12) j by (simp add: filecore_get_child_entry_def)
qed



text \<open>
  The root cache stops names at byte 2048 of the directory whatever its size: an entry of a larger
  root whose name lies beyond is cached with an empty name.
\<close>

lemma root_cache_name_lost:
  assumes "take 28 (drop p b) = enc_obj noff obj" "p + 28 < 2 ^ 32" "2048 \<le> nt + noff" "nt + noff < 2 ^ 32"
  shows "dirent_at b (of_nat p) (of_nat nt) 2048 = Some (dirent_of obj\<lparr>d_name := []\<rparr>)"
proof -
  note w = rdw_enc_obj [OF assms(1,2), simplified]
  have "unat (of_nat (nt + noff) :: u32) = nt + noff" using assms(4) by (simp add: unat_of_nat take_bit_eq_mod del: of_nat_add)
  then have "2048 \<le> (of_nat nt + of_nat noff :: u32)" using assms(3) by (simp add: word_le_nat_alt flip: of_nat_add)
  moreover have "[0..<255] = 0 # [1..<255]" by (simp add: upt_conv_Cons)
  then have ni: "name_indices = 0 # map of_nat [1..<255]" by (simp add: name_indices_def)
  ultimately have "copy_name b 2048 (of_nat nt + of_nat noff) l name_indices = Some []" for l
    unfolding ni by simp
  then show ?thesis using w by (simp add: dirent_at_def dirent_of_def cstr_def add.commute)
qed

end
