(* ===== verification/Vfs.thy ===== *)
theory Vfs
  imports Adfs
begin

text \<open>
  kernel/vfs.c: inodes and open files over the file system of kernel/filecore.c. A file or inode
  pointer is its index in the static array, the entries in use are the elements of a list. The
  look-up of a path and the reading of a file are arguments of the operations. The locks, which
  only keep other cores out, are not represented.
\<close>

section \<open>State\<close>

record inode =
  i_mode :: u64
  i_size :: u64
  i_blocks :: u64
  i_type :: u16
  i_load :: u32
  i_exec :: u32
  i_sin :: u32

text \<open>The only operation table is the one of FileCore, which has no write, poll or close.\<close>

datatype file_ops = filecore_file_ops

record vfile =
  f_inode :: nat
  f_pos :: u64
  f_flags :: int
  f_ops :: "file_ops option"

record vfs =
  inodes :: "inode list"
  files :: "vfile list"
  errno :: int

definition vfs_boot :: vfs where
  "vfs_boot = \<lparr>inodes = [], files = [], errno = 0\<rparr>"

definition MAX_INODES :: nat where "MAX_INODES = 1024"
definition MAX_FILES :: nat where "MAX_FILES = 1024"
definition S_IFREG :: u64 where "S_IFREG = push_bit 13 1"
definition S_IFDIR :: u64 where "S_IFDIR = push_bit 14 1"
definition ENOENT :: int where "ENOENT = 2"
definition EBADF :: int where "EBADF = 9"
definition EINVAL :: int where "EINVAL = 22"
definition ENFILE :: int where "ENFILE = 23"
definition EMFILE :: int where "EMFILE = 24"

section \<open>Operations\<close>

definition vfs_alloc_inode :: "vfs \<Rightarrow> nat option \<times> vfs" where
  "vfs_alloc_inode v =
     (if length (inodes v) \<ge> MAX_INODES then (None, v\<lparr>errno := ENFILE\<rparr>)
      else (Some (length (inodes v)),
        v\<lparr>inodes := inodes v @ [\<lparr>i_mode = 0, i_size = 0, i_blocks = 0, i_type = 0xFFF, i_load = 0, i_exec = 0, i_sin = 0\<rparr>]\<rparr>))"

definition vfs_set_file_type :: "nat option \<Rightarrow> u16 \<Rightarrow> vfs \<Rightarrow> vfs" where
  "vfs_set_file_type ino t v =
     (case ino of None \<Rightarrow> v | Some i \<Rightarrow> v\<lparr>inodes := (inodes v)[i := (inodes v ! i)\<lparr>i_type := t AND 0xFFF\<rparr>]\<rparr>)"

definition resolve_path :: "(bytes \<Rightarrow> vfs_dirent option option) \<Rightarrow> bytes \<Rightarrow> vfs \<Rightarrow> (nat option \<times> vfs) option" where
  "resolve_path find_path path v = do {
     r \<leftarrow> find_path path;
     case r of None \<Rightarrow> Some (None, v)
     | Some ent \<Rightarrow>
         (case vfs_alloc_inode v of
            (None, v) \<Rightarrow> Some (None, v)
          | (Some i, v) \<Rightarrow> Some (Some i, v\<lparr>inodes := (inodes v)[i := \<lparr>i_mode = (if d_type ent = VFS_DIRENT_DIR then S_IFDIR else S_IFREG),
              i_size = d_size ent, i_blocks = (d_size ent + 511) div 512, i_type = riscos_type ent,
              i_load = load_addr ent, i_exec = exec_addr ent, i_sin = sin ent\<rparr>]\<rparr>))
   }"

definition get_fs_ops :: "inode \<Rightarrow> file_ops option" where
  "get_fs_ops ino = (if i_mode ino AND S_IFREG \<noteq> 0 then Some filecore_file_ops else None)"

definition vfs_open :: "(bytes \<Rightarrow> vfs_dirent option option) \<Rightarrow> bytes option \<Rightarrow> int \<Rightarrow> vfs \<Rightarrow> (nat option \<times> vfs) option" where
  "vfs_open find_path path flags v =
     (case path of None \<Rightarrow> Some (None, v\<lparr>errno := EINVAL\<rparr>)
      | Some path \<Rightarrow>
          if length (files v) \<ge> MAX_FILES then Some (None, v\<lparr>errno := EMFILE\<rparr>)
          else do {
            (ino, v) \<leftarrow> resolve_path find_path path v;
            case ino of None \<Rightarrow> Some (None, v\<lparr>errno := ENOENT\<rparr>)
            | Some i \<Rightarrow> Some (Some (length (files v)),
                v\<lparr>files := files v @ [\<lparr>f_inode = i, f_pos = 0, f_flags = flags, f_ops = get_fs_ops (inodes v ! i)\<rparr>]\<rparr>)
          })"

text \<open>A file's operation table has no close operation: closing does nothing.\<close>

definition vfs_close :: "nat option \<Rightarrow> vfs \<Rightarrow> vfs" where
  "vfs_close fd v = v"

text \<open>The result, the bytes that are stored in the caller's buffer, and the new state.\<close>

definition fc_vfs_read :: "(u32 \<Rightarrow> u32 \<Rightarrow> bytes option option) \<Rightarrow> nat \<Rightarrow> u64 \<Rightarrow> vfs \<Rightarrow> (int \<times> bytes \<times> vfs) option" where
  "fc_vfs_read read_file fd cnt v =
     (let file = files v ! fd;
          ino = inodes v ! f_inode file;
          sz = ucast (i_size ino) :: u32
      in if sz = 0 \<or> cnt = 0 then Some (0, [], v)
         else do {
           r \<leftarrow> read_file (i_sin ino) sz;
           case r of None \<Rightarrow> Some (- 1, [], v)
           | Some fbuf \<Rightarrow>
               let pos = f_pos file
               in if pos \<ge> ucast sz then Some (0, [], v)
                  else
                    let avail = ucast (sz - ucast pos);
                        n = (if cnt < avail then cnt else avail)
                    in do {
                      xs \<leftarrow> rdn fbuf (uint pos) (unat n);
                      Some (uint n, xs, v\<lparr>files := (files v)[fd := file\<lparr>f_pos := pos + n\<rparr>]\<rparr>)
                    }
         })"

text \<open>A position outside the range of the signed 64-bit type is undefined behaviour.\<close>

definition fc_vfs_seek :: "nat \<Rightarrow> int \<Rightarrow> int \<Rightarrow> vfs \<Rightarrow> (int \<times> vfs) option" where
  "fc_vfs_seek fd offs whence v =
     (let file = files v ! fd;
          sz = i_size (inodes v ! f_inode file);
          np = (if whence = 0 then offs else if whence = 1 then sint (f_pos file) + offs else sint sz + offs)
      in if np < - (2 ^ 63) \<or> 2 ^ 63 \<le> np then None
         else
           let np = (if np < 0 then 0 else np);
               np = (if np > uint sz then sint sz else np)
           in Some (np, v\<lparr>files := (files v)[fd := file\<lparr>f_pos := of_int np\<rparr>]\<rparr>))"

definition vfs_read :: "(u32 \<Rightarrow> u32 \<Rightarrow> bytes option option) \<Rightarrow> nat option \<Rightarrow> u64 \<Rightarrow> vfs \<Rightarrow> (int \<times> bytes \<times> vfs) option" where
  "vfs_read read_file fd cnt v =
     (case fd of None \<Rightarrow> Some (- 1, [], v\<lparr>errno := EBADF\<rparr>)
      | Some i \<Rightarrow>
          if i \<ge> length (files v) then None
          else case f_ops (files v ! i) of None \<Rightarrow> Some (- 1, [], v\<lparr>errno := EBADF\<rparr>)
          | Some filecore_file_ops \<Rightarrow> fc_vfs_read read_file i cnt v)"

definition vfs_write :: "nat option \<Rightarrow> bytes \<Rightarrow> vfs \<Rightarrow> int \<times> vfs" where
  "vfs_write fd xs v = (- 1, v\<lparr>errno := EBADF\<rparr>)"

definition vfs_seek :: "nat option \<Rightarrow> int \<Rightarrow> int \<Rightarrow> vfs \<Rightarrow> (int \<times> vfs) option" where
  "vfs_seek fd offs whence v =
     (case fd of None \<Rightarrow> Some (- 1, v\<lparr>errno := EBADF\<rparr>)
      | Some i \<Rightarrow>
          if i \<ge> length (files v) then None
          else case f_ops (files v ! i) of None \<Rightarrow> Some (- 1, v\<lparr>errno := EBADF\<rparr>)
          | Some filecore_file_ops \<Rightarrow> fc_vfs_seek i offs whence v)"

definition vfs_poll :: "nat option \<Rightarrow> vfs \<Rightarrow> int" where
  "vfs_poll fd v = 0"

text \<open>The directory listing: the next entry of the root, whatever the path, and the new cookie.\<close>

definition filecore_vfs_readdir :: "fc_state \<Rightarrow> bytes \<Rightarrow> u32 \<Rightarrow> int \<times> vfs_dirent option \<times> u32" where
  "filecore_vfs_readdir st path cookie =
     (case filecore_get_root_entry st cookie of
        Some e \<Rightarrow> (0, Some e, cookie + 1)
      | None \<Rightarrow> (- 1, None, 0))"

section \<open>Reading a file\<close>

text \<open>An open regular file of which \<open>read_file\<close> returns the given contents.\<close>

definition open_file :: "(u32 \<Rightarrow> u32 \<Rightarrow> bytes option option) \<Rightarrow> nat \<Rightarrow> bytes \<Rightarrow> vfs \<Rightarrow> bool" where
  "open_file read_file fd body v \<longleftrightarrow> fd < length (files v) \<and> f_ops (files v ! fd) = Some filecore_file_ops \<and>
     length body < 2 ^ 32 \<and> i_size (inodes v ! f_inode (files v ! fd)) = of_nat (length body) \<and>
     (body \<noteq> [] \<longrightarrow> (\<exists>junk. read_file (i_sin (inodes v ! f_inode (files v ! fd))) (of_nat (length body)) = Some (Some (body @ junk)))) \<and>
     unat (f_pos (files v ! fd)) \<le> length body"

definition file_pos :: "nat \<Rightarrow> vfs \<Rightarrow> nat" where
  "file_pos fd v = unat (f_pos (files v ! fd))"

lemma open_file_moved:
  assumes "open_file rf fd body v" "unat p \<le> length body"
  shows "open_file rf fd body (v\<lparr>files := (files v)[fd := (files v ! fd)\<lparr>f_pos := p\<rparr>]\<rparr>)"
    "file_pos fd (v\<lparr>files := (files v)[fd := (files v ! fd)\<lparr>f_pos := p\<rparr>]\<rparr>) = unat p"
  using assms by (simp_all add: open_file_def file_pos_def)

text \<open>One read: the next bytes of the file, as many as are asked for and left.\<close>

lemma vfs_read_step:
  assumes "open_file rf fd body v"
  shows "\<exists>v'. vfs_read rf (Some fd) cnt v = Some (int (length (take (unat cnt) (drop (file_pos fd v) body))), take (unat cnt) (drop (file_pos fd v) body), v') \<and>
    open_file rf fd body v' \<and> file_pos fd v' = file_pos fd v + length (take (unat cnt) (drop (file_pos fd v) body))"
proof -
  let ?file = "files v ! fd" and ?L = "length body"
  let ?ino = "inodes v ! f_inode ?file"
  note o = assms [unfolded open_file_def]
  have sz: "(ucast (i_size ?ino) :: u32) = of_nat ?L"
    using o by (simp add: word_unat_eq_iff unsigned_ucast_eq unat_of_nat take_bit_eq_mod)
  have uL: "unat (of_nat ?L :: u32) = ?L" using o by (simp add: unat_of_nat take_bit_eq_mod)
  have z: "(of_nat ?L :: u32) = 0 \<longleftrightarrow> body = []" using uL by (metis length_0_conv unat_eq_zero)
  have rd: "vfs_read rf (Some fd) cnt v = fc_vfs_read rf fd cnt v" using o by (simp add: vfs_read_def)
  show ?thesis
  proof (cases "body = [] \<or> cnt = 0")
    case True
    then have "vfs_read rf (Some fd) cnt v = Some (0, [], v)" using rd sz z by (auto simp: fc_vfs_read_def Let_def)
    then show ?thesis using True assms by auto
  next
    case False
    then obtain junk where r: "rf (i_sin ?ino) (of_nat ?L) = Some (Some (body @ junk))" using o by auto
    have nz: "\<not> ((of_nat ?L :: u32) = 0 \<or> cnt = 0)" using False z by simp
    have uL64: "unat (ucast (of_nat ?L :: u32) :: u64) = ?L"
      using o uL by (simp add: unsigned_ucast_eq take_bit_eq_mod unat_of_nat)
    have ge: "f_pos ?file \<ge> ucast (of_nat ?L :: u32) \<longleftrightarrow> file_pos fd v = ?L"
      using o uL64 by (auto simp: word_le_nat_alt file_pos_def)
    show ?thesis
    proof (cases "file_pos fd v = ?L")
      case True
      then have "fc_vfs_read rf fd cnt v = Some (0, [], v)"
        unfolding fc_vfs_read_def Let_def sz using nz r ge by simp
      then show ?thesis using rd True assms by auto
    next
      case False
      define avail where "avail = (ucast (of_nat ?L - ucast (f_pos ?file) :: u32) :: u64)"
      define n where "n = (if cnt < avail then cnt else avail)"
      have le: "file_pos fd v \<le> ?L" using o by (simp add: file_pos_def)
      have up: "unat (ucast (f_pos ?file) :: u32) = file_pos fd v"
        using o by (simp add: file_pos_def unsigned_ucast_eq take_bit_eq_mod)
      then have "ucast (f_pos ?file) \<le> (of_nat ?L :: u32)" using le uL by (simp add: word_le_nat_alt)
      then have "unat (of_nat ?L - ucast (f_pos ?file) :: u32) = ?L - file_pos fd v" using up uL by (simp add: unat_sub)
      then have av: "unat avail = ?L - file_pos fd v"
        using unsigned_less [of "of_nat ?L - ucast (f_pos ?file) :: u32", where ?'a = nat]
        by (simp add: avail_def unsigned_ucast_eq take_bit_eq_mod)
      have n: "unat n = length (take (unat cnt) (drop (file_pos fd v) body))"
        using av by (auto simp: n_def word_less_nat_alt min_def)
      have nav: "unat n \<le> ?L - file_pos fd v" using n by simp
      have "rdn (body @ junk) (uint (f_pos ?file)) (unat n) = Some (take (unat n) (drop (file_pos fd v) body))"
      proof -
        have "nat (uint (f_pos ?file)) = file_pos fd v" by (simp add: file_pos_def)
        moreover have "uint (f_pos ?file) + int (unat n) \<le> int (length (body @ junk))"
          using nav le by (simp add: file_pos_def uint_nat del: of_nat_unat)
        ultimately show ?thesis using nav by (simp add: rdn_def)
      qed
      moreover have "take (unat n) (drop (file_pos fd v) body) = take (unat cnt) (drop (file_pos fd v) body)"
        using n by (simp add: min_def)
      ultimately have "fc_vfs_read rf fd cnt v = Some (uint n, take (unat cnt) (drop (file_pos fd v) body),
          v\<lparr>files := (files v)[fd := ?file\<lparr>f_pos := f_pos ?file + n\<rparr>]\<rparr>)"
        unfolding fc_vfs_read_def Let_def sz avail_def [symmetric] n_def [symmetric] using nz r ge False by simp
      moreover have "unat (f_pos ?file + n) = file_pos fd v + unat n"
      proof -
        have "file_pos fd v + unat n \<le> ?L" "?L < 2 ^ 32" using nav le o by simp_all
        then have "unat (f_pos ?file) + unat n < 2 ^ 64" unfolding file_pos_def by simp
        then show ?thesis by (subst unat_add_lem [THEN iffD1]) (simp_all add: file_pos_def)
      qed
      ultimately show ?thesis
        using open_file_moved [OF assms, of "f_pos ?file + n"] rd n nav le by (simp add: uint_nat del: of_nat_unat)
    qed
  qed
qed

text \<open>Successive reads of a file.\<close>

fun read_seq :: "(u32 \<Rightarrow> u32 \<Rightarrow> bytes option option) \<Rightarrow> nat \<Rightarrow> u64 list \<Rightarrow> vfs \<Rightarrow> (bytes \<times> vfs) option" where
  "read_seq read_file fd [] v = Some ([], v)"
| "read_seq read_file fd (c # cs) v = do {
     (n, xs, v) \<leftarrow> vfs_read read_file (Some fd) c v;
     (ys, v) \<leftarrow> read_seq read_file fd cs v;
     Some (xs @ ys, v)
   }"

lemma read_seq_from:
  "open_file rf fd body v \<Longrightarrow> \<exists>v'. read_seq rf fd cs v = Some (take (sum_list (map unat cs)) (drop (file_pos fd v) body), v') \<and>
     open_file rf fd body v'"
proof (induction cs arbitrary: v)
  case (Cons c cs)
  let ?xs = "take (unat c) (drop (file_pos fd v) body)"
  obtain v1 where 1: "vfs_read rf (Some fd) c v = Some (int (length ?xs), ?xs, v1)" "open_file rf fd body v1"
    "file_pos fd v1 = file_pos fd v + length ?xs" using vfs_read_step [OF Cons.prems] by blast
  obtain v2 where 2: "read_seq rf fd cs v1 = Some (take (sum_list (map unat cs)) (drop (file_pos fd v1) body), v2)"
    "open_file rf fd body v2" using Cons.IH [OF 1(2)] by blast
  have "?xs @ take (sum_list (map unat cs)) (drop (file_pos fd v1) body) =
      take (unat c + sum_list (map unat cs)) (drop (file_pos fd v) body)"
    unfolding 1(3) by (auto simp: take_add min_def add.commute)
  then show ?case using 1(1) 2 by simp
qed simp

lemma vfs_open_file:
  assumes "find_path path = Some (Some e)" "d_type e \<noteq> VFS_DIRENT_DIR" "length (files v) < 1024" "length (inodes v) < 1024"
    and "d_size e = of_nat (length body)" "length body < 2 ^ 32"
    and "body \<noteq> [] \<Longrightarrow> \<exists>junk. rf (sin e) (of_nat (length body)) = Some (Some (body @ junk))"
  shows "\<exists>v'. vfs_open find_path (Some path) flags v = Some (Some (length (files v)), v') \<and>
    open_file rf (length (files v)) body v' \<and> file_pos (length (files v)) v' = 0"
proof -
  have m: "S_IFREG AND S_IFREG \<noteq> 0" by (simp add: S_IFREG_def)
  show ?thesis
    using assms m
    by (simp add: vfs_open_def resolve_path_def vfs_alloc_inode_def MAX_FILES_def MAX_INODES_def get_fs_ops_def open_file_def
        file_pos_def nth_append)
qed

text \<open>
  A file that is opened and read in pieces of any sizes delivers its bytes in order, from the
  first one, until it is exhausted.
\<close>

theorem vfs_sequential_read:
  assumes "find_path path = Some (Some e)" "d_type e \<noteq> VFS_DIRENT_DIR" "length (files v) < 1024" "length (inodes v) < 1024"
    and "d_size e = of_nat (length body)" "length body < 2 ^ 32"
    and "body \<noteq> [] \<longrightarrow> (\<exists>junk. rf (sin e) (of_nat (length body)) = Some (Some (body @ junk)))"
  shows "\<exists>fd v' v''. vfs_open find_path (Some path) flags v = Some (Some fd, v') \<and>
    read_seq rf fd counts v' = Some (take (sum_list (map unat counts)) body, v'')"
proof -
  obtain v' where v': "vfs_open find_path (Some path) flags v = Some (Some (length (files v)), v')"
    "open_file rf (length (files v)) body v'" "file_pos (length (files v)) v' = 0"
    using vfs_open_file [of find_path path e v body rf flags] assms by blast
  then show ?thesis using read_seq_from [OF v'(2), of counts] by auto
qed

theorem vfs_sequential_read_witness:
  "\<exists>fd v' v''. vfs_open (\<lambda>p. Some (Some (leaf VFS_DIRENT_FILE 0x600 p\<lparr>d_size := 5\<rparr>))) (Some [0x41]) 0 vfs_boot = Some (Some fd, v') \<and>
     read_seq (\<lambda>s n. Some (Some [1, 2, 3, 4, 5, 0, 0])) fd [2, 0, 2, 7, 1] v' = Some ([1, 2, 3, 4, 5], v'')"
  using vfs_sequential_read [of "\<lambda>p. Some (Some (leaf VFS_DIRENT_FILE 0x600 p\<lparr>d_size := 5\<rparr>))" "[0x41]"
      "leaf VFS_DIRENT_FILE 0x600 [0x41]\<lparr>d_size := 5\<rparr>" vfs_boot "[1, 2, 3, 4, 5]" "\<lambda>s n. Some (Some [1, 2, 3, 4, 5, 0, 0])" 0 "[2, 0, 2, 7, 1]"]
  by (simp add: leaf_def VFS_DIRENT_FILE_def VFS_DIRENT_DIR_def vfs_boot_def)

lemma sint_small: "unat (w :: u64) < 2 ^ 63 \<Longrightarrow> sint w = int (unat w)"
  by (simp add: sint_uint uint_nat signed_take_bit_int_eq_self del: of_nat_unat)

text \<open>The position a seek clamps to.\<close>

definition clamp :: "int \<Rightarrow> nat \<Rightarrow> nat" where
  "clamp p n = nat (min (max 0 p) (int n))"

lemma vfs_seek_step:
  assumes "open_file rf fd body v" "\<bar>offs\<bar> < 2 ^ 62"
    and "target = (if whence = 0 then offs else if whence = 1 then int (file_pos fd v) + offs else int (length body) + offs)"
  shows "\<exists>v'. vfs_seek (Some fd) offs whence v = Some (int (clamp target (length body)), v') \<and> open_file rf fd body v' \<and>
    file_pos fd v' = clamp target (length body)"
proof -
  let ?file = "files v ! fd" and ?L = "length body"
  note o = assms(1) [unfolded open_file_def]
  have L: "?L < 2 ^ 32" using o by simp
  have us: "unat (of_nat ?L :: u64) = ?L" using L by (simp add: unat_of_nat take_bit_eq_mod)
  have ss: "sint (of_nat ?L :: u64) = int ?L" "sint (f_pos ?file) = int (file_pos fd v)"
    using sint_small [of "of_nat ?L"] sint_small [of "f_pos ?file"] us o by (simp_all add: file_pos_def)
  let ?p = "clamp target ?L"
  have fp: "file_pos fd v \<le> ?L" using o by (simp add: file_pos_def)
  have rng: "\<not> (target < - (2 ^ 63) \<or> 2 ^ 63 \<le> target)"
    using assms(2,3) L fp by (auto split: if_splits)
  have cl: "int ?p = (let t = (if target < 0 then 0 else target) in if t > int ?L then int ?L else t)"
    by (auto simp: clamp_def Let_def)
  have pL: "?p \<le> ?L" by (auto simp: clamp_def)
  let ?v = "v\<lparr>files := (files v)[fd := ?file\<lparr>f_pos := of_int (int ?p)\<rparr>]\<rparr>"
  have "vfs_seek (Some fd) offs whence v = fc_vfs_seek fd offs whence v" using o by (simp add: vfs_seek_def)
  also have "\<dots> = Some (int ?p, ?v)"
  proof -
    have i: "i_size (inodes v ! f_inode ?file) = of_nat ?L" using o by simp
    have u: "uint (of_nat ?L :: u64) = int ?L" using us by (metis uint_nat)
    show ?thesis
      unfolding fc_vfs_seek_def Let_def i ss u cl [unfolded Let_def] assms(3) [symmetric] using rng by simp
  qed
  finally have sk: "vfs_seek (Some fd) offs whence v = Some (int ?p, ?v)" .
  have "unat (of_nat ?p :: u64) = ?p" using pL L by (simp add: unat_of_nat take_bit_eq_mod)
  then have "open_file rf fd body ?v" "file_pos fd ?v = ?p"
    using open_file_moved [OF assms(1), of "of_nat ?p"] pL by simp_all
  then show ?thesis using sk by blast
qed

text \<open>
  Seeking moves to the asked position, clamped to the file, for each of the three origins, and
  the next read continues from there.
\<close>

theorem vfs_seek_read:
  assumes "open_file rf fd body v" "\<bar>offs\<bar> < 2 ^ 62"
    and "target = (if whence = 0 then offs else if whence = 1 then int (file_pos fd v) + offs else int (length body) + offs)"
  shows "\<exists>v' v''. vfs_seek (Some fd) offs whence v = Some (int (clamp target (length body)), v') \<and>
    vfs_read rf (Some fd) cnt v' = Some (int (length (take (unat cnt) (drop (clamp target (length body)) body))),
      take (unat cnt) (drop (clamp target (length body)) body), v'')"
proof -
  obtain v' where "vfs_seek (Some fd) offs whence v = Some (int (clamp target (length body)), v')" "open_file rf fd body v'"
      "file_pos fd v' = clamp target (length body)" using vfs_seek_step [OF assms] by blast
  then show ?thesis using vfs_read_step [of rf fd body v' cnt] by auto
qed

theorem vfs_seek_read_witness:
  "let rf = (\<lambda>s n. Some (Some [1, 2, 3, 4, 5, 0, 0]));
       v = \<lparr>inodes = [\<lparr>i_mode = S_IFREG, i_size = 5, i_blocks = 1, i_type = 0xFFF, i_load = 0, i_exec = 0, i_sin = 7\<rparr>],
             files = [\<lparr>f_inode = 0, f_pos = 1, f_flags = 0, f_ops = Some filecore_file_ops\<rparr>], errno = 0\<rparr>
   in \<exists>v' v''. vfs_seek (Some 0) (- 2) 2 v = Some (3, v') \<and> vfs_read rf (Some 0) 10 v' = Some (2, [4, 5], v'')"
proof -
  let ?rf = "\<lambda>s n. Some (Some [1, 2, 3, 4, 5, 0, 0]) :: bytes option option"
  let ?v = "\<lparr>inodes = [\<lparr>i_mode = S_IFREG, i_size = 5, i_blocks = 1, i_type = 0xFFF, i_load = 0, i_exec = 0, i_sin = 7\<rparr>],
             files = [\<lparr>f_inode = 0, f_pos = 1, f_flags = 0, f_ops = Some filecore_file_ops\<rparr>], errno = 0\<rparr>"
  have "open_file ?rf 0 [1, 2, 3, 4, 5] ?v" by (simp add: open_file_def)
  from vfs_seek_read [OF this, of "- 2" _ 2 10] show ?thesis by (simp add: clamp_def)
qed

text \<open>
  The entries of the file table are never given back: once 1024 files have been opened, and
  even when all of them were closed, every further open fails.
\<close>

theorem vfs_open_exhausted:
  assumes "length (files v) = 1024"
  shows "vfs_open find_path (Some path) flags (foldr (\<lambda>fd. vfs_close (Some fd)) fds v) = Some (None, v\<lparr>errno := EMFILE\<rparr>)"
proof -
  have "foldr (\<lambda>fd. vfs_close (Some fd)) fds v = v" by (induction fds) (simp_all add: vfs_close_def)
  then show ?thesis using assms by (simp add: vfs_open_def MAX_FILES_def)
qed

end
