(* ===== verification/Volume.thy ===== *)
theory Volume
  imports Bigdir Vfs
begin

text \<open>
  The layers of the file system on top of each other: sectors of a disc, the directories and files
  stored in them, the path look-up of kernel/filecore.c over these, and the open files of
  kernel/vfs.c over the look-up.
\<close>

section \<open>What a disc holds\<close>

definition on_disc :: "(u64 \<Rightarrow> bytes option) \<Rightarrow> u32 \<Rightarrow> nat \<Rightarrow> bytes \<Rightarrow> bool" where
  "on_disc f lba n b \<longleftrightarrow> (\<forall>i < n. f (ucast (lba + of_nat i)) = Some (take 512 (drop (512 * i) b)))"

text \<open>A mounted disc of 512-byte sectors, and an allocator that serves the requests of the reader.\<close>

definition volume ::
  "(nat \<Rightarrow> bytes option) \<Rightarrow> blockdev list \<Rightarrow> fc_state \<Rightarrow> nat \<Rightarrow> geometry \<Rightarrow> (u64 \<Rightarrow> bytes option) \<Rightarrow> bool" where
  "volume km devs st d g f \<longleftrightarrow> g_fc_bdev st = Some d \<and> sector_dev (devs ! d) f \<and> disc_geometry st = Some g \<and>
     sector_size g = 512 \<and> g_root_cache_valid st \<and> (\<forall>n \<le> 4194304. \<exists>b. km n = Some b \<and> length b = n)"

text \<open>A directory, and a file of at most 4 MB, stored under a disc address.\<close>

definition dir_at ::
  "(nat \<Rightarrow> bytes option) \<Rightarrow> blockdev \<Rightarrow> fc_state \<Rightarrow> geometry \<Rightarrow> (u64 \<Rightarrow> bytes option) \<Rightarrow> u32 \<Rightarrow> dir_obj list \<Rightarrow> bool" where
  "dir_at km bd st g f s objs \<longleftrightarrow> list_all obj_ok objs \<and> length objs \<le> 256 \<and>
     (\<exists>lba dname dsize parent rest. resolve_sin km bd st g s = Some (Some lba) \<and> dir_size_ok dsize \<and> 8 \<le> length rest \<and>
        length (enc_dir dname dsize parent objs rest) = unat dsize \<and>
        on_disc f lba (unat dsize div 512) (enc_dir dname dsize parent objs rest))"

definition file_at ::
  "(nat \<Rightarrow> bytes option) \<Rightarrow> blockdev \<Rightarrow> fc_state \<Rightarrow> geometry \<Rightarrow> (u64 \<Rightarrow> bytes option) \<Rightarrow> u32 \<Rightarrow> bytes \<Rightarrow> bool" where
  "file_at km bd st g f s body \<longleftrightarrow> length body \<le> 4194304 \<and>
     (\<exists>lba pad. resolve_sin km bd st g s = Some (Some lba) \<and> length (body @ pad) = 512 * ((length body + 511) div 512) \<and>
        on_disc f lba ((length body + 511) div 512) (body @ pad))"

text \<open>The way from an entry through the directories on the disc along a list of names.\<close>

inductive leads :: "(u32 \<Rightarrow> dir_obj list \<Rightarrow> bool) \<Rightarrow> vfs_dirent \<Rightarrow> bytes list \<Rightarrow> vfs_dirent \<Rightarrow> bool" for dirs where
  here: "leads dirs e [] e"
| down: "d_type e = VFS_DIRENT_DIR \<Longrightarrow> dirs (sin e) objs \<Longrightarrow>
    find (\<lambda>x. map upper (d_name x) = map upper c) (map dirent_of objs) = Some e1 \<Longrightarrow> leads dirs e1 cs e2 \<Longrightarrow>
    leads dirs e (c # cs) e2"

inductive_simps leads_simps: "leads dirs e [] e2" "leads dirs e (c # cs) e2"

section \<open>The reader finds it\<close>

lemma volume_alloc: "volume km devs st d g f \<Longrightarrow> n \<le> 4194304 \<Longrightarrow> \<exists>b. km n = Some b \<and> length b = n"
  by (simp add: volume_def)

lemma find_in_dir_at:
  assumes v: "volume km devs st d g f" and "dir_at km (devs ! d) st g f s objs"
  shows "fc_find_in_dir (filecore_get_child_entry km devs st) s name =
    Some (find (\<lambda>x. map upper (d_name x) = map upper name) (map dirent_of objs))"
proof -
  obtain lba dname dsize parent rest where dir: "resolve_sin km (devs ! d) st g s = Some (Some lba)" "dir_size_ok dsize" "8 \<le> length rest"
    "length (enc_dir dname dsize parent objs rest) = unat dsize" "on_disc f lba (unat dsize div 512) (enc_dir dname dsize parent objs rest)"
    "list_all obj_ok objs" "length objs \<le> 256"
    using assms(2) by (auto simp: dir_at_def)
  obtain buf where buf: "km 16384 = Some buf" "length buf = 16384" using volume_alloc [OF v, of 16384] by auto
  have ent: "filecore_get_child_entry km devs st s i = Some (if unat i < length objs then Some (dirent_of (objs ! unat i)) else None)" for i
    by (rule child_entry_image [OF refl dir(4,2,3,6), where d = d and f = f and g = g and buf = buf and lba = lba])
      (use v dir buf in \<open>auto simp: volume_def on_disc_def\<close>)
  have "unat (of_nat j :: u32) = j" if "j < 256" for j using that by (simp add: unat_of_nat take_bit_eq_mod)
  then show ?thesis
    using find_entry_tree [of "filecore_get_child_entry km devs st s" "map dirent_of objs" 0 name] ent dir(7)
    by (simp add: fc_find_in_dir_def)
qed

lemma walk_path_leads:
  assumes "leads (dir_at km (devs ! d) st g f) e cs e2" "volume km devs st d g f" "list_all component cs"
  shows "walk_path (filecore_get_child_entry km devs st) e (join_path cs) = Some (Some e2)"
  using assms(1,3)
proof (induction rule: leads.induct)
  case (here e)
  then show ?case by (simp add: walk_path.simps)
next
  case (down e objs c e1 cs e2)
  then have "join_path (c # cs) \<noteq> []" "component c" using join_path_Nil by fastforce+
  then show ?case
    using down next_component_join [of c cs] by (subst walk_path.simps) (simp add: find_in_dir_at [OF assms(2)])
qed

lemma read_file_at:
  assumes v: "volume km devs st d g f" and "file_at km (devs ! d) st g f s body" "body \<noteq> []"
  shows "\<exists>junk. filecore_read_file km devs st s (of_nat (length body)) = Some (Some (body @ junk))"
proof -
  obtain lba pad where fl: "resolve_sin km (devs ! d) st g s = Some (Some lba)" "length (body @ pad) = 512 * ((length body + 511) div 512)"
    "on_disc f lba ((length body + 511) div 512) (body @ pad)" and l: "length body \<le> 4194304"
    using assms(2) by (auto simp: file_at_def)
  define n where "n = (length body + 511) div 512"
  have u: "unat (of_nat (length body) :: u32) = length body" using l by (simp add: unat_of_nat take_bit_eq_mod)
  have nz: "0 < (of_nat (length body) :: u32)" "(of_nat (length body) :: u32) \<le> 4 * 1024 * 1024"
    using u l assms(3) by (simp_all add: word_less_nat_alt word_le_nat_alt)
  have "512 * n \<le> 4194304" using l by (simp add: n_def)
  then obtain buf where buf: "km (512 * n) = Some buf" "length buf = 512 * n" using volume_alloc [OF v, of "512 * n"] by blast
  have "filecore_read_file_buf km (devs ! d) st g s (of_nat (length body)) = Some (Some (concat (sectors f lba 0 n)))"
    using v fl buf u nz by (intro read_file_buf_sectors [where buf = buf]) (auto simp: volume_def on_disc_def n_def)
  moreover have "concat (sectors f lba 0 n) = body @ pad"
  proof -
    have "concat (sectors f lba 0 k) = take (512 * k) (body @ pad)" if "k \<le> n" for k
      using that
    proof (induction k)
      case (Suc k)
      then have "f (ucast (lba + of_nat k)) = Some (take 512 (drop (512 * k) (body @ pad)))"
        using fl(3) by (simp add: on_disc_def n_def)
      then show ?case using Suc by (simp add: sectors_def take_add [of "512 * k" 512, symmetric] add.commute del: take_append drop_append)
    qed (simp add: sectors_def)
    then show ?thesis using fl(2) by (simp add: n_def)
  qed
  ultimately show ?thesis using v nz by (auto simp: filecore_read_file_def volume_def)
qed

section \<open>A small disc\<close>

text \<open>One directory of 2 KB at sector 100 with one file, whose five bytes are in sector 108.\<close>

definition demo_obj :: dir_obj where
  "demo_obj = \<lparr>o_load = 0xFFFFFD00, o_exec = 0, o_len = 5, o_ida = 8, o_attr = 3, o_name = [0x42, 0x6F]\<rparr>"

definition demo_dir :: bytes where
  "demo_dir = enc_dir [0x44] 2048 0 [demo_obj] (replicate 1985 0)"

definition demo_body :: bytes where
  "demo_body = [1, 2, 3, 4, 5]"

definition demo_sectors :: "u64 \<Rightarrow> bytes option" where
  "demo_sectors l = Some (if 100 \<le> l \<and> l < 104 then take 512 (drop (512 * (unat l - 100)) demo_dir)
     else if l = 108 then demo_body @ replicate 507 0 else replicate 512 0)"

definition demo_km :: "nat \<Rightarrow> bytes option" where
  "demo_km n = Some (replicate n 0)"

definition demo_st :: fc_state where
  "demo_st = fc_boot\<lparr>g_fc_bdev := Some 0, g_fc_lba_base := 100, g_dr_id_len := 0, g_dr_zone_spare := 32, g_dr_nzones := 1,
     g_dr_log2ss := 9, g_dr_log2bpmb := 10, g_root_cache := [leaf VFS_DIRENT_DIR 0 [0x44]], g_root_cache_valid := True\<rparr>"

definition demo_geometry :: geometry where
  "demo_geometry = \<lparr>sector_size = 512, secperlfau = 2, used_bits = 4064, total_nzones = 1, disc_map_lba = 4294966436\<rparr>"

lemma length_demo_dir: "length demo_dir = 2048"
  by (simp add: demo_dir_def demo_obj_def enc_dir_layout(5) [OF refl] entries_at_def enc_names_def)

lemma demo_sector_dev: "sector_dev (ram_disc demo_sectors) demo_sectors"
  using length_demo_dir
  by (intro ram_disc_sector) (auto simp: demo_sectors_def demo_body_def word_less_nat_alt word_le_nat_alt split: if_splits)

lemma demo_volume: "volume demo_km [ram_disc demo_sectors] demo_st 0 demo_geometry demo_sectors"
proof -
  have "disc_geometry demo_st = Some demo_geometry"
    by (simp add: demo_st_def demo_geometry_def disc_geometry_def total_zones_def fc_boot_def Let_def)
  then show ?thesis using demo_sector_dev by (simp add: volume_def demo_st_def demo_geometry_def demo_km_def)
qed

lemma demo_resolve: "resolve_sin demo_km (ram_disc demo_sectors) demo_st demo_geometry 0 = Some (Some 100)"
  "resolve_sin demo_km (ram_disc demo_sectors) demo_st demo_geometry 8 = Some (Some 108)"
proof -
  have "ida_scan (replicate 512 0) 32 0 0 4064 480 = Some (Some 480)"
    by (subst ida_scan.simps) (simp add: adfs_read_bits_def)
  then show "resolve_sin demo_km (ram_disc demo_sectors) demo_st demo_geometry 0 = Some (Some 100)"
    "resolve_sin demo_km (ram_disc demo_sectors) demo_st demo_geometry 8 = Some (Some 108)"
    using sector_read [OF demo_sector_dev, of "replicate 512 0" 4294966436]
    by (simp_all add: resolve_sin_def fc_ida_to_data_lba_def demo_km_def demo_st_def demo_geometry_def demo_sectors_def)
qed

lemma demo_on_disc: "on_disc demo_sectors 100 4 demo_dir"
proof (unfold on_disc_def, intro allI impI)
  fix i assume i: "i < (4 :: nat)"
  then have "unat (ucast (100 + of_nat i :: u32) :: u64) = 100 + i"
    by (simp add: unsigned_ucast_eq unat_word_ariths unat_of_nat take_bit_eq_mod)
  then show "demo_sectors (ucast (100 + of_nat i :: u32)) = Some (take 512 (drop (512 * i) demo_dir))"
    using i by (simp add: demo_sectors_def word_le_nat_alt word_less_nat_alt)
qed

lemma demo_dir_at: "dir_at demo_km (ram_disc demo_sectors) demo_st demo_geometry demo_sectors 0 [demo_obj]"
proof -
  have "length (enc_dir [0x44] 2048 0 [demo_obj] (replicate 1985 0)) = unat (2048 :: u32)" using length_demo_dir by (simp add: demo_dir_def)
  moreover have "on_disc demo_sectors 100 (unat (2048 :: u32) div 512) (enc_dir [0x44] 2048 0 [demo_obj] (replicate 1985 0))"
    using demo_on_disc by (simp add: demo_dir_def)
  moreover have "dir_size_ok 2048" by (simp add: dir_size_ok_def FC_MAX_DIR_SIZE_def)
  moreover have "8 \<le> length (replicate 1985 (0 :: u8))" by simp
  moreover have "list_all obj_ok [demo_obj]" "length [demo_obj] \<le> 256" by (simp_all add: obj_ok_def demo_obj_def)
  ultimately show ?thesis using demo_resolve(1) unfolding dir_at_def by blast
qed

lemma demo_file_at: "file_at demo_km (ram_disc demo_sectors) demo_st demo_geometry demo_sectors 8 demo_body"
proof -
  have "on_disc demo_sectors 108 1 (demo_body @ replicate 507 0)"
    by (simp add: on_disc_def demo_sectors_def demo_body_def)
  then have "length (demo_body @ replicate 507 0) = 512 * ((length demo_body + 511) div 512)"
    "on_disc demo_sectors 108 ((length demo_body + 511) div 512) (demo_body @ replicate 507 0)"
    by (simp_all add: demo_body_def)
  moreover have "length demo_body \<le> 4194304" by (simp add: demo_body_def)
  ultimately show ?thesis using demo_resolve(2) unfolding file_at_def by blast
qed

end
