(* ===== verification/Module.thy ===== *)
theory Module
  imports Vfs
begin

text \<open>
  kernel/module.c: the module manager, with its list of modules, the loader of module images, SWI
  dispatch and service calls. A module's code is machine code that is not interpreted here: \<open>call\<close>
  gives, for an image, an entry offset and two arguments, the result and its effect on the world
  \<open>'w\<close>, the state outside this component (which also holds the registers a SWI is given). A C
  function registered as a native module acts on \<open>'w\<close> too. Module code that calls back into the
  module manager is not covered.
\<close>

section \<open>State\<close>

type_synonym 'w code = "bytes \<Rightarrow> u32 \<Rightarrow> u64 \<Rightarrow> u64 \<Rightarrow> 'w \<Rightarrow> int \<times> 'w"

record 'w risc_os_module =
  m_image :: "bytes option"
  m_name :: bytes
  m_swi_base :: u32
  m_size :: u32
  initialised :: bool
  workspace_size :: u32
  swi_fn :: "(u32 \<Rightarrow> 'w \<Rightarrow> int \<times> 'w) option"

text \<open>\<open>g_module_list\<close>: the most recently registered module first.\<close>

type_synonym 'w modules = "'w risc_os_module list"

definition DEFAULT_WORKSPACE_SIZE :: nat where "DEFAULT_WORKSPACE_SIZE = 4096"
definition MODULE_STRUCT_SIZE :: nat where "MODULE_STRUCT_SIZE = 80"
definition MAX_MODULE_SIZE :: nat where "MAX_MODULE_SIZE = 2 * 1024 * 1024"
definition ENOSYS :: int where "ENOSYS = 38"

section \<open>Registration\<close>

text \<open>The name of every module that gets here is a string: the checks for null pointers hold.\<close>

definition module_register :: "'w risc_os_module \<Rightarrow> 'w modules \<Rightarrow> int \<times> 'w modules" where
  "module_register m ms = (0, m # ms)"

definition module_register_native ::
  "(nat \<Rightarrow> bytes option) \<Rightarrow> bytes \<Rightarrow> ('w \<Rightarrow> int \<times> 'w) option \<Rightarrow> u32 \<Rightarrow> (u32 \<Rightarrow> 'w \<Rightarrow> int \<times> 'w) option \<Rightarrow>
   'w modules \<Rightarrow> 'w \<Rightarrow> int \<times> 'w modules \<times> 'w" where
  "module_register_native km nm init base fn ms w =
     (case km MODULE_STRUCT_SIZE of None \<Rightarrow> (- ENOMEM, ms, w)
      | Some _ \<Rightarrow>
          let m = \<lparr>m_image = None, m_name = nm, m_swi_base = base, m_size = 0, initialised = False, workspace_size = 0, swi_fn = fn\<rparr>;
              (rc, ms) = module_register m ms
          in case init of
               Some i \<Rightarrow> (rc, (hd ms)\<lparr>initialised := True\<rparr> # tl ms, snd (i w))
             | None \<Rightarrow> (rc, ms, w))"

section \<open>Loading\<close>

definition MODULE_INIT_64BIT :: nat where "MODULE_INIT_64BIT = 30"

definition unnamed :: bytes where
  "unnamed = [0x55, 0x6E, 0x6E, 0x61, 0x6D, 0x65, 0x64]"

text \<open>
  The title inside the image, at most 255 characters ended by a zero byte. A title that runs out
  of the buffer is read outside it, and the copy of a longer one is not terminated: \<open>None\<close>.
\<close>

definition title_at :: "bytes \<Rightarrow> nat \<Rightarrow> bytes option" where
  "title_at buf p =
     (let s = take 255 (takeWhile (\<lambda>c. c \<noteq> 0) (drop p buf))
      in if p + length s < length buf \<and> buf ! (p + length s) = 0 then Some s else None)"

definition module_title :: "(nat \<Rightarrow> bytes option) \<Rightarrow> bytes \<Rightarrow> u32 \<Rightarrow> bytes option \<Rightarrow> bytes option" where
  "module_title km buf sz suggested = do {
     title_ptr \<leftarrow> rdw buf 0x10;
     let dflt = take 255 (case suggested of Some s \<Rightarrow> s | None \<Rightarrow> unnamed);
     src \<leftarrow> (if title_ptr \<ge> 0x34 \<and> title_ptr < sz then do {
               c \<leftarrow> rd buf (uint title_ptr);
               if c \<ge> 0x20 \<and> c \<le> 0x7E then title_at buf (unat title_ptr) else Some dflt
             } else Some dflt);
     Some (case km (length src + 1) of Some _ \<Rightarrow> src | None \<Rightarrow> unnamed)
   }"

text \<open>The module structure for an image; the workspace is cleared memory of the default size.\<close>

definition module_struct :: "bytes \<Rightarrow> u32 \<Rightarrow> bytes \<Rightarrow> u32 \<Rightarrow> 'w risc_os_module" where
  "module_struct buf sz nm base = \<lparr>m_image = Some buf, m_name = nm, m_swi_base = base, m_size = sz, initialised = False,
     workspace_size = of_nat DEFAULT_WORKSPACE_SIZE, swi_fn = None\<rparr>"

definition module_load_from_memory ::
  "(nat \<Rightarrow> bytes option) \<Rightarrow> 'w code \<Rightarrow> bytes \<Rightarrow> u32 \<Rightarrow> bytes option \<Rightarrow> 'w modules \<Rightarrow> 'w \<Rightarrow> (int \<times> 'w modules \<times> 'w) option" where
  "module_load_from_memory km call buf sz suggested ms w =
     (if sz < 0x34 then Some (- ENOEXEC, ms, w)
      else do {
        raw_init \<leftarrow> rdw buf 4;
        let init_off = raw_init AND NOT (push_bit 30 3);
        nm \<leftarrow> module_title km buf sz suggested;
        case (km MODULE_STRUCT_SIZE, km DEFAULT_WORKSPACE_SIZE) of
          (Some _, Some _) \<Rightarrow> do {
            base \<leftarrow> rdw buf 0x1C;
            let (rc, ms) = module_register (module_struct buf sz nm base) ms;
            if \<not> bit raw_init MODULE_INIT_64BIT then Some (0, ms, w)
            else if init_off \<noteq> 0 \<and> init_off < sz then
              let (init_rc, w) = call buf init_off 0 0 w
              in Some (0, (hd ms)\<lparr>initialised := (init_rc = 0)\<rparr> # tl ms, w)
            else Some (0, ms, w)
          }
        | _ \<Rightarrow> Some (- ENOMEM, ms, w)
      })"

text \<open>The loop of \<open>module_load_from_file\<close>: pieces of the file until there is no more or 2 MB are
  read. A result that is not positive comes with no bytes, and only such a result does.\<close>

function read_module :: "(u32 \<Rightarrow> u32 \<Rightarrow> bytes option option) \<Rightarrow> nat option \<Rightarrow> bytes \<Rightarrow> vfs \<Rightarrow> (bytes \<times> vfs) option" where
  "read_module rf fd acc v =
     (if length acc < MAX_MODULE_SIZE then do {
        (n, xs, v) \<leftarrow> vfs_read rf fd (of_nat (MAX_MODULE_SIZE - length acc)) v;
        if n \<le> 0 \<or> xs = [] then Some (acc, v) else read_module rf fd (acc @ xs) v
      } else Some (acc, v))"
  by pat_completeness auto
termination by (relation "measure (\<lambda>(r, f, a, v). MAX_MODULE_SIZE - length a)") (auto simp: neq_Nil_conv)

declare read_module.simps [simp del]

definition module_load_from_file ::
  "(nat \<Rightarrow> bytes option) \<Rightarrow> 'w code \<Rightarrow> (bytes \<Rightarrow> vfs_dirent option option) \<Rightarrow> (u32 \<Rightarrow> u32 \<Rightarrow> bytes option option) \<Rightarrow>
   bytes \<Rightarrow> 'w modules \<Rightarrow> vfs \<Rightarrow> 'w \<Rightarrow> (int \<times> 'w modules \<times> vfs \<times> 'w) option" where
  "module_load_from_file km call find_path rf path ms v w = do {
     (fd, v) \<leftarrow> vfs_open find_path (Some path) 0 v;
     case fd of None \<Rightarrow> Some (- ENOENT, ms, v, w)
     | Some f \<Rightarrow>
         (case km MAX_MODULE_SIZE of None \<Rightarrow> Some (- ENOMEM, ms, vfs_close fd v, w)
          | Some buf \<Rightarrow> do {
              (body, v) \<leftarrow> read_module rf fd [] v;
              let v = vfs_close fd v;
              if body = [] then Some (- ENOENT, ms, v, w)
              else do {
                (rc, ms, w) \<leftarrow> module_load_from_memory km call (body @ drop (length body) buf) (of_nat (length body)) None ms w;
                Some (rc, ms, v, w)
              }
            })
   }"

section \<open>Dispatch\<close>

fun swi_search :: "'w code \<Rightarrow> u32 \<Rightarrow> u64 \<Rightarrow> 'w modules \<Rightarrow> 'w \<Rightarrow> (int \<times> 'w) option" where
  "swi_search call n regs [] w = Some (- ENOSYS, w)"
| "swi_search call n regs (m # ms) w =
     (if m_swi_base m = n AND 0xFFFFFF00 then
        case swi_fn m of
          Some f \<Rightarrow> Some (f (n AND 0xFF) w)
        | None \<Rightarrow>
            (case m_image m of None \<Rightarrow> swi_search call n regs ms w
             | Some img \<Rightarrow> do {
                 h \<leftarrow> rdw img 0x20;
                 if h \<noteq> 0 then Some (call img h (ucast n) regs w) else swi_search call n regs ms w
               })
      else swi_search call n regs ms w)"

definition swi_dispatch :: "'w code \<Rightarrow> u32 \<Rightarrow> u64 \<Rightarrow> 'w modules \<Rightarrow> 'w \<Rightarrow> (int \<times> 'w) option" where
  "swi_dispatch call n regs ms w = swi_search call n regs ms w"

fun module_broadcast_service :: "'w code \<Rightarrow> u32 \<Rightarrow> u64 \<Rightarrow> 'w modules \<Rightarrow> 'w \<Rightarrow> (int \<times> 'w) option" where
  "module_broadcast_service call reason regs [] w = Some (- ENOENT, w)"
| "module_broadcast_service call reason regs (m # ms) w =
     (case m_image m of None \<Rightarrow> module_broadcast_service call reason regs ms w
      | Some img \<Rightarrow> do {
          e \<leftarrow> rdw img 0x0C;
          if e \<noteq> 0 \<and> initialised m then
            let (rc, w) = call img e (ucast reason) regs w
            in if rc = 0 then Some (0, w) else module_broadcast_service call reason regs ms w
          else module_broadcast_service call reason regs ms w
        })"

section \<open>Start-up\<close>

text \<open>
  The embedded images (empty when nothing is linked in), then the three native modules. The
  entry points of the native modules are arguments.
\<close>

definition load_embedded ::
  "(nat \<Rightarrow> bytes option) \<Rightarrow> 'w code \<Rightarrow> bytes \<Rightarrow> bytes \<Rightarrow> 'w modules \<Rightarrow> 'w \<Rightarrow> ('w modules \<times> 'w) option" where
  "load_embedded km call img nm ms w =
     (if img = [] then Some (ms, w)
      else do { (rc, ms, w) \<leftarrow> module_load_from_memory km call img (of_nat (length img)) (Some nm) ms w; Some (ms, w) })"

definition PhoenixTest :: bytes where
  "PhoenixTest = [0x50, 0x68, 0x6F, 0x65, 0x6E, 0x69, 0x78, 0x54, 0x65, 0x73, 0x74]"
definition PhoenixCursor :: bytes where
  "PhoenixCursor = [0x50, 0x68, 0x6F, 0x65, 0x6E, 0x69, 0x78, 0x43, 0x75, 0x72, 0x73, 0x6F, 0x72]"
definition PhoenixDHCP :: bytes where
  "PhoenixDHCP = [0x50, 0x68, 0x6F, 0x65, 0x6E, 0x69, 0x78, 0x44, 0x48, 0x43, 0x50]"
definition PhoenixGENET :: bytes where
  "PhoenixGENET = [0x50, 0x68, 0x6F, 0x65, 0x6E, 0x69, 0x78, 0x47, 0x45, 0x4E, 0x45, 0x54]"
definition PhoenixResolver :: bytes where
  "PhoenixResolver = [0x50, 0x68, 0x6F, 0x65, 0x6E, 0x69, 0x78, 0x52, 0x65, 0x73, 0x6F, 0x6C, 0x76, 0x65, 0x72]"

definition RESOLVER_SWI_BASE :: u32 where "RESOLVER_SWI_BASE = 0x46000"

definition module_init_all ::
  "(nat \<Rightarrow> bytes option) \<Rightarrow> 'w code \<Rightarrow> bytes \<Rightarrow> bytes \<Rightarrow> ('w \<Rightarrow> int \<times> 'w) \<Rightarrow> ('w \<Rightarrow> int \<times> 'w) \<Rightarrow> (u32 \<Rightarrow> 'w \<Rightarrow> int \<times> 'w) \<Rightarrow>
   ('w \<Rightarrow> int \<times> 'w) \<Rightarrow> (u32 \<Rightarrow> 'w \<Rightarrow> int \<times> 'w) \<Rightarrow> 'w modules \<Rightarrow> 'w \<Rightarrow> ('w modules \<times> 'w) option" where
  "module_init_all km call test_img cursor_img dhcp_i genet_i genet_swi resolver_i resolver_swi ms w = do {
     (ms, w) \<leftarrow> load_embedded km call test_img PhoenixTest ms w;
     (ms, w) \<leftarrow> load_embedded km call cursor_img PhoenixCursor ms w;
     let (rc, ms, w) = module_register_native km PhoenixDHCP (Some dhcp_i) 0 None ms w;
     let (rc, ms, w) = module_register_native km PhoenixGENET (Some genet_i) ETHERGE_SWI_BASE (Some genet_swi) ms w;
     let (rc, ms, w) = module_register_native km PhoenixResolver (Some resolver_i) RESOLVER_SWI_BASE (Some resolver_swi) ms w;
     Some (ms, w)
   }"

section \<open>SWI dispatch\<close>

lemma chunk_split:
  fixes b k :: u32
  assumes "b AND 0xFF = 0" "k < 256"
  shows "(b + k) AND 0xFFFFFF00 = b" "(b + k) AND 0xFF = k"
proof -
  have m: "(0xFF :: u32) = mask 8" "(0xFFFFFF00 :: u32) = NOT (mask 8)" by (simp_all add: mask_eq_exp_minus_1 not_eq_complement)
  have b: "\<not> bit b j" if "j < 8" for j
  proof -
    have "\<not> bit (b AND mask 8) j" using assms(1) by (simp add: m)
    then show ?thesis using that by (simp add: bit_simps)
  qed
  have "unat k < 2 ^ 8" using assms(2) by (simp add: word_less_nat_alt)
  then have "take_bit 8 k = k" by (simp add: word_unat_eq_iff unsigned_take_bit_eq take_bit_nat_eq_self)
  then have k: "\<not> bit k j" if "8 \<le> j" for j using that by (metis bit_take_bit_iff not_le)
  have b': "bit b j \<Longrightarrow> 8 \<le> j" and k': "bit k j \<Longrightarrow> j < 8" for j using b k not_le by blast+
  have "b + k = b OR k" using b k by (intro disjunctive_add) (meson not_le)
  then show "(b + k) AND 0xFFFFFF00 = b" "(b + k) AND 0xFF = k"
    unfolding m using b k by (auto intro!: bit_word_eqI simp: bit_simps not_less dest: b' k')
qed

text \<open>
  Once a native module is registered for a SWI chunk, every SWI of the chunk goes to its
  handler with the number inside the chunk, also when an older module claims the same chunk, and
  the SWIs of all other chunks go where they went before.
\<close>

theorem native_swi_dispatch:
  assumes "module_register_native km nm init base (Some fn) ms w = (0, ms', w')"
  shows "swi_dispatch call n regs ms' v =
    (if n AND 0xFFFFFF00 = base then Some (fn (n AND 0xFF) v) else swi_dispatch call n regs ms v)"
  using assms
  by (auto simp: module_register_native_def module_register_def swi_dispatch_def ENOMEM_def Let_def split: option.splits)

theorem native_swi_dispatch_witness:
  "let ms' = fst (snd (module_register_native (\<lambda>n. Some []) [0x41] (Some (\<lambda>w. (1, w + 1))) 0x46000 (Some (\<lambda>k w. (uint k, w))) [] (5 :: nat)))
   in swi_dispatch (\<lambda>img e a b w. (99, w)) 0x46003 0 ms' 6 = Some (3, 6) \<and>
      swi_dispatch (\<lambda>img e a b w. (99, w)) 0x47003 0 ms' 6 = Some (- 38, 6)"
proof -
  have r: "module_register_native (\<lambda>n. Some []) [0x41] (Some (\<lambda>w. (1, w + 1))) 0x46000 (Some (\<lambda>k w. (uint k, w))) [] (5 :: nat)
      = (0, fst (snd (module_register_native (\<lambda>n. Some []) [0x41] (Some (\<lambda>w. (1, w + 1))) 0x46000 (Some (\<lambda>k w. (uint k, w))) [] (5 :: nat))), 6)"
    by (simp add: module_register_native_def module_register_def)
  note d = native_swi_dispatch [OF r, of "\<lambda>img e a b w. (99, w)" _ 0 6]
  show ?thesis using d [of "0x46003"] d [of "0x47003"] unfolding Let_def by (simp add: swi_dispatch_def ENOSYS_def)
qed



section \<open>Loading\<close>

text \<open>
  A 32-bit ARM image is registered as a stub whose code is not to be run, and it is marked as
  not initialised; but a SWI of its chunk is dispatched into the image all the same, at the offset
  in its header, which is not compared with the size of the image.
\<close>

theorem arm32_stub_swi_executed:
  assumes "0x34 \<le> sz" "rdw buf 4 = Some ini" "\<not> bit ini 30" "module_title km buf sz suggested = Some nm"
    and "km MODULE_STRUCT_SIZE \<noteq> None" "km DEFAULT_WORKSPACE_SIZE \<noteq> None"
    and "rdw buf 0x1C = Some base" "rdw buf 0x20 = Some h" "h \<noteq> 0" "n AND 0xFFFFFF00 = base"
  shows "\<exists>m. module_load_from_memory km call buf sz suggested ms w = Some (0, m # ms, w) \<and> \<not> initialised m \<and>
    swi_dispatch call n regs (m # ms) v = Some (call buf h (ucast n) regs v)"
proof -
  obtain x y where "km MODULE_STRUCT_SIZE = Some x" "km DEFAULT_WORKSPACE_SIZE = Some y" using assms(5,6) by auto
  then show ?thesis using assms
    by (simp add: module_load_from_memory_def module_register_def module_struct_def swi_dispatch_def MODULE_INIT_64BIT_def Let_def)
qed

theorem arm32_stub_swi_executed_witness:
  "let buf = replicate 0x1C 0 @ [0, 0x60, 0x04, 0, 0, 0, 0, 0x7F] @ replicate 16 0
   in \<exists>m. module_load_from_memory (\<lambda>n. Some []) (\<lambda>img e a b w. (uint e, w)) buf 0x34 None [] () = Some (0, [m], ()) \<and> \<not> initialised m \<and>
     swi_dispatch (\<lambda>img e a b w. (uint e, w)) 0x46000 0 [m] () = Some (0x7F000000, ())"
proof -
  let ?buf = "replicate 0x1C 0 @ [0, 0x60, 0x04, 0, 0, 0, 0, 0x7F] @ replicate 16 0 :: bytes"
  have l: "length ?buf = 52" by simp
  have b: "?buf ! 28 = 0" "?buf ! 29 = 0x60" "?buf ! 30 = 4" "?buf ! 31 = 0" "?buf ! 32 = 0" "?buf ! 33 = 0" "?buf ! 34 = 0" "?buf ! 35 = 0x7F"
    by (simp_all add: nth_append)
  have z: "?buf ! i = 0" if "i < 28" for i using that by (simp add: nth_append)
  have r: "rdw ?buf 4 = Some 0" "rdw ?buf 0x10 = Some 0" "rdw ?buf 0x1C = Some 0x46000" "rdw ?buf 0x20 = Some 0x7F000000"
    using b z l by (simp_all add: rdw_def rd_def be32_def del: append.simps append_assoc)
  have t: "module_title (\<lambda>n. Some []) ?buf 0x34 None = Some unnamed" using r by (simp add: module_title_def unnamed_def)
  show ?thesis
    using arm32_stub_swi_executed [OF _ r(1) _ t _ _ r(3,4), of "0x46000" "\<lambda>img e a b w. (uint e, w)" "[]" "()" 0 "()"]
    unfolding Let_def by simp
qed

lemma read_module_file:
  assumes "open_file rf fd body v" "file_pos fd v = 0" "length body \<le> MAX_MODULE_SIZE"
  shows "\<exists>v'. read_module rf (Some fd) [] v = Some (body, v')"
proof -
  have M: "unat (of_nat MAX_MODULE_SIZE :: u64) = MAX_MODULE_SIZE" "0 < MAX_MODULE_SIZE" by (simp_all add: MAX_MODULE_SIZE_def)
  obtain v1 where 1: "vfs_read rf (Some fd) (of_nat MAX_MODULE_SIZE) v = Some (int (length body), body, v1)"
    "open_file rf fd body v1" "file_pos fd v1 = length body"
    using vfs_read_step [OF assms(1), of "of_nat MAX_MODULE_SIZE"] assms(2,3) M by auto
  obtain v2 where 2: "vfs_read rf (Some fd) (of_nat (MAX_MODULE_SIZE - length body)) v1 = Some (0, [], v2)"
    using vfs_read_step [OF 1(2), of "of_nat (MAX_MODULE_SIZE - length body)"] 1(3) by auto
  have "\<exists>v'. read_module rf (Some fd) body v1 = Some (body, v')"
    using 2 by (subst read_module.simps) auto
  then show ?thesis using 1(1) M(2) by (cases "body = []") (subst read_module.simps, auto)+
qed

text \<open>
  Loading a module by its path gives the loader exactly the bytes of the file, of at most 2 MB,
  and their number, with no suggested name.
\<close>

theorem module_from_file:
  assumes "find_path path = Some (Some e)" "d_type e \<noteq> VFS_DIRENT_DIR" "length (files v) < 1024" "length (inodes v) < 1024"
    and "d_size e = of_nat (length body)" "0 < length body" "length body \<le> MAX_MODULE_SIZE" "km MAX_MODULE_SIZE = Some buf"
    and "\<exists>junk. rf (sin e) (of_nat (length body)) = Some (Some (body @ junk))"
  shows "\<exists>v'. module_load_from_file km call find_path rf path ms v w =
    map_option (\<lambda>(rc, ms, w). (rc, ms, v', w))
      (module_load_from_memory km call (body @ drop (length body) buf) (of_nat (length body)) None ms w)"
proof -
  have "length body < 2 ^ 32" using assms(7) by (simp add: MAX_MODULE_SIZE_def)
  then obtain v1 where 1: "vfs_open find_path (Some path) 0 v = Some (Some (length (files v)), v1)"
    "open_file rf (length (files v)) body v1" "file_pos (length (files v)) v1 = 0"
    using vfs_open_file [of find_path path e v body rf 0] assms by blast
  obtain v2 where 2: "read_module rf (Some (length (files v))) [] v1 = Some (body, v2)"
    using read_module_file [OF 1(2,3) assms(7)] by blast
  show ?thesis
    using 1(1) 2 assms(6,8)
    by (intro exI [of _ v2]) (auto simp: module_load_from_file_def vfs_close_def split: bind_split)
qed

theorem module_from_file_witness:
  "\<exists>v'. module_load_from_file (\<lambda>n. Some []) (\<lambda>img e a b w. (0, w)) (\<lambda>p. Some (Some (leaf VFS_DIRENT_FILE 0x600 p\<lparr>d_size := 3\<rparr>)))
     (\<lambda>s n. Some (Some [1, 2, 3, 0])) [0x41] [] vfs_boot () = Some (- 8, [], v', ())"
proof -
  from module_from_file [of "\<lambda>p. Some (Some (leaf VFS_DIRENT_FILE 0x600 p\<lparr>d_size := 3\<rparr>))" "[0x41]" "leaf VFS_DIRENT_FILE 0x600 [0x41]\<lparr>d_size := 3\<rparr>"
      vfs_boot "[1, 2, 3]" "\<lambda>n. Some []" "[]" "\<lambda>s n. Some (Some [1, 2, 3, 0])" "\<lambda>img e a b w. (0, w)" "[]" "()"]
  show ?thesis
    by (simp add: leaf_def vfs_boot_def VFS_DIRENT_FILE_def VFS_DIRENT_DIR_def MAX_MODULE_SIZE_def module_load_from_memory_def ENOEXEC_def)
qed

text \<open>A title without a terminator before the end of the image is read outside it.\<close>

lemma module_title_overrun:
  assumes "rdw buf 0x10 = Some t" "0x34 \<le> t" "t < sz" "unat sz \<le> length buf" "0x20 \<le> buf ! unat t" "buf ! unat t \<le> 0x7E"
    and "0 \<notin> set (drop (unat t) buf)" "length buf \<le> unat t + 255"
  shows "module_title km buf sz suggested = None"
proof -
  have "takeWhile (\<lambda>c. c \<noteq> 0) (drop (unat t) buf) = drop (unat t) buf"
    using assms(7) by (subst takeWhile_eq_all_conv) auto
  moreover have "unat t < length buf" using assms(3,4) by (simp add: word_less_nat_alt)
  ultimately have "title_at buf (unat t) = None" using assms(8) by (simp add: title_at_def Let_def del: takeWhile_eq_all_conv)
  moreover have "rd buf (uint t) = Some (buf ! unat t)" using assms(3,4) by (simp add: rd_def word_less_nat_alt uint_nat del: of_nat_unat)
  ultimately show ?thesis using assms(1-3,5,6) by (simp add: module_title_def)
qed

end
