(* ===== verification/Obey.thy ===== *)
theory Obey
  imports Module
begin

text \<open>
  kernel/filecore.c, third part: the obey-file interpreter that runs the boot script, the loader of
  the modules found on the disc, and \<open>filecore_list_root\<close> that uses both. The nesting depth
  \<open>g_obey_depth\<close> is an argument, raised for the file that is run and back afterwards.
\<close>

section \<open>The variable table\<close>

definition OBEY_VAR_MAX :: nat where "OBEY_VAR_MAX = 64"
definition OBEY_VAR_NLEN :: nat where "OBEY_VAR_NLEN = 64"
definition OBEY_VAR_VLEN :: nat where "OBEY_VAR_VLEN = 128"

type_synonym obey_vars = "(bytes \<times> bytes) list"

fun var_assign :: "bytes \<Rightarrow> bytes \<Rightarrow> obey_vars \<Rightarrow> obey_vars option" where
  "var_assign nm v [] = None"
| "var_assign nm v ((n, u) # vs) =
     (if fc_name_eq n nm then Some ((n, take (OBEY_VAR_VLEN - 1) v) # vs)
      else map_option (\<lambda>r. (n, u) # r) (var_assign nm v vs))"

definition obey_var_set :: "bytes \<Rightarrow> bytes \<Rightarrow> obey_vars \<Rightarrow> obey_vars" where
  "obey_var_set nm v vs =
     (case var_assign nm v vs of Some vs' \<Rightarrow> vs'
      | None \<Rightarrow> if length vs \<ge> OBEY_VAR_MAX then vs
                else vs @ [(take (OBEY_VAR_NLEN - 1) nm, take (OBEY_VAR_VLEN - 1) v)])"

section \<open>Words and lines\<close>

definition is_sp :: "u8 \<Rightarrow> bool" where
  "is_sp c \<longleftrightarrow> c = 0x20 \<or> c = 0x09"

definition ob_skip_sp :: "bytes \<Rightarrow> bytes" where
  "ob_skip_sp s = dropWhile is_sp s"

definition ob_copy_word :: "bytes \<Rightarrow> nat \<Rightarrow> bytes \<times> bytes" where
  "ob_copy_word s maxlen = (let n = min (maxlen - 1) (length (takeWhile (\<lambda>c. \<not> is_sp c) s)) in (take n s, drop n s))"

fun ob_kw_eq :: "bytes \<Rightarrow> bytes \<Rightarrow> bool" where
  "ob_kw_eq (a # as) (b # bs) = (if upper a \<noteq> upper b then False else ob_kw_eq as bs)"
| "ob_kw_eq as bs = (as = [] \<and> bs = [])"

text \<open>What a line asks for, with the arguments its branch of \<open>obey_exec_line\<close> extracts.\<close>

datatype obey_cmd =
  Nothing
| SetVar bytes bytes
| RMLoad bytes
| RMEnsure bytes
| IfThere bytes bytes
| Run bytes

definition kw_Set :: bytes where "kw_Set = [0x53, 0x65, 0x74]"
definition kw_Unset :: bytes where "kw_Unset = [0x55, 0x6E, 0x73, 0x65, 0x74]"
definition kw_RMLoad :: bytes where "kw_RMLoad = [0x52, 0x4D, 0x4C, 0x6F, 0x61, 0x64]"
definition kw_RMEnsure :: bytes where "kw_RMEnsure = [0x52, 0x4D, 0x45, 0x6E, 0x73, 0x75, 0x72, 0x65]"
definition kw_IfThere :: bytes where "kw_IfThere = [0x49, 0x66, 0x54, 0x68, 0x65, 0x72, 0x65]"
definition kw_Run :: bytes where "kw_Run = [0x52, 0x75, 0x6E]"

definition obey_parse :: "bytes \<Rightarrow> obey_cmd" where
  "obey_parse l0 =
     (let line = ob_skip_sp l0
      in if line = [] \<or> hd line = 0x7C then Nothing
         else
           let line = (if hd line = 0x2A then ob_skip_sp (tl line) else line);
               (cmd, rest) = ob_copy_word line 48;
               rest = ob_skip_sp rest
           in if ob_kw_eq cmd kw_Set then
                (let (varname, after) = ob_copy_word rest OBEY_VAR_NLEN in SetVar varname (ob_skip_sp after))
              else if ob_kw_eq cmd kw_Unset then Nothing
              else if ob_kw_eq cmd kw_RMLoad then RMLoad rest
              else if ob_kw_eq cmd kw_RMEnsure then
                (let p2 = ob_skip_sp (snd (ob_copy_word rest 48))
                 in RMEnsure (ob_skip_sp (snd (ob_copy_word p2 16))))
              else if ob_kw_eq cmd kw_IfThere then
                (let (ipath, p2) = ob_copy_word rest 256
                 in IfThere ipath (ob_skip_sp (snd (ob_copy_word (ob_skip_sp p2) 8))))
              else if ob_kw_eq cmd kw_Run then Run rest
              else Nothing)"

definition split_line :: "bytes \<Rightarrow> bytes \<times> bytes" where
  "split_line bs =
     (let n = min 255 (length (takeWhile (\<lambda>c. c \<noteq> 0x0A \<and> c \<noteq> 0x0D) bs))
      in (take n bs, dropWhile (\<lambda>c. c = 0x0A \<or> c = 0x0D) (drop n bs)))"

lemma skip_sp_le: "length (ob_skip_sp s) \<le> length s"
  by (simp add: ob_skip_sp_def length_dropWhile_le)

lemma copy_word_le: "length (snd (ob_copy_word s k)) \<le> length s"
  by (simp add: ob_copy_word_def Let_def)

lemma copy_word_less: "fst (ob_copy_word s k) \<noteq> [] \<Longrightarrow> length (snd (ob_copy_word s k)) < length s"
  by (auto simp: ob_copy_word_def Let_def)

lemma obey_parse_shorter:
  "obey_parse l = RMEnsure p \<Longrightarrow> length p < length l" "obey_parse l = IfThere q p \<Longrightarrow> length p < length l"
proof -
  have tl: "length (ob_skip_sp (tl x)) \<le> length x" for x using skip_sp_le [of "tl x"] by simp
  have kw: "ob_kw_eq c k \<Longrightarrow> k \<noteq> [] \<Longrightarrow> c \<noteq> []" for c k by (cases c; cases k) auto
  have sh: "length (ob_skip_sp (snd (ob_copy_word (ob_skip_sp (snd (ob_copy_word (ob_skip_sp (snd (ob_copy_word x a))) b))) c))) < length l"
    if "fst (ob_copy_word x a) \<noteq> []" "length x \<le> length l" for x a b c
    using that copy_word_less [of x a] skip_sp_le copy_word_le
    by (meson le_less_trans less_le_trans order_trans)
  let ?x = "if hd (ob_skip_sp l) = 0x2A then ob_skip_sp (tl (ob_skip_sp l)) else ob_skip_sp l"
  have x: "length ?x \<le> length l" using tl [of "ob_skip_sp l"] skip_sp_le [of l] by auto
  show "obey_parse l = RMEnsure p \<Longrightarrow> length p < length l"
    using sh [OF _ x, of 48 48 16] kw [of "fst (ob_copy_word ?x 48)" kw_RMEnsure]
    by (auto simp: obey_parse_def Let_def kw_RMEnsure_def split: if_splits prod.splits)
  show "obey_parse l = IfThere q p \<Longrightarrow> length p < length l"
    using sh [OF _ x, of 48 256 8] kw [of "fst (ob_copy_word ?x 48)" kw_IfThere]
    by (auto simp: obey_parse_def Let_def kw_IfThere_def split: if_splits prod.splits)
qed

lemma split_line_shorter: "bs \<noteq> [] \<Longrightarrow> length (snd (split_line bs)) < length bs"
proof -
  assume "bs \<noteq> []"
  then obtain c cs where bs: "bs = c # cs" by (cases bs) auto
  show ?thesis
  proof (cases "c = 0x0A \<or> c = 0x0D")
    case True
    then have "snd (split_line bs) = dropWhile (\<lambda>c. c = 0x0A \<or> c = 0x0D) cs" by (auto simp: split_line_def bs Let_def)
    then show ?thesis using length_dropWhile_le [of "\<lambda>c. c = 0x0A \<or> c = 0x0D" cs] bs by simp
  next
    case False
    let ?n = "min 255 (length (takeWhile (\<lambda>c. c \<noteq> 0x0A \<and> c \<noteq> 0x0D) bs))"
    have "0 < ?n" "0 < length bs" using False bs by simp_all
    then have "length (drop ?n bs) < length bs" unfolding length_drop by (rule diff_less)
    moreover have "length (snd (split_line bs)) \<le> length (drop ?n bs)"
      by (simp only: split_line_def Let_def snd_conv length_dropWhile_le)
    ultimately show ?thesis by (rule le_less_trans [rotated])
  qed
qed

section \<open>Running a script\<close>

text \<open>What the interpreter works on: the allocator, the devices, the mounted disc and the module code.\<close>

record 'w obey_env =
  e_km :: "nat \<Rightarrow> bytes option"
  e_devs :: "blockdev list"
  e_fc :: fc_state
  e_code :: "'w code"

record 'w obey =
  o_vars :: obey_vars
  o_mods :: "'w modules"
  o_world :: 'w

definition fs_child :: "'w obey_env \<Rightarrow> u32 \<Rightarrow> u32 \<Rightarrow> vfs_dirent option option" where
  "fs_child env = filecore_get_child_entry (e_km env) (e_devs env) (e_fc env)"

definition fs_find :: "'w obey_env \<Rightarrow> bytes \<Rightarrow> vfs_dirent option option" where
  "fs_find env path = filecore_find_path (fs_child env) (e_fc env) path"

definition fs_read :: "'w obey_env \<Rightarrow> u32 \<Rightarrow> u32 \<Rightarrow> bytes option option" where
  "fs_read env = filecore_read_file (e_km env) (e_devs env) (e_fc env)"

text \<open>The file of a path with its contents, when there is one that can be read.\<close>

definition fs_file :: "'w obey_env \<Rightarrow> bytes \<Rightarrow> (vfs_dirent \<times> bytes) option option" where
  "fs_file env path = do {
     r \<leftarrow> fs_find env path;
     case r of None \<Rightarrow> Some None
     | Some ent \<Rightarrow>
         if d_type ent \<noteq> VFS_DIRENT_FILE then Some None
         else do {
           b \<leftarrow> fs_read env (sin ent) (ucast (d_size ent));
           Some (map_option (Pair ent) b)
         }
   }"

definition obey_rmload :: "'w obey_env \<Rightarrow> bytes \<Rightarrow> 'w obey \<Rightarrow> 'w obey option" where
  "obey_rmload env path st = do {
     f \<leftarrow> fs_file env path;
     case f of None \<Rightarrow> Some st
     | Some (ent, buf) \<Rightarrow> do {
         (rc, ms, w) \<leftarrow> module_load_from_memory (e_km env) (e_code env) buf (ucast (d_size ent)) (Some (d_name ent)) (o_mods st) (o_world st);
         Some (st\<lparr>o_mods := ms, o_world := w\<rparr>)
       }
   }"

function obey_exec_line :: "'w obey_env \<Rightarrow> nat \<Rightarrow> bytes \<Rightarrow> 'w obey \<Rightarrow> 'w obey option"
  and exec_lines :: "'w obey_env \<Rightarrow> nat \<Rightarrow> bytes \<Rightarrow> 'w obey \<Rightarrow> 'w obey option" where
  "obey_exec_line env depth line st =
     (case obey_parse line of
        Nothing \<Rightarrow> Some st
      | SetVar nm v \<Rightarrow> Some (st\<lparr>o_vars := obey_var_set nm v (o_vars st)\<rparr>)
      | RMLoad path \<Rightarrow> obey_rmload env path st
      | RMEnsure p2 \<Rightarrow> if p2 \<noteq> [] then obey_exec_line env depth p2 st else Some st
      | IfThere ipath p2 \<Rightarrow> do {
          r \<leftarrow> fs_find env ipath;
          if r \<noteq> None \<and> p2 \<noteq> [] then obey_exec_line env depth p2 st else Some st
        }
      | Run path \<Rightarrow>
          if depth \<ge> 3 then Some st
          else do {
            f \<leftarrow> fs_file env path;
            case f of None \<Rightarrow> Some st
            | Some (ent, buf) \<Rightarrow>
                if length buf < unat (ucast (d_size ent) :: u32) then None
                else exec_lines env (depth + 1) (take (unat (ucast (d_size ent) :: u32)) buf) st
          })"
| "exec_lines env depth bs st =
     (if bs = [] then Some st
      else do {
        st \<leftarrow> obey_exec_line env depth (cstr (fst (split_line bs))) st;
        exec_lines env depth (snd (split_line bs)) st
      })"
  by pat_completeness auto
termination
  by (relation "inv_image (less_than <*lex*> less_than <*lex*> less_than)
      (case_sum (\<lambda>(env, d, l, st). (3 - d, 0, length l)) (\<lambda>(env, d, bs, st). (3 - d, 1, length bs)))")
    (auto simp: obey_parse_shorter split_line_shorter)

declare obey_exec_line.simps [simp del] exec_lines.simps [simp del]

definition filecore_exec_obey :: "'w obey_env \<Rightarrow> nat \<Rightarrow> bytes \<Rightarrow> u32 \<Rightarrow> 'w obey \<Rightarrow> 'w obey option" where
  "filecore_exec_obey env depth buf sz st =
     (if length buf < unat sz then None else exec_lines env depth (take (unat sz) buf) st)"

section \<open>Loading the modules of the disc\<close>

definition fs_read_buf :: "'w obey_env \<Rightarrow> geometry \<Rightarrow> u32 \<Rightarrow> u32 \<Rightarrow> bytes option option" where
  "fs_read_buf env g s sz =
     (case g_fc_bdev (e_fc env) of None \<Rightarrow> Some None
      | Some i \<Rightarrow> filecore_read_file_buf (e_km env) (e_devs env ! i) (e_fc env) g s sz)"

text \<open>The files that are tried: of a plausible size, and of type \<open>&FFA\<close> when they carry a type.\<close>

definition module_file :: "vfs_dirent \<Rightarrow> bool" where
  "module_file ent \<longleftrightarrow> d_type ent = VFS_DIRENT_FILE \<and> \<not> (d_size ent < 0x34 \<or> d_size ent > 4 * 1024 * 1024) \<and>
     (drop_bit 20 (load_addr ent) = 0xFFF \<longrightarrow> riscos_type ent = 0xFFA)"

fun load_entries :: "'w obey_env \<Rightarrow> geometry \<Rightarrow> u32 \<Rightarrow> u32 list \<Rightarrow> nat \<Rightarrow> 'w modules \<Rightarrow> 'w \<Rightarrow> (nat \<times> 'w modules \<times> 'w) option" where
  "load_entries env g dir_sin [] loaded ms w = Some (loaded, ms, w)"
| "load_entries env g dir_sin (i # is) loaded ms w = do {
     r \<leftarrow> fs_child env dir_sin i;
     case r of None \<Rightarrow> Some (loaded, ms, w)
     | Some ent \<Rightarrow>
         if \<not> module_file ent then load_entries env g dir_sin is loaded ms w
         else do {
           b \<leftarrow> fs_read_buf env g (sin ent) (ucast (d_size ent));
           case b of None \<Rightarrow> load_entries env g dir_sin is loaded ms w
           | Some fbuf \<Rightarrow> do {
               (rc, ms, w) \<leftarrow> module_load_from_memory (e_km env) (e_code env) fbuf (ucast (d_size ent)) (Some (d_name ent)) ms w;
               load_entries env g dir_sin is (if rc = 0 then loaded + 1 else loaded) ms w
             }
         }
   }"

definition fc_try_load_modules_from_dir ::
  "'w obey_env \<Rightarrow> geometry \<Rightarrow> u32 \<Rightarrow> 'w modules \<Rightarrow> 'w \<Rightarrow> (nat \<times> 'w modules \<times> 'w) option" where
  "fc_try_load_modules_from_dir env g dir_sin ms w = load_entries env g dir_sin (map of_nat [0..<128]) 0 ms w"

text \<open>The object number of an entry of the root cache, 0 when there is none.\<close>

definition root_sin :: "fc_state \<Rightarrow> bytes \<Rightarrow> u32" where
  "root_sin st nm = (case find (\<lambda>e. fc_name_ieq (d_name e) nm) (g_root_cache st) of Some e \<Rightarrow> sin e | None \<Rightarrow> 0)"

definition find_dir :: "'w obey_env \<Rightarrow> u32 \<Rightarrow> bytes \<Rightarrow> u32 option option" where
  "find_dir env dir_sin nm = do {
     r \<leftarrow> fc_find_in_dir (fs_child env) dir_sin nm;
     Some (case r of Some e \<Rightarrow> if d_type e = VFS_DIRENT_DIR then Some (sin e) else None | None \<Rightarrow> None)
   }"

definition nm_Boot :: bytes where "nm_Boot = [0x21, 0x42, 0x6F, 0x6F, 0x74]"
definition nm_Resources :: bytes where "nm_Resources = [0x52, 0x65, 0x73, 0x6F, 0x75, 0x72, 0x63, 0x65, 0x73]"
definition nm_System :: bytes where "nm_System = [0x53, 0x79, 0x73, 0x74, 0x65, 0x6D]"
definition nm_Modules :: bytes where "nm_Modules = [0x4D, 0x6F, 0x64, 0x75, 0x6C, 0x65, 0x73]"
definition nm_LanMan98 :: bytes where "nm_LanMan98 = [0x21, 0x4C, 0x61, 0x6E, 0x4D, 0x61, 0x6E, 0x39, 0x38]"

text \<open>Path A, up to the system directory: 0 where the code goes on to path B.\<close>

definition system_dir :: "'w obey_env \<Rightarrow> u32 option" where
  "system_dir env =
     (let boot_sin = root_sin (e_fc env) nm_Boot
      in if boot_sin = 0 then Some 0
         else do {
           res \<leftarrow> find_dir env boot_sin nm_Resources;
           case res of None \<Rightarrow> Some 0
           | Some res_sin \<Rightarrow> do {
               s1 \<leftarrow> find_dir env res_sin (0x21 # nm_System);
               case s1 of Some s \<Rightarrow> Some s
               | None \<Rightarrow> do {
                   s2 \<leftarrow> find_dir env res_sin nm_System;
                   Some (case s2 of Some s \<Rightarrow> s | None \<Rightarrow> 0)
                 }
             }
         })"

definition filecore_step6_load_module :: "'w obey_env \<Rightarrow> geometry \<Rightarrow> 'w modules \<Rightarrow> 'w \<Rightarrow> (nat \<times> 'w modules \<times> 'w) option" where
  "filecore_step6_load_module env g ms w = do {
     sys_sin \<leftarrow> system_dir env;
     (loaded, ms, w) \<leftarrow>
       (if sys_sin = 0 then Some (0, ms, w)
        else do {
          (n, ms, w) \<leftarrow> fc_try_load_modules_from_dir env g sys_sin ms w;
          md \<leftarrow> find_dir env sys_sin nm_Modules;
          case md of None \<Rightarrow> Some (n, ms, w)
          | Some s \<Rightarrow> do { (k, ms, w) \<leftarrow> fc_try_load_modules_from_dir env g s ms w; Some (n + k, ms, w) }
        });
     let lanman_sin = root_sin (e_fc env) nm_LanMan98;
     if lanman_sin = 0 then Some (loaded, ms, w)
     else do { (k, ms, w) \<leftarrow> fc_try_load_modules_from_dir env g lanman_sin ms w; Some (loaded + k, ms, w) }
   }"

text \<open>
  \<open>filecore_list_root\<close>: the root directory is mounted, the script \<open>$.!Boot.Choices.Boot.PreDesk\<close> is
  run and the modules are loaded. The new disc state is part of the result.
\<close>

definition predesk :: bytes where
  "predesk = [0x24, 0x2E, 0x21, 0x42, 0x6F, 0x6F, 0x74, 0x2E, 0x43, 0x68, 0x6F, 0x69, 0x63, 0x65, 0x73, 0x2E,
     0x42, 0x6F, 0x6F, 0x74, 0x2E, 0x50, 0x72, 0x65, 0x44, 0x65, 0x73, 0x6B]"

definition run_predesk :: "'w obey_env \<Rightarrow> 'w obey \<Rightarrow> 'w obey option" where
  "run_predesk env st = do {
     f \<leftarrow> fs_file env predesk;
     case f of None \<Rightarrow> Some st
     | Some (ent, fbuf) \<Rightarrow> filecore_exec_obey env 0 fbuf (ucast (d_size ent)) st
   }"

definition filecore_list_root :: "'w obey_env \<Rightarrow> 'w obey \<Rightarrow> (fc_state \<times> 'w obey) option" where
  "filecore_list_root env st =
     (if g_fc_bdev (e_fc env) = None then Some (e_fc env, st)
      else do {
        g \<leftarrow> disc_geometry (e_fc env);
        case e_km env 512 of None \<Rightarrow> Some (e_fc env, st)
        | Some _ \<Rightarrow> do {
            fc \<leftarrow> mount_root (e_km env) (e_devs env) (e_fc env);
            let env = env\<lparr>e_fc := fc\<rparr>;
            if g_root_cache_valid fc \<and> g_root_cache fc \<noteq> [] then do {
              st \<leftarrow> run_predesk env st;
              (n, ms, w) \<leftarrow> filecore_step6_load_module env g (o_mods st) (o_world st);
              Some (fc, st\<lparr>o_mods := ms, o_world := w\<rparr>)
            } else Some (fc, st)
          }
      })"

text \<open>The callback by which the virtual file system mounts the disc.\<close>

definition filecore_vfs_mount :: "'w obey_env \<Rightarrow> 'w obey \<Rightarrow> (int \<times> fc_state \<times> 'w obey) option" where
  "filecore_vfs_mount env st = do {
     fc \<leftarrow> filecore_init (e_km env) (e_devs env) (e_fc env);
     (fc, st) \<leftarrow> filecore_list_root (env\<lparr>e_fc := fc\<rparr>) st;
     Some (0, fc, st)
   }"

section \<open>Commands\<close>

text \<open>A word of a command line.\<close>

definition word :: "bytes \<Rightarrow> bool" where
  "word s \<longleftrightarrow> s \<noteq> [] \<and> list_all (\<lambda>c. \<not> is_sp c) s"

lemma copy_word_word:
  assumes "word s" "length s < k"
  shows "ob_copy_word (s @ 0x20 # r) k = (s, 0x20 # r)" "ob_copy_word s k = (s, [])"
proof -
  have "takeWhile (\<lambda>c. \<not> is_sp c) (s @ 0x20 # r) = s"
    using assms(1) by (subst takeWhile_append2) (auto simp: word_def list_all_iff is_sp_def)
  then show "ob_copy_word (s @ 0x20 # r) k = (s, 0x20 # r)" using assms(2) by (simp add: ob_copy_word_def Let_def)
  have "length (takeWhile (\<lambda>c. \<not> is_sp c) s) = length s"
    using assms(1) by (metis (no_types, lifting) word_def list_all_iff takeWhile_eq_all_conv)
  then show "ob_copy_word s k = (s, [])" using assms(2) by (simp add: ob_copy_word_def Let_def)
qed

lemma skip_sp_word: "word s \<Longrightarrow> ob_skip_sp (s @ r) = s @ r" "ob_skip_sp (0x20 # x) = ob_skip_sp x"
  by (cases s; simp add: word_def ob_skip_sp_def is_sp_def)+

text \<open>A line that starts with a keyword and a space.\<close>

lemma obey_parse_keyword:
  assumes "word cmd" "length cmd < 48" "hd cmd \<noteq> 0x7C" "hd cmd \<noteq> 0x2A"
  shows "obey_parse (cmd @ 0x20 # r) =
    (let rest = ob_skip_sp r
     in if ob_kw_eq cmd kw_Set then SetVar (fst (ob_copy_word rest OBEY_VAR_NLEN)) (ob_skip_sp (snd (ob_copy_word rest OBEY_VAR_NLEN)))
        else if ob_kw_eq cmd kw_Unset then Nothing
        else if ob_kw_eq cmd kw_RMLoad then RMLoad rest
        else if ob_kw_eq cmd kw_RMEnsure then
          RMEnsure (ob_skip_sp (snd (ob_copy_word (ob_skip_sp (snd (ob_copy_word rest 48))) 16)))
        else if ob_kw_eq cmd kw_IfThere then
          IfThere (fst (ob_copy_word rest 256)) (ob_skip_sp (snd (ob_copy_word (ob_skip_sp (snd (ob_copy_word rest 256))) 8)))
        else if ob_kw_eq cmd kw_Run then Run rest
        else Nothing)"
proof -
  have "cmd @ 0x20 # r \<noteq> []" "hd (cmd @ 0x20 # r) \<noteq> 0x7C" "hd (cmd @ 0x20 # r) \<noteq> 0x2A"
    using assms by (cases cmd; simp add: word_def)+
  then show ?thesis
    using copy_word_word(1) [OF assms(1,2), of r]
    by (simp add: obey_parse_def Let_def skip_sp_word(1) [OF assms(1)] skip_sp_word(2) split_beta)
qed

lemma ob_kw_eq_refl [simp]: "ob_kw_eq k k"
  by (induction k) auto

text \<open>The table of variables: at most 64, of distinct names that fit their field.\<close>

definition vars_ok :: "obey_vars \<Rightarrow> bool" where
  "vars_ok vs \<longleftrightarrow> distinct (map fst vs) \<and> length vs \<le> OBEY_VAR_MAX \<and> list_all (\<lambda>(n, v). length n < OBEY_VAR_NLEN \<and> length v < OBEY_VAR_VLEN) vs"

lemma var_assign_None: "var_assign nm v vs = None \<longleftrightarrow> nm \<notin> fst ` set vs"
  by (induction nm v vs rule: var_assign.induct) auto

lemma var_assign_Some:
  "var_assign nm v vs = Some vs' \<Longrightarrow> map fst vs' = map fst vs \<and> map_of vs' = (map_of vs)(nm \<mapsto> take (OBEY_VAR_VLEN - 1) v) \<and>
     set vs' \<subseteq> insert (nm, take (OBEY_VAR_VLEN - 1) v) (set vs)"
proof (induction nm v vs arbitrary: vs' rule: var_assign.induct)
  case (2 nm v n u vs)
  then show ?case by (auto simp: fun_upd_twist split: if_splits)
qed simp

lemma obey_var_set_ok:
  assumes "vars_ok vs" "length nm < OBEY_VAR_NLEN"
  shows "vars_ok (obey_var_set nm v vs)"
    "nm \<in> fst ` set vs \<or> length vs < OBEY_VAR_MAX \<Longrightarrow> map_of (obey_var_set nm v vs) = (map_of vs)(nm \<mapsto> take (OBEY_VAR_VLEN - 1) v)"
proof -
  have tn: "take (OBEY_VAR_NLEN - Suc 0) nm = nm" using assms(2) by (simp add: OBEY_VAR_NLEN_def)
  have tv: "length (take (OBEY_VAR_VLEN - Suc 0) v) < OBEY_VAR_VLEN" by (simp add: OBEY_VAR_VLEN_def)
  show "vars_ok (obey_var_set nm v vs)"
  proof (cases "var_assign nm v vs")
    case None
    then have "nm \<notin> fst ` set vs" by (simp add: var_assign_None)
    then show ?thesis using None assms tn tv by (auto simp: obey_var_set_def vars_ok_def)
  next
    case (Some vs')
    from var_assign_Some [OF this] have f: "map fst vs' = map fst vs" and
      s: "set vs' \<subseteq> insert (nm, take (OBEY_VAR_VLEN - Suc 0) v) (set vs)" by simp_all
    have "length vs' = length vs" using f by (metis length_map)
    then show ?thesis using Some assms f s tv by (force simp: obey_var_set_def vars_ok_def list_all_iff)
  qed
  assume "nm \<in> fst ` set vs \<or> length vs < OBEY_VAR_MAX"
  then show "map_of (obey_var_set nm v vs) = (map_of vs)(nm \<mapsto> take (OBEY_VAR_VLEN - 1) v)"
  proof (cases "var_assign nm v vs")
    case None
    then have n: "nm \<notin> fst ` set vs" by (simp add: var_assign_None)
    then have "map_of vs nm = None" by (simp add: map_of_eq_None_iff)
    then have "map_of (vs @ [(nm, x)]) = (map_of vs)(nm \<mapsto> x)" for x by (auto simp: fun_eq_iff map_add_def split: option.splits)
    moreover have "length vs < OBEY_VAR_MAX" using n \<open>nm \<in> fst ` set vs \<or> length vs < OBEY_VAR_MAX\<close> by blast
    ultimately show ?thesis using None tn by (simp add: obey_var_set_def)
  next
    case (Some vs')
    then show ?thesis using var_assign_Some [OF Some] by (simp add: obey_var_set_def)
  qed
qed

text \<open>
  The line \<open>Set name value\<close> binds the variable to the value, cut to 127 characters, leaves all
  other variables as they were and keeps the table well formed, as long as the table has room or
  the variable exists.
\<close>

theorem obey_set_line:
  assumes "word nm" "length nm < OBEY_VAR_NLEN" "ob_skip_sp v = v" "vars_ok (o_vars st)"
    and "nm \<in> fst ` set (o_vars st) \<or> length (o_vars st) < OBEY_VAR_MAX"
  shows "\<exists>vs. obey_exec_line env depth (kw_Set @ 0x20 # nm @ 0x20 # v) st = Some (st\<lparr>o_vars := vs\<rparr>) \<and> vars_ok vs \<and>
    map_of vs = (map_of (o_vars st))(nm \<mapsto> take 127 v)"
proof -
  have w: "word kw_Set" "length kw_Set < 48" "hd kw_Set \<noteq> 0x7C" "hd kw_Set \<noteq> 0x2A"
    by (simp_all add: kw_Set_def word_def is_sp_def)
  have "obey_parse (kw_Set @ 0x20 # nm @ 0x20 # v) = SetVar nm v"
    using obey_parse_keyword [OF w, of "nm @ 0x20 # v"] copy_word_word(1) [OF assms(1,2), of v] skip_sp_word(1) [OF assms(1)] skip_sp_word(2) assms(3)
    by simp
  then show ?thesis
    using obey_var_set_ok [OF assms(4,2), of v] assms(5)
    by (intro exI [of _ "obey_var_set nm v (o_vars st)"], subst obey_exec_line.simps) (simp add: OBEY_VAR_VLEN_def)
qed

definition bare_env :: "unit obey_env" where
  "bare_env = \<lparr>e_km = \<lambda>n. None, e_devs = [], e_fc = fc_boot\<lparr>g_root_cache := [leaf VFS_DIRENT_FILE 0x600 [0x41]], g_root_cache_valid := True\<rparr>,
     e_code = \<lambda>img e a b w. (0, w)\<rparr>"

theorem obey_set_line_witness:
  "\<exists>vs. obey_exec_line bare_env 0 (kw_Set @ 0x20 # [0x41] @ 0x20 # [0x42, 0x20, 0x43]) \<lparr>o_vars = [([0x41], [])], o_mods = [], o_world = ()\<rparr>
     = Some \<lparr>o_vars = vs, o_mods = [], o_world = ()\<rparr> \<and> map_of vs [0x41] = Some [0x42, 0x20, 0x43]"
  using obey_set_line [of "[0x41]" "[0x42, 0x20, 0x43]" "\<lparr>o_vars = [([0x41], [])], o_mods = [], o_world = ()\<rparr>" bare_env 0]
  by (auto simp: word_def is_sp_def ob_skip_sp_def vars_ok_def OBEY_VAR_NLEN_def OBEY_VAR_MAX_def OBEY_VAR_VLEN_def)

text \<open>
  \<open>IfThere path Then command\<close> runs the command exactly when the path exists.
\<close>

theorem obey_ifthere_line:
  assumes "word p" "length p < 256" "ob_skip_sp c = c" "c \<noteq> []" "fs_find env p = Some r"
  shows "obey_exec_line env depth (kw_IfThere @ 0x20 # p @ 0x20 # [0x54, 0x68, 0x65, 0x6E] @ 0x20 # c) st =
    (if r = None then Some st else obey_exec_line env depth c st)"
proof -
  have w: "word kw_IfThere" "length kw_IfThere < 48" "hd kw_IfThere \<noteq> 0x7C" "hd kw_IfThere \<noteq> 0x2A"
    by (simp_all add: kw_IfThere_def word_def is_sp_def)
  have k: "\<not> ob_kw_eq kw_IfThere kw_Set" "\<not> ob_kw_eq kw_IfThere kw_Unset" "\<not> ob_kw_eq kw_IfThere kw_RMLoad" "\<not> ob_kw_eq kw_IfThere kw_RMEnsure"
    by (simp_all add: kw_IfThere_def kw_Set_def kw_Unset_def kw_RMLoad_def kw_RMEnsure_def upper_def)
  have t: "word [0x54, 0x68, 0x65, 0x6E]" by (simp add: word_def is_sp_def)
  have "obey_parse (kw_IfThere @ 0x20 # p @ 0x20 # [0x54, 0x68, 0x65, 0x6E] @ 0x20 # c) = IfThere p c"
    using obey_parse_keyword [OF w, of "p @ 0x20 # [0x54, 0x68, 0x65, 0x6E] @ 0x20 # c"] k copy_word_word(1) [OF assms(1,2)]
      copy_word_word(1) [OF t, of 8 c] skip_sp_word(1) [OF assms(1)] skip_sp_word(1) [OF t] skip_sp_word(2) assms(3)
    by simp
  then show ?thesis using assms(4,5) by (subst obey_exec_line.simps) auto
qed

theorem obey_ifthere_line_witness:
  "let st = \<lparr>o_vars = [], o_mods = [], o_world = ()\<rparr>
   in obey_exec_line bare_env 0 (kw_IfThere @ 0x20 # [0x41] @ 0x20 # [0x54, 0x68, 0x65, 0x6E] @ 0x20 # kw_Set) st = Some (st\<lparr>o_vars := [([], [])]\<rparr>) \<and>
      obey_exec_line bare_env 0 (kw_IfThere @ 0x20 # [0x42] @ 0x20 # [0x54, 0x68, 0x65, 0x6E] @ 0x20 # kw_Set) st = Some st"
proof -
  let ?st = "\<lparr>o_vars = [], o_mods = [], o_world = ()\<rparr>"
  have f: "fs_find bare_env [0x41] = Some (Some (leaf VFS_DIRENT_FILE 0x600 [0x41]))" "fs_find bare_env [0x42] = Some None"
    by (simp_all add: fs_find_def bare_env_def filecore_find_path_def strip_prefix_def next_component_def leaf_def walk_path.simps)
  have w: "word [0x41]" "word [0x42]" "ob_skip_sp kw_Set = kw_Set" "kw_Set \<noteq> []"
    by (simp_all add: word_def is_sp_def ob_skip_sp_def kw_Set_def)
  have p: "obey_parse kw_Set = SetVar [] []"
    by (simp add: obey_parse_def kw_Set_def ob_skip_sp_def is_sp_def ob_copy_word_def)
  have "obey_exec_line bare_env 0 kw_Set ?st = Some (?st\<lparr>o_vars := [([], [])]\<rparr>)"
    using p by (subst obey_exec_line.simps) (simp add: obey_var_set_def OBEY_VAR_MAX_def)
  then show ?thesis
    using obey_ifthere_line [OF w(1) _ w(3,4) f(1), of 0 ?st] obey_ifthere_line [OF w(2) _ w(3,4) f(2), of 0 ?st]
    unfolding Let_def by simp
qed

text \<open>
  A line is cut after 255 characters and what follows is taken for a line of its own: the end
  of a long comment is executed as a command.
\<close>

theorem obey_long_comment_executed:
  assumes "length txt = 254" "list_all (\<lambda>c. c \<noteq> 0x0A \<and> c \<noteq> 0x0D \<and> c \<noteq> 0) (txt @ cmd)" "length cmd \<le> 255" "cmd \<noteq> []"
  shows "exec_lines env depth (0x7C # txt @ cmd) st = obey_exec_line env depth cmd st"
proof -
  have tw: "takeWhile (\<lambda>c. c \<noteq> 0x0A \<and> c \<noteq> 0x0D) (0x7C # txt @ cmd) = 0x7C # txt @ cmd"
    "takeWhile (\<lambda>c. c \<noteq> 0x0A \<and> c \<noteq> 0x0D) cmd = cmd" "dropWhile (\<lambda>c. c = 0x0A \<or> c = 0x0D) cmd = cmd"
    using assms(2,4) by (auto simp: list_all_iff takeWhile_eq_all_conv dropWhile_eq_self_iff)
  have c: "cstr (0x7C # txt) = 0x7C # txt" "cstr cmd = cmd" using assms(2) by (auto simp: cstr_def list_all_iff takeWhile_eq_all_conv)
  have s1: "split_line (0x7C # txt @ cmd) = (0x7C # txt, cmd)"
    unfolding split_line_def tw Let_def using assms(1) tw(3) by simp
  have s2: "split_line cmd = (cmd, [])" unfolding split_line_def tw Let_def using assms(3) by simp
  have "obey_parse (0x7C # txt) = Nothing" by (simp add: obey_parse_def ob_skip_sp_def is_sp_def)
  then have "obey_exec_line env depth (0x7C # txt) st = Some st" by (subst obey_exec_line.simps) simp
  moreover have "exec_lines env depth cmd st = obey_exec_line env depth cmd st"
    using assms(4) s2 c(2) by (subst exec_lines.simps) (simp add: exec_lines.simps [of _ _ "[]"] bind_rzero split: bind_split)
  ultimately show ?thesis using s1 c(1) by (subst exec_lines.simps) simp
qed

theorem obey_long_comment_executed_witness:
  "exec_lines bare_env 0 (0x7C # replicate 254 0x2D @ kw_Set) \<lparr>o_vars = [], o_mods = [], o_world = ()\<rparr> =
     Some \<lparr>o_vars = [([], [])], o_mods = [], o_world = ()\<rparr>"
proof -
  let ?st = "\<lparr>o_vars = [], o_mods = [], o_world = ()\<rparr>"
  have "obey_parse kw_Set = SetVar [] []"
    by (simp add: obey_parse_def kw_Set_def ob_skip_sp_def is_sp_def ob_copy_word_def)
  then have "obey_exec_line bare_env 0 kw_Set ?st = Some (?st\<lparr>o_vars := [([], [])]\<rparr>)"
    by (subst obey_exec_line.simps) (simp add: obey_var_set_def OBEY_VAR_MAX_def)
  moreover have "list_all (\<lambda>c. c \<noteq> 0x0A \<and> c \<noteq> 0x0D \<and> c \<noteq> 0) (replicate 254 (0x2D :: u8) @ kw_Set)"
    by (simp add: list_all_iff kw_Set_def)
  ultimately show ?thesis
    using obey_long_comment_executed [of "replicate 254 0x2D" kw_Set bare_env 0 ?st] by (simp add: kw_Set_def)
qed

section \<open>Every script ends\<close>

text \<open>A file system and a module loader that never fault.\<close>

definition env_safe :: "'w obey_env \<Rightarrow> bool" where
  "env_safe env \<longleftrightarrow> (\<forall>p. fs_find env p \<noteq> None) \<and>
     (\<forall>p. \<exists>f. fs_file env p = Some f \<and> (case f of None \<Rightarrow> True | Some (ent, buf) \<Rightarrow> unat (ucast (d_size ent) :: u32) \<le> length buf)) \<and>
     (\<forall>p st. obey_rmload env p st \<noteq> None)"

lemma exec_total:
  "env_safe env \<Longrightarrow> obey_exec_line env d line st \<noteq> None" "env_safe env \<Longrightarrow> exec_lines env d bs st \<noteq> None"
proof (induction env d line st and env d bs st rule: obey_exec_line_exec_lines.induct)
  case (1 env depth line st)
  have f: "\<exists>r. fs_find env p = Some r" for p using 1(4) by (auto simp: env_safe_def)
  have g: "\<exists>f. fs_file env p = Some f \<and> (case f of None \<Rightarrow> True | Some (ent, buf) \<Rightarrow> unat (ucast (d_size ent) :: u32) \<le> length buf)" for p
    using 1(4) by (auto simp: env_safe_def)
  show ?case
  proof (cases "obey_parse line")
    case (RMLoad p)
    then show ?thesis using 1(4) by (subst obey_exec_line.simps) (auto simp: env_safe_def)
  next
    case (RMEnsure p)
    then show ?thesis using 1(1) [OF RMEnsure] 1(4) by (subst obey_exec_line.simps) auto
  next
    case (IfThere p c)
    obtain r where "fs_find env p = Some r" using f by blast
    then show ?thesis using 1(2) [OF IfThere] 1(4) IfThere by (subst obey_exec_line.simps) auto
  next
    case (Run p)
    show ?thesis
    proof (cases "depth \<ge> 3")
      case True
      then show ?thesis using Run by (subst obey_exec_line.simps) simp
    next
      case False
      obtain h where h: "fs_file env p = Some h" "case h of None \<Rightarrow> True | Some (ent, buf) \<Rightarrow> unat (ucast (d_size ent) :: u32) \<le> length buf"
        using g by blast
      then show ?thesis using Run False 1(3) [OF Run False h(1)] 1(4)
        by (subst obey_exec_line.simps) (auto split: option.splits)
    qed
  qed (subst obey_exec_line.simps, simp)+
next
  case (2 env depth bs st)
  then show ?case by (cases "bs = []") (subst exec_lines.simps, auto split: bind_splits)+
qed



end
