(* ===== verification/Sched.thy ===== *)
theory Sched
  imports Linked
begin

text \<open>
  kernel/sched.c, and \<open>task_create\<close> of kernel/task.c: the run queue of each CPU, a doubly linked
  list threaded through the task structures, the choice of the next task and the switch to it. A
  task pointer is an index of the list of all task structures, of which the first \<open>MAX_CPUS\<close> are
  the static idle tasks. The spin locks keep the operations apart and are not represented; an
  interprocessor interrupt changes no state here. A switch saves the stack pointer the hardware
  has at that moment, an argument.
\<close>

section \<open>State\<close>

datatype task_state = TASK_RUNNING | TASK_READY | TASK_BLOCKED | TASK_ZOMBIE

record task =
  pid :: int
  priority :: int
  tstate :: task_state
  cpu_affinity :: u64
  started :: bool
  stack_top :: u64
  sp_el0 :: u64
  elr_el1 :: u64
  t_next :: "nat option"
  t_prev :: "nat option"

record cpu_sched =
  current :: "nat option"
  idle_task :: "nat option"
  runqueue_head :: "nat option"
  runqueue_tail :: "nat option"
  schedule_count :: u64

text \<open>\<open>current_task\<close> is one variable, shared by all CPUs.\<close>

record sched =
  tasks :: "task list"
  cpus :: "cpu_sched list"
  current_task :: "nat option"
  next_pid :: int

definition MAX_CPUS :: nat where "MAX_CPUS = 8"
definition TASK_MIN_PRIORITY :: int where "TASK_MIN_PRIORITY = 0"
definition TASK_MAX_PRIORITY :: int where "TASK_MAX_PRIORITY = 255"

definition zero_task :: task where
  "zero_task = \<lparr>pid = 0, priority = 0, tstate = TASK_RUNNING, cpu_affinity = 0, started = False, stack_top = 0, sp_el0 = 0, elr_el1 = 0,
     t_next = None, t_prev = None\<rparr>"

definition zero_cpu :: cpu_sched where
  "zero_cpu = \<lparr>current = None, idle_task = None, runqueue_head = None, runqueue_tail = None, schedule_count = 0\<rparr>"

definition sched_boot :: sched where
  "sched_boot = \<lparr>tasks = replicate MAX_CPUS zero_task, cpus = replicate MAX_CPUS zero_cpu, current_task = None, next_pid = 1\<rparr>"

definition upd_task :: "nat \<Rightarrow> (task \<Rightarrow> task) \<Rightarrow> sched \<Rightarrow> sched" where
  "upd_task t f s = s\<lparr>tasks := (tasks s)[t := f (tasks s ! t)]\<rparr>"

definition upd_cpu :: "nat \<Rightarrow> (cpu_sched \<Rightarrow> cpu_sched) \<Rightarrow> sched \<Rightarrow> sched" where
  "upd_cpu c f s = s\<lparr>cpus := (cpus s)[c := f (cpus s ! c)]\<rparr>"

section \<open>Operations\<close>

definition sched_init :: "nat \<Rightarrow> sched \<Rightarrow> sched" where
  "sched_init nr_cpus s = s\<lparr>cpus := map (\<lambda>i. if i < nr_cpus then zero_cpu else cpus s ! i) [0..<length (cpus s)]\<rparr>"

definition enqueue_task :: "nat \<Rightarrow> nat \<Rightarrow> sched \<Rightarrow> sched" where
  "enqueue_task c t s =
     (let tail_ptr = runqueue_tail (cpus s ! c);
          s = upd_task t (\<lambda>x. x\<lparr>t_next := None, t_prev := tail_ptr\<rparr>) s;
          s = (case tail_ptr of
                 Some y \<Rightarrow> upd_task y (\<lambda>x. x\<lparr>t_next := Some t\<rparr>) s
               | None \<Rightarrow> upd_cpu c (\<lambda>x. x\<lparr>runqueue_head := Some t\<rparr>) s);
          s = upd_cpu c (\<lambda>x. x\<lparr>runqueue_tail := Some t\<rparr>) s
      in upd_task t (\<lambda>x. x\<lparr>tstate := TASK_READY\<rparr>) s)"

definition dequeue_task :: "nat \<Rightarrow> nat \<Rightarrow> sched \<Rightarrow> sched" where
  "dequeue_task c t s =
     (let x = tasks s ! t;
          s = (case t_prev x of
                 Some y \<Rightarrow> upd_task y (\<lambda>z. z\<lparr>t_next := t_next x\<rparr>) s
               | None \<Rightarrow> upd_cpu c (\<lambda>z. z\<lparr>runqueue_head := t_next x\<rparr>) s);
          s = (case t_next x of
                 Some y \<Rightarrow> upd_task y (\<lambda>z. z\<lparr>t_prev := t_prev x\<rparr>) s
               | None \<Rightarrow> upd_cpu c (\<lambda>z. z\<lparr>runqueue_tail := t_prev x\<rparr>) s)
      in upd_task t (\<lambda>z. z\<lparr>t_next := None, t_prev := None\<rparr>) s)"

text \<open>The static idle task of a CPU; \<open>entry\<close> and \<open>stack\<close> are the addresses of its code and stack.\<close>

definition sched_init_cpu :: "u64 \<Rightarrow> u64 \<Rightarrow> nat \<Rightarrow> sched \<Rightarrow> sched" where
  "sched_init_cpu entry stack c s =
     (let s = upd_task c (\<lambda>x. x\<lparr>pid := 0, priority := TASK_MIN_PRIORITY, tstate := TASK_READY, cpu_affinity := push_bit c 1,
                started := False, stack_top := stack, elr_el1 := entry\<rparr>) s;
          s = upd_cpu c (\<lambda>x. x\<lparr>idle_task := Some c\<rparr>) s
      in enqueue_task c c s)"

text \<open>The walk along the queue, with the best task so far and its priority: \<open>None\<close> if it does not end.\<close>

definition prefer_task :: "task list \<Rightarrow> nat \<Rightarrow> nat option \<times> int \<Rightarrow> nat option \<times> int" where
  "prefer_task ts t b = (if tstate (ts ! t) = TASK_READY \<and> priority (ts ! t) > snd b then (Some t, priority (ts ! t)) else b)"

partial_function (option) pick_walk :: "task list \<Rightarrow> nat option \<times> int \<Rightarrow> nat option \<Rightarrow> nat option option" where
  "pick_walk ts b p = (case p of None \<Rightarrow> Some (fst b) | Some t \<Rightarrow> pick_walk ts (prefer_task ts t b) (t_next (ts ! t)))"

declare pick_walk.simps [code]

definition pick_next_task :: "nat \<Rightarrow> sched \<Rightarrow> nat option option" where
  "pick_next_task c s = do {
     best \<leftarrow> pick_walk (tasks s) (None, - 1) (runqueue_head (cpus s ! c));
     Some (if best \<noteq> None then best else idle_task (cpus s ! c))
   }"

text \<open>How the next task is entered: from its start, or where it was left.\<close>

datatype switch = Same | Launch nat | Resume nat

definition context_switch :: "u64 \<Rightarrow> nat option \<Rightarrow> nat \<Rightarrow> sched \<Rightarrow> switch \<times> sched" where
  "context_switch stack prev t s =
     (if prev = Some t then (Same, s)
      else
        let s = (case prev of None \<Rightarrow> s | Some p \<Rightarrow> upd_task p (\<lambda>x. x\<lparr>stack_top := stack, started := True\<rparr>) s)
        in (if \<not> started (tasks s ! t) then Launch t else Resume t, s))"

definition schedule :: "u64 \<Rightarrow> nat \<Rightarrow> sched \<Rightarrow> (switch \<times> sched) option" where
  "schedule stack c s =
     (let prev = current (cpus s ! c);
          s = (case prev of None \<Rightarrow> s
               | Some p \<Rightarrow> if tstate (tasks s ! p) = TASK_RUNNING then upd_task p (\<lambda>x. x\<lparr>tstate := TASK_READY\<rparr>) s else s)
      in do {
        nxt \<leftarrow> pick_next_task c s;
        let s = (case nxt of None \<Rightarrow> s
                 | Some t \<Rightarrow> (upd_cpu c (\<lambda>x. x\<lparr>current := Some t\<rparr>) (upd_task t (\<lambda>x. x\<lparr>tstate := TASK_RUNNING\<rparr>) s))\<lparr>current_task := Some t\<rparr>);
        let s = upd_cpu c (\<lambda>x. x\<lparr>schedule_count := schedule_count x + 1\<rparr>) s;
        if prev \<noteq> nxt then (case nxt of None \<Rightarrow> None | Some t \<Rightarrow> Some (context_switch stack prev t s))
        else Some (Same, s)
      })"

definition task_block :: "u64 \<Rightarrow> nat \<Rightarrow> task_state \<Rightarrow> sched \<Rightarrow> (switch \<times> sched) option" where
  "task_block stack c st s =
     (case current_task s of None \<Rightarrow> Some (Same, s)
      | Some t \<Rightarrow> schedule stack c (upd_task t (\<lambda>x. x\<lparr>tstate := st\<rparr>) s))"

definition task_wakeup :: "nat option \<Rightarrow> sched \<Rightarrow> sched" where
  "task_wakeup t s =
     (case t of None \<Rightarrow> s
      | Some t \<Rightarrow> if tstate (tasks s ! t) = TASK_BLOCKED then upd_task t (\<lambda>x. x\<lparr>tstate := TASK_READY\<rparr>) s else s)"

text \<open>
  \<open>task_create\<close> with the addresses its allocations return (\<open>None\<close> when one fails): the new
  structure is a new index. The task is queued on the lowest CPU of its affinity.
\<close>

definition ctz :: "u64 \<Rightarrow> nat" where
  "ctz a = (case find (bit a) [0..<64] of Some i \<Rightarrow> i | None \<Rightarrow> 64)"

definition KERNEL_STACK_SIZE :: u64 where "KERNEL_STACK_SIZE = 32 * 1024"
definition USER_STACK_SIZE :: u64 where "USER_STACK_SIZE = 8 * 1024 * 1024"

definition task_create :: "(nat \<Rightarrow> u64 option) \<Rightarrow> nat \<Rightarrow> u64 \<Rightarrow> int \<Rightarrow> u64 \<Rightarrow> sched \<Rightarrow> nat option \<times> sched" where
  "task_create alloc this_cpu entry prio aff s =
     (if entry = 0 then (None, s)
      else case (alloc 0, alloc 1, if entry \<ge> 0x40000000 then alloc 2 else Some 0) of
        (Some _, Some kernel_stack, Some user_stack) \<Rightarrow>
          let t = length (tasks s);
              a = (if aff \<noteq> 0 then aff else push_bit this_cpu 1);
              x = zero_task\<lparr>pid := next_pid s + 1, priority := prio, tstate := TASK_READY, cpu_affinity := a,
                    stack_top := kernel_stack + KERNEL_STACK_SIZE,
                    sp_el0 := (if entry \<ge> 0x40000000 then user_stack + USER_STACK_SIZE else 0), elr_el1 := entry\<rparr>;
              c = (if ctz a \<ge> MAX_CPUS then 0 else ctz a)
          in (Some t, enqueue_task c t (s\<lparr>tasks := tasks s @ [x], next_pid := next_pid s + 1\<rparr>))
      | _ \<Rightarrow> (None, s))"

section \<open>The run queues\<close>

text \<open>
  The abstract state of the queues: for each CPU the list of its tasks. Every task is in one queue
  only, the idle task of a CPU that has one and its current task are in its queue, and a task that
  is running is the current one of its CPU.
\<close>

definition tnext :: "sched \<Rightarrow> nat \<Rightarrow> nat option" where "tnext s t = t_next (tasks s ! t)"
definition tprev :: "sched \<Rightarrow> nat \<Rightarrow> nat option" where "tprev s t = t_prev (tasks s ! t)"

definition cpu_ok :: "nat list \<Rightarrow> nat \<Rightarrow> sched \<Rightarrow> bool" where
  "cpu_ok q c s \<longleftrightarrow> dll (tnext s) (tprev s) (runqueue_head (cpus s ! c)) (runqueue_tail (cpus s ! c)) q \<and>
     (\<forall>i. idle_task (cpus s ! c) = Some i \<longrightarrow> i = c \<and> i \<in> set q) \<and>
     (\<forall>i. current (cpus s ! c) = Some i \<longrightarrow> i \<in> set q) \<and>
     (\<forall>t \<in> set q. tstate (tasks s ! t) = TASK_RUNNING \<longrightarrow> current (cpus s ! c) = Some t)"

definition queues :: "nat list list \<Rightarrow> sched \<Rightarrow> bool" where
  "queues qs s \<longleftrightarrow> length (cpus s) = MAX_CPUS \<and> length qs = MAX_CPUS \<and> MAX_CPUS \<le> length (tasks s) \<and>
     distinct (concat qs) \<and> (\<forall>t \<in> set (concat qs). t < length (tasks s)) \<and>
     (\<forall>c < MAX_CPUS. idle_task (cpus s ! c) = None \<longrightarrow> c \<notin> set (concat qs)) \<and>
     (\<forall>t. current_task s = Some t \<longrightarrow> t \<in> set (concat qs)) \<and>
     (\<forall>c < MAX_CPUS. cpu_ok (qs ! c) c s)"

definition sched_inv :: "sched \<Rightarrow> bool" where
  "sched_inv s \<longleftrightarrow> (\<exists>qs. queues qs s)"

section \<open>Lemmas on the updates\<close>

lemma upd_task_sel [simp]:
  "cpus (upd_task t f s) = cpus s" "current_task (upd_task t f s) = current_task s" "next_pid (upd_task t f s) = next_pid s"
  "length (tasks (upd_task t f s)) = length (tasks s)"
  "tasks (upd_task t f s) ! u = (if u = t \<and> t < length (tasks s) then f (tasks s ! u) else tasks s ! u)"
  by (auto simp: upd_task_def nth_list_update list_update_beyond not_less)

lemma upd_cpu_sel [simp]:
  "tasks (upd_cpu c g s) = tasks s" "current_task (upd_cpu c g s) = current_task s" "next_pid (upd_cpu c g s) = next_pid s"
  "length (cpus (upd_cpu c g s)) = length (cpus s)"
  "cpus (upd_cpu c g s) ! d = (if d = c \<and> c < length (cpus s) then g (cpus s ! d) else cpus s ! d)"
  by (auto simp: upd_cpu_def nth_list_update list_update_beyond not_less)

text \<open>An update that keeps the links, the queue ends and the idle tasks keeps the queues.\<close>

lemma queues_update:
  assumes "queues qs s" "length (tasks s') = length (tasks s)" "length (cpus s') = length (cpus s)"
    and "\<And>t. t_next (tasks s' ! t) = t_next (tasks s ! t) \<and> t_prev (tasks s' ! t) = t_prev (tasks s ! t)"
    and "\<And>c. runqueue_head (cpus s' ! c) = runqueue_head (cpus s ! c) \<and> runqueue_tail (cpus s' ! c) = runqueue_tail (cpus s ! c) \<and>
          idle_task (cpus s' ! c) = idle_task (cpus s ! c)"
    and "\<And>t. current_task s' = Some t \<Longrightarrow> t \<in> set (concat qs)"
    and "\<And>c i. c < MAX_CPUS \<Longrightarrow> current (cpus s' ! c) = Some i \<Longrightarrow> i \<in> set (qs ! c)"
    and "\<And>c t. c < MAX_CPUS \<Longrightarrow> t \<in> set (qs ! c) \<Longrightarrow> tstate (tasks s' ! t) = TASK_RUNNING \<Longrightarrow> current (cpus s' ! c) = Some t"
  shows "queues qs s'"
proof -
  have "tnext s' = tnext s" "tprev s' = tprev s" using assms(4) by (auto simp: tnext_def tprev_def)
  moreover have "cpu_ok (qs ! c) c s" if "c < MAX_CPUS" for c using that assms(1) by (simp add: queues_def)
  ultimately have "cpu_ok (qs ! c) c s'" if "c < MAX_CPUS" for c
    using that assms(5,7,8) unfolding cpu_ok_def by (metis (no_types, lifting))
  then show ?thesis using assms(1-3,5,6) by (simp add: queues_def)
qed

lemma queues_cpu:
  assumes "queues qs s" "c < MAX_CPUS"
  shows "dll (tnext s) (tprev s) (runqueue_head (cpus s ! c)) (runqueue_tail (cpus s ! c)) (qs ! c)"
    "idle_task (cpus s ! c) = Some i \<Longrightarrow> i = c \<and> i \<in> set (qs ! c)" "current (cpus s ! c) = Some i \<Longrightarrow> i \<in> set (qs ! c)"
    "t \<in> set (qs ! c) \<Longrightarrow> tstate (tasks s ! t) = TASK_RUNNING \<Longrightarrow> current (cpus s ! c) = Some t"
    "t \<in> set (qs ! c) \<Longrightarrow> t < length (tasks s)" "c < length (cpus s)" "t \<in> set (qs ! c) \<Longrightarrow> t \<in> set (concat qs)"
proof -
  have q: "length (cpus s) = MAX_CPUS" "length qs = MAX_CPUS" "\<forall>c < MAX_CPUS. cpu_ok (qs ! c) c s"
    using assms(1) unfolding queues_def by argo+
  have ok: "cpu_ok (qs ! c) c s" "c < length qs" using q assms(2) by simp_all
  then show "dll (tnext s) (tprev s) (runqueue_head (cpus s ! c)) (runqueue_tail (cpus s ! c)) (qs ! c)"
    "idle_task (cpus s ! c) = Some i \<Longrightarrow> i = c \<and> i \<in> set (qs ! c)" "current (cpus s ! c) = Some i \<Longrightarrow> i \<in> set (qs ! c)"
    "t \<in> set (qs ! c) \<Longrightarrow> tstate (tasks s ! t) = TASK_RUNNING \<Longrightarrow> current (cpus s ! c) = Some t"
    unfolding cpu_ok_def by blast+
  show "t \<in> set (qs ! c) \<Longrightarrow> t \<in> set (concat qs)" using ok(2) by auto
  moreover have "\<forall>t \<in> set (concat qs). t < length (tasks s)" using assms(1) unfolding queues_def by argo
  ultimately show "t \<in> set (qs ! c) \<Longrightarrow> t < length (tasks s)" by (rule bspec [rotated])
  show "c < length (cpus s)" using assms(2) q(1) by simp
qed

lemma queues_current_task: "queues qs s \<Longrightarrow> current_task s = Some t \<Longrightarrow> t \<in> set (concat qs)"
proof -
  assume "queues qs s"
  then have "\<forall>t. current_task s = Some t \<longrightarrow> t \<in> set (concat qs)" unfolding queues_def by argo
  then show "current_task s = Some t \<Longrightarrow> t \<in> set (concat qs)" by blast
qed

text \<open>A task is in the queue of one CPU only.\<close>

lemma concat_disjoint:
  assumes "distinct (concat qs)" "c < length qs" "d < length qs" "t \<in> set (qs ! c)" "t \<in> set (qs ! d)"
  shows "c = d"
proof (rule ccontr)
  assume "c \<noteq> d"
  have "set (qs ! c) \<inter> set (qs ! d) = {}" if "c < d" "d < length qs" for c d
  proof -
    have "concat qs = concat (take d qs) @ concat (drop d qs)" by (metis append_take_drop_id concat_append)
    then have dis: "set (concat (take d qs)) \<inter> set (concat (drop d qs)) = {}" using assms(1) by (metis distinct_append)
    have "qs ! c \<in> set (take d qs)" using that(1,2) by (auto simp: in_set_conv_nth intro!: exI [of _ c])
    moreover have "qs ! d \<in> set (drop d qs)" using that(2) by (metis Cons_nth_drop_Suc list.set_intros(1))
    ultimately show ?thesis using dis by auto
  qed
  then show False using assms \<open>c \<noteq> d\<close> by (metis disjoint_iff linorder_neqE_nat)
qed

lemma queues_disjoint:
  assumes "queues qs s" "c < MAX_CPUS" "d < MAX_CPUS" "t \<in> set (qs ! c)" "t \<in> set (qs ! d)"
  shows "c = d"
proof -
  have "distinct (concat qs)" "length qs = MAX_CPUS" using assms(1) unfolding queues_def by argo+
  then show ?thesis using concat_disjoint assms(2-5) by metis
qed

section \<open>The choice of a task\<close>

lemma pick_walk_seg:
  "seg (tnext s) (tprev s) pr a q None l \<Longrightarrow> pick_walk (tasks s) b a = Some (fst (fold (prefer_task (tasks s)) q b))"
proof (induction q arbitrary: pr a b)
  case Nil
  then show ?case by (subst pick_walk.simps) simp
next
  case (Cons t q)
  have "pick_walk (tasks s) b (Some t) = pick_walk (tasks s) (prefer_task (tasks s) t b) (tnext s t)"
    by (subst pick_walk.simps) (simp add: tnext_def)
  then show ?case using Cons.prems Cons.IH [of "Some t" "tnext s t" "prefer_task (tasks s) t b"] by simp
qed

definition ready :: "task list \<Rightarrow> nat \<Rightarrow> bool" where
  "ready ts t \<longleftrightarrow> tstate (ts ! t) = TASK_READY \<and> 0 \<le> priority (ts ! t)"

text \<open>The first of the ready tasks of highest priority, in the order of the queue.\<close>

definition first_highest :: "task list \<Rightarrow> nat list \<Rightarrow> nat \<Rightarrow> bool" where
  "first_highest ts q t \<longleftrightarrow> (\<exists>xs ys. q = xs @ t # ys \<and> ready ts t \<and> (\<forall>u \<in> set xs. ready ts u \<longrightarrow> priority (ts ! u) < priority (ts ! t)) \<and>
     (\<forall>u \<in> set ys. ready ts u \<longrightarrow> priority (ts ! u) \<le> priority (ts ! t)))"

lemma fold_prefer:
  "case fold (prefer_task ts) q (None, - 1) of
     (None, bp) \<Rightarrow> bp = - 1 \<and> (\<forall>u \<in> set q. \<not> ready ts u)
   | (Some t, bp) \<Rightarrow> bp = priority (ts ! t) \<and> first_highest ts q t"
proof (induction q rule: rev_induct)
  case (snoc x q)
  obtain b bp where f: "fold (prefer_task ts) q (None, - 1) = (b, bp)" by force
  show ?case
  proof (cases b)
    case None
    then have "bp = - 1" "\<forall>u \<in> set q. \<not> ready ts u" using snoc f by auto
    moreover have "first_highest ts (q @ [x]) x" if "ready ts x"
      unfolding first_highest_def using that \<open>\<forall>u \<in> set q. \<not> ready ts u\<close> by (intro exI [of _ q] exI [of _ "[]"]) auto
    ultimately show ?thesis using f None by (auto simp: prefer_task_def [of ts x] ready_def [of ts x])
  next
    case (Some t)
    then have bp: "bp = priority (ts ! t)" and "first_highest ts q t" using snoc f by auto
    then obtain xs ys where q: "q = xs @ t # ys" "ready ts t" "\<forall>u \<in> set xs. ready ts u \<longrightarrow> priority (ts ! u) < priority (ts ! t)"
      "\<forall>u \<in> set ys. ready ts u \<longrightarrow> priority (ts ! u) \<le> priority (ts ! t)" by (auto simp: first_highest_def)
    show ?thesis
    proof (cases "tstate (ts ! x) = TASK_READY \<and> priority (ts ! x) > bp")
      case True
      then have "first_highest ts (q @ [x]) x" using q bp
        unfolding first_highest_def by (intro exI [of _ q] exI [of _ "[]"]) (auto simp: ready_def)
      then show ?thesis using f True Some by (simp add: prefer_task_def [of ts x])
    next
      case False
      then have "first_highest ts (q @ [x]) t" using q bp
        unfolding first_highest_def by (intro exI [of _ xs] exI [of _ "ys @ [x]"]) (auto simp: ready_def)
      then show ?thesis using f False Some bp by (auto simp: prefer_task_def [of ts x])
    qed
  qed
qed simp

lemma pick_next_task_spec:
  assumes "queues qs s" "c < MAX_CPUS"
  shows "\<exists>r. pick_next_task c s = Some r \<and>
    (if \<exists>u \<in> set (qs ! c). ready (tasks s) u then \<exists>t. r = Some t \<and> first_highest (tasks s) (qs ! c) t else r = idle_task (cpus s ! c))"
proof -
  obtain b bp where f: "fold (prefer_task (tasks s)) (qs ! c) (None, - 1) = (b, bp)" by force
  have "pick_walk (tasks s) (None, - 1) (runqueue_head (cpus s ! c)) = Some b"
    using pick_walk_seg f queues_cpu(1) [OF assms] by (force simp: dll_def)
  moreover have "first_highest (tasks s) (qs ! c) t \<Longrightarrow> \<exists>u \<in> set (qs ! c). ready (tasks s) u" for t
    by (auto simp: first_highest_def)
  ultimately show ?thesis using fold_prefer [where ts = "tasks s" and q = "qs ! c"] f
    by (cases b) (auto simp: pick_next_task_def)
qed

definition runnable :: "task list \<Rightarrow> nat \<Rightarrow> bool" where
  "runnable ts t \<longleftrightarrow> tstate (ts ! t) \<in> {TASK_READY, TASK_RUNNING} \<and> 0 \<le> priority (ts ! t)"

text \<open>The choice of the scheduler: the first runnable task of highest priority, in the order of creation.\<close>

definition choice :: "task list \<Rightarrow> nat list \<Rightarrow> nat \<Rightarrow> bool" where
  "choice ts q t \<longleftrightarrow> (\<exists>xs ys. q = xs @ t # ys \<and> runnable ts t \<and> (\<forall>u \<in> set xs. runnable ts u \<longrightarrow> priority (ts ! u) < priority (ts ! t)) \<and>
     (\<forall>u \<in> set ys. runnable ts u \<longrightarrow> priority (ts ! u) \<le> priority (ts ! t)))"

text \<open>The states between the steps of \<open>schedule\<close>.\<close>

definition preempted :: "nat \<Rightarrow> sched \<Rightarrow> sched" where
  "preempted c s = (case current (cpus s ! c) of None \<Rightarrow> s
     | Some p \<Rightarrow> if tstate (tasks s ! p) = TASK_RUNNING then upd_task p (\<lambda>x. x\<lparr>tstate := TASK_READY\<rparr>) s else s)"

definition dispatched :: "nat \<Rightarrow> nat \<Rightarrow> sched \<Rightarrow> sched" where
  "dispatched c t s = upd_cpu c (\<lambda>x. x\<lparr>schedule_count := schedule_count x + 1\<rparr>)
     ((upd_cpu c (\<lambda>x. x\<lparr>current := Some t\<rparr>) (upd_task t (\<lambda>x. x\<lparr>tstate := TASK_RUNNING\<rparr>) s))\<lparr>current_task := Some t\<rparr>)"

lemma schedule_steps:
  "pick_next_task c (preempted c s) = Some (Some t) \<Longrightarrow>
   schedule stack c s = Some (context_switch stack (current (cpus s ! c)) t (dispatched c t (preempted c s)))"
  by (auto simp: schedule_def preempted_def dispatched_def Let_def context_switch_def split: option.splits)

lemma context_switch_keeps:
  assumes "context_switch stack p t s = (sw, s')"
  shows "cpus s' = cpus s" "current_task s' = current_task s" "length (tasks s') = length (tasks s)"
    "tstate (tasks s' ! u) = tstate (tasks s ! u)" "priority (tasks s' ! u) = priority (tasks s ! u)"
    "t_next (tasks s' ! u) = t_next (tasks s ! u)" "t_prev (tasks s' ! u) = t_prev (tasks s ! u)"
  using assms by (auto simp: context_switch_def Let_def split: option.splits if_splits)

lemma preempted_sel:
  "cpus (preempted c s) = cpus s" "length (tasks (preempted c s)) = length (tasks s)"
  "priority (tasks (preempted c s) ! u) = priority (tasks s ! u)"
  "t_next (tasks (preempted c s) ! u) = t_next (tasks s ! u)" "t_prev (tasks (preempted c s) ! u) = t_prev (tasks s ! u)"
  "current_task (preempted c s) = current_task s"
  by (auto simp: preempted_def split: option.splits)

lemma preempted_tstate:
  assumes "queues qs s" "c < MAX_CPUS"
  shows "tstate (tasks (preempted c s) ! u) = (if current (cpus s ! c) = Some u \<and> tstate (tasks s ! u) = TASK_RUNNING then TASK_READY else tstate (tasks s ! u))"
    "u \<in> set (qs ! c) \<Longrightarrow> tstate (tasks (preempted c s) ! u) \<noteq> TASK_RUNNING"
    "u \<in> set (qs ! c) \<Longrightarrow> ready (tasks (preempted c s)) u \<longleftrightarrow> runnable (tasks s) u"
proof -
  have cur: "current (cpus s ! c) = Some u \<Longrightarrow> u < length (tasks s)" for u
    using queues_cpu(3,5) [OF assms] by blast
  show st: "tstate (tasks (preempted c s) ! u) = (if current (cpus s ! c) = Some u \<and> tstate (tasks s ! u) = TASK_RUNNING then TASK_READY else tstate (tasks s ! u))"
    for u using cur by (auto simp: preempted_def split: option.splits)
  show "u \<in> set (qs ! c) \<Longrightarrow> tstate (tasks (preempted c s) ! u) \<noteq> TASK_RUNNING"
    using queues_cpu(4) [OF assms, of u] by (auto simp: st)
  show "u \<in> set (qs ! c) \<Longrightarrow> ready (tasks (preempted c s)) u \<longleftrightarrow> runnable (tasks s) u"
    using queues_cpu(4) [OF assms, of u] by (cases "tstate (tasks s ! u)") (auto simp: st ready_def runnable_def preempted_sel)
qed

lemma queues_preempted:
  assumes "queues qs s" "c < MAX_CPUS"
  shows "queues qs (preempted c s)"
proof (rule queues_update [OF assms(1)])
  show "current_task (preempted c s) = Some t \<Longrightarrow> t \<in> set (concat qs)" for t
    using queues_current_task [OF assms(1)] by (simp add: preempted_sel)
  show "d < MAX_CPUS \<Longrightarrow> current (cpus (preempted c s) ! d) = Some i \<Longrightarrow> i \<in> set (qs ! d)" for d i
    using queues_cpu(3) [OF assms(1)] by (simp add: preempted_sel)
  show "d < MAX_CPUS \<Longrightarrow> t \<in> set (qs ! d) \<Longrightarrow> tstate (tasks (preempted c s) ! t) = TASK_RUNNING \<Longrightarrow> current (cpus (preempted c s) ! d) = Some t" for d t
    using queues_cpu(4) [OF assms(1)] by (auto simp: preempted_sel preempted_tstate(1) [OF assms] split: if_splits)
qed (simp_all add: preempted_sel)

lemma dispatched_sel:
  assumes "t < length (tasks s)" "c < length (cpus s)"
  shows "tasks (dispatched c t s) ! u = (if u = t then (tasks s ! u)\<lparr>tstate := TASK_RUNNING\<rparr> else tasks s ! u)"
    "length (tasks (dispatched c t s)) = length (tasks s)" "length (cpus (dispatched c t s)) = length (cpus s)"
    "current (cpus (dispatched c t s) ! d) = (if d = c then Some t else current (cpus s ! d))"
    "runqueue_head (cpus (dispatched c t s) ! d) = runqueue_head (cpus s ! d)"
    "runqueue_tail (cpus (dispatched c t s) ! d) = runqueue_tail (cpus s ! d)"
    "idle_task (cpus (dispatched c t s) ! d) = idle_task (cpus s ! d)"
    "current_task (dispatched c t s) = Some t"
  using assms by (simp_all add: dispatched_def)

lemma queues_dispatched:
  assumes "queues qs s" "c < MAX_CPUS" "t \<in> set (qs ! c)" "\<And>u. u \<in> set (qs ! c) \<Longrightarrow> tstate (tasks s ! u) \<noteq> TASK_RUNNING"
  shows "queues qs (dispatched c t s)"
proof -
  have l: "t < length (tasks s)" "c < length (cpus s)" using queues_cpu(5,6) [OF assms(1,2)] assms(3) by blast+
  note d = dispatched_sel [OF l]
  show ?thesis
  proof (rule queues_update [OF assms(1)])
    show "current_task (dispatched c t s) = Some u \<Longrightarrow> u \<in> set (concat qs)" for u
      using queues_cpu(7) [OF assms(1-3)] by (simp add: d)
    show "e < MAX_CPUS \<Longrightarrow> current (cpus (dispatched c t s) ! e) = Some i \<Longrightarrow> i \<in> set (qs ! e)" for e i
      using queues_cpu(3) [OF assms(1)] assms(3) by (auto simp: d split: if_splits)
    show "e < MAX_CPUS \<Longrightarrow> u \<in> set (qs ! e) \<Longrightarrow> tstate (tasks (dispatched c t s) ! u) = TASK_RUNNING \<Longrightarrow>
        current (cpus (dispatched c t s) ! e) = Some u" for e u
      using queues_cpu(4) [OF assms(1)] assms(3,4) queues_disjoint [OF assms(1) _ assms(2), of e t] by (auto simp: d split: if_splits)
  qed (simp_all add: d)
qed

lemma queues_context_switch:
  assumes "queues qs s" "context_switch stack p t s = (sw, s')"
  shows "queues qs s'"
proof (rule queues_update [OF assms(1)])
  note k = context_switch_keeps [OF assms(2)]
  show "current_task s' = Some t \<Longrightarrow> t \<in> set (concat qs)" for t using queues_current_task [OF assms(1)] by (simp add: k)
  show "c < MAX_CPUS \<Longrightarrow> current (cpus s' ! c) = Some i \<Longrightarrow> i \<in> set (qs ! c)" for c i using queues_cpu(3) [OF assms(1)] by (simp add: k)
  show "c < MAX_CPUS \<Longrightarrow> u \<in> set (qs ! c) \<Longrightarrow> tstate (tasks s' ! u) = TASK_RUNNING \<Longrightarrow> current (cpus s' ! c) = Some u" for c u
    using queues_cpu(4) [OF assms(1)] by (simp add: k)
qed (simp_all add: context_switch_keeps [OF assms(2)])

lemma schedule_spec:
  assumes "queues qs s" "c < MAX_CPUS" "idle_task (cpus s ! c) = Some i"
  shows "\<exists>sw s' t. schedule stack c s = Some (sw, s') \<and> queues qs s' \<and> t \<in> set (qs ! c) \<and> current (cpus s' ! c) = Some t \<and>
    current_task s' = Some t \<and> (if \<exists>u \<in> set (qs ! c). runnable (tasks s) u then choice (tasks s) (qs ! c) t else t = i) \<and>
    (\<forall>u. priority (tasks s' ! u) = priority (tasks s ! u) \<and>
       tstate (tasks s' ! u) = (if u = t then TASK_RUNNING else tstate (tasks (preempted c s) ! u))) \<and>
    (\<forall>d. idle_task (cpus s' ! d) = idle_task (cpus s ! d) \<and> (d \<noteq> c \<longrightarrow> current (cpus s' ! d) = current (cpus s ! d)))"
proof -
  let ?s1 = "preempted c s"
  note q1 = queues_preempted [OF assms(1,2)] and p = preempted_tstate [OF assms(1,2)] and ps = preempted_sel [of c s]
  obtain r where r: "pick_next_task c ?s1 = Some r"
    "if \<exists>u \<in> set (qs ! c). ready (tasks ?s1) u then \<exists>t. r = Some t \<and> first_highest (tasks ?s1) (qs ! c) t else r = idle_task (cpus ?s1 ! c)"
    using pick_next_task_spec [OF q1 assms(2)] by blast
  have fc: "first_highest (tasks ?s1) (qs ! c) t \<Longrightarrow> choice (tasks s) (qs ! c) t" for t
    unfolding first_highest_def choice_def ps using p(3) by fastforce
  obtain t where t: "r = Some t" "t \<in> set (qs ! c)"
    "if \<exists>u \<in> set (qs ! c). runnable (tasks s) u then choice (tasks s) (qs ! c) t else t = i"
  proof (cases "\<exists>u \<in> set (qs ! c). runnable (tasks s) u")
    case True
    then obtain t where t: "r = Some t" "first_highest (tasks ?s1) (qs ! c) t" using r(2) p(3) by metis
    moreover have "t \<in> set (qs ! c)" using t(2) by (auto simp: first_highest_def)
    ultimately show ?thesis using that fc True by metis
  next
    case False
    then have "r = Some i" using r(2) p(3) assms(3) ps(1) by metis
    then show ?thesis using that False queues_cpu(2) [OF assms] by metis
  qed
  obtain sw s' where cs: "context_switch stack (current (cpus s ! c)) t (dispatched c t ?s1) = (sw, s')" by force
  have l: "t < length (tasks ?s1)" "c < length (cpus ?s1)" using queues_cpu(5,6) [OF q1 assms(2)] t(2) by blast+
  note d = dispatched_sel [OF l] and k = context_switch_keeps [OF cs]
  have "schedule stack c s = Some (sw, s')" using schedule_steps [of c s t] r(1) t(1) cs by simp
  moreover have "queues qs s'"
    using queues_context_switch [OF queues_dispatched [OF q1 assms(2) t(2) p(2)] cs] .
  moreover have "\<forall>u. priority (tasks s' ! u) = priority (tasks s ! u) \<and>
       tstate (tasks s' ! u) = (if u = t then TASK_RUNNING else tstate (tasks ?s1 ! u))" by (simp add: k d ps)
  moreover have "current (cpus s' ! c) = Some t" "current_task s' = Some t"
    "\<forall>d. idle_task (cpus s' ! d) = idle_task (cpus s ! d) \<and> (d \<noteq> c \<longrightarrow> current (cpus s' ! d) = current (cpus s ! d))"
    by (simp_all add: k d ps)
  ultimately show ?thesis using t(2,3) by blast
qed

section \<open>New tasks\<close>

lemma concat_snoc:
  assumes "c < length qs"
  shows "set (concat (qs[c := qs ! c @ [t]])) = insert t (set (concat qs))"
    "distinct (concat qs) \<Longrightarrow> t \<notin> set (concat qs) \<Longrightarrow> distinct (concat (qs[c := qs ! c @ [t]]))"
proof -
  have e: "concat (qs[c := qs ! c @ [t]]) = concat (take c qs) @ qs ! c @ [t] @ concat (drop (Suc c) qs)"
    using assms by (simp add: upd_conv_take_nth_drop)
  have o: "concat qs = concat (take c qs) @ qs ! c @ concat (drop (Suc c) qs)"
    by (subst id_take_nth_drop [OF assms]) simp
  have s: "set (concat qs) = set (concat (take c qs)) \<union> set (qs ! c) \<union> set (concat (drop (Suc c) qs))"
    by (subst o) (simp only: set_append Un_assoc)
  show "set (concat (qs[c := qs ! c @ [t]])) = insert t (set (concat qs))" unfolding e s by auto
  show "distinct (concat qs) \<Longrightarrow> t \<notin> set (concat qs) \<Longrightarrow> distinct (concat (qs[c := qs ! c @ [t]]))"
    unfolding e s by (subst (asm) o) auto
qed

lemma enqueue_sel:
  assumes "t < length (tasks s)" "c < length (cpus s)" "\<forall>y. runqueue_tail (cpus s ! c) = Some y \<longrightarrow> y < length (tasks s) \<and> y \<noteq> t"
  shows "tnext (enqueue_task c t s) = (case runqueue_tail (cpus s ! c) of None \<Rightarrow> (tnext s)(t := None) | Some y \<Rightarrow> (tnext s)(t := None, y := Some t))"
    "tprev (enqueue_task c t s) = (tprev s)(t := runqueue_tail (cpus s ! c))"
    "runqueue_head (cpus (enqueue_task c t s) ! d) = (if d = c \<and> runqueue_tail (cpus s ! c) = None then Some t else runqueue_head (cpus s ! d))"
    "runqueue_tail (cpus (enqueue_task c t s) ! d) = (if d = c then Some t else runqueue_tail (cpus s ! d))"
    "idle_task (cpus (enqueue_task c t s) ! d) = idle_task (cpus s ! d)" "current (cpus (enqueue_task c t s) ! d) = current (cpus s ! d)"
    "current_task (enqueue_task c t s) = current_task s" "length (tasks (enqueue_task c t s)) = length (tasks s)"
    "length (cpus (enqueue_task c t s)) = length (cpus s)"
    "tstate (tasks (enqueue_task c t s) ! u) = (if u = t then TASK_READY else tstate (tasks s ! u))"
    "priority (tasks (enqueue_task c t s) ! u) = priority (tasks s ! u)"
  using assms by (auto simp: enqueue_task_def Let_def tnext_def tprev_def fun_eq_iff split: option.splits)

lemma queues_enqueue:
  assumes len: "length (cpus s) = MAX_CPUS" "length qs = MAX_CPUS" "MAX_CPUS \<le> length (tasks s)"
    and ct: "c < MAX_CPUS" "t < length (tasks s)" "t \<notin> set (concat qs)"
    and dis: "distinct (concat qs)" "\<And>u. u \<in> set (concat qs) \<Longrightarrow> u < length (tasks s)"
    and dll: "\<And>d. d < MAX_CPUS \<Longrightarrow> dll (tnext s) (tprev s) (runqueue_head (cpus s ! d)) (runqueue_tail (cpus s ! d)) (qs ! d)"
    and cur: "\<And>d i. d < MAX_CPUS \<Longrightarrow> current (cpus s ! d) = Some i \<Longrightarrow> i \<in> set (qs ! d)"
      "\<And>d u. d < MAX_CPUS \<Longrightarrow> u \<in> set (qs ! d) \<Longrightarrow> tstate (tasks s ! u) = TASK_RUNNING \<Longrightarrow> current (cpus s ! d) = Some u"
      "\<And>u. current_task s = Some u \<Longrightarrow> u \<in> set (concat qs)"
    and idle: "\<And>d i. d < MAX_CPUS \<Longrightarrow> idle_task (cpus s ! d) = Some i \<Longrightarrow> i = d \<and> i \<in> set ((qs[c := qs ! c @ [t]]) ! d)"
      "\<And>d. d < MAX_CPUS \<Longrightarrow> idle_task (cpus s ! d) = None \<Longrightarrow> d \<noteq> t \<and> d \<notin> set (concat qs)"
  shows "queues (qs[c := qs ! c @ [t]]) (enqueue_task c t s)"
proof -
  let ?s = "enqueue_task c t s" and ?qs = "qs[c := qs ! c @ [t]]"
  have cl: "c < length qs" "c < length (cpus s)" using ct len by simp_all
  have inq: "u \<in> set (qs ! d) \<Longrightarrow> d < MAX_CPUS \<Longrightarrow> u \<in> set (concat qs)" for u d using len(2) by auto
  have tail: "y \<in> set (qs ! c)" if "runqueue_tail (cpus s ! c) = Some y" for y
    using dll_last [OF dll [OF ct(1)]] that by (auto split: if_splits)
  then have ty: "\<forall>y. runqueue_tail (cpus s ! c) = Some y \<longrightarrow> y < length (tasks s) \<and> y \<noteq> t"
    using inq [OF _ ct(1)] dis(2) ct(3) by blast
  note e = enqueue_sel [OF ct(2) cl(2) ty]
  have disj: "d = e" if "u \<in> set (qs ! d)" "u \<in> set (qs ! e)" "d < length qs" "e < length qs" for u d e
    using dis(1) that by (metis (no_types, lifting) concat_disjoint)
  have D: "dll (tnext ?s) (tprev ?s) (runqueue_head (cpus ?s ! d)) (runqueue_tail (cpus ?s ! d)) (?qs ! d)" if d: "d < MAX_CPUS" for d
  proof (cases "d = c")
    case True
    then show ?thesis using dll_push_back [OF dll [OF ct(1)], of t] ct(3) inq [OF _ ct(1)] cl(1)
      unfolding e by (auto split: option.splits)
  next
    case False
    have "dll (tnext ?s) (tprev ?s) a b (qs ! d) = dll (tnext s) (tprev s) a b (qs ! d)" for a b
    proof (rule dll_cong)
      fix x assume x: "x \<in> set (qs ! d)"
      have "x \<noteq> t" using x inq [OF x d] ct(3) by blast
      moreover have "runqueue_tail (cpus s ! c) \<noteq> Some x" using tail disj [OF x _ _ cl(1)] False d len(2) by auto
      ultimately show "tnext ?s x = tnext s x \<and> tprev ?s x = tprev s x" unfolding e by (auto split: option.splits)
    qed
    then show ?thesis using dll [OF d] False by (simp add: e)
  qed
  have "cpu_ok (?qs ! d) d ?s" if d: "d < MAX_CPUS" for d
    unfolding cpu_ok_def
  proof (intro conjI allI impI ballI)
    show "i = d" "i \<in> set (?qs ! d)" if "idle_task (cpus ?s ! d) = Some i" for i
      using idle(1) [OF d, of i] that unfolding e by blast+
    show "i \<in> set (?qs ! d)" if "current (cpus ?s ! d) = Some i" for i
      using cur(1) [OF d] that cl(1) by (auto simp: e nth_list_update)
    show "current (cpus ?s ! d) = Some u" if "u \<in> set (?qs ! d)" "tstate (tasks ?s ! u) = TASK_RUNNING" for u
      using cur(2) [OF d] that cl(1) by (auto simp: e nth_list_update split: if_splits)
  qed (rule D [OF d])
  then show ?thesis
    unfolding queues_def concat_snoc(1) [OF cl(1)] e
    using len ct dis cur(3) idle(2) concat_snoc(2) [OF cl(1) dis(1) ct(3)] by auto
qed

lemma queuesD:
  assumes "queues qs s"
  shows "length (cpus s) = MAX_CPUS" "length qs = MAX_CPUS" "MAX_CPUS \<le> length (tasks s)" "distinct (concat qs)"
    "u \<in> set (concat qs) \<Longrightarrow> u < length (tasks s)"
    "c < MAX_CPUS \<Longrightarrow> idle_task (cpus s ! c) = None \<Longrightarrow> c \<notin> set (concat qs)"
proof -
  show "length (cpus s) = MAX_CPUS" "length qs = MAX_CPUS" "MAX_CPUS \<le> length (tasks s)" "distinct (concat qs)"
    using assms unfolding queues_def by argo+
  have "\<forall>t \<in> set (concat qs). t < length (tasks s)" "\<forall>c < MAX_CPUS. idle_task (cpus s ! c) = None \<longrightarrow> c \<notin> set (concat qs)"
    using assms unfolding queues_def by argo+
  then show "u \<in> set (concat qs) \<Longrightarrow> u < length (tasks s)"
    "c < MAX_CPUS \<Longrightarrow> idle_task (cpus s ! c) = None \<Longrightarrow> c \<notin> set (concat qs)" by blast+
qed

lemma nth_update_mono: "i \<in> set (qs ! d) \<Longrightarrow> i \<in> set ((qs[c := qs ! c @ [t]]) ! d)"
  by (cases "c < length qs"; cases "d = c") (auto simp: list_update_beyond)

lemma queues_sched_init_cpu:
  assumes "queues qs s" "c < MAX_CPUS" "idle_task (cpus s ! c) = None"
  shows "queues (qs[c := qs ! c @ [c]]) (sched_init_cpu entry stack c s)"
proof -
  let ?s = "upd_cpu c (\<lambda>x. x\<lparr>idle_task := Some c\<rparr>) (upd_task c (\<lambda>x. x\<lparr>pid := 0, priority := TASK_MIN_PRIORITY, tstate := TASK_READY,
      cpu_affinity := push_bit c 1, started := False, stack_top := stack, elr_el1 := entry\<rparr>) s)"
  note q = queuesD [OF assms(1)]
  have lk: "tnext ?s = tnext s" "tprev ?s = tprev s" by (auto simp: tnext_def tprev_def)
  have nin: "c \<notin> set (concat qs)" using q(6) assms(2,3) .
  have "queues (qs[c := qs ! c @ [c]]) (enqueue_task c c ?s)"
  proof (rule queues_enqueue)
    show "dll (tnext ?s) (tprev ?s) (runqueue_head (cpus ?s ! d)) (runqueue_tail (cpus ?s ! d)) (qs ! d)" if "d < MAX_CPUS" for d
      using queues_cpu(1) [OF assms(1) that] unfolding lk by auto
    show "current (cpus ?s ! d) = Some i \<Longrightarrow> i \<in> set (qs ! d)" if "d < MAX_CPUS" for d i
      using queues_cpu(3) [OF assms(1) that] by (auto split: if_splits)
    show "u \<in> set (qs ! d) \<Longrightarrow> tstate (tasks ?s ! u) = TASK_RUNNING \<Longrightarrow> current (cpus ?s ! d) = Some u" if "d < MAX_CPUS" for d u
      using queues_cpu(4) [OF assms(1) that] by (auto split: if_splits)
    show "current_task ?s = Some u \<Longrightarrow> u \<in> set (concat qs)" for u using queues_current_task [OF assms(1)] by simp
    show "i = d \<and> i \<in> set ((qs[c := qs ! c @ [c]]) ! d)" if "d < MAX_CPUS" "idle_task (cpus ?s ! d) = Some i" for d i
    proof (cases "d = c")
      case True
      then show ?thesis using that q(1,2) by simp
    next
      case False
      then show ?thesis using queues_cpu(2) [OF assms(1) that(1), of i] that(2) nth_update_mono by (metis upd_cpu_sel(5) upd_task_sel(1))
    qed
    show "d \<noteq> c \<and> d \<notin> set (concat qs)" if "d < MAX_CPUS" "idle_task (cpus ?s ! d) = None" for d
      using that q(1) q(6) [OF that(1)] by (auto split: if_splits)
    show "u \<in> set (concat qs) \<Longrightarrow> u < length (tasks ?s)" for u using q(5) by simp
  qed (use q assms(2) nin in simp_all)
  then show ?thesis by (simp add: sched_init_cpu_def Let_def)
qed

lemma queues_new_task:
  assumes "queues qs s" "c < MAX_CPUS"
  shows "queues (qs[c := qs ! c @ [length (tasks s)]]) (enqueue_task c (length (tasks s)) (s\<lparr>tasks := tasks s @ [x], next_pid := p\<rparr>))"
proof -
  let ?s = "s\<lparr>tasks := tasks s @ [x], next_pid := p\<rparr>" and ?t = "length (tasks s)"
  note q = queuesD [OF assms(1)]
  have same: "tasks ?s ! u = tasks s ! u" if "u \<in> set (concat qs)" for u using q(5) [OF that] by (simp add: nth_append)
  have inq: "u \<in> set (concat qs)" if "d < MAX_CPUS" "u \<in> set (qs ! d)" for u d using queues_cpu(7) [OF assms(1) that] .
  have nin: "?t \<notin> set (concat qs)" using q(5) by blast
  show ?thesis
  proof (rule queues_enqueue)
    show "dll (tnext ?s) (tprev ?s) (runqueue_head (cpus ?s ! d)) (runqueue_tail (cpus ?s ! d)) (qs ! d)" if "d < MAX_CPUS" for d
    proof -
      have "dll (tnext ?s) (tprev ?s) a b (qs ! d) = dll (tnext s) (tprev s) a b (qs ! d)" for a b
        using same inq [OF that] by (intro dll_cong) (metis tnext_def tprev_def)
      then show ?thesis using queues_cpu(1) [OF assms(1) that] by simp
    qed
    show "u \<in> set (qs ! d) \<Longrightarrow> tstate (tasks ?s ! u) = TASK_RUNNING \<Longrightarrow> current (cpus ?s ! d) = Some u" if "d < MAX_CPUS" for d u
      using queues_cpu(4) [OF assms(1) that] same inq [OF that] by (metis select_convs(2) surjective update_convs(1) update_convs(4))
    show "current (cpus ?s ! d) = Some i \<Longrightarrow> i \<in> set (qs ! d)" if "d < MAX_CPUS" for d i using queues_cpu(3) [OF assms(1) that] by simp
    show "current_task ?s = Some u \<Longrightarrow> u \<in> set (concat qs)" for u using queues_current_task [OF assms(1)] by simp
    show "i = d \<and> i \<in> set ((qs[c := qs ! c @ [?t]]) ! d)" if "d < MAX_CPUS" "idle_task (cpus ?s ! d) = Some i" for d i
      using queues_cpu(2) [OF assms(1) that(1), of i] that(2) nth_update_mono [of i qs d] by simp
    show "d \<noteq> ?t \<and> d \<notin> set (concat qs)" if "d < MAX_CPUS" "idle_task (cpus ?s ! d) = None" for d
      using that q(3) q(6) [OF that(1)] by simp
    show "u \<in> set (concat qs) \<Longrightarrow> u < length (tasks ?s)" for u using q(5) [of u] by simp
  qed (use q assms(2) nin in simp_all)
qed

section \<open>Runs of the scheduler\<close>

text \<open>
  A CPU schedules once its idle task is set up, which happens once; a task blocks itself or ends.
\<close>

datatype sched_event =
  InitCpu u64 u64 nat
| Create "nat \<Rightarrow> u64 option" nat u64 int u64
| Schedule u64 nat
| Block u64 nat task_state
| Wakeup "nat option"

fun sched_step :: "sched \<Rightarrow> sched_event \<Rightarrow> sched option" where
  "sched_step s (InitCpu entry stack c) =
     (if c < MAX_CPUS \<and> idle_task (cpus s ! c) = None then Some (sched_init_cpu entry stack c s) else None)"
| "sched_step s (Create alloc c entry prio aff) = Some (snd (task_create alloc c entry prio aff s))"
| "sched_step s (Schedule stack c) =
     (if c < MAX_CPUS \<and> idle_task (cpus s ! c) \<noteq> None then map_option snd (schedule stack c s) else None)"
| "sched_step s (Block stack c st) =
     (if c < MAX_CPUS \<and> idle_task (cpus s ! c) \<noteq> None \<and> st \<noteq> TASK_RUNNING then map_option snd (task_block stack c st s) else None)"
| "sched_step s (Wakeup t) = Some (task_wakeup t s)"

lemma queues_set_state:
  assumes "queues qs s" "st \<noteq> TASK_RUNNING"
  shows "queues qs (upd_task t (\<lambda>x. x\<lparr>tstate := st\<rparr>) s)"
proof (rule queues_update [OF assms(1)])
  show "c < MAX_CPUS \<Longrightarrow> u \<in> set (qs ! c) \<Longrightarrow> tstate (tasks (upd_task t (\<lambda>x. x\<lparr>tstate := st\<rparr>) s) ! u) = TASK_RUNNING \<Longrightarrow>
      current (cpus (upd_task t (\<lambda>x. x\<lparr>tstate := st\<rparr>) s) ! c) = Some u" for c u
    using queues_cpu(4) [OF assms(1)] assms(2) by (auto split: if_splits)
qed (use queues_cpu(3) [OF assms(1)] queues_current_task [OF assms(1)] in auto)

lemma queues_task_create: "queues qs s \<Longrightarrow> sched_inv (snd (task_create alloc c entry prio aff s))"
proof -
  assume q: "queues qs s"
  have "(if ctz a \<ge> MAX_CPUS then 0 else ctz a) < MAX_CPUS" for a by (simp add: MAX_CPUS_def)
  then have new: "sched_inv (enqueue_task (if ctz a \<ge> MAX_CPUS then 0 else ctz a) (length (tasks s)) (s\<lparr>tasks := tasks s @ [x], next_pid := p\<rparr>))" for a x p
    using queues_new_task [OF q] unfolding sched_inv_def by blast
  have s: "sched_inv s" using q by (auto simp: sched_inv_def)
  define X where "X = (if entry \<ge> 0x40000000 then alloc 2 else Some 0)"
  show ?thesis
    unfolding task_create_def X_def [symmetric] Let_def
    using s new by (cases "entry = 0"; cases "alloc 0"; cases "alloc 1"; cases X) (simp_all del: if_split)
qed

interpretation sched_runs: event_system sched_step sched_inv
proof
  fix s e s'
  assume "sched_inv s" and st: "sched_step s e = Some s'"
  then obtain qs where q: "queues qs s" by (auto simp: sched_inv_def)
  show "sched_inv s'"
  proof (cases e)
    case (InitCpu entry stack c)
    then have "c < MAX_CPUS" "idle_task (cpus s ! c) = None" "s' = sched_init_cpu entry stack c s" using st by (auto split: if_splits)
    then show ?thesis using queues_sched_init_cpu [OF q] by (auto simp: sched_inv_def)
  next
    case (Create alloc c entry prio aff)
    then show ?thesis using queues_task_create [OF q] st by auto
  next
    case (Schedule stack c)
    then obtain i sw where "c < MAX_CPUS" "idle_task (cpus s ! c) = Some i" "schedule stack c s = Some (sw, s')"
      using st by (auto split: if_splits)
    then show ?thesis using schedule_spec [OF q, of c i stack] by (auto simp: sched_inv_def)
  next
    case (Block stack c bst)
    then obtain i sw where b: "c < MAX_CPUS" "idle_task (cpus s ! c) = Some i" "task_block stack c bst s = Some (sw, s')" "bst \<noteq> TASK_RUNNING"
      using st by (auto split: if_splits)
    show ?thesis
    proof (cases "current_task s")
      case None
      then show ?thesis using b(3) q by (auto simp: task_block_def sched_inv_def)
    next
      case (Some t)
      then show ?thesis using b schedule_spec [OF queues_set_state [OF q b(4), of t] b(1), of i stack]
        by (auto simp: task_block_def sched_inv_def)
    qed
  next
    case (Wakeup t)
    then have "s' = s \<or> (\<exists>u. s' = upd_task u (\<lambda>x. x\<lparr>tstate := TASK_READY\<rparr>) s)"
      using st by (auto simp: task_wakeup_def split: option.splits if_splits)
    then show ?thesis using q queues_set_state [OF q, of TASK_READY] by (auto simp: sched_inv_def)
  qed
qed

lemma queues_boot: "queues (replicate MAX_CPUS []) sched_boot"
  by (auto simp: queues_def sched_boot_def cpu_ok_def zero_cpu_def)

text \<open>
  C17. In every run of the system from its boot, the queues stay well-formed doubly linked lists
  with every task in one of them, and at most one task of each queue is running, the current one
  of its CPU.
\<close>

theorem sched_run_invariant:
  assumes "run_events sched_step sched_boot es = Some s"
  shows "\<exists>qs. length qs = MAX_CPUS \<and> distinct (concat qs) \<and>
    (\<forall>c < MAX_CPUS. dll (tnext s) (tprev s) (runqueue_head (cpus s ! c)) (runqueue_tail (cpus s ! c)) (qs ! c) \<and>
       (\<forall>t \<in> set (qs ! c). tstate (tasks s ! t) = TASK_RUNNING \<longrightarrow> current (cpus s ! c) = Some t))"
proof -
  have "sched_inv sched_boot" using queues_boot by (auto simp: sched_inv_def)
  then have "sched_inv s" using sched_runs.run_inv assms by blast
  then obtain qs where q: "queues qs s" by (auto simp: sched_inv_def)
  then show ?thesis using queuesD(2,4) [OF q] queues_cpu(1,4) [OF q] by blast
qed

definition boot_run :: "sched_event list" where
  "boot_run = [InitCpu 0x80000 0x90000 0, Create (\<lambda>n. Some 0x100000) 0 0x81000 255 1, Schedule 0 0,
     Create (\<lambda>n. Some 0x200000) 0 0x82000 1 0, Create (\<lambda>n. Some 0x300000) 0 0x83000 1 0, Block 0x8F000 0 TASK_BLOCKED]"

text \<open>
  C25. A scheduled CPU runs the first runnable task of highest priority of its queue, and its idle
  task when none is runnable; the queues stay well formed.
\<close>

theorem schedule_picks:
  assumes "queues qs s" "c < MAX_CPUS" "idle_task (cpus s ! c) = Some i"
  shows "\<exists>sw s' t. schedule stack c s = Some (sw, s') \<and> queues qs s' \<and> current (cpus s' ! c) = Some t \<and>
    tstate (tasks s' ! t) = TASK_RUNNING \<and>
    (if \<exists>u \<in> set (qs ! c). runnable (tasks s) u then choice (tasks s) (qs ! c) t else t = i)"
  using schedule_spec [OF assms, of stack] by metis

lemma choice_unique:
  assumes "distinct q" "choice ts q t" "choice ts q u"
  shows "t = u"
proof (rule ccontr)
  assume n: "t \<noteq> u"
  obtain xs ys where t: "q = xs @ t # ys" "runnable ts t" "\<forall>v \<in> set xs. runnable ts v \<longrightarrow> priority (ts ! v) < priority (ts ! t)"
    "\<forall>v \<in> set ys. runnable ts v \<longrightarrow> priority (ts ! v) \<le> priority (ts ! t)" using assms(2) by (auto simp: choice_def)
  obtain xs' ys' where u: "q = xs' @ u # ys'" "runnable ts u" "\<forall>v \<in> set xs'. runnable ts v \<longrightarrow> priority (ts ! v) < priority (ts ! u)"
    "\<forall>v \<in> set ys'. runnable ts v \<longrightarrow> priority (ts ! v) \<le> priority (ts ! u)" using assms(3) by (auto simp: choice_def)
  have tu: "t \<in> set xs' \<or> t \<in> set ys'" "u \<in> set xs \<or> u \<in> set ys" using t(1) u(1) n by (metis in_set_conv_decomp set_append set_ConsD Un_iff)+
  have "t \<in> set xs' \<longleftrightarrow> \<not> u \<in> set xs"
    using t(1) u(1) assms(1) n tu by (auto simp: append_eq_append_conv2 append_eq_Cons_conv Cons_eq_append_conv)
  then show False using tu t(2-4) u(2-4) by fastforce
qed

lemma choice_kept:
  assumes "choice ts q h" "\<And>u. priority (ts' ! u) = priority (ts ! u)" "\<And>u. u \<noteq> h \<Longrightarrow> runnable ts' u = runnable ts u" "runnable ts' h"
  shows "choice ts' q h"
proof -
  obtain xs ys where q: "q = xs @ h # ys" "runnable ts h" "\<forall>u \<in> set xs. runnable ts u \<longrightarrow> priority (ts ! u) < priority (ts ! h)"
    "\<forall>u \<in> set ys. runnable ts u \<longrightarrow> priority (ts ! u) \<le> priority (ts ! h)" using assms(1) by (auto simp: choice_def)
  have "\<forall>u \<in> set xs. runnable ts' u \<longrightarrow> priority (ts' ! u) < priority (ts' ! h)"
    using q(2,3) assms(2,3) by (metis order_less_irrefl)
  moreover have "\<forall>u \<in> set ys. runnable ts' u \<longrightarrow> priority (ts' ! u) \<le> priority (ts' ! h)"
    using q(4) assms(2,3) by (metis order_refl)
  ultimately show ?thesis using q(1) assms(4) by (auto simp: choice_def)
qed

lemma schedule_again:
  assumes "queues qs s" "c < MAX_CPUS" "idle_task (cpus s ! c) = Some i" "choice (tasks s) (qs ! c) h"
  shows "\<exists>sw s'. schedule stack c s = Some (sw, s') \<and> queues qs s' \<and> idle_task (cpus s' ! c) = Some i \<and> current (cpus s' ! c) = Some h \<and>
    choice (tasks s') (qs ! c) h"
proof -
  obtain sw s' t where r: "schedule stack c s = Some (sw, s')" "queues qs s'" "current (cpus s' ! c) = Some t"
    "if \<exists>u \<in> set (qs ! c). runnable (tasks s) u then choice (tasks s) (qs ! c) t else t = i"
    "\<And>u. priority (tasks s' ! u) = priority (tasks s ! u)"
    "\<And>u. tstate (tasks s' ! u) = (if u = t then TASK_RUNNING else tstate (tasks (preempted c s) ! u))"
    "\<And>d. idle_task (cpus s' ! d) = idle_task (cpus s ! d)"
    using schedule_spec [OF assms(1-3), of stack] by metis
  have "\<exists>u \<in> set (qs ! c). runnable (tasks s) u" using assms(4) by (auto simp: choice_def)
  then have "choice (tasks s) (qs ! c) t" using r(4) by simp
  moreover have "distinct (qs ! c)" using queues_cpu(1) [OF assms(1,2)] by (simp add: dll_def)
  ultimately have t: "t = h" using choice_unique assms(4) by blast
  have "runnable (tasks s') u = runnable (tasks s) u" if "u \<noteq> h" for u
    using that t preempted_tstate(1) [OF assms(1,2), of u] by (auto simp: runnable_def r(5,6))
  moreover have "runnable (tasks s') h" using assms(4) t by (auto simp: runnable_def r(5,6) choice_def)
  ultimately have "choice (tasks s') (qs ! c) h" using choice_kept [OF assms(4), of "tasks s'"] r(5) by blast
  then show ?thesis using r t assms(3) by auto
qed

text \<open>
  However often the CPU is scheduled, it runs the same task: the first runnable one of highest
  priority. Tasks of equal priority that were created after it never run while it is runnable.
\<close>

theorem schedule_never_rotates:
  assumes "queues qs s" "c < MAX_CPUS" "idle_task (cpus s ! c) = Some i" "choice (tasks s) (qs ! c) h" "stacks \<noteq> []"
  shows "\<exists>s'. run_events (\<lambda>s stack. map_option snd (schedule stack c s)) s stacks = Some s' \<and> current (cpus s' ! c) = Some h"
proof -
  have "\<exists>s'. run_events (\<lambda>s stack. map_option snd (schedule stack c s)) s stacks = Some s' \<and> (stacks \<noteq> [] \<longrightarrow> current (cpus s' ! c) = Some h)"
    using assms(1,3,4)
  proof (induction stacks arbitrary: s)
    case (Cons x xs)
    obtain sw s1 where 1: "schedule x c s = Some (sw, s1)" "queues qs s1" "idle_task (cpus s1 ! c) = Some i" "current (cpus s1 ! c) = Some h"
      "choice (tasks s1) (qs ! c) h" using schedule_again [OF Cons.prems(1) assms(2) Cons.prems(2,3), of x] by blast
    then show ?case using Cons.IH [OF 1(2,3,5)] by (cases xs) auto
  qed simp
  then show ?thesis using assms(5) by blast
qed

text \<open>
  There is one current task for all CPUs, the one that was scheduled last anywhere: a task that
  blocks itself on one CPU marks the task another CPU is running as blocked.
\<close>

theorem task_block_hits_other_cpu:
  assumes "queues qs s" "c < MAX_CPUS" "d < MAX_CPUS" "c \<noteq> d" "idle_task (cpus s ! c) = Some i" "idle_task (cpus s ! d) = Some j"
    and "schedule stack d s = Some (sw, s1)"
  shows "\<exists>t sw' s2. current (cpus s1 ! d) = Some t \<and> task_block stack' c TASK_BLOCKED s1 = Some (sw', s2) \<and>
    current (cpus s2 ! d) = Some t \<and> tstate (tasks s2 ! t) = TASK_BLOCKED"
proof -
  obtain t where t: "queues qs s1" "t \<in> set (qs ! d)" "current (cpus s1 ! d) = Some t" "current_task s1 = Some t"
    "\<And>e. idle_task (cpus s1 ! e) = idle_task (cpus s ! e)"
    using schedule_spec [OF assms(1,3,6), of stack] assms(7) by auto
  let ?s = "upd_task t (\<lambda>x. x\<lparr>tstate := TASK_BLOCKED\<rparr>) s1"
  have q: "queues qs ?s" using queues_set_state [OF t(1)] by simp
  have tl: "t < length (tasks s1)" using queues_cpu(5) [OF t(1) assms(3) t(2)] .
  have "idle_task (cpus ?s ! c) = Some i" using t(5) assms(5) by simp
  from schedule_spec [OF q assms(2) this, of stack'] obtain sw' s2 u where
    u: "schedule stack' c ?s = Some (sw', s2)" "u \<in> set (qs ! c)"
    "\<And>v. tstate (tasks s2 ! v) = (if v = u then TASK_RUNNING else tstate (tasks (preempted c ?s) ! v))"
    "\<And>e. e \<noteq> c \<longrightarrow> current (cpus s2 ! e) = current (cpus ?s ! e)" by metis
  have "t \<noteq> u" using queues_disjoint [OF t(1) assms(2,3) u(2)] t(2) assms(4) by blast
  then have "tstate (tasks s2 ! t) = TASK_BLOCKED" using tl preempted_tstate(1) [OF q assms(2), of t] by (simp add: u(3))
  moreover have "task_block stack' c TASK_BLOCKED s1 = Some (sw', s2)" using t(4) u(1) by (simp add: task_block_def)
  moreover have "current (cpus s2 ! d) = Some t" using u(4) [of d] assms(4) t(3) by simp
  ultimately show ?thesis using t(3) by blast
qed

section \<open>A small system\<close>

text \<open>Two CPUs, and two tasks of equal priority on the first.\<close>

definition demo0 :: sched where "demo0 = sched_init_cpu 0x80000 0x91000 1 (sched_init_cpu 0x80000 0x90000 0 sched_boot)"
definition demo1 :: sched where "demo1 = snd (task_create (\<lambda>n. Some 0x200000) 0 0x82000 1 0 demo0)"
definition demo2 :: sched where "demo2 = snd (task_create (\<lambda>n. Some 0x300000) 0 0x83000 1 0 demo1)"

lemma demo_facts:
  "idle_task (cpus sched_boot ! 0) = None" "idle_task (cpus (sched_init_cpu 0x80000 0x90000 0 sched_boot) ! 1) = None"
  "length (tasks demo0) = 8" "length (tasks demo1) = 9"
  "idle_task (cpus demo2 ! 0) = Some 0" "idle_task (cpus demo2 ! 1) = Some 1"
  "priority (tasks demo2 ! 0) = 0" "priority (tasks demo2 ! 8) = 1" "priority (tasks demo2 ! 9) = 1" "tstate (tasks demo2 ! 8) = TASK_READY"
  by code_simp+

definition demo_queues :: "nat list list" where
  "demo_queues = [[0, 8, 9], [1], [], [], [], [], [], []]"

lemma demo_created:
  "demo1 = enqueue_task 0 8 (demo0\<lparr>tasks := tasks demo0 @ [(tasks demo1 ! 8)\<lparr>t_next := None, t_prev := None\<rparr>], next_pid := 2\<rparr>)"
  "demo2 = enqueue_task 0 9 (demo1\<lparr>tasks := tasks demo1 @ [(tasks demo2 ! 9)\<lparr>t_next := None, t_prev := None\<rparr>], next_pid := 3\<rparr>)"
  by code_simp+

lemma demo_queues_ok: "queues demo_queues demo2"
proof -
  have c: "0 < MAX_CPUS" "1 < MAX_CPUS" by (simp_all add: MAX_CPUS_def)
  have "queues ((replicate MAX_CPUS [])[0 := [0]]) (sched_init_cpu 0x80000 0x90000 0 sched_boot)"
    using queues_sched_init_cpu [OF queues_boot c(1) demo_facts(1), of "0x80000" "0x90000"] by (simp add: MAX_CPUS_def)
  from queues_sched_init_cpu [OF this c(2) demo_facts(2), of "0x80000" "0x91000"]
  have "queues [[0], [1], [], [], [], [], [], []] demo0" by (simp add: demo0_def MAX_CPUS_def numeral_eq_Suc)
  from queues_new_task [OF this c(1), where x = "(tasks demo1 ! 8)\<lparr>t_next := None, t_prev := None\<rparr>" and p = 2]
  have "queues [[0, 8], [1], [], [], [], [], [], []] demo1" using demo_facts(3) by (subst demo_created(1)) simp
  from queues_new_task [OF this c(1), where x = "(tasks demo2 ! 9)\<lparr>t_next := None, t_prev := None\<rparr>" and p = 3]
  show ?thesis using demo_facts(4) by (subst demo_created(2)) (simp add: demo_queues_def)
qed

lemma demo_choice: "choice (tasks demo2) (demo_queues ! 0) 8"
  unfolding choice_def
  by (rule exI [of _ "[0]"], rule exI [of _ "[9]"]) (simp add: demo_queues_def runnable_def demo_facts(7-10))

theorem sched_run_invariant_witness:
  "\<exists>s qs. run_events sched_step sched_boot boot_run = Some s \<and> length qs = MAX_CPUS \<and>
     (\<forall>t \<in> set (qs ! 0). tstate (tasks s ! t) = TASK_RUNNING \<longrightarrow> current (cpus s ! 0) = Some t) \<and> current (cpus s ! 0) = Some 9"
proof -
  have "run_events sched_step sched_boot boot_run \<noteq> None \<and> current (cpus (the (run_events sched_step sched_boot boot_run)) ! 0) = Some 9"
    by code_simp
  then obtain s where s: "run_events sched_step sched_boot boot_run = Some s" "current (cpus s ! 0) = Some 9" by auto
  have "0 < MAX_CPUS" by (simp add: MAX_CPUS_def)
  then show ?thesis using sched_run_invariant [OF s(1)] s by blast
qed

theorem schedule_picks_witness:
  "\<exists>sw s'. schedule 0 0 demo2 = Some (sw, s') \<and> current (cpus s' ! 0) = Some 8 \<and> tstate (tasks s' ! 8) = TASK_RUNNING"
proof -
  have c: "0 < MAX_CPUS" by (simp add: MAX_CPUS_def)
  have "distinct (demo_queues ! 0)" "\<exists>u \<in> set (demo_queues ! 0). runnable (tasks demo2) u" using demo_choice by (auto simp: demo_queues_def choice_def)
  then show ?thesis
    using schedule_picks [OF demo_queues_ok c demo_facts(5), of 0] choice_unique [OF _ _ demo_choice] by (metis (no_types, lifting))
qed

theorem schedule_never_rotates_witness:
  "\<exists>s'. run_events (\<lambda>s stack. map_option snd (schedule stack 0 s)) demo2 [1, 2, 3] = Some s' \<and> current (cpus s' ! 0) = Some 8"
  by (rule schedule_never_rotates [OF demo_queues_ok _ demo_facts(5) demo_choice]) (simp_all add: MAX_CPUS_def)

theorem task_block_hits_other_cpu_witness:
  "\<exists>sw s1 t sw' s2. schedule 0 1 demo2 = Some (sw, s1) \<and> current (cpus s1 ! 1) = Some t \<and> task_block 0 0 TASK_BLOCKED s1 = Some (sw', s2) \<and>
     current (cpus s2 ! 1) = Some t \<and> tstate (tasks s2 ! t) = TASK_BLOCKED"
proof -
  have c: "0 < MAX_CPUS" "1 < MAX_CPUS" by (simp_all add: MAX_CPUS_def)
  obtain sw s1 where "schedule 0 1 demo2 = Some (sw, s1)" using schedule_spec [OF demo_queues_ok c(2) demo_facts(6), of 0] by blast
  then show ?thesis using task_block_hits_other_cpu [OF demo_queues_ok c _ demo_facts(5,6), of 0 sw s1 0] by auto
qed

end
