(* ===== verification/Signal.thy ===== *)
theory Signal
  imports Sched
begin

text \<open>
  kernel/signal.c: the signal state of the current task, which is the target of every signal
  (\<open>find_task_by_pid\<close> returns it for every process number). A handler is user code: \<open>run\<close> gives
  its effect on the task. \<open>comes_back\<close> says whether \<open>schedule\<close> returns to a task that ended itself, which
  only the idle task can see. The operations are those of a system that has a current task.
\<close>

section \<open>State\<close>

datatype handler = SIG_DFL | SIG_IGN | SIG_ERR | Handler nat

record sig_task =
  handlers :: "handler list"
  pending :: u64
  blocked :: u64
  old_mask :: u64
  sigreturn_sp :: u64
  user_sp :: u64
  sig_tstate :: task_state

definition NSIG :: nat where "NSIG = 32"
definition SIGKILL :: int where "SIGKILL = 9"
definition SIGSTOP :: int where "SIGSTOP = 19"

definition sig_refused :: "int \<Rightarrow> bool" where
  "sig_refused sig \<longleftrightarrow> sig < 1 \<or> sig \<ge> int NSIG \<or> sig = SIGKILL \<or> sig = SIGSTOP"

section \<open>Operations\<close>

definition signal :: "int \<Rightarrow> handler \<Rightarrow> sig_task \<Rightarrow> handler \<times> sig_task" where
  "signal sig h t =
     (if sig_refused sig then (SIG_ERR, t)
      else (handlers t ! nat sig, t\<lparr>handlers := (handlers t)[nat sig := h]\<rparr>))"

text \<open>\<open>sigaction\<close> with the handler of the new action, if one is given: the result and the old handler.\<close>

definition sigaction :: "int \<Rightarrow> handler option \<Rightarrow> sig_task \<Rightarrow> int \<times> handler option \<times> sig_task" where
  "sigaction sig act t =
     (if sig_refused sig then (- 1, None, t)
      else (0, Some (handlers t ! nat sig),
        case act of None \<Rightarrow> t | Some h \<Rightarrow> t\<lparr>handlers := (handlers t)[nat sig := h]\<rparr>))"

text \<open>A shift by an amount outside 0 to 63 is undefined.\<close>

definition kill :: "int \<Rightarrow> int \<Rightarrow> sig_task \<Rightarrow> (int \<times> sig_task) option" where
  "kill target_pid sig t =
     (if sig < 0 \<or> 64 \<le> sig then None
      else Some (0, t\<lparr>pending := pending t OR push_bit (nat sig) 1,
        sig_tstate := (if sig_tstate t = TASK_BLOCKED then TASK_READY else sig_tstate t)\<rparr>))"

fun deliver_loop :: "(nat \<Rightarrow> nat \<Rightarrow> sig_task \<Rightarrow> sig_task) \<Rightarrow> (nat \<Rightarrow> bool) \<Rightarrow> u64 \<Rightarrow> nat list \<Rightarrow> sig_task \<Rightarrow> (nat \<times> nat) list \<times> sig_task" where
  "deliver_loop run comes_back pend [] t = ([], t)"
| "deliver_loop run comes_back pend (sig # sigs) t =
     (if \<not> bit pend sig then deliver_loop run comes_back pend sigs t
      else
        let t = t\<lparr>pending := pending t AND NOT (push_bit sig 1)\<rparr>
        in case handlers t ! sig of
             SIG_IGN \<Rightarrow> deliver_loop run comes_back pend sigs t
           | SIG_DFL \<Rightarrow>
               let t = t\<lparr>sig_tstate := TASK_ZOMBIE\<rparr>
               in if comes_back sig then deliver_loop run comes_back pend sigs t else ([], t)
           | SIG_ERR \<Rightarrow> ([], t)
           | Handler h \<Rightarrow>
               let t = t\<lparr>old_mask := blocked t, sigreturn_sp := user_sp t\<rparr>;
                   t = run h sig t;
                   t = t\<lparr>blocked := blocked t OR push_bit sig 1\<rparr>;
                   (calls, t) = deliver_loop run comes_back pend sigs t
               in ((h, sig) # calls, t))"

text \<open>The handlers that were called, with their signals, and the new state of the task.\<close>

definition deliver_signals :: "(nat \<Rightarrow> nat \<Rightarrow> sig_task \<Rightarrow> sig_task) \<Rightarrow> (nat \<Rightarrow> bool) \<Rightarrow> sig_task \<Rightarrow> (nat \<times> nat) list \<times> sig_task" where
  "deliver_signals run comes_back t =
     (let pend = pending t AND NOT (blocked t)
      in if pend = 0 then ([], t) else deliver_loop run comes_back pend [1..<NSIG] t)"

definition sigreturn :: "sig_task \<Rightarrow> int \<times> sig_task" where
  "sigreturn t = (0, t\<lparr>blocked := old_mask t, user_sp := sigreturn_sp t\<rparr>)"

definition handle_exception :: "(nat \<Rightarrow> nat \<Rightarrow> sig_task \<Rightarrow> sig_task) \<Rightarrow> (nat \<Rightarrow> bool) \<Rightarrow> sig_task \<Rightarrow> (nat \<times> nat) list \<times> sig_task" where
  "handle_exception run comes_back t = deliver_signals run comes_back (t\<lparr>pending := pending t OR push_bit 11 1\<rparr>)"

section \<open>Delivery\<close>

lemma deliver_loop_none: "\<forall>s \<in> set sigs. \<not> bit pend s \<Longrightarrow> deliver_loop run comes_back pend sigs t = ([], t)"
  by (induction sigs) auto

lemma deliver_loop_skip:
  "\<forall>s \<in> set xs. \<not> bit pend s \<Longrightarrow> deliver_loop run comes_back pend (xs @ ys) t = deliver_loop run comes_back pend ys t"
  by (induction xs) auto

lemma bit_one_at: "sig < 64 \<Longrightarrow> bit (push_bit sig 1 :: u64) k \<longleftrightarrow> k = sig"
  by (auto simp: bit_simps)

text \<open>The delivery of the only pending signal.\<close>

lemma deliver_single:
  assumes "0 < sig" "sig < NSIG" "\<And>k. bit (pending t) k \<longleftrightarrow> k = sig" "\<not> bit (blocked t) sig" "handlers t ! sig = Handler h"
  shows "deliver_signals run comes_back t =
    (let u = run h sig (t\<lparr>pending := pending t AND NOT (push_bit sig 1), old_mask := blocked t, sigreturn_sp := user_sp t\<rparr>)
     in ([(h, sig)], u\<lparr>blocked := blocked u OR push_bit sig 1\<rparr>))"
proof -
  let ?p = "pending t AND NOT (blocked t)"
  have b: "bit ?p k \<longleftrightarrow> k = sig" for k
    using assms(2-4) by (auto simp: bit_simps NSIG_def)
  have nz: "?p \<noteq> 0" using b by (metis bit_0_eq bot_apply bot_bool_def)
  have sp: "[1..<NSIG] = [1..<sig] @ sig # [Suc sig..<NSIG]"
    using assms(1,2) upt_add_eq_append [of 1 sig "NSIG - sig"] by (simp add: upt_conv_Cons)
  have "deliver_loop run comes_back ?p [1..<NSIG] t = deliver_loop run comes_back ?p (sig # [Suc sig..<NSIG]) t"
    unfolding sp using b by (intro deliver_loop_skip) auto
  moreover have "deliver_loop run comes_back ?p [Suc sig..<NSIG] u = ([], u)" for u
    using b by (intro deliver_loop_none) auto
  ultimately show ?thesis using nz assms(5) b by (simp add: deliver_signals_def Let_def)
qed

text \<open>
  C40. The signal is blocked after its handler has returned, and stays blocked: a signal that is
  sent again is not delivered a second time unless the handler called \<open>sigreturn\<close>.
\<close>

theorem signal_delivered_once:
  assumes "0 < sig" "sig < NSIG" "pending t = 0" "\<not> bit (blocked t) sig" "handlers t ! sig = Handler h" "\<And>u. run h sig u = u"
  shows "\<exists>t1 t2 t3 t4. kill p (int sig) t = Some (0, t1) \<and> deliver_signals run comes_back t1 = ([(h, sig)], t2) \<and>
    kill p (int sig) t2 = Some (0, t3) \<and> deliver_signals run comes_back t3 = ([], t4) \<and> bit (pending t4) sig"
proof -
  have s: "\<not> (int sig < 0 \<or> 64 \<le> int sig)" "sig < 64" using assms(2) by (simp_all add: NSIG_def)
  define t1 where "t1 = t\<lparr>pending := push_bit sig 1, sig_tstate := (if sig_tstate t = TASK_BLOCKED then TASK_READY else sig_tstate t)\<rparr>"
  define t2 where "t2 = t1\<lparr>pending := 0, old_mask := blocked t, sigreturn_sp := user_sp t, blocked := blocked t OR push_bit sig 1\<rparr>"
  define t3 where "t3 = t2\<lparr>pending := push_bit sig 1, sig_tstate := (if sig_tstate t2 = TASK_BLOCKED then TASK_READY else sig_tstate t2)\<rparr>"
  have k1: "kill p (int sig) t = Some (0, t1)" using s assms(3) by (simp add: kill_def t1_def)
  have k2: "kill p (int sig) t2 = Some (0, t3)" using s by (simp add: kill_def t3_def t2_def)
  have z: "push_bit sig 1 AND NOT (push_bit sig 1) = (0 :: u64)" by (simp add: bit_eq_iff bit_simps)
  have d1: "deliver_signals run comes_back t1 = ([(h, sig)], t2)"
  proof -
    have "pending t1 = push_bit sig 1" by (simp add: t1_def)
    then have "bit (pending t1) k \<longleftrightarrow> k = sig" for k using bit_one_at [OF s(2)] by (simp only:)
    moreover have "\<not> bit (blocked t1) sig" "handlers t1 ! sig = Handler h" using assms(4,5) by (simp_all add: t1_def)
    ultimately have "deliver_signals run comes_back t1 =
        ([(h, sig)], t1\<lparr>pending := pending t1 AND NOT (push_bit sig 1), old_mask := blocked t1, sigreturn_sp := user_sp t1, blocked := blocked t1 OR push_bit sig 1\<rparr>)"
      using deliver_single [OF assms(1,2), of t1 h run comes_back] assms(6) by simp
    then show ?thesis using z by (simp add: t2_def t1_def)
  qed
  have "pending t3 AND NOT (blocked t3) = 0"
    by (rule bit_word_eqI) (simp add: t3_def t2_def t1_def bit_simps)
  then have "deliver_signals run comes_back t3 = ([], t3)" by (simp add: deliver_signals_def)
  moreover have "pending t3 = push_bit sig 1" by (simp add: t3_def)
  then have "bit (pending t3) sig" using bit_one_at [OF s(2)] by (simp only:)
  ultimately show ?thesis using k1 k2 d1 by blast
qed

theorem signal_delivered_once_witness:
  "let t = \<lparr>handlers = replicate 32 (Handler 7), pending = 0, blocked = 0, old_mask = 0, sigreturn_sp = 0, user_sp = 0, sig_tstate = TASK_RUNNING\<rparr>
   in \<exists>t1 t2 t3 t4. kill 1 15 t = Some (0, t1) \<and> deliver_signals (\<lambda>h s u. u) (\<lambda>s. False) t1 = ([(7, 15)], t2) \<and>
     kill 1 15 t2 = Some (0, t3) \<and> deliver_signals (\<lambda>h s u. u) (\<lambda>s. False) t3 = ([], t4) \<and> bit (pending t4) 15"
  using signal_delivered_once [of 15 "\<lparr>handlers = replicate 32 (Handler 7), pending = 0, blocked = 0, old_mask = 0, sigreturn_sp = 0, user_sp = 0,
      sig_tstate = TASK_RUNNING\<rparr>" 7 "\<lambda>h s u. u" 1 "\<lambda>s. False"]
  by (simp add: NSIG_def)

end
