(* ===== verification/Ringq.thy ===== *)
theory Ringq
  imports Prelude
begin

text \<open>
  What the drivers share about the rings of descriptors between them and a device: the contract of a bounded queue
  with two ends, as a locale, and the cycle bits by which an xHCI controller and its driver tell the entries of
  one lap from those of the lap before.
\<close>

section \<open>Queues with two ends\<close>

text \<open>
  A bounded queue that one party fills and another empties: what is put in while there is room comes
  out in order. The driver and the device share two such rings, in opposite directions.
\<close>

datatype 'x ring_op = Put 'x | Get

fun ring_puts :: "'x ring_op list \<Rightarrow> 'x list" where
  "ring_puts [] = []"
| "ring_puts (Put x # ops) = x # ring_puts ops"
| "ring_puts (Get # ops) = ring_puts ops"

fun ring_rounds :: "'x list list \<Rightarrow> 'x ring_op list" where
  "ring_rounds [] = []"
| "ring_rounds (b # bs) = map Put b @ replicate (length b) Get @ ring_rounds bs"

locale ring_queue =
  fixes inv :: "'s \<Rightarrow> bool"
    and items :: "'s \<Rightarrow> 'x list"
    and put :: "'x \<Rightarrow> 's \<Rightarrow> bool \<times> 's"
    and get :: "'s \<Rightarrow> 'x option \<times> 's"
    and cap :: nat
    and ok :: "'x \<Rightarrow> bool"
  assumes put_spec: "inv s \<Longrightarrow> ok x \<Longrightarrow> \<exists>s'. put x s = (length (items s) < cap, s') \<and> inv s' \<and>
      items s' = (if length (items s) < cap then items s @ [x] else items s)"
    and get_spec: "inv s \<Longrightarrow> \<exists>s'. get s = (case items s of [] \<Rightarrow> None | x # _ \<Rightarrow> Some x, s') \<and> inv s' \<and> items s' = tl (items s)"
    and cap_bound: "inv s \<Longrightarrow> length (items s) \<le> cap"
begin

fun run :: "'s \<Rightarrow> 'x ring_op list \<Rightarrow> 's \<times> 'x list \<times> 'x list" where
  "run s [] = (s, [], [])"
| "run s (Put x # ops) = (let (b, s) = put x s; (s, acc, out) = run s ops in (s, if b then x # acc else acc, out))"
| "run s (Get # ops) = (let (r, s) = get s; (s, acc, out) = run s ops in (s, acc, case r of None \<Rightarrow> out | Some x \<Rightarrow> x # out))"

lemma run_fifo:
  assumes "inv s" "\<forall>x. Put x \<in> set ops \<longrightarrow> ok x" "run s ops = (s', acc, out)"
  shows "inv s' \<and> items s @ acc = out @ items s'"
  using assms
proof (induction s ops arbitrary: acc out rule: run.induct)
  case (2 s x ops)
  obtain s1 where 1: "put x s = (length (items s) < cap, s1)" "inv s1"
    "items s1 = (if length (items s) < cap then items s @ [x] else items s)" using put_spec [of s x] 2 by auto
  obtain s2 acc' out' where r: "run s1 ops = (s2, acc', out')" by (cases "run s1 ops")
  then have "inv s2 \<and> items s1 @ acc' = out' @ items s2" using 2 1 by auto
  then show ?case using 2(4) r 1 by (auto split: if_splits)
next
  case (3 s ops)
  obtain s1 where 1: "get s = (case items s of [] \<Rightarrow> None | x # _ \<Rightarrow> Some x, s1)" "inv s1" "items s1 = tl (items s)"
    using get_spec [of s] 3 by auto
  obtain s2 acc' out' where r: "run s1 ops = (s2, acc', out')" by (cases "run s1 ops")
  then have "inv s2 \<and> items s1 @ acc' = out' @ items s2" using 3 1 by auto
  then show ?case using 3(4) r 1 by (cases "items s") auto
qed simp

text \<open>Nothing is lost while every put finds room, and \<open>cap\<close> gets empty the ring.\<close>

lemma gets_all: "inv s \<Longrightarrow> length (items s) \<le> n \<Longrightarrow> \<exists>s'. run s (replicate n Get) = (s', [], items s) \<and> inv s' \<and> items s' = []"
proof (induction n arbitrary: s)
  case (Suc n)
  obtain s1 where 1: "get s = (case items s of [] \<Rightarrow> None | x # _ \<Rightarrow> Some x, s1)" "inv s1" "items s1 = tl (items s)"
    using get_spec [of s] Suc by auto
  have "length (items s1) \<le> n" using Suc.prems 1(3) by simp
  then obtain s2 where "run s1 (replicate n Get) = (s2, [], tl (items s)) \<and> inv s2 \<and> items s2 = []"
    using Suc.IH [of s1] 1 by auto
  then show ?case using 1 by (cases "items s") auto
qed simp

lemma run_append:
  "run s (ops @ ops') = (let (s1, acc, out) = run s ops; (s2, acc', out') = run s1 ops' in (s2, acc @ acc', out @ out'))"
  by (induction s ops rule: run.induct) (auto split: prod.splits option.splits)

lemma run_drained:
  assumes "inv s" "\<forall>x. Put x \<in> set ops \<longrightarrow> ok x" "items s = []"
  shows "\<exists>s' acc. run s (ops @ replicate cap Get) = (s', acc, acc)"
proof -
  obtain s1 acc out where r: "run s ops = (s1, acc, out)" by (cases "run s ops")
  then have 1: "inv s1" "acc = out @ items s1" using run_fifo [OF assms(1,2) r] assms(3) by auto
  obtain s2 where "run s1 (replicate cap Get) = (s2, [], items s1)" using gets_all [OF 1(1) cap_bound [OF 1(1)]] by blast
  then show ?thesis using r 1(2) by (simp add: run_append)
qed

lemma run_accepts:
  assumes "inv s" "\<forall>x. Put x \<in> set ops \<longrightarrow> ok x" "length (items s) + length (ring_puts ops) \<le> cap"
  shows "fst (snd (run s ops)) = ring_puts ops"
  using assms
proof (induction s ops rule: run.induct)
  case (2 s x ops)
  obtain s1 where 1: "put x s = (True, s1)" "inv s1" "items s1 = items s @ [x]" using put_spec [of s x] 2 by auto
  then show ?case using 2 by (auto split: prod.split)
next
  case (3 s ops)
  obtain r s1 where 1: "get s = (r, s1)" "inv s1" "items s1 = tl (items s)" using get_spec [of s] 3 by auto
  then show ?case using 3 by (auto split: prod.split)
qed simp

lemma ring_puts_append: "ring_puts (ops @ replicate n Get) = ring_puts ops"
  by (induction ops rule: ring_puts.induct) (induction n, auto)

text \<open>Rounds: what is put in is taken out before more is put in. However many rounds there are, nothing is lost.\<close>

lemma run_puts:
  "inv s \<Longrightarrow> list_all ok b \<Longrightarrow> length (items s) + length b \<le> cap \<Longrightarrow>
    \<exists>s'. run s (map Put b) = (s', b, []) \<and> inv s' \<and> items s' = items s @ b"
proof (induction b arbitrary: s)
  case (Cons x b)
  obtain s1 where 1: "put x s = (True, s1)" "inv s1" "items s1 = items s @ [x]" using put_spec [of s x] Cons.prems by auto
  then obtain s2 where "run s1 (map Put b) = (s2, b, [])" "inv s2" "items s2 = items s1 @ b" using Cons.IH [of s1] Cons.prems by auto
  then show ?case using 1 by simp
qed simp

lemma run_rounds:
  "inv s \<Longrightarrow> items s = [] \<Longrightarrow> list_all (\<lambda>b. list_all ok b \<and> length b \<le> cap) bs \<Longrightarrow>
    \<exists>s'. run s (ring_rounds bs) = (s', concat bs, concat bs) \<and> inv s' \<and> items s' = []"
proof (induction bs arbitrary: s)
  case (Cons b bs)
  obtain s1 where 1: "run s (map Put b) = (s1, b, [])" "inv s1" "items s1 = b" using run_puts [of s b] Cons.prems by auto
  obtain s2 where 2: "run s1 (replicate (length b) Get) = (s2, [], b)" "inv s2" "items s2 = []" using gets_all [of s1 "length b"] 1 by auto
  obtain s3 where "run s2 (ring_rounds bs) = (s3, concat bs, concat bs)" "inv s3" "items s3 = []" using Cons.IH [OF 2(2,3)] Cons.prems by auto
  then show ?case using 1(1) 2(1) by (simp add: run_append)
qed simp

end

section \<open>Cycle bits\<close>

text \<open>
  Entry \<open>k\<close> of a ring of \<open>N\<close> goes to place \<open>k mod N\<close>; its cycle bit is set in the laps 0, 2, 4 \<dots>. After \<open>p\<close>
  entries the places ahead still have the bits of the lap before.
\<close>

definition laps :: "nat \<Rightarrow> (nat \<Rightarrow> bool) \<Rightarrow> nat \<Rightarrow> bool" where
  "laps N b p \<longleftrightarrow> (\<forall>k. p \<le> k \<and> k < p + N \<longrightarrow> b (k mod N) = odd (k div N))"

lemma laps_start: "(\<And>i. i < N \<Longrightarrow> \<not> b i) \<Longrightarrow> laps N b 0"
  by (simp add: laps_def)

lemma laps_ahead: "laps N b p \<Longrightarrow> 0 < N \<Longrightarrow> b (p mod N) = odd (p div N)"
  by (simp add: laps_def)

lemma laps_pending:
  assumes "laps N b p" "c \<le> k" "k < p" "p \<le> c + N"
  shows "b (k mod N) = even (k div N)"
proof -
  have "p \<le> k + N" "k + N < p + N" "0 < N" using assms by linarith+
  then have "b ((k + N) mod N) = odd ((k + N) div N)" using assms(1) unfolding laps_def by blast
  then show ?thesis using \<open>0 < N\<close> by (simp add: div_add_self2)
qed

lemma mod_other: "p < k + N \<Longrightarrow> k < p \<Longrightarrow> k mod N \<noteq> p mod (N :: nat)"
  using mod_eq_dvd_iff_nat [of k p N] by (auto dest: dvd_imp_le)

lemma laps_step:
  assumes "laps N b p" "0 < N" "b' (p mod N) = even (p div N)" "\<And>i. i < N \<Longrightarrow> i \<noteq> p mod N \<Longrightarrow> b' i = b i"
  shows "laps N b' (p + 1)"
  unfolding laps_def
proof (intro allI impI)
  fix k assume k: "p + 1 \<le> k \<and> k < p + 1 + N"
  show "b' (k mod N) = odd (k div N)"
  proof (cases "k = p + N")
    case True
    then show ?thesis using assms(2,3) by (simp add: div_add_self2)
  next
    case False
    then have "k mod N \<noteq> p mod N" using mod_other [of k p N] k by force
    then show ?thesis using assms k False by (simp add: laps_def)
  qed
qed

lemma last_place: "0 < N \<Longrightarrow> p mod N + 1 \<ge> N \<longleftrightarrow> Suc (p mod N) = (N :: nat)"
  using mod_less_divisor [of N p] by linarith

lemma next_place: "0 < N \<Longrightarrow> (if p mod N + 1 \<ge> N then 0 else p mod N + 1) = (p + 1) mod (N :: nat)"
  by (simp only: last_place) (simp add: mod_Suc)

lemma next_lap: "0 < N \<Longrightarrow> even ((p + 1) div N) = (if p mod N + 1 \<ge> N then odd (p div N) else even (p div (N :: nat)))"
  by (simp only: last_place) (simp add: div_Suc mod_Suc)

end
