(* ===== verification/Genet.thy ===== *)
theory Genet
  imports Ringq
begin

text \<open>
  drivers/net/genet.c: the Ethernet driver, with its transmit and receive rings of 64 descriptors.
  The device's registers are a function from the register names of bcmgenetreg.h to words (queue 16
  is the only one used); writes to them and reads of them are those of the source. What the device
  does with them is the second part of the theory: a model of its two DMA engines, against which
  the driver's rings are shown to be queues. Delays, barriers and cache maintenance have no effect here.
\<close>

section \<open>State\<close>

datatype reg =
  SYS_REV_CTRL | SYS_PORT_CTRL | SYS_RBUF_FLUSH_CTRL | EXT_RGMII_OOB_CTRL | INTRL2_CPU_CLEAR | INTRL2_CPU_SET_MASK
| RBUF_CTRL | RBUF_TBUF_SIZE_CTRL | UMAC_CMD | UMAC_MAC0 | UMAC_MAC1 | UMAC_MAX_FRAME_LEN | UMAC_MIB_CTRL
| UMAC_MDF_CTRL | UMAC_MDF_ADDR0 nat | UMAC_MDF_ADDR1 nat
| RX_WRITE_PTR_LO | RX_WRITE_PTR_HI | RX_PROD_INDEX | RX_CONS_INDEX | RX_RING_BUF_SIZE | RX_START_ADDR_LO | RX_START_ADDR_HI
| RX_END_ADDR_LO | RX_END_ADDR_HI | RX_XON_XOFF_THRES | RX_READ_PTR_LO | RX_READ_PTR_HI
| TX_READ_PTR_LO | TX_READ_PTR_HI | TX_CONS_INDEX | TX_PROD_INDEX | TX_RING_BUF_SIZE | TX_START_ADDR_LO | TX_START_ADDR_HI
| TX_END_ADDR_LO | TX_END_ADDR_HI | TX_MBUF_DONE_THRES | TX_FLOW_PERIOD | TX_WRITE_PTR_LO | TX_WRITE_PTR_HI
| RX_RING_CFG | RX_DMA_CTRL | RX_SCB_BURST_SIZE | TX_RING_CFG | TX_DMA_CTRL | TX_SCB_BURST_SIZE
| RX_DESC_STATUS nat | RX_DESC_ADDRESS_LO nat | RX_DESC_ADDRESS_HI nat
| TX_DESC_STATUS nat | TX_DESC_ADDRESS_LO nat | TX_DESC_ADDRESS_HI nat

definition rx_ringbase :: nat where "rx_ringbase = 0x2000 + 0xc00 + 0x40 * 16"
definition tx_ringbase :: nat where "tx_ringbase = 0x4000 + 0xc00 + 0x40 * 16"

text \<open>The offsets of the registers; different registers (of the descriptors 0 to 63) have different offsets.\<close>

fun reg_offset :: "reg \<Rightarrow> nat" where
  "reg_offset SYS_REV_CTRL = 0x000" | "reg_offset SYS_PORT_CTRL = 0x004" | "reg_offset SYS_RBUF_FLUSH_CTRL = 0x008"
| "reg_offset EXT_RGMII_OOB_CTRL = 0x08c" | "reg_offset INTRL2_CPU_CLEAR = 0x208" | "reg_offset INTRL2_CPU_SET_MASK = 0x210"
| "reg_offset RBUF_CTRL = 0x300" | "reg_offset RBUF_TBUF_SIZE_CTRL = 0x3b4" | "reg_offset UMAC_CMD = 0x808"
| "reg_offset UMAC_MAC0 = 0x80c" | "reg_offset UMAC_MAC1 = 0x810" | "reg_offset UMAC_MAX_FRAME_LEN = 0x814"
| "reg_offset UMAC_MIB_CTRL = 0xd80" | "reg_offset UMAC_MDF_CTRL = 0xe50"
| "reg_offset (UMAC_MDF_ADDR0 n) = 0xe54 + n * 8" | "reg_offset (UMAC_MDF_ADDR1 n) = 0xe58 + n * 8"
| "reg_offset RX_WRITE_PTR_LO = rx_ringbase" | "reg_offset RX_WRITE_PTR_HI = rx_ringbase + 0x04"
| "reg_offset RX_PROD_INDEX = rx_ringbase + 0x08" | "reg_offset RX_CONS_INDEX = rx_ringbase + 0x0c"
| "reg_offset RX_RING_BUF_SIZE = rx_ringbase + 0x10" | "reg_offset RX_START_ADDR_LO = rx_ringbase + 0x14"
| "reg_offset RX_START_ADDR_HI = rx_ringbase + 0x18" | "reg_offset RX_END_ADDR_LO = rx_ringbase + 0x1c"
| "reg_offset RX_END_ADDR_HI = rx_ringbase + 0x20" | "reg_offset RX_XON_XOFF_THRES = rx_ringbase + 0x28"
| "reg_offset RX_READ_PTR_LO = rx_ringbase + 0x2c" | "reg_offset RX_READ_PTR_HI = rx_ringbase + 0x30"
| "reg_offset TX_READ_PTR_LO = tx_ringbase" | "reg_offset TX_READ_PTR_HI = tx_ringbase + 0x04"
| "reg_offset TX_CONS_INDEX = tx_ringbase + 0x08" | "reg_offset TX_PROD_INDEX = tx_ringbase + 0x0c"
| "reg_offset TX_RING_BUF_SIZE = tx_ringbase + 0x10" | "reg_offset TX_START_ADDR_LO = tx_ringbase + 0x14"
| "reg_offset TX_START_ADDR_HI = tx_ringbase + 0x18" | "reg_offset TX_END_ADDR_LO = tx_ringbase + 0x1c"
| "reg_offset TX_END_ADDR_HI = tx_ringbase + 0x20" | "reg_offset TX_MBUF_DONE_THRES = tx_ringbase + 0x24"
| "reg_offset TX_FLOW_PERIOD = tx_ringbase + 0x28" | "reg_offset TX_WRITE_PTR_LO = tx_ringbase + 0x2c"
| "reg_offset TX_WRITE_PTR_HI = tx_ringbase + 0x30"
| "reg_offset RX_RING_CFG = 0x3040" | "reg_offset RX_DMA_CTRL = 0x3044" | "reg_offset RX_SCB_BURST_SIZE = 0x304c"
| "reg_offset TX_RING_CFG = 0x5040" | "reg_offset TX_DMA_CTRL = 0x5044" | "reg_offset TX_SCB_BURST_SIZE = 0x504c"
| "reg_offset (RX_DESC_STATUS i) = 0x2000 + 12 * i" | "reg_offset (RX_DESC_ADDRESS_LO i) = 0x2004 + 12 * i"
| "reg_offset (RX_DESC_ADDRESS_HI i) = 0x2008 + 12 * i" | "reg_offset (TX_DESC_STATUS i) = 0x4000 + 12 * i"
| "reg_offset (TX_DESC_ADDRESS_LO i) = 0x4004 + 12 * i" | "reg_offset (TX_DESC_ADDRESS_HI i) = 0x4008 + 12 * i"

text \<open>The driver's state: the registers, the packet buffers (and where the linker put them), the static variables.\<close>

record genet =
  regs :: "reg \<Rightarrow> u32"
  rx_bufs :: "bytes list"
  tx_bufs :: "bytes list"
  rx_base :: u32
  tx_base :: u32
  genet_mac :: mac6
  g_rx_cidx :: u16
  g_tx_pidx :: u16
  g_tx_cidx :: u16
  g_genet_ok :: bool
  g_rx_count :: u32
  g_rx_fcs :: u32
  mdio_log :: "(u16 \<times> u16) list"

definition GW4 :: "reg \<Rightarrow> u32 \<Rightarrow> genet \<Rightarrow> genet" where
  "GW4 r v g = g\<lparr>regs := (regs g)(r := v)\<rparr>"

definition GENET_MAX_FRAME_LEN :: u32 where "GENET_MAX_FRAME_LEN = 1536"
definition GENET_BUF_SIZE :: nat where "GENET_BUF_SIZE = 2048"
definition DESC_COUNT :: nat where "DESC_COUNT = 64"

definition buf_addr :: "u32 \<Rightarrow> nat \<Rightarrow> u32" where
  "buf_addr base i = base + of_nat (i * GENET_BUF_SIZE)"

section \<open>Initialisation\<close>

definition genet_reset :: "genet \<Rightarrow> genet" where
  "genet_reset g =
     (let v = regs g SYS_RBUF_FLUSH_CTRL OR 2;
          g = GW4 SYS_RBUF_FLUSH_CTRL v g;
          g = GW4 SYS_RBUF_FLUSH_CTRL (v AND NOT 2) g;
          g = GW4 SYS_RBUF_FLUSH_CTRL 0 g;
          g = GW4 UMAC_CMD 0 g;
          g = GW4 UMAC_CMD (push_bit 15 1 OR push_bit 13 1) g;
          g = GW4 UMAC_CMD 0 g;
          g = GW4 UMAC_MIB_CTRL (2 OR 4 OR 1) g;
          g = GW4 UMAC_MIB_CTRL 0 g;
          g = GW4 UMAC_MAX_FRAME_LEN 1536 g;
          g = GW4 RBUF_CTRL 2 g
      in GW4 RBUF_TBUF_SIZE_CTRL 1 g)"

definition CMD_SPEED :: u32 where "CMD_SPEED = 0xC"
definition CMD_PROMISC :: u32 where "CMD_PROMISC = 0x10"
definition CMD_TX_RX_EN :: u32 where "CMD_TX_RX_EN = 0x20000000"

fun mac_words :: "mac6 \<Rightarrow> u32 \<times> u32" where
  "mac_words (a, b, c, d, e, f) = (be32 a b c d, ucast (be16 e f))"

definition genet_setup_rxfilter :: "mac6 \<Rightarrow> genet \<Rightarrow> genet" where
  "genet_setup_rxfilter mac g =
     (let g = GW4 (UMAC_MDF_ADDR0 0) (fst (mac_words mac)) g;
          g = GW4 (UMAC_MDF_ADDR1 0) (snd (mac_words mac)) g;
          g = GW4 (UMAC_MDF_ADDR0 1) 0xffffffff g;
          g = GW4 (UMAC_MDF_ADDR1 1) 0x0000ffff g;
          g = GW4 UMAC_MDF_CTRL 0 g
      in GW4 UMAC_CMD ((regs g UMAC_CMD AND NOT CMD_SPEED) OR CMD_PROMISC OR push_bit 2 2) g)"

fun rx_descs :: "nat list \<Rightarrow> genet \<Rightarrow> genet" where
  "rx_descs [] g = g"
| "rx_descs (i # is) g =
     rx_descs is (GW4 (RX_DESC_ADDRESS_HI i) 0 (GW4 (RX_DESC_ADDRESS_LO i) (buf_addr (rx_base g) i) (GW4 (RX_DESC_STATUS i) 0 g)))"

definition genet_init_rings :: "genet \<Rightarrow> genet" where
  "genet_init_rings g =
     (let g = GW4 RX_RING_CFG 0 g;
          g = GW4 RX_DMA_CTRL 0 g;
          g = GW4 TX_SCB_BURST_SIZE 8 g;
          g = GW4 TX_READ_PTR_LO 0 g;
          g = GW4 TX_READ_PTR_HI 0 g;
          g = GW4 TX_CONS_INDEX 0 g;
          g = GW4 TX_PROD_INDEX 0 g;
          g = GW4 TX_RING_BUF_SIZE (push_bit 16 64 OR 2048) g;
          g = GW4 TX_START_ADDR_LO 0 g;
          g = GW4 TX_START_ADDR_HI 0 g;
          g = GW4 TX_END_ADDR_LO 191 g;
          g = GW4 TX_END_ADDR_HI 0 g;
          g = GW4 TX_MBUF_DONE_THRES 1 g;
          g = GW4 TX_FLOW_PERIOD 0 g;
          g = GW4 TX_WRITE_PTR_LO 0 g;
          g = GW4 TX_WRITE_PTR_HI 0 g;
          g = GW4 TX_RING_CFG (push_bit 16 1) g;
          g = GW4 TX_DMA_CTRL (regs g TX_DMA_CTRL OR 1 OR push_bit 17 1) g;
          g = GW4 RX_SCB_BURST_SIZE 8 g;
          g = GW4 RX_WRITE_PTR_LO 0 g;
          g = GW4 RX_WRITE_PTR_HI 0 g;
          g = g\<lparr>g_rx_cidx := ucast (regs g RX_PROD_INDEX AND 0xffff)\<rparr>;
          g = GW4 RX_PROD_INDEX 0 g;
          g = GW4 RX_CONS_INDEX 0 g;
          g = GW4 RX_RING_BUF_SIZE (push_bit 16 64 OR 2048) g;
          g = GW4 RX_START_ADDR_LO 0 g;
          g = GW4 RX_START_ADDR_HI 0 g;
          g = GW4 RX_END_ADDR_LO 191 g;
          g = GW4 RX_END_ADDR_HI 0 g;
          g = GW4 RX_XON_XOFF_THRES (push_bit 16 5 OR 4) g;
          g = GW4 RX_READ_PTR_LO 0 g;
          g = GW4 RX_READ_PTR_HI 0 g;
          g = rx_descs [0..<DESC_COUNT] g;
          g = GW4 RX_RING_CFG (push_bit 16 1) g;
          g = GW4 RX_DMA_CTRL (regs g RX_DMA_CTRL OR 1 OR push_bit 17 1) g
      in g\<lparr>g_tx_pidx := 0, g_tx_cidx := 0\<rparr>)"

definition genet_disable_intr :: "genet \<Rightarrow> genet" where
  "genet_disable_intr g = GW4 INTRL2_CPU_CLEAR 0xffffffff (GW4 INTRL2_CPU_SET_MASK 0xffffffff g)"

text \<open>The PHY answers a read of its register \<open>r\<close> with \<open>phy r\<close> (\<open>0xffff\<close> on a timeout); writes to it are logged.\<close>

definition genet_mdio_write :: "u16 \<Rightarrow> u16 \<Rightarrow> genet \<Rightarrow> genet" where
  "genet_mdio_write r v g = g\<lparr>mdio_log := mdio_log g @ [(r, v)]\<rparr>"

definition genet_phy_init :: "(u16 \<Rightarrow> u16) \<Rightarrow> genet \<Rightarrow> int \<times> genet" where
  "genet_phy_init phy g =
     (if phy 2 = 0xffff \<and> phy 3 = 0xffff then (-1, g)
      else (0, genet_mdio_write 0 (0x1000 OR 0x0200) (genet_mdio_write 0 0x8000 g)))"

text \<open>\<open>mbox\<close> is the answer of the firmware to the request for the board's MAC address.\<close>

definition genet_init :: "(u16 \<Rightarrow> u16) \<Rightarrow> mac6 option \<Rightarrow> genet \<Rightarrow> genet" where
  "genet_init phy mbox g =
     (let maj = drop_bit 24 (regs g SYS_REV_CTRL AND 0x0F000000);
          maj = (if maj = 0 then 1 else if maj = 5 \<or> maj = 6 then maj - 1 else maj)
      in if maj \<noteq> 5 then g
         else
           let mac = (case mbox of Some m \<Rightarrow> m | None \<Rightarrow> (0xde, 0xad, 0xbe, 0xef, 0x00, 0x01));
               g = g\<lparr>genet_mac := mac\<rparr>;
               g = GW4 SYS_PORT_CTRL 3 g;
               g = GW4 EXT_RGMII_OOB_CTRL (regs g EXT_RGMII_OOB_CTRL OR push_bit 16 1 OR push_bit 6 1) g;
               g = genet_reset g;
               g = GW4 UMAC_MAC0 (fst (mac_words mac)) g;
               g = GW4 UMAC_MAC1 (snd (mac_words mac)) g;
               g = genet_setup_rxfilter mac g;
               g = genet_init_rings g;
               g = genet_disable_intr g;
               g = GW4 UMAC_CMD (regs g UMAC_CMD OR 1 OR 2) g;
               g = g\<lparr>g_genet_ok := True\<rparr>
           in snd (genet_phy_init phy g))"

definition genet_link_up :: "(u16 \<Rightarrow> u16) \<Rightarrow> genet \<Rightarrow> int" where
  "genet_link_up phy g = (if \<not> g_genet_ok g then 0 else if phy 1 AND 0x0004 \<noteq> 0 then 1 else 0)"

definition genet_apply_link :: "(u16 \<Rightarrow> u16) \<Rightarrow> genet \<Rightarrow> genet" where
  "genet_apply_link phy g =
     (if \<not> g_genet_ok g then g
      else
        let spd = (if phy 10 AND 0x0C00 \<noteq> 0 then 2 else if phy 5 AND 0x0180 \<noteq> 0 then 1 else 0);
            cmd = (regs g UMAC_CMD AND NOT CMD_SPEED) OR push_bit 2 spd OR CMD_PROMISC OR CMD_TX_RX_EN OR 1 OR 2;
            g = GW4 UMAC_CMD cmd g;
            oob = regs g EXT_RGMII_OOB_CTRL;
            oob = (if spd = 2 then oob OR push_bit 16 1 else oob AND NOT (push_bit 16 1));
            oob = (oob AND NOT (push_bit 5 1)) OR push_bit 4 1
        in GW4 EXT_RGMII_OOB_CTRL oob g)"

section \<open>Sending and receiving\<close>

definition genet_send :: "bytes \<Rightarrow> genet \<Rightarrow> int \<times> genet" where
  "genet_send frame g =
     (let len = of_nat (length frame) :: u32
      in if \<not> g_genet_ok g \<or> length frame = 0 \<or> length frame > unat GENET_MAX_FRAME_LEN then (-1, g)
         else
           let cidx = regs g TX_CONS_INDEX AND 0xffff;
               used = g_tx_pidx g - ucast cidx
           in if used \<ge> of_nat (DESC_COUNT - 1) then (-1, g)
              else
                let idx = unat (g_tx_pidx g AND of_nat (DESC_COUNT - 1));
                    g = g\<lparr>tx_bufs := (tx_bufs g)[idx := frame @ drop (length frame) (tx_bufs g ! idx)]\<rparr>;
                    g = GW4 (TX_DESC_ADDRESS_LO idx) (buf_addr (tx_base g) idx) g;
                    g = GW4 (TX_DESC_ADDRESS_HI idx) 0 g;
                    g = GW4 (TX_DESC_STATUS idx) (push_bit 16 len OR push_bit 13 1 OR push_bit 14 1 OR push_bit 6 1) g;
                    g = g\<lparr>g_tx_pidx := g_tx_pidx g + 1\<rparr>
                in (0, GW4 TX_PROD_INDEX (ucast (g_tx_pidx g)) g))"

definition genet_rx_available :: "genet \<Rightarrow> int" where
  "genet_rx_available g = (if \<not> g_genet_ok g then 0 else uint (ucast (regs g RX_PROD_INDEX) - g_rx_cidx g))"

definition genet_rx_pidx_raw :: "genet \<Rightarrow> u32" where
  "genet_rx_pidx_raw g = (if \<not> g_genet_ok g then 0 else regs g RX_PROD_INDEX AND 0xffff)"

text \<open>
  \<open>genet_poll_rx\<close>: the length, and the frame copied to the caller's buffer when it is positive. A copy
  beyond the end of the packet buffer is a fault.
\<close>

definition genet_poll_rx :: "u32 \<Rightarrow> genet \<Rightarrow> (int \<times> bytes \<times> genet) option" where
  "genet_poll_rx maxlen g =
     (if \<not> g_genet_ok g then Some (-1, [], g)
      else
        let total = ucast (regs g RX_PROD_INDEX) - g_rx_cidx g
        in if total = 0 then Some (0, [], g)
           else
             let idx = unat (g_rx_cidx g AND of_nat (DESC_COUNT - 1));
                 status = regs g (RX_DESC_STATUS idx);
                 raw_len = drop_bit 16 (status AND 0x0FFF0000);
                 g = g\<lparr>g_rx_cidx := g_rx_cidx g + 1\<rparr>;
                 g = GW4 RX_CONS_INDEX (ucast (g_rx_cidx g)) g
             in if status AND 0x1F \<noteq> 0
                then Some (0, [], if status AND 2 \<noteq> 0 then g\<lparr>g_rx_fcs := g_rx_fcs g + 1\<rparr> else g)
                else if raw_len \<le> 2 then Some (0, [], g)
                else if raw_len - 2 > maxlen then Some (0, [], g)
                else do {
                  d \<leftarrow> rdn (rx_bufs g ! idx) 2 (unat (raw_len - 2));
                  Some (int (unat (raw_len - 2)), d, g\<lparr>g_rx_count := g_rx_count g + 1\<rparr>)
                })"

section \<open>The device\<close>

text \<open>
  The transmit engine sends the frame of the next descriptor while its consumer index is behind the
  producer index; the receive engine puts a frame behind two alignment bytes into the buffer of the
  next descriptor, while the ring is not full, and stores its length and error bits.
\<close>

definition tx_dma :: "genet \<Rightarrow> bytes option \<times> genet" where
  "tx_dma g =
     (let cons = ucast (regs g TX_CONS_INDEX) :: u16
      in if ucast (regs g TX_PROD_INDEX) = cons then (None, g)
         else let i = unat (cons AND 63);
                  len = unat (drop_bit 16 (regs g (TX_DESC_STATUS i) AND 0x0FFF0000));
                  b = unat (regs g (TX_DESC_ADDRESS_LO i) - tx_base g) div 2048
              in (Some (take len (tx_bufs g ! b)), GW4 TX_CONS_INDEX (ucast (cons + 1)) g))"

definition rx_dma :: "u32 \<Rightarrow> bytes \<Rightarrow> genet \<Rightarrow> bool \<times> genet" where
  "rx_dma errs frame g =
     (let prod = ucast (regs g RX_PROD_INDEX) :: u16;
          i = unat (prod AND 63);
          b = unat (regs g (RX_DESC_ADDRESS_LO i) - rx_base g) div 2048
      in if prod - ucast (regs g RX_CONS_INDEX) \<ge> 64 then (False, g)
         else (True, GW4 RX_PROD_INDEX (ucast (prod + 1))
           (GW4 (RX_DESC_STATUS i) (push_bit 16 (of_nat (length frame + 2)) OR 0x6000 OR errs)
             (g\<lparr>rx_bufs := (rx_bufs g)[b := [0, 0] @ frame @ drop (length frame + 2) (rx_bufs g ! b)]\<rparr>))))"

section \<open>The rings as queues\<close>

lemma GW4_simps [simp]:
  "regs (GW4 r v g) = (regs g)(r := v)" "rx_bufs (GW4 r v g) = rx_bufs g" "tx_bufs (GW4 r v g) = tx_bufs g"
  "rx_base (GW4 r v g) = rx_base g" "tx_base (GW4 r v g) = tx_base g" "g_rx_cidx (GW4 r v g) = g_rx_cidx g"
  "g_tx_pidx (GW4 r v g) = g_tx_pidx g" "g_genet_ok (GW4 r v g) = g_genet_ok g" "g_rx_count (GW4 r v g) = g_rx_count g"
  "genet_mac (GW4 r v g) = genet_mac g" "g_tx_cidx (GW4 r v g) = g_tx_cidx g" "g_rx_fcs (GW4 r v g) = g_rx_fcs g"
  by (simp_all add: GW4_def)

definition slot :: "u16 \<Rightarrow> nat \<Rightarrow> nat" where
  "slot c k = (unat c + k) mod 64"

lemma slot_and: "unat ((c + of_nat k) AND (63 :: u16)) = slot c k"
proof -
  have "(c + of_nat k) AND (63 :: u16) = take_bit 6 (c + of_nat k)" by (simp add: take_bit_eq_mask mask_numeral)
  then have "unat ((c + of_nat k) AND (63 :: u16)) = unat (c + of_nat k) mod 64"
    by (simp add: take_bit_eq_mod unat_mod)
  also have "unat (c + of_nat k) = (unat c + k) mod 65536"
    by (simp add: unat_word_ariths unat_of_nat mod_simps)
  finally show ?thesis by (simp add: slot_def mod_mod_cancel)
qed

lemmas slot_and0 = slot_and [of c 0 for c, simplified]

lemma slot_less [simp]: "slot c k < 64"
  by (simp add: slot_def)

lemma slot_inj: "k < n \<Longrightarrow> n < k + 64 \<Longrightarrow> slot c k \<noteq> slot c n"
  using mod_eq_dvd_iff_nat [of "unat c + k" "unat c + n" 64] dvd_imp_le [of 64 "n - k"] by (auto simp: slot_def)

lemma slot_next: "slot (c + 1) k = slot c (Suc k)"
  using slot_and [of "c + 1" k] slot_and [of c "Suc k"] by (simp add: add.assoc)

text \<open>The length field of a descriptor.\<close>

lemma desc_len:
  assumes "n < 4096"
  shows "drop_bit 16 ((push_bit 16 (of_nat n) OR f) AND 0x0FFF0000) = (of_nat n OR drop_bit 16 f) AND (0x0FFF :: u32)"
proof -
  have "drop_bit 16 (push_bit 16 (of_nat n)) = (of_nat n :: u32)"
    using assms by (simp add: word_unat_eq_iff drop_bit_eq_div push_bit_eq_mult unat_div unat_word_ariths unat_of_nat)
  then show ?thesis by (simp add: drop_bit_and drop_bit_or)
qed

lemma desc_len_unat:
  assumes "n < 4096" "drop_bit 16 f = (0 :: u32)"
  shows "drop_bit 16 ((push_bit 16 (of_nat n) OR f) AND 0x0FFF0000) = (of_nat n :: u32)"
proof -
  have "(of_nat n :: u32) AND 0x0FFF = take_bit 12 (of_nat n)" by (simp add: take_bit_eq_mask mask_numeral)
  also have "\<dots> = of_nat n" using assms(1) by (simp add: word_unat_eq_iff take_bit_eq_mod unat_mod unat_of_nat)
  finally show ?thesis using desc_len [OF assms(1), of f] assms(2) by simp
qed

lemma u32_of_len [simp]: "n < 4096 \<Longrightarrow> unat (of_nat n :: u32) = n"
  by (simp add: unat_of_nat)

lemma buf_addr_inv [simp]: "i < 64 \<Longrightarrow> unat (buf_addr b i - b) div 2048 = i"
  by (simp add: buf_addr_def GENET_BUF_SIZE_def unat_of_nat unat_word_ariths)

subsection \<open>Transmit\<close>

definition tx_cons :: "genet \<Rightarrow> u16" where
  "tx_cons g = ucast (regs g TX_CONS_INDEX)"

definition tx_used :: "genet \<Rightarrow> nat" where
  "tx_used g = unat (g_tx_pidx g - tx_cons g)"

definition tx_frame :: "genet \<Rightarrow> nat \<Rightarrow> bytes" where
  "tx_frame g i = take (unat (drop_bit 16 (regs g (TX_DESC_STATUS i) AND 0x0FFF0000))) (tx_bufs g ! i)"

definition tx_items :: "genet \<Rightarrow> bytes list" where
  "tx_items g = map (\<lambda>k. tx_frame g (slot (tx_cons g) k)) [0..<tx_used g]"

definition tx_inv :: "genet \<Rightarrow> bool" where
  "tx_inv g \<longleftrightarrow> g_genet_ok g \<and> length (tx_bufs g) = 64 \<and> ucast (regs g TX_PROD_INDEX) = g_tx_pidx g \<and> tx_used g \<le> 63 \<and>
     (\<forall>k<tx_used g. regs g (TX_DESC_ADDRESS_LO (slot (tx_cons g) k)) = buf_addr (tx_base g) (slot (tx_cons g) k))"

definition tx_put :: "bytes \<Rightarrow> genet \<Rightarrow> bool \<times> genet" where
  "tx_put f g = (let (r, g) = genet_send f g in (r = 0, g))"

definition tx_ok :: "bytes \<Rightarrow> bool" where
  "tx_ok f \<longleftrightarrow> 0 < length f \<and> length f \<le> 1536"

lemma pidx_cons: "g_tx_pidx g = tx_cons g + of_nat (tx_used g)"
  by (simp add: tx_used_def)

lemma length_tx_items [simp]: "length (tx_items g) = tx_used g"
  by (simp add: tx_items_def)

lemma cidx_masked: "ucast ((w :: u32) AND 0xffff) = (ucast w :: u16)"
proof -
  have m: "(0xffff :: u32) = mask 16" by (simp add: mask_eq_exp_minus_1)
  show ?thesis unfolding m by (auto intro!: bit_word_eqI simp: bit_simps)
qed

lemma ucast_down_up [simp]: "ucast (ucast (x :: u16) :: u32) = x"
  by (rule bit_word_eqI) (auto simp: bit_simps)

lemma index_succ:
  fixes p c :: u16
  shows "unat (p - c) < 65535 \<Longrightarrow> unat (p + 1 - c) = Suc (unat (p - c))"
    and "unat (p - c) \<noteq> 0 \<Longrightarrow> unat (p - (c + 1)) = unat (p - c) - 1"
proof -
  show "unat (p - c) < 65535 \<Longrightarrow> unat (p + 1 - c) = Suc (unat (p - c))"
    using unat_word_ariths(1) [of "p - c" 1] by (simp add: diff_add_eq)
  show "unat (p - c) \<noteq> 0 \<Longrightarrow> unat (p - (c + 1)) = unat (p - c) - 1"
    using unat_minus_one [of "p - c"] by (cases "p = c") (auto simp: diff_diff_eq)
qed

text \<open>The state after a successful send.\<close>

definition sent :: "bytes \<Rightarrow> genet \<Rightarrow> genet" where
  "sent f g =
     (let i = slot (tx_cons g) (tx_used g)
      in GW4 TX_PROD_INDEX (ucast (g_tx_pidx g + 1)) (GW4 (TX_DESC_STATUS i) (push_bit 16 (of_nat (length f)) OR 0x6040)
           (GW4 (TX_DESC_ADDRESS_HI i) 0 (GW4 (TX_DESC_ADDRESS_LO i) (buf_addr (tx_base g) i)
             (g\<lparr>tx_bufs := (tx_bufs g)[i := f @ drop (length f) (tx_bufs g ! i)], g_tx_pidx := g_tx_pidx g + 1\<rparr>)))))"

lemma genet_send_eq:
  assumes "tx_inv g" "tx_ok f"
  shows "genet_send f g = (if tx_used g < 63 then (0, sent f g) else (-1, g))"
proof -
  have u: "g_tx_pidx g - ucast (regs g TX_CONS_INDEX AND 0xffff) = of_nat (tx_used g)"
    by (simp add: cidx_masked tx_used_def tx_cons_def)
  have full: "(of_nat (DESC_COUNT - 1) \<le> (of_nat (tx_used g) :: u16)) = (\<not> tx_used g < 63)"
    using assms(1) by (auto simp: word_le_nat_alt unat_of_nat DESC_COUNT_def tx_inv_def)
  have i: "unat (g_tx_pidx g AND of_nat (DESC_COUNT - 1)) = slot (tx_cons g) (tx_used g)"
    by (subst pidx_cons) (simp add: DESC_COUNT_def slot_and)
  have len: "length f \<noteq> 0" "\<not> unat GENET_MAX_FRAME_LEN < length f"
    using assms(2) by (auto simp: tx_ok_def GENET_MAX_FRAME_LEN_def)
  have ok: "g_genet_ok g" using assms(1) by (simp add: tx_inv_def)
  show ?thesis
    unfolding genet_send_def Let_def u full i
    using len ok by (simp add: sent_def Let_def GW4_def or.assoc)
qed

lemma sent_simps:
  assumes "tx_inv g" "tx_used g < 63"
  shows "tx_cons (sent f g) = tx_cons g" "tx_used (sent f g) = Suc (tx_used g)" "g_tx_pidx (sent f g) = g_tx_pidx g + 1"
    "ucast (regs (sent f g) TX_PROD_INDEX) = g_tx_pidx g + 1"
proof -
  show c: "tx_cons (sent f g) = tx_cons g" by (simp add: sent_def Let_def tx_cons_def)
  show "tx_used (sent f g) = Suc (tx_used g)"
    using assms(2) index_succ(1) [of "g_tx_pidx g" "tx_cons g"] unfolding tx_used_def c by (simp add: sent_def Let_def)
qed (simp_all add: sent_def Let_def)

lemma tx_frame_sent:
  assumes "tx_inv g" "tx_used g < 63" "tx_ok f"
  shows "tx_frame (sent f g) (slot (tx_cons g) (tx_used g)) = f"
    and "k < tx_used g \<Longrightarrow> tx_frame (sent f g) (slot (tx_cons g) k) = tx_frame g (slot (tx_cons g) k)"
proof -
  have "drop_bit 16 (0x6040 :: u32) = 0" by simp
  then show "tx_frame (sent f g) (slot (tx_cons g) (tx_used g)) = f"
    using assms desc_len_unat [of "length f" "0x6040"]
    by (simp add: tx_frame_def sent_def Let_def tx_inv_def tx_ok_def)
  show "k < tx_used g \<Longrightarrow> tx_frame (sent f g) (slot (tx_cons g) k) = tx_frame g (slot (tx_cons g) k)"
    using slot_inj [of k "tx_used g" "tx_cons g"] assms(2)
    by (auto simp: tx_frame_def sent_def Let_def)
qed

lemma sent_inv:
  assumes "tx_inv g" "tx_used g < 63" "tx_ok f"
  shows "tx_inv (sent f g)" "tx_items (sent f g) = tx_items g @ [f]"
proof -
  have "tx_base (sent f g) = tx_base g" by (simp add: sent_def Let_def)
  moreover have "regs (sent f g) (TX_DESC_ADDRESS_LO (slot (tx_cons g) k)) = buf_addr (tx_base g) (slot (tx_cons g) k)"
    if "k < Suc (tx_used g)" for k
    using that assms(1) by (auto simp: sent_def Let_def tx_inv_def less_Suc_eq)
  moreover have "g_genet_ok (sent f g)" "length (tx_bufs (sent f g)) = 64"
    using assms(1) by (auto simp: sent_def Let_def tx_inv_def)
  ultimately show "tx_inv (sent f g)"
    using sent_simps [OF assms(1,2), of f] assms(2) by (simp add: tx_inv_def)
  show "tx_items (sent f g) = tx_items g @ [f]"
    using tx_frame_sent [OF assms] sent_simps [OF assms(1,2), of f] by (simp add: tx_items_def)
qed

text \<open>The device takes the oldest frame.\<close>

lemma tx_dma_eq:
  assumes "tx_inv g"
  shows "tx_dma g = (if tx_used g = 0 then (None, g)
    else (Some (tx_frame g (slot (tx_cons g) 0)), GW4 TX_CONS_INDEX (ucast (tx_cons g + 1)) g))"
proof -
  have "(ucast (regs g TX_PROD_INDEX) = tx_cons g) = (tx_used g = 0)"
    using assms by (simp add: tx_inv_def tx_used_def unat_eq_zero)
  moreover have "regs g (TX_DESC_ADDRESS_LO (slot (tx_cons g) 0)) = buf_addr (tx_base g) (slot (tx_cons g) 0)" if "tx_used g \<noteq> 0"
    using assms that by (simp add: tx_inv_def)
  ultimately show ?thesis
    unfolding tx_dma_def Let_def tx_cons_def [symmetric] slot_and0 by (auto simp: tx_frame_def)
qed

lemma tx_taken:
  assumes "tx_inv g" "tx_used g \<noteq> 0" "g' = GW4 TX_CONS_INDEX (ucast (tx_cons g + 1)) g"
  shows "tx_inv g'" "tx_items g' = tl (tx_items g)"
proof -
  have c: "tx_cons g' = tx_cons g + 1" by (simp add: assms(3) tx_cons_def)
  have u: "tx_used g' = tx_used g - 1"
    using assms(2) index_succ(2) [of "g_tx_pidx g" "tx_cons g"] unfolding tx_used_def c by (simp add: assms(3))
  show "tx_inv g'"
    using assms(1,2) c u by (auto simp: tx_inv_def slot_next assms(3))
  show "tx_items g' = tl (tx_items g)"
    using assms(2) c u
    by (intro nth_equalityI) (auto simp: tx_items_def slot_next nth_tl tx_frame_def assms(3))
qed

interpretation txq: ring_queue tx_inv tx_items tx_put tx_dma 63 tx_ok
proof
  fix g f assume a: "tx_inv g" "tx_ok f"
  show "\<exists>g'. tx_put f g = (length (tx_items g) < 63, g') \<and> tx_inv g' \<and>
      tx_items g' = (if length (tx_items g) < 63 then tx_items g @ [f] else tx_items g)"
    using a sent_inv [of g f] by (simp add: tx_put_def genet_send_eq)
next
  fix g assume a: "tx_inv g"
  show "\<exists>g'. tx_dma g = (case tx_items g of [] \<Rightarrow> None | x # _ \<Rightarrow> Some x, g') \<and> tx_inv g' \<and> tx_items g' = tl (tx_items g)"
  proof (cases "tx_used g = 0")
    case True
    then show ?thesis using a by (simp add: tx_dma_eq tx_items_def)
  next
    case False
    then have "tx_items g = tx_frame g (slot (tx_cons g) 0) # tl (tx_items g)"
      by (simp add: tx_items_def upt_conv_Cons)
    then have "(case tx_items g of [] \<Rightarrow> None | x # _ \<Rightarrow> Some x) = Some (tx_frame g (slot (tx_cons g) 0))"
      by (metis list.simps(5))
    then show ?thesis using False tx_taken [OF a False refl] by (simp add: tx_dma_eq [OF a])
  qed
qed (simp add: tx_inv_def)

subsection \<open>Receive\<close>

definition rx_prod :: "genet \<Rightarrow> u16" where
  "rx_prod g = ucast (regs g RX_PROD_INDEX)"

definition rx_used :: "genet \<Rightarrow> nat" where
  "rx_used g = unat (rx_prod g - g_rx_cidx g)"

definition rx_frame :: "genet \<Rightarrow> nat \<Rightarrow> bytes" where
  "rx_frame g i = take (unat (drop_bit 16 (regs g (RX_DESC_STATUS i) AND 0x0FFF0000)) - 2) (drop 2 (rx_bufs g ! i))"

definition rx_items :: "genet \<Rightarrow> bytes list" where
  "rx_items g = map (\<lambda>k. rx_frame g (slot (g_rx_cidx g) k)) [0..<rx_used g]"

definition desc_ok :: "u32 \<Rightarrow> bool" where
  "desc_ok st \<longleftrightarrow> (\<exists>n. 0 < n \<and> n \<le> 1536 \<and> st = push_bit 16 (of_nat (n + 2)) OR 0x6000)"

definition rx_inv :: "genet \<Rightarrow> bool" where
  "rx_inv g \<longleftrightarrow> g_genet_ok g \<and> length (rx_bufs g) = 64 \<and> (\<forall>i<64. length (rx_bufs g ! i) = 2048) \<and>
     ucast (regs g RX_CONS_INDEX) = g_rx_cidx g \<and> rx_used g \<le> 64 \<and>
     (\<forall>i<64. regs g (RX_DESC_ADDRESS_LO i) = buf_addr (rx_base g) i) \<and>
     (\<forall>k<rx_used g. desc_ok (regs g (RX_DESC_STATUS (slot (g_rx_cidx g) k))))"

definition rx_get :: "genet \<Rightarrow> bytes option \<times> genet" where
  "rx_get g = (case genet_poll_rx 1536 g of Some (n, d, g) \<Rightarrow> (if 0 < n then Some d else None, g) | None \<Rightarrow> (None, g))"

lemma length_rx_items [simp]: "length (rx_items g) = rx_used g"
  by (simp add: rx_items_def)

lemma rx_prod_cidx: "rx_prod g = g_rx_cidx g + of_nat (rx_used g)"
  by (simp add: rx_used_def)

lemma desc_ok_D:
  assumes "desc_ok st"
  shows "st AND 0x1F = 0" "2 < drop_bit 16 (st AND 0x0FFF0000)"
    "drop_bit 16 (st AND 0x0FFF0000) - 2 \<le> 1536" "unat (drop_bit 16 (st AND 0x0FFF0000) - 2) = unat (drop_bit 16 (st AND 0x0FFF0000)) - 2"
    "2 < unat (drop_bit 16 (st AND 0x0FFF0000))" "unat (drop_bit 16 (st AND 0x0FFF0000)) \<le> 1538"
proof -
  obtain n where n: "0 < n" "n \<le> 1536" "st = push_bit 16 (of_nat (n + 2)) OR 0x6000" using assms by (auto simp: desc_ok_def)
  have d: "drop_bit 16 (st AND 0x0FFF0000) = of_nat (n + 2)"
    using desc_len_unat [of "n + 2" "0x6000"] n by simp
  have u: "unat (of_nat (n + 2) :: u32) = n + 2" using n by (intro u32_of_len) simp
  have v: "(of_nat (n + 2) :: u32) - 2 = of_nat n" by simp
  have w: "unat (of_nat n :: u32) = n" using n by (intro u32_of_len) simp
  show "2 < unat (drop_bit 16 (st AND 0x0FFF0000))" "unat (drop_bit 16 (st AND 0x0FFF0000)) \<le> 1538" unfolding d u using n by auto
  show "2 < drop_bit 16 (st AND 0x0FFF0000)" unfolding d using n u by (simp add: word_less_nat_alt)
  show "drop_bit 16 (st AND 0x0FFF0000) - 2 \<le> 1536" unfolding d v using n w by (simp add: word_le_nat_alt)
  show "unat (drop_bit 16 (st AND 0x0FFF0000) - 2) = unat (drop_bit 16 (st AND 0x0FFF0000)) - 2" unfolding d v u w by simp
  have "(push_bit 16 x OR 0x6000) AND (0x1F :: u32) = 0" for x :: u32
  proof -
    have m: "(0x1F :: u32) = mask 5" by (simp add: mask_eq_exp_minus_1)
    have "(push_bit 16 x OR 0x6000) AND mask 5 = take_bit 5 (push_bit 16 x) OR take_bit 5 (0x6000 :: u32)"
      by (simp add: take_bit_eq_mask [symmetric])
    also have "take_bit 5 (push_bit 16 x) = 0" by (auto intro!: bit_word_eqI simp: bit_simps)
    finally show ?thesis unfolding m by simp
  qed
  then show "st AND 0x1F = 0" using n(3) by simp
qed

text \<open>What the receive engine does while there is room, and what a poll does when a frame waits.\<close>

definition received :: "bytes \<Rightarrow> genet \<Rightarrow> genet" where
  "received f g =
     (let i = slot (g_rx_cidx g) (rx_used g)
      in GW4 RX_PROD_INDEX (ucast (rx_prod g + 1)) (GW4 (RX_DESC_STATUS i) (push_bit 16 (of_nat (length f + 2)) OR 0x6000)
           (g\<lparr>rx_bufs := (rx_bufs g)[i := [0, 0] @ f @ drop (length f + 2) (rx_bufs g ! i)]\<rparr>)))"

definition polled :: "genet \<Rightarrow> genet" where
  "polled g = GW4 RX_CONS_INDEX (ucast (g_rx_cidx g + 1)) (g\<lparr>g_rx_cidx := g_rx_cidx g + 1, g_rx_count := g_rx_count g + 1\<rparr>)"

lemma rx_dma_eq:
  assumes "rx_inv g"
  shows "rx_dma 0 f g = (if rx_used g < 64 then (True, received f g) else (False, g))"
proof -
  have i: "unat (rx_prod g AND 63) = slot (g_rx_cidx g) (rx_used g)" by (subst rx_prod_cidx) (rule slot_and)
  have full: "(64 \<le> rx_prod g - ucast (regs g RX_CONS_INDEX)) = (\<not> rx_used g < 64)"
    using assms by (auto simp: rx_inv_def rx_used_def word_le_nat_alt)
  have b: "unat (regs g (RX_DESC_ADDRESS_LO (slot c k)) - rx_base g) div 2048 = slot c k" for c k
    using assms by (simp add: rx_inv_def)
  show ?thesis
    unfolding rx_dma_def Let_def rx_prod_def [symmetric] i full b by (simp add: received_def Let_def)
qed

lemma received_simps:
  assumes "rx_used g < 64"
  shows "g_rx_cidx (received f g) = g_rx_cidx g" "rx_used (received f g) = Suc (rx_used g)"
  using assms index_succ(1) [of "rx_prod g" "g_rx_cidx g"] by (simp_all add: received_def Let_def rx_used_def rx_prod_def)

lemma received_inv:
  assumes "rx_inv g" "rx_used g < 64" "tx_ok f"
  shows "rx_inv (received f g)" "rx_items (received f g) = rx_items g @ [f]"
proof -
  let ?g = "received f g" and ?s = "slot (g_rx_cidx g)"
  note r = received_simps [OF assms(2), of f]
  have st: "regs ?g (RX_DESC_STATUS (?s (rx_used g))) = push_bit 16 (of_nat (length f + 2)) OR 0x6000"
    and old: "k < rx_used g \<Longrightarrow> regs ?g (RX_DESC_STATUS (?s k)) = regs g (RX_DESC_STATUS (?s k)) \<and> rx_bufs ?g ! ?s k = rx_bufs g ! ?s k" for k
    using slot_inj [of k "rx_used g" "g_rx_cidx g"] assms(2) by (auto simp: received_def Let_def)
  have "desc_ok (push_bit 16 (of_nat (length f + 2)) OR 0x6000)" using assms(3) unfolding desc_ok_def tx_ok_def by blast
  then have "\<forall>k<Suc (rx_used g). desc_ok (regs ?g (RX_DESC_STATUS (?s k)))"
    using st old assms(1) by (auto simp: less_Suc_eq rx_inv_def)
  moreover have "length (rx_bufs ?g) = 64" "\<forall>i<64. length (rx_bufs ?g ! i) = 2048"
    using assms by (auto simp: received_def Let_def rx_inv_def tx_ok_def nth_list_update)
  moreover have "g_genet_ok ?g" "ucast (regs ?g RX_CONS_INDEX) = g_rx_cidx g"
      "\<forall>i<64. regs ?g (RX_DESC_ADDRESS_LO i) = buf_addr (rx_base ?g) i"
    using assms(1) by (auto simp: received_def Let_def rx_inv_def)
  ultimately show "rx_inv ?g" using r assms(2) by (simp add: rx_inv_def)
  have "rx_frame ?g (?s (rx_used g)) = f"
    using assms desc_len_unat [of "length f + 2" "0x6000"] u32_of_len [of "length f + 2"]
    by (simp add: rx_frame_def st tx_ok_def) (simp add: received_def Let_def rx_inv_def)
  then show "rx_items ?g = rx_items g @ [f]" using r old by (simp add: rx_items_def rx_frame_def)
qed

lemma genet_poll_rx_eq:
  assumes "rx_inv g"
  shows "genet_poll_rx 1536 g = (if rx_used g = 0 then Some (0, [], g)
    else Some (int (length (rx_frame g (slot (g_rx_cidx g) 0))), rx_frame g (slot (g_rx_cidx g) 0), polled g))"
proof (cases "rx_used g = 0")
  case True
  then show ?thesis using assms by (simp add: genet_poll_rx_def rx_inv_def rx_used_def rx_prod_def unat_eq_zero)
next
  case False
  then have ne: "rx_prod g - g_rx_cidx g \<noteq> 0" by (auto simp: rx_used_def)
  let ?i = "slot (g_rx_cidx g) 0"
  have d: "desc_ok (regs g (RX_DESC_STATUS ?i))" using assms False by (simp add: rx_inv_def)
  note D = desc_ok_D [OF d]
  have b: "length (rx_bufs g ! ?i) = 2048" using assms by (simp add: rx_inv_def)
  have i: "unat (g_rx_cidx g AND of_nat (DESC_COUNT - 1)) = ?i" using slot_and0 [of "g_rx_cidx g"] by (simp add: DESC_COUNT_def)
  obtain st n where st: "regs g (RX_DESC_STATUS ?i) = st" and n: "drop_bit 16 (st AND 0x0FFF0000) = n" by blast
  note E = D [unfolded st n]
  have "rdn (rx_bufs g ! ?i) 2 (unat (n - 2)) = Some (rx_frame g ?i)"
  proof -
    have "2 + int (unat (n - 2)) \<le> int (length (rx_bufs g ! ?i))" using E(4,6) b by linarith
    then show ?thesis using E(4) by (simp only: rdn_Some rx_frame_def st n) simp
  qed
  then have "genet_poll_rx 1536 g = Some (int (unat n - 2), rx_frame g ?i, polled g)"
    unfolding genet_poll_rx_def Let_def rx_prod_def [symmetric] i st n
    using ne E(1) E(2) [THEN iffD2 [OF not_le]] E(3) [THEN leD] E(4) assms
    by (simp add: rx_inv_def polled_def GW4_def)
  then show ?thesis using False b E(5,6) by (simp add: rx_frame_def st n del: drop_bit_and)
qed

lemma polled_inv:
  assumes "rx_inv g" "rx_used g \<noteq> 0"
  shows "rx_inv (polled g)" "rx_items (polled g) = tl (rx_items g)"
proof -
  have c: "g_rx_cidx (polled g) = g_rx_cidx g + 1" by (simp add: polled_def)
  have u: "rx_used (polled g) = rx_used g - 1"
    using assms(2) index_succ(2) [of "rx_prod g" "g_rx_cidx g"] by (simp add: rx_used_def polled_def rx_prod_def)
  show "rx_inv (polled g)"
    using assms c u by (auto simp: rx_inv_def slot_next polled_def)
  show "rx_items (polled g) = tl (rx_items g)"
    using assms(2) c u by (intro nth_equalityI) (auto simp: rx_items_def slot_next nth_tl rx_frame_def polled_def)
qed

interpretation rxq: ring_queue rx_inv rx_items "rx_dma 0" rx_get 64 tx_ok
proof
  fix g f assume a: "rx_inv g" "tx_ok f"
  show "\<exists>g'. rx_dma 0 f g = (length (rx_items g) < 64, g') \<and> rx_inv g' \<and>
      rx_items g' = (if length (rx_items g) < 64 then rx_items g @ [f] else rx_items g)"
    using a received_inv [of g f] by (simp add: rx_dma_eq)
next
  fix g assume a: "rx_inv g"
  show "\<exists>g'. rx_get g = (case rx_items g of [] \<Rightarrow> None | x # _ \<Rightarrow> Some x, g') \<and> rx_inv g' \<and> rx_items g' = tl (rx_items g)"
  proof (cases "rx_used g = 0")
    case True
    then show ?thesis using a by (simp add: rx_get_def genet_poll_rx_eq rx_items_def)
  next
    case False
    let ?f = "rx_frame g (slot (g_rx_cidx g) 0)"
    have d: "desc_ok (regs g (RX_DESC_STATUS (slot (g_rx_cidx g) 0)))" and b: "length (rx_bufs g ! slot (g_rx_cidx g) 0) = 2048"
      using a False by (auto simp: rx_inv_def)
    have "?f \<noteq> []" using desc_ok_D(5) [OF d] b by (auto simp: rx_frame_def simp del: drop_bit_and)
    have "rx_items g = ?f # tl (rx_items g)" using False by (simp add: rx_items_def upt_conv_Cons)
    then have "(case rx_items g of [] \<Rightarrow> None | x # _ \<Rightarrow> Some x) = Some ?f" by (metis list.simps(5))
    then show ?thesis using False polled_inv [OF a False] \<open>?f \<noteq> []\<close> by (simp add: rx_get_def genet_poll_rx_eq [OF a])
  qed
qed (simp add: rx_inv_def)

subsection \<open>The rings after initialisation\<close>

lemma rx_descs_regs:
  "regs (rx_descs is g) = (\<lambda>r. case r of RX_DESC_STATUS i \<Rightarrow> if i \<in> set is then 0 else regs g r
     | RX_DESC_ADDRESS_LO i \<Rightarrow> if i \<in> set is then buf_addr (rx_base g) i else regs g r
     | RX_DESC_ADDRESS_HI i \<Rightarrow> if i \<in> set is then 0 else regs g r | _ \<Rightarrow> regs g r)"
  by (induction "is" arbitrary: g) (auto simp: fun_eq_iff split: reg.splits)

lemma rx_descs_frame [simp]:
  "rx_bufs (rx_descs is g) = rx_bufs g" "tx_bufs (rx_descs is g) = tx_bufs g" "rx_base (rx_descs is g) = rx_base g"
  "tx_base (rx_descs is g) = tx_base g" "g_rx_cidx (rx_descs is g) = g_rx_cidx g" "g_genet_ok (rx_descs is g) = g_genet_ok g"
  by (induction "is" arbitrary: g) auto

lemma genet_init_rings_simps [simp]:
  "regs (genet_init_rings g) TX_PROD_INDEX = 0" "regs (genet_init_rings g) TX_CONS_INDEX = 0"
  "regs (genet_init_rings g) RX_PROD_INDEX = 0" "regs (genet_init_rings g) RX_CONS_INDEX = 0"
  "i < 64 \<Longrightarrow> regs (genet_init_rings g) (RX_DESC_ADDRESS_LO i) = buf_addr (rx_base g) i"
  "g_rx_cidx (genet_init_rings g) = ucast (regs g RX_PROD_INDEX)" "g_tx_pidx (genet_init_rings g) = 0"
  "rx_bufs (genet_init_rings g) = rx_bufs g" "tx_bufs (genet_init_rings g) = tx_bufs g"
  "rx_base (genet_init_rings g) = rx_base g" "tx_base (genet_init_rings g) = tx_base g"
  by (simp_all add: genet_init_rings_def Let_def rx_descs_regs DESC_COUNT_def cidx_masked)

lemma genet_setup_simps [simp]:
  "regs (genet_setup_rxfilter mac (GW4 UMAC_MAC1 a (GW4 UMAC_MAC0 b (genet_reset g)))) RX_PROD_INDEX = regs g RX_PROD_INDEX"
  "rx_bufs (genet_setup_rxfilter mac g) = rx_bufs g" "tx_bufs (genet_setup_rxfilter mac g) = tx_bufs g"
  "rx_base (genet_setup_rxfilter mac g) = rx_base g" "tx_base (genet_setup_rxfilter mac g) = tx_base g"
  "rx_bufs (genet_reset g) = rx_bufs g" "tx_bufs (genet_reset g) = tx_bufs g"
  "rx_base (genet_reset g) = rx_base g" "tx_base (genet_reset g) = tx_base g"
  by (simp_all add: genet_setup_rxfilter_def genet_reset_def Let_def)

lemma genet_phy_init_simps [simp]:
  "regs (snd (genet_phy_init phy g)) = regs g" "rx_bufs (snd (genet_phy_init phy g)) = rx_bufs g"
  "tx_bufs (snd (genet_phy_init phy g)) = tx_bufs g" "rx_base (snd (genet_phy_init phy g)) = rx_base g"
  "tx_base (snd (genet_phy_init phy g)) = tx_base g" "g_rx_cidx (snd (genet_phy_init phy g)) = g_rx_cidx g"
  "g_tx_pidx (snd (genet_phy_init phy g)) = g_tx_pidx g" "g_genet_ok (snd (genet_phy_init phy g)) = g_genet_ok g"
  by (simp_all add: genet_phy_init_def genet_mdio_write_def)

definition genet_v5 :: "genet \<Rightarrow> bool" where
  "genet_v5 g \<longleftrightarrow> drop_bit 24 (regs g SYS_REV_CTRL AND 0x0F000000) = 6 \<and> length (rx_bufs g) = 64 \<and>
     list_all (\<lambda>b. length b = 2048) (rx_bufs g) \<and> length (tx_bufs g) = 64"

lemma genet_init_rings_ready:
  assumes "genet_v5 g"
  shows "tx_inv (genet_init phy mbox g)" "tx_items (genet_init phy mbox g) = []"
    "regs (genet_init phy mbox g) RX_PROD_INDEX = 0" "g_rx_cidx (genet_init phy mbox g) = ucast (regs g RX_PROD_INDEX)"
    "g_genet_ok (genet_init phy mbox g)"
    "regs g RX_PROD_INDEX = 0 \<Longrightarrow> rx_inv (genet_init phy mbox g)" "regs g RX_PROD_INDEX = 0 \<Longrightarrow> rx_items (genet_init phy mbox g) = []"
proof -
  have v: "drop_bit 24 (regs g SYS_REV_CTRL AND 0x0F000000) = 6" using assms by (simp add: genet_v5_def)
  note d = genet_init_def Let_def v genet_disable_intr_def
  show "regs (genet_init phy mbox g) RX_PROD_INDEX = 0" "g_rx_cidx (genet_init phy mbox g) = ucast (regs g RX_PROD_INDEX)"
    "g_genet_ok (genet_init phy mbox g)" unfolding d by simp_all
  show "tx_inv (genet_init phy mbox g)" using assms unfolding tx_inv_def tx_used_def tx_cons_def genet_v5_def d by simp
  show "tx_items (genet_init phy mbox g) = []" unfolding tx_items_def tx_used_def tx_cons_def d by simp
  show "rx_items (genet_init phy mbox g) = []" if "regs g RX_PROD_INDEX = 0" using that unfolding rx_items_def rx_used_def rx_prod_def d by simp
  show "rx_inv (genet_init phy mbox g)" if "regs g RX_PROD_INDEX = 0"
    using assms that unfolding rx_inv_def rx_used_def rx_prod_def genet_v5_def d by (simp add: list_all_length)
qed

section \<open>Correctness\<close>

text \<open>C30. After \<open>genet_init\<close> on the supported controller, for every sequence of sends by the driver and steps of the
  transmit engine: once the engine has run on to the end, the frames on the wire are the frames that
  \<open>genet_send\<close> accepted, each once, unchanged and in order, and all are accepted if there are at most 63.\<close>

theorem genet_tx_fifo:
  assumes "genet_v5 g" "\<forall>f. Put f \<in> set ops \<longrightarrow> 0 < length f \<and> length f \<le> 1536"
  shows "\<exists>g' acc. txq.run (genet_init phy mbox g) (ops @ replicate 63 Get) = (g', acc, acc) \<and>
    (length (ring_puts ops) \<le> 63 \<longrightarrow> acc = ring_puts ops)"
proof -
  note r = genet_init_rings_ready [OF assms(1), of phy mbox]
  have ok: "\<forall>f. Put f \<in> set ops \<longrightarrow> tx_ok f" using assms(2) by (simp add: tx_ok_def)
  obtain g' acc where run: "txq.run (genet_init phy mbox g) (ops @ replicate 63 Get) = (g', acc, acc)"
    using txq.run_drained [OF r(1) ok r(2)] by blast
  have "acc = ring_puts ops" if "length (ring_puts ops) \<le> 63"
    using txq.run_accepts [OF r(1), of "ops @ replicate 63 Get"] ok that run r(2) by (simp add: txq.ring_puts_append)
  then show ?thesis using run by blast
qed

text \<open>After a cold start the receive ring loses nothing while it has room: for every sequence of arriving frames and
  polls, once polled to the end the driver has returned the frames that the receive engine stored, each once,
  unchanged and in order.\<close>

theorem genet_rx_fifo:
  assumes "genet_v5 g" "regs g RX_PROD_INDEX = 0" "\<forall>f. Put f \<in> set ops \<longrightarrow> 0 < length f \<and> length f \<le> 1536"
  shows "\<exists>g' acc. rxq.run (genet_init phy mbox g) (ops @ replicate 64 Get) = (g', acc, acc) \<and>
    (length (ring_puts ops) \<le> 64 \<longrightarrow> acc = ring_puts ops)"
proof -
  note r = genet_init_rings_ready [OF assms(1), of phy mbox]
  have ok: "\<forall>f. Put f \<in> set ops \<longrightarrow> tx_ok f" using assms(3) by (simp add: tx_ok_def)
  obtain g' acc where run: "rxq.run (genet_init phy mbox g) (ops @ replicate 64 Get) = (g', acc, acc)"
    using rxq.run_drained [OF r(6) [OF assms(2)] ok r(7) [OF assms(2)]] by blast
  have "acc = ring_puts ops" if "length (ring_puts ops) \<le> 64"
    using rxq.run_accepts [OF r(6) [OF assms(2)], of "ops @ replicate 64 Get"] ok that run r(7) [OF assms(2)]
    by (simp add: rxq.ring_puts_append)
  then show ?thesis using run by blast
qed

text \<open>Initialising again after traffic leaves the driver's consumer index at the old producer index while the
  hardware's is reset to 0: the ring then looks as if \<open>65536 - n\<close> frames were waiting, where \<open>n\<close> is the
  old index, and nothing has arrived.\<close>

theorem genet_reinit_phantom:
  assumes "genet_v5 g" "(ucast (regs g RX_PROD_INDEX) :: u16) \<noteq> 0"
  shows "genet_rx_available (genet_init phy mbox g) = 65536 - uint (ucast (regs g RX_PROD_INDEX) :: u16)"
proof -
  note r = genet_init_rings_ready [OF assms(1), of phy mbox]
  have "uint (- (x :: u16)) = 65536 - uint x" if "x \<noteq> 0" for x
    using that uint_word_ariths(4) [of x] uint_lt2p [of x] by (simp add: zmod_zminus1_eq_if unsigned_eq_0_iff)
  then show ?thesis using assms(2) r(3-5) by (simp add: genet_rx_available_def)
qed

section \<open>A controller\<close>

definition demo_genet :: genet where
  "demo_genet = \<lparr>regs = (\<lambda>_. 0)(SYS_REV_CTRL := 0x06000000), rx_bufs = replicate 64 (replicate 2048 0),
     tx_bufs = replicate 64 (replicate 2048 0), rx_base = 0x100000, tx_base = 0x200000, genet_mac = (0, 0, 0, 0, 0, 0),
     g_rx_cidx = 0, g_tx_pidx = 0, g_tx_cidx = 0, g_genet_ok = False, g_rx_count = 0, g_rx_fcs = 0, mdio_log = []\<rparr>"

lemma demo_genet_v5: "genet_v5 demo_genet" "genet_v5 (GW4 RX_PROD_INDEX 3 demo_genet)"
  by (simp_all add: genet_v5_def demo_genet_def GW4_def list_all_iff)

lemma demo_genet_prod: "regs demo_genet RX_PROD_INDEX = 0" "regs (GW4 RX_PROD_INDEX 3 demo_genet) RX_PROD_INDEX = 3"
  by (simp_all add: demo_genet_def GW4_def)

lemma genet_tx_fifo_witness:
  "\<exists>g'. txq.run (genet_init (\<lambda>_. 0) None demo_genet) ([Put [1, 2, 3], Get, Put [4]] @ replicate 63 Get) = (g', [[1, 2, 3], [4]], [[1, 2, 3], [4]])"
  using genet_tx_fifo [OF demo_genet_v5(1), of "[Put [1, 2, 3], Get, Put [4]]" "\<lambda>_. 0" None] by auto

lemma genet_rx_fifo_witness:
  "\<exists>g'. rxq.run (genet_init (\<lambda>_. 0) None demo_genet) ([Put [1, 2, 3], Put [4], Get] @ replicate 64 Get) = (g', [[1, 2, 3], [4]], [[1, 2, 3], [4]])"
  using genet_rx_fifo [OF demo_genet_v5(1) demo_genet_prod(1), of "[Put [1, 2, 3], Put [4], Get]" "\<lambda>_. 0" None] by auto

lemma genet_reinit_phantom_witness:
  "genet_rx_available (genet_init (\<lambda>_. 0) None (GW4 RX_PROD_INDEX 3 demo_genet)) = 65533"
  using genet_reinit_phantom [OF demo_genet_v5(2), of "\<lambda>_. 0" None] demo_genet_prod(2) by simp

end
