(* ===== verification/Netif.thy ===== *)
theory Netif
  imports Genet Tcpip
begin

text \<open>
  drivers/net/genet_module.c, the DCI4 network driver module above the Ethernet driver, and the loop of
  \<open>wimp_task\<close> (kernel/lib.c) that empties the receive ring into it. The pool of eight filter entries and
  the list threaded through it are kept as the source has them, pointers being indices into the pool; the
  walks along the list are recursive functions that give no result on a cyclic list. Service calls to
  other modules are logged, and the memory behind the registers of a SWI is a function of its addresses.
\<close>

section \<open>State\<close>

record phoenix_filter =
  f_next :: "nat option"
  f_type :: u32
  f_addresslevel :: u8
  f_errorlevel :: u8
  f_handler :: u32
  f_pw :: u32

record phoenix_dib =
  dib_swibase :: u32
  dib_name :: string
  dib_unit :: u32
  dib_module :: string
  dib_location :: string
  dib_slotid :: u8
  dib_inquire :: u32

record phoenix_stats =
  st_interface_type :: u8
  st_link_polarity :: u8
  st_link_status :: u16
  st_tx_frames :: u32
  st_tx_bytes :: u32
  st_tx_general_errors :: u32
  st_rx_frames :: u32
  st_rx_bytes :: u32
  st_rx_general_errors :: u32
  st_unwanted_frames :: u32

record genet_module =
  g_dib :: phoenix_dib
  g_running :: bool
  g_filter_pool :: "phoenix_filter list"
  g_filter_list :: "nat option"
  g_tx_frames :: u32
  g_tx_bytes :: u32
  g_tx_errors :: u32
  g_rx_frames :: u32
  g_rx_bytes :: u32
  g_rx_errors :: u32
  g_rx_discard :: u32
  service_log :: "(u32 \<times> u32 list) list"

definition GENET_MAX_FILTERS :: nat where "GENET_MAX_FILTERS = 8"
definition DCIVERSION :: u32 where "DCIVERSION = 407"
definition Service_DCIDriverStatus :: u32 where "Service_DCIDriverStatus = 0x9D"
definition ETHERMTU :: u32 where "ETHERMTU = 1500"

section \<open>Filters\<close>

definition filter_alloc :: "phoenix_filter list \<Rightarrow> nat option" where
  "filter_alloc pool = find (\<lambda>i. f_handler (pool ! i) = 0) [0..<GENET_MAX_FILTERS]"

definition same_claim :: "u32 \<Rightarrow> u32 \<Rightarrow> u32 \<Rightarrow> phoenix_filter \<Rightarrow> bool" where
  "same_claim type handler pw f \<longleftrightarrow> f_type f = type \<and> f_handler f = handler \<and> f_pw f = pw"

partial_function (option) filter_registered :: "phoenix_filter list \<Rightarrow> u32 \<Rightarrow> u32 \<Rightarrow> u32 \<Rightarrow> nat option \<Rightarrow> bool option" where
  "filter_registered pool type handler pw p =
     (case p of None \<Rightarrow> Some False
      | Some i \<Rightarrow> if same_claim type handler pw (pool ! i) then Some True
                  else filter_registered pool type handler pw (f_next (pool ! i)))"

definition filter_add :: "u32 \<Rightarrow> u8 \<Rightarrow> u8 \<Rightarrow> u32 \<Rightarrow> u32 \<Rightarrow> genet_module \<Rightarrow> (int \<times> genet_module) option" where
  "filter_add type addrlvl errlvl handler pw m =
     (if handler = 0 then Some (-1, m)
      else do {
        dup \<leftarrow> filter_registered (g_filter_pool m) type handler pw (g_filter_list m);
        if dup then Some (0, m)
        else (case filter_alloc (g_filter_pool m) of
            None \<Rightarrow> Some (-1, m)
          | Some i \<Rightarrow>
              let f = \<lparr>f_next = g_filter_list m, f_type = type, f_addresslevel = addrlvl, f_errorlevel = errlvl,
                       f_handler = handler, f_pw = pw\<rparr>
              in Some (0, m\<lparr>g_filter_pool := (g_filter_pool m)[i := f], g_filter_list := Some i\<rparr>))
      })"

definition same_filter :: "u32 \<Rightarrow> u8 \<Rightarrow> u8 \<Rightarrow> u32 \<Rightarrow> u32 \<Rightarrow> phoenix_filter \<Rightarrow> bool" where
  "same_filter type addrlvl errlvl handler pw f \<longleftrightarrow>
     same_claim type handler pw f \<and> f_addresslevel f = addrlvl \<and> f_errorlevel f = errlvl"

partial_function (option) filter_unlink ::
  "(phoenix_filter \<Rightarrow> bool) \<Rightarrow> phoenix_filter list \<Rightarrow> nat option \<Rightarrow> nat option \<Rightarrow> nat option \<Rightarrow> (int \<times> phoenix_filter list \<times> nat option) option" where
  "filter_unlink same pool lst prev p =
     (case p of None \<Rightarrow> Some (-1, pool, lst)
      | Some i \<Rightarrow>
          let f = pool ! i
          in if same f then
               let (pool', lst') = (case prev of Some j \<Rightarrow> (pool[j := (pool ! j)\<lparr>f_next := f_next f\<rparr>], lst) | None \<Rightarrow> (pool, f_next f))
               in Some (0, pool'[i := (pool' ! i)\<lparr>f_handler := 0, f_next := None\<rparr>], lst')
             else filter_unlink same pool lst (Some i) (f_next f))"

declare filter_registered.simps [code]
declare filter_unlink.simps [code]

definition filter_remove :: "u32 \<Rightarrow> u8 \<Rightarrow> u8 \<Rightarrow> u32 \<Rightarrow> u32 \<Rightarrow> genet_module \<Rightarrow> (int \<times> genet_module) option" where
  "filter_remove type addrlvl errlvl handler pw m = do {
     (rc, pool, lst) \<leftarrow> filter_unlink (same_filter type addrlvl errlvl handler pw) (g_filter_pool m) (g_filter_list m) None (g_filter_list m);
     Some (rc, m\<lparr>g_filter_pool := pool, g_filter_list := lst\<rparr>)
   }"

section \<open>Start and stop\<close>

definition module_dib :: phoenix_dib where
  "module_dib = \<lparr>dib_swibase = ETHERGE_SWI_BASE, dib_name = ''ege'', dib_unit = 0, dib_module = ''EtherGE'',
     dib_location = ''On-board BCM2711'', dib_slotid = 0x27, dib_inquire = 0x2 OR 0x4 OR 0x8 OR 0x100 OR 0x200 OR 0x400\<rparr>"

definition genet_module_init :: "u32 \<Rightarrow> genet_module \<Rightarrow> int \<times> genet_module" where
  "genet_module_init dib_addr m =
     (let m = m\<lparr>g_filter_pool := map (\<lambda>f. f\<lparr>f_handler := 0, f_next := None\<rparr>) (g_filter_pool m), g_filter_list := None\<rparr>;
          m = m\<lparr>g_dib := module_dib, g_running := True\<rparr>
      in (0, m\<lparr>service_log := service_log m @ [(Service_DCIDriverStatus, [dib_addr, Service_DCIDriverStatus, 0, DCIVERSION])]\<rparr>))"

definition genet_module_final :: "u32 \<Rightarrow> genet_module \<Rightarrow> int \<times> genet_module" where
  "genet_module_final dib_addr m =
     (if \<not> g_running m then (0, m)
      else (0, m\<lparr>service_log := service_log m @ [(Service_DCIDriverStatus, [dib_addr, Service_DCIDriverStatus, 1, DCIVERSION])],
                 g_running := False, g_filter_list := None\<rparr>))"

definition genet_module_get_dib :: "genet_module \<Rightarrow> phoenix_dib option" where
  "genet_module_get_dib m = (if g_running m then Some (g_dib m) else None)"

section \<open>Receiving\<close>

definition filter_match :: "u16 \<Rightarrow> phoenix_filter \<Rightarrow> bool" where
  "filter_match ethertype f =
     (let flvl = ucast (drop_bit 16 (f_type f)) :: u16; ftype = ucast (f_type f AND 0xFFFF) :: u16
      in flvl = 2 \<or> flvl = 3 \<or> (flvl = 1 \<and> ftype = ethertype))"

partial_function (option) filter_walk :: "phoenix_filter list \<Rightarrow> u16 \<Rightarrow> nat option \<Rightarrow> bool \<Rightarrow> bool option" where
  "filter_walk pool ethertype p delivered =
     (case p of None \<Rightarrow> Some delivered
      | Some i \<Rightarrow> filter_walk pool ethertype (f_next (pool ! i)) (delivered \<or> filter_match ethertype (pool ! i)))"

declare filter_walk.simps [code]

text \<open>The network interface: the driver, the module above it, and the protocol stack above that.\<close>

record netif =
  nf_genet :: genet
  nf_mod :: genet_module
  nf_net :: net
  nf_frame :: bytes

definition send_all :: "bytes list \<Rightarrow> genet \<Rightarrow> genet" where
  "send_all fs g = fold (\<lambda>f g. snd (genet_send f g)) fs g"

definition genet_module_rx :: "bytes \<Rightarrow> int \<Rightarrow> netif \<Rightarrow> netif option" where
  "genet_module_rx frame len nf =
     (let m = nf_mod nf
      in if len < 14 then Some (nf\<lparr>nf_mod := m\<lparr>g_rx_errors := g_rx_errors m + 1\<rparr>\<rparr>)
         else do {
           ethertype \<leftarrow> rd16be frame 12;
           delivered \<leftarrow> filter_walk (g_filter_pool m) ethertype (g_filter_list m) False;
           (n, out) \<leftarrow> net_rx_frame (nf_net nf) frame len;
           Some (nf\<lparr>nf_genet := send_all out (nf_genet nf), nf_net := n,
             nf_mod := m\<lparr>g_rx_frames := g_rx_frames m + 1, g_rx_bytes := g_rx_bytes m + word_of_int len\<rparr>\<rparr>)
         })"

section \<open>Sending\<close>

definition genet_module_tx :: "mac6 \<Rightarrow> mac6 option \<Rightarrow> u16 \<Rightarrow> bytes \<Rightarrow> u32 \<Rightarrow> genet_module \<Rightarrow> genet \<Rightarrow> (int \<times> genet_module \<times> genet) option" where
  "genet_module_tx dst src ethertype payload plen m g =
     (if plen > 1500 then Some (-1, m\<lparr>g_tx_errors := g_tx_errors m + 1\<rparr>, g)
      else do {
        data \<leftarrow> rdn payload 0 (unat plen);
        let frame = mac_bytes dst @ mac_bytes (case src of Some s \<Rightarrow> s | None \<Rightarrow> genet_mac g) @ [hi8 ethertype, lo8 ethertype] @ data;
        let (rc, g) = genet_send frame g;
        Some (rc, if rc = 0 then m\<lparr>g_tx_frames := g_tx_frames m + 1, g_tx_bytes := g_tx_bytes m + (14 + plen)\<rparr>
                  else m\<lparr>g_tx_errors := g_tx_errors m + 1\<rparr>, g)
      })"

text \<open>
  The SWI handler. \<open>mac_at\<close> and \<open>raw_at\<close> read the caller's memory at an address: six bytes, and a length
  word with the bytes behind it. The result has the registers and the statistics block written, if any.
\<close>

definition all_stats :: phoenix_stats where
  "all_stats = \<lparr>st_interface_type = 0xFF, st_link_polarity = 0xFF, st_link_status = 0xFFFF, st_tx_frames = 0xFFFFFFFF,
     st_tx_bytes = 0xFFFFFFFF, st_tx_general_errors = 0xFFFFFFFF, st_rx_frames = 0xFFFFFFFF, st_rx_bytes = 0xFFFFFFFF,
     st_rx_general_errors = 0xFFFFFFFF, st_unwanted_frames = 0xFFFFFFFF\<rparr>"

definition current_stats :: "genet_module \<Rightarrow> phoenix_stats" where
  "current_stats m = \<lparr>st_interface_type = 0x0F, st_link_polarity = 0, st_link_status = 0x01 OR 0x02 OR 0x04 OR 0x20,
     st_tx_frames = g_tx_frames m, st_tx_bytes = g_tx_bytes m, st_tx_general_errors = g_tx_errors m,
     st_rx_frames = g_rx_frames m, st_rx_bytes = g_rx_bytes m, st_rx_general_errors = g_rx_errors m,
     st_unwanted_frames = g_rx_discard m\<rparr>"

definition genet_module_swi ::
  "(u32 \<Rightarrow> mac6) \<Rightarrow> (u32 \<Rightarrow> u32 \<times> bytes) \<Rightarrow> u32 \<Rightarrow> u32 list \<Rightarrow> genet_module \<Rightarrow> genet
    \<Rightarrow> (int \<times> u32 list \<times> phoenix_stats option \<times> genet_module \<times> genet) option" where
  "genet_module_swi mac_at raw_at swi_offset r m g =
     (let err = Some (-1, r, None, m, g)
      in if swi_offset = 0 then (if r ! 0 \<noteq> 0 then err else Some (0, r[1 := DCIVERSION], None, m, g))
         else if swi_offset = 1 then
           (if r ! 0 \<noteq> 0 \<or> r ! 1 \<noteq> 0 then err else Some (0, r[2 := dib_inquire (g_dib m)], None, m, g))
         else if swi_offset = 2 then (if r ! 0 \<noteq> 0 \<or> r ! 1 \<noteq> 0 then err else Some (0, r[2 := ETHERMTU], None, m, g))
         else if swi_offset = 3 then
           (if r ! 0 \<noteq> 0 \<or> r ! 1 \<noteq> 0 then err else Some (if r ! 2 = ETHERMTU then 0 else -1, r, None, m, g))
         else if swi_offset = 4 then
           (if r ! 1 \<noteq> 0 then err
            else if r ! 3 = 0 \<or> r ! 4 = 0 then Some (-1, r, None, m\<lparr>g_tx_errors := g_tx_errors m + 1\<rparr>, g)
            else
              let src = (if r ! 0 AND 1 \<noteq> 0 then (if r ! 5 = 0 then None else Some (mac_at (r ! 5))) else Some (genet_mac g));
                  (plen, payload) = raw_at (r ! 3)
              in do {
                (rc, m, g) \<leftarrow> genet_module_tx (mac_at (r ! 4)) src (ucast (r ! 2 AND 0xFFFF)) payload plen m g;
                Some (rc, r, None, m, g)
              })
         else if swi_offset = 5 then
           (if r ! 1 \<noteq> 0 then err
            else do {
              (rc, m) \<leftarrow> (if r ! 0 AND 1 \<noteq> 0 then filter_remove (r ! 2) (ucast (r ! 3)) (ucast (r ! 4)) (r ! 6) (r ! 5) m
                         else filter_add (r ! 2) (ucast (r ! 3)) (ucast (r ! 4)) (r ! 6) (r ! 5) m);
              Some (rc, r, None, m, g)
            })
         else if swi_offset = 6 then
           (if r ! 0 > 1 \<or> r ! 1 \<noteq> 0 \<or> r ! 2 = 0 then err
            else Some (0, r, Some (if r ! 0 = 0 then all_stats else current_stats m), m, g))
         else if swi_offset = 7 then Some (0, r, None, m, g)
         else if swi_offset = 8 then Some (0, r[0 := 0], None, m, g)
         else err)"

section \<open>Emptying the receive ring\<close>

text \<open>The loop of \<open>wimp_task\<close>: poll, and hand every frame of at least 14 bytes to the module.\<close>

lemma rx_used_cong: "rx_prod g = rx_prod h \<Longrightarrow> g_rx_cidx g = g_rx_cidx h \<Longrightarrow> rx_used g = rx_used h"
  by (simp add: rx_used_def)

lemma genet_send_rx [simp]:
  "regs (snd (genet_send f g)) RX_PROD_INDEX = regs g RX_PROD_INDEX" "g_rx_cidx (snd (genet_send f g)) = g_rx_cidx g"
  "g_genet_ok (snd (genet_send f g)) = g_genet_ok g" "rx_base (snd (genet_send f g)) = rx_base g"
  "rx_bufs (snd (genet_send f g)) = rx_bufs g" "regs (snd (genet_send f g)) RX_CONS_INDEX = regs g RX_CONS_INDEX"
  "regs (snd (genet_send f g)) (RX_DESC_ADDRESS_LO i) = regs g (RX_DESC_ADDRESS_LO i)"
  "regs (snd (genet_send f g)) (RX_DESC_STATUS i) = regs g (RX_DESC_STATUS i)"
  by (simp_all add: genet_send_def Let_def)

lemma send_all_rx [simp]:
  "regs (send_all fs g) RX_PROD_INDEX = regs g RX_PROD_INDEX" "g_rx_cidx (send_all fs g) = g_rx_cidx g"
  "g_genet_ok (send_all fs g) = g_genet_ok g" "rx_base (send_all fs g) = rx_base g"
  "rx_bufs (send_all fs g) = rx_bufs g" "regs (send_all fs g) RX_CONS_INDEX = regs g RX_CONS_INDEX"
  "regs (send_all fs g) (RX_DESC_ADDRESS_LO i) = regs g (RX_DESC_ADDRESS_LO i)"
  "regs (send_all fs g) (RX_DESC_STATUS i) = regs g (RX_DESC_STATUS i)"
  by (induction fs arbitrary: g) (simp_all add: send_all_def)

lemma rx_used_module:
  assumes "genet_module_rx f n nf = Some nf'"
  shows "rx_used (nf_genet nf') = rx_used (nf_genet nf)"
  using assms by (auto simp: genet_module_rx_def Let_def rx_used_def rx_prod_def split: if_splits bind_splits)

lemma genet_poll_rx_used:
  assumes "genet_poll_rx k g = Some (flen, d, g')" "0 \<le> flen" "0 < flen \<or> 0 < genet_rx_available g'"
  shows "rx_used g' < rx_used g"
proof -
  have "rx_prod g' = rx_prod g \<and> g_rx_cidx g' = g_rx_cidx g + 1 \<and> rx_used g \<noteq> 0"
    using assms
    by (auto simp: genet_poll_rx_def Let_def rx_prod_def rx_used_def genet_rx_available_def unat_eq_zero split: if_splits bind_splits)
  then show ?thesis using index_succ(2) [of "rx_prod g" "g_rx_cidx g"] by (simp add: rx_used_def)
qed

function net_drain :: "netif \<Rightarrow> netif option" where
  "net_drain nf = do {
     (flen, d, g) \<leftarrow> genet_poll_rx 1536 (nf_genet nf);
     let nf = nf\<lparr>nf_genet := g, nf_frame := d @ drop (length d) (nf_frame nf)\<rparr>;
     if 0 \<le> flen \<and> (0 < flen \<or> 0 < genet_rx_available g) then do {
       nf \<leftarrow> (if 13 < flen then genet_module_rx (nf_frame nf) flen nf else Some nf);
       net_drain nf
     } else Some nf
   }"
  by pat_completeness auto
termination
  by (relation "measure (rx_used \<circ> nf_genet)")
    (auto dest!: rx_used_module genet_poll_rx_used split: if_splits)

declare net_drain.simps [simp del]

section \<open>The filter list\<close>

text \<open>The indices on the list from a pointer on, and the invariant: the list holds exactly the entries in use.\<close>

fun fpath :: "phoenix_filter list \<Rightarrow> nat option \<Rightarrow> nat list \<Rightarrow> bool" where
  "fpath pool p [] = (p = None)"
| "fpath pool p (i # is) = (p = Some i \<and> i < length pool \<and> f_handler (pool ! i) \<noteq> 0 \<and> fpath pool (f_next (pool ! i)) is)"

definition filters_are :: "genet_module \<Rightarrow> nat list \<Rightarrow> bool" where
  "filters_are m is \<longleftrightarrow> length (g_filter_pool m) = 8 \<and> fpath (g_filter_pool m) (g_filter_list m) is \<and> distinct is \<and>
     (\<forall>i<8. f_handler (g_filter_pool m ! i) \<noteq> 0 \<longrightarrow> i \<in> set is)"

text \<open>The registered filters, newest first: type, address level, error level, handler and private word.\<close>

definition claim :: "phoenix_filter \<Rightarrow> u32 \<times> u8 \<times> u8 \<times> u32 \<times> u32" where
  "claim f = (f_type f, f_addresslevel f, f_errorlevel f, f_handler f, f_pw f)"

definition filters :: "genet_module \<Rightarrow> nat list \<Rightarrow> (u32 \<times> u8 \<times> u8 \<times> u32 \<times> u32) list" where
  "filters m is = map (\<lambda>i. claim (g_filter_pool m ! i)) is"

lemma nth_update_any: "(xs[j := v]) ! k = (if k = j \<and> j < length xs then v else xs ! k)"
  by (cases "j < length xs") (auto simp: nth_list_update list_update_beyond)

lemma fpath_cong:
  "(\<And>i. i \<in> set is \<Longrightarrow> pool' ! i = pool ! i) \<Longrightarrow> length pool' = length pool \<Longrightarrow> fpath pool' p is = fpath pool p is"
  by (induction "is" arbitrary: p) auto

lemma fpath_less: "fpath pool p is \<Longrightarrow> i \<in> set is \<Longrightarrow> i < length pool \<and> f_handler (pool ! i) \<noteq> 0"
  by (induction "is" arbitrary: p) auto

lemma filter_registered_eq:
  "fpath pool p is \<Longrightarrow> filter_registered pool t h w p = Some (\<exists>i\<in>set is. same_claim t h w (pool ! i))"
proof (induction "is" arbitrary: p)
  case (Cons i "is")
  then show ?case by (subst filter_registered.simps) auto
qed (simp add: filter_registered.simps)

lemma filter_walk_eq:
  "fpath pool p is \<Longrightarrow> filter_walk pool et p b = Some (b \<or> (\<exists>i\<in>set is. filter_match et (pool ! i)))"
proof (induction "is" arbitrary: p b)
  case (Cons i "is")
  then show ?case by (subst filter_walk.simps) auto
qed (simp add: filter_walk.simps)

lemma filters_sub: "filters_are m is \<Longrightarrow> set is \<subseteq> {..<8}"
  using fpath_less by (fastforce simp: filters_are_def)

lemma filters_le: "filters_are m is \<Longrightarrow> length is \<le> 8"
  using card_mono [OF _ filters_sub, of m "is"] by (auto simp: filters_are_def distinct_card)

lemma filter_alloc_None:
  assumes "filters_are m is"
  shows "filter_alloc (g_filter_pool m) = None \<longleftrightarrow> length is = 8"
proof
  assume "filter_alloc (g_filter_pool m) = None"
  then have "\<forall>i<8. f_handler (g_filter_pool m ! i) \<noteq> 0" by (auto simp: filter_alloc_def find_None_iff GENET_MAX_FILTERS_def)
  then have "{..<8} \<subseteq> set is" using assms by (auto simp: filters_are_def)
  then have "8 \<le> card (set is)" using card_mono [of "set is" "{..<8}"] by simp
  then show "length is = 8" using filters_le [OF assms] assms by (simp add: filters_are_def distinct_card)
next
  assume "length is = 8"
  then have "set is = {..<8}"
    using assms filters_sub [OF assms] by (intro card_subset_eq) (auto simp: filters_are_def distinct_card)
  then show "filter_alloc (g_filter_pool m) = None"
    using assms fpath_less [of "g_filter_pool m" "g_filter_list m" "is"]
    by (auto simp: filter_alloc_def find_None_iff GENET_MAX_FILTERS_def filters_are_def)
qed

lemma filter_alloc_Some:
  "filter_alloc pool = Some i \<Longrightarrow> i < 8 \<and> f_handler (pool ! i) = 0"
  by (auto simp: filter_alloc_def find_Some_iff GENET_MAX_FILTERS_def nth_upt)

lemma filter_add_spec:
  assumes "filters_are m is" "handler \<noteq> 0"
  shows "\<exists>m' is' rc. filter_add type al el handler pw m = Some (rc, m') \<and> filters_are m' is' \<and>
    (rc, filters m' is') =
      (if \<exists>(t, _, _, h, w) \<in> set (filters m is). t = type \<and> h = handler \<and> w = pw then (0, filters m is)
       else if length is = 8 then (-1, filters m is)
       else (0, (type, al, el, handler, pw) # filters m is))"
proof -
  have p: "fpath (g_filter_pool m) (g_filter_list m) is" using assms(1) by (simp add: filters_are_def)
  let ?dup = "\<exists>(t, _, _, h, w) \<in> set (filters m is). t = type \<and> h = handler \<and> w = pw"
  have dup: "filter_registered (g_filter_pool m) type handler pw (g_filter_list m) = Some ?dup"
    using filter_registered_eq [OF p, of type handler pw] by (auto simp: filters_def claim_def same_claim_def)
  show ?thesis
  proof (cases "?dup \<or> filter_alloc (g_filter_pool m) = None")
    case True
    then show ?thesis using assms dup filter_alloc_None [OF assms(1)] by (auto simp: filter_add_def)
  next
    case False
    then obtain i where i: "filter_alloc (g_filter_pool m) = Some i" by auto
    note i8 = filter_alloc_Some [OF i]
    define m' where "m' = m\<lparr>g_filter_pool := (g_filter_pool m)[i := \<lparr>f_next = g_filter_list m, f_type = type,
      f_addresslevel = al, f_errorlevel = el, f_handler = handler, f_pw = pw\<rparr>], g_filter_list := Some i\<rparr>"
    have ni: "i \<notin> set is" using fpath_less [OF p, of i] i8 by auto
    then have "fpath (g_filter_pool m') (g_filter_list m) is = fpath (g_filter_pool m) (g_filter_list m) is"
      by (intro fpath_cong) (auto simp: m'_def nth_update_any)
    then have a: "filters_are m' (i # is)"
      using assms p ni i8 by (auto simp: filters_are_def m'_def nth_list_update)
    have "filters m' (i # is) = (type, al, el, handler, pw) # filters m is"
      using ni i8 assms(1) by (auto simp: filters_def m'_def claim_def filters_are_def nth_list_update)
    moreover have "filter_add type al el handler pw m = Some (0, m')"
      using False assms(2) i dup by (simp add: filter_add_def m'_def Let_def)
    moreover have "\<not> ?dup" "length is \<noteq> 8" using False filter_alloc_None [OF assms(1)] by auto
    ultimately show ?thesis using a by (metis (no_types, lifting))
  qed
qed

lemma fpath_append: "fpath pool p (xs @ ys) \<Longrightarrow> \<exists>q. fpath pool q ys \<and> (xs = [] \<longrightarrow> q = p)"
  by (induction xs arbitrary: p) auto

lemma fpath_skip:
  assumes "fpath pool p (xs @ j # i # ys)" "distinct (xs @ j # i # ys)"
  shows "fpath (pool[j := (pool ! j)\<lparr>f_next := f_next (pool ! i)\<rparr>]) p (xs @ j # ys)"
  using assms
proof (induction xs arbitrary: p)
  case Nil
  then have "fpath (pool[j := (pool ! j)\<lparr>f_next := f_next (pool ! i)\<rparr>]) (f_next (pool ! i)) ys"
    by (subst fpath_cong [of _ _ pool]) (auto simp: nth_update_any)
  then show ?case using Nil by auto
qed (auto simp: nth_list_update)

text \<open>The walk of \<open>filter_remove\<close>, from an entry \<open>j\<close> (or the head) with the rest \<open>is\<close> behind it.\<close>

lemma filter_unlink_eq:
  assumes "fpath pool lst (xs @ is)" "distinct (xs @ is)" "prev = (if xs = [] then None else Some (last xs))"
    "p = (case is of [] \<Rightarrow> None | i # _ \<Rightarrow> Some i)" "\<forall>i\<in>set xs. \<not> same (pool ! i)"
  shows "\<exists>rc pool' lst' js. filter_unlink same pool lst prev p = Some (rc, pool', lst') \<and> length pool' = length pool \<and>
    fpath pool' lst' js \<and> (\<forall>i\<in>set js. claim (pool' ! i) = claim (pool ! i)) \<and>
    (case find (\<lambda>i. same (pool ! i)) is of
       None \<Rightarrow> rc = -1 \<and> js = xs @ is \<and> pool' = pool
     | Some i \<Rightarrow> rc = 0 \<and> js = remove1 i (xs @ is) \<and> f_handler (pool' ! i) = 0 \<and> (\<forall>k. k \<noteq> i \<longrightarrow> f_handler (pool' ! k) = f_handler (pool ! k)))"
  using assms
proof (induction "is" arbitrary: xs prev p)
  case Nil
  then show ?case by (simp add: filter_unlink.simps)
next
  case (Cons i "is")
  show ?case
  proof (cases "same (pool ! i)")
    case False
    have nx: "f_next (pool ! i) = (case is of [] \<Rightarrow> None | k # _ \<Rightarrow> Some k)"
      using Cons.prems(1) fpath_append [of pool lst "xs" "i # is"] by (cases "is") auto
    show ?thesis
      using Cons.IH [of "xs @ [i]" "Some i" "f_next (pool ! i)", unfolded append_assoc append.simps] Cons.prems False nx
      by (subst filter_unlink.simps) (simp add: Let_def)
  next
    case True
    define pool1 where "pool1 = (if xs = [] then pool else pool[last xs := (pool ! last xs)\<lparr>f_next := f_next (pool ! i)\<rparr>])"
    define pool2 where "pool2 = pool1[i := (pool1 ! i)\<lparr>f_handler := 0, f_next := None\<rparr>]"
    define lst' where "lst' = (if xs = [] then f_next (pool ! i) else lst)"
    have i: "i < length pool" "i \<notin> set xs" "i \<notin> set is" using Cons.prems(1,2) fpath_less [OF Cons.prems(1), of i] by auto
    have "filter_unlink same pool lst prev p = Some (0, pool2, lst')"
      using True Cons.prems(3,4) by (subst filter_unlink.simps) (simp add: pool1_def pool2_def lst'_def Let_def)
    moreover have "fpath pool1 lst' (xs @ is)"
    proof (cases xs rule: rev_cases)
      case Nil
      then show ?thesis using Cons.prems(1) by (simp add: pool1_def lst'_def)
    next
      case (snoc ys j)
      then show ?thesis using fpath_skip [of pool lst ys j i "is"] Cons.prems(1,2) by (simp add: pool1_def lst'_def)
    qed
    then have "fpath pool2 lst' (xs @ is)"
      using i by (subst fpath_cong [of _ _ pool1]) (auto simp: pool2_def nth_update_any)
    moreover have "\<forall>k\<in>set (xs @ is). claim (pool2 ! k) = claim (pool ! k)"
      using i by (auto simp: pool2_def pool1_def claim_def nth_update_any)
    moreover have "f_handler (pool2 ! i) = 0" using i by (auto simp: pool2_def pool1_def)
    moreover have "\<forall>k. k \<noteq> i \<longrightarrow> f_handler (pool2 ! k) = f_handler (pool ! k)"
      by (auto simp: pool2_def pool1_def nth_update_any)
    moreover have "length pool2 = length pool" by (simp add: pool2_def pool1_def)
    ultimately show ?thesis using True i by (auto simp: remove1_append intro!: exI [of _ "xs @ is"])
  qed
qed

lemma filter_remove_spec:
  assumes "filters_are m is"
  shows "\<exists>m' is' rc. filter_remove type al el handler pw m = Some (rc, m') \<and> filters_are m' is' \<and>
    (rc, filters m' is') = (if (type, al, el, handler, pw) \<in> set (filters m is) then (0, remove1 (type, al, el, handler, pw) (filters m is)) else (-1, filters m is))"
proof -
  let ?pool = "g_filter_pool m" and ?same = "same_filter type al el handler pw" and ?c = "(type, al, el, handler, pw)"
  have same: "?same f \<longleftrightarrow> claim f = ?c" for f by (auto simp: same_filter_def same_claim_def claim_def)
  have p: "fpath ?pool (g_filter_list m) is" "distinct is" "length ?pool = 8" using assms by (auto simp: filters_are_def)
  have hd: "g_filter_list m = (case is of [] \<Rightarrow> None | i # _ \<Rightarrow> Some i)" using p(1) by (cases "is") auto
  obtain rc pool' lst' js where u: "filter_unlink ?same ?pool (g_filter_list m) None (g_filter_list m) = Some (rc, pool', lst')"
      "length pool' = length ?pool" "fpath pool' lst' js" "\<forall>i\<in>set js. claim (pool' ! i) = claim (?pool ! i)"
      "case find (\<lambda>i. ?same (?pool ! i)) is of None \<Rightarrow> rc = -1 \<and> js = is \<and> pool' = ?pool
       | Some i \<Rightarrow> rc = 0 \<and> js = remove1 i is \<and> f_handler (pool' ! i) = 0 \<and> (\<forall>k. k \<noteq> i \<longrightarrow> f_handler (pool' ! k) = f_handler (?pool ! k))"
    using filter_unlink_eq [of ?pool "g_filter_list m" "[]" "is" None "g_filter_list m" ?same, unfolded append_Nil] p hd by auto
  define m' where "m' = m\<lparr>g_filter_pool := pool', g_filter_list := lst'\<rparr>"
  have r: "filter_remove type al el handler pw m = Some (rc, m')" using u(1) by (simp add: filter_remove_def m'_def)
  have c: "filters m' js = map (\<lambda>i. claim (?pool ! i)) js" using u(4) by (simp add: filters_def m'_def)
  show ?thesis
  proof (cases "find (\<lambda>i. ?same (?pool ! i)) is")
    case None
    then have "?c \<notin> set (filters m is)" by (auto simp: find_None_iff filters_def same)
    moreover have "filters_are m' is" using None u p assms by (simp add: filters_are_def m'_def)
    ultimately show ?thesis using None u(5) r c by (auto simp: filters_def)
  next
    case (Some i)
    then obtain k where k: "k < length is" "is ! k = i" "claim (?pool ! i) = ?c" "\<forall>l<k. claim (?pool ! (is ! l)) \<noteq> ?c"
      by (auto simp: find_Some_iff same)
    have eq: "is = take k is @ i # drop (Suc k) is" using k(1,2) id_take_nth_drop by metis
    have "i \<in> set is" using k(1,2) by auto
    then have "?c \<in> set (filters m is)" unfolding k(3) [symmetric] filters_def by simp
    moreover have "remove1 ?c (filters m is) = map (\<lambda>i. claim (?pool ! i)) (remove1 i is)"
    proof -
      have 1: "?c \<notin> (\<lambda>i. claim (?pool ! i)) ` set (take k is)"
        using k(1,4) by (auto simp: set_conv_nth)
      have 2: "i \<notin> set (take k is)" using p(2) eq by (metis disjoint_insert(1) distinct_append list.simps(15))
      have "remove1 ?c (map (\<lambda>i. claim (?pool ! i)) (take k is @ i # drop (Suc k) is))
          = map (\<lambda>i. claim (?pool ! i)) (remove1 i (take k is @ i # drop (Suc k) is))"
        using 1 2 k(3) by (simp add: remove1_append)
      then show ?thesis unfolding filters_def using eq by simp
    qed
    moreover have "filters_are m' js"
      using Some u p assms by (auto simp: filters_are_def m'_def)
    moreover have "rc = 0" "js = remove1 i is" using Some u(5) by auto
    ultimately show ?thesis using r c by (intro exI [of _ m'] exI [of _ js] exI [of _ rc]) simp
  qed
qed

section \<open>Correctness\<close>

datatype filter_op = Claim u32 u8 u8 u32 u32 | Release u32 u8 u8 u32 u32

fun filter_call :: "filter_op \<Rightarrow> genet_module \<Rightarrow> (int \<times> genet_module) option" where
  "filter_call (Claim t al el h w) m = filter_add t al el h w m"
| "filter_call (Release t al el h w) m = filter_remove t al el h w m"

fun filter_calls :: "filter_op list \<Rightarrow> genet_module \<Rightarrow> (int list \<times> genet_module) option" where
  "filter_calls [] m = Some ([], m)"
| "filter_calls (c # cs) m = do { (rc, m) \<leftarrow> filter_call c m; (rcs, m) \<leftarrow> filter_calls cs m; Some (rc # rcs, m) }"

text \<open>What the calls mean: a list of at most eight claims, no two with the same type, handler and private word.\<close>

fun claims_call :: "filter_op \<Rightarrow> (u32 \<times> u8 \<times> u8 \<times> u32 \<times> u32) list \<Rightarrow> int \<times> (u32 \<times> u8 \<times> u8 \<times> u32 \<times> u32) list" where
  "claims_call (Claim t al el h w) cs =
     (if h = 0 then (-1, cs)
      else if \<exists>(t', _, _, h', w') \<in> set cs. t' = t \<and> h' = h \<and> w' = w then (0, cs)
      else if length cs = 8 then (-1, cs) else (0, (t, al, el, h, w) # cs))"
| "claims_call (Release t al el h w) cs =
     (if (t, al, el, h, w) \<in> set cs then (0, remove1 (t, al, el, h, w) cs) else (-1, cs))"

fun claims_calls :: "filter_op list \<Rightarrow> (u32 \<times> u8 \<times> u8 \<times> u32 \<times> u32) list \<Rightarrow> int list \<times> (u32 \<times> u8 \<times> u8 \<times> u32 \<times> u32) list" where
  "claims_calls [] cs = ([], cs)"
| "claims_calls (c # ops) cs = (let (rc, cs) = claims_call c cs; (rcs, cs) = claims_calls ops cs in (rc # rcs, cs))"

lemma filter_call_refines:
  assumes "filters_are m is"
  shows "\<exists>m' is' rc. filter_call c m = Some (rc, m') \<and> filters_are m' is' \<and> claims_call c (filters m is) = (rc, filters m' is')"
proof (cases c)
  case (Claim t al el h w)
  show ?thesis
  proof (cases "h = 0")
    case True
    then show ?thesis using Claim assms by (auto simp: filter_add_def)
  next
    case False
    have "length (filters m is) = length is" by (simp add: filters_def)
    then show ?thesis using filter_add_spec [OF assms False, of t al el w] False Claim by (simp only: filter_call.simps claims_call.simps) metis
  qed
next
  case (Release t al el h w)
  then show ?thesis using filter_remove_spec [OF assms, of t al el h w] by (simp only: filter_call.simps claims_call.simps) metis
qed

lemma filter_calls_refines:
  "filters_are m is \<Longrightarrow> \<exists>m' is' rcs. filter_calls ops m = Some (rcs, m') \<and> filters_are m' is' \<and> claims_calls ops (filters m is) = (rcs, filters m' is')"
proof (induction ops arbitrary: m "is")
  case (Cons c ops)
  obtain m1 is1 rc where 1: "filter_call c m = Some (rc, m1)" "filters_are m1 is1" "claims_call c (filters m is) = (rc, filters m1 is1)"
    using filter_call_refines [OF Cons.prems] by blast
  then show ?case using Cons.IH [OF 1(2)] by auto
qed auto

text \<open>From the start of the module, every sequence of claims and releases of receive filters returns what the same
  calls return on a plain list of at most eight claims, and leaves exactly those claims on the linked list through the
  pool: no walk of the list runs forever, and no entry leaks.\<close>

theorem filter_list_refines:
  assumes "length (g_filter_pool m) = 8"
  shows "\<exists>m' is. filter_calls ops (snd (genet_module_init a m)) = Some (fst (claims_calls ops []), m') \<and>
    filters_are m' is \<and> filters m' is = snd (claims_calls ops [])"
proof -
  have "filters_are (snd (genet_module_init a m)) []" using assms by (simp add: filters_are_def genet_module_init_def Let_def)
  then show ?thesis using filter_calls_refines [of "snd (genet_module_init a m)" "[]" ops] by (auto simp: filters_def)
qed

definition demo_module :: genet_module where
  "demo_module = \<lparr>g_dib = module_dib, g_running = False,
     g_filter_pool = replicate 8 \<lparr>f_next = None, f_type = 0, f_addresslevel = 0, f_errorlevel = 0, f_handler = 0, f_pw = 0\<rparr>,
     g_filter_list = None, g_tx_frames = 0, g_tx_bytes = 0, g_tx_errors = 0, g_rx_frames = 0, g_rx_bytes = 0, g_rx_errors = 0,
     g_rx_discard = 0, service_log = []\<rparr>"

lemma filter_list_refines_witness:
  "\<exists>m' is. filter_calls [Claim 0x10800 1 0 0x8000 0, Claim 0x10800 2 0 0x8000 0, Release 0x10800 2 0 0x8000 0]
      (snd (genet_module_init 0 demo_module)) = Some ([0, 0, -1], m') \<and>
    filters_are m' is \<and> filters m' is = [(0x10800, 1, 0, 0x8000, 0)]"
  using filter_list_refines [of demo_module "[Claim 0x10800 1 0 0x8000 0, Claim 0x10800 2 0 0x8000 0, Release 0x10800 2 0 0x8000 0]" 0]
  by (simp add: demo_module_def)

text \<open>
  The reference for the drain loop: the frames that wait in the ring go to the protocol stack in order, each
  in the loop's buffer (whose tail keeps what earlier frames left there).
\<close>

fun rx_stack :: "bytes \<Rightarrow> net \<Rightarrow> bytes list \<Rightarrow> (bytes \<times> net \<times> bytes list) option" where
  "rx_stack b n [] = Some (b, n, [])"
| "rx_stack b n (f # fs) =
     (let b = f @ drop (length f) b
      in if 13 < length f then do {
           (n, out) \<leftarrow> net_rx_frame n b (int (length f));
           (b, n, out') \<leftarrow> rx_stack b n fs;
           Some (b, n, out @ out')
         } else rx_stack b n fs)"

lemma sent_rx:
  assumes "rx_inv g"
  shows "rx_inv (send_all fs g)" "rx_items (send_all fs g) = rx_items g"
proof -
  have u: "rx_used (send_all fs g) = rx_used g" by (simp add: rx_used_def rx_prod_def)
  show "rx_inv (send_all fs g)" using assms u by (simp add: rx_inv_def)
  show "rx_items (send_all fs g) = rx_items g" using u by (simp add: rx_items_def rx_frame_def)
qed

lemma sent_tx:
  "tx_inv g \<Longrightarrow> \<forall>f\<in>set fs. tx_ok f \<Longrightarrow> tx_used g + length fs \<le> 63 \<Longrightarrow>
    tx_inv (send_all fs g) \<and> tx_items (send_all fs g) = tx_items g @ fs"
proof (induction fs arbitrary: g)
  case (Cons f fs)
  have 1: "tx_used g < 63" "genet_send f g = (0, sent f g)" using Cons.prems by (auto simp: genet_send_eq)
  have 2: "tx_inv (sent f g)" "tx_items (sent f g) = tx_items g @ [f]" "tx_used (sent f g) = Suc (tx_used g)"
    using sent_inv [of g f] sent_simps(2) [of g f] Cons.prems 1(1) by auto
  show ?case using Cons.IH [of "sent f g"] Cons.prems 1 2 by (simp add: send_all_def)
qed (simp add: send_all_def)

lemma polled_tx:
  "tx_inv (polled g) = tx_inv g" "tx_items (polled g) = tx_items g"
proof -
  have "tx_cons (polled g) = tx_cons g" "g_tx_pidx (polled g) = g_tx_pidx g" by (simp_all add: tx_cons_def polled_def)
  then have u: "tx_used (polled g) = tx_used g" "tx_cons (polled g) = tx_cons g" by (simp_all add: tx_used_def)
  show "tx_inv (polled g) = tx_inv g" unfolding tx_inv_def u by (simp add: polled_def)
  show "tx_items (polled g) = tx_items g" unfolding tx_items_def u by (simp add: polled_def tx_frame_def)
qed

lemma net_drain_step:
  assumes "rx_inv (nf_genet nf)" "rx_items (nf_genet nf) = f # fs"
  shows "net_drain nf =
    (let nf' = nf\<lparr>nf_genet := polled (nf_genet nf), nf_frame := f @ drop (length f) (nf_frame nf)\<rparr>
     in do { nf' \<leftarrow> (if 13 < length f then genet_module_rx (nf_frame nf') (int (length f)) nf' else Some nf'); net_drain nf' })"
    and "f \<noteq> []"
proof -
  have u: "rx_used (nf_genet nf) \<noteq> 0" using assms(2) length_rx_items [of "nf_genet nf"] by fastforce
  have f: "f = rx_frame (nf_genet nf) (slot (g_rx_cidx (nf_genet nf)) 0)" using assms(2) u by (simp add: rx_items_def upt_conv_Cons)
  have d: "desc_ok (regs (nf_genet nf) (RX_DESC_STATUS (slot (g_rx_cidx (nf_genet nf)) 0)))"
    "length (rx_bufs (nf_genet nf) ! slot (g_rx_cidx (nf_genet nf)) 0) = 2048" using assms(1) u by (auto simp: rx_inv_def)
  show "f \<noteq> []" unfolding f using desc_ok_D(5) [OF d(1)] d(2) by (auto simp: rx_frame_def simp del: drop_bit_and)
  then show "net_drain nf =
    (let nf' = nf\<lparr>nf_genet := polled (nf_genet nf), nf_frame := f @ drop (length f) (nf_frame nf)\<rparr>
     in do { nf' \<leftarrow> (if 13 < length f then genet_module_rx (nf_frame nf') (int (length f)) nf' else Some nf'); net_drain nf' })"
    using genet_poll_rx_eq [OF assms(1)] u f by (subst net_drain.simps) (simp add: Let_def)
qed

lemma net_drain_refines_aux:
  assumes "rx_inv (nf_genet nf)" "tx_inv (nf_genet nf)" "filters_are (nf_mod nf) is"
    "rx_stack (nf_frame nf) (nf_net nf) (rx_items (nf_genet nf)) = Some (b, n, out)"
    "\<forall>f\<in>set out. tx_ok f" "length (tx_items (nf_genet nf)) + length out \<le> 63"
  shows "\<exists>nf'. net_drain nf = Some nf' \<and> nf_net nf' = n \<and> nf_frame nf' = b \<and> rx_inv (nf_genet nf') \<and> rx_items (nf_genet nf') = [] \<and>
    tx_inv (nf_genet nf') \<and> tx_items (nf_genet nf') = tx_items (nf_genet nf) @ out"
  using assms
proof (induction "rx_items (nf_genet nf)" arbitrary: nf out)
  case Nil
  then have "rx_used (nf_genet nf) = 0" using length_rx_items [of "nf_genet nf"] by simp
  moreover from this have "genet_rx_available (nf_genet nf) = 0"
    by (auto simp: genet_rx_available_def rx_used_def rx_prod_def unat_eq_zero)
  ultimately have "net_drain nf = Some nf"
    using genet_poll_rx_eq [OF Nil.prems(1)] by (subst net_drain.simps) simp
  then show ?case using Nil by simp
next
  case (Cons f fs)
  note it = Cons.hyps(2) [symmetric]
  let ?g = "polled (nf_genet nf)" and ?b = "f @ drop (length f) (nf_frame nf)"
  have u: "rx_used (nf_genet nf) \<noteq> 0" using it length_rx_items [of "nf_genet nf"] by fastforce
  have g: "rx_inv ?g" "rx_items ?g = fs" "tx_inv ?g" "tx_items ?g = tx_items (nf_genet nf)"
    using polled_inv [OF Cons.prems(1) u] Cons.prems(2) it by (simp_all add: polled_tx)
  show ?case
  proof (cases "13 < length f")
    case False
    then show ?thesis
      using Cons.hyps(1) [of "nf\<lparr>nf_genet := ?g, nf_frame := ?b\<rparr>" out] Cons.prems g net_drain_step(1) [OF Cons.prems(1) it] it
      by (simp add: Let_def)
  next
    case True
    obtain n1 out1 out2 where n1: "net_rx_frame (nf_net nf) ?b (int (length f)) = Some (n1, out1)"
      and st: "rx_stack ?b n1 fs = Some (b, n, out2)" and out: "out = out1 @ out2"
      using Cons.prems(4) True it by (auto simp: Let_def split: bind_splits)
    let ?m = "(nf_mod nf)\<lparr>g_rx_frames := g_rx_frames (nf_mod nf) + 1, g_rx_bytes := g_rx_bytes (nf_mod nf) + word_of_int (int (length f))\<rparr>"
    let ?nf = "nf\<lparr>nf_genet := send_all out1 ?g, nf_mod := ?m, nf_net := n1, nf_frame := ?b\<rparr>"
    obtain et where et: "rd16be ?b 12 = Some et" using True by (simp add: rd16be_Some)
    have fl: "fpath (g_filter_pool (nf_mod nf)) (g_filter_list (nf_mod nf)) is" using Cons.prems(3) by (simp add: filters_are_def)
    have m: "genet_module_rx ?b (int (length f)) (nf\<lparr>nf_genet := ?g, nf_frame := ?b\<rparr>) = Some ?nf"
      using True n1 et filter_walk_eq [OF fl, of et False] by (simp add: genet_module_rx_def Let_def)
    have t: "tx_inv (send_all out1 ?g)" "tx_items (send_all out1 ?g) = tx_items (nf_genet nf) @ out1"
      using sent_tx [of ?g out1] g Cons.prems(5,6) out length_tx_items [of ?g] by auto
    have "filters_are ?m is" using Cons.prems(3) by (simp add: filters_are_def)
    then show ?thesis
      using Cons.hyps(1) [of ?nf out2] sent_rx [OF g(1), of out1] g t st Cons.prems(5,6) out
        net_drain_step(1) [OF Cons.prems(1) it] True m by (auto simp: Let_def)
  qed
qed

text \<open>The interface as a whole: emptying the receive ring gives the frames that waited there to the protocol stack, in
  order of arrival; the stack reaches the state those frames lead to, and exactly the frames it produced in answer
  are queued, in order, behind what the transmit ring already held. The loop ends with the receive ring empty.\<close>

theorem net_drain_refines:
  assumes "rx_inv (nf_genet nf)" "tx_inv (nf_genet nf)" "filters_are (nf_mod nf) is"
    and "rx_stack (nf_frame nf) (nf_net nf) (rx_items (nf_genet nf)) = Some (b, n, out)"
    and "\<forall>f\<in>set out. 0 < length f \<and> length f \<le> 1536" "length (tx_items (nf_genet nf)) + length out \<le> 63"
  shows "\<exists>nf'. net_drain nf = Some nf' \<and> nf_net nf' = n \<and> rx_items (nf_genet nf') = [] \<and>
    tx_items (nf_genet nf') = tx_items (nf_genet nf) @ out"
  using net_drain_refines_aux [OF assms(1-4) _ assms(6)] assms(5) by (auto simp: tx_ok_def)

text \<open>A started interface: the driver and the module are initialised, the stack is booted and has an address.\<close>

definition netif_boot :: "(u16 \<Rightarrow> u16) \<Rightarrow> mac6 \<Rightarrow> ip4 \<Rightarrow> genet \<Rightarrow> genet_module \<Rightarrow> netif" where
  "netif_boot phy mac ip g m =
     (let n = tcpip_init (net_boot mac)
      in \<lparr>nf_genet = genet_init phy (Some mac) g, nf_mod = snd (genet_module_init 0 m),
          nf_net = n\<lparr>n_dhcp := (n_dhcp n)\<lparr>g_our_ip := ip\<rparr>\<rparr>, nf_frame = replicate 1536 0\<rparr>)"

lemma rd_append: "i < int (length xs) \<Longrightarrow> rd (xs @ ys) i = rd xs i"
  by (auto simp: rd_def nth_append)

lemma arp_input_request:
  assumes "arp_inv st" "s_next_slot st < 2147483647" "ipa \<noteq> (0, 0, 0, 0)"
  shows "\<exists>st'. arp_input mac ip st (arp_send_request maca ipa ip @ ys) 60 = Some (st', [send_reply mac ip maca ipa]) \<and>
    arp_resolve st' ipa = Some maca"
proof -
  let ?f = "arp_send_request maca ipa ip"
  obtain st' where st: "table_update ipa maca st = Some st'" using table_update_safe [OF assms(1,2)] by blast
  have "rd16be (?f @ ys) 20 = rd16be ?f 20" "rd_mac (?f @ ys) 22 = rd_mac ?f 22" "rd_ip (?f @ ys) 28 = rd_ip ?f 28"
    "rd_ip (?f @ ys) 38 = rd_ip ?f 38"
    by (simp_all add: rd16be_def rd_mac_def rd_ip_def rd_append request_fields(1))
  then have "arp_input mac ip st (?f @ ys) 60 = Some (st', [send_reply mac ip maca ipa])"
    by (simp add: arp_input_def ARP_OP_REQUEST_def request_fields st)
  then show ?thesis using table_update_same [OF assms(1,3) st] by blast
qed

lemma received_tx: "tx_inv (received f g) = tx_inv g" "tx_items (received f g) = tx_items g"
proof -
  have "tx_cons (received f g) = tx_cons g" "g_tx_pidx (received f g) = g_tx_pidx g"
    by (simp_all add: tx_cons_def received_def Let_def)
  then have u: "tx_used (received f g) = tx_used g" "tx_cons (received f g) = tx_cons g" by (simp_all add: tx_used_def)
  show "tx_inv (received f g) = tx_inv g" unfolding tx_inv_def u by (simp add: received_def Let_def)
  show "tx_items (received f g) = tx_items g" unfolding tx_items_def u by (simp add: received_def Let_def tx_frame_def)
qed

text \<open>C7. From the wire to the wire: when an ARP request for our address arrives at a started interface, the next
  pass of the drain loop answers it, and the next frame the transmit engine puts on the wire is the ARP reply
  with our MAC address to the asker; the asker's address is then in our ARP table.\<close>

theorem arp_request_answered:
  assumes "genet_v5 g" "regs g RX_PROD_INDEX = 0" "length (g_filter_pool m) = 8" "ipa \<noteq> (0, 0, 0, 0)"
  shows "\<exists>g1 nf' g2. rx_dma 0 (arp_send_request maca ipa ip) (nf_genet (netif_boot phy mac ip g m)) = (True, g1) \<and>
    net_drain ((netif_boot phy mac ip g m)\<lparr>nf_genet := g1\<rparr>) = Some nf' \<and>
    tx_dma (nf_genet nf') = (Some (send_reply mac ip maca ipa), g2) \<and>
    arp_resolve (n_arp (nf_net nf')) ipa = Some maca"
proof -
  let ?b = "netif_boot phy mac ip g m" and ?f = "arp_send_request maca ipa ip"
  note r = genet_init_rings_ready [OF assms(1), of phy "Some mac"]
  have ok: "tx_ok ?f" by (simp add: tx_ok_def request_fields)
  have g: "nf_genet ?b = genet_init phy (Some mac) g" by (simp add: netif_boot_def Let_def)
  obtain g1 where g1: "rx_dma 0 ?f (nf_genet ?b) = (True, g1)" "rx_inv g1" "rx_items g1 = [?f]" "g1 = received ?f (nf_genet ?b)"
    using rxq.put_spec [OF r(6) [OF assms(2)] ok] r(7) [OF assms(2)] g rx_dma_eq [OF r(6) [OF assms(2)], of ?f]
    by (auto split: if_splits)
  have t: "tx_inv g1" "tx_items g1 = []" using r(1,2) g g1(4) by (simp_all add: received_tx)
  let ?ys = "replicate 1476 0 :: bytes" and ?n = "nf_net ?b"
  have n: "arp_inv (n_arp ?n)" "s_next_slot (n_arp ?n) = 0" "g_genet_mac ?n = mac" "g_our_ip (n_dhcp ?n) = ip"
    using net_boot_inv [of mac] net_boot_slot [of mac]
    by (simp_all add: netif_boot_def Let_def net_inv_def) (simp_all add: tcpip_init_def net_boot_def)
  obtain st where st: "arp_input mac ip (n_arp ?n) (?f @ ?ys) 60 = Some (st, [send_reply mac ip maca ipa])" "arp_resolve st ipa = Some maca"
    using arp_input_request [OF n(1) _ assms(4), of mac ip maca ?ys] n(2) by auto
  have "rd16be (?f @ ?ys) 12 = rd16be ?f 12" by (simp add: rd16be_def rd_append request_fields(1))
  then have "net_rx_frame ?n (?f @ ?ys) 60 = Some (?n\<lparr>n_arp := st\<rparr>, [send_reply mac ip maca ipa])"
    by (simp add: net_rx_frame_def request_fields n st)
  moreover have "nf_frame ?b = replicate 1536 0" by (simp add: netif_boot_def Let_def)
  ultimately have rs: "rx_stack (nf_frame ?b) ?n [?f] = Some (?f @ ?ys, ?n\<lparr>n_arp := st\<rparr>, [send_reply mac ip maca ipa])"
    by (simp add: request_fields(1))
  have rep: "tx_ok (send_reply mac ip maca ipa)" "tx_used g1 = 0"
    using t(2) length_tx_items [of g1] by (simp_all add: tx_ok_def reply_fields)
  have fl: "filters_are (nf_mod ?b) []"
    using assms(3) by (simp add: netif_boot_def Let_def filters_are_def genet_module_init_def)
  obtain nf' where nf': "net_drain (?b\<lparr>nf_genet := g1\<rparr>) = Some nf'" "nf_net nf' = ?n\<lparr>n_arp := st\<rparr>"
      "tx_inv (nf_genet nf')" "tx_items (nf_genet nf') = [send_reply mac ip maca ipa]"
    using net_drain_refines_aux [of "?b\<lparr>nf_genet := g1\<rparr>" "[]" "?f @ ?ys" "?n\<lparr>n_arp := st\<rparr>" "[send_reply mac ip maca ipa]"]
      g1(2,3) t fl rs rep by auto
  then show ?thesis using g1(1) st(2) txq.get_spec [OF nf'(3)] by auto
qed

lemma arp_request_answered_witness:
  "\<exists>g1 nf' g2. rx_dma 0 (arp_send_request (2, 0, 0, 0, 0, 9) (10, 0, 0, 9) (10, 0, 0, 1))
      (nf_genet (netif_boot (\<lambda>_. 0) (2, 0, 0, 0, 0, 1) (10, 0, 0, 1) demo_genet demo_module)) = (True, g1) \<and>
    net_drain ((netif_boot (\<lambda>_. 0) (2, 0, 0, 0, 0, 1) (10, 0, 0, 1) demo_genet demo_module)\<lparr>nf_genet := g1\<rparr>) = Some nf' \<and>
    tx_dma (nf_genet nf') = (Some (send_reply (2, 0, 0, 0, 0, 1) (10, 0, 0, 1) (2, 0, 0, 0, 0, 9) (10, 0, 0, 9)), g2) \<and>
    arp_resolve (n_arp (nf_net nf')) (10, 0, 0, 9) = Some (2, 0, 0, 0, 0, 9)"
  by (rule arp_request_answered [OF demo_genet_v5(1) demo_genet_prod(1)]) (simp_all add: demo_module_def)

lemma net_drain_refines_witness:
  "\<exists>nf'. net_drain ((netif_boot (\<lambda>_. 0) (2, 0, 0, 0, 0, 1) (10, 0, 0, 1) demo_genet demo_module)
        \<lparr>nf_genet := received [1, 2, 3] (genet_init (\<lambda>_. 0) (Some (2, 0, 0, 0, 0, 1)) demo_genet)\<rparr>) = Some nf' \<and>
    nf_net nf' = nf_net (netif_boot (\<lambda>_. 0) (2, 0, 0, 0, 0, 1) (10, 0, 0, 1) demo_genet demo_module) \<and>
    rx_items (nf_genet nf') = [] \<and> tx_items (nf_genet nf') = []"
proof -
  let ?b = "netif_boot (\<lambda>_. 0) (2, 0, 0, 0, 0, 1) (10, 0, 0, 1) demo_genet demo_module"
    and ?g = "genet_init (\<lambda>_. 0) (Some (2, 0, 0, 0, 0, 1)) demo_genet"
  note r = genet_init_rings_ready [OF demo_genet_v5(1), of "\<lambda>_. 0" "Some (2, 0, 0, 0, 0, 1)"]
  have u: "rx_used ?g = 0" using r(7) [OF demo_genet_prod(1)] length_rx_items [of ?g] by simp
  have t: "tx_ok [1, 2, 3]" by (simp add: tx_ok_def)
  have rx: "rx_inv (received [1, 2, 3] ?g)" "rx_items (received [1, 2, 3] ?g) = [[1, 2, 3]]"
    using received_inv [OF r(6) [OF demo_genet_prod(1)] _ t] u r(7) [OF demo_genet_prod(1)] by simp_all
  have tx: "tx_inv (received [1, 2, 3] ?g)" "tx_items (received [1, 2, 3] ?g) = []" using r(1,2) by (simp_all add: received_tx)
  have "filters_are (nf_mod ?b) []" by (simp add: netif_boot_def Let_def filters_are_def genet_module_init_def demo_module_def)
  then show ?thesis
    using net_drain_refines [of "?b\<lparr>nf_genet := received [1, 2, 3] ?g\<rparr>" "[]" "[1, 2, 3] @ drop 3 (nf_frame ?b)" "nf_net ?b" "[]"] rx tx
    by (simp add: numeral_3_eq_3 flip: length_tx_items)
qed

end
