(* ===== verification/Msc.thy ===== *)
theory Msc
  imports Disc
begin

text \<open>
  drivers/usb/usb_core.c, the routing of transfers and the binding of class drivers, and
  drivers/usb/usb_mass_storage.c, the bulk-only transport with its SCSI commands and the block device above
  it. The host controller driver is an argument: its transfers take the buffer and give the return
  code and the buffer afterwards; the state \<open>'w\<close> is that of the bus, the device behind it and the clock. A wait on
  the clock that never ends has no result.
\<close>

section \<open>USB core\<close>

record usb_endpoint =
  bEndpointAddress :: u8
  bmAttributes :: u8
  slot_id :: u8

record usb_interface =
  bInterfaceNumber :: u8
  bInterfaceClass :: u8
  bInterfaceProtocol :: u8
  endpoints :: "usb_endpoint list"

record usb_device =
  idVendor :: u16
  idProduct :: u16
  interfaces :: "usb_interface list"

type_synonym 'w bulk = "usb_endpoint \<Rightarrow> bytes \<Rightarrow> 'w \<Rightarrow> int \<times> bytes \<times> 'w"
type_synonym 'w control = "usb_device \<Rightarrow> u8 \<Rightarrow> u8 \<Rightarrow> u16 \<Rightarrow> u16 \<Rightarrow> bytes \<Rightarrow> 'w \<Rightarrow> int \<times> bytes \<times> 'w"

record 'w usb_hc_ops =
  control_transfer :: "'w control option"
  bulk_transfer :: "'w bulk option"
  interrupt_transfer :: "'w bulk option"

text \<open>What the storage driver calls beside the core: the direct xHCI entry points and the counter.\<close>

record 'w usb_host =
  g_hc_ops :: "'w usb_hc_ops option"
  xhci_bulk_transfer :: "'w bulk"
  xhci_ep_recover :: "usb_device \<Rightarrow> 'w \<Rightarrow> int \<times> 'w"
  msc_time_ms :: "'w \<Rightarrow> u32 \<times> 'w"

definition usb_register_hc :: "'w usb_hc_ops option \<Rightarrow> 'w usb_host \<Rightarrow> 'w usb_host" where
  "usb_register_hc ops h = (case ops of None \<Rightarrow> h | Some p \<Rightarrow> h\<lparr>g_hc_ops := Some p\<rparr>)"

definition usb_control_transfer :: "'w usb_host \<Rightarrow> 'w control" where
  "usb_control_transfer h dev rt rq value index data w =
     (case Option.bind (g_hc_ops h) control_transfer of None \<Rightarrow> (-1, data, w) | Some f \<Rightarrow> f dev rt rq value index data w)"

definition usb_bulk_transfer :: "'w usb_host \<Rightarrow> 'w bulk" where
  "usb_bulk_transfer h ep data w =
     (if slot_id ep > 0 then xhci_bulk_transfer h ep data w
      else case Option.bind (g_hc_ops h) bulk_transfer of None \<Rightarrow> (-1, data, w) | Some f \<Rightarrow> f ep data w)"

definition usb_interrupt_transfer :: "'w usb_host \<Rightarrow> 'w bulk" where
  "usb_interrupt_transfer h ep data w =
     (case Option.bind (g_hc_ops h) interrupt_transfer of None \<Rightarrow> (-1, data, w) | Some f \<Rightarrow> f ep data w)"

text \<open>Class drivers: a class code and a probe, which may change the state of the system.\<close>

record 's usb_class_driver =
  class_code :: u8
  probe :: "usb_device \<Rightarrow> usb_interface \<Rightarrow> 's \<Rightarrow> int \<times> 's"

definition usb_register_class_driver :: "'s usb_class_driver \<Rightarrow> 's usb_class_driver list \<Rightarrow> 's usb_class_driver list" where
  "usb_register_class_driver d ds = (if length ds \<ge> 16 then ds else ds @ [d])"

fun probe_drivers :: "usb_device \<Rightarrow> usb_interface \<Rightarrow> 's usb_class_driver list \<Rightarrow> nat \<Rightarrow> 's \<Rightarrow> nat \<times> 's" where
  "probe_drivers dev intf [] bound s = (bound, s)"
| "probe_drivers dev intf (d # ds) bound s =
     (if bInterfaceClass intf \<noteq> class_code d then probe_drivers dev intf ds bound s
      else let (rc, s) = probe d dev intf s in probe_drivers dev intf ds (if rc = 0 then bound + 1 else bound) s)"

fun probe_interfaces :: "usb_device \<Rightarrow> usb_interface list \<Rightarrow> 's usb_class_driver list \<Rightarrow> nat \<Rightarrow> 's \<Rightarrow> nat \<times> 's" where
  "probe_interfaces dev [] ds bound s = (bound, s)"
| "probe_interfaces dev (i # is) ds bound s =
     (let (bound, s) = probe_drivers dev i ds bound s in probe_interfaces dev is ds bound s)"

definition usb_enumerate_device :: "usb_device \<Rightarrow> 's usb_class_driver list \<Rightarrow> 's \<Rightarrow> nat \<times> 's" where
  "usb_enumerate_device dev ds s = probe_interfaces dev (interfaces dev) ds 0 s"

section \<open>Bulk-only transport\<close>

record usb_storage =
  st_dev :: usb_device
  st_bulk_in :: usb_endpoint
  st_bulk_out :: usb_endpoint
  st_intf_num :: u8
  st_capacity :: "u64 list"
  st_block_size :: "u32 list"

definition CBW_SIGNATURE :: u32 where "CBW_SIGNATURE = 0x43425355"
definition CSW_SIGNATURE :: u32 where "CSW_SIGNATURE = 0x53425355"

text \<open>The 31 bytes of the packed structure \<open>cbw_t\<close>.\<close>

definition cbw_bytes :: "u32 \<Rightarrow> bool \<Rightarrow> u8 \<Rightarrow> bytes \<Rightarrow> bytes" where
  "cbw_bytes data_len dir_in lun cdb =
     le32_bytes CBW_SIGNATURE @ le32_bytes 0xC0DEC0DE @ le32_bytes data_len @
     [if dir_in then 0x80 else 0, lun, of_nat (length cdb)] @ take 16 (cdb @ replicate 16 0)"

definition clear_halt :: "'w usb_host \<Rightarrow> usb_storage \<Rightarrow> usb_endpoint \<Rightarrow> 'w \<Rightarrow> 'w" where
  "clear_halt h d ep w = snd (snd (usb_control_transfer h (st_dev d) 0x02 0x01 0 (ucast (bEndpointAddress ep)) [] w))"

text \<open>Both endpoints and the rings, after a status phase that failed.\<close>

definition clear_pipes :: "'w usb_host \<Rightarrow> usb_storage \<Rightarrow> 'w \<Rightarrow> 'w" where
  "clear_pipes h d w = snd (xhci_ep_recover h (st_dev d) (clear_halt h d (st_bulk_out d) (clear_halt h d (st_bulk_in d) w)))"

definition bot_scsi_cmd ::
  "'w usb_host \<Rightarrow> usb_storage \<Rightarrow> nat \<Rightarrow> bytes \<Rightarrow> bytes \<Rightarrow> bool \<Rightarrow> 'w \<Rightarrow> int \<times> bytes \<times> 'w" where
  "bot_scsi_cmd h d lun cdb buf dir_in w =
     (let (rc, _, w) = usb_bulk_transfer h (st_bulk_out d) (cbw_bytes (of_nat (length buf)) dir_in (of_nat lun) cdb) w
      in if rc < 0 then (-1, buf, w)
         else
           let (stalled, buf, w) =
                 (if buf = [] then (False, buf, w)
                  else let ep = (if dir_in then st_bulk_in d else st_bulk_out d);
                           (rc, buf', w) = usb_bulk_transfer h ep buf w
                       in if rc < 0 then (True, buf', clear_halt h d ep w) else (False, buf', w));
               (rc, csw, w) = usb_bulk_transfer h (st_bulk_in d) (replicate 13 0) w
           in if rc < 0 then (-1, buf, clear_pipes h d w)
              else if rd32le csw 0 \<noteq> Some CSW_SIGNATURE then (-1, buf, clear_pipes h d w)
              else if stalled then (-1, buf, w)
              else (if csw ! 12 = 0 then 0 else -1, buf, w))"

partial_function (option) wait_until :: "'w usb_host \<Rightarrow> u32 \<Rightarrow> 'w \<Rightarrow> 'w option" where
  "wait_until h deadline w = (let (now, w) = msc_time_ms h w in if now < deadline then wait_until h deadline w else Some w)"

declare wait_until.simps [code]

definition msc_delay_ms :: "'w usb_host \<Rightarrow> u32 \<Rightarrow> 'w \<Rightarrow> 'w option" where
  "msc_delay_ms h ms w = (let (now, w) = msc_time_ms h w in wait_until h (now + ms) w)"

definition bot_test_unit_ready :: "'w usb_host \<Rightarrow> usb_storage \<Rightarrow> nat \<Rightarrow> 'w \<Rightarrow> int \<times> 'w" where
  "bot_test_unit_ready h d lun w = (let (rc, _, w) = bot_scsi_cmd h d lun [0, 0, 0, 0, 0, 0] [] True w in (rc, w))"

definition set_geometry :: "nat \<Rightarrow> u64 \<Rightarrow> u32 \<Rightarrow> usb_storage \<Rightarrow> usb_storage" where
  "set_geometry lun cap bs d = d\<lparr>st_capacity := (st_capacity d)[lun := cap], st_block_size := (st_block_size d)[lun := bs]\<rparr>"

definition bot_read_capacity :: "'w usb_host \<Rightarrow> usb_storage \<Rightarrow> nat \<Rightarrow> 'w \<Rightarrow> (int \<times> usb_storage \<times> 'w) option" where
  "bot_read_capacity h d lun w =
     (let (rc, data, w) = bot_scsi_cmd h d lun (0x25 # replicate 9 0) (replicate 8 0) True w
      in if rc < 0 then Some (-1, d, w)
         else do {
           last_lba \<leftarrow> rd32be data 0;
           blk_len \<leftarrow> rd32be data 4;
           let blk_len = (if blk_len = 0 \<or> blk_len > 65536 then 512 else blk_len);
           Some (0, set_geometry lun (ucast last_lba + 1) blk_len d, w)
         })"

definition bot_read_capacity16 :: "'w usb_host \<Rightarrow> usb_storage \<Rightarrow> nat \<Rightarrow> 'w \<Rightarrow> (int \<times> usb_storage \<times> 'w) option" where
  "bot_read_capacity16 h d lun w =
     (let (rc, data, w) = bot_scsi_cmd h d lun ([0x9E, 0x10] @ replicate 11 0 @ [32, 0, 0]) (replicate 32 0) True w
      in if rc < 0 then Some (-1, d, w)
         else do {
           hi \<leftarrow> rd32be data 0;
           lo \<leftarrow> rd32be data 4;
           blk_len \<leftarrow> rd32be data 8;
           let blk_len = (if blk_len = 0 \<or> blk_len > 65536 then 512 else blk_len);
           Some (0, set_geometry lun ((push_bit 32 (ucast hi) OR ucast lo) + 1) blk_len d, w)
         })"

text \<open>READ(10) and WRITE(10): the command block has 32 bits of the block number and 16 bits of the count.\<close>

definition rw_cdb :: "bool \<Rightarrow> u64 \<Rightarrow> u32 \<Rightarrow> bytes" where
  "rw_cdb write lba blocks =
     [if write then 0x2A else 0x28, 0] @ be32_bytes (ucast lba) @ [0, hi8 (ucast blocks), lo8 (ucast blocks), 0]"

text \<open>The length of the transfer, in 32-bit arithmetic; \<open>buffer\<close> has at least that many bytes.\<close>

definition xfer_len :: "usb_storage \<Rightarrow> nat \<Rightarrow> u32 \<Rightarrow> nat" where
  "xfer_len d lun blocks =
     (let bsize = st_block_size d ! lun; bsize = (if bsize = 0 then 512 else bsize) in unat (blocks * bsize))"

definition usb_bot_rw ::
  "'w usb_host \<Rightarrow> usb_storage \<Rightarrow> nat \<Rightarrow> u64 \<Rightarrow> u32 \<Rightarrow> bytes \<Rightarrow> bool \<Rightarrow> 'w \<Rightarrow> int \<times> bytes \<times> 'w" where
  "usb_bot_rw h d lun lba blocks buffer write w =
     (let n = xfer_len d lun blocks;
          (rc, data, w) = bot_scsi_cmd h d lun (rw_cdb write lba blocks) (take n buffer) (\<not> write) w
      in (rc, data @ drop n buffer, w))"

fun tur_retry :: "nat \<Rightarrow> 'w usb_host \<Rightarrow> usb_storage \<Rightarrow> 'w \<Rightarrow> (bool \<times> 'w) option" where
  "tur_retry 0 h d w = Some (False, w)"
| "tur_retry (Suc n) h d w =
     (let (rc, w) = bot_test_unit_ready h d 0 w
      in if rc = 0 then Some (True, w) else do { w \<leftarrow> msc_delay_ms h 100 w; tur_retry n h d w })"

definition bot_reset :: "'w usb_host \<Rightarrow> usb_storage \<Rightarrow> 'w \<Rightarrow> 'w" where
  "bot_reset h d w = snd (snd (usb_control_transfer h (st_dev d) 0x21 0xFF 0 (ucast (st_intf_num d)) [] w))"

definition bot_recover :: "'w usb_host \<Rightarrow> usb_storage \<Rightarrow> 'w \<Rightarrow> (int \<times> 'w) option" where
  "bot_recover h d w = do {
     w \<leftarrow> msc_delay_ms h 50 (bot_reset h d w);
     w \<leftarrow> msc_delay_ms h 100 (clear_halt h d (st_bulk_out d) (clear_halt h d (st_bulk_in d) w));
     let (rc, w) = xhci_ep_recover h (st_dev d) w;
     if rc < 0 then Some (-1, w)
     else do {
       w \<leftarrow> msc_delay_ms h 200 w;
       (ok, w) \<leftarrow> tur_retry 5 h d w;
       Some (if ok then 0 else -1, w)
     }
   }"

section \<open>The block device\<close>

definition usb_bdev_read ::
  "'w usb_host \<Rightarrow> usb_storage \<Rightarrow> nat \<Rightarrow> u64 \<Rightarrow> u32 \<Rightarrow> bytes \<Rightarrow> 'w \<Rightarrow> (int \<times> bytes \<times> 'w) option" where
  "usb_bdev_read h d lun lba count buf w =
     (let (rc, buf, w) = usb_bot_rw h d lun lba count buf False w
      in if rc < 0 then do {
           (r, w) \<leftarrow> bot_recover h d w;
           if r = 0 then
             let (rc, buf, w) = usb_bot_rw h d lun lba count buf False w
             in Some (if rc < 0 then -1 else uint count, buf, w)
           else Some (-1, buf, w)
         } else Some (uint count, buf, w))"

definition usb_bdev_write ::
  "'w usb_host \<Rightarrow> usb_storage \<Rightarrow> nat \<Rightarrow> u64 \<Rightarrow> u32 \<Rightarrow> bytes \<Rightarrow> 'w \<Rightarrow> int \<times> 'w" where
  "usb_bdev_write h d lun lba count buf w =
     (let (rc, _, w) = usb_bot_rw h d lun lba count buf True w in (if rc < 0 then -1 else uint count, w))"

section \<open>Probe\<close>

definition pick_endpoints :: "usb_endpoint list \<Rightarrow> usb_endpoint option \<times> usb_endpoint option" where
  "pick_endpoints eps = fold (\<lambda>ep (i, out).
     if bmAttributes ep AND 3 = 2 then (if bEndpointAddress ep AND 0x80 \<noteq> 0 then (Some ep, out) else (i, Some ep)) else (i, out))
     eps (None, None)"

partial_function (option) tur_wait :: "'w usb_host \<Rightarrow> usb_storage \<Rightarrow> u32 \<Rightarrow> 'w \<Rightarrow> (bool \<times> 'w) option" where
  "tur_wait h d deadline w =
     (let (now, w) = msc_time_ms h w
      in if now < deadline then
           let (rc, w) = bot_test_unit_ready h d 0 w
           in if rc = 0 then Some (True, w) else do { w \<leftarrow> msc_delay_ms h 100 w; tur_wait h d deadline w }
         else Some (False, w))"

declare tur_wait.simps [code]

definition inquiry_text :: "bytes \<Rightarrow> bytes" where
  "inquiry_text bs = map (\<lambda>b. let c = b AND 0x7F in if c \<ge> 0x20 then c else 0x20) bs"

text \<open>The product string of INQUIRY, empty when the command failed.\<close>

definition bot_inquiry :: "'w usb_host \<Rightarrow> usb_storage \<Rightarrow> 'w \<Rightarrow> bytes \<times> 'w" where
  "bot_inquiry h d w =
     (let (rc, data, w) = bot_scsi_cmd h d 0 [0x12, 0, 0, 0, 36, 0] (replicate 36 0) True w
      in (if rc = 0 then inquiry_text (take 16 (drop 16 data)) else [], w))"

fun rc16_retry :: "nat \<Rightarrow> 'w usb_host \<Rightarrow> usb_storage \<Rightarrow> 'w \<Rightarrow> (bool \<times> usb_storage \<times> 'w) option" where
  "rc16_retry 0 h d w = Some (False, d, w)"
| "rc16_retry (Suc n) h d w = do {
     (rc, d, w) \<leftarrow> bot_read_capacity16 h d 0 w;
     if rc = 0 then Some (True, d, w)
     else do {
       let w = clear_halt h d (st_bulk_in d) (clear_halt h d (st_bulk_out d) w);
       w \<leftarrow> msc_delay_ms h 500 (snd (xhci_ep_recover h (st_dev d) w));
       rc16_retry n h d w
     }
   }"

definition probe_capacity :: "'w usb_host \<Rightarrow> usb_storage \<Rightarrow> 'w \<Rightarrow> (usb_storage \<times> 'w) option" where
  "probe_capacity h d w = do {
     (rc, d, w) \<leftarrow> bot_read_capacity h d 0 w;
     if rc < 0 then do {
       w \<leftarrow> msc_delay_ms h 300 (snd (xhci_ep_recover h (st_dev d) w));
       (ok, d, w) \<leftarrow> rc16_retry 10 h d w;
       Some (if ok then d else set_geometry 0 0 512 d, w)
     } else Some (d, w)
   }"

fun contains_key :: "bytes \<Rightarrow> bytes \<Rightarrow> bool" where
  "contains_key [] key = False"
| "contains_key (c # h) key = (take (length key) (c # h) = key \<or> contains_key h key)"

definition ascii :: "string \<Rightarrow> bytes" where
  "ascii s = map of_char s"

definition usb_media_class :: "u16 \<Rightarrow> u16 \<Rightarrow> bytes \<Rightarrow> media_class" where
  "usb_media_class vid pid product =
     (if vid = 0x0bda \<and> pid = 0x9210 then MEDIA_NVME
      else if vid = 0x152d \<and> pid = 0x0583 then MEDIA_NVME
      else if vid = 0x2109 \<and> pid = 0x0715 then MEDIA_NVME
      else if vid = 0x174c \<and> pid = 0x55aa then MEDIA_SSD
      else if vid = 0x152d \<and> pid = 0x0578 then MEDIA_SSD
      else if vid = 0x0080 \<and> pid = 0x0578 then MEDIA_SSD
      else if list_ex (\<lambda>k. contains_key product (ascii k)) [''NVMe'', ''NVME'', ''NVM''] then MEDIA_NVME
      else if list_ex (\<lambda>k. contains_key product (ascii k)) [''SSD'', ''M.2''] then MEDIA_SSD
      else MEDIA_USB_FLASH)"

text \<open>
  The operations of the new device. The block layer's operations carry no state: they act on the bus as it is in \<open>w\<close>.
\<close>

definition usb_bdev_ops :: "'w usb_host \<Rightarrow> usb_storage \<Rightarrow> 'w \<Rightarrow> blockdev_ops" where
  "usb_bdev_ops h d w =
     \<lparr>op_read = Some (\<lambda>lba count. case usb_bdev_read h d 0 lba count (replicate (xfer_len d 0 count) 0) w of
          Some (r, buf, _) \<Rightarrow> if r < 0 then None else Some buf | None \<Rightarrow> None),
      op_write = Some (\<lambda>lba count buf. fst (usb_bdev_write h d 0 lba count buf w)),
      op_trim = None, op_poll = None\<rparr>"

definition usb_name :: "nat \<Rightarrow> string" where
  "usb_name n = ''usb'' @ [char_of (48 + n mod 16)]"

record 'w usb_world =
  uw_bus :: 'w
  uw_devs :: "blockdev list"
  uw_drives :: "usb_storage list"

text \<open>
  The probe. \<open>km\<close> are the outcomes of the two allocations of the driver, \<open>mem\<close> that of \<open>blockdev_register\<close>.
\<close>

definition usb_storage_probe ::
  "bool \<times> bool \<Rightarrow> media_class option \<Rightarrow> 'w usb_host \<Rightarrow> usb_device \<Rightarrow> usb_interface \<Rightarrow> 'w usb_world \<Rightarrow> (int \<times> 'w usb_world) option" where
  "usb_storage_probe km mem h dev intf s =
     (if bInterfaceProtocol intf = 0x62 then Some (-1, s)
      else if \<not> fst km then Some (-1, s)
      else case pick_endpoints (endpoints intf) of
        (Some i, Some out) \<Rightarrow>
          let d = \<lparr>st_dev = dev, st_bulk_in = i, st_bulk_out = out, st_intf_num = bInterfaceNumber intf,
                   st_capacity = replicate 8 0, st_block_size = replicate 8 0\<rparr>
          in do {
            w \<leftarrow> msc_delay_ms h 500 (uw_bus s);
            w \<leftarrow> msc_delay_ms h 50 (bot_reset h d w);
            w \<leftarrow> msc_delay_ms h 100 (clear_pipes h d w);
            let (now, w) = msc_time_ms h w;
            (ok, w) \<leftarrow> tur_wait h d (now + 5000) w;
            let (product, w) = bot_inquiry h d w;
            (d, w) \<leftarrow> probe_capacity h d w;
            let (devs, i) = blockdev_register mem (usb_name (length (uw_drives s))) (st_capacity d ! 0) (st_block_size d ! 0) (uw_devs s);
            case i of None \<Rightarrow> Some (-1, s\<lparr>uw_bus := w, uw_devs := devs\<rparr>)
            | Some i \<Rightarrow>
                if \<not> snd km then Some (-1, s\<lparr>uw_bus := w, uw_devs := devs\<rparr>)
                else
                  let bd = (devs ! i)\<lparr>bd_ops := Some (usb_bdev_ops h d w), bd_media := usb_media_class (idVendor dev) (idProduct dev) product\<rparr>
                  in Some (0, s\<lparr>uw_bus := w, uw_devs := devs[i := bd],
                       uw_drives := (if length (uw_drives s) < 16 then uw_drives s @ [d] else uw_drives s)\<rparr>)
          }
      | _ \<Rightarrow> Some (-1, s))"

section \<open>Discs behind the transport\<close>

text \<open>
  The host's side of the bulk-only protocol as the specification has it: the command wrapper and the status wrapper
  as bytes, and the answers of a device to a command with data to the host, and to one with data from the host. A tag is
  returned as it was sent.
\<close>

definition byte :: "nat \<Rightarrow> nat \<Rightarrow> u8" where
  "byte k v = of_nat (v div 256 ^ k)"

definition CBW :: "bytes \<Rightarrow> nat \<Rightarrow> u8 \<Rightarrow> bytes \<Rightarrow> bytes" where
  "CBW tag n flags cdb = [0x55, 0x53, 0x42, 0x43] @ tag @ [byte 0 n, byte 1 n, byte 2 n, byte 3 n] @ [flags, 0, byte 0 (length cdb)] @
     cdb @ replicate (16 - length cdb) 0"

definition CSW :: "bytes \<Rightarrow> bytes" where
  "CSW tag = [0x55, 0x53, 0x42, 0x53] @ tag @ [0, 0, 0, 0] @ [0]"

definition scsi_in :: "'w usb_host \<Rightarrow> usb_storage \<Rightarrow> bytes \<Rightarrow> bytes \<Rightarrow> 'w \<Rightarrow> 'w \<Rightarrow> bool" where
  "scsi_in h d cdb data w w' \<longleftrightarrow> (\<forall>tag. length tag = 4 \<longrightarrow> (\<exists>w1 w2 x.
     usb_bulk_transfer h (st_bulk_out d) (CBW tag (length data) 0x80 cdb) w = (31, x, w1) \<and>
     (if data = [] then w2 = w1
      else \<forall>buf. length buf = length data \<longrightarrow> usb_bulk_transfer h (st_bulk_in d) buf w1 = (int (length data), data, w2)) \<and>
     usb_bulk_transfer h (st_bulk_in d) (replicate 13 0) w2 = (13, CSW tag, w')))"

definition scsi_out :: "'w usb_host \<Rightarrow> usb_storage \<Rightarrow> bytes \<Rightarrow> bytes \<Rightarrow> 'w \<Rightarrow> 'w \<Rightarrow> bool" where
  "scsi_out h d cdb data w w' \<longleftrightarrow> (\<forall>tag. length tag = 4 \<longrightarrow> (\<exists>w1 w2 x y.
     usb_bulk_transfer h (st_bulk_out d) (CBW tag (length data) 0 cdb) w = (31, x, w1) \<and>
     usb_bulk_transfer h (st_bulk_out d) data w1 = (int (length data), y, w2) \<and>
     usb_bulk_transfer h (st_bulk_in d) (replicate 13 0) w2 = (13, CSW tag, w')))"

definition rw10 :: "u8 \<Rightarrow> nat \<Rightarrow> nat \<Rightarrow> bytes" where
  "rw10 op l n = [op, 0, byte 3 l, byte 2 l, byte 1 l, byte 0 l, 0, byte 1 n, byte 0 n, 0]"

text \<open>
  A disc of \<open>nblk\<close> sectors of 512 bytes behind the drive \<open>d\<close>: \<open>idle\<close> holds between commands, \<open>disc\<close> is what the
  medium holds. The commands do what SCSI says; nothing else changes the medium.
\<close>

definition keeps :: "('w \<Rightarrow> bool) \<Rightarrow> ('w \<Rightarrow> bytes) \<Rightarrow> 'w \<Rightarrow> 'w \<Rightarrow> bool" where
  "keeps idle disc w w' \<longleftrightarrow> idle w' \<and> disc w' = disc w"

definition bot_disc :: "'w usb_host \<Rightarrow> usb_storage \<Rightarrow> ('w \<Rightarrow> bool) \<Rightarrow> ('w \<Rightarrow> bytes) \<Rightarrow> nat \<Rightarrow> bool" where
  "bot_disc h d idle disc nblk \<longleftrightarrow> 0 < nblk \<and> nblk \<le> 2 ^ 32 \<and> (\<forall>w. idle w \<longrightarrow>
     length (disc w) = nblk * 512 \<and>
     (\<exists>w'. scsi_in h d [0, 0, 0, 0, 0, 0] [] w w' \<and> keeps idle disc w w') \<and>
     (\<exists>w' inq. length inq = 36 \<and> scsi_in h d [0x12, 0, 0, 0, 36, 0] inq w w' \<and> keeps idle disc w w') \<and>
     (\<exists>w'. scsi_in h d (0x25 # replicate 9 0) (map (\<lambda>k. byte k (nblk - 1)) [3, 2, 1, 0] @ [0, 0, 2, 0]) w w' \<and> keeps idle disc w w') \<and>
     (\<forall>l n. 0 < n \<longrightarrow> n < 65536 \<longrightarrow> l + n \<le> nblk \<longrightarrow>
        (\<exists>w'. scsi_in h d (rw10 0x28 l n) (take (n * 512) (drop (l * 512) (disc w))) w w' \<and> keeps idle disc w w')) \<and>
     (\<forall>l n data. 0 < n \<longrightarrow> n < 65536 \<longrightarrow> l + n \<le> nblk \<longrightarrow> length data = n * 512 \<longrightarrow>
        (\<exists>w'. scsi_out h d (rw10 0x2A l n) data w w' \<and> idle w' \<and> disc w' = take (l * 512) (disc w) @ data @ drop ((l + n) * 512) (disc w))) \<and>
     (\<forall>ms. \<exists>w'. msc_delay_ms h ms w = Some w' \<and> keeps idle disc w w') \<and>
     keeps idle disc w (snd (msc_time_ms h w)) \<and> keeps idle disc w (bot_reset h d w) \<and> keeps idle disc w (clear_pipes h d w))"

lemma drop_bit_byte: "ucast (drop_bit (8 * k) (of_nat v :: u32)) = byte k v" if "v < 2 ^ 32"
proof -
  have "unat (drop_bit (8 * k) (of_nat v :: u32)) = v div 256 ^ k"
    unfolding unat_drop_bit_eq using that by (simp add: unat_of_nat drop_bit_eq_div power_mult)
  then show ?thesis by (simp add: word_unat_eq_iff unsigned_ucast_eq take_bit_eq_mod unat_of_nat byte_def del: unat_drop_bit_eq)
qed

lemma be32_byte: "v < 2 ^ 32 \<Longrightarrow> be32_bytes (of_nat v) = [byte 3 v, byte 2 v, byte 1 v, byte 0 v]"
  using drop_bit_byte [of v 3] drop_bit_byte [of v 2] drop_bit_byte [of v 1] drop_bit_byte [of v 0]
  by (simp add: be32_bytes_def)

lemma cbw_eq:
  assumes "length cdb \<le> 16" "n < 2 ^ 32"
  shows "cbw_bytes (of_nat n) dir 0 cdb = CBW (le32_bytes 0xC0DEC0DE) n (if dir then 0x80 else 0) cdb"
proof -
  have s: "le32_bytes CBW_SIGNATURE = [0x55, 0x53, 0x42, 0x43]" by code_simp
  have n: "le32_bytes (of_nat n) = [byte 0 n, byte 1 n, byte 2 n, byte 3 n]" using be32_byte [OF assms(2)] by (simp add: le32_bytes_def)
  have "(of_nat (length cdb) :: u8) = byte 0 (length cdb)" by (simp add: byte_def)
  then show ?thesis unfolding cbw_bytes_def CBW_def s n using assms(1) by simp
qed

lemma bot_in:
  assumes "scsi_in h d cdb data w w'" "length cdb \<le> 16" "length data < 2 ^ 32" "length buf = length data"
  shows "bot_scsi_cmd h d 0 cdb buf True w = (0, data, w')"
proof -
  let ?t = "le32_bytes 0xC0DEC0DE"
  have t: "length ?t = 4" by (simp add: le32_bytes_def)
  obtain w1 w2 x where 1: "usb_bulk_transfer h (st_bulk_out d) (CBW ?t (length data) 0x80 cdb) w = (31, x, w1)"
      "if data = [] then w2 = w1
       else \<forall>buf. length buf = length data \<longrightarrow> usb_bulk_transfer h (st_bulk_in d) buf w1 = (int (length data), data, w2)"
      "usb_bulk_transfer h (st_bulk_in d) (replicate 13 0) w2 = (13, CSW ?t, w')"
    using assms(1) t unfolding scsi_in_def by blast
  have c: "rd32le (CSW ?t) 0 = Some CSW_SIGNATURE" "CSW ?t ! 12 = 0" by code_simp+
  have b: "(buf = []) = (data = [])" using assms(4) by (metis length_0_conv)
  have "cbw_bytes (of_nat (length buf)) True (of_nat 0) cdb = CBW ?t (length data) 0x80 cdb"
    using cbw_eq [OF assms(2,3), of True] assms(4) by simp
  then show ?thesis using 1 c b assms(4) unfolding bot_scsi_cmd_def by (cases "data = []") simp_all
qed

lemma bot_out:
  assumes "scsi_out h d cdb data w w'" "length cdb \<le> 16" "length data < 2 ^ 32" "data \<noteq> []"
  shows "\<exists>y. bot_scsi_cmd h d 0 cdb data False w = (0, y, w')"
proof -
  let ?t = "le32_bytes 0xC0DEC0DE"
  have t: "length ?t = 4" by (simp add: le32_bytes_def)
  obtain w1 w2 x y where 1: "usb_bulk_transfer h (st_bulk_out d) (CBW ?t (length data) 0 cdb) w = (31, x, w1)"
      "usb_bulk_transfer h (st_bulk_out d) data w1 = (int (length data), y, w2)"
      "usb_bulk_transfer h (st_bulk_in d) (replicate 13 0) w2 = (13, CSW ?t, w')"
    using assms(1) t unfolding scsi_out_def by blast
  have c: "rd32le (CSW ?t) 0 = Some CSW_SIGNATURE" "CSW ?t ! 12 = 0" by code_simp+
  have "cbw_bytes (of_nat (length data)) False (of_nat 0) cdb = CBW ?t (length data) 0 cdb"
    using cbw_eq [OF assms(2,3), of False] by simp
  then show ?thesis using 1 c assms(4) unfolding bot_scsi_cmd_def by simp
qed

lemma rw_cdb_eq:
  assumes "n < 65536"
  shows "rw_cdb write lba (of_nat n) = rw10 (if write then 0x2A else 0x28) (unat lba mod 2 ^ 32) n"
proof -
  have l: "(ucast lba :: u32) = of_nat (unat lba mod 2 ^ 32)"
    by (simp add: word_unat_eq_iff unsigned_ucast_eq take_bit_eq_mod unat_of_nat)
  have c: "(ucast (of_nat n :: u32) :: u16) = of_nat n"
    using assms by (simp add: word_unat_eq_iff unsigned_ucast_eq take_bit_eq_mod unat_of_nat)
  have "hi8 (of_nat n) = byte 1 n"
    using assms by (simp add: hi8_def byte_def word_unat_eq_iff unsigned_ucast_eq take_bit_eq_mod unat_of_nat drop_bit_eq_div unat_div)
  moreover have "lo8 (of_nat n) = byte 0 n"
    using assms by (simp add: lo8_def byte_def word_unat_eq_iff unsigned_ucast_eq take_bit_eq_mod unat_of_nat)
  ultimately show ?thesis unfolding rw_cdb_def rw10_def l c by (simp add: be32_byte)
qed

text \<open>The transfer length for a drive of 512-byte sectors.\<close>

lemma xfer_len_512: "st_block_size d ! 0 = 512 \<Longrightarrow> n < 65536 \<Longrightarrow> xfer_len d 0 (of_nat n) = n * 512"
  by (simp add: xfer_len_def Let_def unat_word_ariths unat_of_nat)

lemma bot_rw_read:
  assumes "bot_disc h d idle disc nblk" "idle w" "st_block_size d ! 0 = 512" "0 < n" "n < 65536" "unat lba mod 2 ^ 32 + n \<le> nblk"
    "length buf = n * 512"
  shows "\<exists>w'. usb_bot_rw h d 0 lba (of_nat n) buf False w = (0, take (n * 512) (drop (unat lba mod 2 ^ 32 * 512) (disc w)), w') \<and> keeps idle disc w w'"
proof -
  let ?l = "unat lba mod 2 ^ 32" and ?data = "take (n * 512) (drop (unat lba mod 2 ^ 32 * 512) (disc w))"
  obtain w' where w': "scsi_in h d (rw10 0x28 ?l n) ?data w w'" "keeps idle disc w w'" and len: "length (disc w) = nblk * 512"
    using assms(1,2,4-6) unfolding bot_disc_def by blast
  have "?l * 512 + n * 512 \<le> nblk * 512" using mult_right_mono [OF assms(6), of 512] by (simp add: add_mult_distrib)
  then have d: "length ?data = n * 512" using len by simp
  have "bot_scsi_cmd h d 0 (rw10 0x28 ?l n) (take (n * 512) buf) True w = (0, ?data, w')"
    using assms(5,7) d by (intro bot_in [OF w'(1)]) (simp_all add: rw10_def)
  then show ?thesis
    using w'(2) assms(3,5,7) rw_cdb_eq [OF assms(5), of False lba] xfer_len_512 [of d n] by (simp add: usb_bot_rw_def)
qed

lemma bot_rw_write:
  assumes "bot_disc h d idle disc nblk" "idle w" "st_block_size d ! 0 = 512" "0 < n" "n < 65536" "unat lba mod 2 ^ 32 + n \<le> nblk"
    "length buf = n * 512"
  shows "\<exists>y w'. usb_bot_rw h d 0 lba (of_nat n) buf True w = (0, y, w') \<and> idle w' \<and>
    disc w' = take (unat lba mod 2 ^ 32 * 512) (disc w) @ buf @ drop ((unat lba mod 2 ^ 32 + n) * 512) (disc w)"
proof -
  let ?l = "unat lba mod 2 ^ 32"
  obtain w' where w': "scsi_out h d (rw10 0x2A ?l n) buf w w'" "idle w'"
      "disc w' = take (?l * 512) (disc w) @ buf @ drop ((?l + n) * 512) (disc w)"
    using assms unfolding bot_disc_def by blast
  have "buf \<noteq> []" "length (rw10 0x2A ?l n) \<le> 16" "length buf < 2 ^ 32" using assms(4,5,7) by (auto simp: rw10_def)
  then obtain y where "bot_scsi_cmd h d 0 (rw10 0x2A ?l n) buf False w = (0, y, w')"
    using bot_out [OF w'(1)] by blast
  then show ?thesis
    using w'(2,3) assms(3,5,7) rw_cdb_eq [OF assms(5), of True lba] xfer_len_512 [of d n] by (simp add: usb_bot_rw_def)
qed

lemma usb_read_ok:
  assumes "usb_bot_rw h d 0 lba cnt buf False w = (0, data, w')"
  shows "usb_bdev_read h d 0 lba cnt buf w = Some (uint cnt, data, w')"
  using assms by (simp add: usb_bdev_read_def)

section \<open>Correctness\<close>


text \<open>Above \<open>2 ^ 32\<close> the block number is cut to 32 bits: a read there silently returns sectors from the start of
  the medium, with the return code of success.\<close>

theorem usb_lba_truncated:
  assumes "bot_disc h d idle disc nblk" "idle w" "st_block_size d ! 0 = 512"
    and "0 < n" "n < 65536" "l + n \<le> nblk" "l < 2 ^ 31" "length buf = n * 512"
  shows "\<exists>w'. usb_bdev_read h d 0 (2 ^ 32 + of_nat l) (of_nat n) buf w = Some (int n, take (n * 512) (drop (l * 512) (disc w)), w') \<and>
    usb_bdev_read h d 0 (2 ^ 32 + of_nat l) (of_nat n) buf w = usb_bdev_read h d 0 (of_nat l) (of_nat n) buf w"
proof -
  have m: "unat (2 ^ 32 + of_nat l :: u64) mod 2 ^ 32 = l" "unat (of_nat l :: u64) mod 2 ^ 32 = l"
    using assms(7) by (simp_all add: unat_of_nat unat_word_ariths)
  have n: "uint (of_nat n :: u32) = int n" using assms(5) by (simp add: uint_nat unat_of_nat)
  have "rw_cdb False (2 ^ 32 + of_nat l) (of_nat n) = rw_cdb False (of_nat l) (of_nat n)"
    unfolding rw_cdb_eq [OF assms(5)] m by simp
  then have "usb_bot_rw h d 0 (2 ^ 32 + of_nat l) (of_nat n) b False v = usb_bot_rw h d 0 (of_nat l) (of_nat n) b False v" for b v
    by (simp add: usb_bot_rw_def)
  then have e: "usb_bdev_read h d 0 (2 ^ 32 + of_nat l) (of_nat n) buf w = usb_bdev_read h d 0 (of_nat l) (of_nat n) buf w"
    unfolding usb_bdev_read_def Let_def by (simp only:)
  obtain w' where "usb_bot_rw h d 0 (of_nat l) (of_nat n) buf False w = (0, take (n * 512) (drop (l * 512) (disc w)), w')"
    using bot_rw_read [OF assms(1-5), of "of_nat l" buf] assms(6,8) m(2) by auto
  then show ?thesis using usb_read_ok n e by metis
qed

section \<open>The probe finds the disc\<close>

lemma geometry_same [simp]:
  "scsi_in h (set_geometry k c b d) = scsi_in h d" "scsi_out h (set_geometry k c b d) = scsi_out h d"
  "bot_reset h (set_geometry k c b d) = bot_reset h d" "clear_pipes h (set_geometry k c b d) = clear_pipes h d"
  by (simp_all add: scsi_in_def scsi_out_def bot_reset_def clear_pipes_def clear_halt_def set_geometry_def fun_eq_iff)

lemma bot_disc_geometry [simp]: "bot_disc h (set_geometry k c b d) = bot_disc h d"
  by (simp add: bot_disc_def fun_eq_iff)

lemma keeps_trans: "keeps idle disc w w' \<Longrightarrow> keeps idle disc w' w'' \<Longrightarrow> keeps idle disc w w''"
  by (simp add: keeps_def)

lemma keeps_idle: "keeps idle disc w w' \<Longrightarrow> idle w'"
  by (simp add: keeps_def)

lemma bot_discD:
  assumes "bot_disc h d idle disc nblk" "idle w"
  shows "\<exists>w'. msc_delay_ms h ms w = Some w' \<and> keeps idle disc w w'"
    and "keeps idle disc w (snd (msc_time_ms h w))" "keeps idle disc w (bot_reset h d w)" "keeps idle disc w (clear_pipes h d w)"
    and "\<exists>w'. bot_test_unit_ready h d 0 w = (0, w') \<and> keeps idle disc w w'"
    and "\<exists>p w'. bot_inquiry h d w = (p, w') \<and> keeps idle disc w w'"
proof -
  show "\<exists>w'. msc_delay_ms h ms w = Some w' \<and> keeps idle disc w w'" "keeps idle disc w (snd (msc_time_ms h w))"
    "keeps idle disc w (bot_reset h d w)" "keeps idle disc w (clear_pipes h d w)"
    using assms unfolding bot_disc_def by blast+
  obtain w1 where 1: "scsi_in h d [0, 0, 0, 0, 0, 0] [] w w1" "keeps idle disc w w1" using assms unfolding bot_disc_def by blast
  show "\<exists>w'. bot_test_unit_ready h d 0 w = (0, w') \<and> keeps idle disc w w'"
    using bot_in [OF 1(1), of "[]"] 1(2) by (simp add: bot_test_unit_ready_def)
  obtain w2 inq where 2: "length inq = 36" "scsi_in h d [0x12, 0, 0, 0, 36, 0] inq w w2" "keeps idle disc w w2"
    using assms unfolding bot_disc_def by blast
  show "\<exists>p w'. bot_inquiry h d w = (p, w') \<and> keeps idle disc w w'"
    using bot_in [OF 2(2), of "replicate 36 0"] 2(1,3) by (simp add: bot_inquiry_def)
qed

lemma read_capacity_disc:
  assumes "bot_disc h d idle disc nblk" "idle w"
  shows "\<exists>w'. probe_capacity h d w = Some (set_geometry 0 (of_nat nblk) 512 d, w') \<and> keeps idle disc w w'"
proof -
  let ?data = "map (\<lambda>k. byte k (nblk - 1)) [3, 2, 1, 0] @ [0, 0, 2, 0]"
  obtain w' where w': "scsi_in h d (0x25 # replicate 9 0) ?data w w'" "keeps idle disc w w'" and nb: "0 < nblk" "nblk \<le> 2 ^ 32"
    using assms unfolding bot_disc_def by blast
  have c: "bot_scsi_cmd h d 0 (0x25 # replicate 9 0) (replicate 8 0) True w = (0, ?data, w')"
    using bot_in [OF w'(1), of "replicate 8 0"] by simp
  have b: "be32_bytes (of_nat (nblk - 1)) = [byte 3 (nblk - 1), byte 2 (nblk - 1), byte 1 (nblk - 1), byte 0 (nblk - 1)]"
    using nb by (intro be32_byte) simp
  have l: "rd32be ?data 0 = Some (of_nat (nblk - 1))"
    using b be32_be32_bytes [of "of_nat (nblk - 1)"] by (simp add: rd32be_def rd_def be32_bytes_def)
  have z: "rd32be ?data 4 = Some 512" by (simp add: rd32be_def rd_def be32_def)
  have "(ucast (of_nat (nblk - 1) :: u32) + 1 :: u64) = of_nat nblk"
  proof -
    obtain m where m: "nblk = Suc m" using nb(1) by (cases nblk) auto
    then have "unat (of_nat m :: u32) = m" using nb(2) by (simp add: unat_of_nat)
    then show ?thesis using nb(2) by (simp add: m word_unat_eq_iff unat_word_ariths unsigned_ucast_eq take_bit_eq_mod unat_of_nat)
  qed
  then show ?thesis using c l z w'(2) by (simp add: probe_capacity_def bot_read_capacity_def)
qed

lemma tur_wait_ready:
  assumes "bot_disc h d idle disc nblk" "idle w"
  shows "\<exists>ok w'. tur_wait h d dl w = Some (ok, w') \<and> keeps idle disc w w'"
proof -
  obtain now w1 where t: "msc_time_ms h w = (now, w1)" by (cases "msc_time_ms h w")
  then have k: "keeps idle disc w w1" using bot_discD(2) [OF assms] by simp
  obtain w2 where r: "bot_test_unit_ready h d 0 w1 = (0, w2)" "keeps idle disc w1 w2"
    using bot_discD(5) [OF assms(1) keeps_idle [OF k]] by blast
  show ?thesis using k keeps_trans [OF k r(2)] by (subst tur_wait.simps) (auto simp: t r(1))
qed

text \<open>The block device of a probed drive returns whole sectors, those of the medium where it has them.\<close>

lemma bot_rw_length:
  assumes "\<forall>ep buf w. length (fst (snd (usb_bulk_transfer h ep buf w))) = length buf"
  shows "length (fst (snd (usb_bot_rw h d lun lba cnt buf wr w))) = length buf"
proof -
  have L: "length c = length b" if "usb_bulk_transfer h ep b w = (r, c, w')" for ep b w r c w'
    using assms that by (metis fst_conv snd_conv)
  have "length c = length b" if "bot_scsi_cmd h d lun cdb b dir v = (r, c, v')" for cdb b dir v r c v'
    using that by (auto simp: bot_scsi_cmd_def Let_def dest: L split: prod.splits if_splits)
  then show ?thesis by (auto simp: usb_bot_rw_def Let_def split: prod.splits)
qed

lemma usb_sector_dev:
  assumes "bot_disc h d idle disc nblk" "idle w" "st_block_size d ! 0 = 512"
    and "\<forall>ep buf w. length (fst (snd (usb_bulk_transfer h ep buf w))) = length buf"
    and "bd_block_size bd = 512" "bd_ops bd = Some (usb_bdev_ops h d w)"
  shows "\<exists>f. sector_dev bd f \<and> (\<forall>l<nblk. f (of_nat l) = Some (take 512 (drop (l * 512) (disc w))))"
proof -
  define f where "f lba = the (op_read (usb_bdev_ops h d w)) lba 1" for lba
  have x: "xfer_len d 0 1 = 512" using xfer_len_512 [OF assms(3), of 1] by simp
  have len: "length c = 512" if "f lba = Some c" for lba c
  proof -
    have L: "length c = length b" if "usb_bot_rw h d 0 lba 1 b False v = (r, c, v')" for b v r c v'
      using bot_rw_length [OF assms(4), of d 0 lba 1 b False v] that by simp
    show ?thesis using that
      by (auto simp: f_def usb_bdev_ops_def usb_bdev_read_def x Let_def dest!: L split: prod.splits if_splits bind_splits option.splits)
  qed
  have "f (of_nat l) = Some (take 512 (drop (l * 512) (disc w)))" if lt: "l < nblk" for l
  proof -
    have "nblk \<le> 2 ^ 32" using assms(1) by (simp add: bot_disc_def)
    then have m: "unat (of_nat l :: u64) mod 2 ^ 32 = l" using lt by (simp add: unat_of_nat)
    obtain w' where "usb_bot_rw h d 0 (of_nat l) 1 (replicate 512 0) False w = (0, take 512 (drop (l * 512) (disc w)), w')"
      using bot_rw_read [OF assms(1-3), of 1 "of_nat l" "replicate 512 0"] Suc_leI [OF lt] m by auto
    from usb_read_ok [OF this] show ?thesis by (simp add: f_def usb_bdev_ops_def x)
  qed
  moreover have "sector_dev bd f"
    using assms(5,6) len by (auto simp: sector_dev_def dev_op_def f_def usb_bdev_ops_def)
  ultimately show ?thesis by blast
qed


section \<open>A memory stick\<close>

text \<open>A device that keeps the protocol: what it owes the host next, its two sectors and the clock.\<close>

datatype owed = Nothing | Data bytes bytes | Expect nat bytes | Status bytes

record stick =
  sk_owed :: owed
  sk_disc :: bytes
  sk_now :: u32

definition le4_nat :: "bytes \<Rightarrow> nat" where
  "le4_nat bs = unat (bs ! 0) + 256 * unat (bs ! 1) + 65536 * unat (bs ! 2) + 16777216 * unat (bs ! 3)"

definition stick_command :: "bytes \<Rightarrow> bytes \<Rightarrow> stick \<Rightarrow> stick" where
  "stick_command tag c k =
     (let l = unat (c ! 5) + 256 * unat (c ! 4); n = unat (c ! 8) + 256 * unat (c ! 7)
      in k\<lparr>sk_owed :=
        (if c ! 0 = 0x12 then Data (replicate 36 0x41) tag
         else if c ! 0 = 0x25 then Data [0, 0, 0, 1, 0, 0, 2, 0] tag
         else if c ! 0 = 0x28 then Data (take (n * 512) (drop (l * 512) (sk_disc k))) tag
         else if c ! 0 = 0x2A then Expect l tag
         else Status tag)\<rparr>)"

definition stick_bulk :: "stick bulk" where
  "stick_bulk ep buf k =
     (if bEndpointAddress ep AND 0x80 = 0 then
        (case sk_owed k of
           Expect l tag \<Rightarrow> (int (length buf), buf, k\<lparr>sk_owed := Status tag,
             sk_disc := take (l * 512) (sk_disc k) @ buf @ drop (l * 512 + length buf) (sk_disc k)\<rparr>)
         | Nothing \<Rightarrow> (31, buf, stick_command (take 4 (drop 4 buf)) (drop 15 buf) k)
         | _ \<Rightarrow> (-1, buf, k))
      else
        (case sk_owed k of
           Data data tag \<Rightarrow> if length buf = length data then (int (length buf), data, k\<lparr>sk_owed := Status tag\<rparr>) else (-1, buf, k)
         | Status tag \<Rightarrow> if length tag = 4 \<and> length buf = 13 then (13, CSW tag, k\<lparr>sk_owed := Nothing\<rparr>) else (-1, buf, k)
         | _ \<Rightarrow> (-1, buf, k)))"

definition stick_host :: "stick usb_host" where
  "stick_host = \<lparr>g_hc_ops = Some \<lparr>control_transfer = Some (\<lambda>_ _ _ _ _ data k. (0, data, k)), bulk_transfer = Some stick_bulk,
     interrupt_transfer = None\<rparr>, xhci_bulk_transfer = stick_bulk, xhci_ep_recover = (\<lambda>_ k. (0, k)),
     msc_time_ms = (\<lambda>k. (sk_now k, k\<lparr>sk_now := sk_now k + 1\<rparr>))\<rparr>"

definition stick_in :: usb_endpoint where "stick_in = \<lparr>bEndpointAddress = 0x81, bmAttributes = 2, slot_id = 1\<rparr>"
definition stick_out :: usb_endpoint where "stick_out = \<lparr>bEndpointAddress = 0x02, bmAttributes = 2, slot_id = 1\<rparr>"

definition stick_dev :: usb_device where "stick_dev = \<lparr>idVendor = 0x0781, idProduct = 0x5567, interfaces = []\<rparr>"

definition stick_intf :: usb_interface where
  "stick_intf = \<lparr>bInterfaceNumber = 0, bInterfaceClass = 8, bInterfaceProtocol = 0x50, endpoints = [stick_in, stick_out]\<rparr>"

definition stick_drive :: usb_storage where
  "stick_drive = \<lparr>st_dev = stick_dev, st_bulk_in = stick_in, st_bulk_out = stick_out, st_intf_num = 0,
     st_capacity = replicate 8 0, st_block_size = replicate 8 0\<rparr>"

definition stick_idle :: "stick \<Rightarrow> bool" where
  "stick_idle k \<longleftrightarrow> sk_owed k = Nothing \<and> length (sk_disc k) = 1024"

lemma stick_bulk_eq [simp]:
  "usb_bulk_transfer stick_host (st_bulk_out stick_drive) = stick_bulk stick_out"
  "usb_bulk_transfer stick_host (st_bulk_in stick_drive) = stick_bulk stick_in"
  by (simp_all add: fun_eq_iff usb_bulk_transfer_def stick_host_def stick_drive_def stick_in_def stick_out_def)

lemma stick_wait: "\<exists>t. wait_until stick_host dl k = Some (k\<lparr>sk_now := t\<rparr>)"
proof (induction "unat (dl - sk_now k)" arbitrary: k rule: less_induct)
  case less
  show ?case
  proof (cases "sk_now k < dl")
    case True
    have "unat (dl - (sk_now k + 1)) < unat (dl - sk_now k)"
    proof -
      have "dl - sk_now k \<noteq> 0" using True by auto
      then show ?thesis using unat_minus_one [of "dl - sk_now k"] by (simp add: diff_diff_eq unat_gt_0)
    qed
    then obtain t where "wait_until stick_host dl (k\<lparr>sk_now := sk_now k + 1\<rparr>) = Some (k\<lparr>sk_now := t\<rparr>)"
      using less [of "k\<lparr>sk_now := sk_now k + 1\<rparr>"] by auto
    then show ?thesis using True by (subst wait_until.simps) (auto simp: stick_host_def)
  next
    case False
    then show ?thesis by (subst wait_until.simps) (auto simp: stick_host_def)
  qed
qed

lemma stick_delay: "\<exists>t. msc_delay_ms stick_host ms k = Some (k\<lparr>sk_now := t\<rparr>)"
  using stick_wait [of "sk_now k + ms" "k\<lparr>sk_now := sk_now k + 1\<rparr>"] by (simp add: msc_delay_ms_def) (simp add: stick_host_def)

lemma stick_cbw:
  assumes "stick_idle k" "length tag = 4"
  shows "stick_bulk stick_out (CBW tag n fl cdb) k = (31, CBW tag n fl cdb, stick_command tag (cdb @ replicate (16 - length cdb) 0) k)"
  using assms by (simp add: stick_bulk_def stick_out_def stick_idle_def CBW_def)

lemma stick_status:
  "length tag = 4 \<Longrightarrow> stick_bulk stick_in (replicate 13 0) (k\<lparr>sk_owed := Status tag\<rparr>) = (13, CSW tag, k\<lparr>sk_owed := Nothing\<rparr>)"
  by (simp add: stick_bulk_def stick_in_def)

lemma stick_scsi_in:
  assumes "stick_idle k" "\<And>tag. stick_command tag (cdb @ replicate (16 - length cdb) 0) k = k\<lparr>sk_owed := (if data = [] then Status tag else Data data tag)\<rparr>"
  shows "scsi_in stick_host stick_drive cdb data k k"
  unfolding scsi_in_def stick_bulk_eq
proof (intro allI impI exI conjI)
  fix tag :: bytes assume t: "length tag = 4"
  show "stick_bulk stick_out (CBW tag (length data) 128 cdb) k = (31, CBW tag (length data) 128 cdb,
      k\<lparr>sk_owed := (if data = [] then Status tag else Data data tag)\<rparr>)" using stick_cbw [OF assms(1) t] assms(2) by simp
  show "if data = [] then k\<lparr>sk_owed := Status tag\<rparr> = k\<lparr>sk_owed := (if data = [] then Status tag else Data data tag)\<rparr>
      else \<forall>buf. length buf = length data \<longrightarrow> stick_bulk stick_in buf (k\<lparr>sk_owed := (if data = [] then Status tag else Data data tag)\<rparr>) =
        (int (length data), data, k\<lparr>sk_owed := Status tag\<rparr>)"
    by (simp add: stick_bulk_def stick_in_def)
  show "stick_bulk stick_in (replicate 13 0) (k\<lparr>sk_owed := Status tag\<rparr>) = (13, CSW tag, k)"
    using stick_status [OF t] assms(1) by (simp add: stick_idle_def)
qed

lemma two_bytes: "v < 65536 \<Longrightarrow> unat (byte 0 v) + 256 * unat (byte 1 v) = v"
  by (simp add: byte_def unat_of_nat)

lemma stick_rw:
  assumes "l + n \<le> 2"
  shows "stick_command tag (rw10 0x28 l n @ replicate 6 0) k = k\<lparr>sk_owed := Data (take (n * 512) (drop (l * 512) (sk_disc k))) tag\<rparr>"
    "stick_command tag (rw10 0x2A l n @ replicate 6 0) k = k\<lparr>sk_owed := Expect l tag\<rparr>"
proof -
  have "l < 65536" "n < 65536" using assms by auto
  then have b: "unat (byte 0 l) + 256 * unat (byte 1 l) = l" "unat (byte 0 n) + 256 * unat (byte 1 n) = n"
    by (simp_all only: two_bytes)
  show "stick_command tag (rw10 0x28 l n @ replicate 6 0) k = k\<lparr>sk_owed := Data (take (n * 512) (drop (l * 512) (sk_disc k))) tag\<rparr>"
    "stick_command tag (rw10 0x2A l n @ replicate 6 0) k = k\<lparr>sk_owed := Expect l tag\<rparr>"
    using b by (simp_all add: stick_command_def rw10_def)
qed

lemma stick_scsi_out:
  assumes "stick_idle k" "l + n \<le> 2" "length data = n * 512"
  shows "scsi_out stick_host stick_drive (rw10 0x2A l n) data k (k\<lparr>sk_disc := take (l * 512) (sk_disc k) @ data @ drop ((l + n) * 512) (sk_disc k)\<rparr>)"
  unfolding scsi_out_def stick_bulk_eq
proof (intro allI impI exI conjI)
  fix tag :: bytes assume t: "length tag = 4"
  let ?d = "take (l * 512) (sk_disc k) @ data @ drop ((l + n) * 512) (sk_disc k)"
  have "length (rw10 42 l n) = 10" by (simp add: rw10_def)
  then show "stick_bulk stick_out (CBW tag (length data) 0 (rw10 42 l n)) k = (31, CBW tag (length data) 0 (rw10 42 l n), k\<lparr>sk_owed := Expect l tag\<rparr>)"
    using stick_cbw [OF assms(1) t, of "length data" 0 "rw10 42 l n"] stick_rw(2) [OF assms(2), of tag k] by simp
  show "stick_bulk stick_out data (k\<lparr>sk_owed := Expect l tag\<rparr>) = (int (length data), data, k\<lparr>sk_disc := ?d, sk_owed := Status tag\<rparr>)"
    using assms(3) by (simp add: stick_bulk_def stick_out_def add_mult_distrib)
  show "stick_bulk stick_in (replicate 13 0) (k\<lparr>sk_disc := ?d, sk_owed := Status tag\<rparr>) = (13, CSW tag, k\<lparr>sk_disc := ?d\<rparr>)"
    using stick_status [OF t, of "k\<lparr>sk_disc := ?d\<rparr>"] assms(1) by (simp add: stick_idle_def)
qed

lemma stick_bot_disc: "bot_disc stick_host stick_drive stick_idle sk_disc 2"
  unfolding bot_disc_def
proof (intro conjI allI impI)
  fix k assume k: "stick_idle k"
  have kk: "keeps stick_idle sk_disc k k" using k by (simp add: keeps_def)
  show "length (sk_disc k) = 2 * 512" using k by (simp add: stick_idle_def)
  show "\<exists>w'. scsi_in stick_host stick_drive [0, 0, 0, 0, 0, 0] [] k w' \<and> keeps stick_idle sk_disc k w'"
    using stick_scsi_in [OF k, of "[0, 0, 0, 0, 0, 0]" "[]"] kk by (auto simp: stick_command_def)
  show "\<exists>w' inq. length inq = 36 \<and> scsi_in stick_host stick_drive [0x12, 0, 0, 0, 36, 0] inq k w' \<and> keeps stick_idle sk_disc k w'"
    using stick_scsi_in [OF k, of "[0x12, 0, 0, 0, 36, 0]" "replicate 36 0x41"] kk
    by (intro exI [of _ k] exI [of _ "replicate 36 0x41"]) (simp add: stick_command_def)
  show "\<exists>w'. scsi_in stick_host stick_drive (0x25 # replicate 9 0) (map (\<lambda>i. byte i (2 - 1)) [3, 2, 1, 0] @ [0, 0, 2, 0]) k w' \<and>
      keeps stick_idle sk_disc k w'"
    using stick_scsi_in [OF k, of "0x25 # replicate 9 0" "map (\<lambda>i. byte i (2 - 1)) [3, 2, 1, 0] @ [0, 0, 2, 0]"] kk
    by (intro exI [of _ k]) (simp add: stick_command_def byte_def)
  show "\<exists>w'. scsi_in stick_host stick_drive (rw10 0x28 l n) (take (n * 512) (drop (l * 512) (sk_disc k))) k w' \<and> keeps stick_idle sk_disc k w'"
    if "0 < n" "l + n \<le> 2" for l n
  proof -
    have "length (rw10 0x28 l n) = 10" by (simp add: rw10_def)
    moreover have "take (n * 512) (drop (l * 512) (sk_disc k)) \<noteq> []" using that k by (auto simp: stick_idle_def)
    ultimately show ?thesis
      using stick_scsi_in [OF k, of "rw10 0x28 l n" "take (n * 512) (drop (l * 512) (sk_disc k))"] stick_rw(1) [OF that(2)] kk by auto
  qed
  show "\<exists>w'. scsi_out stick_host stick_drive (rw10 0x2A l n) data k w' \<and> stick_idle w' \<and>
      sk_disc w' = take (l * 512) (sk_disc k) @ data @ drop ((l + n) * 512) (sk_disc k)"
    if "l + n \<le> 2" "length data = n * 512" for l n data
    using k that
    by (intro exI [of _ "k\<lparr>sk_disc := take (l * 512) (sk_disc k) @ data @ drop ((l + n) * 512) (sk_disc k)\<rparr>"] conjI stick_scsi_out [OF k that])
      (auto simp: stick_idle_def)
  show "\<exists>w'. msc_delay_ms stick_host ms k = Some w' \<and> keeps stick_idle sk_disc k w'" for ms
    using stick_delay [of ms k] k by (auto simp: keeps_def stick_idle_def)
  show "keeps stick_idle sk_disc k (snd (msc_time_ms stick_host k))" "keeps stick_idle sk_disc k (bot_reset stick_host stick_drive k)"
    "keeps stick_idle sk_disc k (clear_pipes stick_host stick_drive k)"
    using k by (simp_all add: keeps_def stick_idle_def stick_host_def bot_reset_def clear_pipes_def clear_halt_def usb_control_transfer_def)
qed simp_all

lemma stick_bulk_length: "\<forall>ep buf w. length (fst (snd (usb_bulk_transfer stick_host ep buf w))) = length buf"
  by (auto simp: usb_bulk_transfer_def stick_host_def stick_bulk_def CSW_def split: owed.splits)

definition demo_stick :: stick where
  "demo_stick = \<lparr>sk_owed = Nothing, sk_disc = replicate 512 1 @ replicate 512 2, sk_now = 0\<rparr>"

lemma demo_stick_idle: "stick_idle demo_stick"
  by (simp add: stick_idle_def demo_stick_def)



lemma usb_lba_truncated_witness:
  "\<exists>w'. usb_bdev_read stick_host (set_geometry 0 2 512 stick_drive) 0 0x100000001 1 (replicate 512 0) demo_stick =
    Some (1, replicate 512 2, w')"
proof -
  have "st_block_size (set_geometry 0 2 512 stick_drive) ! 0 = 512" by (simp add: set_geometry_def stick_drive_def)
  then show ?thesis
    using usb_lba_truncated [of stick_host "set_geometry 0 2 512 stick_drive" stick_idle sk_disc 2 demo_stick 1 1 "replicate 512 0"]
      stick_bot_disc demo_stick_idle by (auto simp: demo_stick_def) metis
qed

end
