(* ===== verification/Mmu.thy ===== *)
theory Mmu
  imports Prelude
begin

text \<open>
  kernel/mmu.c: the translation tables of the flat identity map. \<open>mmu_init\<close> is a function of the addresses
  of the tables and of the section .xhci_dma (linker symbols), and gives the four tables and the values
  of the system registers; its panics, which loop forever, give no result. The second part is the reference:
  the table walk of the ARM architecture (4 KB granule, 39-bit addresses, first lookup at level 1) and
  the memory map that the comments of the file promise.
\<close>

section \<open>Descriptors\<close>

definition PTE_VALID :: u64 where "PTE_VALID = push_bit 0 1"
definition PTE_BLOCK :: u64 where "PTE_BLOCK = push_bit 1 0"
definition PTE_TABLE :: u64 where "PTE_TABLE = push_bit 1 1"
definition PTE_PAGE :: u64 where "PTE_PAGE = push_bit 1 1"
definition PTE_ATTRINDX :: "u64 \<Rightarrow> u64" where "PTE_ATTRINDX n = push_bit 2 n"
definition PTE_AP_RW :: u64 where "PTE_AP_RW = push_bit 6 0"
definition PTE_SH_INNER :: u64 where "PTE_SH_INNER = push_bit 8 3"
definition PTE_SH_OUTER :: u64 where "PTE_SH_OUTER = push_bit 8 2"
definition PTE_AF :: u64 where "PTE_AF = push_bit 10 1"
definition PTE_PXN :: u64 where "PTE_PXN = push_bit 53 1"
definition PTE_UXN :: u64 where "PTE_UXN = push_bit 54 1"

definition MAIR_NORMAL :: u64 where "MAIR_NORMAL = 0"
definition MAIR_DEVICE :: u64 where "MAIR_DEVICE = 1"
definition MAIR_NC :: u64 where "MAIR_NC = 2"

definition MAIR_VALUE :: u64 where
  "MAIR_VALUE = push_bit 0 0xFF OR push_bit 8 0x00 OR push_bit 16 0x44"

definition TCR_VALUE :: u64 where
  "TCR_VALUE = push_bit 0 25 OR push_bit 8 1 OR push_bit 10 1 OR push_bit 12 3 OR push_bit 14 0 OR
     push_bit 16 25 OR push_bit 24 1 OR push_bit 26 1 OR push_bit 28 3 OR push_bit 30 2 OR push_bit 32 2"

definition NORMAL_BLOCK :: u64 where
  "NORMAL_BLOCK = PTE_VALID OR PTE_BLOCK OR PTE_AF OR PTE_SH_INNER OR PTE_AP_RW OR PTE_ATTRINDX MAIR_NORMAL"

definition DEVICE_BLOCK :: u64 where
  "DEVICE_BLOCK = PTE_VALID OR PTE_BLOCK OR PTE_AF OR PTE_SH_OUTER OR PTE_AP_RW OR PTE_ATTRINDX MAIR_DEVICE OR PTE_PXN OR PTE_UXN"

definition NC_BLOCK :: u64 where
  "NC_BLOCK = PTE_VALID OR PTE_BLOCK OR PTE_AF OR PTE_SH_INNER OR PTE_AP_RW OR PTE_ATTRINDX MAIR_NC OR PTE_PXN OR PTE_UXN"

definition L1_NORMAL :: "u64 \<Rightarrow> u64" where "L1_NORMAL pa = pa OR NORMAL_BLOCK"
definition L1_DEVICE :: "u64 \<Rightarrow> u64" where "L1_DEVICE pa = pa OR DEVICE_BLOCK"
definition L2_NORMAL :: "u64 \<Rightarrow> u64" where "L2_NORMAL pa = pa OR NORMAL_BLOCK"
definition L2_DEVICE :: "u64 \<Rightarrow> u64" where "L2_DEVICE pa = pa OR DEVICE_BLOCK"
definition L2_NC :: "u64 \<Rightarrow> u64" where "L2_NC pa = pa OR NC_BLOCK"

definition L3_NORMAL :: "u64 \<Rightarrow> u64" where
  "L3_NORMAL pa = pa OR (PTE_VALID OR PTE_PAGE OR PTE_AF OR PTE_SH_INNER OR PTE_AP_RW OR PTE_ATTRINDX MAIR_NORMAL)"

definition L3_NC :: "u64 \<Rightarrow> u64" where
  "L3_NC pa = pa OR (PTE_VALID OR PTE_PAGE OR PTE_AF OR PTE_SH_INNER OR PTE_AP_RW OR PTE_ATTRINDX MAIR_NC OR PTE_PXN OR PTE_UXN)"

definition TABLE_DESC :: "u64 \<Rightarrow> u64" where "TABLE_DESC pa = pa OR PTE_VALID OR PTE_TABLE"

section \<open>Building the tables\<close>

record page_tables =
  l1_table :: "u64 list"
  l2_periph4 :: "u64 list"
  l2_first_gb :: "u64 list"
  l3_dma_2mb :: "u64 list"

text \<open>Where the linker put the tables and the section .xhci_dma.\<close>

record layout =
  at_l1 :: u64
  at_l2p :: u64
  at_l2f :: u64
  at_l3 :: u64
  dma_start :: u64
  dma_end :: u64

definition l3_entry :: "u64 \<Rightarrow> u64 \<Rightarrow> u64 \<Rightarrow> nat \<Rightarrow> u64" where
  "l3_entry base l3_first l3_last i =
     (let pa = base + push_bit 12 (of_nat i)
      in if of_nat i \<ge> l3_first \<and> of_nat i < l3_last then L3_NC pa else L3_NORMAL pa)"

definition first_gb_entry :: "u64 \<Rightarrow> u64 \<Rightarrow> nat \<Rightarrow> u64" where
  "first_gb_entry l3 dma_l2_idx i =
     (let pa = push_bit 21 (of_nat i)
      in if of_nat i = dma_l2_idx then TABLE_DESC l3 else if pa \<ge> 0x38000000 then L2_NC pa else L2_NORMAL pa)"

definition periph4_entry :: "nat \<Rightarrow> u64" where
  "periph4_entry i = (let pa = 0xC0000000 + push_bit 21 (of_nat i) in if pa \<ge> 0xF0000000 then L2_DEVICE pa else L2_NORMAL pa)"

definition mmu_tables :: "layout \<Rightarrow> page_tables option" where
  "mmu_tables l =
     (let ds = dma_start l; de = dma_end l; dma_l2_idx = drop_bit 21 ds AND 0x1FF
      in if drop_bit 30 ds \<noteq> 0 \<or> drop_bit 30 de \<noteq> 0 then None
         else if drop_bit 21 (de - 1) \<noteq> dma_l2_idx then None
         else
           let l2_block_base = push_bit 21 dma_l2_idx;
               dma_l3_first = drop_bit 12 ds AND 0x1FF;
               dma_end_page = (de + 0xFFF) AND NOT 0xFFF;
               dma_l3_last = drop_bit 12 (dma_end_page - l2_block_base);
               dma_l3_last = (if dma_l3_last > 512 then 512 else dma_l3_last);
               l3 = map (l3_entry l2_block_base dma_l3_first dma_l3_last) [0..<512];
               l2f = map (first_gb_entry (at_l3 l) dma_l2_idx) [0..<512];
               l1 = replicate 512 0;
               l1 = l1[0 := TABLE_DESC (at_l2f l)];
               l1 = l1[1 := L1_NORMAL 0x040000000];
               l1 = l1[2 := L1_NORMAL 0x080000000];
               l1 = l1[3 := TABLE_DESC (at_l2p l)];
               l2p = map periph4_entry [0..<512];
               l1 = l1[24 := L1_DEVICE 0x600000000];
               l1 = l1[65 := L1_DEVICE 0x107C000000];
               l1 = l1[124 := L1_DEVICE 0x1F00000000]
           in Some \<lparr>l1_table = l1, l2_periph4 = l2p, l2_first_gb = l2f, l3_dma_2mb = l3\<rparr>)"

text \<open>The registers that the assembly at the end of \<open>mmu_init\<close> sets.\<close>

record sysregs =
  mair_el1 :: u64
  tcr_el1 :: u64
  ttbr0_el1 :: u64
  ttbr1_el1 :: u64
  sctlr_el1 :: u64

definition mmu_init :: "layout \<Rightarrow> sysregs \<Rightarrow> (page_tables \<times> sysregs) option" where
  "mmu_init l r = do {
     t \<leftarrow> mmu_tables l;
     Some (t, \<lparr>mair_el1 = MAIR_VALUE, tcr_el1 = TCR_VALUE, ttbr0_el1 = at_l1 l, ttbr1_el1 = at_l1 l,
       sctlr_el1 = sctlr_el1 r OR push_bit 0 1 OR push_bit 2 1 OR push_bit 12 1\<rparr>)
   }"

section \<open>The table walk of the architecture\<close>

text \<open>What a translation gives: the physical address, the index into MAIR, and whether execution is forbidden.\<close>

type_synonym xlat = "u64 \<times> u64 \<times> bool"

definition leaf_xlat :: "nat \<Rightarrow> u64 \<Rightarrow> u64 \<Rightarrow> xlat" where
  "leaf_xlat s d va = ((d AND (mask 48 AND NOT (mask s))) OR (va AND mask s), drop_bit 2 d AND 7, bit d 53 \<and> bit d 54)"

text \<open>
  \<open>mem\<close> gives the 512 descriptors of the table at an address; the list has the lowest bit of the index at
  each level that is left. A block is not allowed at the last level.
\<close>

fun walk :: "(u64 \<Rightarrow> u64 list) \<Rightarrow> nat list \<Rightarrow> u64 \<Rightarrow> u64 \<Rightarrow> xlat option" where
  "walk mem [] tbl va = None"
| "walk mem (s # ss) tbl va =
     (let d = mem tbl ! unat (drop_bit s va AND 0x1FF)
      in if \<not> bit d 0 then None
         else if bit d 1 then (if ss = [] then Some (leaf_xlat s d va) else walk mem ss (d AND (mask 48 AND NOT (mask 12))) va)
         else if ss = [] then None else Some (leaf_xlat s d va))"

text \<open>Addresses below \<open>2 ^ 39\<close> go through TTBR0, those whose upper 25 bits are set through TTBR1.\<close>

definition translate :: "(u64 \<Rightarrow> u64 list) \<Rightarrow> sysregs \<Rightarrow> u64 \<Rightarrow> xlat option" where
  "translate mem r va =
     (if drop_bit 39 va = 0 then walk mem [30, 21, 12] (ttbr0_el1 r) va
      else if drop_bit 39 va = mask 25 then walk mem [30, 21, 12] (ttbr1_el1 r) va
      else None)"

definition tables_mem :: "layout \<Rightarrow> page_tables \<Rightarrow> u64 \<Rightarrow> u64 list" where
  "tables_mem l t a =
     (if a = at_l1 l then l1_table t else if a = at_l2p l then l2_periph4 t
      else if a = at_l2f l then l2_first_gb t else if a = at_l3 l then l3_dma_2mb t else replicate 512 0)"

section \<open>The memory map\<close>

definition NORMAL :: "u64 \<times> bool" where "NORMAL = (0, False)"
definition DEVICE :: "u64 \<times> bool" where "DEVICE = (1, True)"
definition NON_CACHEABLE :: "u64 \<times> bool" where "NON_CACHEABLE = (2, True)"

text \<open>
  RAM below 0xF0000000 is normal cacheable memory, except the pages of .xhci_dma and the share of the
  GPU from 0x38000000 to 0x3FFFFFFF, which are not cached; from 0xF0000000 to the end of the fourth
  gigabyte, and in the gigabytes 24, 65 and 124, there are devices. Everything else faults.
\<close>

definition memory_map :: "layout \<Rightarrow> nat \<Rightarrow> (u64 \<times> bool) option" where
  "memory_map l v =
     (let ds = unat (dma_start l); de = unat (dma_end l)
      in if v < 0x40000000 then
           Some (if v div 0x200000 = ds div 0x200000 then
                   (if ds div 0x1000 \<le> v div 0x1000 \<and> v div 0x1000 \<le> (de - 1) div 0x1000 then NON_CACHEABLE else NORMAL)
                 else if 0x38000000 \<le> v then NON_CACHEABLE else NORMAL)
         else if v < 0xF0000000 then Some NORMAL
         else if v < 0x100000000 then Some DEVICE
         else if v div 0x40000000 \<in> {24, 65, 124} then Some DEVICE
         else None)"

definition layout_ok :: "layout \<Rightarrow> bool" where
  "layout_ok l \<longleftrightarrow> distinct [at_l1 l, at_l2p l, at_l2f l, at_l3 l] \<and>
     list_all (\<lambda>a. a AND (mask 48 AND NOT (mask 12)) = a) [at_l1 l, at_l2p l, at_l2f l, at_l3 l] \<and> dma_start l < dma_end l"

lemma idx_nat: "unat (drop_bit s (va :: u64) AND 0x1FF) = (unat va div 2 ^ s) mod 512"
proof -
  have m: "(0x1FF :: u64) = mask 9" by (simp add: mask_eq_exp_minus_1)
  have "unat (drop_bit s va) = unat va div 2 ^ s" unfolding unat_drop_bit_eq by (rule drop_bit_eq_div)
  then show ?thesis unfolding m by (simp add: take_bit_eq_mask [symmetric] take_bit_eq_mod unat_mod)
qed

lemma bit_disjoint: "f AND m = 0 \<Longrightarrow> bit m n \<Longrightarrow> \<not> bit (f :: u64) n"
  using bit_and_iff [of f m n] by auto

lemma high_bits: "drop_bit 39 va = 0 \<Longrightarrow> bit (va :: u64) n \<Longrightarrow> n < 39"
  using bit_drop_bit_eq [of 39 va] by (cases "n < 39") (auto simp: fun_eq_iff dest: spec [of _ "n - 39"])

text \<open>A leaf whose output address is that of the block (or page) of \<open>va\<close> translates \<open>va\<close> to itself.\<close>

lemma leaf_eq:
  assumes "f AND (mask 48 AND NOT (mask s)) = 0" "12 \<le> s" "drop_bit 39 va = 0" "pa = push_bit s (drop_bit s va)"
  shows "leaf_xlat s (pa OR f) va = (va, drop_bit 2 f AND 7, bit f 53 \<and> bit f 54)"
proof -
  have f: "\<not> bit f n" if "s \<le> n" "n < 48" for n using bit_disjoint [OF assms(1), of n] that by (auto simp: bit_simps)
  have v: "bit va n \<Longrightarrow> n < 48" for n using high_bits [OF assms(3), of n] by simp
  have "((pa OR f) AND (mask 48 AND NOT (mask s))) OR (va AND mask s) = va"
    using v f by (intro bit_word_eqI) (auto simp: assms(4) bit_simps)
  moreover have "drop_bit 2 (pa OR f) AND 7 = drop_bit 2 f AND 7"
  proof -
    have m: "(7 :: u64) = mask 3" by (simp add: mask_eq_exp_minus_1)
    show ?thesis unfolding m using assms(2) by (intro bit_word_eqI) (auto simp: assms(4) bit_simps)
  qed
  moreover have "bit (pa OR f) 53 = bit f 53" "bit (pa OR f) 54 = bit f 54"
    using v [of 53] v [of 54] by (auto simp: assms(4) bit_simps)
  ultimately show ?thesis by (simp only: leaf_xlat_def)
qed

lemma walk_leaf:
  assumes "mem tbl ! unat (drop_bit s va AND 0x1FF) = pa OR f" "pa = push_bit s (drop_bit s va)"
    "f AND (mask 48 AND NOT (mask s)) = 0" "12 \<le> s" "drop_bit 39 va = 0" "bit f 0" "bit f 1 = (ss = [])"
  shows "walk mem (s # ss) tbl va = Some (va, drop_bit 2 f AND 7, bit f 53 \<and> bit f 54)"
proof -
  have "bit (pa OR f) 0 = bit f 0" "bit (pa OR f) 1 = bit f 1" using assms(4) by (auto simp: assms(2) bit_simps)
  then show ?thesis using assms(6,7) leaf_eq [OF assms(3,4,5,2)] by (simp only: walk.simps assms(1) Let_def) simp
qed

lemma walk_table:
  assumes "mem tbl ! unat (drop_bit s va AND 0x1FF) = TABLE_DESC a" "a AND (mask 48 AND NOT (mask 12)) = a" "ss \<noteq> []"
  shows "walk mem (s # ss) tbl va = walk mem ss a va"
proof -
  have t: "TABLE_DESC a = a OR 3" by (simp add: TABLE_DESC_def PTE_VALID_def PTE_TABLE_def or.assoc)
  have a: "\<not> bit a n" if "n < 12" for n
    using arg_cong [OF assms(2), of "\<lambda>w. bit w n"] that by (auto simp: bit_simps)
  have m: "(3 :: u64) = mask 2" by (simp add: mask_eq_exp_minus_1)
  have "TABLE_DESC a AND (mask 48 AND NOT (mask 12)) = a AND (mask 48 AND NOT (mask 12))"
    unfolding t m by (intro bit_word_eqI) (auto simp: bit_simps)
  moreover have "bit (TABLE_DESC a) 0" "bit (TABLE_DESC a) 1" unfolding t m by (auto simp: bit_simps)
  ultimately show ?thesis using assms by (simp only: walk.simps assms(1) Let_def) simp
qed

lemma align_nat: "unat (push_bit s (drop_bit s (va :: u64))) = unat va div 2 ^ s * 2 ^ s"
proof -
  have "unat (drop_bit s va) = unat va div 2 ^ s" unfolding unat_drop_bit_eq by (rule drop_bit_eq_div)
  moreover have "unat va div 2 ^ s * 2 ^ s < 2 ^ 64" using le_less_trans [OF div_times_less_eq_dividend unsigned_less [of va]] by simp
  ultimately show ?thesis unfolding unsigned_push_bit_eq by (simp add: push_bit_eq_mult take_bit_eq_mod)
qed

lemma flags [simp]:
  "NORMAL_BLOCK = 0x701" "DEVICE_BLOCK = 0x60000000000605" "NC_BLOCK = 0x60000000000709"
  by code_simp+

lemma page_flags [simp]:
  "PTE_VALID OR PTE_PAGE OR PTE_AF OR PTE_SH_INNER OR PTE_AP_RW OR PTE_ATTRINDX MAIR_NORMAL = 0x703"
  "PTE_VALID OR PTE_PAGE OR PTE_AF OR PTE_SH_INNER OR PTE_AP_RW OR PTE_ATTRINDX MAIR_NC OR PTE_PXN OR PTE_UXN = 0x6000000000070B"
  by code_simp+

lemma flag_masks [simp]:
  "(0x701 :: u64) AND (mask 48 AND NOT (mask 30)) = 0" "(0x701 :: u64) AND (mask 48 AND NOT (mask 21)) = 0"
  "(0x60000000000605 :: u64) AND (mask 48 AND NOT (mask 30)) = 0" "(0x60000000000605 :: u64) AND (mask 48 AND NOT (mask 21)) = 0"
  "(0x6000003C000605 :: u64) AND (mask 48 AND NOT (mask 30)) = 0"
  "(0x60000000000709 :: u64) AND (mask 48 AND NOT (mask 21)) = 0"
  "(0x703 :: u64) AND (mask 48 AND NOT (mask 12)) = 0" "(0x6000000000070B :: u64) AND (mask 48 AND NOT (mask 12)) = 0"
  by code_simp+

declare walk.simps [simp del]

lemma walk_invalid: "mem tbl ! unat (drop_bit s va AND 0x1FF) = 0 \<Longrightarrow> walk mem (s # ss) tbl va = None"
  by (simp add: walk.simps)

lemmas walk_normal1 = walk_leaf [where f = "0x701" and s = 30 and ss = "[21, 12]", simplified]
  and walk_device1 = walk_leaf [where f = "0x60000000000605" and s = 30 and ss = "[21, 12]", simplified]
  and walk_device65 = walk_leaf [where f = "0x6000003C000605" and s = 30 and ss = "[21, 12]", simplified]
  and walk_normal2 = walk_leaf [where f = "0x701" and s = 21 and ss = "[12]", simplified]
  and walk_device2 = walk_leaf [where f = "0x60000000000605" and s = 21 and ss = "[12]", simplified]
  and walk_nc2 = walk_leaf [where f = "0x60000000000709" and s = 21 and ss = "[12]", simplified]
  and walk_normal3 = walk_leaf [where f = "0x703" and s = 12 and ss = "[]", simplified]
  and walk_nc3 = walk_leaf [where f = "0x6000000000070B" and s = 12 and ss = "[]", simplified]

lemma l1_lookup:
  assumes "mmu_tables l = Some t" "i < 512"
  shows "l1_table t ! i =
    (if i = 0 then TABLE_DESC (at_l2f l) else if i = 1 then 0x40000000 OR 0x701 else if i = 2 then 0x80000000 OR 0x701
     else if i = 3 then TABLE_DESC (at_l2p l) else if i = 24 then 0x600000000 OR 0x60000000000605
     else if i = 65 then 0x1040000000 OR 0x6000003C000605 else if i = 124 then 0x1F00000000 OR 0x60000000000605 else 0)"
  using assms by (auto simp: mmu_tables_def Let_def L1_NORMAL_def L1_DEVICE_def nth_list_update split: if_splits)

lemma l2p_lookup:
  "mmu_tables l = Some t \<Longrightarrow> i < 512 \<Longrightarrow> l2_periph4 t ! i = periph4_entry i"
  by (auto simp: mmu_tables_def Let_def split: if_splits)

lemma below_39: "drop_bit 39 va = 0 \<Longrightarrow> unat (va :: u64) < 2 ^ 39"
proof -
  assume "drop_bit 39 va = 0"
  then have "unat va div 2 ^ 39 = 0" using unat_drop_bit_eq [of 39 va] by (simp add: drop_bit_eq_div)
  then show ?thesis by (simp add: div_eq_0_iff)
qed

lemma walk_above:
  assumes "mmu_tables l = Some t" "drop_bit 39 va = 0" "0x40000000 \<le> unat va" "unat va div 0x40000000 \<noteq> 3" "layout_ok l"
  shows "walk (tables_mem l t) [30, 21, 12] (at_l1 l) va = map_option (\<lambda>(a, x). (va, a, x)) (memory_map l (unat va))"
proof -
  let ?i = "unat va div 0x40000000"
  have v: "unat va < 2 ^ 39" using below_39 [OF assms(2)] .
  have i: "?i < 512" "?i \<noteq> 0" using v assms(3) by (auto simp: div_less_iff_less_mult)
  have idx: "tables_mem l t (at_l1 l) ! unat (drop_bit 30 va AND 0x1FF) = l1_table t ! ?i"
    using i by (simp add: idx_nat tables_mem_def)
  have pa: "w = push_bit 30 (drop_bit 30 va)" if "unat w = ?i * 0x40000000" for w
    using that by (simp add: word_unat_eq_iff align_nat)
  have r: "?i * 0x40000000 \<le> unat va" "unat va < ?i * 0x40000000 + 0x40000000" by linarith+
  consider "?i = 1" | "?i = 2" | "?i = 24" | "?i = 65" | "?i = 124" | "?i \<notin> {1, 2, 24, 65, 124}" by blast
  then show ?thesis
  proof cases
    case 1
    then show ?thesis using r walk_normal1 [OF _ pa [of "0x40000000"] assms(2), of "tables_mem l t" "at_l1 l"] l1_lookup [OF assms(1) i(1)]
      by (simp add: idx memory_map_def NORMAL_def Let_def)
  next
    case 2
    then show ?thesis using r walk_normal1 [OF _ pa [of "0x80000000"] assms(2), of "tables_mem l t" "at_l1 l"] l1_lookup [OF assms(1) i(1)]
      by (simp add: idx memory_map_def NORMAL_def Let_def)
  next
    case 3
    then show ?thesis using r walk_device1 [OF _ pa [of "0x600000000"] assms(2), of "tables_mem l t" "at_l1 l"] l1_lookup [OF assms(1) i(1)]
      by (simp add: idx memory_map_def DEVICE_def Let_def)
  next
    case 4
    then show ?thesis using r walk_device65 [OF _ pa [of "0x1040000000"] assms(2), of "tables_mem l t" "at_l1 l"] l1_lookup [OF assms(1) i(1)]
      by (simp add: idx memory_map_def DEVICE_def Let_def)
  next
    case 5
    then show ?thesis using r walk_device1 [OF _ pa [of "0x1F00000000"] assms(2), of "tables_mem l t" "at_l1 l"] l1_lookup [OF assms(1) i(1)]
      by (simp add: idx memory_map_def DEVICE_def Let_def)
  next
    case 6
    then have "4 \<le> ?i" using i(2) assms(4) by auto
    then have "\<not> unat va < 0x100000000" using r(1) by linarith
    then show ?thesis using 6 r walk_invalid [of "tables_mem l t" "at_l1 l" 30 va "[21, 12]"] l1_lookup [OF assms(1) i(1)] i assms(4)
      by (simp add: idx memory_map_def Let_def)
  qed
qed

text \<open>The index of a 2 MB block within its gigabyte.\<close>

lemma block_index:
  fixes v :: nat
  assumes "v div 0x40000000 = g" "j = v div 0x200000 mod 512"
  shows "v div 0x200000 = g * 512 + j" "j < 512" "v div 0x200000 * 0x200000 \<le> v" "v < v div 0x200000 * 0x200000 + 0x200000"
proof -
  have "v div 0x40000000 = v div 0x200000 div 512" by (simp add: div_mult2_eq [symmetric])
  then show "v div 0x200000 = g * 512 + j" using assms div_mult_mod_eq [of "v div 0x200000" 512] by simp
  show "j < 512" by (simp add: assms(2))
  show "v div 0x200000 * 0x200000 \<le> v" "v < v div 0x200000 * 0x200000 + 0x200000" by linarith+
qed

lemma walk_periph:
  assumes "mmu_tables l = Some t" "drop_bit 39 va = 0" "unat va div 0x40000000 = 3" "layout_ok l"
  shows "walk (tables_mem l t) [30, 21, 12] (at_l1 l) va = map_option (\<lambda>(a, x). (va, a, x)) (memory_map l (unat va))"
proof -
  let ?v = "unat va"
  define j where "j = ?v div 0x200000 mod 512"
  have j: "?v div 0x200000 = 0x600 + j" "j < 512" "0xC0000000 + j * 0x200000 \<le> ?v" "?v < 0xC0000000 + j * 0x200000 + 0x200000"
    using block_index [OF assms(3) j_def] by simp_all
  have l1: "walk (tables_mem l t) [30, 21, 12] (at_l1 l) va = walk (tables_mem l t) [21, 12] (at_l2p l) va"
    using l1_lookup [OF assms(1), of 3] assms(3,4) by (intro walk_table) (simp_all add: idx_nat tables_mem_def layout_ok_def)
  have e: "tables_mem l t (at_l2p l) ! unat (drop_bit 21 va AND 0x1FF) = periph4_entry j"
    using l2p_lookup [OF assms(1) j(2)] assms(4) by (auto simp: idx_nat tables_mem_def layout_ok_def j_def)
  define pa where "pa = 0xC0000000 + push_bit 21 (of_nat j :: u64)"
  have upa: "unat pa = 0xC0000000 + j * 0x200000"
    using j(2) by (simp add: pa_def push_bit_eq_mult unat_word_ariths unat_of_nat)
  have pa: "pa = push_bit 21 (drop_bit 21 va)" using j(1) by (simp add: word_unat_eq_iff align_nat upa)
  have c: "(0xF0000000 \<le> pa) = (0xF0000000 \<le> ?v)" using j(3,4) by (auto simp: word_le_nat_alt upa)
  show ?thesis
  proof (cases "0xF0000000 \<le> ?v")
    case True
    then show ?thesis
      using walk_device2 [OF _ pa assms(2), of "tables_mem l t" "at_l2p l"] e c j(2-4)
      by (simp add: l1 periph4_entry_def Let_def pa_def [symmetric] L2_DEVICE_def memory_map_def DEVICE_def)
  next
    case False
    then show ?thesis
      using walk_normal2 [OF _ pa assms(2), of "tables_mem l t" "at_l2p l"] e c j(2-4)
      by (simp add: l1 periph4_entry_def Let_def pa_def [symmetric] L2_NORMAL_def memory_map_def NORMAL_def)
  qed
qed

lemma drop_bit_nat: "unat (drop_bit s (w :: u64)) = unat w div 2 ^ s"
  unfolding unat_drop_bit_eq by (rule drop_bit_eq_div)

text \<open>A page table entry of the split block, and the page range in it that is not cached.\<close>

definition dma_first :: "layout \<Rightarrow> nat" where
  "dma_first l = unat (dma_start l) div 0x1000 mod 512"

definition dma_last :: "layout \<Rightarrow> nat" where
  "dma_last l = Suc ((unat (dma_end l) - 1) div 0x1000) - unat (dma_start l) div 0x200000 * 512"

lemma dma_block:
  assumes "mmu_tables l = Some t" "dma_start l < dma_end l"
  shows "unat (dma_start l) < 0x40000000" "unat (dma_end l) < 0x40000000" "unat (dma_start l) < unat (dma_end l)"
    "(unat (dma_end l) - 1) div 0x200000 = unat (dma_start l) div 0x200000"
proof -
  have d: "drop_bit 30 (dma_start l) = 0" "drop_bit 30 (dma_end l) = 0" "drop_bit 21 (dma_end l - 1) = drop_bit 21 (dma_start l) AND 0x1FF"
    using assms(1) by (auto simp: mmu_tables_def Let_def split: if_splits)
  have "unat (dma_start l) div 2 ^ 30 = 0" "unat (dma_end l) div 2 ^ 30 = 0"
    using arg_cong [OF d(1), of unat] arg_cong [OF d(2), of unat] by (simp_all add: drop_bit_nat)
  then show b: "unat (dma_start l) < 0x40000000" "unat (dma_end l) < 0x40000000" by (simp_all add: div_eq_0_iff)
  show lt: "unat (dma_start l) < unat (dma_end l)" using assms(2) by (simp add: word_less_nat_alt)
  have "unat (dma_end l - 1) = unat (dma_end l) - 1" using lt by (intro unat_minus_one) auto
  then show "(unat (dma_end l) - 1) div 0x200000 = unat (dma_start l) div 0x200000"
    using arg_cong [OF d(3), of unat] b(1) by (simp add: idx_nat drop_bit_nat div_less_iff_less_mult)
qed

lemma end_page:
  assumes "unat (e :: u64) < 0x40000000" "0 < unat e"
  shows "unat ((e + 0xFFF) AND NOT 0xFFF) = Suc ((unat e - 1) div 0x1000) * 0x1000"
proof -
  have m: "(0xFFF :: u64) = mask 12" by (simp add: mask_eq_exp_minus_1)
  have "(e + 0xFFF) AND NOT (mask 12) = push_bit 12 (drop_bit 12 (e + 0xFFF))"
    by (intro bit_word_eqI) (auto simp: bit_simps)
  then have "unat ((e + 0xFFF) AND NOT 0xFFF) = unat (e + 0xFFF) div 0x1000 * 0x1000"
    unfolding m by (simp add: align_nat)
  also have "unat (e + 0xFFF) = (unat e - 1) + 0x1000" using assms by (simp add: unat_word_ariths)
  also have "((unat e - 1) + 0x1000) div 0x1000 = Suc ((unat e - 1) div 0x1000)" using div_add_self2 [of "0x1000" "unat e - 1"] by simp
  finally show ?thesis .
qed

lemma l3_lookup:
  assumes "mmu_tables l = Some t" "dma_start l < dma_end l" "i < 512"
  shows "l3_dma_2mb t ! i =
    (let pa = push_bit 21 (drop_bit 21 (dma_start l)) + push_bit 12 (of_nat i)
     in if dma_first l \<le> i \<and> i < dma_last l then L3_NC pa else L3_NORMAL pa)"
proof -
  note b = dma_block [OF assms(1,2)]
  let ?B = "unat (dma_start l) div 0x200000" and ?ix = "drop_bit 21 (dma_start l) AND 0x1FF"
  have ix: "?ix = drop_bit 21 (dma_start l)"
    using b(1) by (simp add: word_unat_eq_iff idx_nat drop_bit_nat div_less_iff_less_mult)
  have first: "unat (drop_bit 12 (dma_start l) AND 0x1FF) = dma_first l" by (simp add: idx_nat dma_first_def)
  let ?e = "Suc ((unat (dma_end l) - 1) div 0x1000)"
  have e: "unat ((dma_end l + 0xFFF) AND NOT 0xFFF) = ?e * 0x1000" using end_page b(2,3) by simp
  have q: "(unat (dma_end l) - 1) div 0x1000 div 512 = ?B" using b(4) by (simp add: div_mult2_eq [symmetric])
  then have B: "?B * 512 < ?e" "?e \<le> ?B * 512 + 512" by linarith+
  have base: "unat (push_bit 21 ?ix) = ?B * 0x200000" unfolding ix by (simp add: align_nat)
  have le: "push_bit 21 ?ix \<le> (dma_end l + 0xFFF) AND NOT 0xFFF" using B(1) unfolding word_le_nat_alt base e by simp
  have "unat (((dma_end l + 0xFFF) AND NOT 0xFFF) - push_bit 21 ?ix) = (?e - ?B * 512) * 0x1000"
    unfolding unat_sub [OF le] e base by (simp add: diff_mult_distrib)
  then have last: "unat (drop_bit 12 (((dma_end l + 0xFFF) AND NOT 0xFFF) - push_bit 21 ?ix)) = dma_last l"
    unfolding drop_bit_nat dma_last_def by simp
  have "\<not> 512 < drop_bit 12 (((dma_end l + 0xFFF) AND NOT 0xFFF) - push_bit 21 ?ix)"
    using B(2) unfolding word_less_nat_alt last dma_last_def by simp
  then have "l3_dma_2mb t ! i = l3_entry (push_bit 21 ?ix) (drop_bit 12 (dma_start l) AND 0x1FF)
      (drop_bit 12 (((dma_end l + 0xFFF) AND NOT 0xFFF) - push_bit 21 ?ix)) i"
    using assms(1,3) by (auto simp: mmu_tables_def Let_def split: if_splits)
  moreover have "unat (of_nat i :: u64) = i" using assms(3) by (simp add: unat_of_nat)
  ultimately show ?thesis
    unfolding l3_entry_def word_le_nat_alt word_less_nat_alt first last unfolding ix by simp
qed

lemma l2f_lookup:
  assumes "mmu_tables l = Some t" "dma_start l < dma_end l" "i < 512"
  shows "l2_first_gb t ! i =
    (if i = unat (dma_start l) div 0x200000 then TABLE_DESC (at_l3 l)
     else if 0x38000000 \<le> i * 0x200000 then L2_NC (push_bit 21 (of_nat i)) else L2_NORMAL (push_bit 21 (of_nat i)))"
proof -
  have "l2_first_gb t ! i = first_gb_entry (at_l3 l) (drop_bit 21 (dma_start l) AND 0x1FF) i"
    using assms(1,3) by (auto simp: mmu_tables_def Let_def split: if_splits)
  moreover have "unat (of_nat i :: u64) = i" using assms(3) by (simp add: unat_of_nat)
  moreover from this have "unat (push_bit 21 (of_nat i) :: u64) = i * 0x200000"
    using assms(3) by (simp add: push_bit_eq_mult unat_word_ariths)
  moreover have "unat (drop_bit 21 (dma_start l) AND 0x1FF) = unat (dma_start l) div 0x200000"
    using dma_block(1) [OF assms(1,2)] by (simp add: idx_nat div_less_iff_less_mult)
  ultimately show ?thesis unfolding first_gb_entry_def Let_def word_unat_eq_iff word_le_nat_alt by simp
qed

lemma walk_first:
  assumes "mmu_tables l = Some t" "drop_bit 39 va = 0" "unat va < 0x40000000" "layout_ok l"
  shows "walk (tables_mem l t) [30, 21, 12] (at_l1 l) va = map_option (\<lambda>(a, x). (va, a, x)) (memory_map l (unat va))"
proof -
  let ?v = "unat va" and ?m = "tables_mem l t" and ?D = "unat (dma_start l) div 0x200000"
  define j where "j = ?v div 0x200000"
  have lt: "dma_start l < dma_end l" using assms(4) by (simp add: layout_ok_def)
  have j: "j < 512" "j * 0x200000 \<le> ?v" "?v < j * 0x200000 + 0x200000" using assms(3) by (auto simp: j_def div_less_iff_less_mult)
  have l1: "walk ?m [30, 21, 12] (at_l1 l) va = walk ?m [21, 12] (at_l2f l) va"
    using l1_lookup [OF assms(1), of 0] assms(3,4) by (intro walk_table) (simp_all add: idx_nat tables_mem_def layout_ok_def)
  have e: "?m (at_l2f l) ! unat (drop_bit 21 va AND 0x1FF) = l2_first_gb t ! j"
    using j(1) assms(4) by (auto simp: idx_nat tables_mem_def layout_ok_def j_def)
  note e = e [unfolded l2f_lookup [OF assms(1) lt j(1)]]
  have pa: "push_bit 21 (of_nat j) = push_bit 21 (drop_bit 21 va)"
  proof -
    have "unat (push_bit 21 (of_nat j) :: u64) = j * 0x200000"
      using j(1) by (simp add: push_bit_eq_mult unat_word_ariths unat_of_nat)
    then show ?thesis unfolding word_unat_eq_iff align_nat by (simp add: j_def)
  qed
  have c: "(0x38000000 \<le> j * 0x200000) = (0x38000000 \<le> ?v)"
    using less_eq_div_iff_mult_less_eq [of "0x200000" 448 ?v] by (auto simp: j_def)
  consider (nc) "j \<noteq> ?D" "0x38000000 \<le> ?v" | (normal) "j \<noteq> ?D" "\<not> 0x38000000 \<le> ?v" | (split) "j = ?D" by blast
  then show ?thesis
  proof cases
    case nc
    then show ?thesis using walk_nc2 [OF _ pa assms(2), of ?m "at_l2f l"] e c assms(3)
      by (simp add: l1 L2_NC_def memory_map_def NON_CACHEABLE_def Let_def j_def)
  next
    case normal
    then show ?thesis using walk_normal2 [OF _ pa assms(2), of ?m "at_l2f l"] e c assms(3)
      by (simp add: l1 L2_NORMAL_def memory_map_def NORMAL_def Let_def j_def)
  next
    case split
    define i where "i = ?v div 0x1000 mod 512"
    have w: "?v div 0x1000 = ?D * 512 + i" "i < 512"
      using split div_mult_mod_eq [of "?v div 0x1000" 512] by (simp_all add: i_def j_def div_mult2_eq [symmetric])
    have s: "unat (dma_start l) div 0x1000 = ?D * 512 + dma_first l"
      using div_mult_mod_eq [of "unat (dma_start l) div 0x1000" 512] by (simp add: dma_first_def div_mult2_eq [symmetric])
    have le: "?D * 512 \<le> (unat (dma_end l) - 1) div 0x1000"
      using dma_block(3) [OF assms(1) lt] s div_le_mono [of "unat (dma_start l)" "unat (dma_end l) - 1" "0x1000"] by simp
    have l2: "walk ?m [21, 12] (at_l2f l) va = walk ?m [12] (at_l3 l) va"
      using e split assms(4) by (intro walk_table) (simp_all add: layout_ok_def)
    define q where "q = push_bit 21 (drop_bit 21 (dma_start l)) + push_bit 12 (of_nat i :: u64)"
    have "unat q = ?D * 0x200000 + i * 0x1000"
      using w(2) dma_block(1) [OF assms(1) lt]
      by (simp add: q_def unat_word_ariths align_nat push_bit_eq_mult [of 12] unat_of_nat)
    then have q: "q = push_bit 12 (drop_bit 12 va)" using w(1) by (simp add: word_unat_eq_iff align_nat)
    have l3: "?m (at_l3 l) ! unat (drop_bit 12 va AND 0x1FF) = (if dma_first l \<le> i \<and> i < dma_last l then L3_NC q else L3_NORMAL q)"
      using l3_lookup [OF assms(1) lt w(2)] assms(4) by (auto simp: idx_nat i_def tables_mem_def layout_ok_def Let_def q_def)
    have c: "(dma_first l \<le> i \<and> i < dma_last l) = (unat (dma_start l) div 0x1000 \<le> ?v div 0x1000 \<and> ?v div 0x1000 \<le> (unat (dma_end l) - 1) div 0x1000)"
    proof -
      have "(f \<le> i \<and> i < Suc E - B) = (B + f \<le> B + i \<and> B + i \<le> E)" if "B \<le> E" for f E B using that by arith
      then show ?thesis unfolding w(1) s dma_last_def using le by blast
    qed
    define P where "P = (unat (dma_start l) div 0x1000 \<le> ?v div 0x1000 \<and> ?v div 0x1000 \<le> (unat (dma_end l) - 1) div 0x1000)"
    have "memory_map l ?v = Some (if P then NON_CACHEABLE else NORMAL)"
      using split assms(3) unfolding memory_map_def Let_def P_def j_def by simp
    then show ?thesis
      using walk_nc3 [OF _ q assms(2), of ?m "at_l3 l"] walk_normal3 [OF _ q assms(2), of ?m "at_l3 l"] l3 [unfolded c, folded P_def]
      by (cases P) (simp_all add: l1 l2 L3_NC_def L3_NORMAL_def NORMAL_def NON_CACHEABLE_def)
  qed
qed

section \<open>Correctness\<close>

text \<open>C9. The tables that \<open>mmu_init\<close> builds, walked as the architecture does through TTBR0, give exactly the intended memory
  map: every address below \<open>2 ^ 39\<close> translates to itself with the attributes of the map, or faults where nothing is
  mapped.\<close>

theorem mmu_identity_map:
  assumes "mmu_init l r = Some (t, r')" "layout_ok l" "unat va < 2 ^ 39"
  shows "translate (tables_mem l t) r' va = map_option (\<lambda>(attr, xn). (va, attr, xn)) (memory_map l (unat va))"
proof -
  have t: "mmu_tables l = Some t" "ttbr0_el1 r' = at_l1 l" using assms(1) by (auto simp: mmu_init_def split: bind_splits)
  have d: "drop_bit 39 va = 0" using assms(3) by (simp add: word_unat_eq_iff drop_bit_nat)
  consider "unat va < 0x40000000" | "unat va div 0x40000000 = 3" | "0x40000000 \<le> unat va" "unat va div 0x40000000 \<noteq> 3" by linarith
  then show ?thesis
    using walk_first [OF t(1) d _ assms(2)] walk_periph [OF t(1) d _ assms(2)] walk_above [OF t(1) d _ _ assms(2)]
    by cases (simp_all add: translate_def d t(2))
qed

definition demo_layout :: layout where
  "demo_layout = \<lparr>at_l1 = 0x90000, at_l2p = 0x91000, at_l2f = 0x92000, at_l3 = 0x93000, dma_start = 0x2A1000, dma_end = 0x2A4200\<rparr>"

lemma demo_layout_facts: "layout_ok demo_layout" "\<exists>t. mmu_tables demo_layout = Some t"
proof -
  show "layout_ok demo_layout" by code_simp
  show "\<exists>t. mmu_tables demo_layout = Some t" by (simp add: mmu_tables_def demo_layout_def Let_def)
qed

lemma mmu_identity_map_witness:
  "\<exists>t r'. mmu_init demo_layout \<lparr>mair_el1 = 0, tcr_el1 = 0, ttbr0_el1 = 0, ttbr1_el1 = 0, sctlr_el1 = 0x30C50830\<rparr> = Some (t, r') \<and>
     translate (tables_mem demo_layout t) r' 0x2A4FFF = Some (0x2A4FFF, 2, True) \<and>
     translate (tables_mem demo_layout t) r' 0x2A5000 = Some (0x2A5000, 0, False) \<and>
     translate (tables_mem demo_layout t) r' 0xFE201000 = Some (0xFE201000, 1, True) \<and>
     translate (tables_mem demo_layout t) r' 0x100000000 = None"
proof -
  obtain t r' where i: "mmu_init demo_layout \<lparr>mair_el1 = 0, tcr_el1 = 0, ttbr0_el1 = 0, ttbr1_el1 = 0, sctlr_el1 = 0x30C50830\<rparr> = Some (t, r')"
    using demo_layout_facts(2) by (auto simp: mmu_init_def)
  note m = mmu_identity_map [OF i demo_layout_facts(1)]
  show ?thesis
    using i m [of "0x2A4FFF"] m [of "0x2A5000"] m [of "0xFE201000"] m [of "0x100000000"]
    by (simp add: memory_map_def demo_layout_def NORMAL_def NON_CACHEABLE_def DEVICE_def)
qed

end
