(* ===== verification/Lib.thy ===== *)
theory Lib
  imports Prelude
begin

text \<open>
  kernel/lib.c: the formatted output of the kernel, \<open>debug_print\<close>, and the string functions. A format is the text
  before its terminator, and reading past the terminator is a fault (no result); the arguments
  are the 64-bit slots of the calling convention, of which a narrower conversion takes the low bits; strings
  are read from the addresses in them. The string functions run on a memory of bytes; a search for a
  terminator that is not there has no result.
\<close>

section \<open>Formatted output\<close>

definition put :: "char \<Rightarrow> string" where
  "put c = (if c = CHR 0x0A then [CHR 0x0D, c] else [c])"

definition puts :: "string \<Rightarrow> string" where
  "puts s = concat (map put s)"

definition digit :: "nat \<Rightarrow> char" where
  "digit d = (''0123456789abcdef'') ! d"

text \<open>The buffer a conversion fills, lowest digit first.\<close>

fun dec_buf :: "nat \<Rightarrow> string" where
  "dec_buf n = (if n = 0 then [] else digit (n mod 10) # dec_buf (n div 10))"

fun hex_buf :: "nat \<Rightarrow> string" where
  "hex_buf n = (if n = 0 then [] else digit (n mod 16) # hex_buf (n div 16))"

declare dec_buf.simps [simp del]
declare hex_buf.simps [simp del]

definition print_unsigned :: "nat \<Rightarrow> string" where
  "print_unsigned n = (if n = 0 then ''0'' else rev (dec_buf n))"

text \<open>Signed conversions: the negation is that of the machine, so the smallest number stays negative and has no digits.\<close>

definition print_d :: "32 word \<Rightarrow> string" where
  "print_d v =
     (let neg = sint v < 0; v = (if neg then - v else v)
      in (if neg then ''-'' else []) @ (if v = 0 then ''0'' else if sint v > 0 then rev (dec_buf (nat (sint v))) else []))"

definition print_ld :: "64 word \<Rightarrow> string" where
  "print_ld v =
     (let neg = sint v < 0; v = (if neg then - v else v)
      in (if neg then ''-'' else []) @ (if v = 0 then ''0'' else if sint v > 0 then rev (dec_buf (nat (sint v))) else []))"

definition print_x :: "char \<Rightarrow> nat \<Rightarrow> 32 word \<Rightarrow> string" where
  "print_x pad width v =
     (let buf = (if v = 0 then ''0'' else hex_buf (unat v))
      in replicate (width - length buf) pad @ rev buf)"

definition print_p :: "64 word \<Rightarrow> string" where
  "print_p v = ''0x'' @ map (\<lambda>k. digit (unat (drop_bit (4 * k) v AND 0xF))) [15, 14, 13, 12, 11, 10, 9, 8, 7, 6, 5, 4, 3, 2, 1, 0]"

fun span_width :: "string \<Rightarrow> nat \<Rightarrow> nat \<times> string" where
  "span_width (c # f) w =
     (if 49 \<le> (of_char c :: nat) \<and> (of_char c :: nat) \<le> 57 then span_width f (w * 10 + (of_char c - 48)) else (w, c # f))"
| "span_width [] w = (w, [])"

lemma span_width_length: "span_width f w = (w', f') \<Longrightarrow> length f' \<le> length f"
  by (induction f arbitrary: w) (fastforce split: if_splits)+

text \<open>
  One directive, from the character behind the percent sign: the text, the arguments left and the rest of the
  format. At the end of the format the default case steps over the terminator.
\<close>

definition directive :: "(u64 \<Rightarrow> string) \<Rightarrow> string \<Rightarrow> u64 list \<Rightarrow> (string \<times> u64 list \<times> string) option" where
  "directive str f args =
     (let (pad, f) = (case f of c # f' \<Rightarrow> if c = CHR ''0'' then (CHR ''0'', f') else (CHR '' '', f) | [] \<Rightarrow> (CHR '' '', f));
          (width, f) = span_width f 0
      in case f of
           [] \<Rightarrow> None
         | c # f \<Rightarrow>
             if c = CHR ''s'' then (case args of [] \<Rightarrow> None | a # args \<Rightarrow> Some (puts (if a = 0 then ''(null)'' else str a), args, f))
             else if c = CHR ''d'' then (case args of [] \<Rightarrow> None | a # args \<Rightarrow> Some (print_d (ucast a), args, f))
             else if c = CHR ''u'' then (case args of [] \<Rightarrow> None | a # args \<Rightarrow> Some (print_unsigned (unat (ucast a :: u32)), args, f))
             else if c = CHR ''x'' then (case args of [] \<Rightarrow> None | a # args \<Rightarrow> Some (print_x pad width (ucast a), args, f))
             else if c = CHR ''p'' then (case args of [] \<Rightarrow> None | a # args \<Rightarrow> Some (print_p a, args, f))
             else if c = CHR ''l'' then
               (let f = (case f of e # f' \<Rightarrow> if e = CHR ''l'' then f' else f | [] \<Rightarrow> f)
                in case f of
                     [] \<Rightarrow> None
                   | e # f \<Rightarrow>
                       if e = CHR ''d'' then (case args of [] \<Rightarrow> None | a # args \<Rightarrow> Some (print_ld a, args, f))
                       else if e = CHR ''x'' then (case args of [] \<Rightarrow> None | a # args \<Rightarrow> Some (print_p a, args, f))
                       else Some ([], args, f))
             else if c = CHR ''z'' then
               (case f of [] \<Rightarrow> None
                | _ # f \<Rightarrow> (case args of [] \<Rightarrow> None | a # args \<Rightarrow> Some (print_unsigned (unat a), args, f)))
             else Some (puts [CHR ''%'', c], args, f))"

lemma directive_length: "directive str f args = Some (t, as, f') \<Longrightarrow> length f' < length f"
proof -
  assume a: "directive str f args = Some (t, as, f')"
  obtain pad g where g: "(case f of c # f' \<Rightarrow> if c = CHR ''0'' then (CHR ''0'', f') else (CHR '' '', f) | [] \<Rightarrow> (CHR '' '', f)) = (pad, g)"
    by (metis surj_pair)
  then have 1: "length g \<le> length f" by (auto split: list.splits if_splits)
  obtain w k where k: "span_width g 0 = (w, k)" by (metis surj_pair)
  then have 2: "length k \<le> length g" using span_width_length by blast
  have "length f' < length k"
    using a unfolding directive_def g Let_def prod.case k
    by (auto simp: Let_def split: list.splits if_splits)
  then show ?thesis using 1 2 by simp
qed

function debug_print :: "(u64 \<Rightarrow> string) \<Rightarrow> string \<Rightarrow> u64 list \<Rightarrow> string option" where
  "debug_print str [] args = Some []"
| "debug_print str (c # f) args =
     (if c = CHR ''%'' then do { (t, args, f) \<leftarrow> directive str f args; rest \<leftarrow> debug_print str f args; Some (t @ rest) }
      else do { rest \<leftarrow> debug_print str f args; Some (put c @ rest) })"
  by pat_completeness auto
termination
  by (relation "measure (\<lambda>(_, f, _). length f)") (auto dest!: directive_length)

section \<open>Memory and strings\<close>

type_synonym memory = "nat \<Rightarrow> u8"

fun memset :: "nat \<Rightarrow> u8 \<Rightarrow> nat \<Rightarrow> memory \<Rightarrow> memory" where
  "memset p c 0 m = m"
| "memset p c (Suc n) m = memset (p + 1) c n (m(p := c))"

fun memcpy :: "nat \<Rightarrow> nat \<Rightarrow> nat \<Rightarrow> memory \<Rightarrow> memory" where
  "memcpy d s 0 m = m"
| "memcpy d s (Suc n) m = memcpy (d + 1) (s + 1) n (m(d := m s))"

fun memcmp :: "memory \<Rightarrow> nat \<Rightarrow> nat \<Rightarrow> nat \<Rightarrow> int" where
  "memcmp m p q 0 = 0"
| "memcmp m p q (Suc n) = (if m p \<noteq> m q then uint (m p) - uint (m q) else memcmp m (p + 1) (q + 1) n)"

partial_function (option) find_nul :: "memory \<Rightarrow> nat \<Rightarrow> nat option" where
  "find_nul m p = (if m p = 0 then Some p else find_nul m (p + 1))"

definition strlen :: "memory \<Rightarrow> nat \<Rightarrow> nat option" where
  "strlen m s = map_option (\<lambda>p. p - s) (find_nul m s)"

fun strnlen_from :: "memory \<Rightarrow> nat \<Rightarrow> nat \<Rightarrow> nat \<Rightarrow> nat" where
  "strnlen_from m s len 0 = len"
| "strnlen_from m s len (Suc n) = (if m (s + len) \<noteq> 0 then strnlen_from m s (len + 1) n else len)"

definition strnlen :: "memory \<Rightarrow> nat \<Rightarrow> nat \<Rightarrow> nat" where
  "strnlen m s maxlen = strnlen_from m s 0 maxlen"

partial_function (option) strcpy :: "nat \<Rightarrow> nat \<Rightarrow> memory \<Rightarrow> memory option" where
  "strcpy d s m = (let c = m s; m = m(d := c) in if c = 0 then Some m else strcpy (d + 1) (s + 1) m)"

fun strncpy :: "nat \<Rightarrow> nat \<Rightarrow> nat \<Rightarrow> memory \<Rightarrow> memory" where
  "strncpy d s 0 m = m"
| "strncpy d s (Suc n) m = (if m s \<noteq> 0 then strncpy (d + 1) (s + 1) n (m(d := m s)) else memset d 0 (Suc n) m)"

partial_function (option) strcmp :: "memory \<Rightarrow> nat \<Rightarrow> nat \<Rightarrow> int option" where
  "strcmp m p q = (if m p \<noteq> 0 \<and> m p = m q then strcmp m (p + 1) (q + 1) else Some (uint (m p) - uint (m q)))"

fun strncmp :: "memory \<Rightarrow> nat \<Rightarrow> nat \<Rightarrow> nat \<Rightarrow> int" where
  "strncmp m p q 0 = 0"
| "strncmp m p q (Suc n) = (if m p \<noteq> 0 \<and> m p = m q then strncmp m (p + 1) (q + 1) n else uint (m p) - uint (m q))"

section \<open>Printing numbers\<close>

text \<open>The value of a string of digits.\<close>

definition digit_value :: "char \<Rightarrow> nat" where
  "digit_value c = (let n = of_char c in if n \<le> 57 then n - 48 else n - 87)"

definition read_base :: "nat \<Rightarrow> string \<Rightarrow> nat" where
  "read_base b s = foldl (\<lambda>v c. v * b + digit_value c) 0 s"

lemma digit_value_digit [simp]: "d < 16 \<Longrightarrow> digit_value (digit d) = d"
proof -
  have "\<forall>d<16. digit_value (digit d) = d" by code_simp
  then show "d < 16 \<Longrightarrow> digit_value (digit d) = d" by blast
qed

lemma read_base_snoc: "read_base b (s @ [c]) = read_base b s * b + digit_value c"
  by (simp add: read_base_def)

lemma read_dec_buf: "read_base 10 (rev (dec_buf n)) = n"
proof (induction n rule: dec_buf.induct)
  case (1 n)
  then show ?case by (subst dec_buf.simps) (auto simp: read_base_snoc read_base_def [of _ "[]"])
qed

lemma read_hex_buf: "read_base 16 (rev (hex_buf n)) = n"
proof (induction n rule: hex_buf.induct)
  case (1 n)
  then show ?case by (subst hex_buf.simps) (auto simp: read_base_snoc read_base_def [of _ "[]"])
qed

lemma dec_buf_length: "n < 10 ^ k \<Longrightarrow> length (dec_buf n) \<le> k"
proof (induction k arbitrary: n)
  case (Suc k)
  have "n div 10 < 10 ^ k" using Suc.prems by (simp add: div_less_iff_less_mult mult.commute)
  then show ?case using Suc.IH [of "n div 10"] by (subst dec_buf.simps) simp
qed (simp add: dec_buf.simps)

lemma hex_buf_length: "n < 16 ^ k \<Longrightarrow> length (hex_buf n) \<le> k"
proof (induction k arbitrary: n)
  case (Suc k)
  have "n div 16 < 16 ^ k" using Suc.prems by (simp add: div_less_iff_less_mult mult.commute)
  then show ?case using Suc.IH [of "n div 16"] by (subst hex_buf.simps) simp
qed (simp add: hex_buf.simps)

lemma hex_buf_ne: "n \<noteq> 0 \<Longrightarrow> hex_buf n \<noteq> []"
  by (subst hex_buf.simps) simp

lemma directive_d: "debug_print str ''%d'' [a] = Some (print_d (ucast a))"
  by (simp add: directive_def)

lemma directive_u: "debug_print str ''%u'' [a] = Some (print_unsigned (unat (ucast a :: u32)))"
  by (simp add: directive_def)

lemma directive_x:
  assumes "1 \<le> w" "w \<le> 9"
  shows "debug_print str (''%0'' @ [digit w] @ ''x'') [a] = Some (print_x (CHR ''0'') w (ucast a))"
proof -
  have "w \<in> {1, 2, 3, 4, 5, 6, 7, 8, 9}" using assms by auto
  then show ?thesis by (auto simp: directive_def digit_def)
qed

lemma read_base_zeros: "read_base b (replicate k (CHR ''0'') @ s) = read_base b s"
proof -
  have "foldl (\<lambda>v c. v * b + digit_value c) 0 (replicate k (CHR ''0'')) = 0"
    by (induction k) (auto simp: digit_value_def)
  then show ?thesis by (simp add: read_base_def)
qed

lemma print_unsigned_read: "read_base 10 (print_unsigned n) = n"
  using read_dec_buf [of n] by (simp add: print_unsigned_def read_base_def digit_value_def)

lemma dec_buf_ne: "n \<noteq> 0 \<Longrightarrow> dec_buf n \<noteq> []"
  by (subst dec_buf.simps) simp

lemma print_d_read:
  assumes "v \<noteq> 0x80000000"
  shows "\<exists>ds. print_d v = (if sint v < 0 then ''-'' else []) @ ds \<and> ds \<noteq> [] \<and> length ds \<le> 10 \<and> read_base 10 ds = nat \<bar>sint v\<bar>"
proof -
  have "sint v \<noteq> - (2 ^ 31)"
  proof
    assume "sint v = - (2 ^ 31)"
    moreover have "v = word_of_int (sint v)" by simp
    ultimately have "v = word_of_int (- (2 ^ 31))" by simp
    then show False using assms by simp
  qed
  then have r: "- (2 ^ 31) < sint v" "sint v < 2 ^ 31" using sint_ge [of v] sint_lt [of v] by simp_all
  then have neg: "sint (- v) = - sint v" by (simp add: sint_word_minus signed_take_bit_int_eq_self)
  define n where "n = nat \<bar>sint v\<bar>"
  have p: "print_d v = (if sint v < 0 then ''-'' else []) @ (if n = 0 then ''0'' else rev (dec_buf n))"
    using neg signed_eq_0_iff [of v] by (cases "sint v < 0") (auto simp: print_d_def n_def Let_def)
  have "n < 10 ^ 10" using r by (simp add: n_def)
  then have "length (dec_buf n) \<le> 10" by (rule dec_buf_length)
  moreover have "read_base 10 (if n = 0 then ''0'' else rev (dec_buf n)) = n"
    using print_unsigned_read [of n] by (simp add: print_unsigned_def)
  ultimately show ?thesis
    using p dec_buf_ne [of n] n_def by (intro exI [of _ "if n = 0 then ''0'' else rev (dec_buf n)"]) auto
qed

text \<open>What the kernel prints of a number reads back as that number: \<open>%d\<close> of every value but the smallest, \<open>%u\<close>, and
  \<open>%x\<close> padded with zeros to a width of one digit, which also is at least that wide. No conversion writes
  past the end of its buffer of 16 or 8 characters.\<close>

theorem debug_print_numbers:
  assumes "ucast a \<noteq> (0x80000000 :: 32 word)" "1 \<le> w" "w \<le> 9"
  shows "(\<exists>ds. debug_print str ''%d'' [a] = Some ((if sint (ucast a :: 32 word) < 0 then ''-'' else []) @ ds) \<and> ds \<noteq> [] \<and>
      length ds \<le> 16 \<and> read_base 10 ds = nat \<bar>sint (ucast a :: 32 word)\<bar>) \<and>
    (\<exists>ds. debug_print str ''%u'' [a] = Some ds \<and> length ds \<le> 16 \<and> read_base 10 ds = unat (ucast a :: u32)) \<and>
    (\<exists>hs. debug_print str (''%0'' @ [digit w] @ ''x'') [a] = Some hs \<and> w \<le> length hs \<and> length hs \<le> max w 8 \<and>
      read_base 16 hs = unat (ucast a :: u32))"
proof (intro conjI)
  show "\<exists>ds. debug_print str ''%d'' [a] = Some ((if sint (ucast a :: 32 word) < 0 then ''-'' else []) @ ds) \<and> ds \<noteq> [] \<and>
      length ds \<le> 16 \<and> read_base 10 ds = nat \<bar>sint (ucast a :: 32 word)\<bar>"
    using print_d_read [OF assms(1)] unfolding directive_d by fastforce
  let ?v = "ucast a :: u32"
  have v: "unat ?v < 2 ^ 32" using unsigned_less [of ?v] by simp
  have "length (dec_buf (unat ?v)) \<le> 10" using v by (intro dec_buf_length) simp
  then have "length (print_unsigned (unat ?v)) \<le> 16" by (simp add: print_unsigned_def)
  then show "\<exists>ds. debug_print str ''%u'' [a] = Some ds \<and> length ds \<le> 16 \<and> read_base 10 ds = unat ?v"
    unfolding directive_u using print_unsigned_read by blast
  have "length (hex_buf (unat ?v)) \<le> 8" using v by (intro hex_buf_length) simp
  moreover have "read_base 16 (print_x (CHR ''0'') w ?v) = unat ?v"
    using read_hex_buf [of "unat ?v"] by (simp add: print_x_def Let_def read_base_zeros) (simp add: read_base_def digit_value_def)
  ultimately show "\<exists>hs. debug_print str (''%0'' @ [digit w] @ ''x'') [a] = Some hs \<and> w \<le> length hs \<and> length hs \<le> max w 8 \<and>
      read_base 16 hs = unat ?v"
    unfolding directive_x [OF assms(2,3)] by (auto simp: print_x_def Let_def)
qed

lemma debug_print_numbers_witness:
  "debug_print (\<lambda>_. []) ''%d'' [0xFFFFFFD6] = Some ''-42'' \<and> read_base 10 ''42'' = 42 \<and>
   (\<exists>hs. debug_print (\<lambda>_. []) ''%08x'' [0xFFFFFFD6] = Some hs \<and> 8 \<le> length hs \<and> read_base 16 hs = 0xFFFFFFD6)"
proof -
  have "debug_print (\<lambda>_. []) ''%d'' [0xFFFFFFD6] = Some ''-42''" "read_base 10 ''42'' = 42" by code_simp+
  moreover have "''%0'' @ [digit 8] @ ''x'' = ''%08x''" by code_simp
  ultimately show ?thesis using debug_print_numbers [of "0xFFFFFFD6" 8 "\<lambda>_. []"] by auto
qed

text \<open>The conversion \<open>%llu\<close>, which the kernel's own messages use, prints nothing and takes no argument, so that
  every later conversion of the same message prints the argument before its own.\<close>

theorem debug_print_llu_skipped:
  "debug_print str (''%llu'' @ f) args = debug_print str f args"
  by (simp add: directive_def)

section \<open>Strings\<close>

fun cstr_at :: "memory \<Rightarrow> nat \<Rightarrow> bytes \<Rightarrow> bool" where
  "cstr_at m p [] = (m p = 0)"
| "cstr_at m p (x # xs) = (m p = x \<and> x \<noteq> 0 \<and> cstr_at m (p + 1) xs)"

lemma find_nul_cstr: "cstr_at m p xs \<Longrightarrow> find_nul m p = Some (p + length xs)"
proof (induction xs arbitrary: p)
  case (Cons x xs)
  then show ?case by (subst find_nul.simps) simp
qed (simp add: find_nul.simps)

lemma strlen_cstr: "cstr_at m p xs \<Longrightarrow> strlen m p = Some (length xs)"
  by (simp add: strlen_def find_nul_cstr)

lemma cstr_cong: "(\<And>a. p \<le> a \<Longrightarrow> a \<le> p + length xs \<Longrightarrow> m a = m' a) \<Longrightarrow> cstr_at m p xs = cstr_at m' p xs"
  by (induction xs arbitrary: p) auto

lemma strcpy_cstr:
  "cstr_at m s xs \<Longrightarrow> s + length xs < d \<or> d + length xs < s \<Longrightarrow>
    \<exists>m'. strcpy d s m = Some m' \<and> cstr_at m' d xs \<and> (\<forall>a. a < d \<or> d + length xs < a \<longrightarrow> m' a = m a)"
proof (induction xs arbitrary: d s m)
  case Nil
  then show ?case by (subst strcpy.simps) (auto simp: Let_def)
next
  case (Cons x xs)
  have "cstr_at (m(d := x)) (s + 1) xs" using Cons.prems by (subst cstr_cong [of _ _ _ m]) auto
  moreover have "s + 1 + length xs < d + 1 \<or> d + 1 + length xs < s + 1" using Cons.prems(2) by auto
  ultimately obtain m' where m': "strcpy (d + 1) (s + 1) (m(d := x)) = Some m'" "cstr_at m' (d + 1) xs"
      "\<forall>a. a < d + 1 \<or> d + 1 + length xs < a \<longrightarrow> m' a = (m(d := x)) a"
    using Cons.IH [of "m(d := x)" "s + 1" "d + 1"] by blast
  then show ?case using Cons.prems(1) by (subst strcpy.simps) (auto simp: Let_def)
qed

lemma strcmp_cstr:
  "cstr_at m p xs \<Longrightarrow> cstr_at m q ys \<Longrightarrow> \<exists>r. strcmp m p q = Some r \<and> (r = 0 \<longleftrightarrow> xs = ys) \<and> (r < 0 \<longleftrightarrow> ord_class.lexordp xs ys)"
proof (induction xs arbitrary: p q ys)
  case Nil
  then show ?case by (subst strcmp.simps) (cases ys; auto simp: word_less_def unsigned_eq_0_iff less_le)
next
  case (Cons x xs)
  show ?case
  proof (cases ys)
    case Nil
    then show ?thesis using Cons.prems by (subst strcmp.simps) (auto simp: word_less_def unsigned_eq_0_iff less_le)
  next
    case (Cons y ys')
    then show ?thesis using Cons.prems Cons.IH [of "p + 1" "q + 1" ys'] word_uint_eq_iff [of x y]
      by (subst strcmp.simps) (auto simp: word_less_def unsigned_eq_0_iff less_le)
  qed
qed

text \<open>The string functions against lists of bytes: \<open>strlen\<close> is the length, \<open>strcpy\<close> to a place that does not overlap
  makes an equal string and changes nothing else, and \<open>strcmp\<close> returns, and by its sign orders two strings
  lexicographically by the unsigned values of their bytes.\<close>

theorem string_functions:
  assumes "cstr_at m s xs" "cstr_at m t ys" "s + length xs < d \<or> d + length xs < s"
  shows "strlen m s = Some (length xs) \<and>
    (\<exists>m'. strcpy d s m = Some m' \<and> strcmp m' d s = Some 0 \<and> (\<forall>a. a < d \<or> d + length xs < a \<longrightarrow> m' a = m a)) \<and>
    (\<exists>r. strcmp m s t = Some r \<and> (r = 0 \<longleftrightarrow> xs = ys) \<and> (r < 0 \<longleftrightarrow> ord_class.lexordp xs ys))"
proof -
  obtain m' where m': "strcpy d s m = Some m'" "cstr_at m' d xs" "\<forall>a. a < d \<or> d + length xs < a \<longrightarrow> m' a = m a"
    using strcpy_cstr [OF assms(1,3)] by blast
  have "cstr_at m' s xs" using assms(1,3) m'(3) by (subst cstr_cong [of _ _ _ m]) auto
  then have "strcmp m' d s = Some 0" using strcmp_cstr [OF m'(2)] by blast
  then show ?thesis using strlen_cstr [OF assms(1)] strcmp_cstr [OF assms(1,2)] m' by blast
qed

lemma string_functions_witness:
  "strlen (\<lambda>a. if a = 100 then 0x61 else if a = 200 then 0x62 else 0) 100 = Some 1 \<and>
   (\<exists>r. strcmp (\<lambda>a. if a = 100 then 0x61 else if a = 200 then 0x62 else 0) 100 200 = Some r \<and> r < 0)"
  using string_functions [of "\<lambda>a. if a = 100 then 0x61 else if a = 200 then 0x62 else 0" 100 "[0x61]" 200 "[0x62]" 300] by auto

end
