(* ===== verification/Exec.thy ===== *)
theory Exec
  imports Vfs Mmu Sched Lib
begin

text \<open>
  kernel/task.c: \<open>fork\<close> and \<open>execve\<close>, with the ELF structures of kernel/elf64.h.
  Executables come through the virtual file system of \<open>Vfs\<close>; \<open>km\<close> gives the block that an allocation of a
  size returns. The stack of the new program is written at the user addresses of the source: a store to
  an address that is not mapped is a fault, and a fault is no result. \<open>mmu_map\<close> and
  \<open>mmu_duplicate_pagetable\<close> are the stubs of kernel/mmu.c, which do nothing and return 0. The name, the parent and
  the general registers of a task are not part of the model, nor is the errno that a truncated string sets.
\<close>

section \<open>ELF files\<close>

record Elf64_Ehdr =
  e_ident :: bytes
  e_type :: u16
  e_machine :: u16
  e_entry :: u64
  e_phoff :: u64
  e_phentsize :: u16
  e_phnum :: u16

record Elf64_Phdr =
  p_type :: u32
  p_flags :: u32
  p_offset :: u64
  p_vaddr :: u64
  p_filesz :: u64
  p_memsz :: u64

definition ehdr_of :: "bytes \<Rightarrow> Elf64_Ehdr option" where
  "ehdr_of b = do {
     id \<leftarrow> rdn b 0 16; ty \<leftarrow> rd16le b 16; mach \<leftarrow> rd16le b 18; entry \<leftarrow> rd64le b 24; phoff \<leftarrow> rd64le b 32;
     phentsize \<leftarrow> rd16le b 54; phnum \<leftarrow> rd16le b 56;
     Some \<lparr>e_ident = id, e_type = ty, e_machine = mach, e_entry = entry, e_phoff = phoff, e_phentsize = phentsize, e_phnum = phnum\<rparr>
   }"

definition phdr_of :: "bytes \<Rightarrow> Elf64_Phdr option" where
  "phdr_of b = do {
     ty \<leftarrow> rd32le b 0; fl \<leftarrow> rd32le b 4; offs \<leftarrow> rd64le b 8; vaddr \<leftarrow> rd64le b 16; filesz \<leftarrow> rd64le b 32; memsz \<leftarrow> rd64le b 40;
     Some \<lparr>p_type = ty, p_flags = fl, p_offset = offs, p_vaddr = vaddr, p_filesz = filesz, p_memsz = memsz\<rparr>
   }"

definition ELFMAG :: bytes where "ELFMAG = [0x7F, 0x45, 0x4C, 0x46]"

definition valid_exec :: "Elf64_Ehdr \<Rightarrow> bool" where
  "valid_exec eh \<longleftrightarrow> take 4 (e_ident eh) = ELFMAG \<and> e_ident eh ! 4 = 2 \<and> e_ident eh ! 5 = 1 \<and> e_machine eh = 183 \<and> e_type eh = 2"

section \<open>Loading a program\<close>

type_synonym read_op = "u32 \<Rightarrow> u32 \<Rightarrow> bytes option option"

record segment =
  seg_vaddr :: u64
  seg_prot :: int
  seg_page :: bytes

definition seg_prot_of :: "u32 \<Rightarrow> int" where
  "seg_prot_of fl = (if bit fl 2 then 1 else 0) + (if bit fl 1 then 2 else 0) + (if bit fl 0 then 4 else 0)"

definition EIO :: int where "EIO = 5"

definition load_segment ::
  "(nat \<Rightarrow> bytes option) \<Rightarrow> read_op \<Rightarrow> nat \<Rightarrow> Elf64_Phdr \<Rightarrow> vfs \<Rightarrow> ((int + segment) \<times> vfs) option" where
  "load_segment km rf fd ph v =
     (let memsz = (p_memsz ph + 4096 - 1) AND NOT 4095
      in case km (unat memsz) of
           None \<Rightarrow> Some (Inl ENOMEM, v)
         | Some page \<Rightarrow> do {
             (_, v) \<leftarrow> vfs_seek (Some fd) (sint (p_offset ph)) 0 v;
             (n, xs, v) \<leftarrow> vfs_read rf (Some fd) (p_filesz ph) v;
             page \<leftarrow> wrn page 0 xs;
             if word_of_int n \<noteq> p_filesz ph then Some (Inl EIO, v)
             else do {
               page \<leftarrow> wrn page (uint (p_filesz ph)) (replicate (unat (p_memsz ph - p_filesz ph)) 0);
               Some (Inr \<lparr>seg_vaddr = p_vaddr ph, seg_prot = seg_prot_of (p_flags ph), seg_page = page\<rparr>, v)
             }
           })"

fun load_segments ::
  "(nat \<Rightarrow> bytes option) \<Rightarrow> read_op \<Rightarrow> nat \<Rightarrow> Elf64_Ehdr \<Rightarrow> nat list \<Rightarrow> segment list \<Rightarrow> vfs \<Rightarrow> ((int + segment list) \<times> vfs) option" where
  "load_segments km rf fd eh [] segs v = Some (Inr segs, v)"
| "load_segments km rf fd eh (i # is) segs v = do {
     (_, v) \<leftarrow> vfs_seek (Some fd) (sint (e_phoff eh + of_nat i * ucast (e_phentsize eh))) 0 v;
     (n, xs, v) \<leftarrow> vfs_read rf (Some fd) 56 v;
     if n \<noteq> 56 then Some (Inl EIO, v)
     else do {
       ph \<leftarrow> phdr_of xs;
       if p_type ph = 1 then do {
         (r, v) \<leftarrow> load_segment km rf fd ph v;
         case r of Inl e \<Rightarrow> Some (Inl e, v) | Inr s \<Rightarrow> load_segments km rf fd eh is (segs @ [s]) v
       } else load_segments km rf fd eh is segs v
     }
   }"

section \<open>The stack of the new program\<close>

text \<open>Stores to user memory. The addresses are far from both ends of the address space.\<close>

definition put_bytes :: "(nat \<Rightarrow> bool) \<Rightarrow> nat \<Rightarrow> bytes \<Rightarrow> memory \<Rightarrow> memory option" where
  "put_bytes mapped a xs m =
     (if list_all mapped [a..<a + length xs] then Some (\<lambda>b. if a \<le> b \<and> b < a + length xs then xs ! (b - a) else m b) else None)"

definition le64 :: "nat \<Rightarrow> bytes" where
  "le64 v = map (\<lambda>k. of_nat (v div 256 ^ k)) [0..<8]"

definition put64 :: "(nat \<Rightarrow> bool) \<Rightarrow> nat \<Rightarrow> nat \<Rightarrow> memory \<Rightarrow> memory option" where
  "put64 mapped a v m = put_bytes mapped a (le64 v) m"

text \<open>The strings of a vector are stored one behind the other from \<open>str\<close>, their addresses from \<open>slot\<close>.\<close>

fun put_strings :: "(nat \<Rightarrow> bool) \<Rightarrow> nat \<Rightarrow> nat \<Rightarrow> bytes list \<Rightarrow> memory \<Rightarrow> (nat \<times> memory) option" where
  "put_strings mapped slot str [] m = Some (str, m)"
| "put_strings mapped slot str (s # ss) m = do {
     m \<leftarrow> put_bytes mapped str (take 255 s @ [0]) m;
     m \<leftarrow> put64 mapped slot str m;
     put_strings mapped (slot + 8) (str + min (length s) 256 + 1) ss m
   }"

record uregs =
  u_sp :: nat
  u_elr :: u64
  u_spsr :: u64
  u_r0 :: nat
  u_r1 :: nat
  u_r2 :: nat

definition STACK_TOP :: nat where "STACK_TOP = 0x0000fffffffff000"

definition build_stack :: "(nat \<Rightarrow> bool) \<Rightarrow> u64 \<Rightarrow> bytes list \<Rightarrow> bytes list \<Rightarrow> memory \<Rightarrow> (uregs \<times> memory) option" where
  "build_stack mapped entry argv envp m =
     (let argv = take 1024 argv; envp = take 1024 envp;
          n = length argv + length envp + 2;
          sp = STACK_TOP - 8 * n;
          str = sp - n * 256
      in do {
        (str, m) \<leftarrow> put_strings mapped sp str argv m;
        m \<leftarrow> put64 mapped (sp + 8 * length argv) 0 m;
        (str, m) \<leftarrow> put_strings mapped (sp + 8 * (length argv + 1)) str envp m;
        m \<leftarrow> put64 mapped (sp + 8 * (length argv + 1) + 8 * length envp) 0 m;
        Some (\<lparr>u_sp = sp, u_elr = entry, u_spsr = 0, u_r0 = length argv, u_r1 = sp, u_r2 = sp + 8 * (length argv + 1)\<rparr>, m)
      })"

record exec_state =
  es_vfs :: vfs
  es_mem :: memory
  es_regs :: uregs
  es_segs :: "segment list"

definition execve ::
  "(nat \<Rightarrow> bytes option) \<Rightarrow> read_op \<Rightarrow> (bytes \<Rightarrow> vfs_dirent option option) \<Rightarrow> (nat \<Rightarrow> bool) \<Rightarrow>
   bytes option \<Rightarrow> bytes list option \<Rightarrow> bytes list option \<Rightarrow> exec_state \<Rightarrow> (int \<times> exec_state) option" where
  "execve km rf find_path mapped pathname argv envp s =
     (let fail = (\<lambda>file e v. Some (-1, s\<lparr>es_vfs := vfs_close file (v\<lparr>errno := e\<rparr>)\<rparr>))
      in if pathname = None \<or> argv = None \<or> envp = None then fail None EINVAL (es_vfs s)
         else do {
           (file, v) \<leftarrow> vfs_open find_path pathname 0 (es_vfs s);
           case file of None \<Rightarrow> fail None ENOENT v
           | Some fd \<Rightarrow> do {
               (n, xs, v) \<leftarrow> vfs_read rf (Some fd) 64 v;
               if n \<noteq> 64 then fail file EIO v
               else do {
                 eh \<leftarrow> ehdr_of xs;
                 if \<not> valid_exec eh then fail file ENOEXEC v
                 else do {
                   (r, v) \<leftarrow> load_segments km rf fd eh [0..<unat (e_phnum eh)] [] v;
                   case r of Inl e \<Rightarrow> fail file e v
                   | Inr segs \<Rightarrow> do {
                       (regs, m) \<leftarrow> build_stack mapped (e_entry eh) (the argv) (the envp) (es_mem s);
                       Some (0, s\<lparr>es_vfs := vfs_close (Some fd) v, es_mem := m, es_regs := regs, es_segs := segs\<rparr>)
                     }
                 }
               }
             }
         })"

section \<open>Fork\<close>

text \<open>
  \<open>fork\<close> with the addresses that its two allocations return. The child is a copy of the parent, with its own
  kernel stack (whose contents are not part of the state), and is queued on this CPU.
\<close>

definition fork :: "(nat \<Rightarrow> u64 option) \<Rightarrow> nat \<Rightarrow> sched \<Rightarrow> (int \<times> sched) option" where
  "fork alloc this_cpu s =
     (case current_task s of None \<Rightarrow> None
      | Some p \<Rightarrow>
          (case alloc 0 of None \<Rightarrow> Some (-1, s)
           | Some _ \<Rightarrow>
               let s = s\<lparr>next_pid := next_pid s + 1\<rparr>
               in case alloc 1 of None \<Rightarrow> Some (-1, s)
                  | Some new_stack \<Rightarrow>
                      let parent = tasks s ! p;
                          top = new_stack + KERNEL_STACK_SIZE;
                          offs = sp_el0 parent - (stack_top parent - KERNEL_STACK_SIZE);
                          child = parent\<lparr>pid := next_pid s, tstate := TASK_READY, stack_top := top, sp_el0 := top - offs\<rparr>
                      in Some (next_pid s, enqueue_task this_cpu (length (tasks s)) (s\<lparr>tasks := tasks s @ [child]\<rparr>))))"

definition waitpid :: "int \<Rightarrow> int \<Rightarrow> int" where "waitpid p options = - 1"
definition wait :: int where "wait = waitpid (- 1) 0"

section \<open>Correctness\<close>

text \<open>Which addresses the tables of \<open>mmu_init\<close> translate.\<close>

definition mapped_by :: "layout \<Rightarrow> page_tables \<Rightarrow> sysregs \<Rightarrow> nat \<Rightarrow> bool" where
  "mapped_by l t r a \<longleftrightarrow> a < 2 ^ 64 \<and> translate (tables_mem l t) r (of_nat a) \<noteq> None"

lemma mapped_by_high:
  assumes "2 ^ 39 \<le> a" "a < 2 ^ 48"
  shows "\<not> mapped_by l t r a"
proof -
  let ?w = "of_nat a :: u64"
  have u: "unat ?w = a" using assms(2) by (simp add: unat_of_nat)
  have d: "unat (drop_bit 39 ?w) = a div 2 ^ 39" by (simp add: drop_bit_nat u)
  have "drop_bit 39 ?w \<noteq> 0" using d assms(1) by (auto simp: unat_eq_zero div_eq_0_iff)
  moreover have "a div 2 ^ 39 < 512" using assms(2) by (simp add: div_less_iff_less_mult)
  then have "drop_bit 39 ?w \<noteq> mask 25" using d by (auto simp: mask_eq_exp_minus_1)
  ultimately show ?thesis by (simp add: mapped_by_def translate_def)
qed

lemma put64_unmapped: "\<not> mapped a \<Longrightarrow> put64 mapped a v m = None"
  by (auto simp: put64_def put_bytes_def le64_def list_all_iff)

lemma build_stack_faults: "build_stack (mapped_by l t r) entry argv envp m = None"
proof -
  let ?argv = "take 1024 argv" and ?envp = "take 1024 envp"
  let ?sp = "STACK_TOP - 8 * (length ?argv + length ?envp + 2)"
  have "length ?argv \<le> 1024" "length ?envp \<le> 1024" by auto
  then have "2 ^ 39 \<le> ?sp + 8 * length ?argv" "?sp + 8 * length ?argv < 2 ^ 48" by (simp_all add: STACK_TOP_def)
  then have "put64 (mapped_by l t r) (?sp + 8 * length ?argv) 0 m' = None" for m'
    using put64_unmapped [of "mapped_by l t r"] mapped_by_high by blast
  then show ?thesis unfolding build_stack_def Let_def by (simp split: bind_splits)
qed

text \<open>On the memory map that \<open>mmu_init\<close> sets up, \<open>execve\<close> never succeeds: the stack of the new program lies above the
  addresses that the tables cover and \<open>mmu_map\<close> maps nothing, so after the header and the segments have been read the
  first store to that stack faults.\<close>

theorem execve_never_succeeds:
  "execve km rf find_path (mapped_by l t r) pathname argv envp s \<noteq> Some (0, s')"
  by (auto simp: execve_def Let_def build_stack_faults split: if_splits bind_splits option.splits sum.splits)

lemma wrn_at: "n + length ys \<le> length b \<Longrightarrow> wrn b (int n) ys = Some (take n b @ ys @ drop (n + length ys) b)"
  by (simp add: wrn_def)

lemmas wrn_front = wrn_at [of 0, simplified]

text \<open>Reading a segment: the file's bytes, and the block that they are stored in.\<close>

lemma segment_read:
  assumes "open_file rf fd body v" "unat (p_offset ph) \<le> length body"
  shows "\<exists>k v' v''. vfs_seek (Some fd) (sint (p_offset ph)) 0 v = Some (k, v') \<and>
    vfs_read rf (Some fd) (p_filesz ph) v' = Some (int (length (take (unat (p_filesz ph)) (drop (unat (p_offset ph)) body))),
      take (unat (p_filesz ph)) (drop (unat (p_offset ph)) body), v'') \<and> open_file rf fd body v''"
proof -
  have L: "length body < 2 ^ 32" using assms(1) by (simp add: open_file_def)
  have o: "sint (p_offset ph) = int (unat (p_offset ph))" using assms(2) L by (intro sint_small) simp
  have ab: "\<bar>sint (p_offset ph)\<bar> < 2 ^ 62" unfolding o using assms(2) L by (simp del: of_nat_unat)
  obtain v' where v': "vfs_seek (Some fd) (sint (p_offset ph)) 0 v = Some (int (clamp (sint (p_offset ph)) (length body)), v')"
      "open_file rf fd body v'" "file_pos fd v' = clamp (sint (p_offset ph)) (length body)"
    using vfs_seek_step [OF assms(1) ab, of "sint (p_offset ph)" 0] by auto
  have "clamp (sint (p_offset ph)) (length body) = unat (p_offset ph)" using assms(2) o by (simp add: clamp_def del: of_nat_unat)
  then show ?thesis using v' vfs_read_step [OF v'(2), of "p_filesz ph"] by auto
qed

lemma memsz_round:
  assumes "unat (p_memsz ph) < 2 ^ 32"
  shows "unat (p_memsz ph) \<le> unat ((p_memsz ph + 4096 - 1) AND NOT 4095)"
proof (cases "p_memsz ph = 0")
  case False
  then have p: "0 < unat (p_memsz ph)" by (simp add: unat_gt_0)
  have m: "(4095 :: u64) = mask 12" by (simp add: mask_eq_exp_minus_1)
  have "(p_memsz ph + 4096 - 1) AND NOT (mask 12) = push_bit 12 (drop_bit 12 (p_memsz ph + 4096 - 1))"
    by (intro bit_word_eqI) (auto simp: bit_simps)
  then have "unat ((p_memsz ph + 4096 - 1) AND NOT 4095) = unat (p_memsz ph + 4096 - 1) div 4096 * 4096"
    unfolding m by (simp add: align_nat)
  moreover have "unat (p_memsz ph + 4096 - 1) = unat (p_memsz ph) + 4095"
  proof -
    have e: "p_memsz ph + 4096 - 1 = p_memsz ph + 4095" by simp
    show ?thesis unfolding e unat_word_ariths using assms by simp
  qed
  ultimately show ?thesis by simp
qed simp

text \<open>C33. A loadable segment that lies in the file and is no larger there than in memory is loaded: the block holds its bytes
  from the file, followed by zeros up to its size in memory.\<close>

theorem segment_loaded:
  assumes "open_file rf fd body v" "unat (p_offset ph) + unat (p_filesz ph) \<le> length body"
    and "unat (p_filesz ph) \<le> unat (p_memsz ph)" "unat (p_memsz ph) < 2 ^ 32"
    and "km (unat ((p_memsz ph + 4096 - 1) AND NOT 4095)) = Some page" "length page = unat ((p_memsz ph + 4096 - 1) AND NOT 4095)"
  shows "\<exists>seg v'. load_segment km rf fd ph v = Some (Inr seg, v') \<and> seg_vaddr seg = p_vaddr ph \<and> open_file rf fd body v' \<and>
    take (unat (p_memsz ph)) (seg_page seg) =
      take (unat (p_filesz ph)) (drop (unat (p_offset ph)) body) @ replicate (unat (p_memsz ph) - unat (p_filesz ph)) 0"
proof -
  let ?xs = "take (unat (p_filesz ph)) (drop (unat (p_offset ph)) body)" and ?f = "unat (p_filesz ph)" and ?z = "unat (p_memsz ph)"
  have len: "length ?xs = ?f" using assms(2) by simp
  obtain k v1 v2 where r: "vfs_seek (Some fd) (sint (p_offset ph)) 0 v = Some (k, v1)"
      "vfs_read rf (Some fd) (p_filesz ph) v1 = Some (int ?f, ?xs, v2)" "open_file rf fd body v2"
    using segment_read [OF assms(1), of ph] assms(2) len by auto
  have zp: "?z \<le> length page" using memsz_round [OF assms(4)] assms(6) by simp
  have 1: "wrn page 0 ?xs = Some (?xs @ drop ?f page)" using wrn_front [of ?xs page] zp assms(3) len by simp
  have sub: "unat (p_memsz ph - p_filesz ph) = ?z - ?f" using assms(3) by (simp add: unat_sub word_le_nat_alt)
  have nf: "uint (p_filesz ph) = int ?f" by simp
  have 2: "wrn (?xs @ drop ?f page) (uint (p_filesz ph)) (replicate (unat (p_memsz ph - p_filesz ph)) 0) =
      Some (?xs @ replicate (?z - ?f) 0 @ drop ?z page)"
    using wrn_at [of ?f "replicate (?z - ?f) 0" "?xs @ drop ?f page"] zp assms(3) len unfolding sub nf by simp
  have "word_of_int (int ?f) = p_filesz ph" by simp
  then have "load_segment km rf fd ph v = Some (Inr \<lparr>seg_vaddr = p_vaddr ph, seg_prot = seg_prot_of (p_flags ph),
      seg_page = ?xs @ replicate (?z - ?f) 0 @ drop ?z page\<rparr>, v2)"
    using assms(5) r 1 2 by (simp add: load_segment_def)
  then show ?thesis using r(3) len assms(3) by simp
qed

text \<open>A program header whose segment is larger in the file than the block allocated for its size in memory makes
  \<open>execve\<close> write past the end of the block: there is no check of one size against the other.\<close>

theorem segment_overflow:
  assumes "open_file rf fd body v" "unat (p_offset ph) + unat (p_filesz ph) \<le> length body"
    and "km (unat ((p_memsz ph + 4096 - 1) AND NOT 4095)) = Some page" "length page < unat (p_filesz ph)"
  shows "load_segment km rf fd ph v = None"
proof -
  let ?xs = "take (unat (p_filesz ph)) (drop (unat (p_offset ph)) body)"
  have len: "length ?xs = unat (p_filesz ph)" using assms(2) by simp
  obtain k v1 v2 where r: "vfs_seek (Some fd) (sint (p_offset ph)) 0 v = Some (k, v1)"
      "vfs_read rf (Some fd) (p_filesz ph) v1 = Some (int (length ?xs), ?xs, v2)"
    using segment_read [OF assms(1), of ph] assms(2) by auto
  have "\<not> int (length ?xs) \<le> int (length page)" using assms(4) len by linarith
  then have "wrn page 0 ?xs = None" unfolding wrn_def by simp
  then show ?thesis using assms(3) r by (simp add: load_segment_def)
qed

text \<open>An open file of 200 bytes and two headers of segments in it.\<close>

definition elf_body :: bytes where
  "elf_body = replicate 100 1 @ replicate 100 2"

definition elf_vfs :: vfs where
  "elf_vfs = \<lparr>inodes = [\<lparr>i_mode = S_IFREG, i_size = 200, i_blocks = 1, i_type = 0xFF8, i_load = 0, i_exec = 0, i_sin = 7\<rparr>],
     files = [\<lparr>f_inode = 0, f_pos = 0, f_flags = 0, f_ops = Some filecore_file_ops\<rparr>], errno = 0\<rparr>"

definition elf_read :: read_op where "elf_read sn n = Some (Some elf_body)"

lemma elf_open: "open_file elf_read 0 elf_body elf_vfs"
  by (simp add: open_file_def elf_vfs_def elf_read_def elf_body_def)

lemma segment_loaded_witness:
  "\<exists>seg v'. load_segment (\<lambda>n. Some (replicate n 0xEE)) elf_read 0
      \<lparr>p_type = 1, p_flags = 5, p_offset = 90, p_vaddr = 0x400000, p_filesz = 20, p_memsz = 24\<rparr> elf_vfs = Some (Inr seg, v') \<and>
    seg_vaddr seg = 0x400000 \<and> take 24 (seg_page seg) = replicate 10 1 @ replicate 10 2 @ [0, 0, 0, 0]"
proof -
  let ?ph = "\<lparr>p_type = 1, p_flags = 5, p_offset = 90, p_vaddr = 0x400000, p_filesz = 20, p_memsz = 24\<rparr> :: Elf64_Phdr"
  have "take 20 (drop 90 elf_body) @ replicate 4 0 = replicate 10 1 @ replicate 10 2 @ [0, 0, 0, 0]" by (simp add: elf_body_def numeral_eq_Suc)
  then show ?thesis
    using segment_loaded [OF elf_open, of ?ph "\<lambda>n. Some (replicate n 0xEE)"] by (simp add: elf_body_def) blast
qed

lemma segment_overflow_witness:
  "load_segment (\<lambda>n. Some (replicate n 0xEE)) elf_read 0
     \<lparr>p_type = 1, p_flags = 5, p_offset = 0, p_vaddr = 0x400000, p_filesz = 200, p_memsz = 0\<rparr> elf_vfs = None"
proof (rule segment_overflow [OF elf_open, where page = "[]"])
  show "unat (p_offset \<lparr>p_type = 1, p_flags = 5, p_offset = 0, p_vaddr = 0x400000, p_filesz = 200, p_memsz = 0\<rparr>) +
    unat (p_filesz \<lparr>p_type = 1, p_flags = 5, p_offset = 0, p_vaddr = 0x400000, p_filesz = 200, p_memsz = 0\<rparr>) \<le> length elf_body"
    by (simp add: elf_body_def)
qed (simp_all del: numeral_less_iff length_greater_0_conv)

text \<open>
  The stack pointer of a forked child: the distance of the parent's from the bottom of its kernel stack is taken off the
  top of the child's, not added to the bottom.
\<close>

lemma fork_stack_mirrored:
  assumes "current_task s = Some p" "alloc 0 = Some a" "alloc 1 = Some new_stack" "p < length (tasks s)" "c < length (cpus s)"
    and "sp_el0 (tasks s ! p) = stack_top (tasks s ! p) - KERNEL_STACK_SIZE + offs"
    and "runqueue_tail (cpus s ! c) = Some q" "q < length (tasks s)"
  shows "\<exists>s'. fork alloc c s = Some (next_pid s + 1, s') \<and> pid (tasks s' ! length (tasks s)) = next_pid s + 1 \<and>
    sp_el0 (tasks s' ! length (tasks s)) = new_stack + KERNEL_STACK_SIZE - offs"
  using assms by (simp add: fork_def Let_def enqueue_task_def upd_task_def upd_cpu_def nth_append nth_list_update)

end
