(* ===== verification/Draw.thy ===== *)
theory Draw
  imports Prelude
begin

text \<open>
  drivers/gpu/framebuffer.c: the pixel operations, lines, circles, and the mouse pointer that saves and restores the
  pixels under it. A pixel lies at a byte offset from the base of the frame buffer; the memory of the
  screen is a function from these offsets. Coordinates and sizes are C ints far from their limits (a
  screen has at most a few thousand pixels a side), so they are integers here; \<open>y * pitch\<close> is unsigned and wraps.
\<close>

section \<open>Pixels\<close>

type_synonym pixel = u32

record framebuffer =
  fb_width :: nat
  fb_height :: nat
  fb_pitch :: nat
  fb_base :: u64
  fb_size :: u32
  fb_valid :: bool
  vmem :: "nat \<Rightarrow> pixel"

definition RGB :: "u8 \<Rightarrow> u8 \<Rightarrow> u8 \<Rightarrow> pixel" where
  "RGB r g b = 0xFF000000 OR push_bit 16 (ucast b) OR push_bit 8 (ucast g) OR ucast r"

definition COL_BLACK :: pixel where "COL_BLACK = RGB 0 0 0"
definition COL_WHITE :: pixel where "COL_WHITE = RGB 255 255 255"
definition COL_RISCOS_GREY :: pixel where "COL_RISCOS_GREY = RGB 187 187 187"

definition pixel_offset :: "framebuffer \<Rightarrow> int \<Rightarrow> int \<Rightarrow> nat" where
  "pixel_offset fb x y = (nat y * fb_pitch fb) mod 2 ^ 32 + 4 * nat x"

text \<open>The comparison as unsigned numbers refuses negative coordinates.\<close>

definition on_screen :: "framebuffer \<Rightarrow> int \<Rightarrow> int \<Rightarrow> bool" where
  "on_screen fb x y \<longleftrightarrow> fb_valid fb \<and> 0 \<le> x \<and> x < int (fb_width fb) \<and> 0 \<le> y \<and> y < int (fb_height fb)"

definition fb_set_pixel :: "int \<Rightarrow> int \<Rightarrow> pixel \<Rightarrow> framebuffer \<Rightarrow> framebuffer" where
  "fb_set_pixel x y c fb = (if on_screen fb x y then fb\<lparr>vmem := (vmem fb)(pixel_offset fb x y := c)\<rparr> else fb)"

definition fb_get_pixel :: "int \<Rightarrow> int \<Rightarrow> framebuffer \<Rightarrow> pixel" where
  "fb_get_pixel x y fb = (if on_screen fb x y then vmem fb (pixel_offset fb x y) else 0)"

definition fb_clear :: "pixel \<Rightarrow> framebuffer \<Rightarrow> framebuffer" where
  "fb_clear c fb =
     (if \<not> fb_valid fb then fb
      else fold (\<lambda>y. fold (\<lambda>x fb. fb\<lparr>vmem := (vmem fb)(pixel_offset fb (int x) (int y) := c)\<rparr>) [0..<fb_width fb]) [0..<fb_height fb] fb)"

definition fb_fill_rect :: "int \<Rightarrow> int \<Rightarrow> int \<Rightarrow> int \<Rightarrow> pixel \<Rightarrow> framebuffer \<Rightarrow> framebuffer" where
  "fb_fill_rect x y w h c fb = fold (\<lambda>r. fold (\<lambda>col. fb_set_pixel col r c) [x..x + w - 1]) [y..y + h - 1] fb"

definition fb_draw_rect :: "int \<Rightarrow> int \<Rightarrow> int \<Rightarrow> int \<Rightarrow> pixel \<Rightarrow> framebuffer \<Rightarrow> framebuffer" where
  "fb_draw_rect x y w h c fb =
     fb_fill_rect (x + w - 1) y 1 h c (fb_fill_rect x y 1 h c (fb_fill_rect x (y + h - 1) w 1 c (fb_fill_rect x y w 1 c fb)))"

section \<open>Lines and circles\<close>

text \<open>The loop of \<open>fb_draw_line\<close>, which ends only at the end point.\<close>

partial_function (option) line_loop ::
  "int \<Rightarrow> int \<Rightarrow> int \<Rightarrow> int \<Rightarrow> int \<Rightarrow> int \<Rightarrow> int \<Rightarrow> int \<Rightarrow> int \<Rightarrow> pixel \<Rightarrow> framebuffer \<Rightarrow> framebuffer option" where
  "line_loop dx dy sx sy x1 y1 x0 y0 e c fb =
     (let fb = fb_set_pixel x0 y0 c fb
      in if x0 = x1 \<and> y0 = y1 then Some fb
         else
           let e2 = 2 * e;
               (e, x0) = (if e2 > - dy then (e - dy, x0 + sx) else (e, x0));
               (e, y0) = (if e2 < dx then (e + dx, y0 + sy) else (e, y0))
           in line_loop dx dy sx sy x1 y1 x0 y0 e c fb)"

declare line_loop.simps [code]

definition fb_draw_line :: "int \<Rightarrow> int \<Rightarrow> int \<Rightarrow> int \<Rightarrow> pixel \<Rightarrow> framebuffer \<Rightarrow> framebuffer option" where
  "fb_draw_line x0 y0 x1 y1 c fb =
     (let dx = (if x1 > x0 then x1 - x0 else x0 - x1); dy = (if y1 > y0 then y1 - y0 else y0 - y1);
          sx = (if x0 < x1 then 1 else - 1); sy = (if y0 < y1 then 1 else - 1)
      in line_loop dx dy sx sy x1 y1 x0 y0 (dx - dy) c fb)"

definition octants :: "int \<Rightarrow> int \<Rightarrow> int \<Rightarrow> int \<Rightarrow> pixel \<Rightarrow> framebuffer \<Rightarrow> framebuffer" where
  "octants cx cy x y c fb =
     fold (\<lambda>(px, py). fb_set_pixel px py c)
       [(cx + x, cy + y), (cx - x, cy + y), (cx + x, cy - y), (cx - x, cy - y),
        (cx + y, cy + x), (cx - y, cy + x), (cx + y, cy - x), (cx - y, cy - x)] fb"

function circle_loop :: "int \<Rightarrow> int \<Rightarrow> int \<Rightarrow> int \<Rightarrow> int \<Rightarrow> pixel \<Rightarrow> framebuffer \<Rightarrow> framebuffer" where
  "circle_loop cx cy x y d c fb =
     (if x \<le> y then
        let fb = octants cx cy x y c fb
        in if d < 0 then circle_loop cx cy (x + 1) y (d + 2 * x + 3) c fb
           else circle_loop cx cy (x + 1) (y - 1) (d + 2 * (x - y) + 5) c fb
      else fb)"
  by pat_completeness auto
termination
  by (relation "measure (\<lambda>(cx, cy, x, y, d, c, fb). nat (y - x + 1))") auto

declare circle_loop.simps [simp del]

definition fb_draw_circle :: "int \<Rightarrow> int \<Rightarrow> int \<Rightarrow> pixel \<Rightarrow> framebuffer \<Rightarrow> framebuffer" where
  "fb_draw_circle cx cy r c fb = circle_loop cx cy 0 r (1 - r) c fb"

section \<open>The mouse pointer\<close>

record cursor =
  cursor_save :: "pixel list list"
  cursor_sx :: int
  cursor_sy :: int
  cursor_visible :: bool

definition CURSOR_PX_W :: int where "CURSOR_PX_W = 16"
definition CURSOR_PX_H :: int where "CURSOR_PX_H = 20"
definition CURSOR_SAVE_W :: nat where "CURSOR_SAVE_W = 18"
definition CURSOR_SAVE_H :: nat where "CURSOR_SAVE_H = 22"

definition cursor_fill_bits :: bytes where
  "cursor_fill_bits = [0x80, 0xC0, 0xE0, 0xF0, 0xF8, 0xFC, 0xC0, 0xC0, 0xC0, 0xC0]"

definition cursor_boot :: cursor where
  "cursor_boot = \<lparr>cursor_save = replicate CURSOR_SAVE_H (replicate CURSOR_SAVE_W 0), cursor_sx = - 1, cursor_sy = - 1, cursor_visible = False\<rparr>"

definition cursor_restore :: "framebuffer \<Rightarrow> cursor \<Rightarrow> framebuffer \<times> cursor" where
  "cursor_restore fb cu =
     (if cursor_sx cu < 0 then (fb, cu)
      else (fold (\<lambda>r. fold (\<lambda>c. fb_set_pixel (cursor_sx cu + int c) (cursor_sy cu + int r) (cursor_save cu ! r ! c)) [0..<CURSOR_SAVE_W])
              [0..<CURSOR_SAVE_H] fb,
            cu\<lparr>cursor_sx := - 1, cursor_sy := - 1\<rparr>))"

text \<open>Whether the screen pixel in row \<open>r\<close> and column \<open>c\<close> of the pointer, drawn at twice its size, belongs to the arrow.\<close>

definition cursor_fill :: "int \<Rightarrow> int \<Rightarrow> bool" where
  "cursor_fill r c \<longleftrightarrow> 0 \<le> r \<and> r < CURSOR_PX_H \<and> 0 \<le> c \<and> c < CURSOR_PX_W \<and>
     bit (cursor_fill_bits ! nat (r div 2)) (7 - nat (c div 2))"

definition cursor_border :: "int \<Rightarrow> int \<Rightarrow> bool" where
  "cursor_border r c \<longleftrightarrow> list_ex (\<lambda>dr. list_ex (\<lambda>dc. cursor_fill (r + dr) (c + dc)) [- 1, 0, 1]) [- 1, 0, 1]"

definition cursor_halo :: "int \<Rightarrow> int \<Rightarrow> framebuffer \<Rightarrow> framebuffer" where
  "cursor_halo x y fb =
     fold (\<lambda>sr. fold (\<lambda>sc fb. if \<not> cursor_fill sr sc \<and> cursor_border sr sc then fb_set_pixel (x + sc) (y + sr) COL_WHITE fb else fb)
       [- 1..CURSOR_PX_W]) [- 1..CURSOR_PX_H] fb"

definition cursor_arrow :: "int \<Rightarrow> int \<Rightarrow> framebuffer \<Rightarrow> framebuffer" where
  "cursor_arrow x y fb =
     fold (\<lambda>r. fold (\<lambda>c fb. if bit (cursor_fill_bits ! r) (7 - c) then fb_fill_rect (x + int c * 2) (y + int r * 2) 2 2 COL_BLACK fb else fb)
       [0..<8]) [0..<10] fb"

definition cursor_blit :: "int \<Rightarrow> int \<Rightarrow> framebuffer \<Rightarrow> cursor \<Rightarrow> framebuffer \<times> cursor" where
  "cursor_blit x y fb cu =
     (let saved = map (\<lambda>r. map (\<lambda>c. fb_get_pixel (x - 1 + int c) (y - 1 + int r) fb) [0..<CURSOR_SAVE_W]) [0..<CURSOR_SAVE_H];
          cu = cu\<lparr>cursor_save := saved, cursor_sx := x - 1, cursor_sy := y - 1\<rparr>
      in (cursor_arrow x y (cursor_halo x y fb), cu))"

definition cursor_init :: "cursor \<Rightarrow> cursor" where
  "cursor_init cu = cu\<lparr>cursor_sx := - 1, cursor_sy := - 1, cursor_visible := True\<rparr>"

definition cursor_update :: "int \<Rightarrow> int \<Rightarrow> framebuffer \<times> cursor \<Rightarrow> framebuffer \<times> cursor" where
  "cursor_update x y = (\<lambda>(fb, cu).
     if \<not> fb_valid fb \<or> \<not> cursor_visible cu then (fb, cu)
     else
       let x = (if x < 0 then 0 else x); y = (if y < 0 then 0 else y);
           x = (if x \<ge> int (fb_width fb) then int (fb_width fb) - 1 else x);
           y = (if y \<ge> int (fb_height fb) then int (fb_height fb) - 1 else y)
       in if cursor_sx cu = x - 1 \<and> cursor_sy cu = y - 1 then (fb, cu)
          else let (fb, cu) = cursor_restore fb cu in cursor_blit x y fb cu)"

definition cursor_show :: "cursor \<Rightarrow> cursor" where
  "cursor_show cu = cu\<lparr>cursor_visible := True\<rparr>"

definition cursor_hide :: "framebuffer \<times> cursor \<Rightarrow> framebuffer \<times> cursor" where
  "cursor_hide = (\<lambda>(fb, cu). let (fb, cu) = cursor_restore fb cu in (fb, cu\<lparr>cursor_visible := False\<rparr>))"

section \<open>What drawing does to the pixels\<close>

text \<open>Rows do not overlap and the offsets do not wrap.\<close>

definition fb_ok :: "framebuffer \<Rightarrow> bool" where
  "fb_ok fb \<longleftrightarrow> 4 * fb_width fb \<le> fb_pitch fb \<and> fb_height fb * fb_pitch fb \<le> 2 ^ 32"

lemma pixel_offset_inj:
  assumes "fb_ok fb" "on_screen fb x y" "on_screen fb x' y'" "pixel_offset fb x y = pixel_offset fb x' y'"
  shows "x = x' \<and> y = y'"
proof -
  have lin: "nat b * fb_pitch fb + fb_pitch fb \<le> 2 ^ 32" if "on_screen fb a b" for a b
  proof -
    have "Suc (nat b) * fb_pitch fb \<le> fb_height fb * fb_pitch fb" using that by (intro mult_le_mono1) (auto simp: on_screen_def)
    then show ?thesis using assms(1) by (simp add: fb_ok_def)
  qed
  have x: "4 * nat a < fb_pitch fb" if "on_screen fb a b" for a b using that assms(1) by (auto simp: on_screen_def fb_ok_def)
  have off: "pixel_offset fb a b = nat b * fb_pitch fb + 4 * nat a" if "on_screen fb a b" for a b
    using lin [OF that] x [OF that] by (simp add: pixel_offset_def)
  let ?p = "fb_pitch fb"
  have e: "nat y * ?p + 4 * nat x = nat y' * ?p + 4 * nat x'" using assms(4) off assms(2,3) by simp
  have d: "(nat b * ?p + 4 * nat a) div ?p = nat b" if "on_screen fb a b" for a b
    using x [OF that] by (simp add: div_mult_self3)
  have "(nat y * ?p + 4 * nat x) div ?p = nat y" "(nat y' * ?p + 4 * nat x') div ?p = nat y'" by (rule d [OF assms(2)], rule d [OF assms(3)])
  then have "nat y = nat y'" using e by metis
  then show ?thesis using e assms(2,3) by (auto simp: on_screen_def)
qed

lemma geometry_set [simp]:
  "fb_pitch (fb_set_pixel x y c fb) = fb_pitch fb" "fb_valid (fb_set_pixel x y c fb) = fb_valid fb"
  "fb_width (fb_set_pixel x y c fb) = fb_width fb" "fb_height (fb_set_pixel x y c fb) = fb_height fb"
  by (simp_all add: fb_set_pixel_def)

lemma on_screen_set [simp]: "on_screen (fb_set_pixel x y c fb) = on_screen fb"
  by (simp add: fun_eq_iff on_screen_def)

lemma fb_ok_set [simp]: "fb_ok (fb_set_pixel x y c fb) = fb_ok fb"
  by (simp add: fb_ok_def)

lemma get_set:
  assumes "fb_ok fb"
  shows "fb_get_pixel x y (fb_set_pixel x' y' c fb) = (if x = x' \<and> y = y' \<and> on_screen fb x y then c else fb_get_pixel x y fb)"
  using pixel_offset_inj [OF assms, of x y x' y']
  by (auto simp: fb_get_pixel_def fb_set_pixel_def on_screen_def pixel_offset_def)

text \<open>Every drawing operation is a sequence of points with their colours.\<close>

definition plot :: "(int \<times> int \<times> pixel) list \<Rightarrow> framebuffer \<Rightarrow> framebuffer" where
  "plot ps = fold (\<lambda>(x, y, c). fb_set_pixel x y c) ps"

lemma plot_simps [simp]: "plot [] fb = fb" "plot ((x, y, c) # ps) fb = plot ps (fb_set_pixel x y c fb)"
  "plot (ps @ qs) fb = plot qs (plot ps fb)"
  by (simp_all add: plot_def)

lemma plot_geometry [simp]:
  "fb_ok (plot ps fb) = fb_ok fb" "on_screen (plot ps fb) = on_screen fb" "fb_valid (plot ps fb) = fb_valid fb"
  "fb_width (plot ps fb) = fb_width fb" "fb_height (plot ps fb) = fb_height fb"
proof -
  have p: "fb_pitch (plot ps fb) = fb_pitch fb \<and> fb_valid (plot ps fb) = fb_valid fb \<and>
      fb_width (plot ps fb) = fb_width fb \<and> fb_height (plot ps fb) = fb_height fb"
  proof (induction ps arbitrary: fb)
    case (Cons p ps)
    then show ?case by (cases p) simp
  qed simp
  then have "fb_ok (plot ps fb) = fb_ok fb" "on_screen (plot ps fb) = on_screen fb" by (simp_all add: fb_ok_def on_screen_def fun_eq_iff)
  with p show "fb_ok (plot ps fb) = fb_ok fb" "on_screen (plot ps fb) = on_screen fb" "fb_valid (plot ps fb) = fb_valid fb"
    "fb_width (plot ps fb) = fb_width fb" "fb_height (plot ps fb) = fb_height fb" by blast+
qed

lemma plot_missed:
  "fb_ok fb \<Longrightarrow> (x, y) \<notin> (\<lambda>(a, b, c). (a, b)) ` set ps \<Longrightarrow> fb_get_pixel x y (plot ps fb) = fb_get_pixel x y fb"
proof (induction ps arbitrary: fb)
  case (Cons p ps)
  obtain a b c where p: "p = (a, b, c)" by (rule prod_cases3)
  have "(x, y) \<notin> (\<lambda>(a, b, c). (a, b)) ` set ps" "(a, b) \<noteq> (x, y)" using Cons.prems(2) p by auto
  then show ?case using Cons.IH [of "fb_set_pixel a b c fb"] Cons.prems(1) get_set [of fb x y a b c] p by (simp split: if_splits) blast
qed simp

lemma plot_hit:
  assumes "fb_ok fb" "on_screen fb x y" "(x, y, c) \<in> set ps" "\<And>c'. (x, y, c') \<in> set ps \<Longrightarrow> c' = c"
  shows "fb_get_pixel x y (plot ps fb) = c"
proof -
  from split_list_last [OF assms(3)] obtain qs rs where ps: "ps = qs @ (x, y, c) # rs" "(x, y, c) \<notin> set rs" by blast
  have "(x, y, c') \<notin> set rs" for c' using assms(4) [of c'] ps by auto
  then have "(x, y) \<notin> (\<lambda>(a, b, c). (a, b)) ` set rs" by (auto simp: image_iff)
  then show ?thesis using ps(1) assms(1,2) by (simp add: plot_missed get_set)
qed

text \<open>The two cases together: the points are all of one rectangle and carry the colours of \<open>f\<close>.\<close>

lemma get_plot:
  assumes "fb_ok fb" "\<And>a b c. (a, b, c) \<in> set ps \<Longrightarrow> c = f a b"
  shows "fb_get_pixel x y (plot ps fb) =
    (if on_screen fb x y \<and> (x, y) \<in> (\<lambda>(a, b, c). (a, b)) ` set ps then f x y else fb_get_pixel x y fb)"
proof (cases "(x, y) \<in> (\<lambda>(a, b, c). (a, b)) ` set ps")
  case True
  then have "(x, y, f x y) \<in> set ps" using assms(2) by force
  then have "fb_get_pixel x y (plot ps fb) = f x y" if "on_screen fb x y" using plot_hit [OF assms(1) that] assms(2) by blast
  moreover have "fb_get_pixel x y (plot ps fb) = fb_get_pixel x y fb" if "\<not> on_screen fb x y" using that by (simp add: fb_get_pixel_def)
  ultimately show ?thesis using True by simp
qed (simp add: plot_missed assms(1))

lemma fold_plot: "(\<And>a fb. f a fb = plot (g a) fb) \<Longrightarrow> fold f xs fb = plot (concat (map g xs)) fb"
  by (induction xs arbitrary: fb) simp_all

lemma fill_rect_plot: "fb_fill_rect x y w h c fb = plot (concat (map (\<lambda>r. map (\<lambda>col. (col, r, c)) [x..x + w - 1]) [y..y + h - 1])) fb"
proof -
  have row: "fold (\<lambda>col. fb_set_pixel col r c) xs fb = plot (map (\<lambda>col. (col, r, c)) xs) fb" for r xs fb
    by (induction xs arbitrary: fb) simp_all
  show ?thesis unfolding fb_fill_rect_def by (rule fold_plot) (rule row)
qed

lemma get_fill_rect:
  assumes "fb_ok fb"
  shows "fb_get_pixel x y (fb_fill_rect x0 y0 w h c fb) =
    (if on_screen fb x y \<and> x0 \<le> x \<and> x < x0 + w \<and> y0 \<le> y \<and> y < y0 + h then c else fb_get_pixel x y fb)"
proof -
  let ?ps = "concat (map (\<lambda>r. map (\<lambda>col. (col, r, c)) [x0..x0 + w - 1]) [y0..y0 + h - 1])"
  have "set ?ps = {(a, b, c) | a b. x0 \<le> a \<and> a < x0 + w \<and> y0 \<le> b \<and> b < y0 + h}" by fastforce
  then have "(x, y) \<in> (\<lambda>(a, b, c). (a, b)) ` set ?ps \<longleftrightarrow> x0 \<le> x \<and> x < x0 + w \<and> y0 \<le> y \<and> y < y0 + h"
    by (force simp: image_iff)
  then show ?thesis unfolding fill_rect_plot by (subst get_plot [OF assms, where f = "\<lambda>_ _. c"]) auto
qed

section \<open>Lines\<close>

text \<open>
  After \<open>i\<close> steps in x and \<open>j\<close> in y the point is off the ideal line by \<open>i * dy - j * dx\<close>, in units of the longer side;
  the loop keeps that at no more than half a pixel.
\<close>

definition near_line :: "int \<Rightarrow> int \<Rightarrow> int \<Rightarrow> int \<Rightarrow> bool" where
  "near_line dx dy i j \<longleftrightarrow>
     (dy < dx \<longrightarrow> - dx < 2 * (i * dy - j * dx) \<and> 2 * (i * dy - j * dx) \<le> dx) \<and>
     (dx < dy \<longrightarrow> - dy < 2 * (j * dx - i * dy) \<and> 2 * (j * dx - i * dy) \<le> dy) \<and> (dx = dy \<longrightarrow> i = j)"

definition major :: "int \<Rightarrow> int \<Rightarrow> int \<Rightarrow> int \<Rightarrow> int" where
  "major dx dy i j = (if dy \<le> dx then i else j)"

lemma half_zero: "(d::int) > 0 \<Longrightarrow> - d < 2 * (d * t) \<Longrightarrow> 2 * (d * t) \<le> d \<Longrightarrow> t = 0"
proof (rule ccontr)
  assume d: "d > 0" and b: "- d < 2 * (d * t)" "2 * (d * t) \<le> d" and "t \<noteq> 0"
  then consider "1 \<le> t" | "t \<le> - 1" by linarith
  then show False using mult_left_mono [of 1 t d] mult_left_mono [of t "- 1" d] d b by cases linarith+
qed

lemma near_line_end:
  assumes "near_line dx dy i j" "0 \<le> dx" "0 \<le> dy" "major dx dy i j = max dx dy"
  shows "i = dx \<and> j = dy"
proof -
  consider "dy < dx" | "dx < dy" | "dx = dy" by linarith
  then show ?thesis
  proof cases
    case 1
    then have "i = dx" using assms(4) by (simp add: major_def)
    then have "2 * (i * dy - j * dx) = 2 * (dx * (dy - j))" by (simp add: algebra_simps)
    then show ?thesis using half_zero [of dx "dy - j"] 1 assms \<open>i = dx\<close> by (simp add: near_line_def)
  next
    case 2
    then have "j = dy" using assms(4) by (simp add: major_def)
    then have "2 * (j * dx - i * dy) = 2 * (dy * (dx - i))" by (simp add: algebra_simps)
    then show ?thesis using half_zero [of dy "dx - i"] 2 assms \<open>j = dy\<close> by (simp add: near_line_def)
  next
    case 3
    then show ?thesis using assms by (simp add: near_line_def major_def)
  qed
qed

lemma near_line_step:
  assumes "near_line dx dy i j" "0 \<le> dx" "0 \<le> dy" "0 \<le> major dx dy i j" "major dx dy i j < max dx dy" and e: "e = dx - dy - i * dy + j * dx"
  defines "i' \<equiv> if 2 * e > - dy then i + 1 else i" and "j' \<equiv> if 2 * e < dx then j + 1 else j"
  shows "near_line dx dy i' j' \<and> major dx dy i' j' = major dx dy i j + 1"
proof -
  have f: "(i + 1) * dy = i * dy + dy" "(j + 1) * dx = j * dx + dx" by (simp_all add: algebra_simps)
  consider "dy < dx" | "dx < dy" | "dx = dy" "i = j" "dx > 0" using assms(1,4,5) unfolding near_line_def major_def by (cases "dx = dy") force+
  then show ?thesis
  proof cases
    case 1
    then have "2 * e > - dy" using assms(1) e by (simp add: near_line_def)
    then show ?thesis using 1 assms(1,3) e unfolding i'_def j'_def by (simp add: near_line_def major_def f; linarith)
  next
    case 2
    then have "2 * e < dx" using assms(1) e by (simp add: near_line_def)
    then show ?thesis using 2 assms(1,2) e unfolding i'_def j'_def by (simp add: near_line_def major_def f; linarith)
  next
    case 3
    then have "e = 0" using e by simp
    then show ?thesis using 3 unfolding i'_def j'_def by (simp add: near_line_def major_def)
  qed
qed

lemma line_loop_points:
  assumes "\<bar>sx\<bar> = 1" "\<bar>sy\<bar> = 1" "0 \<le> dx" "0 \<le> dy"
  shows "near_line dx dy i j \<Longrightarrow> 0 \<le> major dx dy i j \<Longrightarrow> major dx dy i j \<le> max dx dy \<Longrightarrow> n = nat (max dx dy - major dx dy i j) \<Longrightarrow>
    \<exists>qs. line_loop dx dy sx sy (x0 + sx * dx) (y0 + sy * dy) (x0 + sx * i) (y0 + sy * j) (dx - dy - i * dy + j * dx) c fb =
        Some (plot (map (\<lambda>(i, j). (x0 + sx * i, y0 + sy * j, c)) qs) fb) \<and>
      length qs = n + 1 \<and> hd qs = (i, j) \<and> last qs = (dx, dy) \<and> list_all (\<lambda>(i, j). near_line dx dy i j) qs \<and>
      successively (\<lambda>(i, j) (i', j'). i' - i \<in> {0, 1} \<and> j' - j \<in> {0, 1}) qs"
proof (induction n arbitrary: i j fb)
  case 0
  then have "major dx dy i j = max dx dy" by linarith
  then have "i = dx \<and> j = dy" using near_line_end [OF 0(1) assms(3,4)] by blast
  then show ?case using 0 by (intro exI [of _ "[(dx, dy)]"]) (subst line_loop.simps, simp)
next
  case (Suc n)
  let ?e = "dx - dy - i * dy + j * dx"
  let ?i = "if 2 * ?e > - dy then i + 1 else i" and ?j = "if 2 * ?e < dx then j + 1 else j"
  have lt: "major dx dy i j < max dx dy" using Suc.prems by linarith
  have step: "near_line dx dy ?i ?j" "major dx dy ?i ?j = major dx dy i j + 1"
    using near_line_step [OF Suc.prems(1) assms(3,4) Suc.prems(2) lt refl] by blast+
  have "\<not> (i = dx \<and> j = dy)" using lt by (auto simp: major_def max_def split: if_splits)
  then have ne: "\<not> (x0 + sx * i = x0 + sx * dx \<and> y0 + sy * j = y0 + sy * dy)" using assms(1,2) by auto
  let ?fb = "fb_set_pixel (x0 + sx * i) (y0 + sy * j) c fb"
  have l: "line_loop dx dy sx sy (x0 + sx * dx) (y0 + sy * dy) (x0 + sx * i) (y0 + sy * j) ?e c fb =
      line_loop dx dy sx sy (x0 + sx * dx) (y0 + sy * dy) (x0 + sx * ?i) (y0 + sy * ?j) (dx - dy - ?i * dy + ?j * dx) c ?fb"
    using ne by (subst line_loop.simps) (auto simp: Let_def algebra_simps)
  have "n = nat (max dx dy - major dx dy ?i ?j)" using Suc.prems(4) step(2) by linarith
  from Suc.IH [OF step(1) _ _ this, of ?fb] obtain qs where qs:
    "line_loop dx dy sx sy (x0 + sx * dx) (y0 + sy * dy) (x0 + sx * ?i) (y0 + sy * ?j) (dx - dy - ?i * dy + ?j * dx) c ?fb =
       Some (plot (map (\<lambda>(i, j). (x0 + sx * i, y0 + sy * j, c)) qs) ?fb)"
    "length qs = n + 1" "hd qs = (?i, ?j)" "last qs = (dx, dy)" "list_all (\<lambda>(i, j). near_line dx dy i j) qs"
    "successively (\<lambda>(i, j) (i', j'). i' - i \<in> {0, 1} \<and> j' - j \<in> {0, 1}) qs"
    using lt step(2) Suc.prems(2) by fastforce
  then have "qs \<noteq> []" by auto
  then have "successively (\<lambda>(i, j) (i', j'). i' - i \<in> {0, 1} \<and> j' - j \<in> {0, 1}) ((i, j) # qs)"
    using qs(3,6) by (simp add: successively_Cons)
  then show ?case using l qs Suc.prems(1) \<open>qs \<noteq> []\<close> by (intro exI [of _ "(i, j) # qs"]) simp
qed


section \<open>The pointer leaves the screen as it was\<close>

definition in_area :: "int \<Rightarrow> int \<Rightarrow> int \<Rightarrow> int \<Rightarrow> bool" where
  "in_area sx sy a b \<longleftrightarrow> sx \<le> a \<and> a < sx + 18 \<and> sy \<le> b \<and> b < sy + 22"

lemma fold_area:
  assumes "\<And>a fb. a \<in> set xs \<Longrightarrow> \<exists>ps. f a fb = plot ps fb \<and> list_all (\<lambda>(a, b, c). in_area sx sy a b) ps"
  shows "\<exists>ps. fold f xs fb = plot ps fb \<and> list_all (\<lambda>(a, b, c). in_area sx sy a b) ps"
  using assms
proof (induction xs arbitrary: fb)
  case Nil
  then show ?case by (intro exI [of _ "[]"]) simp
next
  case (Cons x xs)
  obtain ps where ps: "f x fb = plot ps fb" "list_all (\<lambda>(a, b, c). in_area sx sy a b) ps" using Cons.prems [of x fb] by auto
  obtain qs where qs: "fold f xs (plot ps fb) = plot qs (plot ps fb)" "list_all (\<lambda>(a, b, c). in_area sx sy a b) qs"
    using Cons.IH [OF Cons.prems] by force
  then show ?case using ps by (intro exI [of _ "ps @ qs"]) simp
qed

lemma set_pixel_area: "in_area sx sy a b \<Longrightarrow> \<exists>ps. fb_set_pixel a b c fb = plot ps fb \<and> list_all (\<lambda>(a, b, c). in_area sx sy a b) ps"
  by (intro exI [of _ "[(a, b, c)]"]) simp

lemma skip_area: "\<exists>ps. fb = plot ps fb \<and> list_all (\<lambda>(a, b, c). in_area sx sy a b) ps"
  by (intro exI [of _ "[]"]) simp

lemma halo_area: "\<exists>ps. cursor_halo x y fb = plot ps fb \<and> list_all (\<lambda>(a, b, c). in_area (x - 1) (y - 1) a b) ps"
  unfolding cursor_halo_def
proof (rule fold_area, rule fold_area)
  fix sr sc fb assume "sr \<in> set [- 1..CURSOR_PX_H]" "sc \<in> set [- 1..CURSOR_PX_W]"
  then have "in_area (x - 1) (y - 1) (x + sc) (y + sr)" by (simp add: in_area_def CURSOR_PX_W_def CURSOR_PX_H_def)
  then show "\<exists>ps. (if \<not> cursor_fill sr sc \<and> cursor_border sr sc then fb_set_pixel (x + sc) (y + sr) COL_WHITE fb else fb) = plot ps fb \<and>
      list_all (\<lambda>(a, b, c). in_area (x - 1) (y - 1) a b) ps"
    using set_pixel_area skip_area by simp
qed

lemma arrow_area: "\<exists>ps. cursor_arrow x y fb = plot ps fb \<and> list_all (\<lambda>(a, b, c). in_area (x - 1) (y - 1) a b) ps"
  unfolding cursor_arrow_def
proof (rule fold_area, rule fold_area)
  fix r c fb assume "r \<in> set [0..<10]" "c \<in> set [0..<8]"
  then have "\<exists>ps. fb_fill_rect (x + int c * 2) (y + int r * 2) 2 2 COL_BLACK fb = plot ps fb \<and> list_all (\<lambda>(a, b, c). in_area (x - 1) (y - 1) a b) ps"
    unfolding fb_fill_rect_def by (intro fold_area set_pixel_area) (auto simp: in_area_def)
  then show "\<exists>ps. (if bit (cursor_fill_bits ! r) (7 - c) then fb_fill_rect (x + int c * 2) (y + int r * 2) 2 2 COL_BLACK fb else fb) = plot ps fb \<and>
      list_all (\<lambda>(a, b, c). in_area (x - 1) (y - 1) a b) ps"
    using skip_area by simp
qed

definition saved_pixels :: "framebuffer \<Rightarrow> int \<Rightarrow> int \<Rightarrow> pixel list list" where
  "saved_pixels fb sx sy = map (\<lambda>r. map (\<lambda>c. fb_get_pixel (sx + int c) (sy + int r) fb) [0..<CURSOR_SAVE_W]) [0..<CURSOR_SAVE_H]"

text \<open>The state while the pointer is on a screen that would be \<open>fb0\<close> without it.\<close>

definition pointer_over :: "framebuffer \<Rightarrow> framebuffer \<times> cursor \<Rightarrow> bool" where
  "pointer_over fb0 = (\<lambda>(fb, cu).
     fb_ok fb \<and> on_screen fb = on_screen fb0 \<and> fb_width fb = fb_width fb0 \<and> fb_height fb = fb_height fb0 \<and> fb_valid fb = fb_valid fb0 \<and>
     (if cursor_sx cu < 0 then \<forall>x y. fb_get_pixel x y fb = fb_get_pixel x y fb0
      else cursor_save cu = saved_pixels fb0 (cursor_sx cu) (cursor_sy cu) \<and>
        (\<forall>x y. \<not> in_area (cursor_sx cu) (cursor_sy cu) x y \<longrightarrow> fb_get_pixel x y fb = fb_get_pixel x y fb0)))"

lemma restore_pixels:
  assumes "pointer_over fb0 (fb, cu)" "cursor_restore fb cu = (fb', cu')"
  shows "pointer_over fb0 (fb', cu')" "cursor_sx cu' < 0" "cursor_visible cu' = cursor_visible cu"
    "\<And>x y. fb_get_pixel x y fb' = fb_get_pixel x y fb0"
proof -
  have all: "pointer_over fb0 (fb', cu') \<and> cursor_sx cu' < 0 \<and> cursor_visible cu' = cursor_visible cu \<and>
      (\<forall>x y. fb_get_pixel x y fb' = fb_get_pixel x y fb0)"
  proof (cases "cursor_sx cu < 0")
    case True
    then show ?thesis using assms by (auto simp: cursor_restore_def pointer_over_def)
  next
    case False
    let ?sx = "cursor_sx cu" and ?sy = "cursor_sy cu"
    define ps where "ps = concat (map (\<lambda>r. map (\<lambda>c. (?sx + int c, ?sy + int r, cursor_save cu ! r ! c)) [0..<CURSOR_SAVE_W]) [0..<CURSOR_SAVE_H])"
    have row: "fold (\<lambda>c. fb_set_pixel (?sx + int c) (?sy + int r) (cursor_save cu ! r ! c)) xs g = plot (map (\<lambda>c. (?sx + int c, ?sy + int r, cursor_save cu ! r ! c)) xs) g" for r xs g
      by (induction xs arbitrary: g) simp_all
    have fb': "fb' = plot ps fb" "cu' = cu\<lparr>cursor_sx := - 1, cursor_sy := - 1\<rparr>"
      using assms(2) False by (auto simp: cursor_restore_def ps_def fold_plot [OF row])
    have col: "c = fb_get_pixel a b fb0" if "(a, b, c) \<in> set ps" for a b c
      using that assms(1) False by (auto simp: ps_def pointer_over_def saved_pixels_def)
    have area: "(x, y) \<in> (\<lambda>(a, b, c). (a, b)) ` set ps" if "in_area ?sx ?sy x y" for x y
    proof -
      have "(x, y, cursor_save cu ! nat (y - ?sy) ! nat (x - ?sx)) \<in> set ps"
      proof -
        have "(?sx + int (nat (x - ?sx)), ?sy + int (nat (y - ?sy)), cursor_save cu ! nat (y - ?sy) ! nat (x - ?sx)) \<in> set ps"
          using that unfolding ps_def by (simp add: in_area_def CURSOR_SAVE_W_def CURSOR_SAVE_H_def del: upt_rec_numeral) force
        then show ?thesis using that by (simp add: in_area_def)
      qed
      then show ?thesis by force
    qed
    have "fb_get_pixel x y fb' = fb_get_pixel x y fb0" for x y
    proof -
      have ok: "fb_ok fb" "on_screen fb x y = on_screen fb0 x y" "\<not> in_area ?sx ?sy x y \<longrightarrow> fb_get_pixel x y fb = fb_get_pixel x y fb0"
        using assms(1) False by (auto simp: pointer_over_def)
      have "fb_get_pixel x y fb' = (if on_screen fb x y \<and> (x, y) \<in> (\<lambda>(a, b, c). (a, b)) ` set ps then fb_get_pixel x y fb0 else fb_get_pixel x y fb)"
        unfolding fb'(1) by (rule get_plot [OF ok(1) col])
      moreover have "fb_get_pixel x y fb = fb_get_pixel x y fb0" if "\<not> on_screen fb x y" using that ok(2) by (simp add: fb_get_pixel_def)
      ultimately show ?thesis using area ok(3) by auto
    qed
    then show ?thesis using assms(1) fb' by (simp add: pointer_over_def)
  qed
  then show "pointer_over fb0 (fb', cu')" "cursor_sx cu' < 0" "cursor_visible cu' = cursor_visible cu"
    "\<And>x y. fb_get_pixel x y fb' = fb_get_pixel x y fb0" by blast+
qed

lemma blit_pixels:
  assumes "pointer_over fb0 (fb, cu)" "cursor_sx cu < 0" "1 \<le> x" "cursor_blit x y fb cu = (fb', cu')"
  shows "pointer_over fb0 (fb', cu')" "cursor_visible cu' = cursor_visible cu"
proof -
  obtain ps where ps: "cursor_halo x y fb = plot ps fb" "list_all (\<lambda>(a, b, c). in_area (x - 1) (y - 1) a b) ps" using halo_area by blast
  obtain qs where qs: "cursor_arrow x y (plot ps fb) = plot qs (plot ps fb)" "list_all (\<lambda>(a, b, c). in_area (x - 1) (y - 1) a b) qs"
    using arrow_area by blast
  have fb': "fb' = plot (ps @ qs) fb" and cu': "cu' = cu\<lparr>cursor_save := saved_pixels fb (x - 1) (y - 1), cursor_sx := x - 1, cursor_sy := y - 1\<rparr>"
    using assms(4) ps(1) qs(1) by (auto simp: cursor_blit_def saved_pixels_def Let_def)
  have "fb_get_pixel a b fb' = fb_get_pixel a b fb" if "\<not> in_area (x - 1) (y - 1) a b" for a b
    unfolding fb' using assms(1) that ps(2) qs(2) by (intro plot_missed) (auto simp: pointer_over_def list_all_iff)
  moreover have "saved_pixels fb (x - 1) (y - 1) = saved_pixels fb0 (x - 1) (y - 1)"
    using assms(1,2) by (simp add: saved_pixels_def pointer_over_def)
  ultimately show "pointer_over fb0 (fb', cu')" using assms(1-3) fb' cu' by (simp add: pointer_over_def)
  show "cursor_visible cu' = cursor_visible cu" by (simp add: cu')
qed

lemma update_pixels:
  assumes "pointer_over fb0 st" "cursor_visible (snd st)" "fb_valid fb0" "2 \<le> fb_width fb0" "1 \<le> x"
  shows "pointer_over fb0 (cursor_update x y st) \<and> cursor_visible (snd (cursor_update x y st))"
proof -
  obtain fb cu where st: "st = (fb, cu)" by (cases st)
  obtain fb1 cu1 where r: "cursor_restore fb cu = (fb1, cu1)" by (metis surj_pair)
  define x' where "x' = (if x \<ge> int (fb_width fb) then int (fb_width fb) - 1 else x)"
  define y' where "y' = (if (if y < 0 then 0 else y) \<ge> int (fb_height fb) then int (fb_height fb) - 1 else (if y < 0 then 0 else y))"
  have w: "fb_width fb = fb_width fb0" "fb_valid fb" using assms(1,3) st by (auto simp: pointer_over_def)
  then have "1 \<le> x'" using assms(4,5) by (simp add: x'_def)
  obtain fb2 cu2 where b: "cursor_blit x' y' fb1 cu1 = (fb2, cu2)" by (metis surj_pair)
  have u: "cursor_update x y st = (if cursor_sx cu = x' - 1 \<and> cursor_sy cu = y' - 1 then st else (fb2, cu2))"
    using assms(2,5) w r b unfolding st cursor_update_def x'_def y'_def by (simp add: Let_def)
  have "pointer_over fb0 (fb, cu)" using assms(1) st by simp
  note rs = restore_pixels [OF this r]
  show ?thesis using u blit_pixels [OF rs(1,2) \<open>1 \<le> x'\<close> b] rs(3) assms(1,2) st by simp
qed

lemma updates_pixels:
  assumes "fb_valid fb0" "2 \<le> fb_width fb0"
  shows "pointer_over fb0 st \<Longrightarrow> cursor_visible (snd st) \<Longrightarrow> list_all (\<lambda>(x, y). 1 \<le> x) ps \<Longrightarrow>
    pointer_over fb0 (fold (\<lambda>(x, y). cursor_update x y) ps st)"
proof (induction ps arbitrary: st)
  case (Cons p ps)
  obtain x y where p: "p = (x, y)" by (cases p)
  then show ?case using Cons update_pixels [OF Cons.prems(1,2) assms, of x y] by simp
qed simp

text \<open>
  C28. The pointer leaves no trace: however it is moved over a screen on which nothing else is drawn, as long as it stays off
  the leftmost column, hiding it gives back every pixel.
\<close>

theorem pointer_leaves_no_trace:
  assumes "fb_ok fb" "fb_valid fb" "2 \<le> fb_width fb" "list_all (\<lambda>(x, y). 1 \<le> x) ps"
  shows "fb_get_pixel a b (fst (cursor_hide (fold (\<lambda>(x, y). cursor_update x y) ps (fb, cursor_init cu)))) = fb_get_pixel a b fb"
proof -
  obtain fb' cu' where st: "fold (\<lambda>(x, y). cursor_update x y) ps (fb, cursor_init cu) = (fb', cu')" by (metis surj_pair)
  have "pointer_over fb (fb, cursor_init cu)" "cursor_visible (snd (fb, cursor_init cu))" using assms(1) by (simp_all add: pointer_over_def cursor_init_def)
  then have p: "pointer_over fb (fb', cu')" using updates_pixels [OF assms(2,3) _ _ assms(4)] st by metis
  obtain fb2 cu2 where r: "cursor_restore fb' cu' = (fb2, cu2)" by (metis surj_pair)
  then show ?thesis using restore_pixels(4) [OF p r] st by (simp add: cursor_hide_def)
qed

text \<open>A screen of 64 by 48 pixels.\<close>

definition demo_fb :: framebuffer where
  "demo_fb = \<lparr>fb_width = 64, fb_height = 48, fb_pitch = 256, fb_base = 0x3E000000, fb_size = 12288, fb_valid = True, vmem = (\<lambda>_. COL_RISCOS_GREY)\<rparr>"

lemma demo_fb_ok: "fb_ok demo_fb" "fb_valid demo_fb" "2 \<le> fb_width demo_fb"
  by (simp_all add: fb_ok_def demo_fb_def)

theorem pointer_leaves_no_trace_witness:
  "fb_get_pixel 30 20 (fst (cursor_hide (fold (\<lambda>(x, y). cursor_update x y) [(29, 19), (90, 2)] (demo_fb, cursor_init cursor_boot)))) = fb_get_pixel 30 20 demo_fb"
  by (rule pointer_leaves_no_trace [OF demo_fb_ok]) simp

lemma arrow_tip:
  assumes "fb_ok fb" "on_screen fb x y"
  shows "fb_get_pixel x y (cursor_arrow x y fb) = COL_BLACK"
proof -
  define square where "square = (\<lambda>r c. concat (map (\<lambda>b. map (\<lambda>a. (a, b, COL_BLACK)) [x + int c * 2..x + int c * 2 + 2 - 1]) [y + int r * 2..y + int r * 2 + 2 - 1]))"
  define ps where "ps = concat (map (\<lambda>r. concat (map (\<lambda>c. if bit (cursor_fill_bits ! r) (7 - c) then square r c else []) [0..<8])) [0..<10])"
  have pl: "cursor_arrow x y fb = plot ps fb"
    unfolding cursor_arrow_def ps_def by (intro fold_plot) (simp add: fill_rect_plot square_def)
  have "(x, y, COL_BLACK) \<in> set (square 0 0)" by (force simp: square_def)
  moreover have "bit (cursor_fill_bits ! 0) 7" by (simp add: cursor_fill_bits_def)
  ultimately have "(x, y, COL_BLACK) \<in> set ps" unfolding ps_def by (fastforce intro!: bexI [of _ "0 :: nat"])
  then show ?thesis unfolding pl by (rule plot_hit [OF assms]) (auto simp: ps_def square_def split: if_splits)
qed

text \<open>
  In the leftmost column the pointer does leave a trace: its save area starts at column -1, which also means that
  nothing is saved, so hiding it leaves the black tip of the arrow on the screen.
\<close>

theorem pointer_trace_at_left_edge:
  assumes "fb_ok fb" "fb_valid fb" "0 < fb_width fb" "1 \<le> y" "y < int (fb_height fb)"
  shows "fb_get_pixel 0 y (fst (cursor_hide (cursor_update 0 y (fb, cursor_init cu)))) = COL_BLACK"
proof -
  obtain ps where ps: "cursor_halo 0 y fb = plot ps fb" using halo_area by blast
  have "fb_get_pixel 0 y (cursor_arrow 0 y (cursor_halo 0 y fb)) = COL_BLACK"
    unfolding ps by (rule arrow_tip) (use assms in \<open>simp_all add: on_screen_def\<close>)
  then show ?thesis
    using assms by (simp add: cursor_update_def cursor_init_def cursor_restore_def cursor_hide_def cursor_blit_def Let_def)
qed

theorem pointer_trace_at_left_edge_witness:
  "fb_get_pixel 0 7 (fst (cursor_hide (cursor_update 0 7 (demo_fb, cursor_init cursor_boot)))) = COL_BLACK \<and> fb_get_pixel 0 7 demo_fb = COL_RISCOS_GREY"
  using pointer_trace_at_left_edge [OF demo_fb_ok(1,2), of 7 cursor_boot] by (simp add: demo_fb_def fb_get_pixel_def on_screen_def)

end
