(* ===== verification/Input.thy ===== *)
theory Input
  imports Prelude
begin

text \<open>
  drivers/input/input_stub.c, the queues of keyboard and mouse events and the position of the
  pointer, and drivers/usb/usb_hid.c, the driver that decodes the reports of USB keyboards and mice
  into these events. USB transfers are arguments: functions on the state of the outside world.
\<close>

section \<open>The event queues\<close>

record 'a evq =
  slots :: "'a list"
  evq_head :: nat
  evq_tail :: nat

definition KBD_QUEUE_SIZE :: nat where "KBD_QUEUE_SIZE = 16"

text \<open>Posting drops the oldest event when the queue is full; the keyboard and the mouse queue share the code.\<close>

definition evq_post :: "'a \<Rightarrow> 'a evq \<Rightarrow> 'a evq" where
  "evq_post ev q =
     (let nxt = (evq_head q + 1) AND (KBD_QUEUE_SIZE - 1);
          tl' = (if nxt = evq_tail q then (evq_tail q + 1) AND (KBD_QUEUE_SIZE - 1) else evq_tail q)
      in \<lparr>slots = (slots q)[evq_head q := ev], evq_head = nxt, evq_tail = tl'\<rparr>)"

definition evq_poll :: "'a evq \<Rightarrow> 'a option \<times> 'a evq" where
  "evq_poll q =
     (if evq_tail q = evq_head q then (None, q)
      else (Some (slots q ! evq_tail q), q\<lparr>evq_tail := (evq_tail q + 1) AND (KBD_QUEUE_SIZE - 1)\<rparr>))"

record keyboard_event_t =
  key_code :: u8
  key_char :: u8
  modifiers :: u8

record mouse_event_t =
  mx :: int
  my :: int
  dx :: int
  dy :: int
  buttons :: u8
  wheel :: int

record input =
  kbd :: "keyboard_event_t evq"
  mouse :: "mouse_event_t evq"
  mouse_x :: int
  mouse_y :: int
  mouse_max_x :: int
  mouse_max_y :: int

text \<open>The 16-bit integers of the pointer are integers; a store into one wraps.\<close>

definition int16 :: "int \<Rightarrow> int" where
  "int16 n = (n + 32768) mod 65536 - 32768"

definition zero_kev :: keyboard_event_t where
  "zero_kev = \<lparr>key_code = 0, key_char = 0, modifiers = 0\<rparr>"

definition zero_mev :: mouse_event_t where
  "zero_mev = \<lparr>mx = 0, my = 0, dx = 0, dy = 0, buttons = 0, wheel = 0\<rparr>"

definition input_boot :: input where
  "input_boot = \<lparr>kbd = \<lparr>slots = replicate 16 zero_kev, evq_head = 0, evq_tail = 0\<rparr>,
     mouse = \<lparr>slots = replicate 16 zero_mev, evq_head = 0, evq_tail = 0\<rparr>,
     mouse_x = 640, mouse_y = 360, mouse_max_x = 1919, mouse_max_y = 1079\<rparr>"

definition keyboard_init :: "input \<Rightarrow> input" where
  "keyboard_init s = s\<lparr>kbd := (kbd s)\<lparr>evq_head := 0, evq_tail := 0\<rparr>\<rparr>"

definition keyboard_event :: "keyboard_event_t \<Rightarrow> input \<Rightarrow> input" where
  "keyboard_event ev s = s\<lparr>kbd := evq_post ev (kbd s)\<rparr>"

definition keyboard_poll :: "input \<Rightarrow> keyboard_event_t option \<times> input" where
  "keyboard_poll s = (let (r, q) = evq_poll (kbd s) in (r, s\<lparr>kbd := q\<rparr>))"

definition mouse_init :: "input \<Rightarrow> input" where
  "mouse_init s = s\<lparr>mouse := (mouse s)\<lparr>evq_head := 0, evq_tail := 0\<rparr>, mouse_x := 640, mouse_y := 360\<rparr>"

definition mouse_set_bounds :: "int \<Rightarrow> int \<Rightarrow> input \<Rightarrow> input" where
  "mouse_set_bounds width height s =
     s\<lparr>mouse_max_x := int16 (if width > 0 then width - 1 else 1919),
       mouse_max_y := int16 (if height > 0 then height - 1 else 1079)\<rparr>"

definition clamp_pos :: "int \<Rightarrow> int \<Rightarrow> int" where
  "clamp_pos n m = (let n = (if n < 0 then 0 else n) in if n > m then m else n)"

definition mouse_event :: "mouse_event_t \<Rightarrow> input \<Rightarrow> input" where
  "mouse_event ev s =
     (let s = s\<lparr>mouse_x := int16 (clamp_pos (mouse_x s + dx ev) (mouse_max_x s)),
                mouse_y := int16 (clamp_pos (mouse_y s + dy ev) (mouse_max_y s))\<rparr>
      in s\<lparr>mouse := evq_post (ev\<lparr>mx := mouse_x s, my := mouse_y s\<rparr>) (mouse s)\<rparr>)"

definition mouse_poll :: "input \<Rightarrow> mouse_event_t option \<times> input" where
  "mouse_poll s = (let (r, q) = evq_poll (mouse s) in (r, s\<lparr>mouse := q\<rparr>))"

definition mouse_get_pos :: "input \<Rightarrow> int \<times> int" where
  "mouse_get_pos s = (mouse_x s, mouse_y s)"

section \<open>USB keyboards and mice\<close>

text \<open>The tables of the driver: the characters of the US layout, and the RISC OS key numbers (0 where there is none).\<close>

definition scancode_to_ascii :: bytes where
  "scancode_to_ascii =
     [0, 0, 0, 0, 0x61, 0x62, 0x63, 0x64, 0x65, 0x66, 0x67, 0x68, 0x69, 0x6A, 0x6B, 0x6C,
      0x6D, 0x6E, 0x6F, 0x70, 0x71, 0x72, 0x73, 0x74, 0x75, 0x76, 0x77, 0x78, 0x79, 0x7A, 0x31, 0x32,
      0x33, 0x34, 0x35, 0x36, 0x37, 0x38, 0x39, 0x30, 0x0A, 0x1B, 0x08, 0x09, 0x20, 0x2D, 0x3D, 0x5B,
      0x5D, 0x5C, 0x23, 0x3B, 0x27, 0x60, 0x2C, 0x2E, 0x2F, 0, 0, 0, 0, 0, 0, 0,
      0, 0, 0, 0, 0, 0, 0, 0, 0, 0, 0, 0, 0, 0, 0, 0]"

definition scancode_to_ascii_shifted :: bytes where
  "scancode_to_ascii_shifted =
     [0, 0, 0, 0, 0x41, 0x42, 0x43, 0x44, 0x45, 0x46, 0x47, 0x48, 0x49, 0x4A, 0x4B, 0x4C,
      0x4D, 0x4E, 0x4F, 0x50, 0x51, 0x52, 0x53, 0x54, 0x55, 0x56, 0x57, 0x58, 0x59, 0x5A, 0x21, 0x40,
      0x23, 0x24, 0x25, 0x5E, 0x26, 0x2A, 0x28, 0x29, 0x0A, 0x1B, 0x08, 0x09, 0x20, 0x5F, 0x2B, 0x7B,
      0x7D, 0x7C, 0x7E, 0x3A, 0x22, 0x7E, 0x3C, 0x3E, 0x3F, 0, 0, 0, 0, 0, 0, 0,
      0, 0, 0, 0, 0, 0, 0, 0, 0, 0, 0, 0, 0, 0, 0, 0]"

definition inkey_table :: "(u8 \<times> u8) list" where
  "inkey_table =
     [(0x04, 0x62), (0x05, 0x64), (0x06, 0x52), (0x07, 0x32), (0x08, 0x22), (0x09, 0x44), (0x0A, 0x54), (0x0B, 0x44),
      (0x3A, 0x11), (0x3B, 0x12), (0x3C, 0x13), (0x3D, 0x14), (0x3E, 0x15), (0x3F, 0x16), (0x40, 0x17), (0x41, 0x18),
      (0x42, 0x19), (0x43, 0x1A), (0x44, 0x1B), (0x45, 0x1C), (0x49, 0x1D), (0x4A, 0x1E), (0x4B, 0x1F), (0x4C, 0x7F),
      (0x4D, 0x0E), (0x4E, 0x0F), (0x4F, 0x8E), (0x50, 0x8D), (0x51, 0x8F), (0x52, 0x8C)]"

definition scancode_to_inkey :: "u8 \<Rightarrow> u8" where
  "scancode_to_inkey c = (case map_of inkey_table c of None \<Rightarrow> 0 | Some k \<Rightarrow> k)"

definition USB_PROTOCOL_KEYBOARD :: u8 where "USB_PROTOCOL_KEYBOARD = 1"
definition USB_PROTOCOL_MOUSE :: u8 where "USB_PROTOCOL_MOUSE = 2"
definition USB_SUBCLASS_BOOT :: u8 where "USB_SUBCLASS_BOOT = 1"
definition HID_MAX_DEVICES :: nat where "HID_MAX_DEVICES = 4"

record hid_device =
  h_slot :: u8
  h_intf_num :: u8
  int_in :: "u8 option"
  h_protocol :: u8
  last_report :: bytes
  get_report_warned :: bool
  report_id_offset :: nat
  report_id_detected :: bool
  last_get_report_ms :: u32
  mouse_last_ok_ms :: u32

definition usb_mod_to_riscos :: "u8 \<Rightarrow> u8" where
  "usb_mod_to_riscos m =
     (if m AND 0x22 \<noteq> 0 then 0x01 else 0) OR (if m AND 0x11 \<noteq> 0 then 0x02 else 0) OR (if m AND 0x44 \<noteq> 0 then 0x04 else 0)"

text \<open>The event of one key, if it has a code or a character.\<close>

definition key_event :: "u8 \<Rightarrow> u8 \<Rightarrow> keyboard_event_t option" where
  "key_event mods code =
     (let ch = (if unat code < length scancode_to_ascii
                then (if mods AND 0x22 \<noteq> 0 then scancode_to_ascii_shifted else scancode_to_ascii) ! unat code else 0);
          ev = (if scancode_to_inkey code \<noteq> 0
                then \<lparr>key_code = scancode_to_inkey code, key_char = 0, modifiers = usb_mod_to_riscos mods\<rparr>
                else \<lparr>key_code = ch, key_char = ch, modifiers = usb_mod_to_riscos mods\<rparr>)
      in if key_code ev \<noteq> 0 \<or> key_char ev \<noteq> 0 then Some ev else None)"

text \<open>The loop over the six keys of a report: events posted, and characters echoed on the console.\<close>

fun hid_keys :: "bytes \<Rightarrow> u8 \<Rightarrow> u8 list \<Rightarrow> input \<Rightarrow> bytes \<Rightarrow> input \<times> bytes" where
  "hid_keys prv mods [] s con = (s, con)"
| "hid_keys prv mods (code # codes) s con =
     (if code = 0 \<or> code > 0xE7 \<or> code \<in> set (drop 2 prv) then hid_keys prv mods codes s con
      else case key_event mods code of
          None \<Rightarrow> hid_keys prv mods codes s con
        | Some ev \<Rightarrow> hid_keys prv mods codes (keyboard_event ev s) (con @ (if key_char ev \<ge> 0x20 then [key_char ev] else [])))"

definition hid_process_keyboard :: "hid_device \<Rightarrow> bytes \<Rightarrow> input \<Rightarrow> bytes \<Rightarrow> hid_device \<times> input \<times> bytes" where
  "hid_process_keyboard hid data s con =
     (let (s, con) = hid_keys (last_report hid) (data ! 0) (take 6 (drop 2 data)) s con
      in (hid\<lparr>last_report := take 8 data\<rparr>, s, con))"

definition hid_process_mouse :: "hid_device \<Rightarrow> bytes \<Rightarrow> input \<Rightarrow> hid_device \<times> input" where
  "hid_process_mouse hid data s =
     (let hid = (if report_id_detected hid then hid
                 else hid\<lparr>report_id_detected := True, report_id_offset := if data ! 0 AND 0xF8 \<noteq> 0 then 1 else 0\<rparr>);
          p = drop (report_id_offset hid) data;
          b = p ! 0;
          ev = zero_mev\<lparr>dx := sint (p ! 1), dy := - sint (p ! 2), wheel := sint (p ! 3),
            buttons := (if b AND 1 \<noteq> 0 then 0x04 else 0) OR (if b AND 4 \<noteq> 0 then 0x02 else 0) OR (if b AND 2 \<noteq> 0 then 0x01 else 0)\<rparr>
      in (hid, if dx ev \<noteq> 0 \<or> dy ev \<noteq> 0 \<or> buttons ev \<noteq> 0 \<or> wheel ev \<noteq> 0 then mouse_event ev s else s))"

text \<open>
  Polling. \<open>intr\<close> is \<open>usb_interrupt_transfer\<close> on an endpoint with a timeout, \<open>ctrl\<close> is
  \<open>usb_control_transfer\<close> (request type, request, value, index), \<open>clk\<close> the clock; a transfer returns its
  length or \<open>-1\<close> and the bytes it put at the start of the zeroed report.
\<close>

record 'w usb =
  intr :: "u8 \<Rightarrow> int \<Rightarrow> 'w \<Rightarrow> (int \<times> bytes) \<times> 'w"
  ctrl :: "u8 \<Rightarrow> u8 \<Rightarrow> u16 \<Rightarrow> u16 \<Rightarrow> 'w \<Rightarrow> (int \<times> bytes) \<times> 'w"
  clk :: "'w \<Rightarrow> u32"

definition report_of :: "bytes \<Rightarrow> bytes" where
  "report_of d = take 8 d @ replicate (8 - length d) 0"

definition hid_poll :: "'w usb \<Rightarrow> hid_device \<Rightarrow> input \<Rightarrow> bytes \<Rightarrow> 'w \<Rightarrow> hid_device \<times> input \<times> bytes \<times> 'w" where
  "hid_poll u hid s con w =
     (let (len, report, hid, w) =
        (case int_in hid of
           Some ep \<Rightarrow> (let ((len, d), w) = intr u ep (if h_protocol hid = USB_PROTOCOL_KEYBOARD then 8 else 2) w in (len, report_of d, hid, w))
         | None \<Rightarrow>
             (let now = clk u w
              in if now - last_get_report_ms hid \<ge> 16
                 then let ((len, d), w) = ctrl u 0xA1 0x01 0x0100 (ucast (h_intf_num hid)) w
                      in (len, report_of d, hid\<lparr>last_get_report_ms := now, get_report_warned := True\<rparr>, w)
                 else (0, report_of [], hid, w)))
      in if len > 0 then
           if h_protocol hid = USB_PROTOCOL_KEYBOARD
           then let (hid, s, con) = hid_process_keyboard hid report s con in (hid, s, con, w)
           else if h_protocol hid = USB_PROTOCOL_MOUSE then
             (if len < 3 then (hid\<lparr>report_id_detected := False\<rparr>, s, con, w)
              else let (hid, s) = hid_process_mouse hid report s in (hid, s, con, w))
           else (hid, s, con, w)
         else (hid, s, con, w))"

fun hid_poll_all :: "'w usb \<Rightarrow> hid_device list \<Rightarrow> input \<Rightarrow> bytes \<Rightarrow> 'w \<Rightarrow> nat \<times> hid_device list \<times> input \<times> bytes \<times> 'w" where
  "hid_poll_all u [] s con w = (0, [], s, con, w)"
| "hid_poll_all u (hid # hids) s con w =
     (if h_protocol hid = USB_PROTOCOL_MOUSE
      then let (n, hids, s, con, w) = hid_poll_all u hids s con w in (n, hid # hids, s, con, w)
      else let (hid, s, con, w) = hid_poll u hid s con w;
               (n, hids, s, con, w) = hid_poll_all u hids s con w
           in (n + 1, hid # hids, s, con, w))"

fun hid_poll_mice :: "'w usb \<Rightarrow> u32 \<Rightarrow> hid_device list \<Rightarrow> input \<Rightarrow> 'w \<Rightarrow> hid_device list \<times> input \<times> 'w" where
  "hid_poll_mice u now [] s w = ([], s, w)"
| "hid_poll_mice u now (hid # hids) s w =
     (case (if h_protocol hid \<noteq> USB_PROTOCOL_MOUSE then None else int_in hid) of
        None \<Rightarrow> let (hids, s, w) = hid_poll_mice u now hids s w in (hid # hids, s, w)
      | Some ep \<Rightarrow>
          (let stale = mouse_last_ok_ms hid \<noteq> 0 \<and> now - mouse_last_ok_ms hid > 500;
               hid = (if stale then hid\<lparr>mouse_last_ok_ms := now\<rparr> else hid);
               ((len, d), w) = intr u ep (if stale then 2 else 0) w;
               (hid, s) = (if len > 0 then hid_process_mouse (hid\<lparr>mouse_last_ok_ms := now\<rparr>) (report_of d) s else (hid, s));
               (hids, s, w) = hid_poll_mice u now hids s w
           in (hid # hids, s, w)))"

text \<open>
  The probe of an interface: its number, subclass and protocol, and its endpoints (address and
  attributes). The argument \<open>mem\<close> says whether \<open>kmalloc\<close> succeeds. A fifth device is bound but not polled.
\<close>

definition hid_probe ::
  "'w usb \<Rightarrow> bool \<Rightarrow> u8 \<Rightarrow> u8 \<Rightarrow> u8 \<Rightarrow> u8 \<Rightarrow> (u8 \<times> u8) list \<Rightarrow> hid_device list \<Rightarrow> 'w \<Rightarrow> int \<times> hid_device list \<times> 'w" where
  "hid_probe u mem slot num subclass protocol eps hids w =
     (if subclass \<noteq> USB_SUBCLASS_BOOT \<or> \<not> mem then (-1, hids, w)
      else
        let hid = \<lparr>h_slot = slot, h_intf_num = num,
              int_in = map_option fst (find (\<lambda>(addr, attr). attr AND 0x03 = 0x03 \<and> addr AND 0x80 \<noteq> 0) eps),
              h_protocol = protocol, last_report = replicate 8 0, get_report_warned = False, report_id_offset = 0,
              report_id_detected = False, last_get_report_ms = 0, mouse_last_ok_ms = 0\<rparr>;
            w = (if protocol = USB_PROTOCOL_KEYBOARD
                 then snd (ctrl u 0x21 0x0A 0 (ucast num) (snd (ctrl u 0x21 0x0B 0 (ucast num) w))) else w)
        in (0, if length hids < HID_MAX_DEVICES then hids @ [hid] else hids, w))"

definition hid_device_disconnect :: "u8 \<Rightarrow> hid_device list \<Rightarrow> hid_device list" where
  "hid_device_disconnect slot hids = filter (\<lambda>h. h_slot h \<noteq> slot) hids"

definition usb_hid_keyboard_count :: "hid_device list \<Rightarrow> nat" where
  "usb_hid_keyboard_count hids = length (filter (\<lambda>h. h_protocol h = USB_PROTOCOL_KEYBOARD) hids)"

definition usb_hid_mouse_count :: "hid_device list \<Rightarrow> nat" where
  "usb_hid_mouse_count hids = length (filter (\<lambda>h. h_protocol h = USB_PROTOCOL_MOUSE) hids)"

section \<open>A queue that forgets its oldest entries\<close>

definition keep :: "nat \<Rightarrow> 'a list \<Rightarrow> 'a list" where
  "keep n xs = drop (length xs - n) xs"

lemma keep_keep_append: "keep n (keep n xs @ ys) = keep n (xs @ ys)"
proof (cases "length xs \<le> n")
  case False
  then have "length (keep n xs) = n" by (simp add: keep_def)
  then show ?thesis using False by (simp add: keep_def add.commute)
qed (simp add: keep_def)

lemma length_keep [simp]: "length (keep n xs) = min n (length xs)"
  by (simp add: keep_def)

locale lossy_queue =
  fixes inv :: "'q \<Rightarrow> bool"
    and items :: "'q \<Rightarrow> 'a list"
    and post :: "'a \<Rightarrow> 'q \<Rightarrow> 'q"
    and poll :: "'q \<Rightarrow> 'a option \<times> 'q"
    and cap :: nat
  assumes post_spec: "inv q \<Longrightarrow> inv (post e q) \<and> items (post e q) = keep cap (items q @ [e])"
    and poll_empty: "inv q \<Longrightarrow> items q = [] \<Longrightarrow> poll q = (None, q)"
    and poll_next: "inv q \<Longrightarrow> items q = x # xs \<Longrightarrow> \<exists>q'. poll q = (Some x, q') \<and> inv q' \<and> items q' = xs"
begin

lemma post_all: "inv q \<Longrightarrow> inv (fold post es q) \<and> (es \<noteq> [] \<longrightarrow> items (fold post es q) = keep cap (items q @ es))"
proof (induction es arbitrary: q)
  case (Cons e es)
  then show ?case using post_spec [of q e] keep_keep_append [of cap "items q @ [e]" es] by (cases es) auto
qed simp

lemma post_all_empty: "inv q \<Longrightarrow> items q = [] \<Longrightarrow> items (fold post es q) = keep cap es"
  using post_all [of q es] by (cases "es = []") (auto simp: keep_def)

fun poll_n :: "nat \<Rightarrow> 'q \<Rightarrow> 'a list" where
  "poll_n 0 q = []"
| "poll_n (Suc n) q = (case poll q of (None, q') \<Rightarrow> [] | (Some x, q') \<Rightarrow> x # poll_n n q')"

lemma poll_n_items: "inv q \<Longrightarrow> poll_n n q = take n (items q)"
proof (induction n arbitrary: q)
  case (Suc n)
  show ?case
  proof (cases "items q")
    case Nil
    then show ?thesis using Suc.prems by (simp add: poll_empty)
  next
    case (Cons x xs)
    then show ?thesis using poll_next [OF Suc.prems Cons] Suc.IH by auto
  qed
qed simp

end

definition evq_inv :: "'a evq \<Rightarrow> bool" where
  "evq_inv q \<longleftrightarrow> length (slots q) = 16 \<and> evq_head q < 16 \<and> evq_tail q < 16"

definition evq_items :: "'a evq \<Rightarrow> 'a list" where
  "evq_items q = map (\<lambda>i. slots q ! ((evq_tail q + i) mod 16)) [0..<(evq_head q + 16 - evq_tail q) mod 16]"

lemma and_15: "n AND (KBD_QUEUE_SIZE - Suc 0) = n mod 16" for n :: nat
  using take_bit_eq_mask [of 4 n] by (simp add: KBD_QUEUE_SIZE_def take_bit_eq_mod mask_eq_exp_minus_1)

lemma succ_mod_16: "h < 16 \<Longrightarrow> (h + 1) mod 16 = (if h = 15 then 0 else h + 1)" for h :: nat
  by auto

lemma evq_post_items:
  assumes "evq_inv q"
  shows "evq_items (evq_post e q) = keep 15 (evq_items q @ [e])"
proof -
  let ?h = "evq_head q" and ?t = "evq_tail q"
  define n where "n = (?h + 16 - ?t) mod 16"
  have b: "length (slots q) = 16" "?h < 16" "?t < 16" using assms by (simp_all add: evq_inv_def)
  have tn: "(?t + n) mod 16 = ?h" "n < 16" using b by (auto simp: n_def mod_if)
  let ?t' = "if (?h + 1) mod 16 = ?t then (?t + 1) mod 16 else ?t"
  have full: "(?h + 1) mod 16 = ?t \<longleftrightarrow> n = 15" using b by (auto simp: n_def mod_if)
  have rd: "(slots q)[?h := e] ! ((?t + i) mod 16) = (if i = n then e else slots q ! ((?t + i) mod 16))" if "i < 16" for i
  proof -
    have "(?t + i) mod 16 = ?h \<longleftrightarrow> i = n" using that b tn by (auto simp: mod_if split: if_splits)
    then show ?thesis using b by auto
  qed
  have old: "evq_items q = map (\<lambda>i. slots q ! ((?t + i) mod 16)) [0..<n]" by (simp add: evq_items_def n_def)
  have new: "map (\<lambda>i. (slots q)[?h := e] ! ((?t + i) mod 16)) [0..<Suc n] = evq_items q @ [e]"
    using tn(2) rd by (auto simp: old)
  show ?thesis
  proof (cases "n = 15")
    case True
    have "((?h + 1) mod 16 + 16 - (?t + 1) mod 16) mod 16 = 15" using True full b by (auto simp: mod_if split: if_splits)
    moreover have "((?t + 1) mod 16 + i) mod 16 = (?t + Suc i) mod 16" for i by (simp add: mod_simps)
    ultimately have "evq_items (evq_post e q) = map (\<lambda>i. (slots q)[?h := e] ! ((?t + Suc i) mod 16)) [0..<15]"
      using True full by (simp add: evq_items_def evq_post_def Let_def and_15)
    also have "\<dots> = drop 1 (map (\<lambda>i. (slots q)[?h := e] ! ((?t + i) mod 16)) [0..<Suc n])"
      unfolding True by (rule nth_equalityI) (simp_all add: nth_append)
    finally show ?thesis unfolding new using True by (simp add: keep_def old)
  next
    case False
    have "((?h + 1) mod 16 + 16 - ?t) mod 16 = Suc n" using False tn b by (auto simp: n_def mod_if split: if_splits)
    then have "evq_items (evq_post e q) = map (\<lambda>i. (slots q)[?h := e] ! ((?t + i) mod 16)) [0..<Suc n]"
      using False full by (simp add: evq_items_def evq_post_def Let_def and_15)
    then show ?thesis unfolding new using False tn(2) by (simp add: keep_def old)
  qed
qed

interpretation evq: lossy_queue evq_inv evq_items evq_post evq_poll 15
proof
  fix q :: "'a evq" and e x :: 'a and xs :: "'a list"
  assume inv: "evq_inv q"
  show "evq_inv (evq_post e q) \<and> evq_items (evq_post e q) = keep 15 (evq_items q @ [e])"
    using inv evq_post_items [OF inv] by (auto simp: evq_inv_def evq_post_def Let_def and_15)
  have empty: "evq_items q = [] \<longleftrightarrow> evq_tail q = evq_head q"
    using inv by (auto simp: evq_items_def evq_inv_def mod_if split: if_splits)
  show "evq_items q = [] \<Longrightarrow> evq_poll q = (None, q)" by (simp add: empty evq_poll_def)
  assume xs: "evq_items q = x # xs"
  let ?q' = "q\<lparr>evq_tail := (evq_tail q + 1) mod 16\<rparr>"
  define n where "n = (evq_head q + 16 - evq_tail q) mod 16"
  have ne: "evq_tail q \<noteq> evq_head q" using xs empty by auto
  then have n: "0 < n" "(evq_head q + 16 - (evq_tail q + 1) mod 16) mod 16 = n - 1"
    using inv by (auto simp: n_def evq_inv_def mod_if split: if_splits)
  have "[0..<n] = 0 # map Suc [0..<n - 1]" using n(1) by (simp add: map_Suc_upt upt_conv_Cons)
  then have "x = slots q ! (evq_tail q mod 16)" "xs = map (\<lambda>i. slots q ! ((evq_tail q + Suc i) mod 16)) [0..<n - 1]"
    using xs by (auto simp: evq_items_def n_def)
  moreover have "((evq_tail q + 1) mod 16 + i) mod 16 = (evq_tail q + Suc i) mod 16" for i by (simp add: mod_simps)
  ultimately have "x = slots q ! evq_tail q" "evq_items ?q' = xs" using inv n(2) by (simp_all add: evq_items_def evq_inv_def)
  then show "\<exists>q'. evq_poll q = (Some x, q') \<and> evq_inv q' \<and> evq_items q' = xs"
    using ne inv by (intro exI [of _ ?q']) (simp add: evq_poll_def and_15 evq_inv_def)
qed

text \<open>Polling until the queue is empty, at most \<open>n\<close> times.\<close>

fun drain_keys :: "nat \<Rightarrow> input \<Rightarrow> keyboard_event_t list" where
  "drain_keys 0 s = []"
| "drain_keys (Suc n) s = (case keyboard_poll s of (None, s') \<Rightarrow> [] | (Some e, s') \<Rightarrow> e # drain_keys n s')"

lemma drain_keys_poll: "drain_keys n s = evq.poll_n n (kbd s)"
  by (induction n arbitrary: s) (auto simp: keyboard_poll_def split: prod.splits option.splits)

lemma kbd_fold: "kbd (fold keyboard_event es s) = fold evq_post es (kbd s)"
  by (induction es arbitrary: s) (simp_all add: keyboard_event_def)

text \<open>
  Between two polls the keyboard queue keeps the last fifteen events, in order, and forgets the
  ones before: what is polled after any sequence of key presses are the last fifteen of them.
\<close>

theorem keyboard_queue_last:
  assumes "length (slots (kbd s)) = 16"
  shows "drain_keys n (fold keyboard_event es (keyboard_init s)) = take n (keep 15 es)"
proof -
  have i: "evq_inv (kbd (keyboard_init s))" "evq_items (kbd (keyboard_init s)) = []"
    using assms by (simp_all add: keyboard_init_def evq_inv_def evq_items_def)
  then show ?thesis
    using evq.poll_n_items [of "fold evq_post es (kbd (keyboard_init s))" n] evq.post_all [OF i(1), of es] evq.post_all_empty [OF i, of es]
    by (simp add: drain_keys_poll kbd_fold)
qed

theorem keyboard_queue_last_witness:
  "map key_char (drain_keys 20 (fold (\<lambda>c. keyboard_event \<lparr>key_code = c, key_char = c, modifiers = 0\<rparr>) [1, 2, 3] (keyboard_init input_boot))) = [1, 2, 3]"
proof -
  let ?e = "\<lambda>c. \<lparr>key_code = c, key_char = c, modifiers = 0\<rparr>"
  have "fold (\<lambda>c. keyboard_event (?e c)) [1, 2, 3] s = fold keyboard_event (map ?e [1, 2, 3]) s" for s by simp
  then show ?thesis using keyboard_queue_last [of input_boot 20 "map ?e [1, 2, 3]"] by (simp add: input_boot_def keep_def)
qed

text \<open>
  The pointer stays on the screen: after any mouse event its position is inside the bounds, and it
  is the old position plus the movement, cut off at the edges.
\<close>

definition bounds_ok :: "input \<Rightarrow> bool" where
  "bounds_ok s \<longleftrightarrow> 0 \<le> mouse_max_x s \<and> mouse_max_x s < 32768 \<and> 0 \<le> mouse_max_y s \<and> mouse_max_y s < 32768"

lemma set_bounds_ok: "width < 32768 \<Longrightarrow> height < 32768 \<Longrightarrow> bounds_ok (mouse_set_bounds width height s)"
  by (auto simp: bounds_ok_def mouse_set_bounds_def int16_def)

lemma mouse_event_pos:
  assumes "bounds_ok s"
  shows "mouse_get_pos (mouse_event ev s) =
      (max 0 (min (mouse_x s + dx ev) (mouse_max_x s)), max 0 (min (mouse_y s + dy ev) (mouse_max_y s)))"
    and "bounds_ok (mouse_event ev s)"
  using assms by (auto simp: mouse_event_def mouse_get_pos_def bounds_ok_def Let_def clamp_pos_def int16_def)

section \<open>What the keyboard driver reports\<close>

text \<open>The keys that a sequence of reports presses: those in a report and not in the one before.\<close>

definition keys :: "bytes \<Rightarrow> u8 list" where
  "keys r = take 6 (drop 2 r)"

definition new_keys :: "bytes \<Rightarrow> bytes \<Rightarrow> u8 list" where
  "new_keys prv r = filter (\<lambda>c. c \<noteq> 0 \<and> c \<le> 0xE7 \<and> c \<notin> set (keys prv)) (keys r)"

fun pressed :: "bytes \<Rightarrow> bytes list \<Rightarrow> (u8 \<times> u8) list" where
  "pressed prv [] = []"
| "pressed prv (r # rs) = map (Pair (r ! 0)) (new_keys prv r) @ pressed r rs"

definition events_of :: "(u8 \<times> u8) list \<Rightarrow> keyboard_event_t list" where
  "events_of ps = List.map_filter (\<lambda>(m, c). key_event m c) ps"

fun process_reports :: "hid_device \<Rightarrow> bytes list \<Rightarrow> input \<Rightarrow> bytes \<Rightarrow> input \<times> bytes" where
  "process_reports hid [] s con = (s, con)"
| "process_reports hid (r # rs) s con = (let (hid, s, con) = hid_process_keyboard hid r s con in process_reports hid rs s con)"

fun edges :: "bool \<Rightarrow> bool list \<Rightarrow> nat" where
  "edges prev [] = 0"
| "edges prev (b # bs) = (if b \<and> \<not> prev then 1 else 0) + edges b bs"

lemma events_of_simps [simp]:
  "events_of [] = []"
  "events_of (p # ps) = (case key_event (fst p) (snd p) of None \<Rightarrow> events_of ps | Some ev \<Rightarrow> ev # events_of ps)"
  "events_of (ps @ qs) = events_of ps @ events_of qs"
  by (auto simp: events_of_def map_filter_simps case_prod_beta List.map_filter_def split: option.splits)

definition echo :: "keyboard_event_t list \<Rightarrow> bytes" where
  "echo evs = filter (\<lambda>c. c \<ge> 0x20) (map key_char evs)"

lemma hid_keys_events:
  assumes "length prv = 8"
  shows "hid_keys prv m cs s con =
    (let evs = events_of (map (Pair m) (filter (\<lambda>c. c \<noteq> 0 \<and> c \<le> 0xE7 \<and> c \<notin> set (keys prv)) cs))
     in (fold keyboard_event evs s, con @ echo evs))"
proof (induction cs arbitrary: s con)
  case (Cons c cs)
  have "keys prv = drop 2 prv" using assms by (simp add: keys_def)
  then show ?case using Cons by (auto simp: Let_def echo_def not_le split: option.split)
qed (simp add: echo_def)

lemma process_reports_events:
  assumes "length (last_report hid) = 8" "list_all (\<lambda>r. length r = 8) rs"
  shows "process_reports hid rs s con =
    (fold keyboard_event (events_of (pressed (last_report hid) rs)) s, con @ echo (events_of (pressed (last_report hid) rs)))"
  using assms
proof (induction rs arbitrary: hid s con)
  case (Cons r rs)
  then show ?case
    by (simp add: hid_process_keyboard_def hid_keys_events Let_def new_keys_def echo_def keys_def [symmetric] case_prod_beta)
qed (simp add: echo_def)

lemma count_list_distinct: "distinct xs \<Longrightarrow> count_list xs k = (if k \<in> set xs then 1 else 0)"
  by (induction xs) auto

lemma count_pressed:
  assumes "list_all (\<lambda>r. distinct (filter (\<lambda>c. c \<noteq> 0) (keys r))) rs" "k \<noteq> 0" "k \<le> 0xE7"
  shows "count_list (map snd (pressed prv rs)) k = edges (k \<in> set (keys prv)) (map (\<lambda>r. k \<in> set (keys r)) rs)"
  using assms(1)
proof (induction rs arbitrary: prv)
  case (Cons r rs)
  have "count_list (new_keys prv r) k = (if k \<in> set (keys r) \<and> k \<notin> set (keys prv) then 1 else 0)"
  proof -
    have "distinct (new_keys prv r)"
      using Cons.prems distinct_filter [of "filter (\<lambda>c. c \<noteq> 0) (keys r)" "\<lambda>c. c \<le> 0xE7 \<and> c \<notin> set (keys prv)"]
      by (simp add: new_keys_def)
    then show ?thesis using assms(2,3) by (simp add: count_list_distinct) (simp add: new_keys_def)
  qed
  then show ?case using Cons by (simp add: comp_def)
qed simp

text \<open>
  C32. A key that is held down is reported once: over any sequence of reports the driver posts the
  events of exactly the keys that go down, in order, and echoes their characters; each key goes down
  as often as it changes from up to down in the reports.
\<close>

theorem keyboard_reports_edges:
  assumes "length (last_report hid) = 8" "list_all (\<lambda>r. length r = 8 \<and> distinct (filter (\<lambda>c. c \<noteq> 0) (keys r))) rs"
  shows "process_reports hid rs s con =
      (fold keyboard_event (events_of (pressed (last_report hid) rs)) s, con @ echo (events_of (pressed (last_report hid) rs))) \<and>
    (\<forall>k. k \<noteq> 0 \<and> k \<le> 0xE7 \<longrightarrow>
       count_list (map snd (pressed (last_report hid) rs)) k = edges (k \<in> set (keys (last_report hid))) (map (\<lambda>r. k \<in> set (keys r)) rs))"
  using process_reports_events [OF assms(1), of rs s con] count_pressed [of rs _ "last_report hid"] assms(2)
  by (simp add: list_all_iff)

definition demo_kbd :: hid_device where
  "demo_kbd = \<lparr>h_slot = 1, h_intf_num = 0, int_in = Some 0x81, h_protocol = USB_PROTOCOL_KEYBOARD, last_report = replicate 8 0,
     get_report_warned = False, report_id_offset = 0, report_id_detected = False, last_get_report_ms = 0, mouse_last_ok_ms = 0\<rparr>"

text \<open>The keys i and j are pressed, j is held and i released, then both are released and i is pressed again.\<close>

definition demo_reports :: "bytes list" where
  "demo_reports = [[0, 0, 0x0C, 0x0D, 0, 0, 0, 0], [0, 0, 0x0D, 0, 0, 0, 0, 0], replicate 8 0, [2, 0, 0x0C, 0, 0, 0, 0, 0]]"

theorem keyboard_reports_edges_witness:
  "snd (process_reports demo_kbd demo_reports input_boot []) = [0x69, 0x6A, 0x49]"
proof -
  have "length (last_report demo_kbd) = 8" by code_simp
  moreover have "list_all (\<lambda>r. length r = 8 \<and> distinct (filter (\<lambda>c. c \<noteq> 0) (keys r))) demo_reports" by code_simp
  ultimately have "snd (process_reports demo_kbd demo_reports input_boot []) = echo (events_of (pressed (last_report demo_kbd) demo_reports))"
    using keyboard_reports_edges [of demo_kbd demo_reports input_boot "[]"] by simp
  also have "\<dots> = [0x69, 0x6A, 0x49]" by code_simp
  finally show ?thesis .
qed

text \<open>
  The table of RISC OS key numbers has entries for the letters a to h, so these keys take the path
  of the function keys: their events carry no character and nothing is echoed, with and without
  shift. The letters from i on are typed as characters.
\<close>

theorem letters_a_to_h_lost:
  assumes "4 \<le> code" "code \<le> 0x1D"
  shows "\<exists>ev. key_event mods code = Some ev \<and> (key_char ev = 0 \<longleftrightarrow> code \<le> 0x0B)"
proof -
  have "4 \<le> unat code" "unat code < 30" using assms by (simp_all add: word_le_nat_alt)
  then have "unat code \<in> set [4..<30]" by (simp only: set_upt atLeastLessThan_iff)
  moreover have "[4..<30] = [4, 5, 6, 7, 8, 9, 10, 11, 12, 13, 14, 15, 16, 17, 18, 19, 20, 21, 22, 23, 24, 25, 26, 27, 28, 29]" by code_simp
  ultimately have "of_nat (unat code) \<in> set (map of_nat [4, 5, 6, 7, 8, 9, 10, 11, 12, 13, 14, 15, 16, 17, 18, 19, 20, 21, 22, 23, 24, 25, 26, 27, 28, 29] :: u8 list)" by (metis image_eqI list.set_map)
  then have "code \<in> {4, 5, 6, 7, 8, 9, 10, 11, 12, 13, 14, 15, 16, 17, 18, 19, 20, 21, 22, 23, 24, 25, 26, 27, 28, 29}" by simp
  then show ?thesis
    by (elim insertE) (simp_all add: key_event_def scancode_to_inkey_def inkey_table_def scancode_to_ascii_def scancode_to_ascii_shifted_def)
qed

theorem letters_a_to_h_lost_witness:
  "key_event 0 0x04 = Some \<lparr>key_code = 0x62, key_char = 0, modifiers = 0\<rparr>"
  using letters_a_to_h_lost [of "0x04" 0]
  by (simp add: key_event_def scancode_to_inkey_def inkey_table_def usb_mod_to_riscos_def)

end
