(* ===== verification/Console.thy ===== *)
theory Console
  imports Draw Input Lib
begin

text \<open>
  The text side of drivers/gpu/framebuffer.c: characters (with the font of drivers/gpu/font8x8.c), the console with its
  character buffer and scrolling, \<open>con_printf\<close>, and the set-up of the screen by \<open>fb_init\<close> and \<open>gpu_init\<close>
  (drivers/gpu/gpu.c). A store outside the character buffer is a fault; the loop that expands tabs is a
  partial function, whose value is \<open>None\<close> when it never ends.
\<close>

section \<open>Characters\<close>

definition font8x8_basic :: "bytes list" where
  "font8x8_basic = [
     [0x00, 0x00, 0x00, 0x00, 0x00, 0x00, 0x00, 0x00], [0x7E, 0x81, 0xA5, 0x81, 0xBD, 0x99, 0x81, 0x7E],
     [0x7E, 0xFF, 0xDB, 0xFF, 0xC3, 0xE7, 0xFF, 0x7E], [0x6C, 0xFE, 0xFE, 0xFE, 0x7C, 0x38, 0x10, 0x00],
     [0x10, 0x38, 0x7C, 0xFE, 0x7C, 0x38, 0x10, 0x00], [0x38, 0x7C, 0x38, 0xFE, 0xFE, 0x10, 0x10, 0x7C],
     [0x00, 0x18, 0x3C, 0x7E, 0xFF, 0x7E, 0x18, 0x00], [0x00, 0x00, 0x00, 0x00, 0x00, 0x00, 0x00, 0x00],
     [0x00, 0x00, 0x00, 0x00, 0x00, 0x00, 0x00, 0x00], [0x00, 0x00, 0x00, 0x00, 0x00, 0x00, 0x00, 0x00],
     [0x00, 0x00, 0x00, 0x00, 0x00, 0x00, 0x00, 0x00], [0x00, 0x00, 0x00, 0x00, 0x00, 0x00, 0x00, 0x00],
     [0x00, 0x00, 0x00, 0x00, 0x00, 0x00, 0x00, 0x00], [0x00, 0x00, 0x00, 0x00, 0x00, 0x00, 0x00, 0x00],
     [0x00, 0x00, 0x00, 0x00, 0x00, 0x00, 0x00, 0x00], [0x00, 0x00, 0x00, 0x00, 0x00, 0x00, 0x00, 0x00],
     [0x00, 0x00, 0x00, 0x00, 0x00, 0x00, 0x00, 0x00], [0x00, 0x00, 0x00, 0x00, 0x00, 0x00, 0x00, 0x00],
     [0x00, 0x00, 0x00, 0x00, 0x00, 0x00, 0x00, 0x00], [0x00, 0x00, 0x00, 0x00, 0x00, 0x00, 0x00, 0x00],
     [0x00, 0x00, 0x00, 0x00, 0x00, 0x00, 0x00, 0x00], [0x00, 0x00, 0x00, 0x00, 0x00, 0x00, 0x00, 0x00],
     [0x00, 0x00, 0x00, 0x00, 0x00, 0x00, 0x00, 0x00], [0x00, 0x00, 0x00, 0x00, 0x00, 0x00, 0x00, 0x00],
     [0x00, 0x00, 0x00, 0x00, 0x00, 0x00, 0x00, 0x00], [0x00, 0x00, 0x00, 0x00, 0x00, 0x00, 0x00, 0x00],
     [0x00, 0x00, 0x00, 0x00, 0x00, 0x00, 0x00, 0x00], [0x00, 0x00, 0x00, 0x00, 0x00, 0x00, 0x00, 0x00],
     [0x00, 0x00, 0x00, 0x00, 0x00, 0x00, 0x00, 0x00], [0x00, 0x00, 0x00, 0x00, 0x00, 0x00, 0x00, 0x00],
     [0x00, 0x00, 0x00, 0x00, 0x00, 0x00, 0x00, 0x00], [0x00, 0x00, 0x00, 0x00, 0x00, 0x00, 0x00, 0x00],
     [0x00, 0x00, 0x00, 0x00, 0x00, 0x00, 0x00, 0x00], [0x18, 0x3C, 0x3C, 0x18, 0x18, 0x00, 0x18, 0x00],
     [0x66, 0x66, 0x24, 0x00, 0x00, 0x00, 0x00, 0x00], [0x6C, 0x6C, 0xFE, 0x6C, 0xFE, 0x6C, 0x6C, 0x00],
     [0x18, 0x3E, 0x60, 0x3C, 0x06, 0x7C, 0x18, 0x00], [0x00, 0xC6, 0xCC, 0x18, 0x30, 0x66, 0xC6, 0x00],
     [0x38, 0x6C, 0x38, 0x76, 0xDC, 0xCC, 0x76, 0x00], [0x18, 0x18, 0x30, 0x00, 0x00, 0x00, 0x00, 0x00],
     [0x0C, 0x18, 0x30, 0x30, 0x30, 0x18, 0x0C, 0x00], [0x30, 0x18, 0x0C, 0x0C, 0x0C, 0x18, 0x30, 0x00],
     [0x00, 0x66, 0x3C, 0xFF, 0x3C, 0x66, 0x00, 0x00], [0x00, 0x18, 0x18, 0x7E, 0x18, 0x18, 0x00, 0x00],
     [0x00, 0x00, 0x00, 0x00, 0x00, 0x18, 0x18, 0x30], [0x00, 0x00, 0x00, 0x7E, 0x00, 0x00, 0x00, 0x00],
     [0x00, 0x00, 0x00, 0x00, 0x00, 0x18, 0x18, 0x00], [0x06, 0x0C, 0x18, 0x30, 0x60, 0xC0, 0x80, 0x00],
     [0x7C, 0xC6, 0xCE, 0xDE, 0xF6, 0xE6, 0x7C, 0x00], [0x18, 0x38, 0x18, 0x18, 0x18, 0x18, 0x7E, 0x00],
     [0x7C, 0xC6, 0x06, 0x1C, 0x30, 0x66, 0xFE, 0x00], [0x7C, 0xC6, 0x06, 0x3C, 0x06, 0xC6, 0x7C, 0x00],
     [0x1C, 0x3C, 0x6C, 0xCC, 0xFE, 0x0C, 0x1E, 0x00], [0xFE, 0xC0, 0xC0, 0xFC, 0x06, 0xC6, 0x7C, 0x00],
     [0x38, 0x60, 0xC0, 0xFC, 0xC6, 0xC6, 0x7C, 0x00], [0xFE, 0xC6, 0x0C, 0x18, 0x30, 0x30, 0x30, 0x00],
     [0x7C, 0xC6, 0xC6, 0x7C, 0xC6, 0xC6, 0x7C, 0x00], [0x7C, 0xC6, 0xC6, 0x7E, 0x06, 0x0C, 0x78, 0x00],
     [0x00, 0x18, 0x18, 0x00, 0x00, 0x18, 0x18, 0x00], [0x00, 0x18, 0x18, 0x00, 0x00, 0x18, 0x18, 0x30],
     [0x06, 0x0C, 0x18, 0x30, 0x18, 0x0C, 0x06, 0x00], [0x00, 0x00, 0x7E, 0x00, 0x00, 0x7E, 0x00, 0x00],
     [0x60, 0x30, 0x18, 0x0C, 0x18, 0x30, 0x60, 0x00], [0x7C, 0xC6, 0x0C, 0x18, 0x18, 0x00, 0x18, 0x00],
     [0x7C, 0xC6, 0xDE, 0xDE, 0xDE, 0xC0, 0x78, 0x00], [0x38, 0x6C, 0xC6, 0xFE, 0xC6, 0xC6, 0xC6, 0x00],
     [0xFC, 0x66, 0x66, 0x7C, 0x66, 0x66, 0xFC, 0x00], [0x3C, 0x66, 0xC0, 0xC0, 0xC0, 0x66, 0x3C, 0x00],
     [0xF8, 0x6C, 0x66, 0x66, 0x66, 0x6C, 0xF8, 0x00], [0xFE, 0x62, 0x68, 0x78, 0x68, 0x62, 0xFE, 0x00],
     [0xFE, 0x62, 0x68, 0x78, 0x68, 0x60, 0xF0, 0x00], [0x3C, 0x66, 0xC0, 0xC0, 0xCE, 0x66, 0x3E, 0x00],
     [0xC6, 0xC6, 0xC6, 0xFE, 0xC6, 0xC6, 0xC6, 0x00], [0x3C, 0x18, 0x18, 0x18, 0x18, 0x18, 0x3C, 0x00],
     [0x1E, 0x0C, 0x0C, 0x0C, 0xCC, 0xCC, 0x78, 0x00], [0xE6, 0x66, 0x6C, 0x78, 0x6C, 0x66, 0xE6, 0x00],
     [0xF0, 0x60, 0x60, 0x60, 0x62, 0x66, 0xFE, 0x00], [0xC6, 0xEE, 0xFE, 0xFE, 0xD6, 0xC6, 0xC6, 0x00],
     [0xC6, 0xE6, 0xF6, 0xDE, 0xCE, 0xC6, 0xC6, 0x00], [0x7C, 0xC6, 0xC6, 0xC6, 0xC6, 0xC6, 0x7C, 0x00],
     [0xFC, 0x66, 0x66, 0x7C, 0x60, 0x60, 0xF0, 0x00], [0x7C, 0xC6, 0xC6, 0xC6, 0xC6, 0xCE, 0x7C, 0x0E],
     [0xFC, 0x66, 0x66, 0x7C, 0x6C, 0x66, 0xE6, 0x00], [0x3C, 0x66, 0x30, 0x18, 0x0C, 0x66, 0x3C, 0x00],
     [0x7E, 0x7E, 0x5A, 0x18, 0x18, 0x18, 0x3C, 0x00], [0xC6, 0xC6, 0xC6, 0xC6, 0xC6, 0xC6, 0x7C, 0x00],
     [0xC6, 0xC6, 0xC6, 0xC6, 0xC6, 0x6C, 0x38, 0x00], [0xC6, 0xC6, 0xC6, 0xD6, 0xFE, 0xEE, 0xC6, 0x00],
     [0xC6, 0xC6, 0x6C, 0x38, 0x38, 0x6C, 0xC6, 0x00], [0x66, 0x66, 0x66, 0x3C, 0x18, 0x18, 0x3C, 0x00],
     [0xFE, 0xC6, 0x8C, 0x18, 0x32, 0x66, 0xFE, 0x00], [0x3C, 0x30, 0x30, 0x30, 0x30, 0x30, 0x3C, 0x00],
     [0xC0, 0x60, 0x30, 0x18, 0x0C, 0x06, 0x02, 0x00], [0x3C, 0x0C, 0x0C, 0x0C, 0x0C, 0x0C, 0x3C, 0x00],
     [0x10, 0x38, 0x6C, 0xC6, 0x00, 0x00, 0x00, 0x00], [0x00, 0x00, 0x00, 0x00, 0x00, 0x00, 0x00, 0xFF],
     [0x30, 0x18, 0x0C, 0x00, 0x00, 0x00, 0x00, 0x00], [0x00, 0x00, 0x78, 0x0C, 0x7C, 0xCC, 0x76, 0x00],
     [0xE0, 0x60, 0x60, 0x7C, 0x66, 0x66, 0xDC, 0x00], [0x00, 0x00, 0x78, 0xCC, 0xC0, 0xCC, 0x78, 0x00],
     [0x1C, 0x0C, 0x0C, 0x7C, 0xCC, 0xCC, 0x76, 0x00], [0x00, 0x00, 0x78, 0xCC, 0xFC, 0xC0, 0x78, 0x00],
     [0x38, 0x6C, 0x60, 0xF0, 0x60, 0x60, 0xF0, 0x00], [0x00, 0x00, 0x76, 0xCC, 0xCC, 0x7C, 0x0C, 0xF8],
     [0xE0, 0x60, 0x6C, 0x76, 0x66, 0x66, 0xE6, 0x00], [0x18, 0x00, 0x38, 0x18, 0x18, 0x18, 0x3C, 0x00],
     [0x06, 0x00, 0x06, 0x06, 0x06, 0x66, 0x66, 0x3C], [0xE0, 0x60, 0x66, 0x6C, 0x78, 0x6C, 0xE6, 0x00],
     [0x38, 0x18, 0x18, 0x18, 0x18, 0x18, 0x3C, 0x00], [0x00, 0x00, 0xCC, 0xFE, 0xFE, 0xD6, 0xC6, 0x00],
     [0x00, 0x00, 0xF8, 0xCC, 0xCC, 0xCC, 0xCC, 0x00], [0x00, 0x00, 0x78, 0xCC, 0xCC, 0xCC, 0x78, 0x00],
     [0x00, 0x00, 0xDC, 0x66, 0x66, 0x7C, 0x60, 0xF0], [0x00, 0x00, 0x76, 0xCC, 0xCC, 0x7C, 0x0C, 0x1E],
     [0x00, 0x00, 0xDC, 0x76, 0x66, 0x60, 0xF0, 0x00], [0x00, 0x00, 0x7C, 0xC0, 0x78, 0x0C, 0xF8, 0x00],
     [0x10, 0x30, 0x7C, 0x30, 0x30, 0x34, 0x18, 0x00], [0x00, 0x00, 0xCC, 0xCC, 0xCC, 0xCC, 0x76, 0x00],
     [0x00, 0x00, 0xCC, 0xCC, 0xCC, 0x78, 0x30, 0x00], [0x00, 0x00, 0xC6, 0xD6, 0xFE, 0xFE, 0x6C, 0x00],
     [0x00, 0x00, 0xC6, 0x6C, 0x38, 0x6C, 0xC6, 0x00], [0x00, 0x00, 0xCC, 0xCC, 0xCC, 0x7C, 0x0C, 0xF8],
     [0x00, 0x00, 0xFC, 0x98, 0x30, 0x64, 0xFC, 0x00], [0x1C, 0x30, 0x30, 0xE0, 0x30, 0x30, 0x1C, 0x00],
     [0x18, 0x18, 0x18, 0x00, 0x18, 0x18, 0x18, 0x00], [0xE0, 0x30, 0x30, 0x1C, 0x30, 0x30, 0xE0, 0x00],
     [0x76, 0xDC, 0x00, 0x00, 0x00, 0x00, 0x00, 0x00], [0x00, 0x10, 0x38, 0x6C, 0xC6, 0xC6, 0xFE, 0x00]]"

definition glyph_row :: "u8 \<Rightarrow> nat \<Rightarrow> u8" where
  "glyph_row ch r = font8x8_basic ! unat (if ch < 128 then ch else 0x3F) ! r"

definition glyph_pixel :: "u8 \<Rightarrow> nat \<Rightarrow> nat \<Rightarrow> pixel \<Rightarrow> pixel \<Rightarrow> pixel" where
  "glyph_pixel ch r col fg bg = (if glyph_row ch r AND drop_bit col 0x80 \<noteq> 0 then fg else bg)"

definition fb_draw_char :: "int \<Rightarrow> int \<Rightarrow> u8 \<Rightarrow> pixel \<Rightarrow> pixel \<Rightarrow> framebuffer \<Rightarrow> framebuffer" where
  "fb_draw_char x y ch fg bg fb =
     fold (\<lambda>r. fold (\<lambda>col. fb_set_pixel (x + int col) (y + int r) (glyph_pixel ch r col fg bg)) [0..<8]) [0..<8] fb"

fun fb_draw_string :: "int \<Rightarrow> int \<Rightarrow> bytes \<Rightarrow> pixel \<Rightarrow> pixel \<Rightarrow> framebuffer \<Rightarrow> framebuffer" where
  "fb_draw_string x y [] fg bg fb = fb"
| "fb_draw_string x y (ch # s) fg bg fb =
     (if ch = 0x0A then fb_draw_string 0 (y + 8) s fg bg fb
      else fb_draw_string (x + 8) y s fg bg (fb_draw_char x y ch fg bg fb))"

fun fb_draw_string_scaled :: "int \<Rightarrow> int \<Rightarrow> bytes \<Rightarrow> pixel \<Rightarrow> pixel \<Rightarrow> int \<Rightarrow> framebuffer \<Rightarrow> framebuffer" where
  "fb_draw_string_scaled x y [] fg bg sc fb = fb"
| "fb_draw_string_scaled x y (ch # s) fg bg sc fb =
     (if ch = 0x0A then fb_draw_string_scaled 0 (y + 8 * sc) s fg bg sc fb
      else fb_draw_string_scaled (x + 8 * sc) y s fg bg sc
        (fold (\<lambda>r. fold (\<lambda>col. fb_fill_rect (x + int col * sc) (y + int r * sc) sc sc (glyph_pixel ch r col fg bg)) [0..<8]) [0..<8] fb))"

section \<open>The console\<close>

record console =
  con_cc :: nat
  con_cr :: nat
  con_cols :: nat
  con_rows :: nat
  con_fg :: pixel
  con_bg :: pixel
  con_buf :: "bytes list"

record screen =
  scr_fb :: framebuffer
  scr_con :: console

definition CMAX_C :: nat where "CMAX_C = 120"
definition CMAX_R :: nat where "CMAX_R = 64"

definition con_boot :: console where
  "con_boot = \<lparr>con_cc = 0, con_cr = 0, con_cols = 0, con_rows = 0, con_fg = COL_WHITE, con_bg = COL_BLACK,
     con_buf = replicate CMAX_R (replicate CMAX_C 0)\<rparr>"

definition con_upd :: "(console \<Rightarrow> console) \<Rightarrow> screen \<Rightarrow> screen" where
  "con_upd f s = s\<lparr>scr_con := f (scr_con s)\<rparr>"

text \<open>The differences are unsigned.\<close>

definition con_init :: "screen \<Rightarrow> screen" where
  "con_init s =
     (if \<not> fb_valid (scr_fb s) then s
      else
        let cols = nat ((int (fb_width (scr_fb s)) - 8) mod 2 ^ 32) div 8; rows = nat ((int (fb_height (scr_fb s)) - 36) mod 2 ^ 32) div 10
        in con_upd (\<lambda>k. k\<lparr>con_cols := (if cols > CMAX_C then CMAX_C else cols), con_rows := (if rows > CMAX_R then CMAX_R else rows),
             con_cc := 0, con_cr := 0, con_buf := replicate CMAX_R (replicate CMAX_C 0x20)\<rparr>) s)"

definition con_set_colours :: "pixel \<Rightarrow> pixel \<Rightarrow> screen \<Rightarrow> screen" where
  "con_set_colours fg bg s = con_upd (\<lambda>k. k\<lparr>con_fg := fg, con_bg := bg\<rparr>) s"

definition con_clear :: "screen \<Rightarrow> screen" where
  "con_clear s =
     (if \<not> fb_valid (scr_fb s) then s
      else con_upd (\<lambda>k. k\<lparr>con_buf := replicate CMAX_R (replicate CMAX_C 0x20), con_cc := 0, con_cr := 0\<rparr>)
        (s\<lparr>scr_fb := fb_fill_rect 0 36 (int (fb_width (scr_fb s))) (int (fb_height (scr_fb s)) - 36) (con_bg (scr_con s)) (scr_fb s)\<rparr>))"

definition con_cell :: "nat \<Rightarrow> nat \<Rightarrow> u8 \<Rightarrow> console \<Rightarrow> framebuffer \<Rightarrow> framebuffer" where
  "con_cell r c ch k fb = fb_draw_char (4 + int c * 8) (36 + int r * 10) ch (con_fg k) (con_bg k) fb"

definition con_render :: "nat \<Rightarrow> screen \<Rightarrow> screen" where
  "con_render row s = s\<lparr>scr_fb := fold (\<lambda>c. con_cell row c (con_buf (scr_con s) ! row ! c) (scr_con s)) [0..<con_cols (scr_con s)] (scr_fb s)\<rparr>"

definition con_copy_row :: "nat \<Rightarrow> screen \<Rightarrow> screen" where
  "con_copy_row r s =
     con_render r (con_upd (\<lambda>k. k\<lparr>con_buf := (con_buf k)[r := take (con_cols k) (con_buf k ! (r + 1)) @ drop (con_cols k) (con_buf k ! r)]\<rparr>) s)"

text \<open>A console without rows, which \<open>con_init\<close> does not set up, would blank the row before the buffer.\<close>

definition con_scroll :: "screen \<Rightarrow> screen option" where
  "con_scroll s =
     (let rows = con_rows (scr_con s)
      in if rows = 0 then None
         else
           let s = fold con_copy_row [0..<rows - 1] s;
               s = con_upd (\<lambda>k. k\<lparr>con_buf := (con_buf k)[rows - 1 := replicate (con_cols k) 0x20 @ drop (con_cols k) (con_buf k ! (rows - 1))]\<rparr>) s;
               s = con_render (rows - 1) s
           in Some (con_upd (\<lambda>k. k\<lparr>con_cr := rows - 1\<rparr>) s))"

definition con_newline :: "screen \<Rightarrow> screen option" where
  "con_newline s =
     (let s = con_upd (\<lambda>k. k\<lparr>con_cc := 0, con_cr := con_cr k + 1\<rparr>) s
      in if con_cr (scr_con s) \<ge> con_rows (scr_con s) then con_scroll s else Some s)"

definition con_store :: "u8 \<Rightarrow> screen \<Rightarrow> screen option" where
  "con_store ch s =
     (let k = scr_con s
      in if con_cr k < CMAX_R \<and> con_cc k < CMAX_C then
           Some (s\<lparr>scr_con := k\<lparr>con_buf := (con_buf k)[con_cr k := (con_buf k ! con_cr k)[con_cc k := ch]]\<rparr>,
             scr_fb := con_cell (con_cr k) (con_cc k) ch k (scr_fb s)\<rparr>)
         else None)"

text \<open>The path of a character that is not a control character.\<close>

definition con_char :: "u8 \<Rightarrow> screen \<Rightarrow> screen option" where
  "con_char ch s = do {
     s \<leftarrow> con_store ch s;
     if con_cc (scr_con s) + 1 \<ge> con_cols (scr_con s) then con_newline s
     else Some (con_upd (\<lambda>k. k\<lparr>con_cc := con_cc k + 1\<rparr>) s)
   }"

partial_function (option) con_tab :: "nat \<Rightarrow> screen \<Rightarrow> screen option" where
  "con_tab n s = (if con_cc (scr_con s) < n then do { s \<leftarrow> con_char 0x20 s; con_tab n s } else Some s)"

declare con_tab.simps [code]

definition con_putc :: "u8 \<Rightarrow> screen \<Rightarrow> screen option" where
  "con_putc ch s =
     (let k = scr_con s
      in if \<not> fb_valid (scr_fb s) then Some s
         else if ch = 0x0D then Some (con_upd (\<lambda>k. k\<lparr>con_cc := 0\<rparr>) s)
         else if ch = 0x0A then con_newline s
         else if ch = 0x09 then con_tab ((con_cc k + 4) div 4 * 4) s
         else if ch = 0x08 then
           (if con_cc k > 0 then con_store 0x20 (con_upd (\<lambda>k. k\<lparr>con_cc := con_cc k - 1\<rparr>) s)
            else if con_cr k > 0 then con_store 0x20 (con_upd (\<lambda>k. k\<lparr>con_cr := con_cr k - 1, con_cc := con_cols k - 1\<rparr>) s)
            else Some s)
         else con_char ch s)"

fun con_puts :: "bytes \<Rightarrow> screen \<Rightarrow> screen option" where
  "con_puts [] s = Some s"
| "con_puts (ch # cs) s = do { s \<leftarrow> con_putc ch s; con_puts cs s }"

text \<open>The text of \<open>con_printf\<close>, with its arguments as words and \<open>str\<close> the string at an address.\<close>

fun con_format :: "(u64 \<Rightarrow> string) \<Rightarrow> string \<Rightarrow> u64 list \<Rightarrow> string option" where
  "con_format str [] args = Some []"
| "con_format str (c # f) args =
     (if c \<noteq> CHR ''%'' then do { t \<leftarrow> con_format str f args; Some (c # t) }
      else
        (case f of
           [] \<Rightarrow> None
         | d # f' \<Rightarrow>
             if d \<in> {CHR ''s'', CHR ''d'', CHR ''u'', CHR ''x'', CHR ''c''} then
               (case args of
                  [] \<Rightarrow> None
                | a # args \<Rightarrow> do {
                    t \<leftarrow> con_format str f' args;
                    Some ((if d = CHR ''s'' then (if a = 0 then ''(null)'' else str a)
                      else if d = CHR ''d'' then print_d (ucast a)
                      else if d = CHR ''u'' then print_unsigned (unat (ucast a :: u32))
                      else if d = CHR ''x'' then ''0x'' @ map (\<lambda>k. digit (unat (drop_bit (4 * k) (ucast a :: u32) AND 0xF))) [7, 6, 5, 4, 3, 2, 1, 0]
                      else [char_of (unat (ucast a :: u8))]) @ t)
                  })
             else do { t \<leftarrow> con_format str f' args; Some ((if d = CHR ''%'' then ''%'' else [CHR ''%'', d]) @ t) }))"

definition text_bytes :: "string \<Rightarrow> bytes" where
  "text_bytes t = map (\<lambda>c. of_nat (of_char c)) t"

definition con_printf :: "(u64 \<Rightarrow> string) \<Rightarrow> string \<Rightarrow> u64 list \<Rightarrow> screen \<Rightarrow> screen option" where
  "con_printf str fmt args s = do { t \<leftarrow> con_format str fmt args; con_puts (text_bytes t) s }"

section \<open>Setting up the screen\<close>

text \<open>The request to the firmware; \<open>call\<close> is \<open>mbox_call\<close>, which overwrites the buffer with the answer.\<close>

definition fb_request :: "u32 \<Rightarrow> u32 \<Rightarrow> u32 list" where
  "fb_request w h =
     [140, 0, 0x00048003, 8, 0, w, h, 0x00048004, 8, 0, w, h, 0x00048009, 8, 0, 0, 0, 0x00048005, 4, 0, 32, 0x00048006, 4, 0, 1,
      0x00040001, 8, 0, 4096, 0, 0x00040008, 4, 0, 0, 0, 0]"

text \<open>\<open>mem\<close> is what the frame buffer that the firmware provides holds.\<close>

definition fb_init :: "(u32 list \<Rightarrow> int \<times> u32 list) \<Rightarrow> (nat \<Rightarrow> pixel) \<Rightarrow> u32 \<Rightarrow> u32 \<Rightarrow> framebuffer \<Rightarrow> int \<times> framebuffer" where
  "fb_init call mem w h fb =
     (let (rc, mbox) = call (fb_request w h)
      in if rc \<noteq> 0 then (-1, fb)
         else
           let gpu_addr = mbox ! 28; pitch = (if mbox ! 33 \<noteq> 0 then mbox ! 33 else w * 4)
           in if gpu_addr = 0 then (-1, fb)
              else
                let fb = \<lparr>fb_width = unat w, fb_height = unat h, fb_pitch = unat pitch, fb_base = ucast (gpu_addr AND 0x3FFFFFFF),
                       fb_size = mbox ! 29, fb_valid = True, vmem = mem\<rparr>;
                    fb = fb_fill_rect 0 0 32 32 (RGB 255 0 0) fb;
                    fb = fb_fill_rect (sint (w - 32)) 0 32 32 (RGB 0 255 0) fb;
                    fb = fb_fill_rect 0 (sint (h - 32)) 32 32 (RGB 0 0 255) fb;
                    fb = fb_fill_rect (sint (w - 32)) (sint (h - 32)) 32 32 (RGB 255 255 255) fb
                in (0, fb))"

definition modes :: "(u32 \<times> u32) list" where
  "modes = [(1920, 1080), (1280, 720), (640, 480)]"

fun try_modes :: "(u32 list \<Rightarrow> int \<times> u32 list) \<Rightarrow> (nat \<Rightarrow> pixel) \<Rightarrow> (u32 \<times> u32) list \<Rightarrow> framebuffer \<Rightarrow> framebuffer option" where
  "try_modes call mem [] fb = None"
| "try_modes call mem ((w, h) # ms) fb = (let (rc, fb') = fb_init call mem w h fb in if rc = 0 then Some fb' else try_modes call mem ms fb')"

text \<open>\<open>gpu_init\<close>: the screen, the bounds of the mouse, and the first lines on the console.\<close>

definition gpu_init ::
  "(u32 list \<Rightarrow> int \<times> u32 list) \<Rightarrow> (nat \<Rightarrow> pixel) \<Rightarrow> screen \<times> input \<Rightarrow> (screen \<times> input) option" where
  "gpu_init call mem = (\<lambda>(s, inp).
     case try_modes call mem modes (scr_fb s) of
       None \<Rightarrow> Some (s, inp)
     | Some fb \<Rightarrow> do {
         let inp = mouse_set_bounds (sint (of_nat (fb_width fb) :: 16 word)) (sint (of_nat (fb_height fb) :: 16 word)) inp;
         let fb = fb_clear COL_RISCOS_GREY fb;
         let fb = fb_fill_rect 0 0 (int (fb_width fb)) 36 (RGB 0 0 160) fb;
         let fb = fb_draw_string_scaled 10 4 (text_bytes ''Phoenix RISC OS'') COL_WHITE (RGB 0 0 160) 3 fb;
         let fb = fb_draw_string_scaled (int (fb_width fb) - 120) 10 (text_bytes ''v0.205'') (RGB 180 220 255) (RGB 0 0 160) 2 fb;
         let fb = fb_fill_rect 0 36 (int (fb_width fb)) 2 (RGB 0 0 100) fb;
         let s = con_init (s\<lparr>scr_fb := fb\<rparr>);
         let s = con_set_colours (RGB 20 20 20) COL_RISCOS_GREY s;
         s \<leftarrow> con_printf (\<lambda>_. []) (''  Video:  %dx%d  32bpp'' @ [CHR 0x0A]) [of_nat (fb_width fb), of_nat (fb_height fb)] s;
         Some (s, inp)
       })"

section \<open>What the console writes\<close>

definition in_box :: "int \<Rightarrow> int \<Rightarrow> int \<Rightarrow> int \<Rightarrow> bool" where
  "in_box x y a b \<longleftrightarrow> x \<le> a \<and> a < x + 8 \<and> y \<le> b \<and> b < y + 8"

lemma draw_char_plot:
  "fb_draw_char x y ch fg bg fb = plot (concat (map (\<lambda>r. map (\<lambda>col. (x + int col, y + int r, glyph_pixel ch r col fg bg)) [0..<8]) [0..<8])) fb"
proof -
  have row: "fold (\<lambda>col. fb_set_pixel (x + int col) (y + int r) (glyph_pixel ch r col fg bg)) xs fb = plot (map (\<lambda>col. (x + int col, y + int r, glyph_pixel ch r col fg bg)) xs) fb" for r xs fb
    by (induction xs arbitrary: fb) simp_all
  show ?thesis unfolding fb_draw_char_def by (rule fold_plot) (rule row)
qed

lemma get_draw_char:
  assumes "fb_ok fb"
  shows "fb_get_pixel a b (fb_draw_char x y ch fg bg fb) =
    (if on_screen fb a b \<and> in_box x y a b then glyph_pixel ch (nat (b - y)) (nat (a - x)) fg bg else fb_get_pixel a b fb)"
proof -
  let ?ps = "concat (map (\<lambda>r. map (\<lambda>col. (x + int col, y + int r, glyph_pixel ch r col fg bg)) [0..<8]) [0..<8])"
  have s: "set ?ps = (\<lambda>(r, col). (x + int col, y + int r, glyph_pixel ch r col fg bg)) ` ({..<8} \<times> {..<8})"
    by (auto simp del: upt_rec_numeral)
  have "(a, b) \<in> (\<lambda>(a, b, c). (a, b)) ` set ?ps \<longleftrightarrow> in_box x y a b"
  proof
    assume "in_box x y a b"
    then have "nat (b - y) < 8" "nat (a - x) < 8" "x + int (nat (a - x)) = a" "y + int (nat (b - y)) = b" by (auto simp: in_box_def)
    then have "(a, b, glyph_pixel ch (nat (b - y)) (nat (a - x)) fg bg) \<in> set ?ps" unfolding s by force
    then show "(a, b) \<in> (\<lambda>(a, b, c). (a, b)) ` set ?ps" by force
  qed (auto simp: s in_box_def)
  moreover have "c = glyph_pixel ch (nat (b - y)) (nat (a - x)) fg bg" if "(a, b, c) \<in> set ?ps" for a b c using that by (auto simp: s)
  ultimately show ?thesis
    unfolding draw_char_plot using get_plot [OF assms, of ?ps "\<lambda>a b. glyph_pixel ch (nat (b - y)) (nat (a - x)) fg bg" a b] by auto
qed

lemma draw_char_geometry [simp]:
  "fb_ok (fb_draw_char x y ch fg bg fb) = fb_ok fb" "on_screen (fb_draw_char x y ch fg bg fb) = on_screen fb"
  "fb_valid (fb_draw_char x y ch fg bg fb) = fb_valid fb"
  "fb_width (fb_draw_char x y ch fg bg fb) = fb_width fb" "fb_height (fb_draw_char x y ch fg bg fb) = fb_height fb"
  unfolding draw_char_plot by (rule plot_geometry)+

lemmas con_defs = con_upd_def con_render_def con_copy_row_def con_cell_def

text \<open>The cell in row \<open>r\<close> and column \<open>c\<close> of the screen shows \<open>ch\<close>.\<close>

definition shown :: "framebuffer \<Rightarrow> console \<Rightarrow> nat \<Rightarrow> nat \<Rightarrow> u8 \<Rightarrow> bool" where
  "shown fb k r c ch \<longleftrightarrow> list_all (\<lambda>i. list_all (\<lambda>j.
     fb_get_pixel (4 + int c * 8 + int j) (36 + int r * 10 + int i) fb = glyph_pixel ch i j (con_fg k) (con_bg k)) [0..<8]) [0..<8]"

lemma shown_iff:
  "shown fb k r c ch \<longleftrightarrow> (\<forall>i<8. \<forall>j<8. fb_get_pixel (4 + int c * 8 + int j) (36 + int r * 10 + int i) fb = glyph_pixel ch i j (con_fg k) (con_bg k))"
  unfolding shown_def list_all_iff by (auto simp del: upt_rec_numeral)

definition fits :: "framebuffer \<Rightarrow> console \<Rightarrow> bool" where
  "fits fb k \<longleftrightarrow> fb_ok fb \<and> fb_valid fb \<and> 0 < con_cols k \<and> con_cols k \<le> CMAX_C \<and> 0 < con_rows k \<and> con_rows k \<le> CMAX_R \<and>
     4 + con_cols k * 8 \<le> fb_width fb \<and> 36 + con_rows k * 10 \<le> fb_height fb"

lemma cell_shown:
  assumes "fits fb k" "r < con_rows k" "c < con_cols k"
  shows "shown (con_cell r c ch k fb) k r c ch"
proof -
  have "on_screen fb (4 + int c * 8 + int j) (36 + int r * 10 + int i)" if "i < 8" "j < 8" for i j
    using that assms by (auto simp: on_screen_def fits_def)
  then show ?thesis using assms(1) by (auto simp: shown_iff con_cell_def get_draw_char fits_def in_box_def)
qed

lemma cell_other:
  assumes "fits fb k" "(r', c') \<noteq> (r, c)"
  shows "shown (con_cell r c ch k fb) k' r' c' ch' = shown fb k' r' c' ch'"
proof -
  have "\<not> in_box (4 + int c * 8) (36 + int r * 10) (4 + int c' * 8 + int j) (36 + int r' * 10 + int i)" if "i < 8" "j < 8" for i j
    using that assms(2) by (auto simp: in_box_def)
  then show ?thesis using assms(1) by (auto simp: shown_iff con_cell_def get_draw_char fits_def)
qed

lemma cell_fits [simp]: "fits (con_cell r c ch k fb) k' = fits fb k'"
  by (simp add: fits_def con_cell_def)

lemma render_cells:
  fixes f :: "nat \<Rightarrow> u8"
  assumes "n \<le> con_cols k" "r < con_rows k" "fits fb k"
  defines "fb' \<equiv> fold (\<lambda>c. con_cell r c (f c) k) [0..<n] fb"
  shows "fits fb' k' = fits fb k'" "\<And>c. c < n \<Longrightarrow> shown fb' k r c (f c)"
    "\<And>r' c' k' ch. r' \<noteq> r \<or> n \<le> c' \<Longrightarrow> shown fb' k' r' c' ch = shown fb k' r' c' ch"
proof -
  have "fits (fold (\<lambda>c. con_cell r c (f c) k) [0..<n] fb) k' = fits fb k' \<and> (\<forall>c<n. shown (fold (\<lambda>c. con_cell r c (f c) k) [0..<n] fb) k r c (f c)) \<and>
     (\<forall>r' c' k' ch. r' \<noteq> r \<or> n \<le> c' \<longrightarrow> shown (fold (\<lambda>c. con_cell r c (f c) k) [0..<n] fb) k' r' c' ch = shown fb k' r' c' ch)" for k'
    using assms(1)
  proof (induction n arbitrary: k')
    case (Suc n)
    let ?fb = "fold (\<lambda>c. con_cell r c (f c) k) [0..<n] fb"
    have ft: "fits ?fb k" using Suc.IH [of k] Suc.prems assms(3) by simp
    have "shown (con_cell r n (f n) k ?fb) k r c (f c)" if "c < Suc n" for c
      using that cell_shown [OF ft assms(2), of n "f n"] cell_other [OF ft, of r c r n "f n"] Suc by (cases "c = n") auto
    moreover have "shown (con_cell r n (f n) k ?fb) k' r' c' ch = shown fb k' r' c' ch" if "r' \<noteq> r \<or> Suc n \<le> c'" for r' c' k' ch
      using that cell_other [OF ft, of r' c' r n "f n" k' ch] Suc by auto
    ultimately show ?case using Suc by simp
  qed simp
  then show "fits fb' k' = fits fb k'" "\<And>c. c < n \<Longrightarrow> shown fb' k r c (f c)"
    "\<And>r' c' k' ch. r' \<noteq> r \<or> n \<le> c' \<Longrightarrow> shown fb' k' r' c' ch = shown fb k' r' c' ch" unfolding fb'_def by blast+
qed

section \<open>Scrolling\<close>

definition con_wf :: "screen \<Rightarrow> bool" where
  "con_wf s \<longleftrightarrow> fits (scr_fb s) (scr_con s) \<and> length (con_buf (scr_con s)) = CMAX_R \<and> list_all (\<lambda>row. length row = CMAX_C) (con_buf (scr_con s))"

definition synced :: "screen \<Rightarrow> nat \<Rightarrow> bool" where
  "synced s r \<longleftrightarrow> (\<forall>c<con_cols (scr_con s). shown (scr_fb s) (scr_con s) r c (con_buf (scr_con s) ! r ! c))"

definition same_dims :: "console \<Rightarrow> console \<Rightarrow> bool" where
  "same_dims k k' \<longleftrightarrow> con_cols k' = con_cols k \<and> con_rows k' = con_rows k \<and> con_fg k' = con_fg k \<and> con_bg k' = con_bg k"

lemma same_dims_fits: "same_dims k k' \<Longrightarrow> fits fb k' = fits fb k" "same_dims k k' \<Longrightarrow> shown fb k' = shown fb k"
  by (auto simp: same_dims_def fits_def shown_def fun_eq_iff)

definition put_row :: "nat \<Rightarrow> bytes \<Rightarrow> screen \<Rightarrow> screen" where
  "put_row r xs s = con_render r (con_upd (\<lambda>k. k\<lparr>con_buf := (con_buf k)[r := xs @ drop (con_cols k) (con_buf k ! r)]\<rparr>) s)"

lemma put_row:
  assumes "con_wf s" "r < con_rows (scr_con s)" "length xs = con_cols (scr_con s)"
  defines "s' \<equiv> put_row r xs s"
  shows "con_wf s'" "scr_con s' = (scr_con s)\<lparr>con_buf := (con_buf (scr_con s))[r := xs @ drop (con_cols (scr_con s)) (con_buf (scr_con s) ! r)]\<rparr>"
    "synced s' r" "\<And>r'. r' \<noteq> r \<Longrightarrow> synced s' r' = synced s r'"
proof -
  let ?k = "scr_con s"
  define k' where "k' = ?k\<lparr>con_buf := (con_buf ?k)[r := xs @ drop (con_cols ?k) (con_buf ?k ! r)]\<rparr>"
  have d: "same_dims ?k k'" by (simp add: same_dims_def k'_def)
  have r: "r < length (con_buf ?k)" "length (con_buf ?k ! r) = CMAX_C" and f: "fits (scr_fb s) ?k"
    using assms(1,2) by (auto simp: con_wf_def fits_def list_all_length)
  define g where "g = (\<lambda>c. con_buf k' ! r ! c)"
  have k: "con_cols k' = con_cols ?k" "con_rows k' = con_rows ?k" by (simp_all add: k'_def)
  have s': "s' = \<lparr>scr_fb = fold (\<lambda>c. con_cell r c (g c) k') [0..<con_cols k'] (scr_fb s), scr_con = k'\<rparr>"
    unfolding s'_def put_row_def con_render_def con_upd_def g_def k'_def by simp
  have fk: "fits (scr_fb s) k'" using same_dims_fits(1) [OF d] f by simp
  have rk: "r < con_rows k'" using assms(2) k by simp
  note rc = render_cells [OF order_refl rk fk, where f = g]
  show "scr_con s' = ?k\<lparr>con_buf := (con_buf ?k)[r := xs @ drop (con_cols ?k) (con_buf ?k ! r)]\<rparr>" by (simp add: s' k'_def)
  have "list_all (\<lambda>row. length row = CMAX_C) (con_buf k')"
    using assms(1,3) r f by (auto simp: k'_def con_wf_def list_all_length nth_list_update fits_def)
  then show "con_wf s'" using assms(1) rc(1) [of k'] fk by (simp add: con_wf_def s' k'_def)
  show "synced s' r" using rc(2) by (simp add: synced_def s' g_def)
  show "synced s' r' = synced s r'" if "r' \<noteq> r" for r'
  proof -
    have "con_buf k' ! r' = con_buf ?k ! r'" using that by (simp add: k'_def)
    then show ?thesis using rc(3) [of r'] that k same_dims_fits(2) [OF d] by (simp add: synced_def s')
  qed
qed

lemma copy_row_put: "con_copy_row r s = put_row r (take (con_cols (scr_con s)) (con_buf (scr_con s) ! (r + 1))) s"
  by (simp add: con_copy_row_def put_row_def con_upd_def con_render_def)

lemma copy_rows:
  assumes "con_wf s" "n < con_rows (scr_con s)"
  defines "s' \<equiv> fold con_copy_row [0..<n] s"
  shows "con_wf s' \<and> (\<exists>b. scr_con s' = (scr_con s)\<lparr>con_buf := b\<rparr>) \<and> (\<forall>r<n. synced s' r) \<and> (\<forall>r\<ge>n. synced s' r = synced s r) \<and>
    (\<forall>r<n. \<forall>c<con_cols (scr_con s). con_buf (scr_con s') ! r ! c = con_buf (scr_con s) ! (r + 1) ! c) \<and>
    (\<forall>r\<ge>n. con_buf (scr_con s') ! r = con_buf (scr_con s) ! r)"
  unfolding s'_def using assms(2)
proof (induction n)
  case 0
  then show ?case using assms(1) by (auto intro!: exI [of _ "con_buf (scr_con s)"])
next
  case (Suc n)
  let ?s = "fold con_copy_row [0..<n] s"
  define xs where "xs = take (con_cols (scr_con ?s)) (con_buf (scr_con ?s) ! (n + 1))"
  obtain b where b: "scr_con ?s = (scr_con s)\<lparr>con_buf := b\<rparr>" using Suc by auto
  have wf: "con_wf ?s" using Suc by simp
  then have l: "length b = CMAX_R" "length (b ! (n + 1)) = CMAX_C" "length (b ! n) = CMAX_C" "con_cols (scr_con s) \<le> CMAX_C"
    using b Suc.prems by (auto simp: con_wf_def fits_def list_all_length)
  have n: "n < con_rows (scr_con ?s)" using b Suc.prems by simp
  have lx: "length xs = con_cols (scr_con ?s)" using l b by (simp add: xs_def)
  note pr = put_row [OF wf n lx]
  have e: "fold con_copy_row [0..<Suc n] s = put_row n xs ?s" by (simp add: copy_row_put xs_def)
  have c: "scr_con (put_row n xs ?s) = (scr_con s)\<lparr>con_buf := b[n := xs @ drop (con_cols (scr_con s)) (b ! n)]\<rparr>" using pr(2) b by simp
  have new: "con_buf (scr_con (put_row n xs ?s)) ! n ! c = con_buf (scr_con s) ! (n + 1) ! c" if "c < con_cols (scr_con s)" for c
  proof -
    have "n < length b" using l Suc.prems wf b by (simp add: con_wf_def fits_def)
    then have "con_buf (scr_con (put_row n xs ?s)) ! n ! c = b ! (n + 1) ! c" using c that lx b l(2,4) by (simp add: xs_def nth_append)
    then show ?thesis using Suc b by simp
  qed
  have old: "con_buf (scr_con (put_row n xs ?s)) ! r = b ! r" if "r \<noteq> n" for r using c that by simp
  have IH: "\<forall>r<n. synced ?s r" "\<forall>r\<ge>n. synced ?s r = synced s r" "\<forall>r<n. \<forall>c<con_cols (scr_con s). b ! r ! c = con_buf (scr_con s) ! (r + 1) ! c"
    "\<forall>r\<ge>n. b ! r = con_buf (scr_con s) ! r" using Suc b by auto
  have "\<forall>r<Suc n. synced (put_row n xs ?s) r" "\<forall>r\<ge>Suc n. synced (put_row n xs ?s) r = synced s r" using pr(3,4) IH(1,2) by (auto simp: less_Suc_eq)
  moreover have "\<forall>r<Suc n. \<forall>c<con_cols (scr_con s). con_buf (scr_con (put_row n xs ?s)) ! r ! c = con_buf (scr_con s) ! (r + 1) ! c"
    using new old IH(3) by (auto simp: less_Suc_eq)
  moreover have "\<forall>r\<ge>Suc n. con_buf (scr_con (put_row n xs ?s)) ! r = con_buf (scr_con s) ! r" using old IH(4) by auto
  ultimately show ?case unfolding e using pr(1) c by blast
qed

lemma scroll_rows:
  assumes "con_wf s" "\<forall>r<con_rows (scr_con s). synced s r"
  shows "\<exists>s' b. con_scroll s = Some s' \<and> con_wf s' \<and> scr_con s' = (scr_con s)\<lparr>con_buf := b, con_cr := con_rows (scr_con s) - 1\<rparr> \<and>
    (\<forall>r<con_rows (scr_con s). synced s' r) \<and>
    (\<forall>r<con_rows (scr_con s) - 1. \<forall>c<con_cols (scr_con s). b ! r ! c = con_buf (scr_con s) ! (r + 1) ! c) \<and>
    (\<forall>c<con_cols (scr_con s). b ! (con_rows (scr_con s) - 1) ! c = 0x20)"
proof -
  let ?n = "con_rows (scr_con s) - 1" and ?m = "con_cols (scr_con s)"
  have rows: "0 < con_rows (scr_con s)" "con_rows (scr_con s) \<le> CMAX_R" "?m \<le> CMAX_C" using assms(1) by (auto simp: con_wf_def fits_def)
  define s1 where "s1 = fold con_copy_row [0..<?n] s"
  have "?n < con_rows (scr_con s)" using rows by simp
  note cr = copy_rows [OF assms(1) this, folded s1_def]
  then obtain b where b: "scr_con s1 = (scr_con s)\<lparr>con_buf := b\<rparr>" by blast
  have wf: "con_wf s1" using cr by blast
  have n: "?n < con_rows (scr_con s1)" and lx: "length (replicate ?m (0x20 :: u8)) = con_cols (scr_con s1)" using b rows by simp_all
  define s2 where "s2 = put_row ?n (replicate ?m 0x20) s1"
  note pr = put_row [OF wf n lx, folded s2_def]
  define b2 where "b2 = b[?n := replicate ?m 0x20 @ drop ?m (b ! ?n)]"
  have c2: "scr_con s2 = (scr_con s)\<lparr>con_buf := b2\<rparr>" using pr(2) b by (simp add: b2_def)
  have lb: "?n < length b" using wf b rows by (simp add: con_wf_def)
  have "con_scroll s = Some (con_upd (\<lambda>k. k\<lparr>con_cr := ?n\<rparr>) s2)"
    unfolding con_scroll_def Let_def s1_def [symmetric] s2_def put_row_def using rows b by (simp del: One_nat_def) (simp add: con_upd_def)
  moreover have "con_wf (con_upd (\<lambda>k. k\<lparr>con_cr := ?n\<rparr>) s2)" "\<And>r. synced (con_upd (\<lambda>k. k\<lparr>con_cr := ?n\<rparr>) s2) r = synced s2 r"
    using pr(1) by (simp_all add: con_wf_def con_upd_def fits_def synced_def shown_def)
  moreover have "synced s2 r" if "r < con_rows (scr_con s)" for r
  proof (cases "r = ?n")
    case False
    then have "r < ?n" using that by simp
    then show ?thesis using pr(4) cr False by blast
  qed (use pr(3) in simp)
  moreover have "b2 ! r ! c = con_buf (scr_con s) ! (r + 1) ! c" if "r < ?n" "c < ?m" for r c using cr b that by (simp add: b2_def)
  moreover have "b2 ! ?n ! c = 0x20" if "c < ?m" for c using that lb by (simp add: b2_def nth_append)
  ultimately show ?thesis using c2 by (intro exI [of _ "con_upd (\<lambda>k. k\<lparr>con_cr := ?n\<rparr>) s2"] exI [of _ b2]) (simp add: con_upd_def)
qed

section \<open>The console shows the end of the text\<close>

text \<open>
  The text so far as rows of at most \<open>w\<close> characters: a new row begins at a newline and when a row is full. On a screen
  of \<open>h\<close> rows the last \<open>h\<close> of them are seen, filled up with spaces.
\<close>

definition log_put :: "nat \<Rightarrow> u8 \<Rightarrow> bytes list \<Rightarrow> bytes list" where
  "log_put w ch log =
     (if ch = 0x0A then log @ [[]]
      else let row = last log @ [ch] in if length row < w then butlast log @ [row] else butlast log @ [row, []])"

definition log_text :: "nat \<Rightarrow> bytes \<Rightarrow> bytes list" where
  "log_text w text = fold (log_put w) text [[]]"

definition display :: "nat \<Rightarrow> bytes list \<Rightarrow> nat \<Rightarrow> nat \<Rightarrow> u8" where
  "display h log r c =
     (let i = length log - h + r in if i < length log \<and> c < length (log ! i) then log ! i ! c else 0x20)"

definition con_shows :: "screen \<Rightarrow> bytes list \<Rightarrow> bool" where
  "con_shows s log \<longleftrightarrow> con_wf s \<and> (\<forall>r<con_rows (scr_con s). synced s r) \<and> log \<noteq> [] \<and>
     con_cc (scr_con s) = length (last log) \<and> length (last log) < con_cols (scr_con s) \<and>
     con_cr (scr_con s) = min (length log - 1) (con_rows (scr_con s) - 1) \<and>
     (\<forall>r<con_rows (scr_con s). \<forall>c<con_cols (scr_con s). con_buf (scr_con s) ! r ! c = display (con_rows (scr_con s)) log r c)"

lemma display_cursor: "log \<noteq> [] \<Longrightarrow> 0 < h \<Longrightarrow> length log - h + min (length log - 1) (h - 1) = length log - 1"
  by (auto simp: min_def)

lemma wf_cursor [simp]:
  "con_wf (con_upd (\<lambda>k. k\<lparr>con_cc := a\<rparr>) s) = con_wf s" "synced (con_upd (\<lambda>k. k\<lparr>con_cc := a\<rparr>) s) r = synced s r"
  "con_wf (con_upd (\<lambda>k. k\<lparr>con_cc := a, con_cr := b\<rparr>) s) = con_wf s" "synced (con_upd (\<lambda>k. k\<lparr>con_cc := a, con_cr := b\<rparr>) s) r = synced s r"
  by (simp_all add: con_wf_def synced_def con_upd_def fits_def shown_def)

lemma con_upd_simps [simp]: "scr_con (con_upd f s) = f (scr_con s)" "scr_fb (con_upd f s) = scr_fb s"
  by (simp_all add: con_upd_def)

text \<open>The newline, also for a row that has just been filled (whose length is then \<open>con_cols\<close>).\<close>

lemma newline_shows:
  assumes "con_wf s" "\<forall>r<con_rows (scr_con s). synced s r" "log \<noteq> []"
    and "con_cr (scr_con s) = min (length log - 1) (con_rows (scr_con s) - 1)"
    and buf: "\<forall>r<con_rows (scr_con s). \<forall>c<con_cols (scr_con s). con_buf (scr_con s) ! r ! c = display (con_rows (scr_con s)) log r c"
  shows "\<exists>s'. con_newline s = Some s' \<and> same_dims (scr_con s) (scr_con s') \<and> con_shows s' (log @ [[]])"
proof -
  let ?h = "con_rows (scr_con s)" and ?w = "con_cols (scr_con s)" and ?cr = "con_cr (scr_con s)"
  define s1 where "s1 = con_upd (\<lambda>k. k\<lparr>con_cc := 0, con_cr := con_cr k + 1\<rparr>) s"
  have d: "0 < ?h" "0 < ?w" using assms(1) by (auto simp: con_wf_def fits_def)
  have s1: "con_wf s1" "\<forall>r<con_rows (scr_con s1). synced s1 r" using assms(1,2) by (simp_all add: s1_def con_wf_def synced_def con_upd_def fits_def shown_def)
  show ?thesis
  proof (cases "?cr + 1 \<ge> ?h")
    case False
    then have l: "?cr = length log - 1" "length log < ?h" using assms(4) by (auto simp: min_def split: if_splits)
    have "display ?h (log @ [[]]) r c = display ?h log r c" if "r < ?h" for r c
      using l(2) by (auto simp: display_def Let_def nth_append)
    then have "con_shows s1 (log @ [[]])" using s1 d l assms(3) buf by (auto simp: con_shows_def s1_def)
    then show ?thesis using False by (auto simp: con_newline_def s1_def [symmetric] same_dims_def) (simp_all add: s1_def)
  next
    case True
    then have l: "?cr = ?h - 1" "?h \<le> length log" using assms(3,4) d by (cases log; auto simp: min_def split: if_splits)+
    obtain s' b where sc: "con_scroll s1 = Some s'" "con_wf s'" "scr_con s' = (scr_con s1)\<lparr>con_buf := b, con_cr := ?h - 1\<rparr>" "\<forall>r<?h. synced s' r"
      "\<forall>r<?h - 1. \<forall>c<?w. b ! r ! c = con_buf (scr_con s) ! (r + 1) ! c" "\<forall>c<?w. b ! (?h - 1) ! c = 0x20"
      using scroll_rows [OF s1] by (auto simp: s1_def)
    have "b ! r ! c = display ?h (log @ [[]]) r c" if "r < ?h" "c < ?w" for r c
    proof (cases "r = ?h - 1")
      case True
      then show ?thesis using sc(6) that l d by (simp add: display_def Let_def nth_append)
    next
      case False
      then have "b ! r ! c = display ?h log (r + 1) c" using sc(5) buf that by simp
      moreover have "length (log @ [[]]) - ?h + r = length log - ?h + (r + 1)" "length log - ?h + (r + 1) < length log" using l(2) False that by simp_all
      ultimately show ?thesis by (simp add: display_def Let_def nth_append)
    qed
    then have "con_shows s' (log @ [[]])" using sc(2-4) d l(2) by (auto simp: con_shows_def s1_def)
    moreover have "con_newline s = Some s'" using True sc(1) by (simp add: con_newline_def s1_def)
    ultimately show ?thesis using sc(3) by (intro exI [of _ s']) (simp add: same_dims_def s1_def)
  qed
qed

lemma store_shows:
  assumes "con_shows s log" "length log' = length log" "last log' = last log @ [ch]" "butlast log' = butlast log"
  shows "\<exists>s'. con_store ch s = Some s' \<and> same_dims (scr_con s) (scr_con s') \<and> con_wf s' \<and> (\<forall>r<con_rows (scr_con s). synced s' r) \<and>
    con_cc (scr_con s') = con_cc (scr_con s) \<and> con_cr (scr_con s') = con_cr (scr_con s) \<and>
    (\<forall>r<con_rows (scr_con s). \<forall>c<con_cols (scr_con s). con_buf (scr_con s') ! r ! c = display (con_rows (scr_con s)) log' r c)"
proof -
  let ?k = "scr_con s"
  let ?r = "con_cr ?k" and ?c = "con_cc ?k" and ?h = "con_rows ?k"
  have wf: "fits (scr_fb s) ?k" "length (con_buf ?k) = CMAX_R" "list_all (\<lambda>row. length row = CMAX_C) (con_buf ?k)" and "log \<noteq> []"
    using assms(1) by (auto simp: con_shows_def con_wf_def)
  have d: "0 < ?h" "?h \<le> CMAX_R" "con_cols ?k \<le> CMAX_C" using wf(1) by (auto simp: fits_def)
  have pos: "?r < ?h" "?c < con_cols ?k" "?c = length (last log)" "?r = min (length log - 1) (?h - 1)" using assms(1) d by (auto simp: con_shows_def)
  have lr: "length (con_buf ?k ! ?r) = CMAX_C" "?r < length (con_buf ?k)" using wf pos d by (auto simp: list_all_length)
  define k' where "k' = ?k\<lparr>con_buf := (con_buf ?k)[?r := (con_buf ?k ! ?r)[?c := ch]]\<rparr>"
  define s' where "s' = \<lparr>scr_fb = con_cell ?r ?c ch ?k (scr_fb s), scr_con = k'\<rparr>"
  have st: "con_store ch s = Some s'" using pos d by (simp add: con_store_def s'_def k'_def Let_def)
  have dims: "same_dims ?k k'" by (simp add: same_dims_def k'_def)
  have "list_all (\<lambda>row. length row = CMAX_C) (con_buf k')" using wf(3) lr by (auto simp: k'_def list_all_length nth_list_update)
  then have "con_wf s'" using wf(1,2) same_dims_fits(1) [OF dims] by (simp add: con_wf_def s'_def) (simp add: k'_def)
  moreover have "con_buf k' ! r ! c = (if r = ?r \<and> c = ?c then ch else con_buf ?k ! r ! c)" if "c < con_cols ?k" for r c
    using lr pos d that by (auto simp: k'_def nth_list_update)
  note buf = this
  have "synced s' r" if "r < ?h" for r
  proof -
    have "synced s r" using assms(1) that unfolding con_shows_def by blast
    then have old: "\<forall>c<con_cols ?k. shown (scr_fb s) ?k r c (con_buf ?k ! r ! c)" unfolding synced_def .
    have "shown (con_cell ?r ?c ch ?k (scr_fb s)) ?k r c (con_buf k' ! r ! c)" if "c < con_cols ?k" for c
      using buf [OF that] old cell_shown [OF wf(1) pos(1,2), of ch] cell_other [OF wf(1), of r c ?r ?c ch ?k] that by auto
    then show ?thesis using same_dims_fits(2) [OF dims] by (simp add: synced_def s'_def) (simp add: k'_def)
  qed
  moreover have "con_buf k' ! r ! c = display ?h log' r c" if "r < ?h" "c < con_cols ?k" for r c
  proof -
    have i: "length log - ?h + ?r = length log - 1" using display_cursor [OF \<open>log \<noteq> []\<close> d(1)] pos(4) by simp
    have ne: "log' \<noteq> []" using assms(2) \<open>log \<noteq> []\<close> by auto
    have lastn: "log' ! (length log - 1) = last log @ [ch]" "log ! (length log - 1) = last log"
      using assms(2,3) ne \<open>log \<noteq> []\<close> by (simp_all add: last_conv_nth)
    have othern: "log' ! i = log ! i" if "i < length log - 1" for i using assms(2,4) that by (metis nth_butlast length_butlast)
    have old: "con_buf ?k ! r ! c = display ?h log r c" using assms(1) that by (simp add: con_shows_def)
    show ?thesis
    proof (cases "r = ?r")
      case True
      then show ?thesis using buf [OF that(2), of r] old i lastn pos(3) \<open>log \<noteq> []\<close> assms(2) by (auto simp: display_def Let_def nth_append)
    next
      case False
      then have "length log - ?h + r \<noteq> length log - 1" using i by linarith
      then have "length log - ?h + r < length log - 1 \<or> length log \<le> length log - ?h + r" by linarith
      then show ?thesis using buf [OF that(2), of r] old False othern assms(2) by (auto simp: display_def Let_def)
    qed
  qed
  ultimately show ?thesis using st dims by (intro exI [of _ s']) (auto simp: s'_def k'_def)
qed

lemma char_shows:
  assumes "con_shows s log" "ch \<noteq> 0x0A"
  shows "\<exists>s'. con_char ch s = Some s' \<and> same_dims (scr_con s) (scr_con s') \<and> con_shows s' (log_put (con_cols (scr_con s)) ch log)"
proof -
  let ?w = "con_cols (scr_con s)"
  define log' where "log' = butlast log @ [last log @ [ch]]"
  have ne: "log \<noteq> []" "length (last log) < ?w" "con_cc (scr_con s) = length (last log)" using assms(1) by (auto simp: con_shows_def)
  have l: "length log' = length log" "last log' = last log @ [ch]" "butlast log' = butlast log" using ne(1) by (simp_all add: log'_def)
  from store_shows [OF assms(1) l] obtain s1 where s1: "con_store ch s = Some s1" "same_dims (scr_con s) (scr_con s1)" "con_wf s1"
    "\<forall>r<con_rows (scr_con s). synced s1 r" "con_cc (scr_con s1) = con_cc (scr_con s)" "con_cr (scr_con s1) = con_cr (scr_con s)"
    "\<forall>r<con_rows (scr_con s). \<forall>c<?w. con_buf (scr_con s1) ! r ! c = display (con_rows (scr_con s)) log' r c" by blast
  have d: "con_rows (scr_con s1) = con_rows (scr_con s)" "con_cols (scr_con s1) = ?w" using s1(2) by (auto simp: same_dims_def)
  have cr: "con_cr (scr_con s) = min (length log - 1) (con_rows (scr_con s) - 1)" using assms(1) by (simp add: con_shows_def)
  show ?thesis
  proof (cases "length (last log) + 1 < ?w")
    case True
    then have p: "log_put ?w ch log = log'" using assms(2) by (simp add: log_put_def log'_def Let_def)
    let ?s = "con_upd (\<lambda>k. k\<lparr>con_cc := con_cc k + 1\<rparr>) s1"
    have "con_char ch s = Some ?s" using s1(1,5) ne(3) True d by (simp add: con_char_def)
    moreover have "con_wf ?s" "\<And>r. synced ?s r = synced s1 r" using s1(3) by (simp_all add: con_wf_def synced_def fits_def shown_def)
    moreover have "log' \<noteq> []" by (simp add: log'_def)
    ultimately show ?thesis
      using s1 d l cr True ne p by (intro exI [of _ ?s]) (simp add: con_shows_def same_dims_def)
  next
    case False
    then have p: "log_put ?w ch log = log' @ [[]]" using assms(2) by (simp add: log_put_def log'_def Let_def)
    have c: "con_char ch s = con_newline s1" using s1(1,5) ne(3) False d by (simp add: con_char_def)
    have "\<exists>s'. con_newline s1 = Some s' \<and> same_dims (scr_con s1) (scr_con s') \<and> con_shows s' (log' @ [[]])"
      by (rule newline_shows) (use s1 d l cr in \<open>auto simp: log'_def\<close>)
    then show ?thesis using c p s1(2) by (auto simp: same_dims_def)
  qed
qed

lemma putc_shows:
  assumes "con_shows s log" "ch \<notin> {0x08, 0x09, 0x0D}"
  shows "\<exists>s'. con_putc ch s = Some s' \<and> same_dims (scr_con s) (scr_con s') \<and> con_shows s' (log_put (con_cols (scr_con s)) ch log)"
proof -
  have v: "fb_valid (scr_fb s)" using assms(1) by (simp add: con_shows_def con_wf_def fits_def)
  show ?thesis
  proof (cases "ch = 0x0A")
    case True
    have "\<exists>s'. con_newline s = Some s' \<and> same_dims (scr_con s) (scr_con s') \<and> con_shows s' (log @ [[]])"
      by (rule newline_shows) (use assms(1) in \<open>auto simp: con_shows_def\<close>)
    then show ?thesis using True v by (simp add: con_putc_def log_put_def)
  next
    case False
    then show ?thesis using char_shows [OF assms(1) False] assms(2) v by (simp add: con_putc_def Let_def)
  qed
qed

lemma puts_shows:
  "con_shows s log \<Longrightarrow> list_all (\<lambda>ch. ch \<notin> {0x08, 0x09, 0x0D}) t \<Longrightarrow>
    \<exists>s'. con_puts t s = Some s' \<and> same_dims (scr_con s) (scr_con s') \<and> con_shows s' (fold (log_put (con_cols (scr_con s))) t log)"
proof (induction t arbitrary: s log)
  case (Cons ch t)
  obtain s1 where s1: "con_putc ch s = Some s1" "same_dims (scr_con s) (scr_con s1)" "con_shows s1 (log_put (con_cols (scr_con s)) ch log)"
    using putc_shows [OF Cons.prems(1), of ch] Cons.prems(2) by auto
  obtain s2 where "con_puts t s1 = Some s2" "same_dims (scr_con s1) (scr_con s2)" "con_shows s2 (fold (log_put (con_cols (scr_con s1))) t (log_put (con_cols (scr_con s)) ch log))"
    using Cons.IH [OF s1(3)] Cons.prems(2) by auto
  then show ?case using s1 by (auto simp: same_dims_def)
qed (simp add: same_dims_def)

lemma space_glyph: "r < 8 \<Longrightarrow> glyph_pixel 0x20 r col fg bg = bg"
proof -
  assume "r < 8"
  have "font8x8_basic ! 32 = replicate 8 0" by (simp add: font8x8_basic_def numeral_eq_Suc)
  then show ?thesis using \<open>r < 8\<close> by (simp add: glyph_pixel_def glyph_row_def)
qed

lemma clear_shows:
  assumes "fits (scr_fb s) (scr_con s)"
  shows "con_shows (con_clear s) [[]]" "same_dims (scr_con s) (scr_con (con_clear s))"
proof -
  let ?fb = "scr_fb s" and ?k = "scr_con s"
  let ?fb' = "fb_fill_rect 0 36 (int (fb_width ?fb)) (int (fb_height ?fb) - 36) (con_bg ?k) ?fb"
  define k' where "k' = ?k\<lparr>con_buf := replicate CMAX_R (replicate CMAX_C 0x20), con_cc := 0, con_cr := 0\<rparr>"
  have f: "fb_ok ?fb" "fb_valid ?fb" "con_cols ?k \<le> CMAX_C" "con_rows ?k \<le> CMAX_R" using assms by (auto simp: fits_def)
  have c: "con_clear s = \<lparr>scr_fb = ?fb', scr_con = k'\<rparr>" using f(2) by (simp add: con_clear_def con_upd_def k'_def)
  have fit: "fits ?fb' k'" using assms by (simp add: fits_def fill_rect_plot k'_def)
  have "shown ?fb' k' r c 0x20" if "r < con_rows ?k" "c < con_cols ?k" for r c
  proof -
    have "fb_get_pixel (4 + int c * 8 + int j) (36 + int r * 10 + int i) ?fb' = con_bg ?k" if "i < 8" "j < 8" for i j
      using that \<open>r < con_rows ?k\<close> \<open>c < con_cols ?k\<close> assms by (subst get_fill_rect [OF f(1)]) (auto simp: on_screen_def fits_def)
    then show ?thesis by (simp add: shown_iff space_glyph) (simp add: k'_def)
  qed
  then show "con_shows (con_clear s) [[]]"
    using fit f assms unfolding con_shows_def con_wf_def synced_def c by (auto simp: k'_def fits_def display_def list_all_iff)
  show "same_dims ?k (scr_con (con_clear s))" by (simp add: c same_dims_def k'_def)
qed

text \<open>
  C27. Text without tabs, backspaces and carriage returns that is written to a fresh console is seen: every cell of the
  grid shows, pixel by pixel, the character that the last rows of the text have there, and a space where they
  have none.
\<close>

theorem console_shows_text:
  assumes "fb_ok (scr_fb s)" "fb_valid (scr_fb s)" "16 \<le> fb_width (scr_fb s)" "fb_width (scr_fb s) < 2 ^ 32"
    and "46 \<le> fb_height (scr_fb s)" "fb_height (scr_fb s) < 2 ^ 32" "list_all (\<lambda>ch. ch \<notin> {0x08, 0x09, 0x0D}) text"
  defines "w \<equiv> min 120 ((fb_width (scr_fb s) - 8) div 8)" and "h \<equiv> min 64 ((fb_height (scr_fb s) - 36) div 10)"
  shows "\<exists>s'. con_puts text (con_clear (con_set_colours fg bg (con_init s))) = Some s' \<and> con_fg (scr_con s') = fg \<and> con_bg (scr_con s') = bg \<and>
    con_cols (scr_con s') = w \<and> con_rows (scr_con s') = h \<and>
    list_all (\<lambda>r. list_all (\<lambda>c. shown (scr_fb s') (scr_con s') r c (display h (log_text w text) r c)) [0..<w]) [0..<h]"
proof -
  let ?s = "con_set_colours fg bg (con_init s)"
  have u: "nat ((int (fb_width (scr_fb s)) - 8) mod 2 ^ 32) = fb_width (scr_fb s) - 8" "nat ((int (fb_height (scr_fb s)) - 36) mod 2 ^ 32) = fb_height (scr_fb s) - 36"
    using assms(3-6) by (simp_all add: nat_diff_distrib)
  have i: "con_cols (scr_con ?s) = w" "con_rows (scr_con ?s) = h" "con_fg (scr_con ?s) = fg" "con_bg (scr_con ?s) = bg" "scr_fb ?s = scr_fb s"
    using assms(2) unfolding con_init_def con_set_colours_def u by (simp_all add: w_def h_def CMAX_C_def CMAX_R_def Let_def min_def)
  have "w * 8 \<le> fb_width (scr_fb s) - 8" "h * 10 \<le> fb_height (scr_fb s) - 36" "0 < w" "0 < h" "w \<le> 120" "h \<le> 64"
    using assms(3,5) unfolding w_def h_def by (auto simp: min_def div_le_mono)
  moreover from this have "4 + w * 8 \<le> fb_width (scr_fb s)" "36 + h * 10 \<le> fb_height (scr_fb s)" using assms(3,5) by linarith+
  ultimately have "fits (scr_fb ?s) (scr_con ?s)" using assms(1-6) i by (simp add: fits_def CMAX_C_def CMAX_R_def)
  note cl = clear_shows [OF this]
  obtain s' where s': "con_puts text (con_clear ?s) = Some s'" "same_dims (scr_con (con_clear ?s)) (scr_con s')" "con_shows s' (fold (log_put (con_cols (scr_con (con_clear ?s)))) text [[]])"
    using puts_shows [OF cl(1) assms(7)] by blast
  have d: "con_cols (scr_con s') = w" "con_rows (scr_con s') = h" "con_fg (scr_con s') = fg" "con_bg (scr_con s') = bg" "con_cols (scr_con (con_clear ?s)) = w"
    using cl(2) s'(2) i by (auto simp: same_dims_def)
  then have "shown (scr_fb s') (scr_con s') r c (display h (log_text w text) r c)" if "r < h" "c < w" for r c
    using s'(3) that unfolding con_shows_def synced_def log_text_def by metis
  then show ?thesis using s'(1) d by (intro exI [of _ s']) (simp add: list_all_iff)
qed

lemma tab_ends:
  "con_shows s log \<Longrightarrow> n < con_cols (scr_con s) \<Longrightarrow> d = n - con_cc (scr_con s) \<Longrightarrow> con_tab n s \<noteq> None"
proof (induction d arbitrary: s log)
  case 0
  then show ?case by (subst con_tab.simps) simp
next
  case (Suc d)
  obtain s' where s': "con_char 0x20 s = Some s'" "same_dims (scr_con s) (scr_con s')" "con_shows s' (log_put (con_cols (scr_con s)) 0x20 log)"
    using char_shows [OF Suc.prems(1), of "0x20"] by auto
  have "con_cc (scr_con s) + 1 < con_cols (scr_con s)" "con_cc (scr_con s) = length (last log)" "log \<noteq> []" using Suc.prems by (auto simp: con_shows_def)
  then have "con_cc (scr_con s') = con_cc (scr_con s) + 1" using s'(3) by (simp add: con_shows_def log_put_def Let_def)
  then show ?case using Suc.IH [OF s'(3)] Suc.prems s'(1,2) by (subst con_tab.simps) (auto simp: same_dims_def)
qed

lemma tab_hangs:
  assumes "con_tab n s = Some s'" "con_shows s log" "con_cols (scr_con s) \<le> n"
  shows False
proof -
  have "\<forall>log. con_shows s log \<longrightarrow> n < con_cols (scr_con s)"
  proof (rule con_tab.raw_induct [OF _ assms(1), where P = "\<lambda>n s _. \<forall>log. con_shows s log \<longrightarrow> n < con_cols (scr_con s)"], intro allI impI)
    fix tab n s y log
    assume IH: "\<And>n s y. tab n s = Some y \<Longrightarrow> \<forall>log. con_shows s log \<longrightarrow> n < con_cols (scr_con s)"
      and y: "(if con_cc (scr_con s) < n then con_char 0x20 s \<bind> tab n else Some s) = Some y" and sh: "con_shows s log"
    obtain s' where s': "con_char 0x20 s = Some s'" "same_dims (scr_con s) (scr_con s')" "con_shows s' (log_put (con_cols (scr_con s)) 0x20 log)"
      using char_shows [OF sh, of "0x20"] by auto
    show "n < con_cols (scr_con s)"
    proof (cases "con_cc (scr_con s) < n")
      case True
      then have "tab n s' = Some y" using y s'(1) by simp
      then show ?thesis using IH s'(2,3) by (force simp: same_dims_def)
    qed (use sh in \<open>auto simp: con_shows_def\<close>)
  qed
  then show False using assms(2,3) by fastforce
qed

text \<open>
  A tab does not return in the last columns: when the next multiple of four is not below the number of columns, the
  loop that writes spaces up to it never reaches it, because the column goes back to 0 at the end of the row.
\<close>

theorem tab_never_returns:
  assumes "con_shows s log"
  shows "con_putc 0x09 s = None \<longleftrightarrow> con_cols (scr_con s) \<le> (con_cc (scr_con s) + 4) div 4 * 4"
proof -
  let ?n = "(con_cc (scr_con s) + 4) div 4 * 4"
  have "fb_valid (scr_fb s)" using assms by (simp add: con_shows_def con_wf_def fits_def)
  then have "con_putc 0x09 s = con_tab ?n s" by (simp add: con_putc_def Let_def)
  then show ?thesis using tab_hangs [of ?n s _ log] tab_ends [of s log ?n] assms by (cases "con_tab ?n s"; force)
qed

text \<open>A screen of 128 by 80 pixels: 15 columns and 4 rows.\<close>

definition demo_screen :: screen where
  "demo_screen = \<lparr>scr_fb = \<lparr>fb_width = 128, fb_height = 80, fb_pitch = 512, fb_base = 0x3E000000, fb_size = 40960, fb_valid = True,
     vmem = (\<lambda>_. COL_RISCOS_GREY)\<rparr>, scr_con = con_boot\<rparr>"

definition demo_console :: screen where
  "demo_console = con_clear (con_set_colours COL_BLACK COL_WHITE (con_init demo_screen))"

lemma demo_console_shows: "con_shows demo_console [[]]" "con_cols (scr_con demo_console) = 15"
proof -
  let ?s = "con_set_colours COL_BLACK COL_WHITE (con_init demo_screen)"
  have "fits (scr_fb ?s) (scr_con ?s)"
    by (simp add: fits_def fb_ok_def con_set_colours_def con_init_def demo_screen_def con_boot_def Let_def CMAX_C_def CMAX_R_def)
  from clear_shows [OF this] show "con_shows demo_console [[]]" "con_cols (scr_con demo_console) = 15"
    by (simp_all add: demo_console_def same_dims_def)
      (simp_all add: con_set_colours_def con_init_def demo_screen_def con_boot_def Let_def CMAX_C_def CMAX_R_def)
qed

theorem console_shows_text_witness:
  "\<exists>s'. con_puts [0x41, 0x42, 0x0A, 0x43] demo_console = Some s' \<and>
    shown (scr_fb s') (scr_con s') 0 1 0x42 \<and> shown (scr_fb s') (scr_con s') 1 0 0x43 \<and> shown (scr_fb s') (scr_con s') 3 14 0x20"
proof -
  let ?t = "[0x41, 0x42, 0x0A, 0x43] :: bytes"
  have g: "fb_ok (scr_fb demo_screen)" "fb_valid (scr_fb demo_screen)" "16 \<le> fb_width (scr_fb demo_screen)" "fb_width (scr_fb demo_screen) < 2 ^ 32"
    "46 \<le> fb_height (scr_fb demo_screen)" "fb_height (scr_fb demo_screen) < 2 ^ 32" "list_all (\<lambda>ch. ch \<notin> {0x08, 0x09, 0x0D}) ?t"
    by (simp_all add: fb_ok_def demo_screen_def)
  have wh: "min 120 ((fb_width (scr_fb demo_screen) - 8) div 8) = 15" "min 64 ((fb_height (scr_fb demo_screen) - 36) div 10) = 4" by (simp_all add: demo_screen_def)
  obtain s' where s': "con_puts ?t demo_console = Some s'"
    "list_all (\<lambda>r. list_all (\<lambda>c. shown (scr_fb s') (scr_con s') r c (display 4 (log_text 15 ?t) r c)) [0..<15]) [0..<4]"
    using console_shows_text [OF g, of COL_BLACK COL_WHITE] unfolding wh demo_console_def by blast
  have "shown (scr_fb s') (scr_con s') r c (display 4 (log_text 15 ?t) r c)" if "r < 4" "c < 15" for r c
    using s'(2) that by (simp add: list_all_iff del: upt_rec_numeral)
  from this [of 0 1] this [of 1 0] this [of 3 14] have
    "shown (scr_fb s') (scr_con s') 0 1 (display 4 (log_text 15 ?t) 0 1)" "shown (scr_fb s') (scr_con s') 1 0 (display 4 (log_text 15 ?t) 1 0)"
    "shown (scr_fb s') (scr_con s') 3 14 (display 4 (log_text 15 ?t) 3 14)" by simp_all
  moreover have "display 4 (log_text 15 ?t) 0 1 = 0x42" "display 4 (log_text 15 ?t) 1 0 = 0x43" "display 4 (log_text 15 ?t) 3 14 = 0x20"
    by (simp_all add: display_def log_text_def log_put_def Let_def)
  ultimately show ?thesis using s'(1) by metis
qed

theorem tab_never_returns_witness:
  "\<exists>s'. con_puts (replicate 13 0x41) demo_console = Some s' \<and> con_putc 0x09 s' = None"
proof -
  obtain s' where s': "con_puts (replicate 13 0x41) demo_console = Some s'" "same_dims (scr_con demo_console) (scr_con s')"
    "con_shows s' (fold (log_put (con_cols (scr_con demo_console))) (replicate 13 0x41) [[]])"
    using puts_shows [OF demo_console_shows(1), of "replicate 13 0x41"] by (auto simp: list_all_iff)
  have l: "fold (log_put 15) (replicate 13 0x41) [[]] = [replicate 13 0x41]" by code_simp
  then have "con_shows s' [replicate 13 0x41]" "con_cols (scr_con s') = 15" using s'(2,3) demo_console_shows(2) by (simp_all only: same_dims_def)
  then show ?thesis using tab_never_returns [of s' "[replicate 13 0x41]"] s'(1) by (auto simp: con_shows_def)
qed

end
