(* ===== verification/Xring.thy ===== *)
theory Xring
  imports Ringq "HOL-Library.Multiset"
begin

text \<open>
  The data structures of drivers/usb/usb_xhci.c: the rings of transfer request blocks that the driver fills and the
  controller empties, the event ring in the other direction, the memory they lie in, the registry of the devices
  behind hubs, the stash of events for other endpoints, and the parser of configuration descriptors. What the
  controller does with a ring (\<open>hc_fetch\<close>, \<open>hc_post\<close>) is the protocol of the xHCI specification, sections 4.9.2 to 4.9.4.
\<close>

section \<open>Transfer request blocks\<close>

record trb =
  dw0 :: u32
  dw1 :: u32
  dw2 :: u32
  dw3 :: u32

definition trb_cycle :: "trb \<Rightarrow> bool" where
  "trb_cycle t = bit (dw3 t) 0"

definition trb_type :: "trb \<Rightarrow> u32" where
  "trb_type t = drop_bit 10 (dw3 t) AND 0x3F"

definition trb_slot :: "trb \<Rightarrow> u8" where
  "trb_slot t = ucast (drop_bit 24 (dw3 t))"

definition trb_ep :: "trb \<Rightarrow> u8" where
  "trb_ep t = ucast (drop_bit 16 (dw3 t) AND 0x1F)"

definition trb_cc :: "trb \<Rightarrow> u8" where
  "trb_cc t = ucast (drop_bit 24 (dw2 t))"

definition trb_residual :: "trb \<Rightarrow> u32" where
  "trb_residual t = dw2 t AND 0x00FFFFFF"

definition zero_trb :: trb where
  "zero_trb = \<lparr>dw0 = 0, dw1 = 0, dw2 = 0, dw3 = 0\<rparr>"

definition trb_of :: "u32 \<Rightarrow> u32 \<Rightarrow> u32 \<Rightarrow> u32 \<Rightarrow> u32 \<Rightarrow> trb" where
  "trb_of d0 d1 d2 ty flags = \<lparr>dw0 = d0, dw1 = d1, dw2 = d2, dw3 = push_bit 10 ty OR flags\<rparr>"

definition TRB_TYPE_LINK :: u32 where "TRB_TYPE_LINK = 6"
definition TRB_TC :: u32 where "TRB_TC = 2"

section \<open>Rings that the driver fills\<close>

record xring =
  trbs :: "trb list"
  enq :: nat
  cyc :: bool

text \<open>
  A ring of \<open>n\<close> blocks; the last one is a link back to the start. All rings of the driver are written by the same
  steps: the command ring, the rings of endpoint 0 and the bulk rings with 64 blocks, the interrupt rings with 16.
\<close>

definition link_dw3 :: "bool \<Rightarrow> u32" where
  "link_dw3 c = push_bit 10 TRB_TYPE_LINK OR TRB_TC OR of_bool c"

definition ring_init :: "nat \<Rightarrow> u64 \<Rightarrow> xring" where
  "ring_init n dma =
     \<lparr>trbs = (replicate n zero_trb)[n - 1 := \<lparr>dw0 = ucast dma, dw1 = ucast (drop_bit 32 dma), dw2 = 0, dw3 = link_dw3 True\<rparr>],
      enq = 0, cyc = True\<rparr>"

definition ring_enqueue :: "nat \<Rightarrow> trb \<Rightarrow> xring \<Rightarrow> xring" where
  "ring_enqueue n t r =
     (let r' = r\<lparr>trbs := (trbs r)[enq r := t\<lparr>dw3 := dw3 t OR of_bool (cyc r)\<rparr>], enq := enq r + 1\<rparr>
      in if enq r' \<ge> n - 1 then
           r'\<lparr>trbs := (trbs r')[n - 1 := (trbs r' ! (n - 1))\<lparr>dw3 := link_dw3 (cyc r)\<rparr>], enq := 0, cyc := \<not> cyc r\<rparr>
         else r')"

text \<open>The controller's side: it reads a block whose cycle bit is its own, and follows the link.\<close>

definition payload :: "trb \<Rightarrow> trb" where
  "payload t = t\<lparr>dw3 := unset_bit 0 (dw3 t)\<rparr>"

definition follow_link :: "xring \<Rightarrow> nat \<Rightarrow> bool \<Rightarrow> nat \<times> bool" where
  "follow_link r d c =
     (let t = trbs r ! d
      in if trb_cycle t = c \<and> trb_type t = TRB_TYPE_LINK then (0, if bit (dw3 t) 1 then \<not> c else c) else (d, c))"

definition hc_fetch :: "xring \<times> nat \<times> bool \<Rightarrow> trb option \<times> xring \<times> nat \<times> bool" where
  "hc_fetch = (\<lambda>(r, d, c).
     let (d, c) = follow_link r d c
     in if trb_cycle (trbs r ! d) = c then (Some (payload (trbs r ! d)), r, d + 1, c) else (None, r, d, c))"

text \<open>What the controller has still to read, and the driver's enqueue as long as one block stays free.\<close>

definition pending :: "nat \<Rightarrow> xring \<times> nat \<times> bool \<Rightarrow> nat" where
  "pending n = (\<lambda>(r, d, c). (enq r + (n - 1) - d mod (n - 1)) mod (n - 1))"

definition xr_items :: "nat \<Rightarrow> xring \<times> nat \<times> bool \<Rightarrow> trb list" where
  "xr_items n = (\<lambda>(r, d, c). map (\<lambda>k. payload (trbs r ! ((d + k) mod (n - 1)))) [0..<pending n (r, d, c)])"

definition xr_put :: "nat \<Rightarrow> trb \<Rightarrow> xring \<times> nat \<times> bool \<Rightarrow> bool \<times> xring \<times> nat \<times> bool" where
  "xr_put n t = (\<lambda>(r, d, c). if pending n (r, d, c) < n - 2 then (True, ring_enqueue n t r, d, c) else (False, r, d, c))"

definition request :: "trb \<Rightarrow> bool" where
  "request t \<longleftrightarrow> \<not> trb_cycle t \<and> trb_type t \<noteq> TRB_TYPE_LINK"

section \<open>A ring is a queue\<close>

text \<open>After \<open>p\<close> blocks written and \<open>c\<close> read: the controller stands at the next block, or at the link before it.\<close>

definition xr_at :: "nat \<Rightarrow> xring \<times> nat \<times> bool \<Rightarrow> nat \<Rightarrow> nat \<Rightarrow> bool" where
  "xr_at N = (\<lambda>(r, d, cc) p c.
     c \<le> p \<and> p < c + N \<and> length (trbs r) = N + 1 \<and> enq r = p mod N \<and> cyc r = even (p div N) \<and>
     laps N (\<lambda>i. trb_cycle (trbs r ! i)) p \<and> (\<forall>i < N. trb_type (trbs r ! i) \<noteq> TRB_TYPE_LINK) \<and>
     dw3 (trbs r ! N) = link_dw3 (p < N \<or> odd (p div N)) \<and>
     (d = c mod N \<and> cc = even (c div N) \<or> d = N \<and> c mod N = 0 \<and> 0 < c \<and> cc = odd (c div N)))"

definition xr_inv :: "nat \<Rightarrow> xring \<times> nat \<times> bool \<Rightarrow> bool" where
  "xr_inv n s \<longleftrightarrow> (\<exists>p c. xr_at (n - 1) s p c)"

lemma link_fields:
  assumes "dw3 t = link_dw3 b"
  shows "trb_cycle t = b" "trb_type t = TRB_TYPE_LINK" "bit (dw3 t) 1"
proof -
  have "b \<or> \<not> b" by simp
  then show "trb_cycle t = b" "trb_type t = TRB_TYPE_LINK" "bit (dw3 t) 1"
    using assms by (auto simp: trb_cycle_def trb_type_def link_dw3_def TRB_TYPE_LINK_def TRB_TC_def bit_simps)
qed

lemma cycle_or: "trb_cycle (t\<lparr>dw3 := dw3 t OR of_bool b\<rparr>) \<longleftrightarrow> trb_cycle t \<or> b"
  by (simp add: trb_cycle_def bit_simps)

lemma type_or: "trb_type (t\<lparr>dw3 := dw3 t OR of_bool b\<rparr>) = trb_type t"
proof -
  have "drop_bit 10 (of_bool b :: u32) = 0" by (rule bit_word_eqI) (auto simp: bit_simps)
  then show ?thesis by (simp add: trb_type_def)
qed

lemma payload_or: "\<not> trb_cycle t \<Longrightarrow> payload (t\<lparr>dw3 := dw3 t OR of_bool b\<rparr>) = t"
proof -
  assume "\<not> trb_cycle t"
  then have "unset_bit 0 (dw3 t OR of_bool b) = dw3 t" by (intro bit_word_eqI) (auto simp: bit_simps trb_cycle_def intro: gr0I)
  then show ?thesis by (simp add: payload_def)
qed

lemma mod_distance:
  assumes "c \<le> p" "p < c + N"
  shows "(p mod N + N - c mod N) mod N = p - (c :: nat)"
proof -
  obtain j where j: "p = c + j" "j < N" using assms by (metis le_Suc_ex nat_add_left_cancel_less)
  have e: "p mod N = (c mod N + j) mod N" by (simp add: j(1) mod_add_left_eq)
  have c: "c mod N < N" using j(2) by simp
  show ?thesis
  proof (cases "c mod N + j < N")
    case True
    then show ?thesis using e j by simp
  next
    case False
    then have "p mod N = (c mod N + j - N) mod N" using e le_mod_geq [of N "c mod N + j"] by simp
    also have "\<dots> = c mod N + j - N" using c j(2) by (intro mod_less) linarith
    finally have "p mod N = c mod N + j - N" .
    then show ?thesis using False j by simp
  qed
qed

lemma pending_at:
  assumes "xr_at N (r, d, cc) p c" "0 < N"
  shows "pending (N + 1) (r, d, cc) = p - c" "(d + k) mod N = (c + k) mod N"
proof -
  have d: "d mod N = c mod N" using assms by (auto simp: xr_at_def)
  then show "(d + k) mod N = (c + k) mod N" by (metis mod_add_left_eq)
  have "c \<le> p" "p < c + N" "enq r = p mod N" using assms by (auto simp: xr_at_def)
  then show "pending (N + 1) (r, d, cc) = p - c" using d mod_distance [of c p N] by (simp add: pending_def)
qed

lemma items_at: "xr_at N (r, d, cc) p c \<Longrightarrow> 0 < N \<Longrightarrow> xr_items (N + 1) (r, d, cc) = map (\<lambda>k. payload (trbs r ! (k mod N))) [c..<p]"
  using pending_at [of N r d cc p c]
  by (intro nth_equalityI) (simp_all add: xr_items_def)

lemma enqueue_at:
  assumes "xr_at N (r, d, cc) p c" "p + 1 < c + N" "request t"
  shows "xr_at N (ring_enqueue (N + 1) t r, d, cc) (p + 1) c"
    "map (\<lambda>k. payload (trbs (ring_enqueue (N + 1) t r) ! (k mod N))) [c..<p + 1] = map (\<lambda>k. payload (trbs r ! (k mod N))) [c..<p] @ [t]"
proof -
  have N: "0 < N" using assms(1,2) by (simp add: xr_at_def)
  define r' where r': "r' = ring_enqueue (N + 1) t r"
  have a: "c \<le> p" "length (trbs r) = N + 1" "enq r = p mod N" "cyc r = even (p div N)" "laps N (\<lambda>i. trb_cycle (trbs r ! i)) p"
    "\<forall>i < N. trb_type (trbs r ! i) \<noteq> TRB_TYPE_LINK" "dw3 (trbs r ! N) = link_dw3 (p < N \<or> odd (p div N))"
    using assms(1) by (auto simp: xr_at_def)
  have pN: "p mod N < N" using N by simp
  have tr: "trbs r' ! i = (if i = p mod N then t\<lparr>dw3 := dw3 t OR of_bool (cyc r)\<rparr> else trbs r ! i)" if "i < N" for i
    using that a(2,3) by (simp add: r' ring_enqueue_def Let_def nth_list_update)
  have len: "length (trbs r') = N + 1" using a(2) by (simp add: r' ring_enqueue_def Let_def)
  have e: "enq r' = (p + 1) mod N" "cyc r' = even ((p + 1) div N)"
    using a(3,4) next_place [OF N, of p] next_lap [OF N, of p] by (simp_all add: r' ring_enqueue_def Let_def split: if_splits)
  have l: "laps N (\<lambda>i. trb_cycle (trbs r' ! i)) (p + 1)"
    by (rule laps_step [OF a(5) N]) (use assms(3) pN a(4) in \<open>auto simp: tr cycle_or request_def\<close>)
  have ty: "trb_type (trbs r' ! i) \<noteq> TRB_TYPE_LINK" if "i < N" for i using that a(6) assms(3) by (simp add: tr type_or request_def)
  have f: "Suc (p mod N) < N \<Longrightarrow> (p < N) = (Suc p < N)" "odd (p div N) \<Longrightarrow> \<not> Suc p < N" by (cases "p < N"; simp)+
  have lk: "dw3 (trbs r' ! N) = link_dw3 (p + 1 < N \<or> odd ((p + 1) div N))"
  proof (cases "p mod N + 1 \<ge> N")
    case True
    then have "dw3 (trbs r' ! N) = link_dw3 (even (p div N))" using a(2-4) by (simp add: r' ring_enqueue_def Let_def)
    moreover have "even (p div N) = odd ((p + 1) div N)" using next_lap [OF N, of p] True by simp
    ultimately show ?thesis using f(2) by (cases "odd (p div N)") auto
  next
    case False
    then have "dw3 (trbs r' ! N) = dw3 (trbs r ! N)" using a(2,3) pN by (simp add: r' ring_enqueue_def Let_def)
    then show ?thesis using a(7) f(1) False next_lap [OF N, of p] by simp
  qed
  show "xr_at N (ring_enqueue (N + 1) t r, d, cc) (p + 1) c"
    unfolding r' [symmetric] using assms(1,2) a(1) len e l ty lk by (simp add: xr_at_def)
  have "k mod N \<noteq> p mod N" if "c \<le> k" "k < p" for k using mod_other [of p k N] that assms(2) by simp
  then show "map (\<lambda>k. payload (trbs (ring_enqueue (N + 1) t r) ! (k mod N))) [c..<p + 1] = map (\<lambda>k. payload (trbs r ! (k mod N))) [c..<p] @ [t]"
    unfolding r' [symmetric] using a(1) N assms(3) by (auto simp: tr payload_or request_def)
qed

text \<open>The controller's next position is at a block, whether it stood at the block or at the link before it.\<close>

lemma follow_at:
  assumes "xr_at N (r, d, cc) p c"
  shows "follow_link r d cc = (c mod N, even (c div N))"
proof (cases "d = N")
  case True
  then have a: "c mod N = 0" "0 < c" "cc = odd (c div N)" "c \<le> p" "p < c + N" "dw3 (trbs r ! N) = link_dw3 (p < N \<or> odd (p div N))"
    using assms less_imp_neq [OF mod_less_divisor [of N c]] unfolding xr_at_def by force+
  obtain q where q: "c = N * q" using a(1) by auto
  then have "0 < q" "0 < N" using a(2) by auto
  then have "p div N = q" using a(4,5) q by (intro div_nat_eqI) (simp_all add: algebra_simps)
  moreover from this have "\<not> p < N" using \<open>0 < q\<close> by auto
  ultimately have "dw3 (trbs r ! N) = link_dw3 cc" using a(3,6) q \<open>0 < N\<close> by simp
  then show ?thesis using link_fields True a(1,3) by (simp add: follow_link_def Let_def)
next
  case False
  then have "d < N" "d = c mod N" "cc = even (c div N)" "trb_type (trbs r ! d) \<noteq> TRB_TYPE_LINK"
    using assms by (auto simp: xr_at_def)
  then show ?thesis by (simp add: follow_link_def Let_def)
qed

lemma fetch_at:
  assumes "xr_at N (r, d, cc) p c"
  shows "hc_fetch (r, d, cc) = (if c < p then (Some (payload (trbs r ! (c mod N))), r, c mod N + 1, even (c div N)) else (None, r, c mod N, even (c div N)))"
    and "c < p \<Longrightarrow> xr_at N (r, c mod N + 1, even (c div N)) p (c + 1)" and "xr_at N (r, c mod N, even (c div N)) p c"
proof -
  have a: "c \<le> p" "p < c + N" "laps N (\<lambda>i. trb_cycle (trbs r ! i)) p" and N: "0 < N" using assms by (auto simp: xr_at_def)
  have "trb_cycle (trbs r ! (c mod N)) = even (c div N) \<longleftrightarrow> c < p"
    using laps_pending [OF a(3), of c c] laps_ahead [OF a(3) N] a(1,2) by (cases "c < p") auto
  then show "hc_fetch (r, d, cc) = (if c < p then (Some (payload (trbs r ! (c mod N))), r, c mod N + 1, even (c div N)) else (None, r, c mod N, even (c div N)))"
    by (simp add: hc_fetch_def follow_at [OF assms])
  show "xr_at N (r, c mod N, even (c div N)) p c" using assms by (simp add: xr_at_def)
  show "xr_at N (r, c mod N + 1, even (c div N)) p (c + 1)" if "c < p"
    using assms that next_place [OF N, of c] next_lap [OF N, of c] last_place [OF N, of c] by (auto simp: xr_at_def split: if_splits)
qed

lemma xr_laws:
  assumes "3 \<le> n"
  shows "ring_queue (xr_inv n) (xr_items n) (xr_put n) hc_fetch (n - 2) request"
proof
  obtain N where N: "n = N + 1" "2 \<le> N" using assms by (metis Suc_eq_plus1 Suc_le_mono le_Suc_ex numeral_2_eq_2 numeral_3_eq_3 plus_nat.simps(2))
  fix s :: "xring \<times> nat \<times> bool" assume i: "xr_inv n s"
  then obtain r d cc p c where s: "s = (r, d, cc)" and at: "xr_at N (r, d, cc) p c" using N(1) by (cases s) (auto simp: xr_inv_def)
  have l: "xr_items n s = map (\<lambda>k. payload (trbs r ! (k mod N))) [c..<p]" "pending n s = p - c" "c \<le> p" "p < c + N"
    using items_at [OF at] pending_at [OF at] at N s by (auto simp: xr_at_def)
  then show "length (xr_items n s) \<le> n - 2" using N by simp
  show "\<exists>s'. xr_put n t s = (length (xr_items n s) < n - 2, s') \<and> xr_inv n s' \<and>
      xr_items n s' = (if length (xr_items n s) < n - 2 then xr_items n s @ [t] else xr_items n s)" if "request t" for t
  proof (cases "p - c < n - 2")
    case True
    then have "p + 1 < c + N" using N by simp
    note e = enqueue_at [OF at this that]
    then have "xr_inv n (ring_enqueue n t r, d, cc)" "xr_items n (ring_enqueue n t r, d, cc) = xr_items n s @ [t]"
      using items_at [OF e(1)] N l(1) by (auto simp: xr_inv_def)
    then show ?thesis using True l s by (simp add: xr_put_def)
  next
    case False
    then show ?thesis using l s i by (simp add: xr_put_def)
  qed
  show "\<exists>s'. hc_fetch s = (case xr_items n s of [] \<Rightarrow> None | x # _ \<Rightarrow> Some x, s') \<and> xr_inv n s' \<and> xr_items n s' = tl (xr_items n s)"
  proof (cases "c < p")
    case True
    have "xr_items n (r, c mod N + 1, even (c div N)) = tl (xr_items n s)" "xr_inv n (r, c mod N + 1, even (c div N))"
      using items_at [OF fetch_at(2) [OF at True]] fetch_at(2) [OF at True] N l(1) by (auto simp: xr_inv_def upt_conv_Cons [OF True])
    then show ?thesis using fetch_at(1) [OF at] True s l(1) by (simp add: upt_conv_Cons [OF True])
  next
    case False
    have "xr_items n (r, c mod N, even (c div N)) = []" "xr_inv n (r, c mod N, even (c div N))"
      using items_at [OF fetch_at(3) [OF at]] fetch_at(3) [OF at] N False by (auto simp: xr_inv_def)
    then show ?thesis using fetch_at(1) [OF at] False s l(1) by simp
  qed
qed

lemma xr_fresh:
  assumes "3 \<le> n"
  shows "xr_inv n (ring_init n dma, 0, True)" "xr_items n (ring_init n dma, 0, True) = []"
proof -
  obtain N where N: "n = N + 1" "2 \<le> N" using assms by (metis Suc_eq_plus1 Suc_le_mono le_Suc_ex numeral_2_eq_2 numeral_3_eq_3 plus_nat.simps(2))
  have "\<not> trb_cycle zero_trb" "trb_type zero_trb \<noteq> TRB_TYPE_LINK" by (simp_all add: zero_trb_def trb_cycle_def trb_type_def TRB_TYPE_LINK_def)
  then have at: "xr_at N (ring_init n dma, 0, True) 0 0"
    using N by (simp add: xr_at_def ring_init_def laps_start nth_append del: replicate_Suc)
  then show "xr_inv n (ring_init n dma, 0, True)" using N by (auto simp: xr_inv_def)
  show "xr_items n (ring_init n dma, 0, True) = []" using items_at [OF at] N by simp
qed

interpretation xr64: ring_queue "xr_inv 64" "xr_items 64" "xr_put 64" hc_fetch 62 request
  using xr_laws [of 64] by simp

interpretation xr16: ring_queue "xr_inv 16" "xr_items 16" "xr_put 16" hc_fetch 14 request
  using xr_laws [of 16] by simp

text \<open>
  C11. The rings of the driver never lose or reorder a request: for every number of transfers of up to 62 blocks each on a
  ring of 64 (the command ring, endpoint 0, the bulk endpoints) and up to 14 on a ring of 16 (the interrupt
  endpoints), each read by the controller before the next is written, the controller reads exactly the requests that
  were written, over every wrap of the ring.
\<close>

theorem transfer_rings_lossless:
  assumes "list_all (\<lambda>b. list_all request b \<and> length b \<le> 62) bs" "list_all (\<lambda>b. list_all request b \<and> length b \<le> 14) bs'"
  shows "(\<exists>s. xr64.run (ring_init 64 dma, 0, True) (ring_rounds bs) = (s, concat bs, concat bs)) \<and>
    (\<exists>s. xr16.run (ring_init 16 dma', 0, True) (ring_rounds bs') = (s, concat bs', concat bs'))"
  using xr64.run_rounds [OF xr_fresh assms(1), of dma] xr16.run_rounds [OF xr_fresh assms(2), of dma'] by simp blast

section \<open>The event ring\<close>

definition EVT_RING_TRBS :: nat where "EVT_RING_TRBS = 64"

record evring =
  er_trbs :: "trb list"
  evt_dequeue :: nat
  evt_cycle :: bool

definition evt_ring_init :: evring where
  "evt_ring_init = \<lparr>er_trbs = replicate EVT_RING_TRBS zero_trb, evt_dequeue = 0, evt_cycle = True\<rparr>"

definition evt_take :: "evring \<Rightarrow> trb option \<times> evring" where
  "evt_take e =
     (let t = er_trbs e ! evt_dequeue e
      in if trb_cycle t \<noteq> evt_cycle e then (None, e)
         else (Some t, if evt_dequeue e + 1 \<ge> EVT_RING_TRBS then e\<lparr>evt_dequeue := 0, evt_cycle := \<not> evt_cycle e\<rparr>
                       else e\<lparr>evt_dequeue := evt_dequeue e + 1\<rparr>))"

text \<open>
  The controller writes an event at its own place with its own cycle bit, unless that would reach the place the driver
  has given back last (ERDP).
\<close>

definition hc_post :: "trb \<Rightarrow> evring \<times> nat \<times> bool \<Rightarrow> bool \<times> evring \<times> nat \<times> bool" where
  "hc_post t = (\<lambda>(e, q, pcs).
     let q' = (if q + 1 \<ge> EVT_RING_TRBS then 0 else q + 1)
     in if q' = evt_dequeue e then (False, e, q, pcs)
        else (True, e\<lparr>er_trbs := (er_trbs e)[q := t\<lparr>dw3 := dw3 t OR of_bool pcs\<rparr>]\<rparr>, q', if q' = 0 then \<not> pcs else pcs))"

definition evt_get :: "evring \<times> nat \<times> bool \<Rightarrow> trb option \<times> evring \<times> nat \<times> bool" where
  "evt_get = (\<lambda>(e, q, pcs). let (t, e) = evt_take e in (map_option payload t, e, q, pcs))"

definition er_items :: "evring \<times> nat \<times> bool \<Rightarrow> trb list" where
  "er_items = (\<lambda>(e, q, pcs). map (\<lambda>k. payload (er_trbs e ! ((evt_dequeue e + k) mod EVT_RING_TRBS)))
     [0..<(q + EVT_RING_TRBS - evt_dequeue e) mod EVT_RING_TRBS])"

definition er_at :: "evring \<times> nat \<times> bool \<Rightarrow> nat \<Rightarrow> nat \<Rightarrow> bool" where
  "er_at = (\<lambda>(e, q, pcs) p c.
     c \<le> p \<and> p < c + EVT_RING_TRBS \<and> length (er_trbs e) = EVT_RING_TRBS \<and> q = p mod EVT_RING_TRBS \<and> pcs = even (p div EVT_RING_TRBS) \<and>
     evt_dequeue e = c mod EVT_RING_TRBS \<and> evt_cycle e = even (c div EVT_RING_TRBS) \<and> laps EVT_RING_TRBS (\<lambda>i. trb_cycle (er_trbs e ! i)) p)"

definition er_inv :: "evring \<times> nat \<times> bool \<Rightarrow> bool" where
  "er_inv s \<longleftrightarrow> (\<exists>p c. er_at s p c)"

lemma er_invI: "er_at s p c \<Longrightarrow> er_inv s"
  unfolding er_inv_def by blast

lemma evt_size: "0 < EVT_RING_TRBS" "1 < EVT_RING_TRBS"
  by (simp_all add: EVT_RING_TRBS_def)

lemma er_items_at: "er_at (e, q, pcs) p c \<Longrightarrow> er_items (e, q, pcs) = map (\<lambda>k. payload (er_trbs e ! (k mod EVT_RING_TRBS))) [c..<p]"
  using mod_distance [of c p EVT_RING_TRBS]
  by (intro nth_equalityI) (simp_all add: er_items_def er_at_def mod_add_left_eq)

lemma post_at:
  assumes "er_at (e, q, pcs) p c" "\<not> trb_cycle t"
  shows "\<exists>s. hc_post t (e, q, pcs) = (p + 1 < c + EVT_RING_TRBS, s) \<and>
    (if p + 1 < c + EVT_RING_TRBS then er_at s (p + 1) c \<and> er_items s = er_items (e, q, pcs) @ [t] else s = (e, q, pcs))"
proof -
  let ?N = EVT_RING_TRBS
  have a: "c \<le> p" "p < c + ?N" "length (er_trbs e) = ?N" "q = p mod ?N" "pcs = even (p div ?N)" "evt_dequeue e = c mod ?N"
    "laps ?N (\<lambda>i. trb_cycle (er_trbs e ! i)) p" using assms(1) by (auto simp: er_at_def)
  have q: "(if q + 1 \<ge> ?N then 0 else q + 1) = (p + 1) mod ?N" using next_place [OF evt_size(1), of p] by (simp only: a(4))
  have room: "(p + 1) mod ?N = c mod ?N \<longleftrightarrow> \<not> p + 1 < c + ?N"
  proof (cases "p + 1 < c + ?N")
    case True
    then show ?thesis using mod_other [of "p + 1" c ?N] a(1) by auto
  next
    case False
    then have "p + 1 = c + ?N" using a(2) by simp
    then show ?thesis using False by simp
  qed
  define e' where e': "e' = e\<lparr>er_trbs := (er_trbs e)[q := t\<lparr>dw3 := dw3 t OR of_bool pcs\<rparr>]\<rparr>"
  have pN: "p mod ?N < ?N" by (simp add: evt_size)
  have tr: "er_trbs e' ! i = (if i = p mod ?N then t\<lparr>dw3 := dw3 t OR of_bool pcs\<rparr> else er_trbs e ! i)" if "i < ?N" for i
    using that a(3,4) by (simp add: e' nth_list_update)
  have h: "hc_post t (e, q, pcs) = (if p + 1 < c + ?N then (True, e', (p + 1) mod ?N, even ((p + 1) div ?N)) else (False, e, q, pcs))"
    using q room a(4-6) next_lap [OF evt_size(1), of p] by (auto simp: hc_post_def Let_def e')
  have l: "laps ?N (\<lambda>i. trb_cycle (er_trbs e' ! i)) (p + 1)"
    by (rule laps_step [OF a(7) evt_size(1)]) (use assms(2) pN a(5) in \<open>auto simp: tr cycle_or\<close>)
  have at: "er_at (e', (p + 1) mod ?N, even ((p + 1) div ?N)) (p + 1) c" if "p + 1 < c + ?N"
    using assms(1) that l by (simp add: er_at_def e')
  have "k mod ?N \<noteq> p mod ?N" if "c \<le> k" "k < p" for k using mod_other [of p k ?N] that a(2) by simp
  then have "map (\<lambda>k. payload (er_trbs e' ! (k mod ?N))) [c..<p + 1] = er_items (e, q, pcs) @ [t]"
    using a(1) assms(2) by (auto simp: tr payload_or evt_size er_items_at [OF assms(1)])
  then show ?thesis using h at er_items_at [OF at] by auto
qed

lemma take_at:
  assumes "er_at (e, q, pcs) p c"
  shows "\<exists>e'. evt_take e = (if c < p then Some (er_trbs e ! (c mod EVT_RING_TRBS)) else None, e') \<and> er_at (e', q, pcs) p (if c < p then c + 1 else c) \<and> er_trbs e' = er_trbs e"
proof -
  let ?N = EVT_RING_TRBS
  have a: "c \<le> p" "p < c + ?N" "evt_dequeue e = c mod ?N" "evt_cycle e = even (c div ?N)" "laps ?N (\<lambda>i. trb_cycle (er_trbs e ! i)) p"
    using assms(1) by (auto simp: er_at_def)
  have "trb_cycle (er_trbs e ! (c mod ?N)) = even (c div ?N) \<longleftrightarrow> c < p"
    using laps_pending [OF a(5), of c c] laps_ahead [OF a(5) evt_size(1)] a(1,2) by (cases "c < p") auto
  moreover have "er_at (if c mod ?N + 1 \<ge> ?N then e\<lparr>evt_dequeue := 0, evt_cycle := \<not> evt_cycle e\<rparr> else e\<lparr>evt_dequeue := c mod ?N + 1\<rparr>, q, pcs) p (c + 1)" if "c < p"
    using assms that a(4) next_place [OF evt_size(1), of c] next_lap [OF evt_size(1), of c] by (simp add: er_at_def split: if_splits)
  ultimately show ?thesis using assms a(3,4) by (auto simp: evt_take_def Let_def)
qed

interpretation evq: ring_queue er_inv er_items hc_post evt_get 63 "\<lambda>t. \<not> trb_cycle t"
proof
  fix s assume i: "er_inv s"
  then obtain e q pcs p c where s: "s = (e, q, pcs)" and at: "er_at (e, q, pcs) p c" by (cases s) (auto simp: er_inv_def)
  note it = er_items_at [OF at]
  have b: "c \<le> p" "p < c + 64" using at by (auto simp: er_at_def EVT_RING_TRBS_def)
  then show "length (er_items s) \<le> 63" using it s by simp
  show "\<exists>s'. hc_post t s = (length (er_items s) < 63, s') \<and> er_inv s' \<and> er_items s' = (if length (er_items s) < 63 then er_items s @ [t] else er_items s)"
    if "\<not> trb_cycle t" for t
  proof (cases "p + 1 < c + EVT_RING_TRBS")
    case True
    then show ?thesis using post_at [OF at that] it b s by (auto simp: EVT_RING_TRBS_def intro: er_invI)
  next
    case False
    then show ?thesis using post_at [OF at that] it s i by (auto simp: EVT_RING_TRBS_def)
  qed
  obtain e' where e': "evt_take e = (if c < p then Some (er_trbs e ! (c mod EVT_RING_TRBS)) else None, e')"
    "er_at (e', q, pcs) p (if c < p then c + 1 else c)" "er_trbs e' = er_trbs e" using take_at [OF at] by blast
  have "er_items (e', q, pcs) = tl (er_items s)" using er_items_at [OF e'(2)] it s e'(3) by (cases "c < p") (simp_all add: upt_conv_Cons)
  then show "\<exists>s'. evt_get s = (case er_items s of [] \<Rightarrow> None | x # _ \<Rightarrow> Some x, s') \<and> er_inv s' \<and> er_items s' = tl (er_items s)"
    using e' it s by (intro exI [of _ "(e', q, pcs)"]) (auto simp: evt_get_def upt_conv_Cons intro: er_invI)
qed

lemma evt_fresh: "er_inv (evt_ring_init, 0, True)" "er_items (evt_ring_init, 0, True) = []"
proof -
  have "er_at (evt_ring_init, 0, True) 0 0" by (simp add: er_at_def evt_ring_init_def laps_start evt_size zero_trb_def trb_cycle_def)
  then show "er_inv (evt_ring_init, 0, True)" "er_items (evt_ring_init, 0, True) = []" using er_items_at by (auto simp: er_inv_def)
qed

text \<open>
  C12. The event ring is a queue: for every sequence of events that the controller posts and polls by the driver, the polls return the
  events that were posted, each once, unchanged and in order; the controller holds an event back only when 63 are waiting.
\<close>

theorem event_ring_fifo:
  assumes "\<forall>t. Put t \<in> set ops \<longrightarrow> \<not> trb_cycle t"
  shows "\<exists>s acc. evq.run (evt_ring_init, 0, True) (ops @ replicate 63 Get) = (s, acc, acc) \<and> (length (ring_puts ops) \<le> 63 \<longrightarrow> acc = ring_puts ops)"
proof -
  obtain s acc where run: "evq.run (evt_ring_init, 0, True) (ops @ replicate 63 Get) = (s, acc, acc)"
    using evq.run_drained [OF evt_fresh(1) assms evt_fresh(2)] by blast
  have "acc = ring_puts ops" if "length (ring_puts ops) \<le> 63"
    using evq.run_accepts [OF evt_fresh(1), of "ops @ replicate 63 Get"] assms that run evt_fresh(2) by (simp add: evq.ring_puts_append)
  then show ?thesis using run by blast
qed

section \<open>Bounded maps\<close>

text \<open>
  Tables with a fixed number of places: a key that is in the table is updated, a new one takes a free place, and when
  there is none the call has no effect. As long as there are no more keys in use than places, the table is a map.
\<close>

datatype ('k, 'v) map_op = Ins 'k 'v | Del 'k

fun op_keys :: "('k, 'v) map_op list \<Rightarrow> 'k set" where
  "op_keys [] = {}"
| "op_keys (Ins k v # ops) = insert k (op_keys ops)"
| "op_keys (Del k # ops) = op_keys ops"

fun map_ops :: "('k, 'v) map_op list \<Rightarrow> ('k \<rightharpoonup> 'v) \<Rightarrow> 'k \<rightharpoonup> 'v" where
  "map_ops [] m = m"
| "map_ops (Ins k v # ops) m = map_ops ops (m(k \<mapsto> v))"
| "map_ops (Del k # ops) m = map_ops ops (m(k := None))"

locale bounded_map =
  fixes inv :: "'s \<Rightarrow> bool"
    and abs :: "'s \<Rightarrow> 'k \<rightharpoonup> 'v"
    and ins :: "'k \<Rightarrow> 'v \<Rightarrow> 's \<Rightarrow> 's"
    and del :: "'k \<Rightarrow> 's \<Rightarrow> 's"
    and cap :: nat
  assumes ins_inv: "inv s \<Longrightarrow> inv (ins k v s)"
    and ins_abs: "inv s \<Longrightarrow> k \<in> dom (abs s) \<or> card (dom (abs s)) < cap \<Longrightarrow> abs (ins k v s) = (abs s)(k \<mapsto> v)"
    and del_inv: "inv s \<Longrightarrow> inv (del k s)"
    and del_abs: "inv s \<Longrightarrow> abs (del k s) = (abs s)(k := None)"
begin

fun run_map :: "('k, 'v) map_op list \<Rightarrow> 's \<Rightarrow> 's" where
  "run_map [] s = s"
| "run_map (Ins k v # ops) s = run_map ops (ins k v s)"
| "run_map (Del k # ops) s = run_map ops (del k s)"

lemma run_map_inv: "inv s \<Longrightarrow> inv (run_map ops s)"
  by (induction ops s rule: run_map.induct) (simp_all add: ins_inv del_inv)

lemma run_map_refines:
  "inv s \<Longrightarrow> finite K \<Longrightarrow> card K \<le> cap \<Longrightarrow> dom (abs s) \<union> op_keys ops \<subseteq> K \<Longrightarrow> abs (run_map ops s) = map_ops ops (abs s)"
proof (induction ops s rule: run_map.induct)
  case (2 k v ops s)
  have "k \<in> dom (abs s) \<or> card (dom (abs s)) < cap"
  proof (rule disjCI)
    assume "\<not> card (dom (abs s)) < cap"
    then have "dom (abs s) = K" using 2(3-5) card_seteq [of K "dom (abs s)"] by simp
    then show "k \<in> dom (abs s)" using 2(5) by simp
  qed
  then have "abs (ins k v s) = (abs s)(k \<mapsto> v)" using ins_abs 2(2) by simp
  moreover have "dom ((abs s)(k \<mapsto> v)) \<union> op_keys ops \<subseteq> K" using 2(5) by auto
  ultimately show ?case using 2(1) [OF ins_inv [OF 2(2)] 2(3,4)] by (simp only: run_map.simps map_ops.simps)
next
  case (3 k ops s)
  have "dom ((abs s)(k := None)) \<union> op_keys ops \<subseteq> K" using 3(5) by auto
  then show ?case using 3(1) [OF del_inv [OF 3(2)] 3(3,4)] by (simp only: del_abs [OF 3(2)] run_map.simps map_ops.simps)
qed simp

end

section \<open>The registry of devices behind hubs\<close>

type_synonym hub_child = "(u8 \<times> u8) \<times> u8"

definition MAX_HUB_CHILDREN :: nat where "MAX_HUB_CHILDREN = 16"

text \<open>The entries in use; the key is the slot of the hub and the port on it.\<close>

fun hc_update :: "u8 \<times> u8 \<Rightarrow> u8 \<Rightarrow> hub_child list \<Rightarrow> hub_child list option" where
  "hc_update k d [] = None"
| "hc_update k d (e # es) = (if fst e = k then Some ((k, d) # es) else map_option (Cons e) (hc_update k d es))"

definition hc_reg :: "u8 \<times> u8 \<Rightarrow> u8 \<Rightarrow> hub_child list \<Rightarrow> hub_child list" where
  "hc_reg k d cs = (case hc_update k d cs of Some cs' \<Rightarrow> cs' | None \<Rightarrow> if length cs < MAX_HUB_CHILDREN then cs @ [(k, d)] else cs)"

fun hc_lookup :: "u8 \<times> u8 \<Rightarrow> hub_child list \<Rightarrow> u8" where
  "hc_lookup k [] = 0"
| "hc_lookup k (e # es) = (if fst e = k then snd e else hc_lookup k es)"

definition hc_remove :: "u8 \<times> u8 \<Rightarrow> hub_child list \<Rightarrow> hub_child list" where
  "hc_remove k cs = (case find (\<lambda>i. fst (cs ! i) = k) [0..<length cs] of None \<Rightarrow> cs | Some i \<Rightarrow> butlast (cs[i := last cs]))"

definition hc_inv :: "hub_child list \<Rightarrow> bool" where
  "hc_inv cs \<longleftrightarrow> distinct (map fst cs) \<and> length cs \<le> MAX_HUB_CHILDREN"

lemma hc_lookup_map: "hc_lookup k cs = (case map_of cs k of None \<Rightarrow> 0 | Some d \<Rightarrow> d)"
  by (induction cs) auto

lemma hc_update_spec:
  "(hc_update k d cs = None \<longleftrightarrow> k \<notin> fst ` set cs) \<and>
   (\<forall>cs'. hc_update k d cs = Some cs' \<longrightarrow> map fst cs' = map fst cs \<and> map_of cs' = (map_of cs)(k \<mapsto> d))"
  by (induction cs) (auto simp: fun_upd_twist)

lemma hc_remove_spec:
  assumes "distinct (map fst cs)"
  shows "\<exists>cs'. hc_remove k cs = cs' \<and> distinct (map fst cs') \<and> length cs' \<le> length cs \<and> map_of cs' = (map_of cs)(k := None)"
proof (cases "find (\<lambda>i. fst (cs ! i) = k) [0..<length cs]")
  case None
  then have "k \<notin> fst ` set cs" by (auto simp: find_None_iff in_set_conv_nth) (metis fst_conv)
  then have "map_of cs k = None" by (simp add: map_of_eq_None_iff)
  then show ?thesis using None assms by (auto simp: hc_remove_def)
next
  case (Some i)
  then have i: "i < length cs" "fst (cs ! i) = k" by (auto simp: find_Some_iff)
  define A B v where AB: "A = take i cs" "B = drop (Suc i) cs" "v = snd (cs ! i)"
  have cs: "cs = A @ (k, v) # B" "length A = i" using id_take_nth_drop [OF i(1)] i by (auto simp: AB)
  have "cs[i := x] = A @ x # B" for x using cs by (metis list_update_length)
  then have r: "hc_remove k cs = butlast (A @ last cs # B)" using Some by (simp add: hc_remove_def)
  obtain B' where B': "hc_remove k cs = A @ B'" "mset B' = mset B"
  proof (cases B rule: rev_cases)
    case Nil
    then show ?thesis using that [of "[]"] r by simp
  next
    case (snoc C z)
    then show ?thesis using that [of "z # C"] r cs(1) by (simp add: butlast_append)
  qed
  then have m: "mset (A @ B') = mset (A @ B)" by simp
  have d: "distinct (map fst (A @ B))" "k \<notin> fst ` set (A @ B)" using assms by (auto simp: cs(1))
  have d': "distinct (map fst (A @ B'))" using d(1) m by (metis mset_eq_imp_distinct_iff mset_map)
  have "map_of (A @ B') = map_of (A @ B)" using d(1) d' mset_eq_setD [OF m] by (simp only: map_of_inject_set)
  moreover have "map_of (A @ B) = (map_of cs)(k := None)"
  proof -
    have "map_of A k = None" "map_of B k = None" using d(2) by (auto simp: map_of_eq_None_iff)
    then show ?thesis by (auto simp: cs(1) fun_eq_iff map_add_def split: option.splits)
  qed
  moreover have "length (A @ B') \<le> length cs" using mset_eq_length [OF B'(2)] cs(1) by simp
  ultimately show ?thesis using B'(1) d' by simp
qed

lemma hc_reg_spec:
  assumes "hc_inv cs"
  shows "hc_inv (hc_reg k d cs)" "k \<in> dom (map_of cs) \<or> card (dom (map_of cs)) < 16 \<Longrightarrow> map_of (hc_reg k d cs) = (map_of cs)(k \<mapsto> d)"
proof -
  have c: "card (dom (map_of cs)) = length cs" using assms by (simp add: hc_inv_def dom_map_of_conv_image_fst distinct_card flip: set_map)
  note u = hc_update_spec [of k d cs]
  show "hc_inv (hc_reg k d cs)"
  proof (cases "hc_update k d cs")
    case None
    then show ?thesis using u assms by (auto simp: hc_inv_def hc_reg_def)
  next
    case (Some cs')
    then have "map fst cs' = map fst cs" using u by blast
    then show ?thesis using Some assms map_eq_imp_length_eq [of fst cs' fst cs] by (simp add: hc_inv_def hc_reg_def)
  qed
  show "map_of (hc_reg k d cs) = (map_of cs)(k \<mapsto> d)" if k: "k \<in> dom (map_of cs) \<or> card (dom (map_of cs)) < 16"
  proof (cases "hc_update k d cs")
    case None
    then have "k \<notin> fst ` set cs" using u by blast
    then have "map_of cs k = None" "length cs < MAX_HUB_CHILDREN" using k c by (auto simp: map_of_eq_None_iff dom_map_of_conv_image_fst MAX_HUB_CHILDREN_def)
    then show ?thesis using None by (auto simp: hc_reg_def fun_eq_iff map_add_def split: option.splits)
  next
    case (Some cs')
    then show ?thesis using u by (simp add: hc_reg_def)
  qed
qed

interpretation hub_map: bounded_map hc_inv map_of hc_reg hc_remove 16
proof
  fix cs k d assume i: "hc_inv cs"
  show "hc_inv (hc_reg k d cs)" by (rule hc_reg_spec(1) [OF i])
  show "k \<in> dom (map_of cs) \<or> card (dom (map_of cs)) < 16 \<Longrightarrow> map_of (hc_reg k d cs) = (map_of cs)(k \<mapsto> d)" by (rule hc_reg_spec(2) [OF i])
  show "hc_inv (hc_remove k cs)" "map_of (hc_remove k cs) = (map_of cs)(k := None)"
    using hc_remove_spec [of cs k] i by (auto simp: hc_inv_def)
qed

text \<open>
  C14. The registry of devices behind hubs is a map: for every sequence of registrations and removals on at most sixteen
  ports, looking up a port gives the slot that was registered for it last, and 0 if it was removed since or never
  registered.
\<close>

theorem hub_registry_refines:
  assumes "finite P" "card P \<le> 16" "op_keys ops \<subseteq> P"
  shows "hc_lookup k (hub_map.run_map ops []) = (case map_ops ops Map.empty k of None \<Rightarrow> 0 | Some d \<Rightarrow> d)"
  using hub_map.run_map_refines [of "[]" P ops] assms by (simp add: hc_lookup_map hc_inv_def)

theorem hub_registry_refines_witness:
  "hc_lookup (1, 3) (hub_map.run_map [Ins (1, 2) 4, Ins (1, 3) 5, Del (1, 2), Ins (1, 3) 6] []) = 6"
  using hub_registry_refines [of "{(1, 2), (1, 3)}" "[Ins (1, 2) 4, Ins (1, 3) 5, Del (1, 2), Ins (1, 3) 6]" "(1, 3)"] by simp

section \<open>Events for other endpoints\<close>

type_synonym stash = "((u8 \<times> u8) \<times> trb) option list"

definition EVT_STASH_SIZE :: nat where "EVT_STASH_SIZE = 8"

fun stash_update :: "u8 \<times> u8 \<Rightarrow> trb \<Rightarrow> stash \<Rightarrow> stash option" where
  "stash_update k ev [] = None"
| "stash_update k ev (e # es) =
     (case e of
        Some (k', ev') \<Rightarrow> if k' = k then Some (Some (k, ev) # es) else map_option (Cons e) (stash_update k ev es)
      | None \<Rightarrow> map_option (Cons e) (stash_update k ev es))"

fun stash_fill :: "u8 \<times> u8 \<Rightarrow> trb \<Rightarrow> stash \<Rightarrow> stash option" where
  "stash_fill k ev [] = None"
| "stash_fill k ev (e # es) = (if e = None then Some (Some (k, ev) # es) else map_option (Cons e) (stash_fill k ev es))"

definition evt_stash_put :: "u8 \<times> u8 \<Rightarrow> trb \<Rightarrow> stash \<Rightarrow> stash" where
  "evt_stash_put k ev st =
     (case stash_update k ev st of Some st' \<Rightarrow> st' | None \<Rightarrow> (case stash_fill k ev st of Some st' \<Rightarrow> st' | None \<Rightarrow> st))"

fun evt_stash_get :: "u8 \<times> u8 \<Rightarrow> stash \<Rightarrow> trb option \<times> stash" where
  "evt_stash_get k [] = (None, [])"
| "evt_stash_get k (e # es) =
     (case e of
        Some (k', ev) \<Rightarrow> if k' = k then (Some ev, None # es) else (let (r, es) = evt_stash_get k es in (r, e # es))
      | None \<Rightarrow> (let (r, es) = evt_stash_get k es in (r, e # es)))"

definition stashed :: "stash \<Rightarrow> ((u8 \<times> u8) \<times> trb) list" where
  "stashed st = List.map_filter id st"

definition stash_inv :: "stash \<Rightarrow> bool" where
  "stash_inv st \<longleftrightarrow> distinct (map fst (stashed st)) \<and> length st = EVT_STASH_SIZE"

lemma stashed_simps [simp]: "stashed [] = []" "stashed (None # st) = stashed st" "stashed (Some x # st) = x # stashed st"
  by (simp_all add: stashed_def map_filter_simps)

lemma stash_update_spec:
  "(stash_update k ev st = None \<longleftrightarrow> k \<notin> fst ` set (stashed st)) \<and>
   (\<forall>st'. stash_update k ev st = Some st' \<longrightarrow>
     length st' = length st \<and> map fst (stashed st') = map fst (stashed st) \<and> map_of (stashed st') = (map_of (stashed st))(k \<mapsto> ev))"
  by (induction st) (auto simp: fun_upd_twist split: option.splits)

lemma stash_fill_spec:
  "(stash_fill k ev st = None \<longleftrightarrow> length (stashed st) = length st) \<and> length (stashed st) \<le> length st \<and>
   (\<forall>st'. stash_fill k ev st = Some st' \<longrightarrow> length st' = length st \<and> mset (stashed st') = add_mset (k, ev) (mset (stashed st)))"
proof (induction st)
  case (Cons e st)
  then show ?case by (cases e) auto
qed simp

lemma stash_get_spec:
  "\<exists>st'. evt_stash_get k st = (map_of (stashed st) k, st') \<and> length st' = length st \<and>
    (distinct (map fst (stashed st)) \<longrightarrow> distinct (map fst (stashed st')) \<and> set (map fst (stashed st')) \<subseteq> set (map fst (stashed st)) \<and> map_of (stashed st') = (map_of (stashed st))(k := None))"
proof (induction st)
  case (Cons e st)
  then obtain st' where st': "evt_stash_get k st = (map_of (stashed st) k, st')" "length st' = length st"
    "distinct (map fst (stashed st)) \<Longrightarrow> distinct (map fst (stashed st')) \<and> set (map fst (stashed st')) \<subseteq> set (map fst (stashed st)) \<and> map_of (stashed st') = (map_of (stashed st))(k := None)"
    by blast
  show ?case
  proof (cases e)
    case None
    then show ?thesis using st' by (simp add: fun_eq_iff)
  next
    case (Some x)
    obtain k' ev where x: "x = (k', ev)" by (cases x)
    show ?thesis
    proof (cases "k' = k")
      case True
      then show ?thesis using Some x by (auto simp: map_of_eq_None_iff fun_eq_iff)
    next
      case False
      then show ?thesis using Some x st' by (auto simp: fun_upd_twist)
    qed
  qed
qed simp

lemma stash_put_spec:
  assumes "stash_inv st"
  shows "stash_inv (evt_stash_put k ev st)"
    "k \<in> dom (map_of (stashed st)) \<or> card (dom (map_of (stashed st))) < 8 \<Longrightarrow> map_of (stashed (evt_stash_put k ev st)) = (map_of (stashed st))(k \<mapsto> ev)"
proof -
  note u = stash_update_spec [of k ev st] and f = stash_fill_spec [of k ev st]
  have d: "distinct (map fst (stashed st))" "length st = 8" using assms by (simp_all add: stash_inv_def EVT_STASH_SIZE_def)
  have c: "card (dom (map_of (stashed st))) = length (stashed st)" using d by (simp add: dom_map_of_conv_image_fst distinct_card flip: set_map)
  have *: "stash_inv (evt_stash_put k ev st) \<and> (k \<in> dom (map_of (stashed st)) \<or> card (dom (map_of (stashed st))) < 8 \<longrightarrow>
      map_of (stashed (evt_stash_put k ev st)) = (map_of (stashed st))(k \<mapsto> ev))"
  proof (cases "stash_update k ev st")
    case None
    then have k: "k \<notin> fst ` set (stashed st)" using u by blast
    show ?thesis
    proof (cases "stash_fill k ev st")
      case N: None
      then have "length (stashed st) = 8" using f d by simp
      then show ?thesis using None N assms c k by (simp add: evt_stash_put_def dom_map_of_conv_image_fst)
    next
      case (Some st')
      then have m: "length st' = 8" "mset (stashed st') = mset ((k, ev) # stashed st)" using f d by simp_all
      have d': "distinct (map fst (stashed st'))" using m(2) d(1) k by (metis distinct.simps(2) fst_conv list.simps(9) mset_eq_imp_distinct_iff mset_map set_map)
      have "map_of (stashed st') = map_of ((k, ev) # stashed st)"
        using d' d(1) k mset_eq_setD [OF m(2)] by (subst map_of_inject_set) auto
      then show ?thesis using None Some d' m(1) by (simp add: evt_stash_put_def stash_inv_def EVT_STASH_SIZE_def)
    qed
  next
    case (Some st')
    then show ?thesis using u d by (auto simp: evt_stash_put_def stash_inv_def EVT_STASH_SIZE_def)
  qed
  then show "stash_inv (evt_stash_put k ev st)" by blast
  show "map_of (stashed (evt_stash_put k ev st)) = (map_of (stashed st))(k \<mapsto> ev)" if "k \<in> dom (map_of (stashed st)) \<or> card (dom (map_of (stashed st))) < 8"
    using * that by blast
qed

interpretation stash_map: bounded_map stash_inv "\<lambda>st. map_of (stashed st)" evt_stash_put "\<lambda>k st. snd (evt_stash_get k st)" 8
proof
  fix st k ev assume i: "stash_inv st"
  show "stash_inv (evt_stash_put k ev st)" by (rule stash_put_spec(1) [OF i])
  show "k \<in> dom (map_of (stashed st)) \<or> card (dom (map_of (stashed st))) < 8 \<Longrightarrow> map_of (stashed (evt_stash_put k ev st)) = (map_of (stashed st))(k \<mapsto> ev)"
    by (rule stash_put_spec(2) [OF i])
  have d: "distinct (map fst (stashed st))" using i by (simp add: stash_inv_def)
  obtain st' where "evt_stash_get k st = (map_of (stashed st) k, st')" "length st' = length st" "distinct (map fst (stashed st'))"
    "map_of (stashed st') = (map_of (stashed st))(k := None)" using stash_get_spec [of k st] d by blast
  then show "stash_inv (snd (evt_stash_get k st))" "map_of (stashed (snd (evt_stash_get k st))) = (map_of (stashed st))(k := None)"
    using i by (simp_all add: stash_inv_def)
qed

text \<open>The stash keeps the last event of each endpoint until its owner asks, while at most eight endpoints have one.\<close>

theorem evt_stash_refines:
  assumes "finite K" "card K \<le> 8" "op_keys ops \<subseteq> K"
  shows "fst (evt_stash_get k (stash_map.run_map ops (replicate EVT_STASH_SIZE None))) = map_ops ops Map.empty k"
proof -
  have e: "stashed (replicate n None) = []" for n by (induction n) simp_all
  then have i: "stash_inv (replicate EVT_STASH_SIZE None)" by (simp add: stash_inv_def)
  let ?st = "stash_map.run_map ops (replicate EVT_STASH_SIZE None)"
  have "map_of (stashed ?st) = map_ops ops Map.empty" using stash_map.run_map_refines [OF i assms(1,2)] assms(3) e by simp
  moreover have "fst (evt_stash_get k ?st) = map_of (stashed ?st) k" using stash_get_spec [of k ?st] by force
  ultimately show ?thesis by simp
qed

theorem evt_stash_refines_witness:
  "fst (evt_stash_get (3, 5) (stash_map.run_map [Ins (3, 3) zero_trb, Ins (3, 5) (zero_trb\<lparr>dw0 := 7\<rparr>), Del (3, 3)] (replicate EVT_STASH_SIZE None))) = Some (zero_trb\<lparr>dw0 := 7\<rparr>)"
  using evt_stash_refines [of "{(3, 3), (3, 5)}" "[Ins (3, 3) zero_trb, Ins (3, 5) (zero_trb\<lparr>dw0 := 7\<rparr>), Del (3, 3)]" "(3, 5)"] by simp

section \<open>The memory shared with the controller\<close>

text \<open>Offsets into the region of the linker script; slots count from 1 to 8. A context has 32 or 64 bytes.\<close>

definition MAX_SLOTS_ALLOC :: nat where "MAX_SLOTS_ALLOC = 8"

definition CTX_SIZE :: "bool \<Rightarrow> nat" where "CTX_SIZE csz = (if csz then 64 else 32)"

definition slot_input_ctx :: "nat \<Rightarrow> nat" where "slot_input_ctx s = 0x22000 + (s - 1) * 0x1000"
definition slot_out_ctx :: "nat \<Rightarrow> nat" where "slot_out_ctx s = 0x22000 + (s - 1) * 0x1000 + 0x500"
definition slot_ep0_ring :: "nat \<Rightarrow> nat" where "slot_ep0_ring s = 0x22000 + (s - 1) * 0x1000 + 0x900"
definition slot_ep0_data :: "nat \<Rightarrow> nat" where "slot_ep0_data s = 0x22000 + (s - 1) * 0x1000 + 0xD00"
definition slot_bulk_out_ring :: "nat \<Rightarrow> nat" where "slot_bulk_out_ring s = 0x2A000 + (s - 1) * 0x2000"
definition slot_bulk_in_ring :: "nat \<Rightarrow> nat" where "slot_bulk_in_ring s = 0x2A000 + (s - 1) * 0x2000 + 0x400"
definition slot_bulk_data :: "nat \<Rightarrow> nat" where "slot_bulk_data s = 0x2A000 + (s - 1) * 0x2000 + 0x800"
definition slot_int_ring :: "nat \<Rightarrow> nat \<Rightarrow> nat" where "slot_int_ring s i = 0x3A000 + (s - 1) * 0x400 + i * 0x200"
definition slot_int_data :: "nat \<Rightarrow> nat \<Rightarrow> nat" where "slot_int_data s i = 0x3A000 + (s - 1) * 0x400 + i * 0x200 + 0x100"

text \<open>What the driver and the controller use: the fixed structures, the scratch pages, and per slot.\<close>

definition fixed_regions :: "nat \<Rightarrow> (nat \<times> nat) list" where
  "fixed_regions pages = [(0, 2048), (0x800, 1024), (0xC00, 1024), (0x1000, 4), (0x1040, 16), (0x1080, 512), (0x2000, pages * 4096)]"

definition ctx_regions :: "bool \<Rightarrow> nat \<Rightarrow> (nat \<times> nat) list" where
  "ctx_regions csz s = [(slot_input_ctx s, 34 * CTX_SIZE csz), (slot_out_ctx s, 32 * CTX_SIZE csz), (slot_ep0_ring s, 1024), (slot_ep0_data s, 512)]"

definition bulk_regions :: "nat \<Rightarrow> (nat \<times> nat) list" where
  "bulk_regions s = [(slot_bulk_out_ring s, 1024), (slot_bulk_in_ring s, 1024), (slot_bulk_data s, 6144)]"

definition int_regions :: "nat \<Rightarrow> (nat \<times> nat) list" where
  "int_regions s = [(slot_int_ring s 0, 256), (slot_int_data s 0, 64), (slot_int_ring s 1, 256), (slot_int_data s 1, 64)]"

definition dma_regions :: "bool \<Rightarrow> nat \<Rightarrow> (nat \<times> nat) list" where
  "dma_regions csz pages =
     fixed_regions pages @ concat (map (ctx_regions csz) [1..<MAX_SLOTS_ALLOC + 1]) @
     concat (map bulk_regions [1..<MAX_SLOTS_ALLOC + 1]) @ concat (map int_regions [1..<MAX_SLOTS_ALLOC + 1])"

text \<open>Regions in order, each before the next, all of them from \<open>a\<close> to \<open>b\<close>.\<close>

definition within :: "nat \<Rightarrow> nat \<Rightarrow> (nat \<times> nat) list \<Rightarrow> bool" where
  "within a b rs \<longleftrightarrow> sorted_wrt (\<lambda>(x, n) (y, m). x + n \<le> y) rs \<and> list_all (\<lambda>(x, n). a \<le> x \<and> x + n \<le> b) rs"

lemma within_append: "within a b rs \<Longrightarrow> within b c rs' \<Longrightarrow> a \<le> b \<Longrightarrow> b \<le> c \<Longrightarrow> within a c (rs @ rs')"
  by (force simp: within_def sorted_wrt_append list_all_iff)

lemma within_slots:
  assumes "\<And>s. 1 \<le> s \<Longrightarrow> within (base + (s - 1) * stride) (base + s * stride) (f s)"
  shows "within base (base + k * stride) (concat (map f [1..<k + 1]))"
proof (induction k)
  case 0
  then show ?case by (simp add: within_def)
next
  case (Suc k)
  have "within (base + k * stride) (base + Suc k * stride) (f (Suc k))" using assms [of "Suc k"] by simp
  then show ?case using within_append [OF Suc] by simp
qed

lemma slot_regions:
  assumes "1 \<le> s"
  shows "within (0x22000 + (s - 1) * 0x1000) (0x22000 + s * 0x1000) (ctx_regions False s)"
    "within (0x2A000 + (s - 1) * 0x2000) (0x2A000 + s * 0x2000) (bulk_regions s)"
    "within (0x3A000 + (s - 1) * 0x400) (0x3A000 + s * 0x400) (int_regions s)"
proof -
  obtain t where "s = Suc t" using assms by (cases s) simp_all
  then show "within (0x22000 + (s - 1) * 0x1000) (0x22000 + s * 0x1000) (ctx_regions False s)"
    "within (0x2A000 + (s - 1) * 0x2000) (0x2A000 + s * 0x2000) (bulk_regions s)"
    "within (0x3A000 + (s - 1) * 0x400) (0x3A000 + s * 0x400) (int_regions s)"
    by (simp_all add: within_def ctx_regions_def bulk_regions_def int_regions_def slot_input_ctx_def slot_out_ctx_def slot_ep0_ring_def
      slot_ep0_data_def slot_bulk_out_ring_def slot_bulk_in_ring_def slot_bulk_data_def slot_int_ring_def slot_int_data_def CTX_SIZE_def)
qed



text \<open>With contexts of 64 bytes the input context runs into the output context, with more pages the last ones into slot 1.\<close>

theorem dma_regions_overlap:
  "1 \<le> s \<Longrightarrow> slot_out_ctx s < slot_input_ctx s + 34 * CTX_SIZE True" "32 < pages \<Longrightarrow> slot_input_ctx 1 < 0x2000 + pages * 4096"
  by (simp_all add: slot_out_ctx_def slot_input_ctx_def CTX_SIZE_def)

section \<open>Configuration descriptors\<close>

record hc_endpoint =
  ep_addr :: u8
  ep_attr :: u8
  ep_mps :: u16
  ep_intv :: u8
  ep_slot :: u8

record hc_interface =
  if_num :: u8
  if_alt :: u8
  if_neps :: u8
  if_class :: u8
  if_sub :: u8
  if_proto :: u8
  if_eps :: "hc_endpoint list"

text \<open>
  The interfaces of the device so far; the current one, to which endpoints are added, is the last. Beyond eight interfaces
  or sixteen endpoints nothing is added.
\<close>

definition add_interface :: "hc_interface \<Rightarrow> hc_interface list \<Rightarrow> hc_interface list" where
  "add_interface i is = (if length is < 8 then is @ [i] else is)"

definition add_endpoint :: "hc_endpoint \<Rightarrow> hc_interface list \<Rightarrow> hc_interface list" where
  "add_endpoint e is =
     (if is = [] \<or> length (if_eps (last is)) \<ge> 16 then is else butlast is @ [(last is)\<lparr>if_eps := if_eps (last is) @ [e]\<rparr>])"

definition interface_at :: "bytes \<Rightarrow> nat \<Rightarrow> hc_interface option" where
  "interface_at buf pos = do {
     d \<leftarrow> rdn buf (int pos + 2) 6;
     Some \<lparr>if_num = d ! 0, if_alt = d ! 1, if_neps = d ! 2, if_class = d ! 3, if_sub = d ! 4, if_proto = d ! 5, if_eps = []\<rparr>
   }"

definition endpoint_at :: "bytes \<Rightarrow> nat \<Rightarrow> hc_endpoint option" where
  "endpoint_at buf pos = do {
     d \<leftarrow> rdn buf (int pos + 2) 5;
     Some \<lparr>ep_addr = d ! 0, ep_attr = d ! 1, ep_mps = be16 (d ! 3) (d ! 2), ep_intv = d ! 4, ep_slot = 0\<rparr>
   }"

text \<open>The loop of \<open>enumerate_port\<close> over the first \<open>n\<close> bytes of the buffer.\<close>

function parse_config :: "bytes \<Rightarrow> nat \<Rightarrow> nat \<Rightarrow> hc_interface list \<Rightarrow> hc_interface list option" where
  "parse_config buf n pos is =
     (if n \<le> pos then Some is
      else do {
        len \<leftarrow> rd buf (int pos);
        ty \<leftarrow> rd buf (int pos + 1);
        if unat len < 2 \<or> pos + unat len > n then Some is
        else do {
          is \<leftarrow> (if ty = 4 \<and> unat len \<ge> 9 then map_option (\<lambda>i. add_interface i is) (interface_at buf pos)
                else if ty = 5 \<and> unat len \<ge> 7 \<and> is \<noteq> [] then map_option (\<lambda>e. add_endpoint e is) (endpoint_at buf pos)
                else Some is);
          parse_config buf n (pos + unat len) is
        }
      })"
  by pat_completeness auto
termination by (relation "measure (\<lambda>(buf, n, pos, is). n - pos)") auto

declare parse_config.simps [simp del]

text \<open>The loop of \<open>xhci_enumerate_hub_port\<close>: the length of a descriptor is not compared with what is left.\<close>

function parse_hub_config :: "bytes \<Rightarrow> nat \<Rightarrow> nat \<Rightarrow> hc_interface list \<Rightarrow> hc_interface list option" where
  "parse_hub_config buf n pos is =
     (if n \<le> pos then Some is
      else do {
        len \<leftarrow> rd buf (int pos);
        if unat len < 2 then Some is
        else do {
          ty \<leftarrow> rd buf (int pos + 1);
          is \<leftarrow> (if ty = 4 \<and> unat len \<ge> 9 then map_option (\<lambda>i. add_interface (i\<lparr>if_alt := 0, if_neps := 0\<rparr>) is) (interface_at buf pos)
                else if ty = 5 \<and> unat len \<ge> 7 \<and> is \<noteq> [] then map_option (\<lambda>e. add_endpoint e is) (endpoint_at buf pos)
                else Some is);
          parse_hub_config buf n (pos + unat len) is
        }
      })"
  by pat_completeness auto
termination by (relation "measure (\<lambda>(buf, n, pos, is). n - pos)") auto

declare parse_hub_config.simps [simp del]

text \<open>Descriptors and their bytes; \<open>Other\<close> is a descriptor of any other type with its body.\<close>

datatype descriptor = Intf hc_interface | Endp hc_endpoint | Other u8 bytes

fun desc_bytes :: "descriptor \<Rightarrow> bytes" where
  "desc_bytes (Intf i) = [9, 4, if_num i, if_alt i, if_neps i, if_class i, if_sub i, if_proto i, 0]"
| "desc_bytes (Endp e) = [7, 5, ep_addr e, ep_attr e, lo8 (ep_mps e), hi8 (ep_mps e), ep_intv e]"
| "desc_bytes (Other ty body) = [of_nat (length body + 2), ty] @ body"

fun desc_ok :: "descriptor \<Rightarrow> bool" where
  "desc_ok (Intf i) \<longleftrightarrow> if_eps i = []"
| "desc_ok (Endp e) \<longleftrightarrow> ep_slot e = 0"
| "desc_ok (Other ty body) \<longleftrightarrow> ty \<noteq> 4 \<and> ty \<noteq> 5 \<and> length body < 254"

fun add_desc :: "descriptor \<Rightarrow> hc_interface list \<Rightarrow> hc_interface list" where
  "add_desc (Intf i) is = add_interface i is"
| "add_desc (Endp e) is = add_endpoint e is"
| "add_desc (Other ty body) is = is"

lemma desc_length: "desc_ok d \<Longrightarrow> 2 \<le> length (desc_bytes d) \<and> unat (desc_bytes d ! 0) = length (desc_bytes d)"
proof (cases d)
  case (Other ty body)
  assume "desc_ok d"
  then have "unat (of_nat (length body + 2) :: u8) = length body + 2" using Other by (simp add: unsigned_of_nat take_bit_eq_mod del: of_nat_add of_nat_Suc)
  then show ?thesis using Other by simp
qed simp_all

lemma rd_at: "k < length xs \<Longrightarrow> rd (A @ xs @ B) (int (length A) + int k) = Some (xs ! k)"
  by (auto simp: rd_def nth_append nat_add_distrib simp flip: of_nat_add)

lemma rdn_at: "k + n \<le> length xs \<Longrightarrow> rdn (A @ xs @ B) (int (length A) + int k) n = Some (take n (drop k xs))"
  by (auto simp: rdn_def nat_add_distrib simp flip: of_nat_add)

lemma interface_at_bytes: "if_eps i = [] \<Longrightarrow> interface_at (A @ desc_bytes (Intf i) @ B) (length A) = Some i"
  using rdn_at [of 2 6 "desc_bytes (Intf i)" A B] by (cases i) (simp add: interface_at_def numeral_nat)

lemma endpoint_at_bytes: "ep_slot e = 0 \<Longrightarrow> endpoint_at (A @ desc_bytes (Endp e) @ B) (length A) = Some e"
  using rdn_at [of 2 5 "desc_bytes (Endp e)" A B] by (cases e) (simp add: endpoint_at_def numeral_nat)

lemma parse_step:
  assumes "desc_ok d" "length (A @ desc_bytes d) \<le> n"
  shows "parse_config (A @ desc_bytes d @ B) n (length A) is = parse_config (A @ desc_bytes d @ B) n (length (A @ desc_bytes d)) (add_desc d is)"
proof -
  let ?b = "A @ desc_bytes d @ B"
  note l = desc_length [OF assms(1)]
  then have "0 < length (desc_bytes d)" "1 < length (desc_bytes d)" by linarith+
  note r = rd_at [OF this(1), of A B, simplified] rd_at [OF this(2), of A B, simplified]
  have n: "\<not> n \<le> length A" "length A + length (desc_bytes d) \<le> n" using assms(2) l by simp_all
  show ?thesis
  proof (cases d)
    case (Intf i)
    then show ?thesis using interface_at_bytes [of i A B] assms(1) r l n by (subst parse_config.simps) (simp add: numeral_nat)
  next
    case (Endp e)
    then show ?thesis using endpoint_at_bytes [of e A B] assms(1) r l n by (subst parse_config.simps) (cases "is"; simp add: add_endpoint_def numeral_nat)
  next
    case (Other ty body)
    then show ?thesis using assms(1) r l n by (subst parse_config.simps) simp
  qed
qed

lemma parse_all:
  "list_all desc_ok ds \<Longrightarrow> length (A @ concat (map desc_bytes ds)) = n \<Longrightarrow> parse_config (A @ concat (map desc_bytes ds) @ B) n (length A) is = Some (fold add_desc ds is)"
proof (induction ds arbitrary: A "is")
  case Nil
  then show ?case by (simp add: parse_config.simps)
next
  case (Cons d ds)
  then show ?case using parse_step [of d A n "concat (map desc_bytes ds) @ B" "is"] Cons.IH [of "A @ desc_bytes d" "add_desc d is"] by simp
qed


definition demo_descs :: "descriptor list" where
  "demo_descs =
     [Other 2 [32, 0, 1, 1, 0, 0x80, 0xFA], Intf \<lparr>if_num = 0, if_alt = 0, if_neps = 2, if_class = 8, if_sub = 6, if_proto = 0x50, if_eps = []\<rparr>,
      Endp \<lparr>ep_addr = 0x81, ep_attr = 2, ep_mps = 512, ep_intv = 0, ep_slot = 0\<rparr>, Endp \<lparr>ep_addr = 2, ep_attr = 2, ep_mps = 512, ep_intv = 0, ep_slot = 0\<rparr>]"


text \<open>
  The buffer has 256 bytes and the length is at most 255: whatever the device sends, the parser of \<open>enumerate_port\<close> stays
  inside the buffer.
\<close>

theorem parse_config_safe:
  assumes "length buf = 256" "n \<le> 255"
  shows "parse_config buf n pos is \<noteq> None"
  using assms
proof (induction buf n pos "is" rule: parse_config.induct)
  case (1 buf n pos "is")
  show ?case
  proof (cases "n \<le> pos")
    case True
    then show ?thesis by (simp add: parse_config.simps)
  next
    case False
    then obtain len ty where r: "rd buf (int pos) = Some len" "rd buf (int pos + 1) = Some ty" using 1(2,3) by (simp add: rd_def)
    show ?thesis
    proof (cases "unat len < 2 \<or> pos + unat len > n")
      case True
      then show ?thesis using r by (simp add: parse_config.simps)
    next
      case ok: False
      have "\<exists>i. interface_at buf pos = Some i" if "unat len \<ge> 9" using that ok 1(2,3) by (simp add: interface_at_def rdn_def)
      moreover have "\<exists>e. endpoint_at buf pos = Some e" if "unat len \<ge> 7" using that ok 1(2,3) by (simp add: endpoint_at_def rdn_def)
      ultimately show ?thesis using 1 False r ok by (subst parse_config.simps) auto
    qed
  qed
qed

theorem parse_config_safe_witness: "parse_config (replicate 256 0xFF) 255 0 [] \<noteq> None"
  by (rule parse_config_safe) simp_all

text \<open>
  For a device behind a hub it does not: an endpoint descriptor in the last bytes of a configuration of 255 bytes is read
  beyond the end of the buffer.
\<close>

definition long_config :: bytes where
  "long_config = [9, 2, 255, 0, 1, 1, 0, 0x80, 0xFA, 9, 4, 0, 0, 1, 8, 6, 0x50, 0, 235, 0x24] @ replicate 233 0 @ [7, 5, 0x81]"

theorem hub_config_overrun: "length long_config = 256" "parse_hub_config long_config 255 0 [] = None"
  by (simp add: long_config_def) (simp add: parse_hub_config.simps long_config_def rd_def rdn_def interface_at_def endpoint_at_def add_interface_def nth_append nth_Cons')

text \<open>A No Op command and a Normal request of 512 bytes, as a controller reads them.\<close>

theorem transfer_rings_lossless_witness:
  "(\<exists>s. xr64.run (ring_init 64 0xC0010800, 0, True) (ring_rounds (replicate 100 [trb_of 0 0 0 23 0])) = (s, replicate 100 (trb_of 0 0 0 23 0), replicate 100 (trb_of 0 0 0 23 0))) \<and>
   (\<exists>s. xr16.run (ring_init 16 0xC004A000, 0, True) (ring_rounds (replicate 40 [trb_of 0xC004A100 0 8 1 0x20])) =
     (s, replicate 40 (trb_of 0xC004A100 0 8 1 0x20), replicate 40 (trb_of 0xC004A100 0 8 1 0x20)))"
proof -
  have c: "concat (replicate n [x]) = replicate n x" for n and x :: trb by (induction n) simp_all
  have "request (trb_of 0 0 0 23 0)" "request (trb_of 0xC004A100 0 8 1 0x20)"
    by (simp_all add: request_def trb_of_def trb_cycle_def trb_type_def TRB_TYPE_LINK_def)
  then show ?thesis
    using transfer_rings_lossless [of "replicate 100 [trb_of 0 0 0 23 0]" "replicate 40 [trb_of 0xC004A100 0 8 1 0x20]" "0xC0010800" "0xC004A000"]
    by (simp only: c) (simp add: list_all_iff)
qed

theorem event_ring_fifo_witness:
  "\<exists>s acc. evq.run (evt_ring_init, 0, True) ([Put (trb_of 0 0 0x01000000 33 0), Get, Put (trb_of 0 0 0x0D000008 32 0x01030000)] @ replicate 63 Get) = (s, acc, acc) \<and>
    acc = [trb_of 0 0 0x01000000 33 0, trb_of 0 0 0x0D000008 32 0x01030000]"
proof -
  have "\<forall>t. Put t \<in> set [Put (trb_of 0 0 0x01000000 33 0), Get, Put (trb_of 0 0 0x0D000008 32 0x01030000)] \<longrightarrow> \<not> trb_cycle t"
    by (auto simp: trb_of_def trb_cycle_def)
  from event_ring_fifo [OF this] show ?thesis by simp
qed

end
