(* ===== verification/Xhci.thy ===== *)
theory Xhci
  imports Xring
begin

text \<open>
  drivers/usb/usb_xhci.c: events, commands and transfers of the USB host controller driver, the configuration of
  endpoints and the retirement of slots. The controller works while the driver waits: a wait reads the clock, and the
  argument \<open>clock\<close> gives for each reading the time and what the controller has done to the shared state before it. When
  the readings end before a wait does, the wait has no result.
\<close>

section \<open>State\<close>

record int_ep =
  ie_dci :: u8
  ie_ring :: xring
  ie_submitted :: bool

text \<open>
  The static variables and the memory and registers shared with the controller, per slot where the source has arrays over
  slots. \<open>ctx_words\<close> is the size of a context in words; a doorbell is a pair of slot and target. What a write to a port
  register does to the port is up to the controller: the writes are recorded, and the values it shows are in \<open>portsc\<close>.
\<close>

record xhci =
  evr :: evring
  cmd_ring :: xring
  ep0 :: "nat \<Rightarrow> xring"
  ep0_data :: "nat \<Rightarrow> bytes"
  bulk_out :: "nat \<Rightarrow> xring"
  bulk_in :: "nat \<Rightarrow> xring"
  bulk_data :: "nat \<Rightarrow> bytes"
  int_eps :: "nat \<Rightarrow> int_ep list"
  int_data :: "nat \<Rightarrow> nat \<Rightarrow> bytes"
  in_ctx :: "nat \<Rightarrow> u32 list"
  out_ctx :: "nat \<Rightarrow> u32 list"
  dcbaa :: "nat \<Rightarrow> u64"
  evt_stash :: stash
  g_hub_children :: "hub_child list"
  g_slot_ids :: "nat \<Rightarrow> nat"
  active_slot :: nat
  ctx_words :: nat
  dma_phys :: u64
  usbcmd :: u32
  usbsts :: u32
  crcr :: u64
  dcbaap :: u64
  iman :: u32
  erstsz :: u32
  erstba :: u64
  erdp :: u64
  doorbells :: "(nat \<times> u32) list"
  portsc :: "nat \<Rightarrow> u32"
  port_writes :: "(nat \<times> u32) list"
  max_ports :: nat
  scratch :: "u64 list"
  erst :: "u32 list"
  config :: u32
  initialized :: bool

type_synonym clock = "(u32 \<times> (xhci \<Rightarrow> xhci)) list"

fun get_time_ms :: "clock \<Rightarrow> xhci \<Rightarrow> (u32 \<times> xhci \<times> clock) option" where
  "get_time_ms [] x = None"
| "get_time_ms ((t, act) # c) x = Some (t, act x, c)"

text \<open>The address the controller has to use for an offset into the shared memory.\<close>

definition phys_to_dma :: "u64 \<Rightarrow> u64" where
  "phys_to_dma p = p + 0xC0000000"

definition dma_addr :: "xhci \<Rightarrow> nat \<Rightarrow> u64" where
  "dma_addr x off = phys_to_dma (dma_phys x + of_nat off)"

definition TRB_TYPE_NORMAL :: u32 where "TRB_TYPE_NORMAL = 1"
definition TRB_TYPE_SETUP :: u32 where "TRB_TYPE_SETUP = 2"
definition TRB_TYPE_DATA :: u32 where "TRB_TYPE_DATA = 3"
definition TRB_TYPE_STATUS :: u32 where "TRB_TYPE_STATUS = 4"
definition TRB_TYPE_ENABLE_SLOT :: u32 where "TRB_TYPE_ENABLE_SLOT = 9"
definition TRB_TYPE_DISABLE_SLOT :: u32 where "TRB_TYPE_DISABLE_SLOT = 10"
definition TRB_TYPE_ADDR_DEV :: u32 where "TRB_TYPE_ADDR_DEV = 11"
definition TRB_TYPE_CONFIGURE_EP :: u32 where "TRB_TYPE_CONFIGURE_EP = 12"
definition TRB_TYPE_RESET_EP :: u32 where "TRB_TYPE_RESET_EP = 14"
definition TRB_TYPE_STOP_EP :: u32 where "TRB_TYPE_STOP_EP = 15"
definition TRB_TYPE_XFER_EVT :: u32 where "TRB_TYPE_XFER_EVT = 32"
definition TRB_TYPE_CMD_CMPL :: u32 where "TRB_TYPE_CMD_CMPL = 33"
definition TRB_TYPE_PORT_CHNG_EVT :: u32 where "TRB_TYPE_PORT_CHNG_EVT = 34"
definition TRB_IDT :: u32 where "TRB_IDT = 0x40"
definition TRB_IOC :: u32 where "TRB_IOC = 0x20"
definition TRB_CHAIN :: u32 where "TRB_CHAIN = 0x10"
definition TRB_DIR_IN :: u32 where "TRB_DIR_IN = 0x10000"
definition CC_SUCCESS :: u8 where "CC_SUCCESS = 1"
definition CC_SHORT_PKT :: u8 where "CC_SHORT_PKT = 13"

section \<open>Events\<close>

text \<open>The register bits that are cleared by writing 1: the status bits, and the pending bit of the interrupter.\<close>

definition usbsts_write :: "u32 \<Rightarrow> xhci \<Rightarrow> xhci" where
  "usbsts_write v x = x\<lparr>usbsts := usbsts x AND NOT v\<rparr>"

definition iman_write :: "u32 \<Rightarrow> xhci \<Rightarrow> xhci" where
  "iman_write v x = x\<lparr>iman := (v AND 2) OR (iman x AND 1 AND NOT v)\<rparr>"

definition evt_ring_poll :: "xhci \<Rightarrow> trb option \<times> xhci" where
  "evt_ring_poll x =
     (case evt_take (evr x) of
        (None, _) \<Rightarrow> (None, x)
      | (Some ev, e) \<Rightarrow> (Some ev, iman_write (iman x OR 1) (x\<lparr>evr := e, erdp := dma_addr x 0xC00 + of_nat (evt_dequeue e) * 16\<rparr>)))"

text \<open>After a host system error all ring registers are written again.\<close>

definition crcr_value :: "xhci \<Rightarrow> u64" where
  "crcr_value x = (dma_addr x 0x800 AND NOT 0x3F) OR of_bool (cyc (cmd_ring x))"

definition hse_rearm :: "xhci \<Rightarrow> xhci" where
  "hse_rearm x =
     (let x = usbsts_write 0x1C x;
          x = x\<lparr>dcbaap := dma_addr x 0, crcr := crcr_value x, erstba := dma_addr x 0x1040, erstsz := 1,
                erdp := dma_addr x 0xC00 + of_nat (evt_dequeue (evr x)) * 16\<rparr>;
          x = iman_write 2 x
      in x\<lparr>usbcmd := 5\<rparr>)"

fun wait_loop :: "u32 \<Rightarrow> u32 \<Rightarrow> clock \<Rightarrow> xhci \<Rightarrow> (trb option \<times> xhci \<times> clock) option" where
  "wait_loop t0 ms [] x = None"
| "wait_loop t0 ms ((t, act) # c) x =
     (let x = act x
      in if t - t0 < ms then
           (case evt_ring_poll x of
              (Some ev, x) \<Rightarrow> Some (Some ev, x, c)
            | (None, x) \<Rightarrow> wait_loop t0 ms c (if usbsts x AND 4 \<noteq> 0 then hse_rearm x else x))
         else Some (None, x, c))"

definition xhci_wait_event :: "u32 \<Rightarrow> clock \<Rightarrow> xhci \<Rightarrow> (trb option \<times> xhci \<times> clock) option" where
  "xhci_wait_event ms c x =
     (case evt_ring_poll x of
        (Some ev, x) \<Rightarrow> Some (Some ev, x, c)
      | (None, x) \<Rightarrow> do { (t0, x, c) \<leftarrow> get_time_ms c x; wait_loop t0 ms c x })"

lemma wait_loop_shorter: "wait_loop t0 ms c x = Some (r, x', c') \<Longrightarrow> length c' < length c"
  by (induction t0 ms c x rule: wait_loop.induct) (auto simp: Let_def less_Suc_eq split: if_splits prod.splits option.splits)

lemma wait_event_shorter: "xhci_wait_event ms c x = Some (r, x', c') \<Longrightarrow> length c' \<le> length c"
  by (cases c) (auto simp: xhci_wait_event_def dest!: wait_loop_shorter split: prod.splits option.splits)

lemma time_shorter: "get_time_ms c x = Some (t, x', c') \<Longrightarrow> length c'' \<le> length c' \<Longrightarrow> length c'' < length c"
  by (cases c) auto

text \<open>
  The loop that all commands and transfers wait in: until \<open>deadline\<close> it takes events, each with a wait of \<open>ms\<close>, up to
  one for which \<open>P\<close> holds; others are dropped. \<open>quit\<close> says whether a wait without an event ends the loop (\<open>break\<close>) or
  not (\<open>continue\<close>).
\<close>

function await :: "bool \<Rightarrow> u32 \<Rightarrow> (trb \<Rightarrow> bool) \<Rightarrow> u32 \<Rightarrow> clock \<Rightarrow> xhci \<Rightarrow> (trb option \<times> xhci \<times> clock) option" where
  "await quit ms P deadline c x = do {
     (t, x, c) \<leftarrow> get_time_ms c x;
     if t < deadline then do {
       (r, x, c) \<leftarrow> xhci_wait_event ms c x;
       case r of
         None \<Rightarrow> if quit then Some (None, x, c) else await quit ms P deadline c x
       | Some ev \<Rightarrow> if P ev then Some (Some ev, x, c) else await quit ms P deadline c x
     }
     else Some (None, x, c)
   }"
  by pat_completeness auto
termination
  by (relation "measure (\<lambda>(quit, ms, P, deadline, c, x). length c)") (auto dest!: wait_event_shorter elim!: time_shorter)

declare await.simps [simp del]

section \<open>Commands and control transfers\<close>

definition ring_doorbell :: "nat \<Rightarrow> u32 \<Rightarrow> xhci \<Rightarrow> xhci" where
  "ring_doorbell slot target x = x\<lparr>doorbells := doorbells x @ [(slot, target)]\<rparr>"

definition ep0_ring_init :: "nat \<Rightarrow> xhci \<Rightarrow> xhci" where
  "ep0_ring_init s x = x\<lparr>ep0 := (ep0 x)(s := ring_init 64 (dma_addr x (slot_ep0_ring s)))\<rparr>"

definition ep0_enq :: "u32 \<Rightarrow> u32 \<Rightarrow> u32 \<Rightarrow> u32 \<Rightarrow> u32 \<Rightarrow> xhci \<Rightarrow> xhci" where
  "ep0_enq d0 d1 d2 ty flags x =
     (let s = active_slot x in x\<lparr>ep0 := (ep0 x)(s := ring_enqueue 64 (trb_of d0 d1 d2 ty flags) (ep0 x s))\<rparr>)"

definition ep0_doorbell :: "nat \<Rightarrow> xhci \<Rightarrow> xhci" where
  "ep0_doorbell s x = ring_doorbell s 1 x"

text \<open>A command: its block, then the registers in the order the controller needs, then the doorbell.\<close>

definition cmd_ring_submit :: "u32 \<Rightarrow> u32 \<Rightarrow> u32 \<Rightarrow> u32 \<Rightarrow> u32 \<Rightarrow> xhci \<Rightarrow> xhci" where
  "cmd_ring_submit d0 d1 d2 ty extra x =
     (let x = x\<lparr>cmd_ring := ring_enqueue 64 (trb_of d0 d1 d2 ty extra) (cmd_ring x)\<rparr>;
          x = usbsts_write 0x1C x;
          x = x\<lparr>crcr := crcr_value x, usbcmd := 5\<rparr>
      in ring_doorbell 0 0 x)"

definition slot_bits :: "nat \<Rightarrow> u32" where
  "slot_bits s = push_bit 24 (of_nat s)"

text \<open>Waiting for the completion of a command, and for a transfer event of a slot.\<close>

definition is_cce :: "trb \<Rightarrow> bool" where
  "is_cce ev \<longleftrightarrow> trb_type ev = TRB_TYPE_CMD_CMPL"

definition is_xfer :: "nat \<Rightarrow> trb \<Rightarrow> bool" where
  "is_xfer s ev \<longleftrightarrow> trb_type ev = TRB_TYPE_XFER_EVT \<and> unat (trb_slot ev) = s"

definition await_for :: "bool \<Rightarrow> u32 \<Rightarrow> (trb \<Rightarrow> bool) \<Rightarrow> u32 \<Rightarrow> clock \<Rightarrow> xhci \<Rightarrow> (trb option \<times> xhci \<times> clock) option" where
  "await_for quit ms P limit c x = do { (now, x, c) \<leftarrow> get_time_ms c x; await quit ms P (now + limit) c x }"

text \<open>Writes to the start of a buffer: a fault when it is too short.\<close>

definition store :: "bytes \<Rightarrow> bytes \<Rightarrow> bytes option" where
  "store buf d = (if length d \<le> length buf then Some (d @ drop (length d) buf) else None)"

definition put_ep0 :: "nat \<Rightarrow> bytes \<Rightarrow> xhci \<Rightarrow> xhci option" where
  "put_ep0 s d x = do { b \<leftarrow> store (ep0_data x s) d; Some (x\<lparr>ep0_data := (ep0_data x)(s := b)\<rparr>) }"

definition lo32 :: "u64 \<Rightarrow> u32" where "lo32 a = ucast a"
definition hi32 :: "u64 \<Rightarrow> u32" where "hi32 a = ucast (drop_bit 32 a)"

text \<open>The data stage: two chained blocks for more than eight bytes from the device.\<close>

definition ctrl_data :: "u64 \<Rightarrow> u16 \<Rightarrow> bool \<Rightarrow> xhci \<Rightarrow> xhci" where
  "ctrl_data a len dir_in x =
     (if len = 0 then x
      else if dir_in \<and> len > 8 then
        ep0_enq (lo32 (a + 8)) (hi32 (a + 8)) (ucast (len - 8)) TRB_TYPE_DATA (TRB_DIR_IN OR TRB_IOC)
          (ep0_enq (lo32 a) (hi32 a) 8 TRB_TYPE_DATA (TRB_DIR_IN OR TRB_CHAIN) x)
      else ep0_enq (lo32 a) (hi32 a) (ucast len) TRB_TYPE_DATA (TRB_IOC OR (if dir_in then TRB_DIR_IN else 0)) x)"

definition ctrl_stages :: "nat \<Rightarrow> u8 \<Rightarrow> u8 \<Rightarrow> u16 \<Rightarrow> u16 \<Rightarrow> u16 \<Rightarrow> xhci \<Rightarrow> xhci" where
  "ctrl_stages s rt rq value index len x =
     (let dir_in = bit rt 7; a = dma_addr x (slot_ep0_data s);
          setup_lo = ucast rt OR push_bit 8 (ucast rq) OR push_bit 16 (ucast value);
          setup_hi = ucast index OR push_bit 16 (ucast len);
          xfer_type = (if len = 0 then 0 else if dir_in then 3 else 2);
          x = ep0_enq setup_lo setup_hi 8 TRB_TYPE_SETUP (TRB_IDT OR push_bit 16 xfer_type) x;
          x = ctrl_data a len dir_in x;
          x = ep0_enq 0 0 0 TRB_TYPE_STATUS (TRB_IOC OR (if dir_in then 0 else TRB_DIR_IN)) x
      in ep0_doorbell s x)"

text \<open>A successful event with bytes outstanding is one of several of the same transfer and is passed over.\<close>

definition ctrl_event :: "nat \<Rightarrow> trb \<Rightarrow> bool" where
  "ctrl_event s ev \<longleftrightarrow> is_xfer s ev \<and> (trb_cc ev = CC_SUCCESS \<longrightarrow> trb_residual ev = 0)"

definition xhci_control_transfer ::
  "nat \<Rightarrow> u8 \<Rightarrow> u8 \<Rightarrow> u16 \<Rightarrow> u16 \<Rightarrow> bytes option \<Rightarrow> u16 \<Rightarrow> int \<Rightarrow> clock \<Rightarrow> xhci \<Rightarrow> (int \<times> bytes option \<times> xhci \<times> clock) option" where
  "xhci_control_transfer s rt rq value index data len timeout c x =
     (if s = 0 then Some (-1, data, x, c)
      else if s > MAX_SLOTS_ALLOC then None
      else do {
        let x = x\<lparr>active_slot := s\<rparr>;
        let dir_in = bit rt 7;
        x \<leftarrow> (case data of
               Some d \<Rightarrow> if \<not> dir_in \<and> len \<noteq> 0 then put_ep0 s (take (unat len) d) x else put_ep0 s (replicate (if len < 512 then if len = 0 then 8 else unat len else 512) 0) x
             | None \<Rightarrow> put_ep0 s (replicate (if len < 512 then if len = 0 then 8 else unat len else 512) 0) x);
        let x = ctrl_stages s rt rq value index len x;
        (r, x, c) \<leftarrow> await_for False 10 (ctrl_event s) (if timeout > 0 then of_int timeout else 500) c x;
        case r of
          None \<Rightarrow> Some (-1, data, x, c)
        | Some ev \<Rightarrow>
            if trb_cc ev \<noteq> CC_SUCCESS \<and> trb_cc ev \<noteq> CC_SHORT_PKT then Some (-1, data, x, c)
            else do {
              (_, x, c) \<leftarrow> (if len = 0 then Some (None, x, c) else await_for True 10 (is_xfer s) 50 c x);
              case data of
                Some d \<Rightarrow>
                  if dir_in \<and> len \<noteq> 0 then do {
                    let actual = nat (sint (ucast len - trb_residual ev));
                    d' \<leftarrow> (if actual \<le> length (ep0_data x s) then store d (take actual (ep0_data x s)) else None);
                    Some (int actual, Some d', x, c)
                  }
                  else Some (int (unat len), data, x, c)
              | None \<Rightarrow> Some (int (unat len), data, x, c)
            }
      })"

section \<open>Bulk transfers\<close>

definition ep_dci :: "hc_endpoint \<Rightarrow> u8" where
  "ep_dci ep = (ep_addr ep AND 0x0F) * 2 + (if bit (ep_addr ep) 7 then 1 else 0)"

definition bulk_enqueue :: "nat \<Rightarrow> bool \<Rightarrow> nat \<Rightarrow> xhci \<Rightarrow> xhci" where
  "bulk_enqueue s dir_in len x =
     (let a = dma_addr x (slot_bulk_data s);
          t = trb_of (lo32 a) (hi32 a) (of_nat len AND 0x1FFFF) TRB_TYPE_NORMAL TRB_IOC
      in if dir_in then x\<lparr>bulk_in := (bulk_in x)(s := ring_enqueue 64 t (bulk_in x s))\<rparr>
         else x\<lparr>bulk_out := (bulk_out x)(s := ring_enqueue 64 t (bulk_out x s))\<rparr>)"

definition xhci_bulk_transfer :: "hc_endpoint \<Rightarrow> bytes \<Rightarrow> int \<Rightarrow> clock \<Rightarrow> xhci \<Rightarrow> (int \<times> bytes \<times> xhci \<times> clock) option" where
  "xhci_bulk_transfer ep data timeout c x =
     (let s = unat (ep_slot ep); dci = ep_dci ep; dir_in = bit (ep_addr ep) 7
      in if data = [] \<or> length data > 6144 \<or> s = 0 \<or> s > MAX_SLOTS_ALLOC \<or> dci < 2 \<or> dci > 31 then Some (-1, data, x, c)
         else do {
           b \<leftarrow> store (bulk_data x s) (if dir_in then replicate (length data) 0 else data);
           let x = x\<lparr>bulk_data := (bulk_data x)(s := b)\<rparr>;
           let x = ring_doorbell s (ucast dci) (bulk_enqueue s dir_in (length data) x);
           (r, x, c) \<leftarrow> await_for False 20 (\<lambda>ev. trb_type ev = TRB_TYPE_XFER_EVT) (if 0 < timeout \<and> timeout < 30000 then of_int timeout else 5000) c x;
           case r of
             None \<Rightarrow> Some (-1, data, x, c)
           | Some ev \<Rightarrow>
               if trb_cc ev = CC_SUCCESS \<or> trb_cc ev = CC_SHORT_PKT
               then Some (0, if dir_in then take (length data) (bulk_data x s) else data, x, c)
               else Some (-1, data, x, c)
         })"

section \<open>Interrupt transfers\<close>

text \<open>A transfer event is for this endpoint, or it is kept for another; the other events are dropped.\<close>

definition int_event :: "u8 \<times> u8 \<Rightarrow> trb \<Rightarrow> xhci \<Rightarrow> bool \<times> xhci" where
  "int_event k ev x =
     (let k' = (trb_slot ev, trb_ep ev)
      in if trb_type ev \<noteq> TRB_TYPE_XFER_EVT then (False, x)
         else if k' = k then (True, x) else (False, x\<lparr>evt_stash := evt_stash_put k' ev (evt_stash x)\<rparr>))"

definition int_poll :: "u8 \<times> u8 \<Rightarrow> xhci \<Rightarrow> trb option \<times> xhci" where
  "int_poll k x =
     (case evt_ring_poll x of
        (None, x) \<Rightarrow> (None, x)
      | (Some ev, x) \<Rightarrow> let (own, x) = int_event k ev x in (if own then Some ev else None, x))"

fun int_wait :: "u8 \<times> u8 \<Rightarrow> u32 \<Rightarrow> clock \<Rightarrow> xhci \<Rightarrow> (trb option \<times> xhci \<times> clock) option" where
  "int_wait k deadline [] x = None"
| "int_wait k deadline ((t, act) # c) x =
     (let x = act x
      in if t < deadline then (case int_poll k x of (Some ev, x) \<Rightarrow> Some (Some ev, x, c) | (None, x) \<Rightarrow> int_wait k deadline c x)
         else Some (None, x, c))"

definition int_ep_upd :: "nat \<Rightarrow> nat \<Rightarrow> (int_ep \<Rightarrow> int_ep) \<Rightarrow> xhci \<Rightarrow> xhci" where
  "int_ep_upd s i f x = x\<lparr>int_eps := (int_eps x)(s := (int_eps x s)[i := f (int_eps x s ! i)])\<rparr>"

text \<open>A request for a report, unless one is in flight.\<close>

definition int_arm :: "nat \<Rightarrow> nat \<Rightarrow> u8 \<Rightarrow> nat \<Rightarrow> xhci \<Rightarrow> xhci" where
  "int_arm s i dci req x =
     (if ie_submitted (int_eps x s ! i) then x
      else
        let x = x\<lparr>int_data := (int_data x)(s := (int_data x s)(i := replicate req 0 @ drop req (int_data x s i)))\<rparr>;
            a = dma_addr x (slot_int_data s i);
            x = int_ep_upd s i (\<lambda>e. e\<lparr>ie_ring := ring_enqueue 16 (trb_of (lo32 a) (hi32 a) (of_nat req) TRB_TYPE_NORMAL TRB_IOC) (ie_ring e), ie_submitted := True\<rparr>) x
        in ring_doorbell s (ucast dci) x)"

definition xhci_interrupt_transfer :: "hc_endpoint \<Rightarrow> bytes \<Rightarrow> int \<Rightarrow> clock \<Rightarrow> xhci \<Rightarrow> (int \<times> bytes \<times> xhci \<times> clock) option" where
  "xhci_interrupt_transfer ep data timeout c x =
     (let s = unat (ep_slot ep); dci = (ep_addr ep AND 0x0F) * 2 + 1; req = min (length data) 64
      in if data = [] \<or> s = 0 \<or> s > MAX_SLOTS_ALLOC then Some (-1, data, x, c)
         else
           case find (\<lambda>k. ie_dci (int_eps x s ! k) = dci) [0..<length (int_eps x s)] of
             None \<Rightarrow> Some (-1, data, x, c)
           | Some i \<Rightarrow> do {
               let x = int_arm s i dci req x;
               let (r, st) = evt_stash_get (ep_slot ep, dci) (evt_stash x);
               let x = x\<lparr>evt_stash := st\<rparr>;
               (r, x, c) \<leftarrow>
                 (case r of
                    Some ev \<Rightarrow> Some (Some ev, x, c)
                  | None \<Rightarrow>
                      if timeout = 0 then (case int_poll (ep_slot ep, dci) x of (r, x) \<Rightarrow> Some (r, x, c))
                      else do { (now, x, c) \<leftarrow> get_time_ms c x; int_wait (ep_slot ep, dci) (now + (if timeout < 5000 then of_int timeout else 10)) c x });
               case r of
                 None \<Rightarrow>
                   if timeout > 0 \<and> \<not> list_all (\<lambda>b. b = 0) (take 8 (int_data x s i)) then
                     Some (int req, take req (int_data x s i) @ drop req data, int_ep_upd s i (\<lambda>e. e\<lparr>ie_submitted := False\<rparr>) x, c)
                   else Some (0, data, x, c)
               | Some ev \<Rightarrow> do {
                   let x = int_ep_upd s i (\<lambda>e. e\<lparr>ie_submitted := False\<rparr>) x;
                   let left = unat (trb_residual ev);
                   let actual = (if left < req then req - left else req);
                   if trb_cc ev = CC_SUCCESS \<or> trb_cc ev = CC_SHORT_PKT
                   then Some (int actual, take actual (int_data x s i) @ drop actual data, x, c)
                   else Some (0, data, x, c)
                 }
             })"

section \<open>Slots and endpoints\<close>

record hc_device =
  hd_slot :: nat
  hd_speed :: u8
  hd_desc :: bytes
  hd_ifs :: "hc_interface list"

text \<open>Words \<open>ws\<close> into context \<open>k\<close> of the input context of a slot.\<close>

definition put_ctx :: "nat \<Rightarrow> nat \<Rightarrow> u32 list \<Rightarrow> xhci \<Rightarrow> xhci" where
  "put_ctx s k ws x =
     (let l = in_ctx x s; n = k * ctx_words x in x\<lparr>in_ctx := (in_ctx x)(s := take n l @ ws @ drop (n + length ws) l)\<rparr>)"

definition zero_ctx :: "nat \<Rightarrow> xhci \<Rightarrow> xhci" where
  "zero_ctx s x = x\<lparr>in_ctx := (in_ctx x)(s := replicate (34 * ctx_words x) 0)\<rparr>"

definition ep0_mps :: "u32 \<Rightarrow> u32" where
  "ep0_mps spd = (if spd = 4 then 512 else if spd = 3 then 64 else if spd = 2 then 8 else 64)"

text \<open>The input context of Address Device, and the command.\<close>

definition address_ctx :: "nat \<Rightarrow> u8 \<Rightarrow> u32 \<Rightarrow> u32 \<Rightarrow> u8 \<Rightarrow> u8 \<Rightarrow> xhci \<Rightarrow> xhci" where
  "address_ctx s rh_port route speed tt_slot tt_port x =
     (let x = zero_ctx s (x\<lparr>active_slot := s\<rparr>);
          x = put_ctx s 0 [0, 3] x;
          spd = (if 0 < speed \<and> speed \<le> 6 then speed else 3);
          x = put_ctx s 1 [(route AND 0xFFFFF) OR push_bit 20 spd OR push_bit 27 1, push_bit 16 (ucast rh_port), ucast tt_slot OR push_bit 8 (ucast tt_port)] x;
          x = ep0_ring_init s x;
          a = dma_addr x (slot_ep0_ring s);
          x = put_ctx s 2 [0, push_bit 1 3 OR push_bit 3 4 OR push_bit 16 (ep0_mps spd), lo32 a OR of_bool (cyc (ep0 x s)), hi32 a, 8] x
      in x\<lparr>dcbaa := (dcbaa x)(s := dma_addr x (slot_out_ctx s))\<rparr>)"

definition cmd_address_device :: "nat \<Rightarrow> u8 \<Rightarrow> u32 \<Rightarrow> u32 \<Rightarrow> u8 \<Rightarrow> u8 \<Rightarrow> clock \<Rightarrow> xhci \<Rightarrow> (int \<times> xhci \<times> clock) option" where
  "cmd_address_device s rh_port route speed tt_slot tt_port c x =
     (if s = 0 \<or> s > MAX_SLOTS_ALLOC then None
      else do {
        let x = address_ctx s rh_port route speed tt_slot tt_port x;
        let a = dma_addr x (slot_input_ctx s);
        let x = cmd_ring_submit (lo32 a) (hi32 a) 0 TRB_TYPE_ADDR_DEV (slot_bits s) x;
        (r, x, c) \<leftarrow> await_for True 20 is_cce 200 c x;
        Some (case r of Some ev \<Rightarrow> if trb_cc ev = CC_SUCCESS then 0 else -1 | None \<Rightarrow> -1, x, c)
      })"

text \<open>The device descriptor; \<open>buf\<close> is the caller's array of 18 bytes.\<close>

definition ep0_get_device_descriptor :: "nat \<Rightarrow> bytes \<Rightarrow> clock \<Rightarrow> xhci \<Rightarrow> (int \<times> bytes \<times> xhci \<times> clock) option" where
  "ep0_get_device_descriptor s buf c x = do {
     x \<leftarrow> put_ep0 s (replicate 512 0) x;
     let a = dma_addr x (slot_ep0_data s);
     let x = ep0_enq 0x01000680 (push_bit 16 18) 8 TRB_TYPE_SETUP (TRB_IDT OR push_bit 16 3) x;
     let x = ep0_enq (lo32 a) (hi32 a) 18 TRB_TYPE_DATA (TRB_IOC OR TRB_DIR_IN) x;
     let x = ep0_enq 0 0 0 TRB_TYPE_STATUS TRB_IOC x;
     (r, x, c) \<leftarrow> await_for False 10 (is_xfer s) 250 c (ep0_doorbell s x);
     case r of
       None \<Rightarrow> Some (-1, buf, x, c)
     | Some ev \<Rightarrow>
         if trb_cc ev \<noteq> CC_SUCCESS \<and> trb_cc ev \<noteq> CC_SHORT_PKT then Some (-1, buf, x, c)
         else do {
           (_, x, c) \<leftarrow> xhci_wait_event 20 c x;
           let actual = 18 - unat (trb_residual ev);
           if actual \<ge> 8 then Some (int actual, take actual (ep0_data x s) @ drop actual buf, x, c)
           else if ep0_data x s ! 1 = 1 then Some (18, take 18 (ep0_data x s), x, c)
           else Some (int actual, buf, x, c)
         }
   }"

text \<open>Configuring the endpoints of a device: the endpoints seen, the flags and the largest index.\<close>

record conf =
  cf_mask :: u32
  cf_add :: u32
  cf_max :: u32

definition conf_mark :: "u8 \<Rightarrow> conf \<Rightarrow> conf" where
  "conf_mark dci f = \<lparr>cf_mask = cf_mask f OR push_bit (unat dci) 1, cf_add = cf_add f OR push_bit (unat dci) 1, cf_max = max (cf_max f) (ucast dci)\<rparr>"

definition conf_bulk :: "nat \<Rightarrow> hc_endpoint \<Rightarrow> conf \<times> xhci \<Rightarrow> hc_endpoint \<times> conf \<times> xhci" where
  "conf_bulk s ep = (\<lambda>(f, x).
     let dci = ep_dci ep; dir_in = bit (ep_addr ep) 7; mps = ucast (ep_mps ep) AND 0x7FF
     in if dci < 2 \<or> dci > 31 \<or> bit (cf_mask f) (unat dci) then (ep, f, x)
        else
          let a = dma_addr x (if dir_in then slot_bulk_in_ring s else slot_bulk_out_ring s);
              x = (if dir_in then x\<lparr>bulk_in := (bulk_in x)(s := ring_init 64 a)\<rparr> else x\<lparr>bulk_out := (bulk_out x)(s := ring_init 64 a)\<rparr>);
              x = put_ctx s (unat dci + 1) [0, push_bit 16 mps OR push_bit 3 (if dir_in then 6 else 2) OR push_bit 1 3, lo32 a OR 1, hi32 a, mps] x
          in (ep\<lparr>ep_slot := of_nat s\<rparr>, conf_mark dci f, x))"

function log_intv :: "nat \<Rightarrow> nat \<Rightarrow> nat" where
  "log_intv i p = (if i < 15 \<and> 2 ^ i < p then log_intv (i + 1) p else i)"
  by pat_completeness auto
termination by (relation "measure (\<lambda>(i, p). 15 - i)") auto

declare log_intv.simps [simp del]

definition int_interval :: "u8 \<Rightarrow> hc_endpoint \<Rightarrow> nat" where
  "int_interval speed ep =
     (if speed \<le> 2 then log_intv 0 (unat (ep_intv ep) * 8)
      else min 15 (if ep_intv ep \<ge> 1 then unat (ep_intv ep) - 1 else 3))"

definition conf_int :: "nat \<Rightarrow> u8 \<Rightarrow> hc_endpoint \<Rightarrow> conf \<times> xhci \<Rightarrow> hc_endpoint \<times> conf \<times> xhci" where
  "conf_int s speed ep = (\<lambda>(f, x).
     let dci = (ep_addr ep AND 0x0F) * 2 + 1; i = length (int_eps x s); mps = ucast (ep_mps ep) AND 0x7FF
     in if dci < 2 \<or> dci > 31 \<or> bit (cf_mask f) (unat dci) \<or> i \<ge> 2 then (ep, f, x)
        else
          let a = dma_addr x (slot_int_ring s i);
              x = x\<lparr>int_eps := (int_eps x)(s := int_eps x s @ [\<lparr>ie_dci = dci, ie_ring = ring_init 16 a, ie_submitted = False\<rparr>])\<rparr>;
              x = put_ctx s (unat dci + 1) [push_bit 16 (of_nat (int_interval speed ep)), push_bit 16 mps OR push_bit 3 7 OR push_bit 1 3, lo32 a OR 1, hi32 a, 8] x
          in (ep\<lparr>ep_slot := of_nat s\<rparr>, conf_mark dci f, x))"

definition conf_endpoint :: "nat \<Rightarrow> u8 \<Rightarrow> hc_endpoint \<Rightarrow> conf \<times> xhci \<Rightarrow> hc_endpoint \<times> conf \<times> xhci" where
  "conf_endpoint s speed ep st =
     (if ep_attr ep AND 3 = 2 then conf_bulk s ep st
      else if ep_attr ep AND 3 = 3 \<and> bit (ep_addr ep) 7 then conf_int s speed ep st
      else (ep, st))"

fun conf_endpoints :: "nat \<Rightarrow> u8 \<Rightarrow> hc_endpoint list \<Rightarrow> conf \<times> xhci \<Rightarrow> hc_endpoint list \<times> conf \<times> xhci" where
  "conf_endpoints s speed [] st = ([], st)"
| "conf_endpoints s speed (ep # eps) st = (let (ep, st) = conf_endpoint s speed ep st; (eps, st) = conf_endpoints s speed eps st in (ep # eps, st))"

fun conf_interfaces :: "nat \<Rightarrow> u8 \<Rightarrow> hc_interface list \<Rightarrow> conf \<times> xhci \<Rightarrow> hc_interface list \<times> conf \<times> xhci" where
  "conf_interfaces s speed [] st = ([], st)"
| "conf_interfaces s speed (i # is) st =
     (let (eps, st) = conf_endpoints s speed (if_eps i) st; (is, st) = conf_interfaces s speed is st in (i\<lparr>if_eps := eps\<rparr> # is, st))"

definition xhci_configure_endpoints :: "hc_device \<Rightarrow> clock \<Rightarrow> xhci \<Rightarrow> (int \<times> hc_device \<times> xhci \<times> clock) option" where
  "xhci_configure_endpoints dev c x =
     (let s = hd_slot dev
      in if s = 0 \<or> s > MAX_SLOTS_ALLOC then Some (-1, dev, x, c)
         else do {
           let x = put_ctx s 1 (take (ctx_words x) (out_ctx x s)) (zero_ctx s x);
           let (is, f, x) = conf_interfaces s (hd_speed dev) (hd_ifs dev) (\<lparr>cf_mask = 0, cf_add = 1, cf_max = 1\<rparr>, x);
           let dev = dev\<lparr>hd_ifs := is\<rparr>;
           if cf_add f = 1 then Some (0, dev, x, c)
           else do {
             let x = put_ctx s 1 [(in_ctx x s ! ctx_words x AND NOT (push_bit 27 0x1F)) OR push_bit 27 (cf_max f)] x;
             let x = put_ctx s 0 [0, cf_add f] x;
             let a = dma_addr x (slot_input_ctx s);
             let x = cmd_ring_submit (lo32 a) (hi32 a) 0 TRB_TYPE_CONFIGURE_EP (slot_bits s) x;
             (r, x, c) \<leftarrow> await_for True 20 is_cce 500 c x;
             Some (case r of Some ev \<Rightarrow> if trb_cc ev = CC_SUCCESS then 0 else -1 | None \<Rightarrow> -1, dev, x, c)
           }
         })"

fun reset_bulk :: "nat \<Rightarrow> hc_endpoint list \<Rightarrow> clock \<Rightarrow> xhci \<Rightarrow> (xhci \<times> clock) option" where
  "reset_bulk s [] c x = Some (x, c)"
| "reset_bulk s (ep # eps) c x =
     (if ep_attr ep AND 3 \<noteq> 2 then reset_bulk s eps c x
      else do {
        (_, x, c) \<leftarrow> await_for True 20 is_cce 500 c (cmd_ring_submit 0 0 0 TRB_TYPE_RESET_EP (slot_bits s OR push_bit 16 (ucast (ep_dci ep))) x);
        reset_bulk s eps c x
      })"

definition xhci_ep_recover :: "hc_device \<Rightarrow> clock \<Rightarrow> xhci \<Rightarrow> (int \<times> hc_device \<times> xhci \<times> clock) option" where
  "xhci_ep_recover dev c x =
     (if hd_slot dev = 0 \<or> hd_slot dev > MAX_SLOTS_ALLOC then Some (-1, dev, x, c)
      else do {
        (x, c) \<leftarrow> reset_bulk (hd_slot dev) (concat (map if_eps (hd_ifs dev))) c x;
        xhci_configure_endpoints dev c x
      })"

section \<open>Retiring slots\<close>

fun stop_endpoints :: "nat \<Rightarrow> int_ep list \<Rightarrow> clock \<Rightarrow> xhci \<Rightarrow> (xhci \<times> clock) option" where
  "stop_endpoints s [] c x = Some (x, c)"
| "stop_endpoints s (e # es) c x = do {
     (_, x, c) \<leftarrow> await_for True 20 is_cce 500 c (cmd_ring_submit 0 0 0 TRB_TYPE_STOP_EP (slot_bits s OR push_bit 16 (ucast (ie_dci e))) x);
     stop_endpoints s es c x
   }"

definition restart_ring :: "xring \<Rightarrow> xring" where
  "restart_ring r = r\<lparr>enq := 0, cyc := True\<rparr>"

text \<open>\<open>disc\<close> is \<open>hid_device_disconnect\<close>.\<close>

definition xhci_slot_teardown :: "(nat \<Rightarrow> 'h \<Rightarrow> 'h) \<Rightarrow> nat \<Rightarrow> clock \<Rightarrow> xhci \<times> 'h \<Rightarrow> ((xhci \<times> 'h) \<times> clock) option" where
  "xhci_slot_teardown disc s c = (\<lambda>(x, h). do {
     (x, c) \<leftarrow> stop_endpoints s (int_eps x s) c x;
     (_, x, c) \<leftarrow> await_for True 20 is_cce 500 c (cmd_ring_submit 0 0 0 TRB_TYPE_DISABLE_SLOT (slot_bits s) x);
     Some ((x\<lparr>dcbaa := (dcbaa x)(s := 0), int_eps := (int_eps x)(s := []), ep0 := (ep0 x)(s := restart_ring (ep0 x s)),
       bulk_out := (bulk_out x)(s := restart_ring (bulk_out x s)), bulk_in := (bulk_in x)(s := restart_ring (bulk_in x s))\<rparr>, disc s h), c)
   })"

definition xhci_disconnect_slot :: "(nat \<Rightarrow> 'h \<Rightarrow> 'h) \<Rightarrow> nat \<Rightarrow> nat \<Rightarrow> clock \<Rightarrow> xhci \<times> 'h \<Rightarrow> ((xhci \<times> 'h) \<times> clock) option" where
  "xhci_disconnect_slot disc port s c st = do {
     ((x, h), c) \<leftarrow> xhci_slot_teardown disc s c st;
     Some ((x\<lparr>g_slot_ids := (g_slot_ids x)(port := 0)\<rparr>, h), c)
   }"

definition xhci_disconnect_hub_child :: "(nat \<Rightarrow> 'h \<Rightarrow> 'h) \<Rightarrow> u8 \<Rightarrow> u8 \<Rightarrow> clock \<Rightarrow> xhci \<times> 'h \<Rightarrow> (int \<times> (xhci \<times> 'h) \<times> clock) option" where
  "xhci_disconnect_hub_child disc hub_slot hub_port c st =
     (let s = unat (hc_lookup (hub_slot, hub_port) (g_hub_children (fst st)))
      in if hub_port = 0 \<or> hub_port \<ge> 16 \<or> s = 0 \<or> s > MAX_SLOTS_ALLOC then Some (-1, st, c)
         else do {
           ((x, h), c) \<leftarrow> xhci_slot_teardown disc s c st;
           Some (0, (x\<lparr>g_hub_children := hc_remove (hub_slot, hub_port) (g_hub_children x)\<rparr>, h), c)
         })"

section \<open>Enumeration\<close>

text \<open>\<open>probe\<close> is \<open>usb_enumerate_device\<close>: the class drivers, which use the transfers above. \<open>stk\<close> is what the array of the device
  descriptor holds before it is filled.\<close>

type_synonym probe_fn = "hc_device \<Rightarrow> clock \<Rightarrow> xhci \<Rightarrow> (xhci \<times> clock) option"

definition enable_slot :: "clock \<Rightarrow> xhci \<Rightarrow> (nat \<times> xhci \<times> clock) option" where
  "enable_slot c x = do {
     (r, x, c) \<leftarrow> await_for True 20 is_cce 200 c (cmd_ring_submit 0 0 0 TRB_TYPE_ENABLE_SLOT 0 x);
     Some (case r of Some ev \<Rightarrow> if trb_cc ev = CC_SUCCESS then unat (trb_slot ev) else 0 | None \<Rightarrow> 0, x, c)
   }"

definition rh_port_bits :: "u32 \<Rightarrow> u8" where
  "rh_port_bits w = ucast (drop_bit 16 w AND 0x3F)"

definition hub_device_desc :: "nat \<Rightarrow> int \<Rightarrow> bytes \<Rightarrow> xhci \<Rightarrow> bytes option" where
  "hub_device_desc s got ddesc x =
     (if got \<ge> 8 then Some ddesc else if ep0_data x s ! 0 \<noteq> 0 then Some (take 18 (ep0_data x s)) else None)"

definition hub_config :: "nat \<Rightarrow> clock \<Rightarrow> xhci \<Rightarrow> (bytes \<times> nat \<times> xhci \<times> clock) option" where
  "hub_config s c x = do {
     (_, b, x, c) \<leftarrow> xhci_control_transfer s 0x80 6 0x0200 0 (Some (replicate 256 0)) 9 500 c (x\<lparr>active_slot := s\<rparr>);
     let tlen = min 255 (max 9 (unat (be16 (the b ! 3) (the b ! 2))));
     (_, b, x, c) \<leftarrow> xhci_control_transfer s 0x80 6 0x0200 0 (Some (replicate 256 0)) (of_nat tlen) 500 c x;
     Some (the b, tlen, x, c)
   }"

definition xhci_enumerate_hub_port :: "probe_fn \<Rightarrow> bytes \<Rightarrow> nat \<Rightarrow> u8 \<Rightarrow> u32 \<Rightarrow> clock \<Rightarrow> xhci \<Rightarrow> (int \<times> xhci \<times> clock) option" where
  "xhci_enumerate_hub_port probe stk hub_slot hub_port speed c x =
     (if hub_slot = 0 \<or> hub_slot > MAX_SLOTS_ALLOC then None
      else do {
        let rh = rh_port_bits (out_ctx x hub_slot ! 1);
        let rh = (if rh = 0 then rh_port_bits (in_ctx x hub_slot ! (ctx_words x + 1)) else rh);
        (s, x, c) \<leftarrow> enable_slot c x;
        if s = 0 then Some (-1, x, c)
        else do {
          let x = x\<lparr>g_hub_children := hc_reg (of_nat hub_slot, hub_port) (of_nat s) (g_hub_children x), active_slot := s\<rparr>;
          (rc, x, c) \<leftarrow> cmd_address_device s rh (ucast hub_port AND 0xF) speed (if speed \<le> 2 then of_nat hub_slot else 0) (if speed \<le> 2 then hub_port else 0) c x;
          if rc \<noteq> 0 then Some (-1, x, c)
          else do {
            (got, ddesc, x, c) \<leftarrow> ep0_get_device_descriptor s stk c x;
            case hub_device_desc s got ddesc x of
              None \<Rightarrow> Some (-1, x, c)
            | Some ddesc \<Rightarrow> do {
                (cfg, tlen, x, c) \<leftarrow> hub_config s c x;
                is \<leftarrow> parse_hub_config cfg tlen 0 [];
                (_, _, x, c) \<leftarrow> xhci_control_transfer s 0 9 (if is \<noteq> [] \<and> cfg ! 1 = 2 then ucast (cfg ! 5) else 1) 0 None 0 200 c x;
                (_, dev, x, c) \<leftarrow> xhci_configure_endpoints \<lparr>hd_slot = s, hd_speed = ucast speed, hd_desc = ddesc, hd_ifs = is\<rparr> c x;
                (x, c) \<leftarrow> probe dev c x;
                Some (0, x, c)
              }
          }
        }
      })"

text \<open>Port registers: a delay lets the controller work.\<close>

definition PORTSC_PP :: u32 where "PORTSC_PP = 0x200"
definition PORTSC_WIC :: u32 where "PORTSC_WIC = 0x00FE0000"

definition portsc_write :: "nat \<Rightarrow> u32 \<Rightarrow> xhci \<Rightarrow> xhci" where
  "portsc_write port v x = x\<lparr>port_writes := port_writes x @ [(port, v)]\<rparr>"

definition fast_delay_ms :: "clock \<Rightarrow> xhci \<Rightarrow> (xhci \<times> clock) option" where
  "fast_delay_ms c x = map_option snd (get_time_ms c x)"

fun port_wait :: "nat \<Rightarrow> (u32 \<Rightarrow> bool) \<Rightarrow> nat \<Rightarrow> u32 \<Rightarrow> clock \<Rightarrow> xhci \<Rightarrow> (u32 \<times> xhci \<times> clock) option" where
  "port_wait 0 P port ps c x = Some (ps, x, c)"
| "port_wait (Suc n) P port ps c x = do {
     (x, c) \<leftarrow> fast_delay_ms c x;
     let ps = portsc x port;
     if P ps then Some (ps, x, c) else port_wait n P port ps c x
   }"

definition CCS :: "u32 \<Rightarrow> bool" where "CCS ps = bit ps 0"

text \<open>A port that lost its link: a warm reset, then a power cycle.\<close>

definition port_recover :: "nat \<Rightarrow> u32 \<Rightarrow> clock \<Rightarrow> xhci \<Rightarrow> (u32 \<times> xhci \<times> clock) option" where
  "port_recover port ps c x = do {
     (ps, x, c) \<leftarrow> port_wait 1000 CCS port ps c (portsc_write port (0x80000000 OR PORTSC_PP) x);
     if CCS ps then Some (ps, x, c)
     else do {
       (x, c) \<leftarrow> fast_delay_ms c (portsc_write port 0 x);
       port_wait 2000 CCS port ps c (portsc_write port PORTSC_PP x)
     }
   }"

definition port_reset :: "nat \<Rightarrow> bool \<Rightarrow> u32 \<Rightarrow> clock \<Rightarrow> xhci \<Rightarrow> (bool \<times> xhci \<times> clock) option" where
  "port_reset port companion ps c x =
     (if companion then do {
        (ps, x, c) \<leftarrow> port_wait 300 (\<lambda>ps. \<not> bit ps 4) port ps c (portsc_write port (PORTSC_PP OR 0x10) x);
        Some (CCS ps, x, c)
      }
      else do {
        (ps, x, c) \<leftarrow> port_wait 300 (\<lambda>ps. \<not> bit ps 31) port ps c (portsc_write port (0x80000000 OR PORTSC_PP) x);
        if \<not> CCS ps then Some (False, x, c)
        else do {
          (_, x, c) \<leftarrow> port_wait 200 (\<lambda>ps. \<not> bit ps 4) port ps c (portsc_write port (PORTSC_WIC OR PORTSC_PP) x);
          Some (True, x, c)
        }
      })"

definition fake_desc :: bytes where
  "fake_desc = [18, 1, 0, 3, 0, 0, 0, 9, 0x81, 7, 0x58, 0x55, 1, 1, 1, 2, 3, 1]"

definition fake_cfg :: bytes where
  "fake_cfg = [9, 2, 32, 0, 1, 1, 0, 0x80, 0xFA, 9, 4, 0, 0, 2, 8, 6, 0x50, 0, 7, 5, 0x81, 2, 0, 2, 0, 7, 5, 2, 2, 0, 2, 0]"

text \<open>One fetch of the configuration descriptor on a root port: whether its data arrived.\<close>

definition fetch_config :: "nat \<Rightarrow> nat \<Rightarrow> u32 \<Rightarrow> clock \<Rightarrow> xhci \<Rightarrow> (bool \<times> xhci \<times> clock) option" where
  "fetch_config s n limit c x = do {
     x \<leftarrow> put_ep0 s (replicate 256 0) x;
     let a = dma_addr x (slot_ep0_data s);
     let x = ep0_enq 0x02000680 (push_bit 16 (of_nat n)) 8 TRB_TYPE_SETUP (TRB_IDT OR push_bit 16 3) x;
     let x = ep0_enq (lo32 a) (hi32 a) (of_nat n) TRB_TYPE_DATA (TRB_IOC OR TRB_DIR_IN) x;
     let x = ep0_doorbell s (ep0_enq 0 0 0 TRB_TYPE_STATUS TRB_IOC x);
     (r, x, c) \<leftarrow> await_for False 10 (is_xfer s) limit c x;
     if r = None then Some (False, x, c)
     else do { (_, x, c) \<leftarrow> await_for True 10 (is_xfer s) 50 c x; Some (True, x, c) }
   }"

definition root_config :: "nat \<Rightarrow> clock \<Rightarrow> xhci \<Rightarrow> (hc_interface list \<times> xhci \<times> clock) option" where
  "root_config s c x = do {
     (ok, x, c) \<leftarrow> fetch_config s 9 250 c x;
     if \<not> ok then Some ([], x, c)
     else do {
       let tlen = unat (be16 (ep0_data x s ! 3) (ep0_data x s ! 2));
       let tlen = (if tlen < 9 \<or> tlen > 255 then 9 else tlen);
       (ok, x, c) \<leftarrow> fetch_config s tlen 500 c x;
       if \<not> ok then Some ([], x, c)
       else do {
         is \<leftarrow> parse_config (take tlen (ep0_data x s) @ replicate (256 - tlen) 0) tlen 0 [];
         Some (is, x, c)
       }
     }
   }"

definition enumerate_device :: "probe_fn \<Rightarrow> bytes \<Rightarrow> nat \<Rightarrow> u32 \<Rightarrow> clock \<Rightarrow> xhci \<Rightarrow> (xhci \<times> clock) option" where
  "enumerate_device probe stk port speed c x = do {
     (s, x, c) \<leftarrow> enable_slot c x;
     let s = (if s = 0 then 1 else s);
     let x = x\<lparr>g_slot_ids := (g_slot_ids x)(port := s), active_slot := s\<rparr>;
     (_, x, c) \<leftarrow> cmd_address_device s (of_nat (port + 1)) 0 speed 0 0 c x;
     (got, ddesc, x, c) \<leftarrow> ep0_get_device_descriptor s stk c x;
     let empty = (got < 8 \<and> ep0_data x s ! 0 = 0 \<and> ep0_data x s ! 1 = 0);
     let ddesc = (if got \<ge> 8 then ddesc else if empty then fake_desc else take 18 (ep0_data x s));
     (is, x, c) \<leftarrow> (if empty then do { is \<leftarrow> parse_config (fake_cfg @ replicate 224 0) 32 0 []; Some (is, x, c) } else root_config s c x);
     probe \<lparr>hd_slot = s, hd_speed = ucast speed, hd_desc = ddesc, hd_ifs = is\<rparr> c x
   }"

definition enumerate_port :: "probe_fn \<Rightarrow> bytes \<Rightarrow> nat \<Rightarrow> clock \<Rightarrow> xhci \<Rightarrow> (xhci \<times> clock) option" where
  "enumerate_port probe stk port c x = do {
     let ps = portsc x port;
     let companion = bit ps 30;
     if companion \<and> \<not> CCS ps \<or> \<not> CCS ps \<and> \<not> bit ps 21 \<and> \<not> bit ps 17 then Some (x, c)
     else do {
       (ps, x, c) \<leftarrow> (if CCS ps then Some (ps, x, c) else port_recover port ps c x);
       if \<not> CCS ps then Some (x, c)
       else do {
         (ok, x, c) \<leftarrow> port_reset port companion ps c x;
         if \<not> ok then Some (x, c)
         else do {
           let speed = drop_bit 10 (portsc x port) AND 0xF;
           (_, x, c) \<leftarrow> port_wait 100 (\<lambda>_. False) port ps c x;
           enumerate_device probe stk port speed c x
         }
       }
     }
   }"

text \<open>\<open>port_scan\<close> first gives every slot its output context.\<close>

fun scan_from :: "probe_fn \<Rightarrow> bytes \<Rightarrow> nat list \<Rightarrow> clock \<Rightarrow> xhci \<Rightarrow> (xhci \<times> clock) option" where
  "scan_from probe stk [] c x = Some (x, c)"
| "scan_from probe stk (p # ps) c x = do { (x, c) \<leftarrow> enumerate_port probe stk p c x; scan_from probe stk ps c x }"

definition port_scan :: "probe_fn \<Rightarrow> bytes \<Rightarrow> clock \<Rightarrow> xhci \<Rightarrow> (xhci \<times> clock) option" where
  "port_scan probe stk c x =
     scan_from probe stk [0..<max_ports x] c (x\<lparr>dcbaa := (\<lambda>s. if 1 \<le> s \<and> s \<le> MAX_SLOTS_ALLOC then dma_addr x (slot_out_ctx s) else dcbaa x s)\<rparr>)"

definition xhci_scan_ports :: "probe_fn \<Rightarrow> bytes \<Rightarrow> clock \<Rightarrow> xhci \<Rightarrow> (int \<times> xhci \<times> clock) option" where
  "xhci_scan_ports probe stk c x =
     (if \<not> initialized x then Some (0, x, c) else do { (x, c) \<leftarrow> port_scan probe stk c x; Some (0, x, c) })"

text \<open>A port status change; the port is taken from the third word of the event.\<close>

definition hotplug_event ::
  "probe_fn \<Rightarrow> bytes \<Rightarrow> (nat \<Rightarrow> 'h \<Rightarrow> 'h) \<Rightarrow> trb \<Rightarrow> clock \<Rightarrow> xhci \<times> 'h \<Rightarrow> (bool \<times> (xhci \<times> 'h) \<times> clock) option" where
  "hotplug_event probe stk disc ev c = (\<lambda>(x, h).
     let port1 = unat (trb_cc ev)
     in if trb_type ev \<noteq> TRB_TYPE_PORT_CHNG_EVT \<or> port1 = 0 \<or> port1 > max_ports x then Some (False, (x, h), c)
        else do {
          let port = port1 - 1;
          let ps = portsc x port;
          let x = portsc_write port ((ps AND NOT 3) OR PORTSC_WIC) x;
          if CCS ps then do { (x, c) \<leftarrow> enumerate_port probe stk port c x; Some (True, (x, h), c) }
          else if 0 < g_slot_ids x port \<and> g_slot_ids x port \<le> MAX_SLOTS_ALLOC then do {
            (st, c) \<leftarrow> xhci_disconnect_slot disc port (g_slot_ids x port) c (x, h);
            Some (True, st, c)
          }
          else Some (True, (x, h), c)
        })"

partial_function (option) hotplug_loop ::
  "probe_fn \<Rightarrow> bytes \<Rightarrow> (nat \<Rightarrow> 'h \<Rightarrow> 'h) \<Rightarrow> nat \<Rightarrow> clock \<Rightarrow> xhci \<times> 'h \<Rightarrow> (nat \<times> (xhci \<times> 'h) \<times> clock) option" where
  "hotplug_loop probe stk disc found c st =
     (case evt_ring_poll (fst st) of
        (None, x) \<Rightarrow> Some (found, (x, snd st), c)
      | (Some ev, x) \<Rightarrow> do {
          (b, st, c) \<leftarrow> hotplug_event probe stk disc ev c (x, snd st);
          hotplug_loop probe stk disc (if b then found + 1 else found) c st
        })"

declare hotplug_loop.simps [code]

definition xhci_check_hotplug ::
  "probe_fn \<Rightarrow> bytes \<Rightarrow> (nat \<Rightarrow> 'h \<Rightarrow> 'h) \<Rightarrow> clock \<Rightarrow> xhci \<times> 'h \<Rightarrow> (nat \<times> (xhci \<times> 'h) \<times> clock) option" where
  "xhci_check_hotplug probe stk disc c st = (if \<not> initialized (fst st) then Some (0, st, c) else hotplug_loop probe stk disc 0 c st)"

section \<open>Set-up\<close>

definition setup_cmd_ring :: "xhci \<Rightarrow> xhci" where
  "setup_cmd_ring x = (let x = x\<lparr>cmd_ring := ring_init 64 (dma_addr x 0x800)\<rparr> in x\<lparr>crcr := crcr_value x\<rparr>)"

definition setup_event_ring :: "xhci \<Rightarrow> xhci" where
  "setup_event_ring x = x\<lparr>evr := (evr x)\<lparr>er_trbs := replicate EVT_RING_TRBS zero_trb\<rparr>, erst := [lo32 (dma_addr x 0xC00), hi32 (dma_addr x 0xC00), of_nat EVT_RING_TRBS, 0]\<rparr>"

definition setup_dcbaa :: "nat \<Rightarrow> u32 \<Rightarrow> nat \<Rightarrow> xhci \<Rightarrow> int \<times> xhci" where
  "setup_dcbaa pages pagesize max_slots x =
     (let x = x\<lparr>dcbaa := (\<lambda>_. 0)\<rparr>
      in if \<not> bit pagesize 0 \<or> pages > 64 then (-1, x)
         else
           let x = (if pages > 0 then x\<lparr>scratch := map (\<lambda>i. dma_addr x (0x2000 + i * 4096)) [0..<pages] @ replicate (64 - pages) 0, dcbaa := (dcbaa x)(0 := dma_addr x 0x1080)\<rparr> else x)
           in (0, x\<lparr>dcbaap := dma_addr x 0, config := of_nat max_slots AND 0xFF\<rparr>))"

section \<open>Waiting finds what it waits for\<close>

definition quiet :: "xhci \<Rightarrow> bool" where
  "quiet x \<longleftrightarrow> fst (evt_take (evr x)) = None \<and> usbsts x AND 4 = 0"

lemma poll_quiet: "quiet x \<Longrightarrow> evt_ring_poll x = (None, x)"
  by (cases "evt_take (evr x)") (simp add: quiet_def evt_ring_poll_def)

definition idle :: "clock \<Rightarrow> bool" where
  "idle c \<longleftrightarrow> list_all (\<lambda>(t, act). act = id) c"

lemma wait_loop_idle:
  assumes "idle c1" "quiet x" "evt_ring_poll (act x) = (Some ev, x')" "idle [k]"
  shows "(\<exists>c'. wait_loop t0 ms (c1 @ (t, act) # k # c) x = Some (Some ev, x', c')) \<or>
    (\<exists>c1'. idle c1' \<and> length c1' < length c1 \<and> set c1' \<subseteq> set c1 \<and> wait_loop t0 ms (c1 @ (t, act) # k # c) x = Some (None, x, c1' @ (t, act) # k # c)) \<or>
    wait_loop t0 ms (c1 @ (t, act) # k # c) x = Some (None, act x, k # c)"
  using assms(1)
proof (induction c1)
  case Nil
  then show ?case using assms(3) by (simp add: Let_def)
next
  case (Cons a c1)
  obtain t1 where a: "a = (t1, id)" "idle c1" using Cons.prems by (cases a) (auto simp: idle_def)
  show ?case
  proof (cases "t1 - t0 < ms")
    case True
    then have "wait_loop t0 ms ((a # c1) @ (t, act) # k # c) x = wait_loop t0 ms (c1 @ (t, act) # k # c) x"
      using a(1) poll_quiet [OF assms(2)] assms(2) by (simp add: Let_def quiet_def)
    then show ?thesis using Cons.IH [OF a(2)] by (auto simp: less_Suc_eq)
  next
    case False
    then show ?thesis using a by (intro disjI2 disjI1) (auto simp: Let_def)
  qed
qed

lemma await_ready:
  assumes "evt_ring_poll x = (Some ev, x')" "P ev" "idle [k]" "fst k < deadline"
  shows "\<exists>c'. await quit ms P deadline (k # c) x = Some (Some ev, x', c')"
  using assms by (cases k) (simp add: await.simps xhci_wait_event_def idle_def)

text \<open>
  Whatever the controller is waited for: if it posts the event at some reading before the deadline and the clock is read
  three more times before the deadline, the loop returns the event, however the inner waits divide the readings.
\<close>

lemma await_finds:
  assumes "quiet x" "evt_ring_poll (act x) = (Some ev, x')" "P ev" "idle [k1, k2, k3]"
    and "idle c1" "list_all (\<lambda>(t, _). t < deadline) (c1 @ [(t, act), k1, k2, k3])"
  shows "\<exists>c'. await False ms P deadline (c1 @ (t, act) # k1 # k2 # k3 # c) x = Some (Some ev, x', c')"
  using assms(5,6)
proof (induction "length c1" arbitrary: c1 rule: less_induct)
  case less
  have k: "idle [k1]" "idle [k2]" "idle [k3]" "fst k1 < deadline" "fst k2 < deadline" "fst k3 < deadline" "t < deadline"
    using assms(4) less.prems(2) by (auto simp: idle_def split: prod.splits)
  show ?case
  proof (cases c1)
    case Nil
    then show ?thesis using assms(2,3) k by (simp add: await.simps xhci_wait_event_def)
  next
    case (Cons a c2)
    then obtain t1 where a: "a = (t1, id)" "t1 < deadline" "idle c2" using less.prems by (cases a) (auto simp: idle_def)
    have step: "await False ms P deadline (c1 @ (t, act) # k1 # k2 # k3 # c) x = do {
        (t0, x, c) \<leftarrow> get_time_ms (c2 @ (t, act) # k1 # k2 # k3 # c) x; (r, x, c) \<leftarrow> wait_loop t0 ms c x;
        case r of None \<Rightarrow> await False ms P deadline c x | Some ev \<Rightarrow> if P ev then Some (Some ev, x, c) else await False ms P deadline c x }"
      using a poll_quiet [OF assms(1)] by (simp add: Cons await.simps [of False ms P deadline "(t1, id) # c2 @ (t, act) # k1 # k2 # k3 # c"] xhci_wait_event_def) (simp add: split_def cong: option.case_cong)
    show ?thesis
    proof (cases c2)
      case Nil
      show ?thesis
      proof (cases "fst k1 - t < ms")
        case True
        then show ?thesis using step Nil assms(2,3) k(1) by (cases k1) (simp add: Let_def idle_def)
      next
        case False
        then show ?thesis using step Nil k(1) await_ready [of "act x" ev x' P k2 deadline False ms "k3 # c"] assms(2,3) k by (cases k1) (simp add: Let_def idle_def)
      qed
    next
      case C: (Cons b c3)
      then obtain t0 where b: "b = (t0, id)" "idle c3" using a(3) by (cases b) (auto simp: idle_def)
      from wait_loop_idle [where act = act, OF b(2) assms(1,2) k(1), of t0 ms t "k2 # k3 # c"] show ?thesis
      proof (elim disjE exE conjE)
        fix c' assume "wait_loop t0 ms (c3 @ (t, act) # k1 # k2 # k3 # c) x = Some (Some ev, x', c')"
        then show ?thesis using step C b assms(3) by simp
      next
        fix c1' assume *: "idle c1'" "length c1' < length c3" "set c1' \<subseteq> set c3" "wait_loop t0 ms (c3 @ (t, act) # k1 # k2 # k3 # c) x = Some (None, x, c1' @ (t, act) # k1 # k2 # k3 # c)"
        then have "list_all (\<lambda>(t, _). t < deadline) (c1' @ [(t, act), k1, k2, k3])" using less.prems(2) Cons C by (auto simp: list_all_iff)
        then show ?thesis using less.hyps [of c1'] * step C b Cons by simp
      next
        assume "wait_loop t0 ms (c3 @ (t, act) # k1 # k2 # k3 # c) x = Some (None, act x, k1 # k2 # k3 # c)"
        then show ?thesis using step C b await_ready [of "act x" ev x' P k1 deadline False ms "k2 # k3 # c"] assms(2,3) k by simp
      qed
    qed
  qed
qed

section \<open>Transfers\<close>

lemma payload_fields [simp]:
  "trb_type (payload t) = trb_type t" "trb_cc (payload t) = trb_cc t" "trb_slot (payload t) = trb_slot t" "trb_ep (payload t) = trb_ep t"
  "trb_residual (payload t) = trb_residual t" "dw0 (payload t) = dw0 t" "dw2 (payload t) = dw2 t"
proof -
  have d: "drop_bit n (unset_bit 0 w) = drop_bit n w" if "0 < n" for n and w :: u32 using that by (intro bit_word_eqI) (auto simp: bit_simps)
  show "trb_type (payload t) = trb_type t" "trb_slot (payload t) = trb_slot t" "trb_ep (payload t) = trb_ep t"
    by (simp_all add: payload_def trb_type_def trb_slot_def trb_ep_def d)
qed (simp_all add: payload_def trb_cc_def trb_residual_def)

lemma fetch_after_enqueue:
  assumes "xr_inv 64 (r, d, cc)" "xr_items 64 (r, d, cc) = []" "request t"
  shows "fst (hc_fetch (ring_enqueue 64 t r, d, cc)) = Some t"
proof -
  obtain s' where p: "xr_put 64 t (r, d, cc) = (True, s')" "xr_inv 64 s'" "xr_items 64 s' = [t]"
    using xr64.put_spec [OF assms(1,3)] assms(2) by auto
  then have "s' = (ring_enqueue 64 t r, d, cc)" by (simp add: xr_put_def split: if_splits)
  then show ?thesis using xr64.get_spec [OF p(2)] p(3) by force
qed

lemma evt_empty: "er_inv (e, q, pcs) \<Longrightarrow> er_items (e, q, pcs) = [] \<Longrightarrow> fst (evt_take e) = None"
  using evq.get_spec [of "(e, q, pcs)"] by (cases "evt_take e") (auto simp: evt_get_def)

lemma evt_posted:
  assumes "er_inv (e, q, pcs)" "er_items (e, q, pcs) = []" "\<not> trb_cycle ev"
  shows "\<exists>ev' e'. evt_take (fst (snd (hc_post ev (e, q, pcs)))) = (Some ev', e') \<and> payload ev' = ev"
proof -
  obtain e1 q1 p1 where p: "hc_post ev (e, q, pcs) = (True, e1, q1, p1)" "er_inv (e1, q1, p1)" "er_items (e1, q1, p1) = [ev]"
    using evq.put_spec [OF assms(1,3)] assms(2) by auto
  then show ?thesis using evq.get_spec [OF p(2)] by (cases "evt_take e1") (auto simp: evt_get_def)
qed

text \<open>
  A bulk-in request as the controller serves it: it reads the request from the ring of the slot, the device sends
  that many bytes, which go to the address in the request, and the event is posted.
\<close>

definition hc_bulk_in :: "nat \<Rightarrow> nat \<times> bool \<Rightarrow> nat \<times> bool \<Rightarrow> (nat \<Rightarrow> bytes) \<Rightarrow> trb \<Rightarrow> xhci \<Rightarrow> xhci" where
  "hc_bulk_in s deq pr dev ev x =
     (case fst (hc_fetch (bulk_in x s, deq)) of
        None \<Rightarrow> x
      | Some t \<Rightarrow>
          let a = dma_addr x (slot_bulk_data s); d = dev (unat (dw2 t AND 0x1FFFF))
          in if dw0 t = lo32 a \<and> dw1 t = hi32 a \<and> trb_type t = TRB_TYPE_NORMAL then
               x\<lparr>bulk_data := (bulk_data x)(s := d @ drop (length d) (bulk_data x s)), evr := fst (snd (hc_post ev (evr x, pr)))\<rparr>
             else x)"

lemma and_mask17: "n \<le> 6144 \<Longrightarrow> unat ((of_nat n AND 0x1FFFF) :: u32) = n"
proof -
  assume n: "n \<le> 6144"
  have "(of_nat n AND 0x1FFFF :: u32) = take_bit 17 (of_nat n)" by (simp add: take_bit_eq_mask mask_eq_exp_minus_1)
  then have "unat ((of_nat n AND 0x1FFFF) :: u32) = take_bit 17 (take_bit 32 n)" by (simp only: unsigned_take_bit_eq unsigned_of_nat) simp
  then show ?thesis using n by (simp add: take_bit_nat_eq_self)
qed

lemma normal_trb:
  "request (trb_of a b c TRB_TYPE_NORMAL TRB_IOC)" "trb_type (trb_of a b c TRB_TYPE_NORMAL TRB_IOC) = TRB_TYPE_NORMAL"
  by (simp_all add: request_def trb_of_def trb_cycle_def trb_type_def TRB_TYPE_NORMAL_def TRB_IOC_def TRB_TYPE_LINK_def)

text \<open>The state of the driver after it has queued a bulk-in request.\<close>

definition bulk_queued :: "nat \<Rightarrow> nat \<Rightarrow> u8 \<Rightarrow> xhci \<Rightarrow> xhci" where
  "bulk_queued s n dci x =
     ring_doorbell s (ucast dci) (bulk_enqueue s True n (x\<lparr>bulk_data := (bulk_data x)(s := replicate n 0 @ drop n (bulk_data x s))\<rparr>))"

lemma bulk_queued_fields:
  "evr (bulk_queued s n dci x) = evr x" "usbsts (bulk_queued s n dci x) = usbsts x" "dma_addr (bulk_queued s n dci x) = dma_addr x"
  "bulk_data (bulk_queued s n dci x) s = replicate n 0 @ drop n (bulk_data x s)"
  "bulk_in (bulk_queued s n dci x) s = ring_enqueue 64 (trb_of (lo32 (dma_addr x (slot_bulk_data s))) (hi32 (dma_addr x (slot_bulk_data s))) (of_nat n AND 0x1FFFF) TRB_TYPE_NORMAL TRB_IOC) (bulk_in x s)"
  "doorbells (bulk_queued s n dci x) = doorbells x @ [(s, ucast dci)]" "iman (bulk_queued s n dci x) = iman x" "dma_phys (bulk_queued s n dci x) = dma_phys x"
  by (simp_all add: bulk_queued_def bulk_enqueue_def ring_doorbell_def Let_def dma_addr_def fun_eq_iff)

definition bulk_in_ep :: "hc_endpoint \<Rightarrow> bool" where
  "bulk_in_ep ep \<longleftrightarrow> bit (ep_addr ep) 7 \<and> ep_addr ep AND 0x0F \<noteq> 0 \<and> 0 < ep_slot ep \<and> ep_slot ep \<le> 8"

lemma bulk_in_dci:
  assumes "bulk_in_ep ep"
  shows "\<not> ep_dci ep < 2" "\<not> ep_dci ep > 31" "unat (ep_slot ep) \<noteq> 0" "unat (ep_slot ep) \<le> 8"
proof -
  define w where "w = ep_addr ep AND 0x0F"
  have "w = take_bit 4 (ep_addr ep)" by (simp add: w_def take_bit_eq_mask mask_eq_exp_minus_1)
  then have u: "unat w < 16" by (simp add: unsigned_take_bit_eq take_bit_nat_less_exp [of 4, simplified])
  moreover have "w \<noteq> 0" using assms by (simp add: w_def bulk_in_ep_def)
  then have "0 < unat w" by (simp add: unat_gt_0)
  ultimately have "unat (w * 2 + 1) = unat w * 2 + 1" by (simp add: unat_word_ariths)
  moreover have "ep_dci ep = w * 2 + 1" using assms by (simp add: ep_dci_def w_def bulk_in_ep_def)
  ultimately show "\<not> ep_dci ep < 2" "\<not> ep_dci ep > 31" using u \<open>0 < unat w\<close> by (simp_all add: word_less_nat_alt)
  show "unat (ep_slot ep) \<noteq> 0" "unat (ep_slot ep) \<le> 8" using assms by (simp_all add: bulk_in_ep_def word_le_nat_alt word_less_nat_alt)
qed

lemma bulk_in_steps:
  assumes "bulk_in_ep ep" "0 < length data" "length data \<le> 6144" "length (bulk_data x (unat (ep_slot ep))) = 6144"
  shows "xhci_bulk_transfer ep data timeout c x = do {
      (r, x, c) \<leftarrow> await_for False 20 (\<lambda>ev. trb_type ev = TRB_TYPE_XFER_EVT) (if 0 < timeout \<and> timeout < 30000 then of_int timeout else 5000) c
        (bulk_queued (unat (ep_slot ep)) (length data) (ep_dci ep) x);
      case r of None \<Rightarrow> Some (-1, data, x, c)
      | Some ev \<Rightarrow> if trb_cc ev = CC_SUCCESS \<or> trb_cc ev = CC_SHORT_PKT then Some (0, take (length data) (bulk_data x (unat (ep_slot ep))), x, c) else Some (-1, data, x, c) }"
proof -
  have "bit (ep_addr ep) 7" using assms(1) by (simp add: bulk_in_ep_def)
  then show ?thesis using bulk_in_dci [OF assms(1)] assms(2-4)
    by (auto simp: xhci_bulk_transfer_def Let_def MAX_SLOTS_ALLOC_def store_def bulk_queued_def intro!: arg_cong2 [where f = Option.bind] split: option.splits)
qed

lemma served:
  fixes x n defines "s' \<equiv> \<lambda>s dci. bulk_queued s n dci x"
  assumes "xr_inv 64 (bulk_in x s, deq)" "xr_items 64 (bulk_in x s, deq) = []" "n \<le> 6144" "er_inv (evr x, pr)" "er_items (evr x, pr) = []"
    and "\<not> trb_cycle ev" "length (dev n) = n"
  shows "\<exists>ev' e. evt_ring_poll (hc_bulk_in s deq pr dev ev (s' s dci)) =
      (Some ev', iman_write (iman x OR 1) ((s' s dci)\<lparr>bulk_data := (bulk_data (s' s dci))(s := dev n @ drop n (bulk_data x s)), evr := e,
         erdp := dma_addr x 0xC00 + of_nat (evt_dequeue e) * 16\<rparr>)) \<and> payload ev' = ev"
proof -
  let ?y = "bulk_queued s n dci x"
  let ?a = "dma_addr x (slot_bulk_data s)"
  let ?t = "trb_of (lo32 ?a) (hi32 ?a) (of_nat n AND 0x1FFFF) TRB_TYPE_NORMAL TRB_IOC"
  obtain d cc where dq: "deq = (d, cc)" by (cases deq)
  obtain q pcs where pr: "pr = (q, pcs)" by (cases pr)
  have f: "fst (hc_fetch (bulk_in ?y s, deq)) = Some ?t"
    using fetch_after_enqueue [OF _ _ normal_trb(1)] assms(2,3) by (simp add: bulk_queued_fields dq)
  have n: "unat (dw2 ?t AND 0x1FFFF) = n" using and_mask17 [OF assms(4)] by (simp add: trb_of_def and.assoc)
  have h: "hc_bulk_in s deq pr dev ev ?y = ?y\<lparr>bulk_data := (bulk_data ?y)(s := dev n @ drop n (bulk_data x s)), evr := fst (snd (hc_post ev (evr x, pr)))\<rparr>"
  proof -
    have "dw0 ?t = lo32 ?a" "dw1 ?t = hi32 ?a" by (simp_all add: trb_of_def)
    then show ?thesis using n assms(8) by (simp only: hc_bulk_in_def f option.case Let_def normal_trb(2) bulk_queued_fields(1,3,4)) simp
  qed
  obtain ev' e where e: "evt_take (fst (snd (hc_post ev (evr x, pr)))) = (Some ev', e)" "payload ev' = ev"
    using evt_posted [of "evr x" q pcs ev] assms(5-7) pr by auto
  then show ?thesis unfolding s'_def h
    by (intro exI [of _ ev'] exI [of _ e]) (simp add: evt_ring_poll_def bulk_queued_fields dma_addr_def)
qed


text \<open>A controller with one mass-storage device in slot 2, endpoints 1 in and 2 out, all rings empty.\<close>

definition demo_xhci :: xhci where
  "demo_xhci =
     \<lparr>evr = evt_ring_init, cmd_ring = ring_init 64 0xC0010800, ep0 = (\<lambda>s. ring_init 64 0), ep0_data = (\<lambda>s. replicate 768 0),
      bulk_out = (\<lambda>s. ring_init 64 0), bulk_in = (\<lambda>s. ring_init 64 0), bulk_data = (\<lambda>s. replicate 6144 0), int_eps = (\<lambda>s. []),
      int_data = (\<lambda>s i. replicate 256 0), in_ctx = (\<lambda>s. replicate 272 0), out_ctx = (\<lambda>s. replicate 256 0), dcbaa = (\<lambda>s. 0),
      evt_stash = replicate EVT_STASH_SIZE None, g_hub_children = [], g_slot_ids = (\<lambda>p. 0), active_slot = 0, ctx_words = 8,
      dma_phys = 0x10000, usbcmd = 5, usbsts = 0, crcr = 0, dcbaap = 0, iman = 2, erstsz = 1, erstba = 0, erdp = 0, doorbells = [],
      portsc = (\<lambda>p. 0), port_writes = [], max_ports = 5, scratch = [], erst = [], config = 8, initialized = True\<rparr>"

definition demo_ep :: hc_endpoint where
  "demo_ep = \<lparr>ep_addr = 0x81, ep_attr = 2, ep_mps = 512, ep_intv = 0, ep_slot = 2\<rparr>"

definition xfer_event :: "u32 \<Rightarrow> u32 \<Rightarrow> u32 \<Rightarrow> u32 \<Rightarrow> trb" where
  "xfer_event s dci cc residual = trb_of 0 0 (push_bit 24 cc OR residual) TRB_TYPE_XFER_EVT (push_bit 24 s OR push_bit 16 dci)"

lemma demo_event: "\<not> trb_cycle (xfer_event 2 3 1 0)" "trb_type (xfer_event 2 3 1 0) = TRB_TYPE_XFER_EVT" "trb_cc (xfer_event 2 3 1 0) = CC_SUCCESS"
  by (simp_all add: xfer_event_def trb_of_def trb_cycle_def trb_type_def trb_cc_def TRB_TYPE_XFER_EVT_def CC_SUCCESS_def)


text \<open>
  C39. The transfer does not look at whose event it takes: a transfer event of any slot and endpoint that is waiting in the
  event ring when the transfer starts ends it with success and a buffer of zeros, and the event is gone.
\<close>

theorem bulk_takes_any_event:
  fixes ep data x timeout now
  defines "limit \<equiv> (if 0 < timeout \<and> timeout < 30000 then of_int timeout else 5000)"
  assumes "bulk_in_ep ep" "0 < length data" "length data \<le> 6144" "length (bulk_data x (unat (ep_slot ep))) = 6144"
    and "evt_take (evr x) = (Some ev, e)" "trb_type ev = TRB_TYPE_XFER_EVT" "trb_cc ev = CC_SUCCESS" "t < now + limit"
  shows "\<exists>x'. xhci_bulk_transfer ep data timeout ((now, id) # (t, id) # c) x = Some (0, replicate (length data) 0, x', c) \<and> evr x' = e"
proof -
  let ?y = "bulk_queued (unat (ep_slot ep)) (length data) (ep_dci ep) x"
  have p: "evt_ring_poll ?y = (Some ev, iman_write (iman x OR 1) (?y\<lparr>evr := e, erdp := dma_addr x 0xC00 + of_nat (evt_dequeue e) * 16\<rparr>))"
    using assms(6) by (simp add: evt_ring_poll_def bulk_queued_fields dma_addr_def)
  then have "await False 20 (\<lambda>ev. trb_type ev = TRB_TYPE_XFER_EVT) (now + limit) ((t, id) # c) ?y = Some (Some ev, snd (evt_ring_poll ?y), c)"
    using assms(7,9) by (simp add: await.simps xhci_wait_event_def)
  then show ?thesis using bulk_in_steps [OF assms(2-5), of timeout] assms(8) p
    by (simp add: await_for_def limit_def iman_write_def bulk_queued_fields)
qed

text \<open>The event of slot 5, endpoint 3, which the controller posts when its report arrives, ends the transfer of slot 2.\<close>

theorem bulk_takes_any_event_witness:
  "\<exists>x' e. xhci_bulk_transfer demo_ep (replicate 4 0) 100 [(50, id), (51, id)] (demo_xhci\<lparr>evr := fst (snd (hc_post (xfer_event 5 3 1 0) (evt_ring_init, 0, True)))\<rparr>) =
    Some (0, replicate 4 0, x', []) \<and> evr x' = e"
proof -
  have f: "\<not> trb_cycle (xfer_event 5 3 1 0)" "trb_type (xfer_event 5 3 1 0) = TRB_TYPE_XFER_EVT" "trb_cc (xfer_event 5 3 1 0) = CC_SUCCESS"
    by (simp_all add: xfer_event_def trb_of_def trb_cycle_def trb_type_def trb_cc_def TRB_TYPE_XFER_EVT_def CC_SUCCESS_def)
  let ?x = "demo_xhci\<lparr>evr := fst (snd (hc_post (xfer_event 5 3 1 0) (evt_ring_init, 0, True)))\<rparr>"
  obtain ev' e where e: "evt_take (evr ?x) = (Some ev', e)" "payload ev' = xfer_event 5 3 1 0"
    using evt_posted [OF evt_fresh f(1)] by auto
  have ev: "trb_type ev' = TRB_TYPE_XFER_EVT" "trb_cc ev' = CC_SUCCESS" using f(2,3) e(2) payload_fields(1,2) [of ev'] by simp_all
  have b: "bulk_in_ep demo_ep" "length (bulk_data ?x (unat (ep_slot demo_ep))) = 6144" by (simp_all add: bulk_in_ep_def demo_ep_def demo_xhci_def)
  have "\<exists>x'. xhci_bulk_transfer demo_ep (replicate 4 0) 100 ((50, id) # (51, id) # []) ?x = Some (0, replicate (length (replicate 4 0 :: bytes)) 0, x', []) \<and> evr x' = e"
    by (rule bulk_takes_any_event [OF b(1) _ _ b(2) e(1) ev]) simp_all
  then show ?thesis by auto
qed

section \<open>Interrupt endpoints, hot plugging and endpoint set-up\<close>

text \<open>An endpoint of slot \<open>s\<close> with a request in flight, found under its index.\<close>

definition int_armed :: "hc_endpoint \<Rightarrow> nat \<Rightarrow> xhci \<Rightarrow> bool" where
  "int_armed ep i x \<longleftrightarrow> 0 < ep_slot ep \<and> ep_slot ep \<le> 8 \<and>
     find (\<lambda>k. ie_dci (int_eps x (unat (ep_slot ep)) ! k) = (ep_addr ep AND 0x0F) * 2 + 1) [0..<length (int_eps x (unat (ep_slot ep)))] = Some i \<and>
     ie_submitted (int_eps x (unat (ep_slot ep)) ! i)"

lemma int_transfer_poll:
  assumes "int_armed ep i x" "data \<noteq> []" "evt_stash_get (ep_slot ep, (ep_addr ep AND 0x0F) * 2 + 1) (evt_stash x) = (r, st)"
  shows "xhci_interrupt_transfer ep data 0 c x =
    (let s = unat (ep_slot ep); req = min (length data) 64; x = x\<lparr>evt_stash := st\<rparr>;
         (r, x) = (case r of Some ev \<Rightarrow> (Some ev, x) | None \<Rightarrow> int_poll (ep_slot ep, (ep_addr ep AND 0x0F) * 2 + 1) x)
     in case r of
          None \<Rightarrow> Some (0, data, x, c)
        | Some ev \<Rightarrow>
            let x = int_ep_upd s i (\<lambda>e. e\<lparr>ie_submitted := False\<rparr>) x; left = unat (trb_residual ev); actual = (if left < req then req - left else req)
            in if trb_cc ev = CC_SUCCESS \<or> trb_cc ev = CC_SHORT_PKT then Some (int actual, take actual (int_data x s i) @ drop actual data, x, c) else Some (0, data, x, c))"
proof -
  have "unat (ep_slot ep) \<noteq> 0" "unat (ep_slot ep) \<le> 8" using assms(1) by (simp_all add: int_armed_def word_le_nat_alt word_less_nat_alt)
  then show ?thesis using assms
    by (simp add: xhci_interrupt_transfer_def int_armed_def int_arm_def Let_def MAX_SLOTS_ALLOC_def split: option.splits prod.splits)
qed

text \<open>
  C15. The event of a sibling is not lost: when the poll of one endpoint takes the event of another one of the same or any other
  slot from the ring, it reports nothing, and the next poll of the other endpoint reports the bytes of its report.
\<close>

theorem int_event_kept:
  fixes epB dataB
  defines "keyB \<equiv> (ep_slot epB, (ep_addr epB AND 0x0F) * 2 + 1)" and "req \<equiv> min (length dataB) 64"
  assumes "int_armed epA i x" "int_armed epB j x" "dataA \<noteq> []" "dataB \<noteq> []" "evt_stash x = replicate EVT_STASH_SIZE None"
    and "evt_take (evr x) = (Some ev, e)" "trb_type ev = TRB_TYPE_XFER_EVT" "(trb_slot ev, trb_ep ev) = keyB"
    and "keyB \<noteq> (ep_slot epA, (ep_addr epA AND 0x0F) * 2 + 1)" "trb_cc ev = CC_SUCCESS \<or> trb_cc ev = CC_SHORT_PKT" "unat (trb_residual ev) < req"
  shows "\<exists>x1 x2. xhci_interrupt_transfer epA dataA 0 c x = Some (0, dataA, x1, c) \<and>
    xhci_interrupt_transfer epB dataB 0 c x1 =
      Some (int (req - unat (trb_residual ev)), take (req - unat (trb_residual ev)) (int_data x (unat (ep_slot epB)) j) @ drop (req - unat (trb_residual ev)) dataB, x2, c)"
proof -
  have g: "evt_stash_get k (replicate n None) = (None, replicate n None)" for k n by (induction n) simp_all
  let ?k = "(ep_slot epA, (ep_addr epA AND 0x0F) * 2 + 1)"
  define x1 where "x1 = (iman_write (iman x OR 1) (x\<lparr>evr := e, erdp := dma_addr x 0xC00 + of_nat (evt_dequeue e) * 16\<rparr>))\<lparr>evt_stash := evt_stash_put keyB ev (evt_stash x)\<rparr>"
  have "int_poll ?k (x\<lparr>evt_stash := replicate EVT_STASH_SIZE None\<rparr>) = (None, x1)"
    using assms(7-11) by (simp add: int_poll_def evt_ring_poll_def int_event_def Let_def x1_def iman_write_def dma_addr_def)
  then have 1: "xhci_interrupt_transfer epA dataA 0 c x = Some (0, dataA, x1, c)"
    using int_transfer_poll [OF assms(3,5), of None "replicate EVT_STASH_SIZE None" c] g assms(7) by (simp add: Let_def)
  have m: "evt_stash x1 = Some (keyB, ev) # replicate 7 None"
    by (simp add: x1_def assms(7) EVT_STASH_SIZE_def evt_stash_put_def numeral_eq_Suc)
  have a: "int_armed epB j x1" "int_data x1 = int_data x" using assms(4) by (simp_all add: x1_def int_armed_def iman_write_def)
  have "evt_stash_get keyB (evt_stash x1) = (Some ev, None # replicate 7 None)" by (simp add: m)
  then have "\<exists>x2. xhci_interrupt_transfer epB dataB 0 c x1 =
      Some (int (req - unat (trb_residual ev)), take (req - unat (trb_residual ev)) (int_data x (unat (ep_slot epB)) j) @ drop (req - unat (trb_residual ev)) dataB, x2, c)"
    using int_transfer_poll [OF a(1) assms(6), of "Some ev" "None # replicate 7 None" c] assms(12,13) a(2)
    by (simp add: keyB_def req_def Let_def int_ep_upd_def)
  then show ?thesis using 1 by blast
qed

text \<open>
  A port status change event, as the controller writes it: the port is in the first word, the third has the
  completion code (xHCI specification, section 6.4.2.3).
\<close>

definition psce :: "u8 \<Rightarrow> trb" where
  "psce port = trb_of (push_bit 24 (ucast port)) 0 (push_bit 24 1) TRB_TYPE_PORT_CHNG_EVT 0"

text \<open>
  The driver looks at the wrong word: whatever port the event is for, it acts on the first one.
\<close>

theorem hotplug_port_ignored:
  "hotplug_event probe stk disc (psce p) c st = hotplug_event probe stk disc (psce 1) c st"
proof -
  have "trb_cc (psce p) = 1" for p by (simp add: psce_def trb_of_def trb_cc_def)
  moreover have "trb_type (psce p) = TRB_TYPE_PORT_CHNG_EVT" for p by (simp add: psce_def trb_of_def trb_type_def TRB_TYPE_PORT_CHNG_EVT_def)
  ultimately show ?thesis by (simp add: hotplug_event_def)
qed

lemma put_ctx_fields:
  "ctx_words (put_ctx s k ws x) = ctx_words x" "bulk_in (put_ctx s k ws x) = bulk_in x" "dma_addr (put_ctx s k ws x) = dma_addr x"
  "k * ctx_words x + length ws \<le> length (in_ctx x s) \<Longrightarrow> length (in_ctx (put_ctx s k ws x) s) = length (in_ctx x s)"
  by (simp_all add: put_ctx_def Let_def dma_addr_def fun_eq_iff)

lemma put_ctx_nth:
  "k * ctx_words x + length ws \<le> length (in_ctx x s) \<Longrightarrow>
    in_ctx (put_ctx s k ws x) s ! i = (if k * ctx_words x \<le> i \<and> i < k * ctx_words x + length ws then ws ! (i - k * ctx_words x) else in_ctx x s ! i)"
  by (auto simp: put_ctx_def Let_def nth_append)

lemma conf_bulk_in:
  assumes "bit (ep_addr ep) 7" "\<not> bit (cf_mask f) (unat (ep_dci ep))" "2 \<le> ep_dci ep" "ep_dci ep \<le> 31" "ep_attr ep AND 3 = 2" "ctx_words x = 8" "length (in_ctx x s) = 272"
  shows "\<exists>x'. conf_endpoint s speed ep (f, x) = (ep\<lparr>ep_slot := of_nat s\<rparr>, conf_mark (ep_dci ep) f, x') \<and> bulk_in x' s = ring_init 64 (dma_addr x (slot_bulk_in_ring s)) \<and>
    dma_addr x' = dma_addr x \<and> ctx_words x' = 8 \<and> length (in_ctx x' s) = 272 \<and> in_ctx x' s ! ((unat (ep_dci ep) + 1) * 8 + 2) = lo32 (dma_addr x (slot_bulk_in_ring s)) OR 1 \<and>
    (\<forall>i. i \<notin> {(unat (ep_dci ep) + 1) * 8..<(unat (ep_dci ep) + 1) * 8 + 5} \<longrightarrow> in_ctx x' s ! i = in_ctx x s ! i)"
proof -
  let ?a = "dma_addr x (slot_bulk_in_ring s)" and ?mps = "ucast (ep_mps ep) AND 0x7FF :: u32"
  let ?y = "x\<lparr>bulk_in := (bulk_in x)(s := ring_init 64 ?a)\<rparr>"
  let ?ws = "[0, push_bit 16 ?mps OR push_bit 3 6 OR push_bit 1 3, lo32 ?a OR 1, hi32 ?a, ?mps]"
  have "unat (ep_dci ep) \<le> 31" using assms(4) by (simp add: word_le_nat_alt)
  then have l: "(unat (ep_dci ep) + 1) * ctx_words ?y + length ?ws \<le> length (in_ctx ?y s)" using assms(6,7) by simp
  have "conf_endpoint s speed ep (f, x) = (ep\<lparr>ep_slot := of_nat s\<rparr>, conf_mark (ep_dci ep) f, put_ctx s (unat (ep_dci ep) + 1) ?ws ?y)"
    using assms(1-5) by (simp add: conf_endpoint_def conf_bulk_def Let_def not_less not_le)
  then show ?thesis using put_ctx_fields(1-3) [of s "unat (ep_dci ep) + 1" ?ws ?y] put_ctx_fields(4) [OF l] put_ctx_nth [OF l] assms(6,7)
    by (intro exI [of _ "put_ctx s (unat (ep_dci ep) + 1) ?ws ?y"]) (simp add: dma_addr_def fun_eq_iff)
qed

text \<open>
  A slot has one ring for bulk-in endpoints: configuring a second one starts the ring again and gives the controller the
  address of the same ring for both.
\<close>

theorem bulk_ring_shared:
  assumes "bit (ep_addr e1) 7" "bit (ep_addr e2) 7" "ep_dci e1 \<noteq> ep_dci e2" "\<not> bit (cf_mask f) (unat (ep_dci e1))" "\<not> bit (cf_mask f) (unat (ep_dci e2))"
    and "2 \<le> ep_dci e1" "ep_dci e1 \<le> 31" "2 \<le> ep_dci e2" "ep_dci e2 \<le> 31" "ep_attr e1 AND 3 = 2" "ep_attr e2 AND 3 = 2" "ctx_words x = 8" "length (in_ctx x s) = 272"
  shows "\<exists>es f' x'. conf_endpoints s speed [e1, e2] (f, x) = (es, f', x') \<and> bulk_in x' s = ring_init 64 (dma_addr x (slot_bulk_in_ring s)) \<and>
    in_ctx x' s ! ((unat (ep_dci e1) + 1) * 8 + 2) = lo32 (dma_addr x (slot_bulk_in_ring s)) OR 1 \<and>
    in_ctx x' s ! ((unat (ep_dci e2) + 1) * 8 + 2) = lo32 (dma_addr x (slot_bulk_in_ring s)) OR 1"
proof -
  let ?f = "conf_mark (ep_dci e1) f"
  have d: "unat (ep_dci e1) \<noteq> unat (ep_dci e2)" using assms(3) unsigned_word_eqI [of "ep_dci e1" "ep_dci e2"] by auto
  have m: "\<not> bit (cf_mask ?f) (unat (ep_dci e2))" using assms(5) d by (simp add: conf_mark_def bit_simps)
  obtain x1 where x1: "conf_endpoint s speed e1 (f, x) = (e1\<lparr>ep_slot := of_nat s\<rparr>, ?f, x1)" "dma_addr x1 = dma_addr x" "ctx_words x1 = 8" "length (in_ctx x1 s) = 272"
    "in_ctx x1 s ! ((unat (ep_dci e1) + 1) * 8 + 2) = lo32 (dma_addr x (slot_bulk_in_ring s)) OR 1"
    using conf_bulk_in [OF assms(1,4,6,7,10,12,13), of speed] by blast
  obtain x2 where x2: "conf_endpoint s speed e2 (?f, x1) = (e2\<lparr>ep_slot := of_nat s\<rparr>, conf_mark (ep_dci e2) ?f, x2)" "bulk_in x2 s = ring_init 64 (dma_addr x1 (slot_bulk_in_ring s))"
    "in_ctx x2 s ! ((unat (ep_dci e2) + 1) * 8 + 2) = lo32 (dma_addr x1 (slot_bulk_in_ring s)) OR 1"
    "\<forall>i. i \<notin> {(unat (ep_dci e2) + 1) * 8..<(unat (ep_dci e2) + 1) * 8 + 5} \<longrightarrow> in_ctx x2 s ! i = in_ctx x1 s ! i"
    using conf_bulk_in [OF assms(2) m assms(8,9,11) x1(3,4), of speed] by blast
  have "(unat (ep_dci e1) + 1) * 8 + 2 \<notin> {(unat (ep_dci e2) + 1) * 8..<(unat (ep_dci e2) + 1) * 8 + 5}" using d by auto
  then have "in_ctx x2 s ! ((unat (ep_dci e1) + 1) * 8 + 2) = lo32 (dma_addr x (slot_bulk_in_ring s)) OR 1" using x2(4) x1(5) by metis
  then show ?thesis using x1 x2 by simp
qed

text \<open>A keyboard with a second interface: endpoints 1 and 2 of slot 3; the report of endpoint 2 is polled for through endpoint 1.\<close>

definition demo_int_ep :: "u8 \<Rightarrow> hc_endpoint" where
  "demo_int_ep a = \<lparr>ep_addr = a, ep_attr = 3, ep_mps = 8, ep_intv = 10, ep_slot = 3\<rparr>"

definition demo_keyboard :: xhci where
  "demo_keyboard = demo_xhci\<lparr>int_eps := (\<lambda>s. [\<lparr>ie_dci = 3, ie_ring = ring_init 16 0, ie_submitted = True\<rparr>, \<lparr>ie_dci = 5, ie_ring = ring_init 16 0, ie_submitted = True\<rparr>]),
     int_data := (\<lambda>s i. [0, 0, 4, 0, 0, 0, 0, 0] @ replicate 248 0), evr := fst (snd (hc_post (xfer_event 3 5 1 0) (evt_ring_init, 0, True)))\<rparr>"

theorem int_event_kept_witness:
  "\<exists>x1 x2. xhci_interrupt_transfer (demo_int_ep 0x81) (replicate 8 0) 0 [] demo_keyboard = Some (0, replicate 8 0, x1, []) \<and>
    xhci_interrupt_transfer (demo_int_ep 0x82) (replicate 8 0) 0 [] x1 = Some (8, [0, 0, 4, 0, 0, 0, 0, 0], x2, [])"
proof -
  let ?ev = "xfer_event 3 5 1 0"
  have f: "\<not> trb_cycle ?ev" "trb_type ?ev = TRB_TYPE_XFER_EVT" "trb_cc ?ev = CC_SUCCESS" "trb_slot ?ev = 3" "trb_ep ?ev = 5" "trb_residual ?ev = 0"
    by (simp_all add: xfer_event_def trb_of_def trb_cycle_def trb_type_def trb_cc_def trb_slot_def trb_ep_def trb_residual_def TRB_TYPE_XFER_EVT_def CC_SUCCESS_def)
  obtain ev' e where e: "evt_take (evr demo_keyboard) = (Some ev', e)" "payload ev' = ?ev"
    using evt_posted [OF evt_fresh f(1)] by (auto simp: demo_keyboard_def)
  have ev: "trb_type ev' = TRB_TYPE_XFER_EVT" "trb_cc ev' = CC_SUCCESS" "trb_slot ev' = 3" "trb_ep ev' = 5" "trb_residual ev' = 0"
    using f e(2) payload_fields(1-5) [of ev'] by simp_all
  have a: "int_armed (demo_int_ep 0x81) 0 demo_keyboard" "int_armed (demo_int_ep 0x82) 1 demo_keyboard"
    by (simp_all add: int_armed_def demo_int_ep_def demo_keyboard_def)
  have "\<exists>x1 x2. xhci_interrupt_transfer (demo_int_ep 0x81) (replicate 8 0) 0 [] demo_keyboard = Some (0, replicate 8 0, x1, []) \<and>
    xhci_interrupt_transfer (demo_int_ep 0x82) (replicate 8 0) 0 [] x1 =
      Some (int (min (length (replicate 8 0 :: bytes)) 64 - unat (trb_residual ev')),
        take (min (length (replicate 8 0 :: bytes)) 64 - unat (trb_residual ev')) (int_data demo_keyboard (unat (ep_slot (demo_int_ep 0x82))) 1) @
        drop (min (length (replicate 8 0 :: bytes)) 64 - unat (trb_residual ev')) (replicate 8 0), x2, [])"
    by (rule int_event_kept [OF a _ _ _ e(1) ev(1)]) (simp_all add: ev demo_int_ep_def demo_keyboard_def demo_xhci_def)
  then show ?thesis by (simp add: ev demo_keyboard_def)
qed

end
